(* ===== verification/Prelude.thy ===== *)
theory Prelude
  imports Main "HOL-Library.Word" "HOL-Library.Monad_Syntax"
begin

unbundle bit_operations_syntax

text \<open>
  Shared vocabulary of the development: the machine types of the C code, the two ways a
  C function of this kernel ends (it returns, or it does not), the error codes of
  \<open>include/tomato/err.h\<close>, and the word lemmas the components share.

  A C function is a HOL function into \<open>option\<close> wherever it can fail to return: \<open>None\<close>
  stands for a failed \<open>ASSERT\<close> (which spins for ever, \<open>src/lib/assert.h\<close>), for the
  use of a null pointer, and for a loop that does not end.  \<open>Some\<close> of the result and
  the new state is a normal return.  A theorem that a function returns is always stated as
  an equation with \<open>Some\<close>, or as an existence of such a result.
\<close>

section \<open>Machine types\<close>

type_synonym u8 = "8 word"
type_synonym u16 = "16 word"
type_synonym u32 = "32 word"
type_synonym u64 = "64 word"

text \<open>A pointer is its 64-bit address; \<open>nullptr\<close> is the address 0.\<close>

type_synonym ptr = "64 word"

section \<open>Functions that may not return\<close>

text \<open>\<open>ASSERT(expr)\<close>: a false expression never returns.\<close>

definition ASSERT :: "bool \<Rightarrow> unit option" where
  "ASSERT b = (if b then Some () else None)"

text \<open>The use of a pointer (\<open>p->field\<close>) that must not be null.\<close>

definition chk :: "ptr \<Rightarrow> unit option" where
  "chk p = (if p = 0 then None else Some ())"

lemma ASSERT_simps [simp]: "ASSERT True = Some ()" "ASSERT False = None"
  by (simp_all add: ASSERT_def)

lemma chk_simps [simp]: "chk 0 = None" "p \<noteq> 0 \<Longrightarrow> chk p = Some ()"
  by (simp_all add: chk_def)

lemma ASSERT_eq_Some [simp]: "ASSERT b = Some u \<longleftrightarrow> b"
  by (simp add: ASSERT_def)

lemma bind_ASSERT_Some:
  "(ASSERT b \<bind> f) = Some r \<longleftrightarrow> b \<and> f () = Some r"
  by (simp add: ASSERT_def)

lemma bind_chk_Some:
  "(chk p \<bind> f) = Some r \<longleftrightarrow> p \<noteq> 0 \<and> f () = Some r"
  by (simp add: chk_def)

section \<open>Error codes\<close>

text \<open>\<open>tomato_err_t\<close>; an \<open>err_t\<close> is a struct around one code.\<close>

datatype err =
    SUCCESS
  | INTERNAL_ERROR
  | INVALID_ARGUMENT
  | OUT_OF_RESOURCES
  | ERROR_MAX

definition IS_ERROR :: "err \<Rightarrow> bool" where
  "IS_ERROR e \<longleftrightarrow> e \<noteq> SUCCESS"

lemma IS_ERROR_simps [simp]:
  "\<not> IS_ERROR SUCCESS" "IS_ERROR INTERNAL_ERROR" "IS_ERROR INVALID_ARGUMENT"
  "IS_ERROR OUT_OF_RESOURCES"
  by (simp_all add: IS_ERROR_def)

section \<open>Words\<close>

text \<open>Addresses whose two low bits are clear, as those of every aligned struct are.\<close>

definition aligned4 :: "ptr \<Rightarrow> bool" where
  "aligned4 p \<longleftrightarrow> p AND 3 = 0"

lemma aligned4_0 [simp]: "aligned4 0"
  by (simp add: aligned4_def)

lemma bit_3_iff: "bit (3::int) n \<longleftrightarrow> n < 2"
  by (cases n rule: nat.exhaust) (auto simp: bit_simps)

lemma bit_word_3_iff: "bit (3::u64) n \<longleftrightarrow> n < 2"
  by (cases n rule: nat.exhaust) (auto simp: bit_simps)

lemma aligned4_bit: "aligned4 p \<Longrightarrow> n < 2 \<Longrightarrow> \<not> bit p n"
  unfolding aligned4_def by (metis bit_word_3_iff bit_0_eq bit_and_iff bot_apply bot_bool_def)

lemma aligned4_plus_one: "aligned4 p \<Longrightarrow> p + 1 = p OR 1"
proof (rule disjunctive_add)
  fix n
  assume "aligned4 p"
  then show "\<not> bit p n \<or> \<not> bit (1::u64) n"
    by (cases n) (auto simp: bit_simps dest: aligned4_bit [of p 0])
qed

lemma aligned4_mask: "aligned4 p \<Longrightarrow> p AND NOT 3 = p"
  by (rule bit_word_eqI) (auto simp: bit_simps bit_3_iff dest: aligned4_bit)

lemma aligned4_plus_mask: "aligned4 p \<Longrightarrow> (p + 1) AND NOT 3 = p"
  by (simp add: aligned4_plus_one, rule bit_word_eqI)
    (auto simp: bit_simps bit_3_iff dest: aligned4_bit)

lemma aligned4_bit_0: "aligned4 p \<Longrightarrow> \<not> bit p 0"
  by (rule aligned4_bit) auto

lemma aligned4_and_1: "aligned4 p \<Longrightarrow> p AND 1 = 0"
  by (rule bit_word_eqI) (auto simp: bit_simps aligned4_bit_0 intro: gr0I)

lemma aligned4_plus_and_1: "aligned4 p \<Longrightarrow> (p + 1) AND 1 = 1"
  by (simp add: aligned4_plus_one bit.conj_disj_distrib2 aligned4_and_1)

end
