(* ===== verification/Arch.thy ===== *)
theory Arch
  imports Prelude
begin

text \<open>
  The constants of \<open>src/arch/virt.h\<close>: pages, page table entries and page fault error codes.
\<close>

section \<open>Pages\<close>

definition PAGE_SHIFT :: nat where "PAGE_SHIFT = 12"
definition PAGE_MASK :: u64 where "PAGE_MASK = 2 ^ PAGE_SHIFT - 1"
definition PAGE_SIZE :: u64 where "PAGE_SIZE = 2 ^ PAGE_SHIFT"

lemma PAGE_SIZE_eq: "PAGE_SIZE = 4096"
  by (simp add: PAGE_SIZE_def PAGE_SHIFT_def)

lemma PAGE_MASK_eq: "PAGE_MASK = 4095"
  by (simp add: PAGE_MASK_def PAGE_SHIFT_def)

section \<open>Page table entries\<close>

definition IA32_PG_P :: u64 where "IA32_PG_P = 2 ^ 0"
definition IA32_PG_RW :: u64 where "IA32_PG_RW = 2 ^ 1"
definition IA32_PG_U :: u64 where "IA32_PG_U = 2 ^ 2"
definition IA32_PG_A :: u64 where "IA32_PG_A = 2 ^ 5"
definition IA32_PG_D :: u64 where "IA32_PG_D = 2 ^ 6"
definition IA32_PG_G :: u64 where "IA32_PG_G = 2 ^ 8"
definition IA32_PG_NX :: u64 where "IA32_PG_NX = 2 ^ 63"

definition PAGING_4K_ADDRESS_MASK :: u64 where "PAGING_4K_ADDRESS_MASK = 0x000FFFFFFFFFF000"
definition PAGING_INDEX_BITS :: nat where "PAGING_INDEX_BITS = 9"
definition PAGING_INDEX_MASK :: u64 where "PAGING_INDEX_MASK = 2 ^ PAGING_INDEX_BITS - 1"

lemmas pg_defs = IA32_PG_P_def IA32_PG_RW_def IA32_PG_U_def IA32_PG_A_def IA32_PG_D_def
  IA32_PG_G_def IA32_PG_NX_def

section \<open>Page fault error codes\<close>

definition IA32_PF_EC_PROT :: u64 where "IA32_PF_EC_PROT = 2 ^ 0"
definition IA32_PF_EC_WRITE :: u64 where "IA32_PF_EC_WRITE = 2 ^ 1"
definition IA32_PF_EC_USER :: u64 where "IA32_PF_EC_USER = 2 ^ 2"
definition IA32_PF_EC_INSTR :: u64 where "IA32_PF_EC_INSTR = 2 ^ 4"

lemmas pf_defs = IA32_PF_EC_PROT_def IA32_PF_EC_WRITE_def IA32_PF_EC_USER_def
  IA32_PF_EC_INSTR_def

section \<open>\<open>util/defs.h\<close>\<close>

text \<open>The alignment macros, for an alignment that is a power of two, as the builtins require.\<close>

definition DIV_ROUND_UP :: "u64 \<Rightarrow> u64 \<Rightarrow> u64" where
  "DIV_ROUND_UP a b = (a + (b - 1)) div b"

definition ALIGN_DOWN :: "u64 \<Rightarrow> u64 \<Rightarrow> u64" where
  "ALIGN_DOWN x align = x AND NOT (align - 1)"

definition ALIGN_UP :: "u64 \<Rightarrow> u64 \<Rightarrow> u64" where
  "ALIGN_UP x align = (x + (align - 1)) AND NOT (align - 1)"

end
