(* ===== verification/Accounting.thy ===== *)
theory Accounting
  imports Prelude "HOL-Library.While_Combinator"
begin

text \<open>
  The page accounting of \<open>src/mem/accounting.c\<close>: four counters, each an atomic word.  A function of the
  file is the program that a thread which calls it still has to run: atomic accesses, what follows each,
  and the value it returns.  One thread alone runs a program to the end (\<open>acct_run\<close>), which gives the
  functions as the rest of the kernel uses them; any number of threads run theirs one access at a time
  (\<open>acct_step\<close>).
\<close>

record acct =
  m_available_pages :: u64
  m_total_pages :: u64
  m_committed_pages :: u64
  m_reserved_pages :: u64

datatype counter = Available | Total | Committed | Reserved

fun counter_of :: "counter \<Rightarrow> 'z acct_scheme \<Rightarrow> u64" where
  "counter_of Available s = m_available_pages s"
| "counter_of Total s = m_total_pages s"
| "counter_of Committed s = m_committed_pages s"
| "counter_of Reserved s = m_reserved_pages s"

fun set_counter :: "counter \<Rightarrow> u64 \<Rightarrow> 'z acct_scheme \<Rightarrow> 'z acct_scheme" where
  "set_counter Available v s = s\<lparr>m_available_pages := v\<rparr>"
| "set_counter Total v s = s\<lparr>m_total_pages := v\<rparr>"
| "set_counter Committed v s = s\<lparr>m_committed_pages := v\<rparr>"
| "set_counter Reserved v s = s\<lparr>m_reserved_pages := v\<rparr>"

section \<open>Programs\<close>

text \<open>
  \<open>Take n p q\<close> calls \<open>mem_acct_take_available(n)\<close> and goes on with \<open>p\<close> when it returned true and with \<open>q\<close> when
  it returned false; \<open>Taking n available p q\<close> is inside its loop, with the value last loaded.  \<open>Sub c n p\<close>
  is the fetch-and-subtract of \<open>checked_atomic_sub\<close>, and \<open>Assert_Ge old n p\<close> the assertion behind it,
  on the value it returned; \<open>Failed p\<close> is where the assertion has failed, for ever.  \<open>Add c n p\<close> is a
  fetch-and-add.
\<close>

datatype acct_prog =
    Return bool
  | Take u64 acct_prog acct_prog
  | Taking u64 u64 acct_prog acct_prog
  | Sub counter u64 acct_prog
  | Assert_Ge u64 u64 acct_prog
  | Failed acct_prog
  | Add counter u64 acct_prog

text \<open>One round of the loop of \<open>mem_acct_take_available\<close>: the result, or the value that the exchange
  found instead of the expected one.\<close>

definition take_available_round :: "u64 \<Rightarrow> u64 \<Rightarrow> 'z acct_scheme \<Rightarrow> (bool + u64) \<times> 'z acct_scheme" where
  "take_available_round page_count available s =
     (if available < page_count then (Inl False, s)
      else if m_available_pages s = available
      then (Inl True, s\<lparr>m_available_pages := available - page_count\<rparr>)
      else (Inr (m_available_pages s), s))"

definition checked_atomic_sub :: "counter \<Rightarrow> u64 \<Rightarrow> acct_prog \<Rightarrow> acct_prog" where
  "checked_atomic_sub c page_count p = Sub c page_count p"

text \<open>The next access (or the test of an assertion) of a program.\<close>

fun acct_exec :: "acct_prog \<Rightarrow> 'z acct_scheme \<Rightarrow> acct_prog \<times> 'z acct_scheme" where
  "acct_exec (Return r) s = (Return r, s)"
| "acct_exec (Take n p q) s = (Taking n (m_available_pages s) p q, s)"
| "acct_exec (Taking n available p q) s =
     (case take_available_round n available s of
        (Inl True, s) \<Rightarrow> (p, s)
      | (Inl False, s) \<Rightarrow> (q, s)
      | (Inr available, s) \<Rightarrow> (Taking n available p q, s))"
| "acct_exec (Sub c n p) s =
     (let old = counter_of c s in (Assert_Ge old n p, set_counter c (old - n) s))"
| "acct_exec (Assert_Ge old n p) s = (if old \<ge> n then (p, s) else (Failed p, s))"
| "acct_exec (Failed p) s = (Failed p, s)"
| "acct_exec (Add c n p) s = (p, set_counter c (counter_of c s + n) s)"

section \<open>The functions\<close>

definition mem_acct_reserve_prog :: "u64 \<Rightarrow> acct_prog" where
  "mem_acct_reserve_prog page_count =
     Take page_count (Add Reserved page_count (Return True)) (Return False)"

definition mem_acct_unreserve_prog :: "u64 \<Rightarrow> acct_prog" where
  "mem_acct_unreserve_prog page_count =
     checked_atomic_sub Reserved page_count (Add Available page_count (Return True))"

definition mem_acct_add_total_prog :: "u64 \<Rightarrow> acct_prog" where
  "mem_acct_add_total_prog page_count = Add Total page_count (Add Available page_count (Return True))"

definition mem_acct_add_committed_prog :: "u64 \<Rightarrow> acct_prog" where
  "mem_acct_add_committed_prog page_count = Add Total page_count (Add Committed page_count (Return True))"

definition mem_acct_commit_prog :: "u64 \<Rightarrow> acct_prog" where
  "mem_acct_commit_prog page_count =
     Take page_count (Add Committed page_count (Return True)) (Return False)"

definition mem_acct_commit_reserved_prog :: "u64 \<Rightarrow> acct_prog" where
  "mem_acct_commit_reserved_prog page_count =
     checked_atomic_sub Reserved page_count (Add Committed page_count (Return True))"

definition mem_acct_uncommit_prog :: "u64 \<Rightarrow> acct_prog" where
  "mem_acct_uncommit_prog page_count =
     checked_atomic_sub Committed page_count (Add Available page_count (Return True))"

definition mem_acct_uncommit_to_reserved_prog :: "u64 \<Rightarrow> acct_prog" where
  "mem_acct_uncommit_to_reserved_prog page_count =
     checked_atomic_sub Committed page_count (Add Reserved page_count (Return True))"

lemmas acct_progs = mem_acct_reserve_prog_def mem_acct_unreserve_prog_def mem_acct_add_total_prog_def
  mem_acct_add_committed_prog_def mem_acct_commit_prog_def mem_acct_commit_reserved_prog_def
  mem_acct_uncommit_prog_def mem_acct_uncommit_to_reserved_prog_def checked_atomic_sub_def

section \<open>One thread\<close>

fun finished :: "acct_prog \<Rightarrow> bool" where
  "finished (Return r) = True"
| "finished (Failed p) = True"
| "finished _ = False"

definition acct_run :: "acct_prog \<Rightarrow> 'z acct_scheme \<Rightarrow> acct_prog \<times> 'z acct_scheme" where
  "acct_run p s = while (\<lambda>(p, s). \<not> finished p) (\<lambda>(p, s). acct_exec p s) (p, s)"

lemma acct_run_finished [simp]: "acct_run (Return r) s = (Return r, s)" "acct_run (Failed p) s = (Failed p, s)"
  by (simp_all add: acct_run_def while_unfold)

lemma acct_run_step: "\<not> finished p \<Longrightarrow> acct_run p s = (case acct_exec p s of (p, s) \<Rightarrow> acct_run p s)"
  unfolding acct_run_def by (subst while_unfold) (simp add: case_prod_unfold)

text \<open>Nobody interferes, so the exchange succeeds at once.\<close>

lemma acct_run_simps [simp]:
  "acct_run (Take n p q) s =
     (if m_available_pages s < n then acct_run q s
      else acct_run p (s\<lparr>m_available_pages := m_available_pages s - n\<rparr>))"
  "acct_run (Sub c n p) s =
     (if counter_of c s \<ge> n then acct_run p (set_counter c (counter_of c s - n) s)
      else (Failed p, set_counter c (counter_of c s - n) s))"
  "acct_run (Add c n p) s = acct_run p (set_counter c (counter_of c s + n) s)"
  by (simp_all add: acct_run_step take_available_round_def Let_def)

text \<open>The value a function returns and the counters after it; \<open>None\<close> when its assertion fails.\<close>

definition acct_call :: "acct_prog \<Rightarrow> 'z acct_scheme \<Rightarrow> (bool \<times> 'z acct_scheme) option" where
  "acct_call p s = (case acct_run p s of (Return r, s) \<Rightarrow> Some (r, s) | _ \<Rightarrow> None)"

definition mem_acct_take_available :: "u64 \<Rightarrow> 'z acct_scheme \<Rightarrow> bool \<times> 'z acct_scheme" where
  "mem_acct_take_available page_count s = the (acct_call (Take page_count (Return True) (Return False)) s)"

definition mem_acct_reserve :: "u64 \<Rightarrow> 'z acct_scheme \<Rightarrow> err \<times> 'z acct_scheme" where
  "mem_acct_reserve page_count s =
     (let (ok, s) = the (acct_call (mem_acct_reserve_prog page_count) s)
      in (if ok then SUCCESS else OUT_OF_RESOURCES, s))"

definition mem_acct_unreserve :: "u64 \<Rightarrow> 'z acct_scheme \<Rightarrow> 'z acct_scheme option" where
  "mem_acct_unreserve page_count s = map_option snd (acct_call (mem_acct_unreserve_prog page_count) s)"

definition mem_acct_add_total :: "u64 \<Rightarrow> 'z acct_scheme \<Rightarrow> 'z acct_scheme" where
  "mem_acct_add_total page_count s = snd (the (acct_call (mem_acct_add_total_prog page_count) s))"

definition mem_acct_add_committed :: "u64 \<Rightarrow> 'z acct_scheme \<Rightarrow> 'z acct_scheme" where
  "mem_acct_add_committed page_count s = snd (the (acct_call (mem_acct_add_committed_prog page_count) s))"

definition mem_acct_commit :: "u64 \<Rightarrow> 'z acct_scheme \<Rightarrow> bool \<times> 'z acct_scheme" where
  "mem_acct_commit page_count s = the (acct_call (mem_acct_commit_prog page_count) s)"

definition mem_acct_commit_reserved :: "u64 \<Rightarrow> 'z acct_scheme \<Rightarrow> 'z acct_scheme option" where
  "mem_acct_commit_reserved page_count s =
     map_option snd (acct_call (mem_acct_commit_reserved_prog page_count) s)"

definition mem_acct_uncommit :: "u64 \<Rightarrow> 'z acct_scheme \<Rightarrow> 'z acct_scheme option" where
  "mem_acct_uncommit page_count s = map_option snd (acct_call (mem_acct_uncommit_prog page_count) s)"

definition mem_acct_uncommit_to_reserved :: "u64 \<Rightarrow> 'z acct_scheme \<Rightarrow> 'z acct_scheme option" where
  "mem_acct_uncommit_to_reserved page_count s =
     map_option snd (acct_call (mem_acct_uncommit_to_reserved_prog page_count) s)"

text \<open>What they do.\<close>

lemma acct_call_eqs:
  "acct_call (Take n (Add c n (Return True)) (Return False)) s =
     Some (if m_available_pages s < n then (False, s)
       else (True, let s = s\<lparr>m_available_pages := m_available_pages s - n\<rparr> in set_counter c (counter_of c s + n) s))"
  "acct_call (Sub c n (Add d n (Return True))) s =
     (if counter_of c s \<ge> n then
        let s = set_counter c (counter_of c s - n) s in Some (True, set_counter d (counter_of d s + n) s)
      else None)"
  by (simp_all add: acct_call_def Let_def)

lemma mem_acct_take_available_eq:
  "mem_acct_take_available n s =
     (if m_available_pages s < n then (False, s) else (True, s\<lparr>m_available_pages := m_available_pages s - n\<rparr>))"
  by (simp add: mem_acct_take_available_def acct_call_def)

lemma mem_acct_reserve_eq:
  "mem_acct_reserve n s =
     (if m_available_pages s < n then (OUT_OF_RESOURCES, s)
      else (SUCCESS, s\<lparr>m_available_pages := m_available_pages s - n, m_reserved_pages := m_reserved_pages s + n\<rparr>))"
  by (simp add: mem_acct_reserve_def mem_acct_reserve_prog_def acct_call_eqs Let_def)

lemma mem_acct_commit_eq:
  "mem_acct_commit n s =
     (if m_available_pages s < n then (False, s)
      else (True, s\<lparr>m_available_pages := m_available_pages s - n, m_committed_pages := m_committed_pages s + n\<rparr>))"
  by (simp add: mem_acct_commit_def mem_acct_commit_prog_def acct_call_eqs Let_def)

lemma mem_acct_add_eq:
  "mem_acct_add_total n s =
     s\<lparr>m_total_pages := m_total_pages s + n, m_available_pages := m_available_pages s + n\<rparr>"
  "mem_acct_add_committed n s =
     s\<lparr>m_total_pages := m_total_pages s + n, m_committed_pages := m_committed_pages s + n\<rparr>"
  by (simp_all add: mem_acct_add_total_def mem_acct_add_committed_def mem_acct_add_total_prog_def
    mem_acct_add_committed_prog_def acct_call_def)

lemma mem_acct_sub_eq:
  "mem_acct_unreserve n s = (if m_reserved_pages s \<ge> n then Some (s\<lparr>m_reserved_pages := m_reserved_pages s - n,
     m_available_pages := m_available_pages s + n\<rparr>) else None)"
  "mem_acct_commit_reserved n s = (if m_reserved_pages s \<ge> n then Some (s\<lparr>m_reserved_pages := m_reserved_pages s - n,
     m_committed_pages := m_committed_pages s + n\<rparr>) else None)"
  "mem_acct_uncommit n s = (if m_committed_pages s \<ge> n then Some (s\<lparr>m_committed_pages := m_committed_pages s - n,
     m_available_pages := m_available_pages s + n\<rparr>) else None)"
  "mem_acct_uncommit_to_reserved n s = (if m_committed_pages s \<ge> n then Some (s\<lparr>m_committed_pages := m_committed_pages s - n,
     m_reserved_pages := m_reserved_pages s + n\<rparr>) else None)"
  by (simp_all add: mem_acct_unreserve_def mem_acct_commit_reserved_def mem_acct_uncommit_def
    mem_acct_uncommit_to_reserved_def acct_progs acct_call_eqs Let_def)

section \<open>Threads\<close>

text \<open>The pages that a thread has taken out of a counter and will still put into one.\<close>

fun in_flight :: "acct_prog \<Rightarrow> int" where
  "in_flight (Return r) = 0"
| "in_flight (Take n p q) = in_flight q"
| "in_flight (Taking n available p q) = in_flight q"
| "in_flight (Sub c n p) = in_flight p - uint n"
| "in_flight (Assert_Ge old n p) = in_flight p"
| "in_flight (Failed p) = in_flight p"
| "in_flight (Add c n p) = in_flight p + (if c = Total then - uint n else uint n)"

text \<open>A failed assertion, or one that is about to fail.\<close>

fun failing :: "acct_prog \<Rightarrow> bool" where
  "failing (Assert_Ge old n p) = (old < n)"
| "failing (Failed p) = True"
| "failing _ = False"

definition acct_calls :: "acct_prog set" where
  "acct_calls = (\<Union>n. {mem_acct_reserve_prog n, mem_acct_unreserve_prog n, mem_acct_add_total_prog n,
     mem_acct_add_committed_prog n, mem_acct_commit_prog n, mem_acct_commit_reserved_prog n,
     mem_acct_uncommit_prog n, mem_acct_uncommit_to_reserved_prog n})"

text \<open>Memory that is added exists: there are fewer than 2 to the 64 pages.\<close>

fun exists_memory :: "acct_prog \<Rightarrow> acct \<Rightarrow> bool" where
  "exists_memory (Add Total n p) s \<longleftrightarrow> uint (m_total_pages s) + uint n < 2 ^ 64"
| "exists_memory _ s \<longleftrightarrow> True"

text \<open>A thread that has returned calls any of the functions; one inside a function makes its next
  access.  The exchange is a weak one: it may also fail when it finds the expected value.\<close>

inductive acct_step :: "acct \<times> acct_prog list \<Rightarrow> acct \<times> acct_prog list \<Rightarrow> bool" where
  call: "i < length ts \<Longrightarrow> ts ! i = Return r \<Longrightarrow> p \<in> acct_calls \<Longrightarrow> acct_step (s, ts) (s, ts[i := p])"
| access: "i < length ts \<Longrightarrow> exists_memory (ts ! i) s \<Longrightarrow> acct_exec (ts ! i) s = (p, s') \<Longrightarrow>
    acct_step (s, ts) (s', ts[i := p])"
| spurious: "i < length ts \<Longrightarrow> ts ! i = Taking n available p q \<Longrightarrow> \<not> available < n \<Longrightarrow>
    acct_step (s, ts) (s, ts[i := Taking n (m_available_pages s) p q])"

definition acct_init :: acct where
  "acct_init = \<lparr>m_available_pages = 0, m_total_pages = 0, m_committed_pages = 0, m_reserved_pages = 0\<rparr>"

text \<open>A program in which every page that is taken is put back somewhere, and not before it was taken.\<close>

fun balanced :: "acct_prog \<Rightarrow> bool" where
  "balanced (Return r) \<longleftrightarrow> True"
| "balanced (Take n p q) \<longleftrightarrow> in_flight p = in_flight q + uint n \<and> 0 \<le> in_flight q \<and> balanced p \<and> balanced q"
| "balanced (Taking n available p q) \<longleftrightarrow> in_flight p = in_flight q + uint n \<and> 0 \<le> in_flight q \<and> balanced p \<and> balanced q"
| "balanced (Sub c n p) \<longleftrightarrow> c \<noteq> Total \<and> uint n \<le> in_flight p \<and> balanced p"
| "balanced (Assert_Ge old n p) \<longleftrightarrow> 0 \<le> in_flight p \<and> balanced p"
| "balanced (Failed p) \<longleftrightarrow> 0 \<le> in_flight p \<and> balanced p"
| "balanced (Add c n p) \<longleftrightarrow> 0 \<le> in_flight (Add c n p) \<and> 0 \<le> in_flight p \<and> balanced p"

lemma balanced_nonneg: "balanced p \<Longrightarrow> 0 \<le> in_flight p"
  by (cases p) auto

lemma calls_balanced: "p \<in> acct_calls \<Longrightarrow> balanced p \<and> in_flight p = 0 \<and> \<not> failing p"
  by (auto simp: acct_calls_def acct_progs)

definition in_flights :: "acct_prog list \<Rightarrow> int" where
  "in_flights ts = sum_list (map in_flight ts)"

lemma in_flights_update: "i < length ts \<Longrightarrow> in_flights (ts[i := p]) = in_flights ts - in_flight (ts ! i) + in_flight p"
  unfolding in_flights_def by (induction ts arbitrary: i) (auto split: nat.splits)

lemma in_flights_nonneg: "\<forall>p\<in>set ts. balanced p \<Longrightarrow> 0 \<le> in_flights ts"
  unfolding in_flights_def by (induction ts) (auto dest: balanced_nonneg)

lemma in_flights_ge: "\<forall>p\<in>set ts. balanced p \<Longrightarrow> i < length ts \<Longrightarrow> in_flight (ts ! i) \<le> in_flights ts"
proof -
  assume b: "\<forall>p\<in>set ts. balanced p" and i: "i < length ts"
  have "balanced p" if "p \<in> set (ts[i := Return True])" for p
    using that b set_update_subset_insert [of ts i "Return True"] by auto
  then show ?thesis using in_flights_update [OF i, of "Return True"] in_flights_nonneg [of "ts[i := Return True]"] by auto
qed

definition all_pages :: "acct \<Rightarrow> acct_prog list \<Rightarrow> bool" where
  "all_pages s ts \<longleftrightarrow> uint (m_available_pages s) + uint (m_committed_pages s) +
     uint (m_reserved_pages s) + in_flights ts = uint (m_total_pages s)"

lemma unat_add_exact: "unat (a :: u64) + unat b < 2 ^ 64 \<Longrightarrow> unat (a + b) = unat a + unat b"
  by (simp add: unat_word_ariths)

lemma unat_sub_exact: "b \<le> (a :: u64) \<Longrightarrow> unat (a - b) = unat a - unat b \<and> unat b \<le> unat a"
  by (simp add: unat_sub word_le_nat_alt)

text \<open>One access keeps a program balanced and, unless its assertion fails, the sum.\<close>

lemma uint_add_exact: "uint (a :: u64) + uint b < 2 ^ 64 \<Longrightarrow> uint (a + b) = uint a + uint b"
  using uint_add_lem [of a b] by simp

lemma uint_sub_exact: "b \<le> (a :: u64) \<Longrightarrow> uint (a - b) = uint a - uint b"
  using uint_sub_lem [of b a] by (simp add: word_le_def)

lemma exec_balanced: "balanced p \<Longrightarrow> acct_exec p s = (p', s') \<Longrightarrow> balanced p'"
  by (cases p) (auto simp: take_available_round_def Let_def intro: order_trans [OF uint_ge_0] split: if_splits)

lemma exec_failing: "failing p \<Longrightarrow> acct_exec p s = (p', s') \<Longrightarrow> failing p'"
  by (cases p) (auto split: if_splits)

lemma exec_sum:
  assumes all: "all_pages s ts" and b: "\<forall>p\<in>set ts. balanced p" and i: "i < length ts"
    and fit: "exists_memory (ts ! i) s" and e: "acct_exec (ts ! i) s = (p, s')" and nf: "\<not> failing p"
  shows "all_pages s' (ts[i := p])"
proof -
  note up = in_flights_update [OF i, of p] and ge = in_flights_ge [OF b i]
  have bi: "balanced (ts ! i)" using b i by simp
  have top: "uint (m_total_pages s) < 2 ^ 64" using uint_lt2p [of "m_total_pages s"] by simp
  show ?thesis
  proof (cases "ts ! i")
    case (Taking n available q r)
    then show ?thesis
      using all up e bi uint_sub_exact [of n available]
      by (auto simp: all_pages_def take_available_round_def not_less split: if_splits)
  next
    case (Sub c n q)
    then have old: "n \<le> counter_of c s" "p = Assert_Ge (counter_of c s) n q" "s' = set_counter c (counter_of c s - n) s"
      using e nf by (auto simp: Let_def)
    show ?thesis
      using all up bi uint_sub_exact [OF old(1)] Sub old(2,3) by (cases c) (auto simp: all_pages_def)
  next
    case (Add c n q)
    then have p: "p = q" "s' = set_counter c (counter_of c s + n) s" using e by auto
    show ?thesis
    proof (cases "c = Total")
      case True
      then show ?thesis
        using all up fit uint_add_exact [of "m_total_pages s" n] Add p by (simp add: all_pages_def)
    next
      case False
      have "0 \<le> in_flight q" using bi Add by simp
      then have n: "uint n \<le> in_flights ts" using ge Add False by simp
      note nn = uint_ge_0 [of "m_available_pages s"] uint_ge_0 [of "m_committed_pages s"] uint_ge_0 [of "m_reserved_pages s"]
      have "uint (counter_of c s) + in_flights ts \<le> uint (m_total_pages s)"
      proof -
        note sum = all [unfolded all_pages_def]
        show ?thesis
        proof (cases c)
          case Available then show ?thesis using sum nn by (simp only: counter_of.simps)
        next
          case Committed then show ?thesis using sum nn by (simp only: counter_of.simps)
        next
          case Reserved then show ?thesis using sum nn by (simp only: counter_of.simps)
        qed (use False in simp)
      qed
      then have "uint (counter_of c s) + uint n < 2 ^ 64" using n top by linarith
      from uint_add_exact [OF this] show ?thesis
        using all up Add p False by (cases c) (simp_all add: all_pages_def)
    qed
  qed (use all up e nf in \<open>auto simp: all_pages_def split: if_splits\<close>)
qed

definition acct_inv :: "acct \<times> acct_prog list \<Rightarrow> bool" where
  "acct_inv = (\<lambda>(s, ts). (\<forall>p\<in>set ts. balanced p) \<and> ((\<exists>p\<in>set ts. failing p) \<or> all_pages s ts))"

lemma balanced_update: "\<forall>p\<in>set ts. balanced p \<Longrightarrow> balanced p \<Longrightarrow> \<forall>p\<in>set (ts[i := p]). balanced p"
  using set_update_subset_insert [of ts i p] by auto

text \<open>Whoever failed stays where the assertion failed.\<close>

lemma failing_update:
  assumes "\<exists>p\<in>set ts. failing p" "i < length ts" "failing (ts ! i) \<Longrightarrow> failing p"
  shows "\<exists>p\<in>set (ts[i := p]). failing p"
proof -
  obtain j where j: "j < length ts" "failing (ts ! j)" using assms(1) by (auto simp: in_set_conv_nth)
  show ?thesis
  proof (cases "i = j")
    case True
    then show ?thesis using assms(2,3) j by (auto intro: set_update_memI)
  next
    case False
    then have "ts[i := p] ! j = ts ! j" by simp
    then show ?thesis using j by (metis length_list_update nth_mem)
  qed
qed

lemma acct_invI:
  assumes "\<forall>p\<in>set ts. balanced p" "i < length ts" "balanced p"
    and "failing (ts ! i) \<Longrightarrow> failing p" "(\<exists>p\<in>set ts. failing p) \<or> failing p \<or> all_pages s (ts[i := p])"
  shows "acct_inv (s, ts[i := p])"
  using balanced_update [OF assms(1,3)] failing_update [OF _ assms(2,4)] assms(2,5)
  by (auto simp: acct_inv_def intro: set_update_memI)

lemma acct_inv_step: "acct_step x y \<Longrightarrow> acct_inv x \<Longrightarrow> acct_inv y"
proof (induction rule: acct_step.induct)
  case (call i ts r p s)
  then have b: "\<forall>p\<in>set ts. balanced p" and or: "(\<exists>p\<in>set ts. failing p) \<or> all_pages s ts"
    by (simp_all add: acct_inv_def)
  note p = calls_balanced [OF call(3)]
  show ?case
  proof (rule acct_invI [OF b call(1)])
    show "(\<exists>p\<in>set ts. failing p) \<or> failing p \<or> all_pages s (ts[i := p])"
      using or p in_flights_update [OF call(1), of p] call(2) by (auto simp: all_pages_def)
  qed (use p call(2) in simp_all)
next
  case (access i ts s p s')
  then have b: "\<forall>p\<in>set ts. balanced p" and or: "(\<exists>p\<in>set ts. failing p) \<or> all_pages s ts"
    by (simp_all add: acct_inv_def)
  show ?case
  proof (rule acct_invI [OF b access(1)])
    show "balanced p" using exec_balanced [OF _ access(3)] b access(1) by simp
    show "failing (ts ! i) \<Longrightarrow> failing p" by (rule exec_failing [OF _ access(3)])
    show "(\<exists>p\<in>set ts. failing p) \<or> failing p \<or> all_pages s' (ts[i := p])"
      using exec_sum [OF _ b access(1-3)] or by blast
  qed
next
  case (spurious i ts n available p q s)
  then have b: "\<forall>p\<in>set ts. balanced p" and or: "(\<exists>p\<in>set ts. failing p) \<or> all_pages s ts"
    by (simp_all add: acct_inv_def)
  have "balanced (ts ! i)" using b spurious(1) by simp
  then have "balanced (Taking n (m_available_pages s) p q)" unfolding spurious(2) by simp
  then show ?case
  proof (rule acct_invI [OF b spurious(1)])
    show "(\<exists>p\<in>set ts. failing p) \<or> failing (Taking n (m_available_pages s) p q) \<or>
        all_pages s (ts[i := Taking n (m_available_pages s) p q])"
      using or in_flights_update [OF spurious(1), of "Taking n (m_available_pages s) p q"] spurious(2)
      by (auto simp: all_pages_def)
  qed (use spurious(2) in simp)
qed

lemma acct_inv_reachable: "acct_step\<^sup>*\<^sup>* (acct_init, replicate k (Return True)) x \<Longrightarrow> acct_inv x"
proof (induction rule: rtranclp_induct)
  case base
  have "in_flights (replicate k (Return True)) = 0" by (induction k) (simp_all add: in_flights_def)
  then show ?case by (simp add: acct_inv_def all_pages_def acct_init_def)
qed (rule acct_inv_step)

text \<open>C15: However threads that run the functions interleave, access by access, no page is counted twice
  or lost as long as no assertion fails: the pages that are available, committed, reserved or in a
  thread between two counters add up to the total, and what is committed and reserved never exceeds
  it.  (A subtraction takes effect before its assertion is tested, so the other threads may see what is
  left behind by one that fails; a failed assertion never comes back.)\<close>

theorem mem_acct_conserved:
  assumes "acct_step\<^sup>*\<^sup>* (acct_init, replicate k (Return True)) (s, ts)" "\<not> (\<exists>p\<in>set ts. failing p)"
  shows "uint (m_available_pages s) + uint (m_committed_pages s) + uint (m_reserved_pages s) +
      sum_list (map in_flight ts) = uint (m_total_pages s) \<and> (\<forall>p\<in>set ts. 0 \<le> in_flight p) \<and>
    uint (m_committed_pages s) + uint (m_reserved_pages s) \<le> uint (m_total_pages s)"
proof -
  have "all_pages s ts" and b: "\<forall>p\<in>set ts. balanced p"
    using acct_inv_reachable [OF assms(1)] assms(2) by (auto simp: acct_inv_def)
  then have e: "uint (m_available_pages s) + uint (m_committed_pages s) + uint (m_reserved_pages s) +
      sum_list (map in_flight ts) = uint (m_total_pages s)" "0 \<le> sum_list (map in_flight ts)"
    using in_flights_nonneg [OF b] by (simp_all add: all_pages_def in_flights_def)
  have "uint (m_committed_pages s) + uint (m_reserved_pages s) \<le> uint (m_total_pages s)"
    using e uint_ge_0 [of "m_available_pages s"] by linarith
  then show ?thesis using e(1) b balanced_nonneg by simp
qed

lemma mem_acct_conserved_witness:
  "acct_step\<^sup>*\<^sup>* (acct_init, replicate 1 (Return True))
     (acct_init\<lparr>m_total_pages := 5\<rparr>, [Add Available 5 (Return True)]) \<and>
   sum_list (map in_flight [Add Available 5 (Return True)]) = 5"
proof -
  let ?s = "acct_init\<lparr>m_total_pages := 5\<rparr>" and ?p = "Add Available 5 (Return True)"
  have "acct_step (acct_init, [Return True]) (acct_init, [mem_acct_add_total_prog 5])"
    using acct_step.call [of 0 "[Return True]" True "mem_acct_add_total_prog 5" acct_init] by (auto simp: acct_calls_def)
  moreover have "acct_step (acct_init, [mem_acct_add_total_prog 5]) (?s, [?p])"
    using acct_step.access [of 0 "[mem_acct_add_total_prog 5]" acct_init ?p ?s]
    by (simp add: mem_acct_add_total_prog_def acct_init_def)
  ultimately have r: "acct_step\<^sup>*\<^sup>* (acct_init, replicate 1 (Return True)) (?s, [?p])"
    by (simp add: converse_rtranclp_into_rtranclp r_into_rtranclp)
  from mem_acct_conserved [OF r] r show ?thesis by simp
qed

section \<open>What the other theories rely on\<close>

definition acct_ok :: "'z acct_scheme \<Rightarrow> bool" where
  "acct_ok s \<longleftrightarrow> unat (m_available_pages s) + unat (m_committed_pages s) + unat (m_reserved_pages s) =
     unat (m_total_pages s)"

definition free_pages :: "'z acct_scheme \<Rightarrow> nat" where
  "free_pages s = unat (m_available_pages s) + unat (m_reserved_pages s)"

end
