(* ===== verification/Sync.thy ===== *)
theory Sync
  imports Prelude "HOL-Library.Multiset"
begin

text \<open>
  The locks of \<open>src/sync\<close>: \<open>mutex.h\<close>, \<open>rwlock.h\<close> and \<open>spinlock.h\<close>.  Each function acts on the
  lock's state word.  A compare-and-exchange succeeds exactly when the word holds the expected
  value (as \<open>lock cmpxchg\<close> does); the slow paths of this version only hold a failing \<open>ASSERT\<close>, so
  reaching one is \<open>None\<close>.

  Below, mutex and readers-writer lock as a transition system of any number of threads that take and
  release it in any order, with the exclusion they promise.  Each lock word is changed by one atomic
  access, at which the whole function takes effect; the load in front of the compare-and-exchange of
  \<open>rwlock_try_lock_shared_fast\<close> only gives the value that the exchange expects.
\<close>

section \<open>Mutex\<close>

definition MUTEX_LOCKED_BIT :: u64 where "MUTEX_LOCKED_BIT = 1"

definition mutex_lock_slow :: "u64 \<Rightarrow> u64 option" where
  "mutex_lock_slow m = do { ASSERT False; Some m }"

definition mutex_unlock_slow :: "u64 \<Rightarrow> u64 option" where
  "mutex_unlock_slow m = do { ASSERT False; Some m }"

definition mutex_lock :: "u64 \<Rightarrow> u64 option" where
  "mutex_lock m = (if m = 0 then Some MUTEX_LOCKED_BIT else mutex_lock_slow m)"

definition mutex_unlock :: "u64 \<Rightarrow> u64 option" where
  "mutex_unlock m = (if m = MUTEX_LOCKED_BIT then Some 0 else mutex_unlock_slow m)"

lemma mutex_lock_eq: "mutex_lock m = (if m = 0 then Some 1 else None)"
  by (simp add: mutex_lock_def mutex_lock_slow_def MUTEX_LOCKED_BIT_def)

lemma mutex_unlock_eq: "mutex_unlock m = (if m = 1 then Some 0 else None)"
  by (simp add: mutex_unlock_def mutex_unlock_slow_def MUTEX_LOCKED_BIT_def)

section \<open>Readers-writer lock\<close>

definition RWLOCK_PARKED_BIT :: u64 where "RWLOCK_PARKED_BIT = 1"
definition RWLOCK_WRITER_PARKED_BIT :: u64 where "RWLOCK_WRITER_PARKED_BIT = 2"
definition RWLOCK_WRITER_BIT :: u64 where "RWLOCK_WRITER_BIT = 4"
definition RWLOCK_READERS_MASK :: u64 where "RWLOCK_READERS_MASK = NOT (1 OR 2 OR 4)"
definition RWLOCK_ONE_READER :: u64 where "RWLOCK_ONE_READER = 8"

definition rwlock_lock_exclusive_slow :: "u64 \<Rightarrow> u64 option" where
  "rwlock_lock_exclusive_slow s = do { ASSERT False; Some s }"

definition rwlock_unlock_exclusive_slow :: "u64 \<Rightarrow> u64 option" where
  "rwlock_unlock_exclusive_slow s = do { ASSERT False; Some s }"

definition rwlock_try_lock_shared_slow :: "u64 \<Rightarrow> u64 option" where
  "rwlock_try_lock_shared_slow s = do { ASSERT False; Some s }"

definition rwlock_unlock_shared_slow :: "u64 \<Rightarrow> u64 option" where
  "rwlock_unlock_shared_slow s = do { ASSERT False; Some s }"

definition rwlock_lock_exclusive :: "u64 \<Rightarrow> u64 option" where
  "rwlock_lock_exclusive s =
     (if s = 0 then Some RWLOCK_WRITER_BIT else rwlock_lock_exclusive_slow s)"

definition rwlock_unlock_exclusive :: "u64 \<Rightarrow> u64 option" where
  "rwlock_unlock_exclusive s =
     (if s = RWLOCK_WRITER_BIT then Some 0 else rwlock_unlock_exclusive_slow s)"

text \<open>The new state, or \<open>None\<close> when the fast path returns false.\<close>

definition rwlock_try_lock_shared_fast :: "u64 \<Rightarrow> u64 option" where
  "rwlock_try_lock_shared_fast s =
     (if s AND RWLOCK_WRITER_BIT \<noteq> 0 then None
      else if unat s + unat RWLOCK_ONE_READER < 2 ^ 64 then Some (s + RWLOCK_ONE_READER)
      else None)"

definition rwlock_lock_shared :: "u64 \<Rightarrow> u64 option" where
  "rwlock_lock_shared s =
     (case rwlock_try_lock_shared_fast s of Some s' \<Rightarrow> Some s' | None \<Rightarrow> rwlock_try_lock_shared_slow s)"

definition rwlock_unlock_shared :: "u64 \<Rightarrow> u64 option" where
  "rwlock_unlock_shared s =
     (if s AND (RWLOCK_READERS_MASK OR RWLOCK_WRITER_PARKED_BIT) =
         RWLOCK_ONE_READER OR RWLOCK_WRITER_PARKED_BIT
      then rwlock_unlock_shared_slow (s - RWLOCK_ONE_READER)
      else Some (s - RWLOCK_ONE_READER))"

lemma rwlock_slow [simp]:
  "rwlock_lock_exclusive_slow s = None" "rwlock_unlock_exclusive_slow s = None"
  "rwlock_try_lock_shared_slow s = None" "rwlock_unlock_shared_slow s = None"
  by (simp_all add: rwlock_lock_exclusive_slow_def rwlock_unlock_exclusive_slow_def
    rwlock_try_lock_shared_slow_def rwlock_unlock_shared_slow_def)

lemmas rwlock_defs = rwlock_lock_exclusive_def rwlock_unlock_exclusive_def
  rwlock_try_lock_shared_fast_def rwlock_lock_shared_def rwlock_unlock_shared_def
  RWLOCK_WRITER_BIT_def RWLOCK_WRITER_PARKED_BIT_def RWLOCK_READERS_MASK_def
  RWLOCK_ONE_READER_def

section \<open>Threads that share a lock\<close>

text \<open>
  Any number of threads and one lock: the state word, and for each thread the mode in which it holds
  the lock, if it does.  A thread that holds nothing may try to take the lock and one that holds it may
  release it; a function that does not return makes no step.  \<open>acq m\<close> and \<open>rel m\<close> are what takes and
  releases the lock in mode \<open>m\<close>.
\<close>

inductive lock_step :: "('m \<Rightarrow> 'w \<Rightarrow> 'w option) \<Rightarrow> ('m \<Rightarrow> 'w \<Rightarrow> 'w option) \<Rightarrow>
    'w \<times> 'm option list \<Rightarrow> 'w \<times> 'm option list \<Rightarrow> bool" for acq rel where
  acquire: "i < length ts \<Longrightarrow> ts ! i = None \<Longrightarrow> acq m w = Some w' \<Longrightarrow>
    lock_step acq rel (w, ts) (w', ts[i := Some m])"
| release: "i < length ts \<Longrightarrow> ts ! i = Some m \<Longrightarrow> rel m w = Some w' \<Longrightarrow>
    lock_step acq rel (w, ts) (w', ts[i := None])"

inductive_cases lock_step_cases: "lock_step acq rel (w, ts) (w', ts')"

text \<open>The modes in which the lock is held, a multiset: two threads may hold it in the same mode.\<close>

definition held :: "'m option list \<Rightarrow> 'm multiset" where
  "held ts = image_mset the (filter_mset (\<lambda>x. x \<noteq> None) (mset ts))"

lemma held_free [simp]: "held (replicate k None) = {#}"
  by (induction k) (simp_all add: held_def)

lemma held_take: "i < length ts \<Longrightarrow> ts ! i = None \<Longrightarrow> held (ts[i := Some m]) = add_mset m (held ts)"
  by (simp add: held_def mset_update)

lemma held_give: "i < length ts \<Longrightarrow> ts ! i = Some m \<Longrightarrow> held ts = add_mset m (held (ts[i := None]))"
  using held_take [of i "ts[i := None]" m] list_update_id [of ts i] by simp

lemma held_two:
  assumes "i < length ts" "j < length ts" "i \<noteq> j" "ts ! i = Some m" "ts ! j = Some n"
  shows "\<exists>M. held ts = add_mset m (add_mset n M)"
  using held_give [OF assms(1,4)] held_give [of j "ts[i := None]" n] assms by auto

lemma held_none: "set ts \<subseteq> {None} \<Longrightarrow> held ts = {#}"
  by (induction ts) (simp_all add: held_def)

text \<open>What a lock promises: \<open>inv M w\<close> relates the modes in which it is held to its word.\<close>

locale lock_contract =
  fixes acq :: "'m \<Rightarrow> 'w \<Rightarrow> 'w option" and rel :: "'m \<Rightarrow> 'w \<Rightarrow> 'w option"
    and inv :: "'m multiset \<Rightarrow> 'w \<Rightarrow> bool" and free :: 'w
  assumes start: "inv {#} free"
    and acquired: "inv M w \<Longrightarrow> acq m w = Some w' \<Longrightarrow> inv (add_mset m M) w'"
    and released: "inv (add_mset m M) w \<Longrightarrow> \<exists>w'. rel m w = Some w' \<and> inv M w'"
begin

lemma inv_step:
  assumes "lock_step acq rel (w, ts) (w', ts')" "inv (held ts) w"
  shows "inv (held ts') w'"
proof (rule lock_step_cases [OF assms(1)])
  fix i m assume "ts' = ts[i := Some m]" "i < length ts" "ts ! i = None" "acq m w = Some w'"
  then show ?thesis using acquired [OF assms(2), of m w'] by (simp add: held_take)
next
  fix i m assume "ts' = ts[i := None]" "i < length ts" "ts ! i = Some m" "rel m w = Some w'"
  then show ?thesis using released [of m "held (ts[i := None])" w] assms(2) by (simp add: held_give [of i ts m])
qed

lemma inv_reachable: "(lock_step acq rel)\<^sup>*\<^sup>* (free, replicate k None) (w, ts) \<Longrightarrow> inv (held ts) w"
proof (induction "(w, ts)" arbitrary: w ts rule: rtranclp_induct)
  case base
  then show ?case using start by simp
next
  case (step x)
  then show ?case by (cases x) (auto intro: inv_step)
qed

lemma can_release:
  "(lock_step acq rel)\<^sup>*\<^sup>* (free, replicate k None) (w, ts) \<Longrightarrow> i < length ts \<Longrightarrow> ts ! i = Some m \<Longrightarrow>
    \<exists>w'. rel m w = Some w'"
  using inv_reachable released held_give by fastforce

end

section \<open>Exclusion\<close>

text \<open>A mutex has one mode.\<close>

definition mutex_inv :: "unit multiset \<Rightarrow> u64 \<Rightarrow> bool" where
  "mutex_inv M w \<longleftrightarrow> M = {#} \<and> w = 0 \<or> M = {#()#} \<and> w = 1"

interpretation mutex: lock_contract "\<lambda>_. mutex_lock" "\<lambda>_. mutex_unlock" mutex_inv 0
  by unfold_locales (auto simp: mutex_inv_def mutex_lock_eq mutex_unlock_eq split: if_splits)

datatype rw_mode = Shared | Exclusive

fun rwlock_acquire :: "rw_mode \<Rightarrow> u64 \<Rightarrow> u64 option" where
  "rwlock_acquire Shared = rwlock_lock_shared"
| "rwlock_acquire Exclusive = rwlock_lock_exclusive"

fun rwlock_release :: "rw_mode \<Rightarrow> u64 \<Rightarrow> u64 option" where
  "rwlock_release Shared = rwlock_unlock_shared"
| "rwlock_release Exclusive = rwlock_unlock_exclusive"

definition rw_inv :: "rw_mode multiset \<Rightarrow> u64 \<Rightarrow> bool" where
  "rw_inv M w \<longleftrightarrow> M = {#Exclusive#} \<and> w = 4 \<or>
     Exclusive \<notin># M \<and> w = of_nat (8 * size M) \<and> 8 * size M < 2 ^ 64"

lemma unat_of_nat_exact: "n < 2 ^ 64 \<Longrightarrow> unat (of_nat n :: u64) = n"
  by (simp add: unat_of_nat)

lemma bit_7: "bit (7 :: u64) n \<longleftrightarrow> n < 3"
proof -
  have "(7 :: u64) = mask 3" by (simp add: mask_eq_exp_minus_1)
  then show ?thesis by (simp only: bit_mask_iff) auto
qed

lemma bit_8_times: "bit (8 * x :: u64) n \<Longrightarrow> 3 \<le> n"
proof -
  have "8 * x = push_bit 3 x" by (simp add: push_bit_eq_mult)
  then show "bit (8 * x) n \<Longrightarrow> 3 \<le> n" by (simp only: bit_push_bit_iff)
qed

lemma times_8_and_7: "(8 * x :: u64) AND 7 = 0"
proof (rule bit_word_eqI)
  fix n
  show "bit (8 * x AND 7) n = bit (0 :: u64) n"
    using bit_7 [of n] bit_8_times [of x n] by (simp add: bit_and_iff) linarith
qed

lemma times_8_and: "y AND 7 = y \<Longrightarrow> (8 * x :: u64) AND y = 0"
  by (metis (no_types) and.assoc and.commute times_8_and_7 bit.conj_zero_right)

lemma times_8_bits: "(8 * x :: u64) AND 4 = 0" "(8 * x :: u64) AND 2 = 0"
  by (rule times_8_and, simp)+

lemma rw_unlock_shared_eq:
  "rwlock_unlock_shared (8 * x) = Some (8 * x - 8)"
proof -
  have ne: "8 * x AND y \<noteq> (10 :: u64)" for y
  proof
    assume "8 * x AND y = 10"
    then have "(8 * x AND 2) AND y = 10 AND (2 :: u64)"
      by (metis and.assoc and.commute)
    then show False by (simp add: times_8_bits)
  qed
  have "(8 OR 2 :: u64) = 10" by simp
  with ne show ?thesis
    unfolding rwlock_defs by (simp only: if_False)
qed

lemma rw_lock_shared_eq:
  "rwlock_lock_shared (8 * x) =
     (if unat (8 * x) + 8 < 2 ^ 64 then Some (8 * x + 8) else None)"
  unfolding rwlock_defs by (simp only: times_8_bits) simp

lemma rw_acquired:
  assumes i: "rw_inv M w" and a: "rwlock_acquire m w = Some w'"
  shows "rw_inv (add_mset m M) w'"
proof (cases m)
  case Exclusive
  then have w: "w = 0" "w' = 4"
    using a by (auto simp: rwlock_lock_exclusive_def RWLOCK_WRITER_BIT_def split: if_splits)
  have "M = {#}"
  proof (rule ccontr)
    assume "M \<noteq> {#}"
    then have n: "0 < 8 * size M" by (simp add: nonempty_has_size)
    have e: "w = of_nat (8 * size M)" "8 * size M < 2 ^ 64" using i w(1) by (auto simp: rw_inv_def)
    have "unat w = 8 * size M" unfolding e(1) by (rule unat_of_nat_exact [OF e(2)])
    with n w(1) show False by simp
  qed
  with w Exclusive show ?thesis by (simp add: rw_inv_def)
next
  case Shared
  then have "w \<noteq> 4" using a by (auto simp: rwlock_defs)
  then have w: "Exclusive \<notin># M" "w = 8 * of_nat (size M)" "8 * size M < 2 ^ 64"
    using i by (auto simp: rw_inv_def)
  have "unat (of_nat (8 * size M) :: u64) = 8 * size M" by (rule unat_of_nat_exact [OF w(3)])
  then have u: "unat (8 * of_nat (size M) :: u64) = 8 * size M" by simp
  show ?thesis using a w u Shared by (auto simp: rw_lock_shared_eq rw_inv_def split: if_splits)
qed

lemma rw_released:
  assumes "rw_inv (add_mset m M) w"
  shows "\<exists>w'. rwlock_release m w = Some w' \<and> rw_inv M w'"
proof (cases m)
  case Exclusive
  then show ?thesis using assms by (auto simp: rw_inv_def rwlock_unlock_exclusive_def RWLOCK_WRITER_BIT_def)
next
  case Shared
  then have w: "Exclusive \<notin># M" "w = 8 * of_nat (Suc (size M))" "8 * Suc (size M) < 2 ^ 64"
    using assms by (simp_all add: rw_inv_def)
  have "rwlock_unlock_shared w = Some (w - 8)" unfolding w(2) by (rule rw_unlock_shared_eq)
  moreover have "w - 8 = of_nat (8 * size M)" by (simp add: w(2))
  ultimately show ?thesis using w(1,3) Shared by (simp add: rw_inv_def)
qed

interpretation rwlock: lock_contract rwlock_acquire rwlock_release rw_inv 0
  by unfold_locales (auto simp: rw_inv_def [of "{#}"] rw_acquired rw_released)

text \<open>C14: However threads take and release a mutex, no two of them hold it; the one that holds it can
  release it, and once nobody does the next one gets it.\<close>

theorem mutex_exclusion:
  assumes "(lock_step (\<lambda>_ :: unit. mutex_lock) (\<lambda>_. mutex_unlock))\<^sup>*\<^sup>* (0, replicate k None) (w, ts)"
  shows "(\<forall>i<length ts. \<forall>j<length ts. ts ! i \<noteq> None \<and> ts ! j \<noteq> None \<longrightarrow> i = j) \<and>
    (\<forall>i<length ts. ts ! i \<noteq> None \<longrightarrow> mutex_unlock w = Some 0) \<and>
    (set ts \<subseteq> {None} \<longrightarrow> mutex_lock w \<noteq> None)"
proof (intro conjI allI impI)
  note i = mutex.inv_reachable [OF assms]
  show "a = b" if w: "a < length ts" "b < length ts" "ts ! a \<noteq> None \<and> ts ! b \<noteq> None" for a b
  proof (rule ccontr)
    assume "a \<noteq> b"
    then obtain M where "held ts = add_mset () (add_mset () M)" using held_two [of a ts b] w by auto
    then show False using i by (simp add: mutex_inv_def)
  qed
  show "mutex_unlock w = Some 0" if "a < length ts" "ts ! a \<noteq> None" for a
    using mutex.can_release [OF assms that(1)] that(2) by (auto simp: mutex_unlock_eq split: if_splits)
  show "mutex_lock w \<noteq> None" if "set ts \<subseteq> {None}"
    using i held_none [OF that] by (simp add: mutex_inv_def mutex_lock_eq)
qed

lemma mutex_exclusion_witness:
  "(lock_step (\<lambda>_ :: unit. mutex_lock) (\<lambda>_. mutex_unlock))\<^sup>*\<^sup>* (0, replicate 2 None) (1, [Some (), None]) \<and>
   mutex_unlock 1 = Some 0"
proof -
  have two: "replicate 2 None = [None, None :: unit option]" by (simp add: numeral_2_eq_2)
  have "lock_step (\<lambda>_ :: unit. mutex_lock) (\<lambda>_. mutex_unlock) (0, replicate 2 None) (1, [Some (), None])"
    using lock_step.acquire [of 0 "[None, None]" "\<lambda>_. mutex_lock" "()" 0 1 "\<lambda>_. mutex_unlock"]
    by (simp add: mutex_lock_eq two)
  then have r: "(lock_step (\<lambda>_ :: unit. mutex_lock) (\<lambda>_. mutex_unlock))\<^sup>*\<^sup>* (0, replicate 2 None) (1, [Some (), None])"
    by (rule r_into_rtranclp)
  with mutex_exclusion [OF r] show ?thesis by fastforce
qed

text \<open>C13: However threads take and release the readers-writer lock, a thread that holds it exclusively
  is the only one that holds it at all; whoever holds it can release it (no unlock reaches the slow
  path), and when everyone has, the word is that of a free lock.\<close>

theorem rwlock_exclusion:
  assumes "(lock_step rwlock_acquire rwlock_release)\<^sup>*\<^sup>* (0, replicate k None) (w, ts)"
  shows "(\<forall>i<length ts. \<forall>j<length ts. ts ! i = Some Exclusive \<and> ts ! j \<noteq> None \<longrightarrow> i = j) \<and>
    (\<forall>i<length ts. \<forall>m. ts ! i = Some m \<longrightarrow> rwlock_release m w \<noteq> None) \<and>
    (set ts \<subseteq> {None} \<longrightarrow> w = 0)"
proof (intro conjI allI impI)
  note i = rwlock.inv_reachable [OF assms]
  show "a = b" if w: "a < length ts" "b < length ts" "ts ! a = Some Exclusive \<and> ts ! b \<noteq> None" for a b
  proof (rule ccontr)
    assume "a \<noteq> b"
    moreover obtain m where "ts ! b = Some m" using w by auto
    ultimately obtain M where "held ts = add_mset Exclusive (add_mset m M)"
      using held_two [of a ts b Exclusive m] w by auto
    then show False using i by (simp add: rw_inv_def)
  qed
  show "rwlock_release m w \<noteq> None" if "a < length ts" "ts ! a = Some m" for a m
    using rwlock.can_release [OF assms that] by simp
  show "w = 0" if "set ts \<subseteq> {None}" using i held_none [OF that] by (simp add: rw_inv_def)
qed

lemma rwlock_exclusion_witness:
  "(lock_step rwlock_acquire rwlock_release)\<^sup>*\<^sup>* (0, replicate 2 None) (16, [Some Shared, Some Shared]) \<and>
   rwlock_release Shared 16 \<noteq> None"
proof -
  have two: "replicate 2 None = [None, None :: rw_mode option]" by (simp add: numeral_2_eq_2)
  have "lock_step rwlock_acquire rwlock_release (0, replicate 2 None) (8, [Some Shared, None])"
    using lock_step.acquire [of 0 "[None, None]" rwlock_acquire Shared 0 8 rwlock_release]
    by (simp add: two rwlock_defs)
  moreover have "lock_step rwlock_acquire rwlock_release (8, [Some Shared, None]) (16, [Some Shared, Some Shared])"
    using lock_step.acquire [of 1 "[Some Shared, None]" rwlock_acquire Shared 8 16 rwlock_release]
    by (simp add: rwlock_defs)
  ultimately have r: "(lock_step rwlock_acquire rwlock_release)\<^sup>*\<^sup>* (0, replicate 2 None) (16, [Some Shared, Some Shared])"
    by (rule converse_rtranclp_into_rtranclp [OF _ r_into_rtranclp])
  with rwlock_exclusion [OF r] show ?thesis by fastforce
qed

section \<open>Interrupts and the irq-safe spinlock\<close>

text \<open>
  A core, with whether it takes interrupts (the \<open>IF\<close> bit of its flags).  An acquire of the
  spinlock that would spin never gets past this step: \<open>None\<close>.
\<close>

record irq_cpu =
  irq_if :: bool
  spin_flag :: bool

definition irq_enable :: "irq_cpu \<Rightarrow> irq_cpu" where
  "irq_enable c = c\<lparr>irq_if := True\<rparr>"

definition irq_disable :: "irq_cpu \<Rightarrow> irq_cpu" where
  "irq_disable c = c\<lparr>irq_if := False\<rparr>"

definition irq_enabled :: "irq_cpu \<Rightarrow> bool" where
  "irq_enabled c = irq_if c"

definition irq_save :: "irq_cpu \<Rightarrow> bool \<times> irq_cpu" where
  "irq_save c = (let enabled = irq_enabled c; c = irq_disable c in (enabled, c))"

definition irq_restore :: "bool \<Rightarrow> irq_cpu \<Rightarrow> irq_cpu" where
  "irq_restore state c = (if state then irq_enable c else c)"

definition irq_spinlock_acquire :: "irq_cpu \<Rightarrow> (bool \<times> irq_cpu) option" where
  "irq_spinlock_acquire c =
     (let (state, c) = irq_save c in
      if spin_flag c then None else Some (state, c\<lparr>spin_flag := True\<rparr>))"

definition irq_spinlock_release :: "bool \<Rightarrow> irq_cpu \<Rightarrow> irq_cpu" where
  "irq_spinlock_release state c = irq_restore state (c\<lparr>spin_flag := False\<rparr>)"

lemmas irq_defs = irq_enable_def irq_disable_def irq_enabled_def irq_save_def irq_restore_def
  irq_spinlock_acquire_def irq_spinlock_release_def

text \<open>The spinlock's critical section runs with interrupts off, and the release puts the
  interrupt flag back to what it was before the acquire, whatever that was, so that guards nest.\<close>

theorem irq_spinlock_balanced:
  "irq_spinlock_acquire c = (if spin_flag c then None
     else Some (irq_if c, \<lparr>irq_if = False, spin_flag = True\<rparr>)) \<and>
   (case irq_spinlock_acquire c of None \<Rightarrow> True | Some (state, c') \<Rightarrow> irq_spinlock_release state c' = c)"
  by (cases c) (simp add: irq_defs)

end
