(* ===== verification/Mem_Heap.thy ===== *)
theory Mem_Heap
  imports Arch Accounting Sync
begin

text \<open>
  The state of the memory layer (\<open>src/mem\<close> below the vmars), as one record that extends the
  accounting: what is stored in physical memory, one field per struct field indexed by the
  address of the struct, and the variables of \<open>phys.c\<close>, \<open>virt.c\<close> and the slab allocators.

  A struct in memory is seen through its fields only, as the types of C have it; a
  \<open>memset\<close> fills every view of the range.  Addresses are those of the direct map.
\<close>

text \<open>A \<open>hlist_node_t **\<close>: the place a pointer to a node is stored at, or a plain number.\<close>

datatype hslot = H_First nat | H_Next ptr | H_Addr u64

text \<open>
  Fields, in order: the heads of \<open>m_phys_buddy_levels\<close>; the nodes of the hlists and the level of a
  \<open>buddy_free_page_t\<close>; the links of a \<open>list_entry_t\<close>; a \<open>mem_alloc_slab_t\<close>'s allocator and use
  count; plain words and bytes; the bytes of the buddy bitmap from the base of its mapping;
  \<open>m_phys_buddy_lock\<close>; the \<open>lock\<close> of a \<open>mem_alloc_t\<close>; \<open>g_page_table\<close> and \<open>g_page_table_levels\<close>.
\<close>

record mm = acct +
  hl_first :: "nat \<Rightarrow> ptr"
  hn_next :: "ptr \<Rightarrow> ptr"
  hn_pprev :: "ptr \<Rightarrow> hslot"
  bf_level :: "ptr \<Rightarrow> u8"
  l_next :: "ptr \<Rightarrow> ptr"
  l_prev :: "ptr \<Rightarrow> ptr"
  sl_alloc :: "ptr \<Rightarrow> ptr"
  sl_in_use :: "ptr \<Rightarrow> u16"
  mem64 :: "ptr \<Rightarrow> u64"
  mem8 :: "ptr \<Rightarrow> u8"
  bitmap :: "u64 \<Rightarrow> u8"
  buddy_lock :: u64
  al_lock :: "ptr \<Rightarrow> u64"
  g_page_table :: ptr
  g_page_table_levels :: nat

section \<open>Memory\<close>

definition fill :: "ptr \<Rightarrow> u64 \<Rightarrow> 'a \<Rightarrow> (ptr \<Rightarrow> 'a) \<Rightarrow> ptr \<Rightarrow> 'a" where
  "fill p n v f = (\<lambda>a. if a - p < n then v else f a)"

text \<open>A wider field filled with a byte.\<close>

definition splat :: "u8 \<Rightarrow> 'a :: len word" where
  "splat b = ucast b * 0x0101010101010101"

definition memset :: "ptr \<Rightarrow> u8 \<Rightarrow> u64 \<Rightarrow> mm \<Rightarrow> mm" where
  "memset p b n h = h\<lparr>
     hn_next := fill p n (splat b) (hn_next h),
     hn_pprev := fill p n (H_Addr (splat b)) (hn_pprev h),
     bf_level := fill p n b (bf_level h),
     l_next := fill p n (splat b) (l_next h),
     l_prev := fill p n (splat b) (l_prev h),
     sl_alloc := fill p n (splat b) (sl_alloc h),
     sl_in_use := fill p n (splat b) (sl_in_use h),
     mem64 := fill p n (splat b) (mem64 h),
     mem8 := fill p n b (mem8 h)\<rparr>"

lemma splat_0 [simp]: "splat 0 = 0"
  by (simp add: splat_def)

text \<open>Nothing is stored at \<open>a\<close>: no header, and no other data.\<close>

definition no_header :: "mm \<Rightarrow> ptr \<Rightarrow> bool" where
  "no_header h a \<longleftrightarrow> hn_next h a = 0 \<and> hn_pprev h a = H_Addr 0 \<and> bf_level h a = 0"

definition no_data :: "mm \<Rightarrow> ptr \<Rightarrow> bool" where
  "no_data h a \<longleftrightarrow> l_next h a = 0 \<and> l_prev h a = 0 \<and> sl_alloc h a = 0 \<and> sl_in_use h a = 0 \<and>
     mem64 h a = 0 \<and> mem8 h a = 0"

lemma memset_0_clean: "a - p < n \<Longrightarrow> no_header (memset p 0 n h) a \<and> no_data (memset p 0 n h) a"
  by (simp add: memset_def fill_def no_header_def no_data_def)

lemma memset_other: "\<not> a - p < n \<Longrightarrow>
  no_header (memset p b n h) a = no_header h a \<and> no_data (memset p b n h) a = no_data h a"
  by (simp add: memset_def fill_def no_header_def no_data_def)

section \<open>Hlists\<close>

definition LIST_POISON1 :: ptr where "LIST_POISON1 = 0x100"
definition LIST_POISON2 :: ptr where "LIST_POISON2 = 0x122"

fun hslot_load :: "mm \<Rightarrow> hslot \<Rightarrow> ptr option" where
  "hslot_load h (H_First l) = Some (hl_first h l)"
| "hslot_load h (H_Next x) = Some (hn_next h x)"
| "hslot_load h (H_Addr _) = None"

fun hslot_store :: "hslot \<Rightarrow> ptr \<Rightarrow> mm \<Rightarrow> mm option" where
  "hslot_store (H_First l) v h = Some (h\<lparr>hl_first := (hl_first h)(l := v)\<rparr>)"
| "hslot_store (H_Next x) v h = Some (h\<lparr>hn_next := (hn_next h)(x := v)\<rparr>)"
| "hslot_store (H_Addr _) v h = None"

definition hlist_empty :: "mm \<Rightarrow> nat \<Rightarrow> bool" where
  "hlist_empty h l \<longleftrightarrow> hl_first h l = 0"

text \<open>\<open>__hlist_del\<close>.\<close>

definition hlist_unlink :: "ptr \<Rightarrow> mm \<Rightarrow> mm option" where
  "hlist_unlink n h =
     (let next = hn_next h n; pprev = hn_pprev h n in do {
       h \<leftarrow> hslot_store pprev next h;
       Some (if next \<noteq> 0 then h\<lparr>hn_pprev := (hn_pprev h)(next := pprev)\<rparr> else h) })"

definition hlist_del :: "ptr \<Rightarrow> mm \<Rightarrow> mm option" where
  "hlist_del n h = do {
     h \<leftarrow> hlist_unlink n h;
     Some (h\<lparr>hn_next := (hn_next h)(n := LIST_POISON1),
             hn_pprev := (hn_pprev h)(n := H_Addr LIST_POISON2)\<rparr>) }"

definition hlist_add :: "nat \<Rightarrow> ptr \<Rightarrow> mm \<Rightarrow> mm" where
  "hlist_add l n h =
     (let first = hl_first h l;
          h = h\<lparr>hn_next := (hn_next h)(n := first)\<rparr>;
          h = (if first \<noteq> 0 then h\<lparr>hn_pprev := (hn_pprev h)(first := H_Next n)\<rparr> else h);
          h = h\<lparr>hl_first := (hl_first h)(l := n)\<rparr>
      in h\<lparr>hn_pprev := (hn_pprev h)(n := H_First l)\<rparr>)"

subsection \<open>The list a head stands for\<close>

fun hseg :: "mm \<Rightarrow> hslot \<Rightarrow> ptr list \<Rightarrow> bool" where
  "hseg h s [] \<longleftrightarrow> hslot_load h s = Some 0"
| "hseg h s (x # xs) \<longleftrightarrow> x \<noteq> 0 \<and> hslot_load h s = Some x \<and> hn_pprev h x = s \<and> hseg h (H_Next x) xs"

lemma hseg_cong:
  "hslot_load h' s = hslot_load h s \<Longrightarrow> (\<And>x. x \<in> set xs \<Longrightarrow> hn_next h' x = hn_next h x) \<Longrightarrow>
   (\<And>x. x \<in> set xs \<Longrightarrow> hn_pprev h' x = hn_pprev h x) \<Longrightarrow> hseg h' s xs = hseg h s xs"
  by (induction xs arbitrary: s) auto

lemma hseg_hd: "hseg h s xs \<Longrightarrow> hslot_load h s = Some (case xs of [] \<Rightarrow> 0 | x # _ \<Rightarrow> x)"
  by (cases xs) auto

lemma hseg_nonnull: "hseg h s xs \<Longrightarrow> 0 \<notin> set xs"
  by (induction xs arbitrary: s) auto

fun last_slot :: "hslot \<Rightarrow> ptr list \<Rightarrow> hslot" where
  "last_slot s [] = s"
| "last_slot s (x # xs) = last_slot (H_Next x) xs"

fun hpre :: "mm \<Rightarrow> hslot \<Rightarrow> ptr list \<Rightarrow> bool" where
  "hpre h s [] \<longleftrightarrow> True"
| "hpre h s (x # xs) \<longleftrightarrow> x \<noteq> 0 \<and> hslot_load h s = Some x \<and> hn_pprev h x = s \<and> hpre h (H_Next x) xs"

lemma hseg_append: "hseg h s (xs @ ys) \<longleftrightarrow> hpre h s xs \<and> hseg h (last_slot s xs) ys"
  by (induction xs arbitrary: s) auto

lemma last_slot_cases: "last_slot s xs = s \<and> xs = [] \<or> (\<exists>x\<in>set xs. last_slot s xs = H_Next x)"
  by (induction xs arbitrary: s) auto

text \<open>What an operation on the list of level \<open>l\<close> leaves alone.\<close>

definition hl_frame :: "nat \<Rightarrow> ptr set \<Rightarrow> mm \<Rightarrow> mm \<Rightarrow> bool" where
  "hl_frame l S h h' \<longleftrightarrow> (\<exists>f g p. h' = h\<lparr>hl_first := f, hn_next := g, hn_pprev := p\<rparr> \<and>
     (\<forall>k. k \<noteq> l \<longrightarrow> f k = hl_first h k) \<and>
     (\<forall>a. a \<notin> S \<longrightarrow> g a = hn_next h a \<and> p a = hn_pprev h a))"

lemma hl_frame_hseg:
  "hl_frame l S h h' \<Longrightarrow> k \<noteq> l \<Longrightarrow> S \<inter> set xs = {} \<Longrightarrow> hseg h' (H_First k) xs = hseg h (H_First k) xs"
  by (rule hseg_cong) (auto simp: hl_frame_def)

lemma hl_frame_clean:
  "hl_frame l S h h' \<Longrightarrow> a \<notin> S \<Longrightarrow> no_header h' a = no_header h a"
  by (auto simp: hl_frame_def no_header_def)

lemma hl_frame_data: "hl_frame l S h h' \<Longrightarrow> no_data h' a = no_data h a"
  by (auto simp: hl_frame_def no_data_def)

lemma hl_frame_rest:
  assumes "hl_frame l S h h'"
  shows "bf_level h' = bf_level h" "bitmap h' = bitmap h" "acct.truncate h' = acct.truncate h"
    "mem64 h' = mem64 h" "buddy_lock h' = buddy_lock h"
  using assms by (auto simp: hl_frame_def acct.truncate_def)

lemma hlist_add_hseg:
  assumes "hseg h (H_First l) xs" "n \<notin> set xs" "n \<noteq> 0" "distinct xs"
  shows "hseg (hlist_add l n h) (H_First l) (n # xs)" and "hl_frame l (insert n (set xs)) h (hlist_add l n h)"
proof -
  show "hl_frame l (insert n (set xs)) h (hlist_add l n h)"
    unfolding hl_frame_def
    by (intro exI [of _ "hl_first (hlist_add l n h)"] exI [of _ "hn_next (hlist_add l n h)"]
      exI [of _ "hn_pprev (hlist_add l n h)"])
      (use assms in \<open>cases xs; auto simp: hlist_add_def Let_def\<close>)
  show "hseg (hlist_add l n h) (H_First l) (n # xs)"
  proof (cases xs)
    case Nil
    then show ?thesis using assms by (simp add: hlist_add_def Let_def)
  next
    case (Cons y ys)
    have "hseg (hlist_add l n h) (H_Next y) ys = hseg h (H_Next y) ys"
      by (rule hseg_cong) (use assms Cons in \<open>auto simp: hlist_add_def Let_def\<close>)
    then show ?thesis using assms Cons by (auto simp: hlist_add_def Let_def)
  qed
qed

lemma hlist_del_hseg:
  assumes s: "hseg h (H_First l) (xs @ x # ys)" and d: "distinct (xs @ x # ys)"
  shows "\<exists>h'. hlist_del x h = Some h' \<and> hseg h' (H_First l) (xs @ ys) \<and>
    hl_frame l (insert x (set xs \<union> set ys)) h h'"
proof -
  let ?t = "last_slot (H_First l) xs"
  let ?n = "case ys of [] \<Rightarrow> 0 | y # _ \<Rightarrow> y"
  have pre: "hpre h (H_First l) xs" and x: "x \<noteq> 0" "hslot_load h ?t = Some x" "hn_pprev h x = ?t"
    and ys: "hseg h (H_Next x) ys"
    using s by (auto simp: hseg_append)
  have nx: "hn_next h x = ?n" using hseg_hd [OF ys] by simp
  obtain h1 where h1: "hslot_store ?t ?n h = Some h1"
    using x(2) by (cases ?t) auto
  have t: "?t = H_First l \<and> xs = [] \<or> (\<exists>z\<in>set xs. ?t = H_Next z)" by (rule last_slot_cases)
  have y0: "ys \<noteq> [] \<Longrightarrow> hd ys \<noteq> 0" using hseg_nonnull [OF ys] by (cases ys) auto
  define h2 where "h2 = (if ?n \<noteq> 0 then h1\<lparr>hn_pprev := (hn_pprev h1)(?n := ?t)\<rparr> else h1)"
  define h' where "h' = h2\<lparr>hn_next := (hn_next h2)(x := LIST_POISON1),
             hn_pprev := (hn_pprev h2)(x := H_Addr LIST_POISON2)\<rparr>"
  have run: "hlist_del x h = Some h'"
    using h1 nx x(3) by (simp add: hlist_del_def hlist_unlink_def Let_def h2_def h'_def)
  have n: "?n \<in> insert 0 (set ys)" by (cases ys) auto
  have fr: "hl_frame l (insert x (set xs \<union> set ys)) h h'"
    unfolding hl_frame_def
  proof (intro exI conjI)
    show "h' = h\<lparr>hl_first := hl_first h', hn_next := hn_next h', hn_pprev := hn_pprev h'\<rparr>"
      using h1 unfolding h'_def h2_def by (cases ?t) auto
    show "\<forall>k. k \<noteq> l \<longrightarrow> hl_first h' k = hl_first h k"
      using h1 t unfolding h'_def h2_def by (cases ?t) auto
    show "\<forall>a. a \<notin> insert x (set xs \<union> set ys) \<longrightarrow> hn_next h' a = hn_next h a \<and> hn_pprev h' a = hn_pprev h a"
      using h1 t n unfolding h'_def h2_def by (cases ?t) auto
  qed
  have ld: "hslot_load h1 ?t = Some ?n" using h1 x(2) by (cases ?t) auto
  have st1: "hn_pprev h1 = hn_pprev h" using h1 by (cases ?t) auto
  have st2: "hslot_load h1 r = hslot_load h r" if "r \<noteq> ?t" for r
    using h1 that by (cases ?t; cases r) auto
  note st = st1 st2
  have ld': "hslot_load h' r = hslot_load h1 r" if "r \<noteq> H_Next x" for r
    using that by (cases r) (auto simp: h'_def h2_def)
  have pp': "hn_pprev h' z = hn_pprev h z" if "z \<notin> insert x (set ys)" for z
    using that n st x hseg_nonnull [OF s] by (cases ys) (auto simp: h'_def h2_def)
  have "hpre h' r zs" if "hpre h r zs" "set zs \<subseteq> set xs" "\<forall>z\<in>set zs. H_Next z \<noteq> ?t \<or> z = last zs"
    "distinct zs" "zs \<noteq> [] \<Longrightarrow> r \<noteq> ?t" "r \<noteq> H_Next x" for r zs
    using that
  proof (induction zs arbitrary: r)
    case (Cons z zs)
    have "z \<noteq> x" "z \<notin> set ys" using Cons.prems(2) d by auto
    moreover have "zs \<noteq> [] \<Longrightarrow> H_Next z \<noteq> ?t" using Cons.prems by (auto dest: last_in_set)
    ultimately show ?case
      using Cons pp' [of z] st ld' by (auto split: if_splits)
  qed simp
  moreover have "\<forall>z\<in>set xs. H_Next z \<noteq> ?t \<or> z = last xs"
  proof -
    have "xs \<noteq> [] \<Longrightarrow> last_slot r xs = H_Next (last xs)" for r by (induction xs arbitrary: r) auto
    then show ?thesis by (cases xs) auto
  qed
  moreover have "H_First l \<noteq> ?t" if "xs \<noteq> []" using t that by auto
  ultimately have p': "hpre h' (H_First l) xs" using pre d by simp
  have tx: "?t \<noteq> H_Next x" using t d by auto
  have "hseg h' ?t ys"
  proof (cases ys)
    case Nil
    then show ?thesis using ld ld' [OF tx] by simp
  next
    case (Cons y zs)
    have e: "hn_pprev h' y = ?t" "hslot_load h' ?t = Some y" "y \<noteq> 0"
      using Cons y0 d ld ld' [OF tx] by (auto simp: h'_def h2_def)
    have "hseg h' (H_Next y) zs = hseg h (H_Next y) zs"
    proof (rule hseg_cong)
      have "H_Next y \<noteq> ?t" "H_Next y \<noteq> H_Next x" using Cons d t by auto
      then show "hslot_load h' (H_Next y) = hslot_load h (H_Next y)"
        using st(2) [of "H_Next y"] ld' [of "H_Next y"] by simp
      fix z assume z: "z \<in> set zs"
      then have "z \<noteq> x" "z \<noteq> y" "H_Next z \<noteq> ?t" using Cons d t by auto
      then show "hn_next h' z = hn_next h z" "hn_pprev h' z = hn_pprev h z"
        using st st(2) [of "H_Next z"] Cons by (auto simp: h'_def h2_def)
    qed
    then show ?thesis using e ys Cons by simp
  qed
  then show ?thesis using run fr p' by (auto simp: hseg_append)
qed

section \<open>The memory layer before anything was added to it\<close>

definition empty_mm :: mm where
  "empty_mm = \<lparr>m_available_pages = 0, m_total_pages = 0, m_committed_pages = 0, m_reserved_pages = 0,
     hl_first = (\<lambda>_. 0), hn_next = (\<lambda>_. 0), hn_pprev = (\<lambda>_. H_Addr 0), bf_level = (\<lambda>_. 0),
     l_next = (\<lambda>_. 0), l_prev = (\<lambda>_. 0), sl_alloc = (\<lambda>_. 0), sl_in_use = (\<lambda>_. 0),
     mem64 = (\<lambda>_. 0), mem8 = (\<lambda>_. 0), bitmap = (\<lambda>_. 0), buddy_lock = 0, al_lock = (\<lambda>_. 0),
     g_page_table = 0, g_page_table_levels = 4\<rparr>"

end
