(* ===== verification/Phys.thy ===== *)
theory Phys
  imports Mem_Heap
begin

text \<open>
  The buddy allocator of \<open>src/mem/phys.c\<close>, statement by statement.  \<open>dm\<close> is
  \<open>g_direct_map.base\<close>, which \<open>direct_to_phys\<close> reads.  A level is a \<open>nat\<close>; the functions that
  may return -1 return an \<open>int\<close>.
\<close>

section \<open>Constants and \<open>mapping.h\<close>\<close>

definition PHYS_BUDDY_MAX_LEVEL :: nat where "PHYS_BUDDY_MAX_LEVEL = 16"
definition PHYS_BUDDY_MIN_ORDER :: nat where "PHYS_BUDDY_MIN_ORDER = 6"
definition PHYS_BUDDY_MIN_SIZE :: u64 where "PHYS_BUDDY_MIN_SIZE = 2 ^ PHYS_BUDDY_MIN_ORDER"
definition PHYS_BUDDY_MAX_SIZE :: u64 where
  "PHYS_BUDDY_MAX_SIZE = 2 ^ (PHYS_BUDDY_MAX_LEVEL + PHYS_BUDDY_MIN_ORDER - 1)"
definition PHYS_BUDDY_PAGE_LEVEL :: nat where
  "PHYS_BUDDY_PAGE_LEVEL = PAGE_SHIFT - PHYS_BUDDY_MIN_ORDER"

lemmas buddy_consts = PHYS_BUDDY_MAX_LEVEL_def PHYS_BUDDY_MIN_ORDER_def PHYS_BUDDY_MIN_SIZE_def
  PHYS_BUDDY_MAX_SIZE_def PHYS_BUDDY_PAGE_LEVEL_def PAGE_SHIFT_def

definition phys_to_direct :: "u64 \<Rightarrow> u64 \<Rightarrow> ptr" where
  "phys_to_direct dm phys = dm + phys"

definition direct_to_phys :: "u64 \<Rightarrow> ptr \<Rightarrow> u64" where
  "direct_to_phys dm ptr = ptr - dm"

section \<open>Levels\<close>

text \<open>\<open>__builtin_clzll\<close>, for an argument that is not 0.\<close>

definition clzll :: "u64 \<Rightarrow> nat" where
  "clzll x = length (takeWhile (\<lambda>i. \<not> bit x i) (rev [0..<64]))"

definition get_level_by_size :: "u64 \<Rightarrow> int" where
  "get_level_by_size sz =
     (if sz > PHYS_BUDDY_MAX_SIZE then -1
      else
        let sz = (if sz < PHYS_BUDDY_MIN_SIZE then PHYS_BUDDY_MIN_SIZE else sz);
            order = 64 - int (clzll (sz - 1))
        in order - int PHYS_BUDDY_MIN_ORDER)"

definition get_page_level_by_size :: "u64 \<Rightarrow> int" where
  "get_page_level_by_size sz =
     (let level = get_level_by_size sz in
      if level < int PHYS_BUDDY_PAGE_LEVEL \<or> sz \<noteq> 2 ^ nat (level + int PHYS_BUDDY_MIN_ORDER)
      then -1 else level)"

definition get_page_count_by_level :: "nat \<Rightarrow> u64" where
  "get_page_count_by_level level = 2 ^ (level - PHYS_BUDDY_PAGE_LEVEL)"

section \<open>The bitmap\<close>

definition buddy_is_block_free :: "u64 \<Rightarrow> mm \<Rightarrow> ptr \<Rightarrow> bool" where
  "buddy_is_block_free dm h ptr =
     (let addr = drop_bit PHYS_BUDDY_MIN_ORDER (direct_to_phys dm ptr);
          index = addr div 8;
          shift = addr mod 8
      in drop_bit (unat shift) (bitmap h index) AND 1 \<noteq> 0)"

definition buddy_set_block_allocated :: "u64 \<Rightarrow> ptr \<Rightarrow> mm \<Rightarrow> mm" where
  "buddy_set_block_allocated dm ptr h =
     (let addr = drop_bit PHYS_BUDDY_MIN_ORDER (direct_to_phys dm ptr);
          index = addr div 8;
          shift = addr mod 8
      in h\<lparr>bitmap := (bitmap h)(index := bitmap h index AND NOT (push_bit (unat shift) 1))\<rparr>)"

definition buddy_set_block_free :: "u64 \<Rightarrow> ptr \<Rightarrow> mm \<Rightarrow> mm" where
  "buddy_set_block_free dm ptr h =
     (let addr = drop_bit PHYS_BUDDY_MIN_ORDER (direct_to_phys dm ptr);
          index = addr div 8;
          shift = addr mod 8
      in h\<lparr>bitmap := (bitmap h)(index := bitmap h index OR push_bit (unat shift) 1)\<rparr>)"

section \<open>Allocation\<close>

definition buddy_mutex_lock :: "mm \<Rightarrow> mm option" where
  "buddy_mutex_lock h = do { l \<leftarrow> mutex_lock (buddy_lock h); Some (h\<lparr>buddy_lock := l\<rparr>) }"

definition buddy_mutex_unlock :: "mm \<Rightarrow> mm option" where
  "buddy_mutex_unlock h = do { l \<leftarrow> mutex_unlock (buddy_lock h); Some (h\<lparr>buddy_lock := l\<rparr>) }"

text \<open>The first level from \<open>level\<close> up that has a free block.\<close>

function buddy_find_level :: "mm \<Rightarrow> nat \<Rightarrow> nat" where
  "buddy_find_level h level =
     (if level < PHYS_BUDDY_MAX_LEVEL \<and> hlist_empty h level then buddy_find_level h (Suc level)
      else level)"
  by auto
termination by (relation "measure (\<lambda>(h, l). PHYS_BUDDY_MAX_LEVEL - l)") auto

declare buddy_find_level.simps [simp del]

text \<open>\<open>*page = (buddy_free_page_t){}\<close>.\<close>

definition buddy_clear_header :: "ptr \<Rightarrow> mm \<Rightarrow> mm" where
  "buddy_clear_header page h = h\<lparr>hn_next := (hn_next h)(page := 0),
     hn_pprev := (hn_pprev h)(page := H_Addr 0), bf_level := (bf_level h)(page := 0)\<rparr>"

fun buddy_split :: "u64 \<Rightarrow> nat \<Rightarrow> nat \<Rightarrow> ptr \<Rightarrow> mm \<Rightarrow> mm" where
  "buddy_split dm level 0 block h = h"
| "buddy_split dm level (Suc l) block h =
     (if Suc l > level then
        let block_size = 2 ^ (Suc l + PHYS_BUDDY_MIN_ORDER);
            upper = block + block_size div 2;
            h = h\<lparr>bf_level := (bf_level h)(upper := of_nat l)\<rparr>;
            h = hlist_add l upper h;
            h = buddy_set_block_free dm upper h
        in buddy_split dm level l block h
      else h)"

definition phys_alloc_commit :: "nat \<Rightarrow> nat \<Rightarrow> bool \<Rightarrow> mm \<Rightarrow> (bool \<times> mm) option" where
  "phys_alloc_commit level block_at_level reserved h =
     (if level \<ge> PHYS_BUDDY_PAGE_LEVEL then
        let page_count = get_page_count_by_level level in
        if reserved then do { h \<leftarrow> mem_acct_commit_reserved page_count h; Some (True, h) }
        else Some (mem_acct_commit page_count h)
      else if block_at_level \<ge> PHYS_BUDDY_PAGE_LEVEL then Some (mem_acct_commit 1 h)
      else Some (True, h))"

definition phys_alloc_internal :: "u64 \<Rightarrow> nat \<Rightarrow> bool \<Rightarrow> mm \<Rightarrow> (ptr \<times> mm) option" where
  "phys_alloc_internal dm level reserved h = do {
     h \<leftarrow> buddy_mutex_lock h;
     let block_at_level = buddy_find_level h level in
     if block_at_level = PHYS_BUDDY_MAX_LEVEL then do {
       ASSERT (\<not> reserved \<or> level \<noteq> PHYS_BUDDY_PAGE_LEVEL);
       h \<leftarrow> buddy_mutex_unlock h;
       Some (0, h)
     } else do {
       (ok, h) \<leftarrow> phys_alloc_commit level block_at_level reserved h;
       if \<not> ok then do { h \<leftarrow> buddy_mutex_unlock h; Some (0, h) }
       else do {
         let page = hl_first h block_at_level;
         ASSERT (unat (bf_level h page) = block_at_level);
         h \<leftarrow> hlist_del page h;
         let h = buddy_clear_header page h;
         let h = buddy_split dm level block_at_level page h;
         let h = buddy_set_block_allocated dm page h;
         h \<leftarrow> buddy_mutex_unlock h;
         Some (page, h)
       }
     }
   }"

definition phys_alloc :: "u64 \<Rightarrow> u64 \<Rightarrow> mm \<Rightarrow> (ptr \<times> mm) option" where
  "phys_alloc dm sz h =
     (let level = get_level_by_size sz in
      if level < 0 then Some (0, h) else phys_alloc_internal dm (nat level) False h)"

definition phys_alloc_reserved :: "u64 \<Rightarrow> u64 \<Rightarrow> mm \<Rightarrow> (ptr \<times> mm) option" where
  "phys_alloc_reserved dm sz h =
     (let level = get_page_level_by_size sz in do {
        ASSERT (level \<ge> 0);
        phys_alloc_internal dm (nat level) True h })"

section \<open>Freeing\<close>

function buddy_merge :: "u64 \<Rightarrow> ptr \<Rightarrow> nat \<Rightarrow> mm \<Rightarrow> (ptr \<times> nat \<times> mm) option" where
  "buddy_merge dm ptr level h =
     (if level < PHYS_BUDDY_MAX_LEVEL - 1 then
        let block_size = 2 ^ (level + PHYS_BUDDY_MIN_ORDER);
            neighbor = ptr XOR block_size
        in if \<not> buddy_is_block_free dm h neighbor then Some (ptr, level, h)
           else if unat (bf_level h neighbor) \<noteq> level then Some (ptr, level, h)
           else (case hlist_del neighbor h of None \<Rightarrow> None | Some h \<Rightarrow>
             let h = buddy_clear_header neighbor h;
                 ptr = (if ptr > neighbor then neighbor else ptr)
             in buddy_merge dm ptr (Suc level) h)
      else Some (ptr, level, h))"
  by pat_completeness auto
termination by (relation "measure (\<lambda>(dm, ptr, l, h). PHYS_BUDDY_MAX_LEVEL - l)") auto

declare buddy_merge.simps [simp del]

definition phys_free_internal :: "u64 \<Rightarrow> ptr \<Rightarrow> nat \<Rightarrow> bool \<Rightarrow> mm \<Rightarrow> (nat \<times> mm) option" where
  "phys_free_internal dm ptr level check_allocated h = do {
     ASSERT (ptr mod 2 ^ (level + PHYS_BUDDY_MIN_ORDER) = 0);
     h \<leftarrow> buddy_mutex_lock h;
     h \<leftarrow> (if check_allocated then do {
             ASSERT (\<not> buddy_is_block_free dm h ptr);
             Some (buddy_set_block_free dm ptr h) }
           else Some h);
     (block, level, h) \<leftarrow> buddy_merge dm ptr level h;
     let h = h\<lparr>bf_level := (bf_level h)(block := of_nat level)\<rparr>;
     let h = hlist_add level block h;
     let h = buddy_set_block_free dm block h;
     h \<leftarrow> buddy_mutex_unlock h;
     Some (level, h) }"

definition phys_free_block :: "u64 \<Rightarrow> ptr \<Rightarrow> nat \<Rightarrow> bool \<Rightarrow> mm \<Rightarrow> mm option" where
  "phys_free_block dm ptr level reserved h =
     (let block_size = 2 ^ (level + PHYS_BUDDY_MIN_ORDER);
          h = memset ptr 0 block_size h
      in do {
        (merged_level, h) \<leftarrow> phys_free_internal dm ptr level True h;
        if level \<ge> PHYS_BUDDY_PAGE_LEVEL then
          let page_count = get_page_count_by_level level in
          if reserved then mem_acct_uncommit_to_reserved page_count h
          else mem_acct_uncommit page_count h
        else if merged_level \<ge> PHYS_BUDDY_PAGE_LEVEL then mem_acct_uncommit 1 h
        else Some h })"

definition phys_free :: "u64 \<Rightarrow> ptr \<Rightarrow> u64 \<Rightarrow> mm \<Rightarrow> mm option" where
  "phys_free dm ptr sz h =
     (if ptr = 0 then Some h
      else let level = get_level_by_size sz in do {
        ASSERT (level \<ge> 0);
        phys_free_block dm ptr (nat level) False h })"

definition phys_free_reserved :: "u64 \<Rightarrow> ptr \<Rightarrow> u64 \<Rightarrow> mm \<Rightarrow> mm option" where
  "phys_free_reserved dm ptr sz h =
     (if ptr = 0 then Some h
      else let level = get_page_level_by_size sz in do {
        ASSERT (level \<ge> 0);
        phys_free_block dm ptr (nat level) True h })"

section \<open>Adding memory\<close>

fun get_best_level_from :: "nat \<Rightarrow> u64 \<Rightarrow> u64 \<Rightarrow> int" where
  "get_best_level_from 0 addr addr_fin = -1"
| "get_best_level_from (Suc i) addr addr_fin =
     (let sz = 2 ^ (i + PHYS_BUDDY_MIN_ORDER) in
      if addr + sz > addr_fin then get_best_level_from i addr addr_fin
      else let alignment = sz - 1 in
        if addr AND alignment = 0 then int i else get_best_level_from i addr addr_fin)"

definition get_best_level_for_block :: "ptr \<Rightarrow> ptr \<Rightarrow> int" where
  "get_best_level_for_block start fin = get_best_level_from PHYS_BUDDY_MAX_LEVEL start fin"

partial_function (option) phys_add_blocks :: "u64 \<Rightarrow> ptr \<Rightarrow> ptr \<Rightarrow> mm \<Rightarrow> mm option" where
  "phys_add_blocks dm start fin h =
     (if start < fin then
        let level = get_best_level_for_block start fin in do {
          ASSERT (level \<ge> 0);
          (_, h) \<leftarrow> phys_free_internal dm start (nat level) False h;
          let block_size = 2 ^ nat (level + int PHYS_BUDDY_MIN_ORDER);
          phys_add_blocks dm (start + block_size) fin h }
      else Some h)"

definition phys_add_memory :: "u64 \<Rightarrow> ptr \<Rightarrow> ptr \<Rightarrow> mm \<Rightarrow> mm option" where
  "phys_add_memory dm start fin h = do {
     ASSERT (start AND PAGE_MASK = 0 \<and> fin AND PAGE_MASK = 0);
     let page_count = (fin - start) div PAGE_SIZE;
     let h = memset start 0 (fin - start) h;
     h \<leftarrow> phys_add_blocks dm start fin h;
     Some (mem_acct_add_total page_count h) }"

end
