(* ===== verification/Blocks.thy ===== *)
theory Blocks
  imports Prelude
begin

text \<open>
  Aligned power-of-two blocks of addresses: \<open>cov s a\<close> are the addresses that agree with \<open>a\<close> from
  bit \<open>s\<close> up, the block of \<open>2 ^ s\<close> bytes around \<open>a\<close>; and the two halves of a block, each
  other's buddy (exclusive or with the size).
\<close>

definition cov :: "nat \<Rightarrow> ptr \<Rightarrow> ptr set" where
  "cov s a = {w. drop_bit s w = drop_bit s a}"

definition algn :: "nat \<Rightarrow> ptr \<Rightarrow> bool" where
  "algn s a \<longleftrightarrow> take_bit s a = 0"

lemma drop_bit_eq_bits: "drop_bit s w = drop_bit s (a :: ptr) \<longleftrightarrow> (\<forall>n\<ge>s. bit w n = bit a n)"
proof
  assume e: "drop_bit s w = drop_bit s a"
  show "\<forall>n\<ge>s. bit w n = bit a n"
  proof (intro allI impI)
    fix n assume "s \<le> n"
    then show "bit w n = bit a n"
      using arg_cong [OF e, of "\<lambda>x. bit x (n - s)"] by (simp add: bit_drop_bit_eq)
  qed
next
  assume "\<forall>n\<ge>s. bit w n = bit a n"
  then show "drop_bit s w = drop_bit s a"
    by (intro bit_word_eqI) (simp add: bit_drop_bit_eq)
qed

lemma in_cov: "w \<in> cov s a \<longleftrightarrow> (\<forall>n\<ge>s. bit w n = bit a n)"
  by (simp add: cov_def drop_bit_eq_bits)

lemma algn_bits: "algn s a \<longleftrightarrow> (\<forall>n < s. \<not> bit a n)"
proof
  assume "algn s a"
  then have e: "take_bit s a = 0" by (simp add: algn_def)
  show "\<forall>n < s. \<not> bit a n"
  proof (intro allI impI)
    fix n assume "n < s"
    then show "\<not> bit a n"
      using arg_cong [OF e, of "\<lambda>x. bit x n"] by (simp add: bit_take_bit_iff)
  qed
qed (auto simp: algn_def bit_take_bit_iff intro!: bit_word_eqI)

lemma bit_pow2: "bit (2 ^ s :: ptr) n \<longleftrightarrow> n = s \<and> s < 64"
  by (auto simp: bit_exp_iff)

lemma bit_buddy: "s < 64 \<Longrightarrow> bit (p XOR 2 ^ s :: ptr) n \<longleftrightarrow> bit p n \<noteq> (n = s)"
  by (auto simp: bit_xor_iff bit_pow2)

lemma cov_self [simp]: "a \<in> cov s a"
  by (simp add: cov_def)

lemma cov_mono: "s \<le> t \<Longrightarrow> cov s a \<subseteq> cov t a"
  by (auto simp: in_cov)

lemma cov_eq: "b \<in> cov s a \<Longrightarrow> cov s b = cov s a"
  by (auto simp: cov_def)

lemma algn_mono: "algn t a \<Longrightarrow> s \<le> t \<Longrightarrow> algn s a"
  by (simp add: algn_bits)

lemma algn_unique: "a \<in> cov s b \<Longrightarrow> algn s a \<Longrightarrow> algn s b \<Longrightarrow> a = b"
  by (rule bit_word_eqI) (auto simp: in_cov algn_bits, (metis not_le)+)

lemma cov_nested: "cov s a \<inter> cov t b \<noteq> {} \<Longrightarrow> s \<le> t \<Longrightarrow> cov s a \<subseteq> cov t b"
  using cov_mono [of s t] cov_eq by blast

lemma add_eq_or: "(\<And>n. \<not> bit x n \<or> \<not> bit y n) \<Longrightarrow> (x :: ptr) + y = x OR y"
  by (rule disjunctive_add)

lemma upper_half: "algn (Suc s) x \<Longrightarrow> s < 64 \<Longrightarrow> x + 2 ^ s = x XOR 2 ^ s"
proof -
  assume a: "algn (Suc s) x" "s < 64"
  then have "x + 2 ^ s = x OR 2 ^ s"
    by (intro add_eq_or) (auto simp: bit_pow2 algn_bits)
  also have "x OR 2 ^ s = x XOR 2 ^ s"
    using a by (intro bit_word_eqI) (auto simp: bit_or_iff bit_xor_iff bit_pow2 algn_bits)
  finally show ?thesis .
qed

lemma buddy_buddy [simp]: "(p XOR 2 ^ s) XOR 2 ^ s = (p :: ptr)"
  by (simp add: xor.assoc)

lemma cov_halves: "s < 64 \<Longrightarrow> cov (Suc s) x = cov s x \<union> cov s (x XOR 2 ^ s)"
proof (rule set_eqI)
  fix w
  assume s: "s < 64"
  show "w \<in> cov (Suc s) x \<longleftrightarrow> w \<in> cov s x \<union> cov s (x XOR 2 ^ s)"
    using s by (auto simp: in_cov bit_buddy Suc_le_eq) (metis le_neq_implies_less)+
qed

lemma cov_halves_disjoint: "s < 64 \<Longrightarrow> cov s x \<inter> cov s (x XOR 2 ^ s) = {}"
  by (auto simp: in_cov bit_buddy)

lemma algn_buddy: "s < 64 \<Longrightarrow> algn s ((p :: ptr) XOR 2 ^ s) = algn s p"
  by (auto simp: algn_bits bit_buddy)

lemma cov_buddy: "s < 64 \<Longrightarrow> cov (Suc s) ((p :: ptr) XOR 2 ^ s) = cov (Suc s) p"
  by (rule cov_eq) (auto simp: in_cov bit_buddy)

lemma buddy_neq: "s < 64 \<Longrightarrow> p XOR 2 ^ s \<noteq> (p :: ptr)"
  using bit_buddy [of s p s] by auto

lemma buddy_less: "s < 64 \<Longrightarrow> (p XOR 2 ^ s < (p :: ptr)) = bit p s"
proof -
  assume s: "s < 64"
  have le: "q AND NOT (2 ^ s) \<le> q" for q :: ptr
    by (subst and.commute) (rule word_and_le1)
  have d: "bit q s \<Longrightarrow> q XOR 2 ^ s = q AND NOT (2 ^ s)" for q :: ptr
    using s by (intro bit_word_eqI) (auto simp: bit_simps bit_pow2 bit_buddy)
  show ?thesis
  proof (cases "bit p s")
    case True
    with le [of p] d [of p] buddy_neq [OF s, of p] show ?thesis by simp
  next
    case False
    then have "bit (p XOR 2 ^ s) s" using s by (simp add: bit_buddy)
    with le [of "p XOR 2 ^ s"] d [of "p XOR 2 ^ s"] have "p \<le> p XOR 2 ^ s" by simp
    with False show ?thesis by simp
  qed
qed

text \<open>The lower of a block and its buddy starts the merged block.\<close>

lemma merged_start:
  assumes "s < 64" "algn s p"
  defines "m \<equiv> if p > p XOR 2 ^ s then p XOR 2 ^ s else p"
  shows "algn (Suc s) m" "cov (Suc s) m = cov s p \<union> cov s (p XOR 2 ^ s)" "m \<in> {p, p XOR 2 ^ s}"
proof -
  show "algn (Suc s) m"
    using assms(1,2) unfolding m_def buddy_less [OF assms(1)]
    by (auto simp: algn_bits bit_buddy less_Suc_eq)
  show "cov (Suc s) m = cov s p \<union> cov s (p XOR 2 ^ s)"
    using cov_halves [OF assms(1)] cov_buddy [OF assms(1)] unfolding m_def by simp
  show "m \<in> {p, p XOR 2 ^ s}" by (simp add: m_def)
qed

text \<open>A block that holds the buddy, and does not start there, holds the block too.\<close>

lemma buddy_inside:
  assumes "s < 64" "algn s p" "algn k a" "p XOR 2 ^ s \<in> cov k a" "p XOR 2 ^ s \<noteq> a"
  shows "p \<in> cov k a"
proof (cases "k \<le> s")
  case True
  have "algn k (p XOR 2 ^ s)" using assms(1,2) algn_buddy algn_mono True by blast
  with assms(3,4) algn_unique have "p XOR 2 ^ s = a" by blast
  with assms(5) show ?thesis by simp
next
  case False
  with assms(1,4) show ?thesis by (auto simp: in_cov bit_buddy)
qed

lemma unat_pow2: "s < 64 \<Longrightarrow> unat (2 ^ s :: ptr) = 2 ^ s"
  by transfer simp

lemma small_bits: "(d :: ptr) < 2 ^ s \<Longrightarrow> s < 64 \<Longrightarrow> take_bit s d = d"
proof -
  assume "d < 2 ^ s" "s < 64"
  then have "unat d < 2 ^ s" by (simp add: word_less_nat_alt unat_pow2)
  then show ?thesis
    by (simp add: word_unat_eq_iff unsigned_take_bit_eq take_bit_nat_eq_self_iff)
qed

lemma range_cov: "s < 64 \<Longrightarrow> algn s p \<Longrightarrow> w - p < 2 ^ s \<longleftrightarrow> w \<in> cov s p"
proof
  assume s: "s < 64" "algn s p" and "w - p < 2 ^ s"
  then have d: "take_bit s (w - p) = w - p" by (intro small_bits)
  then have nb: "\<not> bit (w - p) n" if "s \<le> n" for n
    using that by (metis bit_take_bit_iff not_le)
  have "p + (w - p) = p OR (w - p)"
    using s nb by (intro add_eq_or) (auto simp: algn_bits, metis not_le)
  then have "w = p OR (w - p)" by simp
  then have "bit w n = (bit p n \<or> bit (w - p) n)" for n by (metis bit_or_iff)
  with nb show "w \<in> cov s p" by (simp add: in_cov)
next
  assume s: "s < 64" "algn s p" and w: "w \<in> cov s p"
  have "p + take_bit s w = p OR take_bit s w"
    using s by (intro add_eq_or) (auto simp: algn_bits bit_take_bit_iff)
  also have "\<dots> = w"
    using s w by (intro bit_word_eqI) (auto simp: bit_simps in_cov algn_bits, (metis not_le)+)
  finally have "w - p = take_bit s w" by (metis add_diff_cancel_left')
  moreover have "take_bit s w < 2 ^ s"
    using s by (simp add: word_less_nat_alt unsigned_take_bit_eq unat_pow2)
  ultimately show "w - p < 2 ^ s" by simp
qed

end
