(* ===== verification/Phys_Buddy.thy ===== *)
theory Phys_Buddy
  imports Phys Blocks
begin

text \<open>
  The invariant of the buddy allocator.  A block is its address and level; \<open>F\<close> gives the blocks
  of each free list in order, \<open>X\<close> the blocks that are not on a list: those handed out, and the one
  an operation holds in its hands.  All blocks are aligned and disjoint.  A set bit of the
  bitmap is the start of a free block, or left over inside some block.

  Below, what the steps of the allocator do to it: taking a block off its list, putting one on,
  splitting, joining with the buddy, setting and clearing a bit.
\<close>

section \<open>The bitmap\<close>

lemma byte_bit: "drop_bit n (b :: u8) AND 1 \<noteq> 0 \<longleftrightarrow> bit b n"
  by (simp add: and_one_eq bit_iff_odd_drop_bit odd_iff_mod_2_eq_one)

abbreviation bm_index :: "u64 \<Rightarrow> ptr \<Rightarrow> u64" where
  "bm_index dm p \<equiv> drop_bit 6 (p - dm) div 8"

abbreviation bm_shift :: "u64 \<Rightarrow> ptr \<Rightarrow> nat" where
  "bm_shift dm p \<equiv> unat (drop_bit 6 (p - dm) mod 8)"

lemma is_free_bit: "buddy_is_block_free dm h p = bit (bitmap h (bm_index dm p)) (bm_shift dm p)"
  by (simp add: buddy_is_block_free_def Let_def byte_bit direct_to_phys_def PHYS_BUDDY_MIN_ORDER_def)

lemma is_free_cong: "bitmap h' = bitmap h \<Longrightarrow> buddy_is_block_free dm h' p = buddy_is_block_free dm h p"
  by (simp add: is_free_bit)

lemma algn_push: "algn s a \<longleftrightarrow> (\<exists>k. a = push_bit s (k :: u64))"
proof
  assume "algn s a"
  then have b: "bit a n \<Longrightarrow> s \<le> n" for n by (auto simp: algn_bits not_less [symmetric])
  have "a = push_bit s (drop_bit s a)"
  proof (rule bit_word_eqI)
    fix n
    show "bit a n = bit (push_bit s (drop_bit s a)) n" if "n < LENGTH(64)"
      using that by (cases "s \<le> n") (auto simp: bit_simps dest: b)
  qed
  then show "\<exists>k. a = push_bit s k" ..
qed (auto simp: algn_bits bit_simps)

lemma algn_diff: "algn s p \<Longrightarrow> algn s dm \<Longrightarrow> algn s (p - dm)"
proof -
  assume "algn s p" "algn s dm"
  then obtain j k :: u64 where "p = push_bit s j" "dm = push_bit s k" by (auto simp: algn_push)
  then have "p - dm = push_bit s (j - k)" by (simp add: push_bit_eq_mult left_diff_distrib)
  then show ?thesis by (auto simp: algn_push)
qed

lemma bm_inj:
  assumes "algn 6 dm" "algn 6 p" "algn 6 q"
    and "bm_index dm p = bm_index dm q" "bm_shift dm p = bm_shift dm q"
  shows "p = q"
proof -
  have e: "drop_bit 6 (p - dm) = drop_bit 6 (q - dm)"
    using assms(4,5) by (metis mult_div_mod_eq word_unat_eq_iff)
  have "p - dm = q - dm"
    by (rule algn_unique [of _ 6]) (use e algn_diff assms in \<open>auto simp: cov_def\<close>)
  then show ?thesis by simp
qed

lemma bm_shift_less: "bm_shift dm p < 8"
proof -
  have "drop_bit 6 (p - dm) mod 8 < 8" by (rule word_mod_less_divisor) simp
  then show ?thesis by (simp add: word_less_nat_alt)
qed

lemma bm_set:
  "buddy_set_block_free dm p h =
     h\<lparr>bitmap := (bitmap h)(bm_index dm p := bitmap h (bm_index dm p) OR 2 ^ bm_shift dm p)\<rparr>"
  by (simp add: buddy_set_block_free_def Let_def direct_to_phys_def PHYS_BUDDY_MIN_ORDER_def)

lemma bm_clear:
  "buddy_set_block_allocated dm p h =
     h\<lparr>bitmap := (bitmap h)(bm_index dm p := bitmap h (bm_index dm p) AND NOT (2 ^ bm_shift dm p))\<rparr>"
  by (simp add: buddy_set_block_allocated_def Let_def direct_to_phys_def PHYS_BUDDY_MIN_ORDER_def)

lemma byte_set: "k < 8 \<Longrightarrow>
   bit ((f(i := f i OR 2 ^ k :: u8)) j) n \<longleftrightarrow> bit (f j) n \<or> (j = i \<and> n = k)"
  by (auto simp: bit_or_iff bit_exp_iff)

lemma byte_clear: "k < 8 \<Longrightarrow>
   bit ((f(i := f i AND NOT (2 ^ k) :: u8)) j) n \<longleftrightarrow> bit (f j) n \<and> \<not> (j = i \<and> n = k)"
  by (auto simp: bit_and_iff bit_not_iff bit_exp_iff dest: bit_imp_le_length)

lemma bitmap_update: "bitmap (h\<lparr>bitmap := f\<rparr>) = f"
  by simp

lemma bm_eq:
  assumes "algn 6 dm" "algn 6 p" "algn 6 q"
  shows "(bm_index dm q = bm_index dm p \<and> bm_shift dm q = bm_shift dm p) = (q = p)"
  using bm_inj [OF assms(1,3,2)] by blast

lemma is_free_set:
  assumes "algn 6 dm" "algn 6 p" "algn 6 q"
  shows "buddy_is_block_free dm (buddy_set_block_free dm p h) q = (q = p \<or> buddy_is_block_free dm h q)"
  unfolding is_free_bit bm_set bitmap_update byte_set [OF bm_shift_less] bm_eq [OF assms] by blast

lemma is_free_clear:
  assumes "algn 6 dm" "algn 6 p" "algn 6 q"
  shows "buddy_is_block_free dm (buddy_set_block_allocated dm p h) q =
    (q \<noteq> p \<and> buddy_is_block_free dm h q)"
  unfolding is_free_bit bm_clear bitmap_update byte_clear [OF bm_shift_less] bm_eq [OF assms] by blast

section \<open>Blocks\<close>

type_synonym block = "ptr \<times> nat"

definition blk :: "block \<Rightarrow> ptr set" where
  "blk b = cov (snd b + 6) (fst b)"

definition wf_blocks :: "block set \<Rightarrow> bool" where
  "wf_blocks B \<longleftrightarrow> (\<forall>(a, l)\<in>B. l < 16 \<and> algn (l + 6) a \<and> a \<noteq> 0) \<and>
     pairwise (\<lambda>b c. blk b \<inter> blk c = {}) B"

definition fset :: "(nat \<Rightarrow> ptr list) \<Rightarrow> block set" where
  "fset F = {(a, l). l < 16 \<and> a \<in> set (F l)}"

lemma blk_self [simp]: "a \<in> blk (a, l)"
  by (simp add: blk_def)

lemma blk_nonempty [simp]: "blk b \<noteq> {}" "{} \<noteq> blk b"
  using blk_self [of "fst b" "snd b"] by auto

lemma wf_block: "wf_blocks B \<Longrightarrow> (a, l) \<in> B \<Longrightarrow> l < 16 \<and> algn (l + 6) a \<and> algn 6 a \<and> a \<noteq> 0"
  using algn_mono [of "l + 6" a 6] by (auto simp: wf_blocks_def)

lemma wf_insert: "wf_blocks (insert b B) \<longleftrightarrow> wf_blocks B \<and>
   (snd b < 16 \<and> algn (snd b + 6) (fst b) \<and> fst b \<noteq> 0) \<and> (\<forall>c\<in>B. c \<noteq> b \<longrightarrow> blk c \<inter> blk b = {})"
  unfolding wf_blocks_def pairwise_insert by (cases b) (auto simp: Int_commute)

lemma wf_disjoint: "wf_blocks B \<Longrightarrow> b \<in> B \<Longrightarrow> c \<in> B \<Longrightarrow> w \<in> blk b \<Longrightarrow> w \<in> blk c \<Longrightarrow> b = c"
  unfolding wf_blocks_def pairwise_def by blast

lemma wf_start: "wf_blocks B \<Longrightarrow> (a, l) \<in> B \<Longrightarrow> (a, k) \<in> B \<Longrightarrow> l = k"
  using wf_disjoint [of B "(a, l)" "(a, k)" a] by simp

lemma wf_split:
  assumes "wf_blocks (insert (x, Suc l) B)" "(x, Suc l) \<notin> B"
  defines "u \<equiv> x XOR 2 ^ (l + 6)"
  shows "wf_blocks (insert (x, l) (insert (u, l) B)) \<and> (x, l) \<notin> B \<and> (u, l) \<notin> B \<and> x \<noteq> u \<and>
    blk (x, Suc l) = blk (x, l) \<union> blk (u, l) \<and> u = x + 2 ^ (l + 6)"
proof -
  have x: "Suc l < 16" "algn (Suc (l + 6)) x" "x \<noteq> 0"
    using wf_block [OF assms(1), of x "Suc l"] by simp_all
  have s: "l + 6 < 64" using x by simp
  have a: "algn (l + 6) x" "algn (l + 6) u"
    using x(2) s algn_mono [OF x(2), of "l + 6"] algn_buddy [OF s] by (simp_all add: u_def)
  have c: "blk (x, Suc l) = blk (x, l) \<union> blk (u, l)" "blk (x, l) \<inter> blk (u, l) = {}"
    using cov_halves [OF s, of x] cov_halves_disjoint [OF s, of x] by (simp_all add: blk_def u_def)
  have ne: "x \<noteq> u" "u = x + 2 ^ (l + 6)"
    using buddy_neq [OF s, of x] upper_half [OF x(2) s] by (auto simp: u_def)
  have u0: "u \<noteq> 0"
  proof
    assume "u = 0"
    then have "\<not> bit u (l + 6)" by simp
    then have "bit x (l + 6)" using s by (simp add: u_def bit_buddy)
    with x(2) show False by (simp add: algn_bits)
  qed
  have out: "blk b \<inter> blk (x, Suc l) = {}" if "b \<in> B" for b
    using assms(1,2) that by (auto simp: wf_insert)
  have nin: "(x, l) \<notin> B" "(u, l) \<notin> B"
    using out [of "(x, l)"] out [of "(u, l)"] c(1) by auto
  have "wf_blocks (insert (x, l) (insert (u, l) B))"
    using assms(1) x a u0 out c by (fastforce simp: wf_insert)
  with nin ne c show ?thesis by simp
qed

lemma wf_join:
  assumes "wf_blocks (insert (p, l) (insert (p XOR 2 ^ (l + 6), l) B))"
    and "(p, l) \<notin> B" "(p XOR 2 ^ (l + 6), l) \<notin> B" "Suc l < 16"
  defines "m \<equiv> if p > p XOR 2 ^ (l + 6) then p XOR 2 ^ (l + 6) else p"
  shows "wf_blocks (insert (m, Suc l) B) \<and> (m, Suc l) \<notin> B \<and>
    blk (m, Suc l) = blk (p, l) \<union> blk (p XOR 2 ^ (l + 6), l)"
proof -
  let ?u = "p XOR 2 ^ (l + 6)"
  have s: "l + 6 < 64" using assms(4) by simp
  have p: "algn (l + 6) p" "p \<noteq> 0" "?u \<noteq> 0"
    using wf_block [OF assms(1), of p l] wf_block [OF assms(1), of ?u l] by simp_all
  have m: "algn (Suc (l + 6)) m" "blk (m, Suc l) = blk (p, l) \<union> blk (?u, l)" "m \<in> {p, ?u}"
    using merged_start [OF s p(1)] by (simp_all add: m_def blk_def)
  have out: "blk b \<inter> blk (m, Suc l) = {}" if "b \<in> B" for b
    using assms(1-3) that m(2) by (fastforce simp: wf_insert)
  have "(m, Suc l) \<notin> B" using out [of "(m, Suc l)"] by auto
  moreover have "wf_blocks (insert (m, Suc l) B)"
    using assms(1,4) m p out by (auto simp: wf_insert)
  ultimately show ?thesis using m(2) by simp
qed

section \<open>The invariant\<close>

definition buddy_core :: "u64 \<Rightarrow> mm \<Rightarrow> (nat \<Rightarrow> ptr list) \<Rightarrow> block set \<Rightarrow> bool" where
  "buddy_core dm h F X \<longleftrightarrow>
     algn 6 dm \<and> (\<forall>l<16. hseg h (H_First l) (F l) \<and> distinct (F l)) \<and>
     wf_blocks (fset F \<union> X) \<and> fset F \<inter> X = {} \<and>
     (\<forall>(a, l)\<in>fset F. bf_level h a = of_nat l \<and> buddy_is_block_free dm h a) \<and>
     (\<forall>a. algn 6 a \<and> buddy_is_block_free dm h a \<longrightarrow> (\<exists>b\<in>fset F \<union> X. a \<in> blk b))"

text \<open>Free blocks hold nothing but their header.\<close>

definition buddy_zero :: "mm \<Rightarrow> (nat \<Rightarrow> ptr list) \<Rightarrow> bool" where
  "buddy_zero h F \<longleftrightarrow> (\<forall>(a, l)\<in>fset F. \<forall>w\<in>blk (a, l). no_data h w \<and> (w \<noteq> a \<longrightarrow> no_header h w))"

definition zero_blk :: "mm \<Rightarrow> block \<Rightarrow> bool" where
  "zero_blk h b \<longleftrightarrow> (\<forall>w\<in>blk b. no_data h w \<and> no_header h w)"

lemma fset_remove:
  "l < 16 \<Longrightarrow> F l = xs @ x # ys \<Longrightarrow> distinct (F l) \<Longrightarrow>
   fset (F(l := xs @ ys)) = fset F - {(x, l)} \<and> (x, l) \<in> fset F"
  by (auto simp: fset_def split: if_splits)

lemma fset_add: "l < 16 \<Longrightarrow> fset (F(l := p # F l)) = insert (p, l) (fset F)"
  by (auto simp: fset_def split: if_splits)

lemma level_byte: "l < 16 \<Longrightarrow> unat (of_nat l :: u8) = l"
  by (simp add: unat_of_nat)

lemma buddy_take:
  assumes c: "buddy_core dm h F X" and l: "l < 16" "F l = xs @ x # ys"
  defines "F' \<equiv> F(l := xs @ ys)"
  shows "\<exists>h1. hlist_del x h = Some h1 \<and> buddy_core dm (buddy_clear_header x h1) F' (insert (x, l) X) \<and>
    (buddy_zero h F \<longrightarrow> buddy_zero (buddy_clear_header x h1) F' \<and>
       zero_blk (buddy_clear_header x h1) (x, l)) \<and>
    (\<forall>b. (\<forall>a. (a, l) \<in> fset F \<longrightarrow> a \<notin> blk b) \<longrightarrow> zero_blk h b \<longrightarrow> zero_blk (buddy_clear_header x h1) b) \<and>
    (\<forall>w. (w, l) \<notin> fset F \<longrightarrow> no_header (buddy_clear_header x h1) w = no_header h w) \<and>
    (\<exists>f g r i m. buddy_clear_header x h1 =
       h\<lparr>hl_first := f, hn_next := g, hn_pprev := r, bf_level := i, bitmap := m\<rparr>) \<and>
    bitmap (buddy_clear_header x h1) = bitmap h"
proof -
  have s: "hseg h (H_First l) (xs @ x # ys)" "distinct (xs @ x # ys)"
    and w: "wf_blocks (fset F \<union> X)" and dj: "fset F \<inter> X = {}"
    using c l unfolding buddy_core_def by fastforce+
  obtain h1 where h1: "hlist_del x h = Some h1" "hseg h1 (H_First l) (xs @ ys)"
    "hl_frame l (insert x (set xs \<union> set ys)) h h1"
    using hlist_del_hseg [OF s] by blast
  define h2 where "h2 = buddy_clear_header x h1"
  have F': "fset F' = fset F - {(x, l)}" "(x, l) \<in> fset F"
    using fset_remove [of l F xs x ys] s(2) l unfolding F'_def by auto
  have U: "fset F' \<union> insert (x, l) X = fset F \<union> X" using F' by auto
  let ?S = "insert x (set xs \<union> set ys)"
  have S: "a \<in> ?S \<Longrightarrow> (a, l) \<in> fset F" for a using l by (auto simp: fset_def)
  have keep: "bf_level h2 = (bf_level h)(x := 0)" "bitmap h2 = bitmap h"
    using hl_frame_rest [OF h1(3)] by (simp_all add: h2_def buddy_clear_header_def)
  have hs: "hseg h2 (H_First k) zs = hseg h1 (H_First k) zs" if "x \<notin> set zs" for k zs
    using that by (intro hseg_cong) (auto simp: h2_def buddy_clear_header_def)
  have lists: "hseg h2 (H_First k) (F' k) \<and> distinct (F' k)" if "k < 16" for k
  proof (cases "k = l")
    case True
    then show ?thesis using hs h1(2) s(2) by (simp add: F'_def)
  next
    case False
    have dis: "?S \<inter> set (F k) = {}"
    proof (rule ccontr)
      assume "?S \<inter> set (F k) \<noteq> {}"
      then obtain a where "a \<in> ?S" "a \<in> set (F k)" by blast
      moreover from this that have "(a, k) \<in> fset F" by (simp add: fset_def)
      ultimately have "a \<in> ?S" "(a, k) \<in> fset F" by simp_all
      with S wf_start [OF w, of a l k] False show False by blast
    qed
    have "hseg h (H_First k) (F k) \<and> distinct (F k)" using c that by (simp add: buddy_core_def)
    with False dis hs [of "F k" k] hl_frame_hseg [OF h1(3) False dis] show ?thesis
      by (auto simp: F'_def)
  qed
  have core: "buddy_core dm h2 F' (insert (x, l) X)"
    unfolding buddy_core_def
  proof (intro conjI)
    show "algn 6 dm" using c by (simp add: buddy_core_def)
    show "\<forall>l<16. hseg h2 (H_First l) (F' l) \<and> distinct (F' l)" using lists by blast
    show "wf_blocks (fset F' \<union> insert (x, l) X)" using w U by simp
    show "fset F' \<inter> insert (x, l) X = {}" using dj F' by auto
    show "\<forall>(a, l)\<in>fset F'. bf_level h2 a = of_nat l \<and> buddy_is_block_free dm h2 a"
    proof clarify
      fix a k assume a: "(a, k) \<in> fset F'"
      then have "a \<noteq> x" using F' wf_start [OF w, of a l k] by auto
      with a c F' show "bf_level h2 a = of_nat k \<and> buddy_is_block_free dm h2 a"
        unfolding buddy_core_def by (auto simp: keep is_free_cong [OF keep(2)])
    qed
    show "\<forall>a. algn 6 a \<and> buddy_is_block_free dm h2 a \<longrightarrow> (\<exists>b\<in>fset F' \<union> insert (x, l) X. a \<in> blk b)"
      using c unfolding U is_free_cong [OF keep(2)] buddy_core_def by blast
  qed
  have nh: "no_header h2 a = no_header h a" if "a \<notin> ?S" for a
    using hl_frame_clean [OF h1(3) that] that
    by (simp add: no_header_def h2_def buddy_clear_header_def)
  have nd: "no_data h2 a = no_data h a" for a
    using hl_frame_data [OF h1(3), of a] by (simp add: no_data_def h2_def buddy_clear_header_def)
  have nx: "no_header h2 x" by (simp add: no_header_def h2_def buddy_clear_header_def)
  have z1: "zero_blk h2 b" if "\<forall>a. (a, l) \<in> fset F \<longrightarrow> a \<notin> blk b" "zero_blk h b" for b
    using that nh nd S unfolding zero_blk_def by blast
  have out: "w \<notin> ?S" if "(a, k) \<in> fset F" "w \<in> blk (a, k)" "w \<noteq> a" for a k w
  proof
    assume "w \<in> ?S"
    then have "(w, l) \<in> fset F" by (rule S)
    with that wf_disjoint [OF w, of "(w, l)" "(a, k)" w] show False by auto
  qed
  have z2: "buddy_zero h2 F' \<and> zero_blk h2 (x, l)" if z: "buddy_zero h F"
  proof
    have *: "no_data h w \<and> (w \<noteq> a \<longrightarrow> no_header h w)" if "(a, k) \<in> fset F" "w \<in> blk (a, k)" for a k w
      using z that unfolding buddy_zero_def by blast
    show "buddy_zero h2 F'"
      unfolding buddy_zero_def
    proof clarify
      fix a k w assume a: "(a, k) \<in> fset F'" "w \<in> blk (a, k)"
      then have "(a, k) \<in> fset F" using F'(1) by blast
      with * [OF this a(2)] nd nh out [OF this a(2)] show "no_data h2 w \<and> (w \<noteq> a \<longrightarrow> no_header h2 w)"
        by blast
    qed
    show "zero_blk h2 (x, l)"
      unfolding zero_blk_def
    proof clarify
      fix w assume a: "w \<in> blk (x, l)"
      show "no_data h2 w \<and> no_header h2 w"
        using * [OF F'(2) a] nd nh out [OF F'(2) a] nx by blast
    qed
  qed
  have "\<exists>f g r i m. h2 = h\<lparr>hl_first := f, hn_next := g, hn_pprev := r, bf_level := i, bitmap := m\<rparr>"
  proof -
    obtain f g r where "h1 = h\<lparr>hl_first := f, hn_next := g, hn_pprev := r\<rparr>"
      using h1(3) unfolding hl_frame_def by blast
    then have "h2 = h\<lparr>hl_first := f, hn_next := hn_next h2, hn_pprev := hn_pprev h2,
        bf_level := bf_level h2, bitmap := bitmap h\<rparr>"
      by (simp add: h2_def buddy_clear_header_def)
    then show ?thesis by blast
  qed
  moreover have "no_header h2 w = no_header h w" if "(w, l) \<notin> fset F" for w
    using nh [of w] that S by blast
  ultimately show ?thesis using h1(1) core z1 z2 keep unfolding h2_def by blast
qed

text \<open>Putting a block on the list of its level: the last steps of a free, and of each split.\<close>

lemma buddy_put:
  assumes c: "buddy_core dm h F (insert (p, l) X)" and p: "(p, l) \<notin> X" and l: "l < 16"
  defines "F' \<equiv> F(l := p # F l)"
    and "h' \<equiv> buddy_set_block_free dm p (hlist_add l p (h\<lparr>bf_level := (bf_level h)(p := of_nat l)\<rparr>))"
  shows "buddy_core dm h' F' X \<and>
    (buddy_zero h F \<longrightarrow> zero_blk h (p, l) \<longrightarrow> buddy_zero h' F') \<and>
    (\<forall>b. p \<notin> blk b \<longrightarrow> (\<forall>a. (a, l) \<in> fset F \<longrightarrow> a \<notin> blk b) \<longrightarrow> zero_blk h b \<longrightarrow> zero_blk h' b) \<and>
    (\<forall>w. w \<noteq> p \<and> (w, l) \<notin> fset F \<longrightarrow> no_header h' w = no_header h w) \<and>
    (\<forall>a. algn 6 a \<longrightarrow> buddy_is_block_free dm h' a = (a = p \<or> buddy_is_block_free dm h a)) \<and>
    (\<exists>f g r i m. h' = h\<lparr>hl_first := f, hn_next := g, hn_pprev := r, bf_level := i, bitmap := m\<rparr>)"
proof -
  define h0 where "h0 = h\<lparr>bf_level := (bf_level h)(p := of_nat l)\<rparr>"
  define h1 where "h1 = hlist_add l p h0"
  have h': "h' = buddy_set_block_free dm p h1" by (simp add: h'_def h1_def h0_def)
  have w: "wf_blocks (fset F \<union> insert (p, l) X)" and dj: "fset F \<inter> insert (p, l) X = {}"
    and dm: "algn 6 dm" and hl: "hseg h (H_First l) (F l)" "distinct (F l)"
    using c l by (simp_all add: buddy_core_def)
  have pa: "algn 6 p" "p \<noteq> 0" using wf_block [OF w, of p l] by simp_all
  have nin: "p \<notin> set (F l)" using dj l by (auto simp: fset_def)
  have h0l: "hseg h0 s xs = hseg h s xs" for s xs
    by (rule hseg_cong) (cases s; simp add: h0_def)+
  have "hseg h0 (H_First l) (F l)" using hl by (simp add: h0l)
  note a = hlist_add_hseg [OF this nin pa(2) hl(2)]
  let ?S = "insert p (set (F l))"
  have fr: "hl_frame l ?S h0 h1" using a(2) by (simp add: h1_def)
  have bm: "bitmap h1 = bitmap h" using hl_frame_rest [OF fr] by (simp add: h0_def)
  have lv: "bf_level h' = (bf_level h)(p := of_nat l)"
    using hl_frame_rest(1) [OF fr] by (simp add: h' bm_set h0_def)
  have h'l: "hseg h' s xs = hseg h1 s xs" for s xs
    by (rule hseg_cong) (cases s; simp add: h' bm_set)+
  have F': "fset F' = insert (p, l) (fset F)" unfolding F'_def by (rule fset_add [OF l])
  have U: "fset F' \<union> X = fset F \<union> insert (p, l) X" using F' by auto
  have S: "a \<in> ?S \<Longrightarrow> (a, l) \<in> fset F'" for a using l F' by (auto simp: fset_def)
  have lists: "hseg h' (H_First k) (F' k) \<and> distinct (F' k)" if "k < 16" for k
  proof (cases "k = l")
    case True
    then show ?thesis using a(1) hl nin by (simp add: h'l F'_def h1_def del: hseg.simps)
  next
    case False
    have dis: "?S \<inter> set (F k) = {}"
    proof (rule ccontr)
      assume "?S \<inter> set (F k) \<noteq> {}"
      then obtain a where "a \<in> ?S" "a \<in> set (F k)" by blast
      moreover from this that have "(a, k) \<in> fset F" by (simp add: fset_def)
      ultimately have "a \<in> ?S" "(a, k) \<in> fset F" by simp_all
      with S [of a] wf_start [OF w, of a l k] False F' show False by blast
    qed
    have "hseg h (H_First k) (F k) \<and> distinct (F k)" using c that by (simp add: buddy_core_def)
    with False dis hl_frame_hseg [OF fr False dis] show ?thesis
      by (simp add: F'_def h'l h0l)
  qed
  have fb: "buddy_is_block_free dm h' q = (q = p \<or> buddy_is_block_free dm h q)" if "algn 6 q" for q
    unfolding h' is_free_set [OF dm pa(1) that] is_free_cong [OF bm] ..
  have core: "buddy_core dm h' F' X"
    unfolding buddy_core_def
  proof (intro conjI)
    show "algn 6 dm" by (rule dm)
    show "\<forall>l<16. hseg h' (H_First l) (F' l) \<and> distinct (F' l)" using lists by blast
    show "wf_blocks (fset F' \<union> X)" using w U by simp
    show "fset F' \<inter> X = {}" using dj p unfolding F' by auto
    show "\<forall>(a, l)\<in>fset F'. bf_level h' a = of_nat l \<and> buddy_is_block_free dm h' a"
    proof clarify
      fix a k assume a: "(a, k) \<in> fset F'"
      then have ak: "algn 6 a" using wf_block [OF w, of a k] U by auto
      show "bf_level h' a = of_nat k \<and> buddy_is_block_free dm h' a"
      proof (cases "(a, k) = (p, l)")
        case True
        then show ?thesis using fb [OF ak] by (simp add: lv)
      next
        case False
        with a have af: "(a, k) \<in> fset F" by (auto simp: F')
        with False have "a \<noteq> p" using wf_start [OF w, of a k l] by auto
        with af c fb [OF ak] show ?thesis by (auto simp: lv buddy_core_def)
      qed
    qed
    show "\<forall>a. algn 6 a \<and> buddy_is_block_free dm h' a \<longrightarrow> (\<exists>b\<in>fset F' \<union> X. a \<in> blk b)"
    proof (intro allI impI)
      fix a assume a: "algn 6 a \<and> buddy_is_block_free dm h' a"
      then have "a = p \<or> buddy_is_block_free dm h a" using fb by blast
      then show "\<exists>b\<in>fset F' \<union> X. a \<in> blk b"
        using c a blk_self [of p l] unfolding U buddy_core_def by blast
    qed
  qed
  have nh: "no_header h' a = no_header h a" if "a \<notin> ?S" for a
    using hl_frame_clean [OF fr that] that by (simp add: no_header_def h' bm_set h0_def)
  have nd: "no_data h' a = no_data h a" for a
    using hl_frame_data [OF fr, of a] by (simp add: no_data_def h' bm_set h0_def)
  have S': "a \<in> ?S \<Longrightarrow> a = p \<or> (a, l) \<in> fset F" for a using l by (auto simp: fset_def)
  have z1: "zero_blk h' b" if "p \<notin> blk b" "\<forall>a. (a, l) \<in> fset F \<longrightarrow> a \<notin> blk b" "zero_blk h b" for b
    using that nh nd S' unfolding zero_blk_def by metis
  have out: "w \<notin> ?S" if "(a, k) \<in> fset F'" "w \<in> blk (a, k)" "w \<noteq> a" for a k w
  proof
    assume "w \<in> ?S"
    then have "(w, l) \<in> fset F'" by (rule S)
    with that wf_disjoint [OF w, of "(w, l)" "(a, k)" w] U show False by auto
  qed
  have z2: "buddy_zero h' F'" if z: "buddy_zero h F" "zero_blk h (p, l)"
    unfolding buddy_zero_def
  proof clarify
    fix a k w assume a: "(a, k) \<in> fset F'" "w \<in> blk (a, k)"
    have "no_data h w \<and> (w \<noteq> a \<longrightarrow> no_header h w)"
      using a z unfolding F' buddy_zero_def zero_blk_def by fastforce
    with nd nh out [OF a] show "no_data h' w \<and> (w \<noteq> a \<longrightarrow> no_header h' w)" by blast
  qed
  have "\<exists>f g r i m. h' = h\<lparr>hl_first := f, hn_next := g, hn_pprev := r, bf_level := i, bitmap := m\<rparr>"
  proof -
    obtain f g r where "h1 = h0\<lparr>hl_first := f, hn_next := g, hn_pprev := r\<rparr>"
      using fr unfolding hl_frame_def by blast
    then have "h' = h\<lparr>hl_first := f, hn_next := g, hn_pprev := r, bf_level := bf_level h', bitmap := bitmap h'\<rparr>"
      by (simp add: h' bm_set h0_def)
    then show ?thesis by blast
  qed
  moreover have "no_header h' w = no_header h w" if "w \<noteq> p" "(w, l) \<notin> fset F" for w
    using nh [of w] that S' by blast
  ultimately show ?thesis using core z1 z2 fb by blast
qed

lemma core_facts:
  assumes "buddy_core dm h F X"
  shows "algn 6 dm" "wf_blocks (fset F \<union> X)" "fset F \<inter> X = {}"
  using assms by (simp_all add: buddy_core_def)

text \<open>The blocks off the lists may be cut differently.\<close>

lemma core_recut:
  assumes c: "buddy_core dm h F X" and w: "wf_blocks (fset F \<union> Y)" "fset F \<inter> Y = {}"
    and sub: "\<And>b. b \<in> X \<Longrightarrow> blk b \<subseteq> (\<Union>c\<in>Y. blk c)"
  shows "buddy_core dm h F Y"
proof -
  have "\<exists>b\<in>fset F \<union> Y. a \<in> blk b" if "\<exists>b\<in>fset F \<union> X. a \<in> blk b" for a
    using that sub by blast
  with c w show ?thesis unfolding buddy_core_def by simp
qed

lemma core_split:
  assumes c: "buddy_core dm h F (insert (x, Suc l) X)" and x: "(x, Suc l) \<notin> X"
  defines "u \<equiv> x XOR 2 ^ (l + 6)"
  shows "buddy_core dm h F (insert (u, l) (insert (x, l) X)) \<and> (x, l) \<notin> X \<and>
    (u, l) \<notin> insert (x, l) X \<and> blk (x, Suc l) = blk (x, l) \<union> blk (u, l) \<and> u = x + 2 ^ (l + 6)"
proof -
  note f = core_facts [OF c]
  have 1: "wf_blocks (insert (x, Suc l) (fset F \<union> X))" using f(2) by simp
  have 2: "(x, Suc l) \<notin> fset F \<union> X" using f(3) x by auto
  note w = wf_split [OF 1 2, folded u_def]
  have "buddy_core dm h F (insert (u, l) (insert (x, l) X))"
    by (rule core_recut [OF c]) (use w f(3) in \<open>auto simp: insert_commute\<close>)
  with w show ?thesis by auto
qed

lemma core_join:
  assumes c: "buddy_core dm h F (insert (p XOR 2 ^ (l + 6), l) (insert (p, l) X))"
    and p: "(p, l) \<notin> X" "(p XOR 2 ^ (l + 6), l) \<notin> X" "Suc l < 16"
  defines "m \<equiv> if p > p XOR 2 ^ (l + 6) then p XOR 2 ^ (l + 6) else p"
  shows "buddy_core dm h F (insert (m, Suc l) X) \<and> (m, Suc l) \<notin> X \<and>
    blk (m, Suc l) = blk (p, l) \<union> blk (p XOR 2 ^ (l + 6), l)"
proof -
  let ?u = "p XOR 2 ^ (l + 6)"
  note f = core_facts [OF c]
  have 1: "wf_blocks (insert (p, l) (insert (?u, l) (fset F \<union> X)))"
    using f(2) by (simp add: insert_commute)
  have 2: "(p, l) \<notin> fset F \<union> X" "(?u, l) \<notin> fset F \<union> X" using f(3) p by auto
  note w = wf_join [OF 1 2 p(3), folded m_def]
  have "buddy_core dm h F (insert (m, Suc l) X)"
    by (rule core_recut [OF c]) (use w f(3) in auto)
  with w show ?thesis by auto
qed

lemma core_clear_bit:
  assumes c: "buddy_core dm h F X" and x: "(x, l) \<in> X"
  shows "buddy_core dm (buddy_set_block_allocated dm x h) F X"
proof -
  note f = core_facts [OF c]
  have xa: "algn 6 x" using wf_block [OF f(2), of x l] x by simp
  have hs: "hseg (buddy_set_block_allocated dm x h) s xs = hseg h s xs" for s xs
    by (rule hseg_cong) (cases s; simp add: bm_clear)+
  have lv: "bf_level (buddy_set_block_allocated dm x h) = bf_level h" by (simp add: bm_clear)
  have ne: "a \<noteq> x \<and> algn 6 a" if "(a, k) \<in> fset F" for a k
    using that wf_block [OF f(2), of a k] wf_start [OF f(2), of a k l] x f(3) by auto
  show ?thesis
    unfolding buddy_core_def
  proof (intro conjI)
    show "\<forall>(a, l)\<in>fset F. bf_level (buddy_set_block_allocated dm x h) a = of_nat l \<and>
        buddy_is_block_free dm (buddy_set_block_allocated dm x h) a"
      using c ne is_free_clear [OF f(1) xa] unfolding lv buddy_core_def by fastforce
    show "\<forall>a. algn 6 a \<and> buddy_is_block_free dm (buddy_set_block_allocated dm x h) a \<longrightarrow>
        (\<exists>b\<in>fset F \<union> X. a \<in> blk b)"
      using c is_free_clear [OF f(1) xa] unfolding buddy_core_def by blast
  qed (use c hs in \<open>auto simp: buddy_core_def\<close>)
qed

lemma core_set_bit:
  assumes c: "buddy_core dm h F X" and x: "(x, l) \<in> X"
  shows "buddy_core dm (buddy_set_block_free dm x h) F X"
proof -
  note f = core_facts [OF c]
  have xa: "algn 6 x" using wf_block [OF f(2), of x l] x by simp
  have hs: "hseg (buddy_set_block_free dm x h) s xs = hseg h s xs" for s xs
    by (rule hseg_cong) (cases s; simp add: bm_set)+
  have lv: "bf_level (buddy_set_block_free dm x h) = bf_level h" by (simp add: bm_set)
  have al: "algn 6 a" if "(a, k) \<in> fset F" for a k
    using that wf_block [OF f(2), of a k] by auto
  show ?thesis
    unfolding buddy_core_def
  proof (intro conjI)
    show "\<forall>(a, l)\<in>fset F. bf_level (buddy_set_block_free dm x h) a = of_nat l \<and>
        buddy_is_block_free dm (buddy_set_block_free dm x h) a"
      using c al is_free_set [OF f(1) xa] unfolding lv buddy_core_def by fastforce
    show "\<forall>a. algn 6 a \<and> buddy_is_block_free dm (buddy_set_block_free dm x h) a \<longrightarrow>
        (\<exists>b\<in>fset F \<union> X. a \<in> blk b)"
      using c x is_free_set [OF f(1) xa] blk_self [of x l] unfolding buddy_core_def by blast
  qed (use c hs in \<open>auto simp: buddy_core_def\<close>)
qed

section \<open>Counting\<close>

text \<open>The blocks on the lists, each level with a weight.\<close>

definition total_free :: "(nat \<Rightarrow> nat) \<Rightarrow> (nat \<Rightarrow> ptr list) \<Rightarrow> nat" where
  "total_free wt F = (\<Sum>l<16. wt l * length (F l))"

lemma total_free_update:
  assumes "l < 16"
  shows "total_free wt (F(l := zs)) + wt l * length (F l) = total_free wt F + wt l * length zs"
proof -
  have "(\<Sum>k<16. wt k * length (G k)) = wt l * length (G l) + (\<Sum>k\<in>{..<16} - {l}. wt k * length (G k))"
    for G :: "nat \<Rightarrow> ptr list"
    using assms by (intro sum.remove) auto
  from this [of F] this [of "F(l := zs)"] show ?thesis
    by (simp add: total_free_def)
qed

lemma total_free_put: "l < 16 \<Longrightarrow> total_free wt (F(l := p # F l)) = total_free wt F + wt l"
  using total_free_update [of l wt F "p # F l"] by simp

lemma total_free_take:
  "l < 16 \<Longrightarrow> F l = xs @ x # ys \<Longrightarrow> total_free wt (F(l := xs @ ys)) + wt l = total_free wt F"
  using total_free_update [of l wt F "xs @ ys"] by simp

end
