(* ===== verification/Phys_Ops.thy ===== *)
theory Phys_Ops
  imports Phys_Buddy
begin

text \<open>
  What the operations of the buddy allocator do, from its invariant: the two loops, then
  allocation, free and the addition of memory with their accounting.
\<close>

text \<open>Only the free lists, their headers and the bitmap differ.\<close>

definition buddy_frame :: "mm \<Rightarrow> mm \<Rightarrow> bool" where
  "buddy_frame h h' \<longleftrightarrow> (\<exists>f g r i m.
     h' = h\<lparr>hl_first := f, hn_next := g, hn_pprev := r, bf_level := i, bitmap := m\<rparr>)"

lemma buddy_frame_refl: "buddy_frame h h"
proof -
  have "h = h\<lparr>hl_first := hl_first h, hn_next := hn_next h, hn_pprev := hn_pprev h,
    bf_level := bf_level h, bitmap := bitmap h\<rparr>" by simp
  then show ?thesis unfolding buddy_frame_def by blast
qed

lemma buddy_frame_trans: "buddy_frame h h' \<Longrightarrow> buddy_frame h' h'' \<Longrightarrow> buddy_frame h h''"
  unfolding buddy_frame_def by fastforce

lemma buddy_frame_eq:
  assumes "buddy_frame h h'"
  shows "m_available_pages h' = m_available_pages h" "m_total_pages h' = m_total_pages h"
    "m_committed_pages h' = m_committed_pages h" "m_reserved_pages h' = m_reserved_pages h"
    "buddy_lock h' = buddy_lock h" "no_data h' a = no_data h a"
  using assms by (auto simp: buddy_frame_def no_data_def)

section \<open>Splitting\<close>

text \<open>The weight of the upper halves a split of a block of level \<open>k\<close> down to \<open>l\<close> puts back.\<close>

definition halves :: "(nat \<Rightarrow> nat) \<Rightarrow> nat \<Rightarrow> nat \<Rightarrow> nat" where
  "halves wt l k = (\<Sum>i\<in>{l..<k}. wt i)"

lemma halves_same [simp]: "halves wt l l = 0"
  by (simp add: halves_def)

lemma halves_Suc: "l \<le> k \<Longrightarrow> halves wt l (Suc k) = halves wt l k + wt k"
  by (simp add: halves_def)

lemma halves_first: "l < k \<Longrightarrow> halves wt l k = wt l + halves wt (Suc l) k"
  by (simp add: halves_def sum.atLeast_Suc_lessThan)

lemma pow2_half:
  assumes "n < 63"
  shows "(2 ^ Suc n div 2 :: u64) = 2 ^ n"
proof -
  have "unat (2 ^ Suc n :: u64) = 2 ^ Suc n" "unat (2 ^ n :: u64) = 2 ^ n"
    using assms by (intro unat_pow2; simp)+
  then have "unat (2 ^ Suc n div 2 :: u64) = unat (2 ^ n :: u64)"
    by (simp only: unat_div_distrib) simp
  then show ?thesis by (simp only: word_unat_eq_iff)
qed

lemma block_half: "l < 16 \<Longrightarrow> (2 ^ (Suc l + PHYS_BUDDY_MIN_ORDER) div 2 :: u64) = 2 ^ (l + 6)"
  using pow2_half [of "l + 6"] by (simp only: PHYS_BUDDY_MIN_ORDER_def add_Suc)

definition cover :: "(nat \<Rightarrow> ptr list) \<Rightarrow> ptr set" where
  "cover F = (\<Union>b\<in>fset F. blk b)"

lemma fset_cover: "(w, l) \<in> fset F \<Longrightarrow> w \<in> cover F"
  unfolding cover_def by (meson UN_I blk_self)

lemma cover_take:
  assumes "l < 16" "F l = xs @ x # ys" "distinct (F l)"
  shows "cover (F(l := xs @ ys)) \<union> blk (x, l) = cover F"
proof -
  have "fset (F(l := xs @ ys)) = fset F - {(x, l)}" "(x, l) \<in> fset F"
    using fset_remove [of l F xs x ys] assms by auto
  then show ?thesis unfolding cover_def by blast
qed

lemma cover_put: "l < 16 \<Longrightarrow> cover (F(l := p # F l)) = cover F \<union> blk (p, l)"
  using fset_add [of l F p] by (auto simp: cover_def)

lemma buddy_split_ok:
  assumes "buddy_core dm h F (insert (x, k) X)" "(x, k) \<notin> X" "l \<le> k" "k < 16"
  shows "\<exists>F'. buddy_core dm (buddy_split dm l k x h) F' (insert (x, l) X) \<and> (x, l) \<notin> X \<and>
    buddy_frame h (buddy_split dm l k x h) \<and>
    (\<forall>wt. total_free wt F' = total_free wt F + halves wt l k) \<and>
    (buddy_zero h F \<longrightarrow> zero_blk h (x, k) \<longrightarrow>
      buddy_zero (buddy_split dm l k x h) F' \<and> zero_blk (buddy_split dm l k x h) (x, l)) \<and>
    (\<forall>a. algn 6 a \<longrightarrow> a \<notin> blk (x, k) \<longrightarrow>
      buddy_is_block_free dm (buddy_split dm l k x h) a = buddy_is_block_free dm h a) \<and>
    cover F' \<union> blk (x, l) = cover F \<union> blk (x, k)"
  using assms
proof (induction k arbitrary: h F)
  case 0
  then show ?case by (auto simp: buddy_frame_refl)
next
  case (Suc k)
  show ?case
  proof (cases "l = Suc k")
    case True
    with Suc.prems show ?thesis by (auto simp: buddy_frame_refl)
  next
    case False
    then have lk: "l \<le> k" using Suc.prems by simp
    let ?u = "x XOR 2 ^ (k + 6)"
    define h1 where "h1 = buddy_set_block_free dm ?u
      (hlist_add k ?u (h\<lparr>bf_level := (bf_level h)(?u := of_nat k)\<rparr>))"
    define F1 where "F1 = F(k := ?u # F k)"
    note sp = core_split [OF Suc.prems(1,2)]
    have u: "?u = x + 2 ^ (k + 6)" using sp by simp
    have run: "buddy_split dm l (Suc k) x h = buddy_split dm l k x h1"
      using lk block_half [of k] Suc.prems(4) by (simp add: Let_def u h1_def)
    have pc: "buddy_core dm h F (insert (?u, k) (insert (x, k) X))" "(?u, k) \<notin> insert (x, k) X"
      using sp by blast+
    have k: "k < 16" using Suc.prems(4) by simp
    note put = buddy_put [OF pc k, folded h1_def F1_def]
    have dis: "blk (x, Suc k) \<inter> blk (a, j) = {}" if "(a, j) \<in> fset F \<union> X" for a j
    proof -
      have "(a, j) \<noteq> (x, Suc k)" using core_facts(3) [OF Suc.prems(1)] that Suc.prems(2) by auto
      then show ?thesis
        using core_facts(2) [OF Suc.prems(1)] that by (simp add: wf_insert Int_commute)
    qed
    have b: "blk (x, Suc k) = blk (x, k) \<union> blk (?u, k)" using sp by simp
    have hd: "?u \<notin> blk (x, k)"
      using cov_halves_disjoint [of "k + 6" x] cov_self [of ?u "k + 6"] k by (auto simp: blk_def)
    obtain F' where ih: "buddy_core dm (buddy_split dm l k x h1) F' (insert (x, l) X)" "(x, l) \<notin> X"
      "buddy_frame h1 (buddy_split dm l k x h1)"
      "\<forall>wt. total_free wt F' = total_free wt F1 + halves wt l k"
      "buddy_zero h1 F1 \<longrightarrow> zero_blk h1 (x, k) \<longrightarrow>
        buddy_zero (buddy_split dm l k x h1) F' \<and> zero_blk (buddy_split dm l k x h1) (x, l)"
      "\<forall>a. algn 6 a \<longrightarrow> a \<notin> blk (x, k) \<longrightarrow>
        buddy_is_block_free dm (buddy_split dm l k x h1) a = buddy_is_block_free dm h1 a"
      "cover F' \<union> blk (x, l) = cover F1 \<union> blk (x, k)"
      using Suc.IH [of h1 F1] put sp lk k by blast
    have cov: "cover F' \<union> blk (x, l) = cover F \<union> blk (x, Suc k)"
      using ih(7) cover_put [OF k, of F ?u] b by (auto simp: F1_def)
    have fr: "buddy_frame h (buddy_split dm l k x h1)"
      using buddy_frame_trans [OF _ ih(3)] put unfolding buddy_frame_def by blast
    have tot: "total_free wt F' = total_free wt F + halves wt l (Suc k)" for wt
      using ih(4) total_free_put [OF k, of wt F ?u] lk by (simp add: halves_Suc F1_def)
    have z: "buddy_zero (buddy_split dm l k x h1) F' \<and> zero_blk (buddy_split dm l k x h1) (x, l)"
      if "buddy_zero h F" "zero_blk h (x, Suc k)"
    proof -
      have zz: "zero_blk h (x, k)" "zero_blk h (?u, k)" using that(2) b by (auto simp: zero_blk_def)
      have "a \<notin> blk (x, k)" if "(a, k) \<in> fset F" for a
        using dis [of a k] that b by auto
      then have "zero_blk h1 (x, k)" using put zz(1) hd by blast
      with ih(5) put that(1) zz(2) show ?thesis by blast
    qed
    have "buddy_is_block_free dm (buddy_split dm l k x h1) a = buddy_is_block_free dm h a"
      if "algn 6 a" "a \<notin> blk (x, Suc k)" for a
      using ih(6) put that b by auto
    with ih(1,2) fr tot z cov show ?thesis unfolding run by blast
  qed
qed

section \<open>Merging\<close>

lemma min_order: "PHYS_BUDDY_MIN_ORDER = 6" "PHYS_BUDDY_MAX_LEVEL = 16"
  by (simp_all add: buddy_consts)

lemma buddy_merge_ok:
  assumes "buddy_core dm h F (insert (p, l) X)" "(p, l) \<notin> X" "l < 16"
    and "\<forall>(a, k)\<in>X. \<not> buddy_is_block_free dm h a"
  shows "\<exists>m k h' F'. buddy_merge dm p l h = Some (m, k, h') \<and> l \<le> k \<and> k < 16 \<and>
    buddy_core dm h' F' (insert (m, k) X) \<and> (m, k) \<notin> X \<and> buddy_frame h h' \<and>
    (\<forall>wt. total_free wt F = total_free wt F' + halves wt l k) \<and> bitmap h' = bitmap h \<and>
    (buddy_zero h F \<longrightarrow> zero_blk h (p, l) \<longrightarrow> buddy_zero h' F' \<and> zero_blk h' (m, k)) \<and>
    cover F' \<union> blk (m, k) = cover F \<union> blk (p, l) \<and>
    (\<forall>w. w \<notin> cover F \<longrightarrow> no_header h' w = no_header h w)"
  using assms
proof (induction "16 - l" arbitrary: p l h F rule: less_induct)
  case less
  let ?n = "p XOR 2 ^ (l + 6)"
  note f = core_facts [OF less.prems(1)]
  have stop: ?case if "buddy_merge dm p l h = Some (p, l, h)"
    using that less.prems by (auto simp: buddy_frame_refl)
  show ?case
  proof (cases "l < 15 \<and> buddy_is_block_free dm h ?n \<and> unat (bf_level h ?n) = l")
    case False
    then have "buddy_merge dm p l h = Some (p, l, h)"
      by (subst buddy_merge.simps) (auto simp: min_order Let_def)
    then show ?thesis by (rule stop)
  next
    case True
    have s: "l + 6 < 64" "Suc l < 16" using True by simp_all
    have pa: "algn (l + 6) p" using wf_block [OF f(2), of p l] by simp
    have na: "algn (l + 6) ?n" "algn 6 ?n"
      using pa algn_buddy [OF s(1)] algn_mono [of "l + 6" ?n 6] by simp_all
    have ndis: "?n \<notin> blk (p, l)"
      using cov_halves_disjoint [OF s(1), of p] cov_self [of ?n "l + 6"] by (auto simp: blk_def)
    obtain a k where ak: "(a, k) \<in> fset F \<union> insert (p, l) X" "?n \<in> blk (a, k)"
    proof -
      have "\<forall>a. algn 6 a \<and> buddy_is_block_free dm h a \<longrightarrow> (\<exists>b\<in>fset F \<union> insert (p, l) X. a \<in> blk b)"
        using less.prems(1) by (simp add: buddy_core_def)
      with na(2) True have "\<exists>b\<in>fset F \<union> insert (p, l) X. ?n \<in> blk b" by blast
      then show ?thesis using that by auto
    qed
    have aa: "algn (k + 6) a" using wf_block [OF f(2) ak(1)] by simp
    have "a = ?n"
    proof (rule ccontr)
      assume "a \<noteq> ?n"
      then have "p \<in> blk (a, k)"
        using buddy_inside [OF s(1) pa aa] ak(2) by (auto simp: blk_def)
      then have "(a, k) = (p, l)" using wf_disjoint [OF f(2) ak(1), of "(p, l)" p] by simp
      with ak(2) ndis show False by simp
    qed
    moreover have "(?n, k) \<notin> X" using less.prems(4) True by auto
    moreover have "?n \<noteq> p" using ndis by auto
    ultimately have nk: "(?n, k) \<in> fset F" using ak(1) by simp
    then have "bf_level h ?n = of_nat k" "k < 16"
      using less.prems(1) unfolding buddy_core_def by (blast, simp add: fset_def)
    then have "k = l" using True level_byte [of k] by simp
    with nk have nF: "(?n, l) \<in> fset F" by simp
    then obtain xs ys where xy: "F l = xs @ ?n # ys"
      unfolding fset_def by (auto dest: split_list)
    have l16: "l < 16" using s by simp
    from buddy_take [OF less.prems(1) l16 xy] obtain h1 where h1:
      "hlist_del ?n h = Some h1" and core1: "buddy_core dm (buddy_clear_header ?n h1) (F(l := xs @ ys))
        (insert (?n, l) (insert (p, l) X))"
      and zz: "buddy_zero h F \<longrightarrow> buddy_zero (buddy_clear_header ?n h1) (F(l := xs @ ys)) \<and>
        zero_blk (buddy_clear_header ?n h1) (?n, l)"
      and zo: "\<forall>b. (\<forall>a. (a, l) \<in> fset F \<longrightarrow> a \<notin> blk b) \<longrightarrow> zero_blk h b \<longrightarrow>
        zero_blk (buddy_clear_header ?n h1) b"
      and hd: "\<forall>w. (w, l) \<notin> fset F \<longrightarrow> no_header (buddy_clear_header ?n h1) w = no_header h w"
      and fr1: "buddy_frame h (buddy_clear_header ?n h1)" and bm: "bitmap (buddy_clear_header ?n h1) = bitmap h"
      unfolding buddy_frame_def by blast
    let ?h = "buddy_clear_header ?n h1" and ?F = "F(l := xs @ ys)"
    define m where "m = (if p > ?n then ?n else p)"
    have nX: "(?n, l) \<notin> X" using nF f(3) by auto
    note j = core_join [OF core1 less.prems(2) nX s(2), folded m_def]
    have run: "buddy_merge dm p l h = buddy_merge dm m (Suc l) ?h"
      using True h1 by (subst buddy_merge.simps) (auto simp: min_order Let_def m_def)
    have bits: "\<forall>(a, k)\<in>X. \<not> buddy_is_block_free dm ?h a"
      using less.prems(4) by (simp add: is_free_cong [OF bm])
    obtain m' k' h' F' where ih: "buddy_merge dm m (Suc l) ?h = Some (m', k', h')" "Suc l \<le> k'" "k' < 16"
      "buddy_core dm h' F' (insert (m', k') X)" "(m', k') \<notin> X" "buddy_frame ?h h'"
      "\<forall>wt. total_free wt ?F = total_free wt F' + halves wt (Suc l) k'" "bitmap h' = bitmap ?h"
      "buddy_zero ?h ?F \<longrightarrow> zero_blk ?h (m, Suc l) \<longrightarrow> buddy_zero h' F' \<and> zero_blk h' (m', k')"
      "cover F' \<union> blk (m', k') = cover ?F \<union> blk (m, Suc l)"
      "\<forall>w. w \<notin> cover ?F \<longrightarrow> no_header h' w = no_header ?h w"
    proof -
      have "16 - Suc l < 16 - l" using s by simp
      from less.hyps [OF this j [THEN conjunct1] j [THEN conjunct2, THEN conjunct1] s(2) bits] that
      show ?thesis by blast
    qed
    have fr: "buddy_frame h h'"
      by (rule buddy_frame_trans [OF fr1 ih(6)])
    have tot: "total_free wt F = total_free wt F' + halves wt l k'" for wt
      using ih(2,7) total_free_take [of l F xs ?n ys wt] l16 xy halves_first [of l k' wt] by simp
    have z: "buddy_zero h' F' \<and> zero_blk h' (m', k')" if "buddy_zero h F" "zero_blk h (p, l)"
    proof -
      have "a \<notin> blk (p, l)" if "(a, l) \<in> fset F" for a
        using that wf_disjoint [OF f(2), of "(a, l)" "(p, l)" a] f(3) by auto
      then have "zero_blk ?h (p, l)" using zo that(2) by blast
      then have "zero_blk ?h (m, Suc l)" using zz that(1) j by (auto simp: zero_blk_def)
      with ih(9) zz that(1) show ?thesis by blast
    qed
    have "distinct (F l)" using less.prems(1) l16 by (simp add: buddy_core_def)
    then have "cover F' \<union> blk (m', k') = cover F \<union> blk (p, l)"
      using cover_take [of l F xs ?n ys] l16 xy ih(10) j by auto
    moreover have "no_header h' w = no_header h w" if "w \<notin> cover F" for w
    proof -
      have "w \<notin> cover ?F" using that cover_take [of l F xs ?n ys] l16 xy \<open>distinct (F l)\<close> by auto
      moreover have "(w, l) \<notin> fset F" using that fset_cover by blast
      ultimately show ?thesis using ih(11) hd by simp
    qed
    ultimately show ?thesis using ih j fr tot z bm run
      by (intro exI [of _ m'] exI [of _ k'] exI [of _ h'] exI [of _ F']) auto
  qed
qed

end
