(* ===== verification/Phys_Inv.thy ===== *)
theory Phys_Inv
  imports Phys_Ops
begin

text \<open>
  The whole allocator: the blocks together with the accounting.  The pages that are available or
  reserved are exactly those in free blocks of a page or more; a page that was split for smaller
  blocks counts as committed until its last piece is back.
\<close>

section \<open>Pages\<close>

definition pages :: "nat \<Rightarrow> nat" where
  "pages l = (if 6 \<le> l then 2 ^ (l - 6) else 0)"

definition pieces :: "nat \<Rightarrow> nat" where
  "pieces l = (if l < 6 then 2 ^ l else 0)"

text \<open>The pages that leave, or return to, the free ones when a block of level \<open>l\<close> comes out of,
  or ends up in, one of level \<open>k\<close>.\<close>

definition cost :: "nat \<Rightarrow> nat \<Rightarrow> nat" where
  "cost l k = (if 6 \<le> l then 2 ^ (l - 6) else if 6 \<le> k then 1 else 0)"

lemma two_pages: "6 \<le> k \<Longrightarrow> (2 :: nat) ^ (k - 5) = 2 * 2 ^ (k - 6)"
proof -
  assume "6 \<le> k"
  then have "k - 5 = Suc (k - 6)" by arith
  then show ?thesis by (simp only: power_Suc)
qed

lemma six_power: "6 \<le> l \<Longrightarrow> (2 :: nat) ^ l = 64 * 2 ^ (l - 6)"
proof -
  assume "6 \<le> l"
  then have "(2 :: nat) ^ l = 2 ^ (6 + (l - 6))" by simp
  then show ?thesis by (simp only: power_add) simp
qed

lemma halves_pages: "l \<le> k \<Longrightarrow> halves pages l k + cost l k = pages k"
proof (induction k)
  case (Suc k)
  show ?case
  proof (cases "l = Suc k")
    case False
    with Suc have ih: "l \<le> k" "halves pages l k + cost l k = pages k" by simp_all
    have "k = 5 \<or> Suc k < 6 \<or> 6 \<le> k" by auto
    with ih show ?thesis
      by (auto simp: halves_Suc pages_def [of k] pages_def [of "Suc k"] cost_def two_pages
        split: if_splits)
  qed (simp add: pages_def [of "Suc k"] cost_def)
qed (simp add: pages_def [of 0] cost_def)

lemma halves_pieces: "l \<le> k \<Longrightarrow> halves pieces l k + 2 ^ l = pieces k + 64 * cost l k"
proof (induction k)
  case (Suc k)
  show ?case
  proof (cases "l = Suc k")
    case True
    then show ?thesis using six_power [of l] by (auto simp: pieces_def [of "Suc k"] cost_def)
  next
    case False
    with Suc have ih: "l \<le> k" "halves pieces l k + 2 ^ l = pieces k + 64 * cost l k" by simp_all
    have "k = 5 \<or> Suc k < 6 \<or> 6 \<le> k" by auto
    with ih show ?thesis
      by (auto simp: halves_Suc pieces_def [of k] pieces_def [of "Suc k"] cost_def split: if_splits)
  qed
qed (simp add: pieces_def [of 0] cost_def)

definition handed_out :: "block set \<Rightarrow> nat" where
  "handed_out A = (\<Sum>(a, l)\<in>A. 2 ^ l)"

definition buddy_inv :: "u64 \<Rightarrow> mm \<Rightarrow> (nat \<Rightarrow> ptr list) \<Rightarrow> block set \<Rightarrow> bool" where
  "buddy_inv dm h F A \<longleftrightarrow> buddy_core dm h F A \<and> buddy_zero h F \<and> finite A \<and>
     (\<forall>(a, l)\<in>A. \<not> buddy_is_block_free dm h a) \<and> buddy_lock h = 0 \<and> acct_ok h \<and>
     free_pages h = total_free pages F \<and>
     total_free pieces F + handed_out A \<le> 64 * unat (m_committed_pages h)"

section \<open>Counters and the lock\<close>

definition acct_frame :: "mm \<Rightarrow> mm \<Rightarrow> bool" where
  "acct_frame h h' \<longleftrightarrow> (\<exists>a t c r b. h' = h\<lparr>m_available_pages := a, m_total_pages := t,
     m_committed_pages := c, m_reserved_pages := r, buddy_lock := b\<rparr>)"

lemma acct_frame_core: "acct_frame h h' \<Longrightarrow> buddy_core dm h' F X = buddy_core dm h F X"
proof -
  assume a: "acct_frame h h'"
  have "hseg h' s xs = hseg h s xs" for s xs
    by (rule hseg_cong) (use a in \<open>cases s; auto simp: acct_frame_def\<close>)+
  moreover have "buddy_is_block_free dm h' x = buddy_is_block_free dm h x" for x
    by (rule is_free_cong) (use a in \<open>auto simp: acct_frame_def\<close>)
  moreover have "bf_level h' = bf_level h" using a by (auto simp: acct_frame_def)
  ultimately show ?thesis by (simp add: buddy_core_def)
qed

lemma acct_frame_rest:
  assumes "acct_frame h h'"
  shows "buddy_zero h' F = buddy_zero h F" "zero_blk h' b = zero_blk h b"
    "buddy_is_block_free dm h' x = buddy_is_block_free dm h x" "bf_level h' = bf_level h"
    "hl_first h' = hl_first h"
proof -
  have n: "no_data h' = no_data h" "no_header h' = no_header h"
    using assms by (auto simp: acct_frame_def no_data_def no_header_def fun_eq_iff)
  then show "buddy_zero h' F = buddy_zero h F" "zero_blk h' b = zero_blk h b"
    by (simp_all add: buddy_zero_def zero_blk_def)
  show "buddy_is_block_free dm h' x = buddy_is_block_free dm h x"
    by (rule is_free_cong) (use assms in \<open>auto simp: acct_frame_def\<close>)
  show "bf_level h' = bf_level h" "hl_first h' = hl_first h"
    using assms by (auto simp: acct_frame_def)
qed

lemma acct_frame_trans: "acct_frame h h' \<Longrightarrow> acct_frame h' h'' \<Longrightarrow> acct_frame h h''"
  unfolding acct_frame_def by fastforce

lemma acct_frame_lock: "acct_frame h (h\<lparr>buddy_lock := b\<rparr>)"
proof -
  have "h\<lparr>buddy_lock := b\<rparr> = h\<lparr>m_available_pages := m_available_pages h, m_total_pages := m_total_pages h,
     m_committed_pages := m_committed_pages h, m_reserved_pages := m_reserved_pages h, buddy_lock := b\<rparr>"
    by simp
  then show ?thesis unfolding acct_frame_def by blast
qed

lemma acct_frame_acct:
  "acct_frame h (h\<lparr>m_available_pages := a, m_committed_pages := c, m_reserved_pages := r\<rparr>)"
proof -
  have "h\<lparr>m_available_pages := a, m_committed_pages := c, m_reserved_pages := r\<rparr> =
     h\<lparr>m_available_pages := a, m_total_pages := m_total_pages h,
     m_committed_pages := c, m_reserved_pages := r, buddy_lock := buddy_lock h\<rparr>"
    by simp
  then show ?thesis unfolding acct_frame_def by blast
qed

lemma unat_page_count: "l < 16 \<Longrightarrow> unat (get_page_count_by_level l) = 2 ^ (l - 6)"
  by (simp add: get_page_count_by_level_def buddy_consts unat_pow2)

lemma lock_free: "buddy_lock h = 0 \<Longrightarrow> buddy_mutex_lock h = Some (h\<lparr>buddy_lock := 1\<rparr>)"
  by (simp add: buddy_mutex_lock_def mutex_lock_eq)

lemma unlock_held: "buddy_lock h = 1 \<Longrightarrow> buddy_mutex_unlock h = Some (h\<lparr>buddy_lock := 0\<rparr>)"
  by (simp add: buddy_mutex_unlock_def mutex_unlock_eq)

text \<open>The first level with a free block.\<close>

lemma find_level:
  assumes "\<forall>l<16. hseg h (H_First l) (F l)"
  shows "l \<le> 16 \<Longrightarrow> l \<le> buddy_find_level h l \<and> buddy_find_level h l \<le> 16 \<and>
    (\<forall>i. l \<le> i \<and> i < buddy_find_level h l \<longrightarrow> F i = []) \<and>
    (buddy_find_level h l < 16 \<longrightarrow>
      (\<exists>x xs. F (buddy_find_level h l) = x # xs \<and> hl_first h (buddy_find_level h l) = x))"
  using assms
proof (induction h l rule: buddy_find_level.induct)
  case (1 h l)
  have emp: "hlist_empty h l \<longleftrightarrow> F l = []" if "l < 16"
    using "1.prems"(2) that by (cases "F l") (auto simp: hlist_empty_def dest!: spec [of _ l])
  show ?case
  proof (cases "l < 16 \<and> hlist_empty h l")
    case True
    then have run: "buddy_find_level h l = buddy_find_level h (Suc l)"
      by (subst buddy_find_level.simps) (simp add: min_order)
    have ih: "Suc l \<le> buddy_find_level h (Suc l) \<and> buddy_find_level h (Suc l) \<le> 16 \<and>
      (\<forall>i. Suc l \<le> i \<and> i < buddy_find_level h (Suc l) \<longrightarrow> F i = []) \<and>
      (buddy_find_level h (Suc l) < 16 \<longrightarrow> (\<exists>x xs. F (buddy_find_level h (Suc l)) = x # xs \<and>
        hl_first h (buddy_find_level h (Suc l)) = x))"
      by (rule "1.IH") (use True "1.prems" in \<open>simp_all add: min_order\<close>)
    have "F i = []" if "l \<le> i" "i < buddy_find_level h (Suc l)" for i
      using that ih emp True by (cases "i = l") auto
    with ih show ?thesis unfolding run by auto
  next
    case False
    then have run: "buddy_find_level h l = l"
      by (subst buddy_find_level.simps) (auto simp: min_order)
    show ?thesis
    proof (cases "l < 16")
      case True
      with False emp obtain x xs where "F l = x # xs" by (cases "F l") auto
      moreover from this have "hl_first h l = x" using "1.prems"(2) True by (auto dest!: spec [of _ l])
      ultimately show ?thesis unfolding run using True by auto
    next
      case False
      with "1.prems"(1) have "l = 16" by simp
      with run show ?thesis by auto
    qed
  qed
qed

section \<open>Allocation\<close>

lemma acct_total: "acct_ok h \<Longrightarrow> unat (m_available_pages h) + unat (m_committed_pages h) +
    unat (m_reserved_pages h) < 2 ^ 64"
  using unsigned_less [of "m_total_pages h"] by (simp add: acct_ok_def)

lemma take_pages:
  "unat n \<le> unat (a :: u64) \<Longrightarrow> unat (a - n) = unat a - unat n"
  by (simp add: unat_sub word_le_nat_alt)

lemma alloc_commit_ok:
  assumes "acct_ok h" "l \<le> k" "k < 16"
    and "reserved \<longrightarrow> 6 \<le> l \<and> 2 ^ (l - 6) \<le> unat (m_reserved_pages h)"
  shows "(if \<not> reserved \<and> unat (m_available_pages h) < cost l k
     then phys_alloc_commit l k reserved h = Some (False, h)
     else \<exists>h'. phys_alloc_commit l k reserved h = Some (True, h') \<and> acct_frame h h' \<and> acct_ok h' \<and>
       free_pages h' + cost l k = free_pages h \<and> buddy_lock h' = buddy_lock h \<and>
       unat (m_committed_pages h') = unat (m_committed_pages h) + cost l k)"
proof -
  let ?n = "if 6 \<le> l then get_page_count_by_level l else (if 6 \<le> k then 1 else 0)"
  have n: "unat ?n = cost l k" using assms unat_page_count [of l] by (simp add: cost_def)
  note tot = acct_total [OF assms(1)]
  have page: "PHYS_BUDDY_PAGE_LEVEL = 6" by (simp add: buddy_consts)
  show ?thesis
  proof (cases reserved)
    case True
    then have l6: "6 \<le> l" "unat ?n \<le> unat (m_reserved_pages h)"
      using assms(4) n by (simp_all add: cost_def)
    let ?h = "h\<lparr>m_available_pages := m_available_pages h,
      m_committed_pages := m_committed_pages h + ?n, m_reserved_pages := m_reserved_pages h - ?n\<rparr>"
    have "phys_alloc_commit l k reserved h = Some (True, ?h)"
      using True l6 by (simp add: phys_alloc_commit_def page Let_def mem_acct_sub_eq word_le_nat_alt)
    moreover have "unat (m_reserved_pages ?h) = unat (m_reserved_pages h) - cost l k"
      "unat (m_committed_pages ?h) = unat (m_committed_pages h) + cost l k"
      using take_pages [OF l6(2)] unat_add_exact [of "m_committed_pages h" ?n] tot n l6(2) by simp_all
    moreover have "acct_frame h ?h" by (rule acct_frame_acct)
    ultimately show ?thesis
      using True assms(1) l6 n
      by (intro if_not_P [THEN iffD2] exI [of _ ?h]) (auto simp: acct_ok_def free_pages_def)
  next
    case False
    show ?thesis
    proof (cases "unat (m_available_pages h) < cost l k")
      case True
      then have "m_available_pages h < ?n" "l < 6 \<Longrightarrow> 6 \<le> k"
        using n by (simp_all only: word_less_nat_alt) (auto simp: cost_def split: if_splits)
      with True False show ?thesis
        by (auto simp: phys_alloc_commit_def page Let_def mem_acct_commit_eq mem_acct_take_available_eq
          cost_def split: if_splits)
    next
      case ge: False
      let ?h = "h\<lparr>m_available_pages := m_available_pages h - ?n,
        m_committed_pages := m_committed_pages h + ?n, m_reserved_pages := m_reserved_pages h\<rparr>"
      have "\<not> m_available_pages h < ?n" using ge n by (simp add: word_less_nat_alt)
      then have "phys_alloc_commit l k reserved h = Some (True, ?h)"
        using False by (cases "6 \<le> l"; cases "6 \<le> k")
          (simp_all add: phys_alloc_commit_def page Let_def mem_acct_commit_eq
            mem_acct_take_available_eq)
      moreover have "unat (m_available_pages ?h) = unat (m_available_pages h) - cost l k"
        "unat (m_committed_pages ?h) = unat (m_committed_pages h) + cost l k"
        using take_pages [of ?n "m_available_pages h"] unat_add_exact [of "m_committed_pages h" ?n]
          tot n ge by simp_all
      moreover have "acct_frame h ?h" by (rule acct_frame_acct)
      ultimately show ?thesis
        using False ge assms(1)
        by (auto simp: acct_ok_def free_pages_def intro!: exI [of _ ?h])
    qed
  qed
qed

lemma buddy_frame_free_pages: "buddy_frame h h' \<Longrightarrow> free_pages h' = free_pages h \<and> acct_ok h' = acct_ok h"
  by (simp add: free_pages_def acct_ok_def buddy_frame_eq)

lemma handed_out_insert:
  "finite A \<Longrightarrow> (a, l) \<notin> A \<Longrightarrow> handed_out (insert (a, l) A) = 2 ^ l + handed_out A"
  by (simp add: handed_out_def)

lemma handed_out_remove:
  "finite A \<Longrightarrow> (a, l) \<in> A \<Longrightarrow> handed_out A = 2 ^ l + handed_out (A - {(a, l)})"
  using handed_out_insert [of "A - {(a, l)}" a l] by (simp add: insert_absorb)

lemma clear_bit_frame:
  "no_data (buddy_set_block_allocated dm x h) w = no_data h w"
  "no_header (buddy_set_block_allocated dm x h) w = no_header h w"
  "no_data (buddy_set_block_free dm x h) w = no_data h w"
  "no_header (buddy_set_block_free dm x h) w = no_header h w"
  "buddy_frame h (buddy_set_block_allocated dm x h)" "buddy_frame h (buddy_set_block_free dm x h)"
proof -
  have "h\<lparr>bitmap := f\<rparr> = h\<lparr>hl_first := hl_first h, hn_next := hn_next h, hn_pprev := hn_pprev h,
    bf_level := bf_level h, bitmap := f\<rparr>" for f by simp
  then show "buddy_frame h (buddy_set_block_allocated dm x h)" "buddy_frame h (buddy_set_block_free dm x h)"
    unfolding buddy_frame_def bm_clear bm_set by blast+
qed (simp_all add: bm_clear bm_set no_data_def no_header_def)

lemma zero_clear_bit:
  "buddy_zero (buddy_set_block_allocated dm x h) F = buddy_zero h F"
  "zero_blk (buddy_set_block_allocated dm x h) b = zero_blk h b"
  "buddy_zero (buddy_set_block_free dm x h) F = buddy_zero h F"
  "zero_blk (buddy_set_block_free dm x h) b = zero_blk h b"
  by (simp_all add: buddy_zero_def zero_blk_def clear_bit_frame)

theorem phys_alloc_internal_ok:
  assumes inv: "buddy_inv dm h F A" and l: "l < 16"
    and res: "reserved \<longrightarrow> 6 \<le> l \<and> 2 ^ (l - 6) \<le> unat (m_reserved_pages h)"
  shows "phys_alloc_internal dm l reserved h = Some (0, h) \<and> \<not> (reserved \<and> l = 6) \<and>
      ((\<forall>k. l \<le> k \<and> k < 16 \<longrightarrow> F k = []) \<or>
       \<not> reserved \<and> (\<exists>k<16. l \<le> k \<and> unat (m_available_pages h) < cost l k)) \<or>
    (\<exists>p h' F'. phys_alloc_internal dm l reserved h = Some (p, h') \<and> p \<noteq> 0 \<and> (p, l) \<notin> A \<and>
       buddy_inv dm h' F' (insert (p, l) A) \<and> zero_blk h' (p, l) \<and> cover F' \<union> blk (p, l) = cover F)"
proof -
  have core: "buddy_core dm h F A" and zero: "buddy_zero h F" and fin: "finite A"
    and bits: "\<forall>(a, l)\<in>A. \<not> buddy_is_block_free dm h a" and lock: "buddy_lock h = 0"
    and acct: "acct_ok h" "free_pages h = total_free pages F"
      "total_free pieces F + handed_out A \<le> 64 * unat (m_committed_pages h)"
    using inv by (simp_all add: buddy_inv_def)
  let ?h1 = "h\<lparr>buddy_lock := 1\<rparr>"
  define k where "k = buddy_find_level ?h1 l"
  have fr1: "acct_frame h ?h1" by (rule acct_frame_lock)
  have core1: "buddy_core dm ?h1 F A" using core acct_frame_core [OF fr1] by simp
  have hs: "\<forall>l<16. hseg ?h1 (H_First l) (F l)" using core1 by (simp add: buddy_core_def)
  have k: "l \<le> k" "k \<le> 16" "\<forall>i. l \<le> i \<and> i < k \<longrightarrow> F i = []"
    "k < 16 \<longrightarrow> (\<exists>x xs. F k = x # xs \<and> hl_first ?h1 k = x)"
    using find_level [OF hs, of l] l unfolding k_def by auto
  have relock: "h\<lparr>buddy_lock := 1, buddy_lock := 0\<rparr> = h" using lock by simp
  note run0 = phys_alloc_internal_def lock_free [OF lock] min_order k_def [symmetric]
  show ?thesis
  proof (cases "k = 16")
    case True
    have "\<not> (reserved \<and> l = 6)"
    proof
      assume r: "reserved \<and> l = 6"
      then have "0 < free_pages h" using res by (auto simp: free_pages_def)
      moreover have "pages i * length (F i) = 0" if "i < 16" for i
        using k(3) True that r by (cases "6 \<le> i") (auto simp: pages_def)
      then have "total_free pages F = 0" by (simp add: total_free_def)
      ultimately show False using acct(2) by simp
    qed
    moreover have "phys_alloc_internal dm l reserved h = Some (0, h)"
      using calculation True unlock_held [of ?h1] relock
      by (auto simp: run0 PHYS_BUDDY_PAGE_LEVEL_def PAGE_SHIFT_def ASSERT_def)
    ultimately show ?thesis using k(3) True by auto
  next
    case False
    then have k16: "k < 16" using k(2) by simp
    then obtain x xs where x: "F k = x # xs" "hl_first ?h1 k = x" using k(4) by blast
    have a1: "acct_ok ?h1" using acct(1) by (simp add: acct_ok_def)
    note cm = alloc_commit_ok [OF a1 k(1) k16, of reserved]
    show ?thesis
    proof (cases "\<not> reserved \<and> unat (m_available_pages h) < cost l k")
      case True
      then have "phys_alloc_commit l k reserved ?h1 = Some (False, ?h1)" using cm by simp
      then have "phys_alloc_internal dm l reserved h = Some (0, h)"
        using False unlock_held [of ?h1] relock by (simp add: run0)
      with True k k16 show ?thesis by blast
    next
      case ok: False
      obtain h2 where h2: "phys_alloc_commit l k reserved ?h1 = Some (True, h2)" "acct_frame ?h1 h2"
        "acct_ok h2" "free_pages h2 + cost l k = free_pages ?h1" "buddy_lock h2 = 1"
        "unat (m_committed_pages h2) = unat (m_committed_pages ?h1) + cost l k"
        using cm ok res by auto
      have fr2: "acct_frame h h2" by (rule acct_frame_trans [OF fr1 h2(2)])
      have core2: "buddy_core dm h2 F A" using core acct_frame_core [OF fr2] by simp
      have zero2: "buddy_zero h2 F" using zero acct_frame_rest(1) [OF fr2] by simp
      have F: "F k = [] @ x # xs" using x by simp
      have xk: "(x, k) \<in> fset F" using x k16 by (simp add: fset_def)
      have lev: "unat (bf_level h2 x) = k"
        using core2 xk level_byte [OF k16] unfolding buddy_core_def by fastforce
      have first: "hl_first h2 k = x" using x(2) acct_frame_rest(5) [OF h2(2)] by simp
      note bt = buddy_take [OF core2 k16 F, folded buddy_frame_def, unfolded append_Nil]
      obtain h3 where h3: "hlist_del x h2 = Some h3"
        "buddy_core dm (buddy_clear_header x h3) (F(k := xs)) (insert (x, k) A)"
        "buddy_zero (buddy_clear_header x h3) (F(k := xs))" "zero_blk (buddy_clear_header x h3) (x, k)"
        "buddy_frame h2 (buddy_clear_header x h3)" "bitmap (buddy_clear_header x h3) = bitmap h2"
        using bt zero2 by blast
      have xA: "(x, k) \<notin> A" using core_facts(3) [OF core] xk by blast
      let ?h4 = "buddy_clear_header x h3"
      from buddy_split_ok [OF h3(2) xA k(1) k16] obtain F' where sp:
        "buddy_core dm (buddy_split dm l k x ?h4) F' (insert (x, l) A)" "(x, l) \<notin> A"
        "buddy_frame ?h4 (buddy_split dm l k x ?h4)"
        "\<forall>wt. total_free wt F' = total_free wt (F(k := xs)) + halves wt l k"
        "buddy_zero (buddy_split dm l k x ?h4) F'" "zero_blk (buddy_split dm l k x ?h4) (x, l)"
        "\<forall>a. algn 6 a \<longrightarrow> a \<notin> blk (x, k) \<longrightarrow>
          buddy_is_block_free dm (buddy_split dm l k x ?h4) a = buddy_is_block_free dm ?h4 a"
        "cover F' \<union> blk (x, l) = cover (F(k := xs)) \<union> blk (x, k)"
        using h3(3,4) by blast
      have "distinct (F k)" using core k16 by (simp add: buddy_core_def)
      then have cov: "cover F' \<union> blk (x, l) = cover F"
        using sp(8) cover_take [of k F "[]" x xs] k16 F by simp
      let ?h5 = "buddy_split dm l k x ?h4"
      let ?h6 = "buddy_set_block_allocated dm x ?h5"
      let ?h7 = "?h6\<lparr>buddy_lock := 0\<rparr>"
      have bf: "buddy_frame h2 ?h6"
        by (rule buddy_frame_trans [OF h3(5) buddy_frame_trans [OF sp(3) clear_bit_frame(5)]])
      have run: "phys_alloc_internal dm l reserved h = Some (x, ?h7)"
        using False h2 first lev h3(1) unlock_held [of ?h6] buddy_frame_eq(5) [OF bf]
        by (simp add: run0)
      have fr7: "acct_frame ?h6 ?h7" by (rule acct_frame_lock)
      have xa: "algn 6 x" "x \<noteq> 0" using wf_block [OF core_facts(2) [OF core], of x k] xk by simp_all
      have "buddy_inv dm ?h7 F' (insert (x, l) A)"
        unfolding buddy_inv_def
      proof (intro conjI)
        show "buddy_core dm ?h7 F' (insert (x, l) A)"
          using core_clear_bit [OF sp(1)] acct_frame_core [OF fr7] by blast
        show "buddy_zero ?h7 F'" using sp(5) acct_frame_rest(1) [OF fr7] by (simp add: zero_clear_bit)
        show "finite (insert (x, l) A)" using fin by simp
        show "\<forall>(a, l)\<in>insert (x, l) A. \<not> buddy_is_block_free dm ?h7 a"
        proof clarify
          fix a j assume aj: "(a, j) \<in> insert (x, l) A" and fb: "buddy_is_block_free dm ?h7 a"
          have aa: "algn 6 a"
            using aj xa wf_block [OF core_facts(2) [OF core], of a j] by auto
          have "a \<noteq> x" "buddy_is_block_free dm ?h5 a"
            using fb acct_frame_rest(3) [OF fr7] is_free_clear [OF core_facts(1) [OF core] xa(1) aa] by auto
          moreover from this have aA: "(a, j) \<in> A" using aj by simp
          moreover have "a \<notin> blk (x, k)"
            using wf_disjoint [OF core_facts(2) [OF core], of "(a, j)" "(x, k)" a] aA xk xA by auto
          ultimately have "buddy_is_block_free dm ?h4 a" using sp(7) aa by blast
          then have "buddy_is_block_free dm h a"
            using is_free_cong [OF h3(6)] acct_frame_rest(3) [OF fr2] by simp
          with bits aA show False by auto
        qed
        show "buddy_lock ?h7 = 0" by simp
        show "acct_ok ?h7" using h2(3) buddy_frame_free_pages [OF bf] by (simp add: acct_ok_def)
        have tf: "total_free wt (F(k := xs)) + wt k = total_free wt F" for wt
          using total_free_take [of k F "[]" x xs wt] k16 F by simp
        show "free_pages ?h7 = total_free pages F'"
          using h2(4) buddy_frame_free_pages [OF bf] tf [of pages] sp(4) halves_pages [OF k(1)] acct(2)
          by (simp add: free_pages_def)
        show "total_free pieces F' + handed_out (insert (x, l) A) \<le> 64 * unat (m_committed_pages ?h7)"
          using h2(6) buddy_frame_eq(3) [OF bf] tf [of pieces] sp(4) halves_pieces [OF k(1)] acct(3)
            handed_out_insert [OF fin sp(2)] by simp
      qed
      moreover have "zero_blk ?h7 (x, l)"
        using sp(6) acct_frame_rest(2) [OF fr7] by (simp add: zero_clear_bit)
      ultimately show ?thesis using run sp(2) xa(2) cov by blast
    qed
  qed
qed

section \<open>Freeing\<close>

lemma memset_blk:
  assumes c: "buddy_core dm h F X" and p: "(p, l) \<in> X"
  defines "h' \<equiv> memset p 0 (2 ^ (l + 6)) h"
  shows "buddy_core dm h' F X \<and> (buddy_zero h F \<longrightarrow> buddy_zero h' F) \<and> zero_blk h' (p, l) \<and>
    bitmap h' = bitmap h \<and> buddy_lock h' = buddy_lock h \<and> acct.truncate h' = acct.truncate h"
proof -
  note f = core_facts [OF c]
  have pl: "l < 16" "algn (l + 6) p" using wf_block [OF f(2), of p l] p by auto
  have rng: "w - p < 2 ^ (l + 6) \<longleftrightarrow> w \<in> blk (p, l)" for w
    using range_cov [of "l + 6" p w] pl by (simp add: blk_def)
  have out: "w \<notin> blk (p, l)" if "(a, k) \<in> fset F" "w \<in> blk (a, k)" for a k w
    using wf_disjoint [OF f(2), of "(a, k)" "(p, l)" w] that p f(3) by blast
  have same: "hl_first h' = hl_first h" "bitmap h' = bitmap h" "buddy_lock h' = buddy_lock h"
    by (simp_all add: h'_def memset_def)
  have at: "hn_next h' w = hn_next h w \<and> hn_pprev h' w = hn_pprev h w \<and> bf_level h' w = bf_level h w"
    if "w \<notin> blk (p, l)" for w
    using that rng by (simp add: h'_def memset_def fill_def)
  have hs: "hseg h' (H_First k) (F k) = hseg h (H_First k) (F k)" if "k < 16" for k
  proof (rule hseg_cong)
    fix a assume "a \<in> set (F k)"
    then have "a \<notin> blk (p, l)" using out [of a k a] that by (auto simp: fset_def)
    then show "hn_next h' a = hn_next h a" "hn_pprev h' a = hn_pprev h a" using at by blast+
  qed (simp add: same)
  have "buddy_core dm h' F X"
    using c hs at out unfolding buddy_core_def is_free_cong [OF same(2)] by fastforce
  moreover have "zero_blk h' (p, l)"
    using memset_0_clean rng by (simp add: zero_blk_def h'_def)
  moreover have "buddy_zero h' F" if "buddy_zero h F"
    using that memset_other [of _ p "2 ^ (l + 6)" 0 h] rng out
    unfolding buddy_zero_def h'_def by fastforce
  moreover have "acct.truncate h' = acct.truncate h"
    by (simp add: h'_def memset_def acct.truncate_def)
  ultimately show ?thesis using same by blast
qed

text \<open>The common part of a free and of the addition of memory: the block \<open>(p, l)\<close> is in no list.\<close>

lemma phys_free_internal_ok:
  assumes c: "buddy_core dm h F (insert (p, l) X)" "(p, l) \<notin> X"
    and z: "buddy_zero h F" "zero_blk h (p, l)" and lock: "buddy_lock h = 0"
    and bits: "\<forall>(a, k)\<in>X. \<not> buddy_is_block_free dm h a"
    and chk: "check \<longrightarrow> \<not> buddy_is_block_free dm h p"
  shows "\<exists>k h' F'. phys_free_internal dm p l check h = Some (k, h') \<and> l \<le> k \<and> k < 16 \<and>
    buddy_core dm h' F' X \<and> buddy_zero h' F' \<and> buddy_lock h' = 0 \<and>
    (\<forall>(a, k)\<in>X. \<not> buddy_is_block_free dm h' a) \<and>
    (\<forall>wt. total_free wt F' + halves wt l k = total_free wt F + wt k) \<and> buddy_frame h h' \<and>
    cover F' = cover F \<union> blk (p, l) \<and>
    (\<forall>w. w \<notin> cover F \<union> blk (p, l) \<longrightarrow> no_header h' w = no_header h w) \<and>
    (check \<longrightarrow> buddy_is_block_free dm h' p)"
proof -
  note f = core_facts [OF c(1)]
  have pl: "l < 16" "algn (l + 6) p" "algn 6 p" "p \<noteq> 0" using wf_block [OF f(2), of p l] by auto
  have "p mod 2 ^ (l + 6) = 0"
    using pl(2) by (simp add: algn_def take_bit_eq_mod)
  then have al: "ASSERT (p mod 2 ^ (l + PHYS_BUDDY_MIN_ORDER) = 0) = Some ()"
    by (simp add: min_order)
  let ?h1 = "h\<lparr>buddy_lock := 1\<rparr>"
  define h2 where "h2 = (if check then buddy_set_block_free dm p ?h1 else ?h1)"
  have fr1: "acct_frame h ?h1" by (rule acct_frame_lock)
  have core1: "buddy_core dm ?h1 F (insert (p, l) X)" using c(1) acct_frame_core [OF fr1] by simp
  have core2: "buddy_core dm h2 F (insert (p, l) X)"
    using core1 core_set_bit [OF core1, of p l] by (simp add: h2_def)
  have z2: "buddy_zero h2 F" "zero_blk h2 (p, l)"
    using z acct_frame_rest(1,2) [OF fr1] by (simp_all add: h2_def zero_clear_bit)
  have bits2: "\<forall>(a, k)\<in>X. \<not> buddy_is_block_free dm h2 a"
  proof clarify
    fix a k assume a: "(a, k) \<in> X" "buddy_is_block_free dm h2 a"
    then have "algn 6 a" "a \<noteq> p"
      using wf_block [OF f(2), of a k] wf_start [OF f(2), of a k l] c(2) by auto
    then show False
      using a bits is_free_set [OF f(1) pl(3)] acct_frame_rest(3) [OF fr1]
      by (auto simp: h2_def split: if_splits)
  qed
  obtain m k h3 F1 where mg: "buddy_merge dm p l h2 = Some (m, k, h3)" "l \<le> k" "k < 16"
    "buddy_core dm h3 F1 (insert (m, k) X)" "(m, k) \<notin> X" "buddy_frame h2 h3"
    "\<forall>wt. total_free wt F = total_free wt F1 + halves wt l k" "bitmap h3 = bitmap h2"
    "buddy_zero h3 F1" "zero_blk h3 (m, k)" "cover F1 \<union> blk (m, k) = cover F \<union> blk (p, l)"
    "\<forall>w. w \<notin> cover F \<longrightarrow> no_header h3 w = no_header h2 w"
    using buddy_merge_ok [OF core2 c(2) pl(1) bits2] z2 by blast
  define h4 where "h4 = buddy_set_block_free dm m (hlist_add k m (h3\<lparr>bf_level := (bf_level h3)(m := of_nat k)\<rparr>))"
  let ?F = "F1(k := m # F1 k)"
  note put = buddy_put [OF mg(4,5,3), folded h4_def buddy_frame_def]
  have fr4: "buddy_frame h2 h4" using buddy_frame_trans [OF mg(6)] put by blast
  have lk: "buddy_lock h4 = 1"
    using buddy_frame_eq(5) [OF fr4] by (simp add: h2_def bm_set)
  let ?h5 = "h4\<lparr>buddy_lock := 0\<rparr>"
  have run: "phys_free_internal dm p l check h = Some (k, ?h5)"
  proof -
    have "(if check then do { ASSERT (\<not> buddy_is_block_free dm ?h1 p);
        Some (buddy_set_block_free dm p ?h1) } else Some ?h1) = Some h2"
      using chk acct_frame_rest(3) [OF fr1] by (simp add: h2_def)
    then show ?thesis
      using al mg(1) lock_free [OF lock] unlock_held [OF lk]
      by (simp add: phys_free_internal_def h4_def [symmetric] del: fun_upd_apply)
  qed
  have lk5: "buddy_lock ?h5 = 0" by simp
  have fr5: "acct_frame h4 ?h5" by (rule acct_frame_lock)
  have core5: "buddy_core dm ?h5 ?F X" using put acct_frame_core [OF fr5] by blast
  have z5: "buddy_zero ?h5 ?F" using put mg(9,10) acct_frame_rest(1) [OF fr5] by blast
  have bits5: "\<forall>(a, j)\<in>X. \<not> buddy_is_block_free dm ?h5 a"
  proof clarify
    fix a j assume a: "(a, j) \<in> X" "buddy_is_block_free dm ?h5 a"
    then have aa: "algn 6 a" "a \<noteq> m"
      using wf_block [OF core_facts(2) [OF mg(4)], of a j]
        wf_start [OF core_facts(2) [OF mg(4)], of a j k] mg(5) by auto
    with a(2) have "buddy_is_block_free dm h3 a" using put acct_frame_rest(3) [OF fr5] by blast
    with a(1) bits2 show False by (auto simp: is_free_cong [OF mg(8)])
  qed
  have tot: "total_free wt ?F + halves wt l k = total_free wt F + wt k" for wt
    using mg(7) total_free_put [OF mg(3), of wt F1 m] by simp
  have bfr: "buddy_frame h ?h5"
  proof -
    obtain f g r i b where "h4 = h2\<lparr>hl_first := f, hn_next := g, hn_pprev := r, bf_level := i, bitmap := b\<rparr>"
      using fr4 unfolding buddy_frame_def by blast
    then have "?h5 = h\<lparr>hl_first := f, hn_next := g, hn_pprev := r, bf_level := i, bitmap := b\<rparr>"
      using lock by (simp add: h2_def bm_set)
    then show ?thesis unfolding buddy_frame_def by blast
  qed
  have cov: "cover ?F = cover F \<union> blk (p, l)" using cover_put [OF mg(3), of F1 m] mg(11) by simp
  have nhd: "no_header ?h5 w = no_header h w" if "w \<notin> cover F \<union> blk (p, l)" for w
  proof -
    have "m \<in> cover F \<union> blk (p, l)" using mg(11) blk_self [of m k] by blast
    then have "w \<noteq> m" using that by blast
    moreover have "(w, k) \<notin> fset F1" using that mg(11) fset_cover [of w k F1] by blast
    ultimately have "no_header h4 w = no_header h3 w" using put by blast
    moreover have "no_header h2 w = no_header h w"
      by (simp add: h2_def bm_set no_header_def)
    ultimately show ?thesis using mg(12) that by (simp add: no_header_def)
  qed
  have "check \<longrightarrow> buddy_is_block_free dm h2 p"
    using is_free_set [OF f(1) pl(3) pl(3)] by (simp add: h2_def)
  then have dbl: "check \<longrightarrow> buddy_is_block_free dm ?h5 p"
    using put pl(3) acct_frame_rest(3) [OF fr5] is_free_cong [OF mg(8)] by blast
  show ?thesis
  proof (intro exI conjI)
    show "phys_free_internal dm p l check h = Some (k, ?h5)" by (rule run)
    show "check \<longrightarrow> buddy_is_block_free dm ?h5 p" by (rule dbl)
    show "buddy_core dm ?h5 ?F X" by (rule core5)
    show "\<forall>w. w \<notin> cover F \<union> blk (p, l) \<longrightarrow> no_header ?h5 w = no_header h w" using nhd by blast
    show "\<forall>wt. total_free wt ?F + halves wt l k = total_free wt F + wt k" using tot by blast
  qed (rule mg z5 lk5 bits5 bfr cov)+
qed

theorem phys_free_block_ok:
  assumes inv: "buddy_inv dm h F A" and p: "(p, l) \<in> A"
  shows "\<exists>h' F'. phys_free_block dm p l reserved h = Some h' \<and> buddy_inv dm h' F' (A - {(p, l)}) \<and>
    cover F' = cover F \<union> blk (p, l) \<and> buddy_is_block_free dm h' p \<and>
    (if 6 \<le> l \<and> reserved then m_available_pages h' = m_available_pages h
     else m_reserved_pages h' = m_reserved_pages h)"
proof -
  let ?X = "A - {(p, l)}"
  have core: "buddy_core dm h F A" and zero: "buddy_zero h F" and fin: "finite A"
    and bits: "\<forall>(a, l)\<in>A. \<not> buddy_is_block_free dm h a" and lock: "buddy_lock h = 0"
    and acct: "acct_ok h" "free_pages h = total_free pages F"
      "total_free pieces F + handed_out A \<le> 64 * unat (m_committed_pages h)"
    using inv by (simp_all add: buddy_inv_def)
  have A: "A = insert (p, l) ?X" using p by auto
  have l: "l < 16" using wf_block [OF core_facts(2) [OF core], of p l] p by simp
  define h1 where "h1 = memset p 0 (2 ^ (l + 6)) h"
  note ms = memset_blk [OF core p, folded h1_def]
  have eq1: "m_available_pages h1 = m_available_pages h" "m_total_pages h1 = m_total_pages h"
    "m_committed_pages h1 = m_committed_pages h" "m_reserved_pages h1 = m_reserved_pages h"
    using ms by (simp_all add: acct.truncate_def)
  have core1: "buddy_core dm h1 F (insert (p, l) ?X)" using ms A by simp
  have bits1: "\<not> buddy_is_block_free dm h1 a" if "(a, k) \<in> A" for a k
    using bits ms that by (auto simp: is_free_cong [of h1 h])
  obtain k h2 F' where fr: "phys_free_internal dm p l True h1 = Some (k, h2)" "l \<le> k" "k < 16"
    "buddy_core dm h2 F' ?X" "buddy_zero h2 F'" "buddy_lock h2 = 0"
    "\<forall>(a, k)\<in>?X. \<not> buddy_is_block_free dm h2 a"
    "\<forall>wt. total_free wt F' + halves wt l k = total_free wt F + wt k" "buddy_frame h1 h2"
    "cover F' = cover F \<union> blk (p, l)" "buddy_is_block_free dm h2 p"
  proof -
    have b: "\<forall>(a, k)\<in>?X. \<not> buddy_is_block_free dm h1 a" "(p, l) \<notin> ?X" using bits1 by auto
    have z: "buddy_zero h1 F" "zero_blk h1 (p, l)" "buddy_lock h1 = 0" using ms zero lock by simp_all
    have ck: "True \<longrightarrow> \<not> buddy_is_block_free dm h1 p" using bits1 [OF p] by simp
    from phys_free_internal_ok [OF core1 b(2) z b(1) ck] show ?thesis using that by blast
  qed
  let ?n = "if 6 \<le> l then get_page_count_by_level l else (if 6 \<le> k then 1 else 0)"
  have n: "unat ?n = cost l k" using l unat_page_count [of l] by (simp add: cost_def)
  have page: "PHYS_BUDDY_PAGE_LEVEL = 6" by (simp add: buddy_consts)
  have free: "total_free pages F' = total_free pages F + cost l k"
    using fr(8) halves_pages [OF fr(2)] by (metis add.assoc add.commute add_left_cancel)
  have pc: "total_free pieces F' + 64 * cost l k = total_free pieces F + 2 ^ l"
    using spec [OF fr(8), of pieces] halves_pieces [OF fr(2)] by linarith
  have ho: "handed_out A = 2 ^ l + handed_out ?X" by (rule handed_out_remove [OF fin p])
  have eq2: "m_available_pages h2 = m_available_pages h" "m_total_pages h2 = m_total_pages h"
    "m_committed_pages h2 = m_committed_pages h" "m_reserved_pages h2 = m_reserved_pages h"
    using buddy_frame_eq [OF fr(9)] eq1 by simp_all
  have le: "unat ?n \<le> unat (m_committed_pages h2)" using acct(3) pc ho n eq2 by simp
  note tot = acct_total [OF acct(1)]
  define h3 where "h3 = (if 6 \<le> l \<and> reserved
     then h2\<lparr>m_available_pages := m_available_pages h2,
       m_committed_pages := m_committed_pages h2 - ?n, m_reserved_pages := m_reserved_pages h2 + ?n\<rparr>
     else h2\<lparr>m_available_pages := m_available_pages h2 + ?n,
       m_committed_pages := m_committed_pages h2 - ?n, m_reserved_pages := m_reserved_pages h2\<rparr>)"
  have run: "phys_free_block dm p l reserved h = Some h3"
    using fr(1) le unfolding phys_free_block_def min_order h1_def [symmetric]
    by (cases "6 \<le> l"; cases "6 \<le> k")
      (auto simp: page h3_def Let_def mem_acct_sub_eq word_le_nat_alt h1_def [symmetric])
  have fr3: "acct_frame h2 h3" unfolding h3_def by (simp only: acct_frame_acct split: if_split) simp
  have cnt: "unat (m_committed_pages h3) = unat (m_committed_pages h) - cost l k"
    "free_pages h3 = free_pages h + cost l k" "acct_ok h3" "buddy_lock h3 = 0"
    using take_pages [OF le] n eq2 fr(6) unat_add_exact [of "m_available_pages h" ?n]
      unat_add_exact [of "m_reserved_pages h" ?n] tot le acct(1)
    by (auto simp: h3_def free_pages_def acct_ok_def)
  have "buddy_inv dm h3 F' ?X"
    unfolding buddy_inv_def
  proof (intro conjI)
    show "buddy_core dm h3 F' ?X" "buddy_zero h3 F'"
      using fr(4,5) acct_frame_core [OF fr3] acct_frame_rest(1) [OF fr3] by blast+
    show "\<forall>(a, l)\<in>?X. \<not> buddy_is_block_free dm h3 a"
      using fr(7) acct_frame_rest(3) [OF fr3] by auto
    show "free_pages h3 = total_free pages F'" using cnt(2) acct(2) free by simp
    show "total_free pieces F' + handed_out ?X \<le> 64 * unat (m_committed_pages h3)"
      using cnt(1) acct(3) pc ho le n eq2 by simp
  qed (use fin cnt in simp_all)
  moreover have "buddy_is_block_free dm h3 p" using fr(11) acct_frame_rest(3) [OF fr3] by simp
  ultimately show ?thesis using run fr(10) eq2 by (auto simp: h3_def)
qed

end
