(* ===== verification/Phys_Props.thy ===== *)
theory Phys_Props
  imports Phys_Inv
begin

text \<open>
  The properties of the physical allocator that its callers rely on, with a heap of one free page
  as the concrete case.
\<close>

section \<open>Sizes and levels\<close>

definition scan :: "u64 \<Rightarrow> nat \<Rightarrow> nat" where
  "scan x k = length (takeWhile (\<lambda>i. \<not> bit x i) (rev [0..<k]))"

lemma scan_Suc: "scan x (Suc k) = (if bit x k then 0 else Suc (scan x k))"
  by (simp add: scan_def)

lemma scan_bits:
  "\<exists>i<k. bit x i \<Longrightarrow> scan x k < k \<and> bit x (k - 1 - scan x k) \<and>
     (\<forall>j. k - 1 - scan x k < j \<and> j < k \<longrightarrow> \<not> bit x j)"
proof (induction k)
  case (Suc k)
  show ?case
  proof (cases "bit x k")
    case True
    then show ?thesis by (auto simp: scan_Suc)
  next
    case False
    with Suc.prems have "\<exists>i<k. bit x i" by (metis less_Suc_eq)
    note ih = Suc.IH [OF this]
    have s: "scan x (Suc k) = Suc (scan x k)" using False by (simp add: scan_Suc)
    have "\<not> bit x j" if "k - 1 - scan x k < j" "j < Suc k" for j
      using ih False that by (cases "j = k") auto
    then show ?thesis using ih unfolding s by simp
  qed
qed simp

lemma clz_scan: "clzll x = scan x 64"
  by (simp only: clzll_def scan_def)

lemma bit_nat_le: "bit (m :: nat) n \<Longrightarrow> 2 ^ n \<le> m"
  by (rule ccontr) (simp add: bit_iff_odd not_le)

lemma clzll_bits:
  assumes "x \<noteq> 0"
  shows "clzll x < 64 \<and> 2 ^ (63 - clzll x) \<le> unat x \<and> unat x < 2 ^ (64 - clzll x)"
proof -
  have "\<exists>i<64. bit x i"
  proof (rule ccontr)
    assume "\<not> (\<exists>i<64. bit x i)"
    then have "x = 0" by (intro bit_word_eqI) auto
    with assms show False by simp
  qed
  from scan_bits [of 64 x, OF this] have c: "clzll x < 64" "bit x (63 - clzll x)"
    "\<And>j. 63 - clzll x < j \<Longrightarrow> j < 64 \<Longrightarrow> \<not> bit x j"
    unfolding clz_scan by simp_all
  have "bit (unat x) (63 - clzll x)"
    by (rule bit_unsigned_iff [THEN iffD2]) (simp add: c(2))
  then have "2 ^ (63 - clzll x) \<le> unat x" by (rule bit_nat_le)
  moreover have "unat x < 2 ^ (64 - clzll x)"
  proof -
    have "take_bit (64 - clzll x) x = x"
    proof (rule bit_word_eqI)
      fix n assume "n < LENGTH(64)"
      then show "bit (take_bit (64 - clzll x) x) n = bit x n"
        using c(1) c(3) [of n] by (cases "n < 64 - clzll x") (simp_all add: bit_take_bit_iff)
    qed
    then have "unat x = take_bit (64 - clzll x) (unat x)" by (metis unsigned_take_bit_eq)
    then show ?thesis by (metis take_bit_nat_less_exp)
  qed
  ultimately show ?thesis using c(1) by blast
qed

text \<open>The level of a size is the smallest whose blocks hold it; a size beyond the largest
  block has none.\<close>

lemma level_of_size:
  "if size_t > PHYS_BUDDY_MAX_SIZE then get_level_by_size size_t = -1
   else \<exists>l<16. get_level_by_size size_t = int l \<and> unat size_t \<le> 2 ^ (l + 6) \<and>
     (\<forall>k<l. 2 ^ (k + 6) < unat size_t)"
proof (cases "size_t > PHYS_BUDDY_MAX_SIZE")
  case True
  then show ?thesis by (simp add: get_level_by_size_def)
next
  case False
  define s where "s = (if size_t < PHYS_BUDDY_MIN_SIZE then PHYS_BUDDY_MIN_SIZE else size_t)"
  have u: "unat s = max 64 (unat size_t)" "unat s \<le> 2 ^ 21"
    using False by (auto simp: s_def buddy_consts word_less_nat_alt)
  then have d: "unat (s - 1) = unat s - 1" "s - 1 \<noteq> 0"
    by (auto simp: unat_sub word_le_nat_alt)
  note c = clzll_bits [OF d(2)]
  define n where "n = 64 - clzll (s - 1)"
  have s1: "1 \<le> unat s" using u(1) by simp
  have n: "2 ^ (n - 1) < unat s" "unat s \<le> 2 ^ n" "clzll (s - 1) < 64"
  proof -
    have e: "63 - clzll (s - 1) = n - 1" by (simp add: n_def)
    show "2 ^ (n - 1) < unat s" "unat s \<le> 2 ^ n" "clzll (s - 1) < 64"
      using c s1 unfolding d(1) e n_def [symmetric] by linarith+
  qed
  have n6: "6 \<le> n"
  proof (rule ccontr)
    assume "\<not> 6 \<le> n"
    then have "(2::nat) ^ n \<le> 2 ^ 5" by (intro power_increasing) auto
    with n u show False by simp
  qed
  have n21: "n \<le> 21"
  proof (rule ccontr)
    assume "\<not> n \<le> 21"
    then have "(2::nat) ^ 21 \<le> 2 ^ (n - 1)" by (intro power_increasing) auto
    with n u show False by simp
  qed
  have "get_level_by_size size_t = int (n - 6)"
    using False n(3) n6 by (simp add: get_level_by_size_def Let_def s_def [symmetric] n_def min_order)
  moreover have "2 ^ (k + 6) < unat size_t" if "k < n - 6" for k
  proof -
    have "(2::nat) ^ (k + 6) \<le> 2 ^ (n - 1)"
      using that by (intro power_increasing) simp_all
    then have "2 ^ (k + 6) < unat s" using n(1) by (rule le_less_trans)
    moreover have "(2 :: nat) ^ 6 \<le> 2 ^ (k + 6)" by (intro power_increasing) simp_all
    ultimately show ?thesis unfolding u(1) by (cases "64 < unat size_t") (simp_all add: max_def split: if_splits)
  qed
  moreover have "n - 6 < 16" "unat size_t \<le> 2 ^ (n - 6 + 6)"
    using n6 n21 n(2) u by simp_all
  ultimately show ?thesis using False by (auto intro!: exI [of _ "n - 6"])
qed

lemma page_level: "get_page_level_by_size PAGE_SIZE = 6"
proof -
  have "scan (PAGE_SIZE - 1) 64 = 52"
    by (simp add: PAGE_SIZE_eq scan_Suc numeral_eq_Suc)
  then have "get_level_by_size PAGE_SIZE = 6"
    by (simp add: get_level_by_size_def clz_scan buddy_consts PAGE_SIZE_eq)
  then show ?thesis by (simp add: get_page_level_by_size_def buddy_consts PAGE_SIZE_eq)
qed

lemma free_twice:
  assumes "buddy_is_block_free dm h p" "buddy_lock h = 0"
  shows "phys_free_block dm p l reserved h = None"
proof -
  let ?h = "memset p 0 (2 ^ (l + PHYS_BUDDY_MIN_ORDER)) h"
  have "buddy_is_block_free dm (?h\<lparr>buddy_lock := 1\<rparr>) p" "buddy_lock ?h = 0"
    using assms by (simp_all add: is_free_bit memset_def)
  then show ?thesis
    by (simp add: phys_free_block_def phys_free_internal_def lock_free Let_def ASSERT_def)
qed

section \<open>Adding memory\<close>

definition fits_block :: "ptr \<Rightarrow> ptr \<Rightarrow> nat \<Rightarrow> bool" where
  "fits_block a e l \<longleftrightarrow> \<not> a + 2 ^ (l + 6) > e \<and> algn (l + 6) a"

lemma mask_algn: "a AND (2 ^ s - 1) = 0 \<longleftrightarrow> algn s (a :: u64)"
  by (simp add: algn_def take_bit_eq_mask mask_eq_exp_minus_1)

lemma best_level_from:
  "(\<exists>l<n. get_best_level_from n a e = int l \<and> fits_block a e l \<and> (\<forall>k<n. l < k \<longrightarrow> \<not> fits_block a e k)) \<or>
   get_best_level_from n a e = -1 \<and> (\<forall>k<n. \<not> fits_block a e k)"
proof (induction n)
  case (Suc n)
  have step: "get_best_level_from (Suc n) a e =
      (if fits_block a e n then int n else get_best_level_from n a e)"
    by (simp add: Let_def fits_block_def mask_algn min_order)
  show ?case
  proof (cases "fits_block a e n")
    case False
    with Suc.IH show ?thesis unfolding step by (auto simp: less_Suc_eq)
  next
    case True
    then show ?thesis unfolding step by (auto simp: less_Suc_eq)
  qed
qed simp

lemma page_algn: "a AND PAGE_MASK = 0 \<longleftrightarrow> algn 12 a"
  using mask_algn [of a 12] by (simp add: PAGE_MASK_def PAGE_SHIFT_def)

lemma algn_unat: "s < 64 \<Longrightarrow> algn s a \<longleftrightarrow> 2 ^ s dvd unat (a :: u64)"
  by (simp add: algn_def flip: take_bit_eq_0_iff unsigned_take_bit_eq)
    (simp add: unat_eq_zero)

lemma best_level_ok:
  assumes "algn 12 start" "algn 12 fin" "start < fin" "unat fin + 2 ^ 21 \<le> 2 ^ 64"
  shows "\<exists>l<16. get_best_level_for_block start fin = int l \<and> 6 \<le> l \<and> algn (l + 6) start \<and>
    unat start + 2 ^ (l + 6) \<le> unat fin \<and>
    (\<forall>k<16. l < k \<longrightarrow> \<not> (algn (k + 6) start \<and> unat start + 2 ^ (k + 6) \<le> unat fin))"
proof -
  have sum: "unat (start + 2 ^ (k + 6)) = unat start + 2 ^ (k + 6)" if "k < 16" for k
  proof -
    have "(2 :: nat) ^ (k + 6) \<le> 2 ^ 21" using that by (intro power_increasing) simp_all
    moreover have "unat (2 ^ (k + 6) :: u64) = 2 ^ (k + 6)" using that by (intro unat_pow2) simp
    moreover have "unat start < unat fin" using assms(3) by (simp add: word_less_nat_alt)
    ultimately show ?thesis
      using assms(4) unat_add_exact [of start "2 ^ (k + 6)"] by simp
  qed
  have fb: "fits_block start fin k \<longleftrightarrow> algn (k + 6) start \<and> unat start + 2 ^ (k + 6) \<le> unat fin"
    if "k < 16" for k
    using sum [OF that] by (auto simp: fits_block_def word_less_nat_alt)
  have "unat start < unat fin" using assms(3) by (simp add: word_less_nat_alt)
  moreover have "(2 :: nat) ^ 12 dvd unat start" "(2 :: nat) ^ 12 dvd unat fin"
    using assms(1,2) by (simp_all add: algn_unat)
  ultimately have "unat start + 2 ^ 12 \<le> unat fin"
    by (metis (no_types) add_diff_cancel_left' dvd_diff_nat dvd_imp_le less_imp_add_positive
        nat_add_left_cancel_le)
  then have 6: "fits_block start fin 6" using assms(1) by (simp add: fb)
  from best_level_from [of 16 start fin] 6 obtain l where l: "l < 16"
    "get_best_level_from 16 start fin = int l" "fits_block start fin l"
    "\<forall>k<16. l < k \<longrightarrow> \<not> fits_block start fin k" by fastforce
  have "6 \<le> l"
  proof (rule ccontr)
    assume "\<not> 6 \<le> l"
    then show False using l(4) [rule_format, of 6] 6 by simp
  qed
  with l fb show ?thesis
    by (intro exI [of _ l]) (auto simp: get_best_level_for_block_def min_order)
qed

lemma interval_cov:
  assumes "algn s p" "s < 64" "unat p + 2 ^ s < 2 ^ 64"
  shows "cov s p = {w. p \<le> w \<and> unat w < unat p + 2 ^ s}"
proof (rule set_eqI)
  fix w :: ptr
  have "w - p < 2 ^ s \<longleftrightarrow> p \<le> w \<and> unat w < unat p + 2 ^ s"
    using assms(2,3) by (auto simp: word_less_nat_alt word_le_nat_alt unat_pow2 unat_sub_if')
  then show "w \<in> cov s p \<longleftrightarrow> w \<in> {w. p \<le> w \<and> unat w < unat p + 2 ^ s}"
    using range_cov [OF assms(2,1)] by simp
qed

lemma core_insert_new:
  assumes c: "buddy_core dm h F A" and l: "l < 16" "algn (l + 6) p" "p \<noteq> 0"
    and d: "\<And>b. b \<in> fset F \<union> A \<Longrightarrow> blk b \<inter> blk (p, l) = {}"
  shows "buddy_core dm h F (insert (p, l) A) \<and> (p, l) \<notin> A"
proof
  have n: "(p, l) \<notin> fset F \<union> A" using d [of "(p, l)"] by auto
  show "buddy_core dm h F (insert (p, l) A)"
  proof (rule core_recut [OF c])
    show "wf_blocks (fset F \<union> insert (p, l) A)"
      using core_facts(2) [OF c] l d by (simp add: wf_insert)
    show "fset F \<inter> insert (p, l) A = {}" using core_facts(3) [OF c] n by auto
  qed auto
  show "(p, l) \<notin> A" using n by simp
qed

definition range_new :: "(nat \<Rightarrow> ptr list) \<Rightarrow> block set \<Rightarrow> ptr \<Rightarrow> ptr \<Rightarrow> bool" where
  "range_new F A start fin \<longleftrightarrow> (\<forall>b\<in>fset F \<union> A. \<forall>w\<in>blk b. \<not> (start \<le> w \<and> w < fin))"

definition range_clean :: "mm \<Rightarrow> ptr \<Rightarrow> ptr \<Rightarrow> bool" where
  "range_clean h start fin \<longleftrightarrow> (\<forall>w. start \<le> w \<and> w < fin \<longrightarrow> no_data h w \<and> no_header h w)"

lemma phys_add_blocks_ok:
  assumes "buddy_core dm h F A" "buddy_zero h F" "buddy_lock h = 0"
    and "\<forall>(a, k)\<in>A. \<not> buddy_is_block_free dm h a"
    and "algn 12 start" "algn 12 fin" "start \<le> fin" "unat fin + 2 ^ 21 \<le> 2 ^ 64" "start \<noteq> 0"
    and "range_new F A start fin" "range_clean h start fin"
  shows "\<exists>h' F'. phys_add_blocks dm start fin h = Some h' \<and> buddy_core dm h' F' A \<and>
    buddy_zero h' F' \<and> buddy_lock h' = 0 \<and> (\<forall>(a, k)\<in>A. \<not> buddy_is_block_free dm h' a) \<and>
    buddy_frame h h' \<and> total_free pieces F' = total_free pieces F \<and>
    4096 * total_free pages F' + unat start = 4096 * total_free pages F + unat fin \<and>
    cover F' = cover F \<union> {w. start \<le> w \<and> w < fin}"
  using assms
proof (induction "unat fin - unat start" arbitrary: h F start rule: less_induct)
  case less
  have rn: "b \<in> fset F \<union> A \<Longrightarrow> w \<in> blk b \<Longrightarrow> start \<le> w \<Longrightarrow> w < fin \<Longrightarrow> False" for b w
    using less.prems(10) by (auto simp: range_new_def)
  have rc: "start \<le> w \<Longrightarrow> w < fin \<Longrightarrow> no_data h w \<and> no_header h w" for w
    using less.prems(11) by (simp add: range_clean_def)
  show ?case
  proof (cases "start < fin")
    case False
    then have "start = fin" using less.prems(7) by simp
    moreover have "phys_add_blocks dm start fin h = Some h"
      using False by (subst phys_add_blocks.simps) simp
    ultimately show ?thesis using less.prems(1-4) by (auto simp: buddy_frame_refl)
  next
    case True
    obtain l where l: "l < 16" "get_best_level_for_block start fin = int l" "6 \<le> l" "algn (l + 6) start"
      "unat start + 2 ^ (l + 6) \<le> unat fin"
      using best_level_ok [OF less.prems(5,6) True less.prems(8)] by blast
    have p: "unat (2 ^ (l + 6) :: u64) = 2 ^ (l + 6)" using l(1) by (intro unat_pow2) simp
    have lt: "unat start + 2 ^ (l + 6) < 2 ^ 64" using l(5) less.prems(8) by simp
    let ?s = "start + 2 ^ (l + 6)"
    have us: "unat ?s = unat start + 2 ^ (l + 6)"
      using unat_add_exact [of start "2 ^ (l + 6)"] p lt by simp
    have b: "blk (start, l) = {w. start \<le> w \<and> w < ?s}"
      using interval_cov [OF l(4)] l(1) lt us by (auto simp: blk_def word_less_nat_alt)
    have sub: "w \<in> blk (start, l) \<Longrightarrow> start \<le> w \<and> w < fin" for w
      using b l(5) us by (auto simp: word_less_nat_alt)
    have dj: "blk c \<inter> blk (start, l) = {}" if "c \<in> fset F \<union> A" for c
      using rn [OF that] sub by blast
    note ins = core_insert_new [OF less.prems(1) l(1,4) less.prems(9) dj]
    have zb: "zero_blk h (start, l)" using rc sub by (auto simp: zero_blk_def)
    obtain k h1 F1 where f: "phys_free_internal dm start l False h = Some (k, h1)" "l \<le> k" "k < 16"
      "buddy_core dm h1 F1 A" "buddy_zero h1 F1" "buddy_lock h1 = 0"
      "\<forall>(a, k)\<in>A. \<not> buddy_is_block_free dm h1 a"
      "\<forall>wt. total_free wt F1 + halves wt l k = total_free wt F + wt k" "buddy_frame h h1"
      "cover F1 = cover F \<union> blk (start, l)"
      "\<forall>w. w \<notin> cover F \<union> blk (start, l) \<longrightarrow> no_header h1 w = no_header h w"
      using phys_free_internal_ok [OF ins [THEN conjunct1] ins [THEN conjunct2] less.prems(2) zb
        less.prems(3,4), of False] by blast
    have cost: "cost l k = 2 ^ (l - 6)" using l(3) by (simp add: cost_def)
    have pg: "total_free pages F1 = total_free pages F + 2 ^ (l - 6)"
      using spec [OF f(8), of pages] halves_pages [OF f(2)] cost by linarith
    have pc: "total_free pieces F1 = total_free pieces F"
    proof -
      have "64 * cost l k = 2 ^ l" using six_power [OF l(3)] cost by simp
      then show ?thesis using spec [OF f(8), of pieces] halves_pieces [OF f(2)] by linarith
    qed
    have run: "phys_add_blocks dm start fin h = phys_add_blocks dm ?s fin h1"
      using True l f(1) by (subst phys_add_blocks.simps) (simp add: Let_def min_order nat_add_distrib)
    have 1: "unat fin - unat ?s < unat fin - unat start"
    proof -
      have "(0 :: nat) < 2 ^ (l + 6)" by simp
      with us l(5) show ?thesis by linarith
    qed
    have 2: "algn 12 ?s"
    proof -
      have "algn 12 (2 ^ (l + 6))" using l(3) by (simp add: algn_bits bit_pow2)
      moreover have "algn 12 (- (2 ^ (l + 6)))" using algn_diff [OF _ calculation, of 0] by (simp add: algn_bits)
      ultimately show ?thesis using algn_diff [OF less.prems(5), of "- (2 ^ (l + 6))"] by simp
    qed
    have 3: "?s \<le> fin" using us l(5) by (simp add: word_le_nat_alt)
    have 4: "?s \<noteq> 0" using us by (metis add_is_0 power_not_zero unat_0 zero_neq_numeral)
    have st: "start \<le> w" if "?s \<le> w" for w
      using that us by (simp add: word_le_nat_alt)
    have 5: "range_new F1 A ?s fin"
      unfolding range_new_def
    proof (intro ballI notI)
      fix c w assume "c \<in> fset F1 \<union> A" "w \<in> blk c" "?s \<le> w \<and> w < fin"
      then have that: "c \<in> fset F1 \<union> A" "w \<in> blk c" "?s \<le> w" "w < fin" by simp_all
      show False
      proof (cases "c \<in> A")
        case True
        then show False using rn [of c w] that st by blast
      next
        case False
        then have "w \<in> cover F1" using that unfolding cover_def by blast
        moreover have "w \<notin> blk (start, l)" using that(3) unfolding b by (simp add: not_less)
        ultimately have "w \<in> cover F" using f(10) by blast
        then obtain c' where "c' \<in> fset F" "w \<in> blk c'" unfolding cover_def by blast
        then show False using rn [of c' w] that st by blast
      qed
    qed
    have 6: "range_clean h1 ?s fin"
      unfolding range_clean_def
    proof (intro allI impI)
      fix w assume "?s \<le> w \<and> w < fin"
      then have that: "?s \<le> w" "w < fin" by simp_all
      have "w \<notin> cover F" using rn [of _ w] st that unfolding cover_def by blast
      moreover have "w \<notin> blk (start, l)" using that(1) unfolding b by (simp add: not_less)
      ultimately show "no_data h1 w \<and> no_header h1 w"
        using f(11) [rule_format, of w] rc [OF st [OF that(1)] that(2)]
          buddy_frame_eq(6) [OF f(9), of w] by blast
    qed
    obtain h' F' where ih: "phys_add_blocks dm ?s fin h1 = Some h'" "buddy_core dm h' F' A"
      "buddy_zero h' F'" "buddy_lock h' = 0" "\<forall>(a, k)\<in>A. \<not> buddy_is_block_free dm h' a"
      "buddy_frame h1 h'" "total_free pieces F' = total_free pieces F1"
      "4096 * total_free pages F' + unat ?s = 4096 * total_free pages F1 + unat fin"
      "cover F' = cover F1 \<union> {w. ?s \<le> w \<and> w < fin}"
      using less.hyps [OF 1 f(4-7) 2 less.prems(6) 3 less.prems(8) 4 5 6] by blast
    have "(2 :: nat) ^ (l + 6) = 4096 * 2 ^ (l - 6)" using six_power [OF l(3)] by (simp add: power_add)
    then have "4096 * total_free pages F' + unat start = 4096 * total_free pages F + unat fin"
      using ih(8) us pg by simp
    moreover have "cover F' = cover F \<union> {w. start \<le> w \<and> w < fin}"
    proof -
      have "{w. start \<le> w \<and> w < ?s} \<union> {w. ?s \<le> w \<and> w < fin} = {w. start \<le> w \<and> w < fin}"
        using st 3 by (auto simp: not_less intro: less_le_trans)
      then show ?thesis using ih(9) f(10) b by (simp add: Un_assoc)
    qed
    ultimately show ?thesis
      using run ih pc buddy_frame_trans [OF f(9) ih(6)] by auto
  qed
qed

lemma phys_add_memory_ok:
  assumes inv: "buddy_inv dm h F A"
    and rng: "algn 12 start" "algn 12 fin" "start \<le> fin" "unat fin + 2 ^ 21 \<le> 2 ^ 64" "start \<noteq> 0"
    and new: "range_new F A start fin"
    and room: "unat (m_total_pages h) + 2 ^ 52 < 2 ^ 64"
  shows "\<exists>h' F'. phys_add_memory dm start fin h = Some h' \<and> buddy_inv dm h' F' A \<and>
    cover F' = cover F \<union> {w. start \<le> w \<and> w < fin} \<and>
    unat (m_available_pages h') = unat (m_available_pages h) + (unat fin - unat start) div 4096 \<and>
    m_reserved_pages h' = m_reserved_pages h \<and> m_committed_pages h' = m_committed_pages h"
proof -
  have core: "buddy_core dm h F A" and zero: "buddy_zero h F" and fin: "finite A"
    and bits: "\<forall>(a, l)\<in>A. \<not> buddy_is_block_free dm h a" and lock: "buddy_lock h = 0"
    and acct: "acct_ok h" "free_pages h = total_free pages F"
      "total_free pieces F + handed_out A \<le> 64 * unat (m_committed_pages h)"
    using inv by (simp_all add: buddy_inv_def)
  let ?n = "(fin - start) div PAGE_SIZE"
  have uf: "unat start \<le> unat fin" using rng(3) by (simp add: word_le_nat_alt)
  have n: "unat ?n = (unat fin - unat start) div 4096"
    using uf by (simp add: unat_div_distrib PAGE_SIZE_eq unat_sub word_le_nat_alt)
  define h1 where "h1 = memset start 0 (fin - start) h"
  have rw: "w - start < fin - start \<longleftrightarrow> start \<le> w \<and> w < fin" for w
    using rng(3,4) by (auto simp: word_less_nat_alt word_le_nat_alt unat_sub_if')
  have far: "\<not> w - start < fin - start" if "b \<in> fset F \<union> A" "w \<in> blk b" for b w
    using new that unfolding rw range_new_def by blast
  have out: "no_data h1 w = no_data h w" "no_header h1 w = no_header h w" "hn_next h1 w = hn_next h w"
    "hn_pprev h1 w = hn_pprev h w" "bf_level h1 w = bf_level h w" if "b \<in> fset F \<union> A" "w \<in> blk b" for b w
    using far [OF that] memset_other [of w start "fin - start" 0 h]
    by (simp_all add: h1_def memset_def fill_def)
  have same: "bitmap h1 = bitmap h" "buddy_lock h1 = buddy_lock h" "hl_first h1 = hl_first h"
    "m_available_pages h1 = m_available_pages h" "m_total_pages h1 = m_total_pages h"
    "m_committed_pages h1 = m_committed_pages h" "m_reserved_pages h1 = m_reserved_pages h"
    by (simp_all add: h1_def memset_def)
  have hs: "hseg h1 (H_First k) (F k) = hseg h (H_First k) (F k)" if "k < 16" for k
  proof (rule hseg_cong)
    fix a assume "a \<in> set (F k)"
    then have "(a, k) \<in> fset F \<union> A" using that by (simp add: fset_def)
    from out [OF this blk_self] show "hn_next h1 a = hn_next h a" "hn_pprev h1 a = hn_pprev h a" by blast+
  qed (simp add: same)
  have core1: "buddy_core dm h1 F A"
  proof -
    have "bf_level h1 a = of_nat l \<and> buddy_is_block_free dm h1 a" if "(a, l) \<in> fset F" for a l
      using core that out(5) [of "(a, l)" a] unfolding buddy_core_def is_free_cong [OF same(1)] by auto
    then show ?thesis using core hs unfolding buddy_core_def is_free_cong [OF same(1)] by auto
  qed
  have zero1: "buddy_zero h1 F"
    unfolding buddy_zero_def
  proof clarify
    fix a k w assume a: "(a, k) \<in> fset F" "w \<in> blk (a, k)"
    then have "(a, k) \<in> fset F \<union> A" by blast
    from out(1,2) [OF this a(2)] zero a show "no_data h1 w \<and> (w \<noteq> a \<longrightarrow> no_header h1 w)"
      unfolding buddy_zero_def by fastforce
  qed
  have bits1: "\<forall>(a, l)\<in>A. \<not> buddy_is_block_free dm h1 a"
    using bits by (simp add: is_free_cong [OF same(1)])
  have cl: "range_clean h1 start fin"
    using memset_0_clean [of _ start "fin - start" h] rw by (simp add: range_clean_def h1_def)
  have lock1: "buddy_lock h1 = 0" using lock same by simp
  obtain h2 F2 where b: "phys_add_blocks dm start fin h1 = Some h2" "buddy_core dm h2 F2 A"
    "buddy_zero h2 F2" "buddy_lock h2 = 0" "\<forall>(a, k)\<in>A. \<not> buddy_is_block_free dm h2 a"
    "buddy_frame h1 h2" "total_free pieces F2 = total_free pieces F"
    "4096 * total_free pages F2 + unat start = 4096 * total_free pages F + unat fin"
    "cover F2 = cover F \<union> {w. start \<le> w \<and> w < fin}"
    using phys_add_blocks_ok [OF core1 zero1 lock1 bits1 rng new cl] by blast
  have eq2: "m_available_pages h2 = m_available_pages h" "m_total_pages h2 = m_total_pages h"
    "m_committed_pages h2 = m_committed_pages h" "m_reserved_pages h2 = m_reserved_pages h"
    using buddy_frame_eq [OF b(6)] same by simp_all
  have pn: "total_free pages F2 = total_free pages F + unat ?n"
    using b(8) uf unfolding n by simp
  have small: "unat ?n \<le> 2 ^ 52"
    using rng(4) unfolding n by simp
  let ?h = "mem_acct_add_total ?n h2"
  have ut: "unat (m_total_pages h + ?n) = unat (m_total_pages h) + unat ?n"
    using small room by (intro unat_add_exact) simp
  have ua: "unat (m_available_pages h + ?n) = unat (m_available_pages h) + unat ?n"
    using small room acct(1) by (intro unat_add_exact) (simp add: acct_ok_def)
  have run: "phys_add_memory dm start fin h = Some ?h"
    using rng(1,2) b(1) by (simp add: phys_add_memory_def page_algn h1_def [symmetric])
  have ac: "acct_frame h2 ?h"
  proof -
    have "?h = h2\<lparr>m_available_pages := m_available_pages h2 + ?n, m_total_pages := m_total_pages h2 + ?n,
      m_committed_pages := m_committed_pages h2, m_reserved_pages := m_reserved_pages h2,
      buddy_lock := buddy_lock h2\<rparr>" by (simp add: mem_acct_add_eq)
    then show ?thesis unfolding acct_frame_def by blast
  qed
  have "buddy_inv dm ?h F2 A"
    unfolding buddy_inv_def
  proof (intro conjI)
    show "buddy_core dm ?h F2 A" "buddy_zero ?h F2"
      using b(2,3) acct_frame_core [OF ac] acct_frame_rest(1) [OF ac] by blast+
    show "\<forall>(a, l)\<in>A. \<not> buddy_is_block_free dm ?h a"
      using b(5) acct_frame_rest(3) [OF ac] by auto
    show "acct_ok ?h" using acct(1) ut ua eq2 by (simp add: acct_ok_def mem_acct_add_eq)
    show "free_pages ?h = total_free pages F2"
      using acct(2) ua eq2 pn by (simp add: free_pages_def mem_acct_add_eq)
    show "total_free pieces F2 + handed_out A \<le> 64 * unat (m_committed_pages ?h)"
      using acct(3) b(7) eq2 by (simp add: mem_acct_add_eq)
    show "buddy_lock ?h = 0" using b(4) by (simp add: mem_acct_add_eq)
  qed (rule fin)
  then show ?thesis using run b(9) ua eq2 n by (auto simp: mem_acct_add_eq)
qed

lemma wf_blocks_mono: "wf_blocks B \<Longrightarrow> C \<subseteq> B \<Longrightarrow> wf_blocks C"
  unfolding wf_blocks_def by (blast intro: pairwise_subset)

section \<open>A concrete heap\<close>

text \<open>No memory at all (\<open>empty_mm\<close>), and then two pages at 4096.\<close>

lemma empty_mm_inv: "buddy_inv 0 empty_mm (\<lambda>_. []) {}"
  by (auto simp: buddy_inv_def buddy_core_def buddy_zero_def empty_mm_def fset_def wf_blocks_def
    is_free_bit acct_ok_def free_pages_def total_free_def handed_out_def algn_def)

definition two_pages_mm :: mm where
  "two_pages_mm = the (phys_add_memory 0 0x1000 0x3000 empty_mm)"

lemma two_pages_add:
  "algn 12 (0x1000 :: ptr) \<and> algn 12 (0x3000 :: ptr) \<and> range_new (\<lambda>_. []) {} 0x1000 0x3000"
  by (simp add: page_algn [symmetric] PAGE_MASK_eq range_new_def fset_def)

lemma two_pages_inv:
  "\<exists>F. buddy_inv 0 two_pages_mm F {} \<and> m_available_pages two_pages_mm = 2 \<and>
     m_reserved_pages two_pages_mm = 0"
proof -
  obtain h' F' where h': "phys_add_memory 0 0x1000 0x3000 empty_mm = Some h'" "buddy_inv 0 h' F' {}"
    "unat (m_available_pages h') = 2" "m_reserved_pages h' = 0"
    using phys_add_memory_ok [OF empty_mm_inv, where start = "0x1000" and fin = "0x3000"] two_pages_add
    by (auto simp: empty_mm_def)
  then have "m_available_pages h' = 2" by (simp add: word_unat_eq_iff)
  with h' show ?thesis by (auto simp: two_pages_mm_def)
qed

definition reserved_page_mm :: mm where
  "reserved_page_mm = snd (mem_acct_reserve 1 two_pages_mm)"

lemma reserve_inv:
  assumes "buddy_inv dm h F A" "n \<le> m_available_pages h"
  shows "buddy_inv dm (snd (mem_acct_reserve n h)) F A \<and>
    unat (m_reserved_pages (snd (mem_acct_reserve n h))) = unat (m_reserved_pages h) + unat n"
proof -
  let ?h = "h\<lparr>m_available_pages := m_available_pages h - n, m_committed_pages := m_committed_pages h,
    m_reserved_pages := m_reserved_pages h + n\<rparr>"
  have e: "snd (mem_acct_reserve n h) = ?h"
    using assms(2) by (simp add: mem_acct_reserve_eq mem_acct_take_available_eq)
  have fr: "acct_frame h ?h" by (rule acct_frame_acct)
  have le: "unat n \<le> unat (m_available_pages h)" using assms(2) by (simp add: word_le_nat_alt)
  have ok: "acct_ok h" using assms(1) by (simp add: buddy_inv_def)
  have u: "unat (m_available_pages ?h) = unat (m_available_pages h) - unat n"
    "unat (m_reserved_pages ?h) = unat (m_reserved_pages h) + unat n"
    using take_pages [OF le] unat_add_exact [of "m_reserved_pages h" n] acct_total [OF ok] le by simp_all
  have "buddy_inv dm ?h F A"
    using assms(1) acct_frame_core [OF fr] acct_frame_rest [OF fr] u le
    by (simp add: buddy_inv_def acct_ok_def free_pages_def)
  with e u show ?thesis by simp
qed

section \<open>Properties\<close>

text \<open>The level of a size is the smallest whose blocks hold it; a size beyond the largest
  block has none.\<close>

theorem get_level_by_size_correct:
  "if sz > PHYS_BUDDY_MAX_SIZE then get_level_by_size sz = -1
   else \<exists>l<16. get_level_by_size sz = int l \<and> unat sz \<le> 2 ^ (l + 6) \<and>
     (\<forall>k<l. 2 ^ (k + 6) < unat sz)"
  by (rule level_of_size)

lemma get_level_by_size_witness: "\<exists>l<16. get_level_by_size 0x40 = int l"
  using get_level_by_size_correct [of "0x40"] by (auto simp: buddy_consts split: if_splits)

text \<open>For a page-aligned range, the level chosen is the largest whose block starts here, is
  aligned and fits; it is always a whole number of pages.\<close>

theorem get_best_level_for_block_correct:
  assumes "algn 12 start" "algn 12 fin" "start < fin" "unat fin + 2 ^ 21 \<le> 2 ^ 64"
  shows "\<exists>l<16. get_best_level_for_block start fin = int l \<and> 6 \<le> l \<and> algn (l + 6) start \<and>
    unat start + 2 ^ (l + 6) \<le> unat fin \<and>
    (\<forall>k<16. l < k \<longrightarrow> \<not> (algn (k + 6) start \<and> unat start + 2 ^ (k + 6) \<le> unat fin))"
  by (rule best_level_ok [OF assms])

lemma get_best_level_for_block_witness:
  "\<exists>l<16. get_best_level_for_block 0x1000 0x3000 = int l \<and> 6 \<le> l"
  using get_best_level_for_block_correct [where start = "0x1000" and fin = "0x3000"] two_pages_add by auto

text \<open>C23: Adding a page-aligned range that overlaps no block succeeds, puts exactly the addresses of
  the range into the free blocks, and makes exactly its pages available.\<close>

theorem phys_add_memory_correct:
  assumes "buddy_inv dm h F A"
    and "algn 12 start" "algn 12 fin" "start \<le> fin" "unat fin + 2 ^ 21 \<le> 2 ^ 64" "start \<noteq> 0"
    and "range_new F A start fin" "unat (m_total_pages h) + 2 ^ 52 < 2 ^ 64"
  shows "\<exists>h' F'. phys_add_memory dm start fin h = Some h' \<and> buddy_inv dm h' F' A \<and>
    cover F' = cover F \<union> {w. start \<le> w \<and> w < fin} \<and>
    unat (m_available_pages h') = unat (m_available_pages h) + (unat fin - unat start) div 4096 \<and>
    m_reserved_pages h' = m_reserved_pages h \<and> m_committed_pages h' = m_committed_pages h"
  by (rule phys_add_memory_ok [OF assms])

lemma phys_add_memory_witness:
  "\<exists>h'. phys_add_memory 0 0x1000 0x3000 empty_mm = Some h' \<and> unat (m_available_pages h') = 2"
  using phys_add_memory_correct [OF empty_mm_inv, where start = "0x1000" and fin = "0x3000"] two_pages_add
  by (auto simp: empty_mm_def)

text \<open>C1: An allocation never fails an assertion.  It returns null and changes nothing, or a block
  that is large enough, disjoint from every block handed out before, zero throughout, and
  accounted for; null only when no free block is large enough or too few pages are available.\<close>

theorem phys_alloc_correct:
  assumes "buddy_inv dm h F A"
  shows "\<exists>p h'. phys_alloc dm sz h = Some (p, h') \<and>
    (if p = 0 then h' = h \<and> (sz > PHYS_BUDDY_MAX_SIZE \<or>
       (\<exists>l<16. get_level_by_size sz = int l \<and> ((\<forall>k. l \<le> k \<and> k < 16 \<longrightarrow> F k = []) \<or>
         (\<exists>k<16. l \<le> k \<and> unat (m_available_pages h) < cost l k))))
     else \<exists>l F'. unat sz \<le> 2 ^ (l + 6) \<and> buddy_inv dm h' F' (insert (p, l) A) \<and> zero_blk h' (p, l) \<and>
       cover F' \<union> blk (p, l) = cover F \<and>
       (\<forall>b\<in>A. blk b \<inter> blk (p, l) = {}))"
proof (cases "sz > PHYS_BUDDY_MAX_SIZE")
  case True
  then show ?thesis by (simp add: phys_alloc_def get_level_by_size_def)
next
  case False
  then obtain l where l: "l < 16" "get_level_by_size sz = int l" "unat sz \<le> 2 ^ (l + 6)"
    using level_of_size [of sz] by auto
  have run: "phys_alloc dm sz h = phys_alloc_internal dm l False h"
    by (simp add: phys_alloc_def l)
  have dj: "\<forall>b\<in>A. blk b \<inter> blk (p, l) = {}" if "buddy_inv dm h' F' (insert (p, l) A)" "(p, l) \<notin> A" for p h' F'
  proof -
    have "wf_blocks (fset F' \<union> insert (p, l) A)"
      using that(1) core_facts(2) unfolding buddy_inv_def by blast
    then have "wf_blocks (insert (p, l) A)" by (rule wf_blocks_mono) blast
    with that(2) show ?thesis by (auto simp: wf_insert)
  qed
  from phys_alloc_internal_ok [OF assms l(1), of False] consider
      (null) "phys_alloc_internal dm l False h = Some (0, h)"
        "(\<forall>k. l \<le> k \<and> k < 16 \<longrightarrow> F k = []) \<or> (\<exists>k<16. l \<le> k \<and> unat (m_available_pages h) < cost l k)"
    | (block) p h' F' where "phys_alloc_internal dm l False h = Some (p, h')" "p \<noteq> 0" "(p, l) \<notin> A"
        "zero_blk h' (p, l)" "buddy_inv dm h' F' (insert (p, l) A)"
        "cover F' \<union> blk (p, l) = cover F"
    by (auto split: if_splits)
  then show ?thesis
  proof cases
    case null
    then show ?thesis unfolding run using l by auto
  next
    case block
    then show ?thesis unfolding run using l(3) dj [OF block(5,3)]
      by (intro exI [of _ p] exI [of _ h']) auto
  qed
qed

lemma phys_alloc_witness:
  "\<exists>p h'. phys_alloc 0 0x1000 two_pages_mm = Some (p, h')"
proof -
  obtain F where "buddy_inv 0 two_pages_mm F {}" using two_pages_inv by blast
  from phys_alloc_correct [OF this, of "0x1000"] show ?thesis by blast
qed

text \<open>C22: A page that was reserved can always be allocated.\<close>

theorem phys_alloc_reserved_page:
  assumes "buddy_inv dm h F A" "0 < m_reserved_pages h"
  shows "\<exists>p h' F'. phys_alloc_reserved dm PAGE_SIZE h = Some (p, h') \<and> p \<noteq> 0 \<and>
    buddy_inv dm h' F' (insert (p, 6) A) \<and> zero_blk h' (p, 6) \<and> (p, 6) \<notin> A"
proof -
  have "get_page_level_by_size PAGE_SIZE = 6" by (rule page_level)
  then have run: "phys_alloc_reserved dm PAGE_SIZE h = phys_alloc_internal dm 6 True h"
    by (simp add: phys_alloc_reserved_def Let_def)
  have "1 \<le> unat (m_reserved_pages h)"
    using assms(2) by (simp add: word_less_nat_alt)
  with phys_alloc_internal_ok [OF assms(1), of 6 True] show ?thesis
    unfolding run by auto
qed

lemma phys_alloc_reserved_page_witness:
  "\<exists>p h'. phys_alloc_reserved 0 PAGE_SIZE reserved_page_mm = Some (p, h') \<and> p \<noteq> 0"
proof -
  obtain F where "buddy_inv 0 two_pages_mm F {}" "m_available_pages two_pages_mm = 2"
    "m_reserved_pages two_pages_mm = 0" using two_pages_inv by blast
  with reserve_inv [of 0 two_pages_mm F "{}" 1] have "buddy_inv 0 reserved_page_mm F {}"
    "unat (m_reserved_pages reserved_page_mm) = 1"
    by (simp_all add: reserved_page_mm_def)
  with phys_alloc_reserved_page [of 0 reserved_page_mm F "{}"] show ?thesis
    by (auto simp: word_less_nat_alt)
qed

text \<open>C2: Freeing a block that was handed out never fails an assertion; its addresses are free
  again, everything else stays as it was; and a second free of it is caught.\<close>

theorem phys_free_correct:
  assumes "buddy_inv dm h F A" "(p, l) \<in> A" "get_level_by_size sz = int l"
  shows "\<exists>h' F'. phys_free dm p sz h = Some h' \<and> buddy_inv dm h' F' (A - {(p, l)}) \<and>
    cover F' = cover F \<union> blk (p, l) \<and> phys_free dm p sz h' = None"
proof -
  have core: "buddy_core dm h F A" using assms(1) by (simp add: buddy_inv_def)
  have p: "p \<noteq> 0" using wf_block [OF core_facts(2) [OF core], of p l] assms(2) by simp
  then have run: "phys_free dm p sz x = phys_free_block dm p l False x" for x
    by (simp add: phys_free_def assms(3))
  obtain h' F' where h': "phys_free_block dm p l False h = Some h'" "buddy_inv dm h' F' (A - {(p, l)})"
    "cover F' = cover F \<union> blk (p, l)" "buddy_is_block_free dm h' p"
    using phys_free_block_ok [OF assms(1,2), of False] by blast
  have "phys_free_block dm p l False h' = None"
    using h'(4) by (rule free_twice) (use h'(2) in \<open>simp add: buddy_inv_def\<close>)
  with h' show ?thesis unfolding run by blast
qed

lemma level_of_page: "get_level_by_size 0x1000 = int 6"
proof -
  obtain l where l: "get_level_by_size 0x1000 = int l" "(4096 :: nat) \<le> 2 ^ (l + 6)"
    "\<forall>k<l. (2 :: nat) ^ (k + 6) < 4096"
    using level_of_size [of "0x1000"] by (auto simp: PHYS_BUDDY_MAX_SIZE_def PHYS_BUDDY_MAX_LEVEL_def PHYS_BUDDY_MIN_ORDER_def split: if_splits)
  have "\<not> l < 6" using l(2) power_strict_increasing [of "l + 6" 12 "2 :: nat"] by auto
  moreover have "\<not> 6 < l" using l(3) [rule_format, of 6] by auto
  ultimately show ?thesis using l(1) by simp
qed

lemma phys_free_witness:
  "\<exists>p h h'. phys_free 0 p 0x1000 h = Some h' \<and> phys_free 0 p 0x1000 h' = None"
proof -
  obtain F where "buddy_inv 0 two_pages_mm F {}" "m_available_pages two_pages_mm = 2"
    "m_reserved_pages two_pages_mm = 0" using two_pages_inv by blast
  with reserve_inv [of 0 two_pages_mm F "{}" 1] have "buddy_inv 0 reserved_page_mm F {}"
    "unat (m_reserved_pages reserved_page_mm) = 1"
    by (simp_all add: reserved_page_mm_def)
  with phys_alloc_internal_ok [of 0 reserved_page_mm F "{}" 6 True]
  obtain p h F' where "buddy_inv 0 h F' {(p, 6)}" by auto
  from phys_free_correct [OF this, of p 6 "0x1000"] level_of_page show ?thesis by auto
qed

end
