(* ===== verification/Bytes.thy ===== *)
theory Bytes
  imports Mem_Heap
begin

text \<open>
  \<open>src/lib/string.c\<close> on a memory of bytes, loop by loop.  The components above use the effect of
  \<open>memset\<close> on the typed views of memory (\<open>Mem_Heap.memset\<close>); \<open>memset_bytes\<close> shows that on bytes
  the loop has that effect.
\<close>

type_synonym bytes = "ptr \<Rightarrow> u8"

section \<open>The loops\<close>

partial_function (option) memcpy_loop :: "ptr \<Rightarrow> ptr \<Rightarrow> u64 \<Rightarrow> u64 \<Rightarrow> bytes \<Rightarrow> bytes option" where
  "memcpy_loop dst src len pos m =
     (if pos < len then memcpy_loop dst src len (pos + 1) (m(dst + pos := m (src + pos)))
      else Some m)"

definition memcpy :: "ptr \<Rightarrow> ptr \<Rightarrow> u64 \<Rightarrow> bytes \<Rightarrow> (ptr \<times> bytes) option" where
  "memcpy dst src len m = do { m \<leftarrow> memcpy_loop dst src len 0 m; Some (dst, m) }"

partial_function (option) memset_loop :: "ptr \<Rightarrow> u8 \<Rightarrow> u64 \<Rightarrow> bytes \<Rightarrow> bytes option" where
  "memset_loop p b len m =
     (if len \<noteq> 0 then memset_loop (p + 1) b (len - 1) (m(p := b)) else Some m)"

definition memset_b :: "ptr \<Rightarrow> u8 \<Rightarrow> u64 \<Rightarrow> bytes \<Rightarrow> (ptr \<times> bytes) option" where
  "memset_b dst b len m = do { m \<leftarrow> memset_loop dst b len m; Some (dst, m) }"

partial_function (option) memmove_loop ::
    "ptr \<Rightarrow> ptr \<Rightarrow> u64 \<Rightarrow> u64 \<Rightarrow> u64 \<Rightarrow> bytes \<Rightarrow> bytes option" where
  "memmove_loop dst src dir pos len m =
     (if len \<noteq> 0 then
        let pos = pos + dir;
            m = m(dst + pos := m (src + pos))
        in memmove_loop dst src dir pos (len - 1) m
      else Some m)"

definition memmove :: "ptr \<Rightarrow> ptr \<Rightarrow> u64 \<Rightarrow> bytes \<Rightarrow> (ptr \<times> bytes) option" where
  "memmove dst src len m =
     (let pos = len;
          dir = - 1;
          (pos, dir) = (if dst < src then (- 1, 1) else (pos, dir))
      in do { m \<leftarrow> memmove_loop dst src dir pos len m; Some (dst, m) })"

section \<open>What they compute\<close>

text \<open>The bytes \<open>lo\<close> to \<open>hi\<close> of the source, taken before, at the destination; the rest as it was.\<close>

definition copied :: "ptr \<Rightarrow> ptr \<Rightarrow> nat \<Rightarrow> nat \<Rightarrow> bytes \<Rightarrow> bytes" where
  "copied dst src lo hi m =
     (\<lambda>a. if lo \<le> unat (a - dst) \<and> unat (a - dst) < hi then m (src + (a - dst)) else m a)"

lemma copied_none [simp]: "copied dst src lo lo m = m"
proof
  fix a
  have "\<not> (lo \<le> unat (a - dst) \<and> unat (a - dst) < lo)" by linarith
  then show "copied dst src lo lo m a = m a" by (simp only: copied_def if_False)
qed

lemma minus_one_less: "(x :: u64) \<noteq> 0 \<Longrightarrow> n \<noteq> 0 \<Longrightarrow> x - 1 < n - 1 \<longleftrightarrow> x < n"
  using unat_gt_0 [of x] unat_gt_0 [of n] by (auto simp: word_less_nat_alt unat_minus_one)

lemma memset_loop_fill: "memset_loop p b n m = Some (fill p n b m)"
proof (induction "unat n" arbitrary: p n m)
  case 0
  then show ?case by (subst memset_loop.simps) (auto simp: fill_def unat_eq_0 fun_eq_iff)
next
  case (Suc k)
  have n: "n \<noteq> 0" using Suc.hyps(2) by auto
  then have "k = unat (n - 1)" using Suc.hyps(2) by (simp add: unat_minus_one)
  note ih = Suc.hyps(1) [OF this]
  have "fill (p + 1) (n - 1) b (m(p := b)) = fill p n b m"
  proof
    fix a
    have "a \<noteq> p \<Longrightarrow> (a - (p + 1) < n - 1) = (a - p < n)"
      using minus_one_less [of "a - p" n] n by (simp add: diff_diff_eq)
    then show "fill (p + 1) (n - 1) b (m(p := b)) a = fill p n b m a"
      using n by (cases "a = p") (auto simp: fill_def word_gt_0)
  qed
  then show ?case using n ih by (subst memset_loop.simps) simp
qed

text \<open>One byte more, upwards or downwards; what is read has not been written yet.\<close>

lemma unat_of_nat64: "k < 2 ^ 64 \<Longrightarrow> unat (of_nat k :: u64) = k"
  by (simp add: unat_of_nat)

lemma offset_index: "a - dst = of_nat k \<longleftrightarrow> unat (a - dst) = k" if "k < 2 ^ 64" for a dst :: u64
  using unat_of_nat64 [OF that] word_unat_eq_iff [of "a - dst" "of_nat k"] by simp

lemma copied_up:
  assumes "k < 2 ^ 64" "lo \<le> k" "m (src + of_nat k) = m0 (src + of_nat k)" "m = copied dst src lo k m0"
  shows "m(dst + of_nat k := m (src + of_nat k)) = copied dst src lo (Suc k) m0"
proof
  fix a
  have "a = dst + of_nat k \<longleftrightarrow> unat (a - dst) = k"
    using offset_index [OF assms(1), of a dst] by (metis add_diff_cancel_left' diff_add_cancel add.commute)
  moreover have "unat (a - dst) = k \<Longrightarrow> a - dst = of_nat k"
    using offset_index [OF assms(1)] by blast
  ultimately show "(m(dst + of_nat k := m (src + of_nat k))) a = copied dst src lo (Suc k) m0 a"
    using assms(2,3) unfolding assms(4) by (auto simp: copied_def less_Suc_eq)
qed

lemma copied_down:
  assumes "k < 2 ^ 64" "k < hi" "m (src + of_nat k) = m0 (src + of_nat k)" "m = copied dst src (Suc k) hi m0"
  shows "m(dst + of_nat k := m (src + of_nat k)) = copied dst src k hi m0"
proof
  fix a
  have "a = dst + of_nat k \<longleftrightarrow> unat (a - dst) = k"
    using offset_index [OF assms(1), of a dst] by (metis add_diff_cancel_left' diff_add_cancel add.commute)
  moreover have "unat (a - dst) = k \<Longrightarrow> a - dst = of_nat k"
    using offset_index [OF assms(1)] by blast
  ultimately show "(m(dst + of_nat k := m (src + of_nat k))) a = copied dst src k hi m0 a"
    using assms(2,3) unfolding assms(4) by (auto simp: copied_def Suc_le_eq)
qed

lemma unread_up:
  assumes "k < n" "unat dst + n \<le> 2 ^ 64" "unat src + n \<le> 2 ^ 64" "dst \<le> src"
  shows "copied dst src 0 k m (src + of_nat k) = m (src + of_nat k)"
proof -
  have "k < 2 ^ 64" "unat src + k < 2 ^ 64" using assms by auto
  then have "unat (src + of_nat k) = unat src + k"
    by (simp add: unat_word_ariths unat_of_nat64)
  moreover have "dst \<le> src + of_nat k" using assms(4) calculation by (simp add: word_le_nat_alt)
  ultimately have "unat (src + of_nat k - dst) = unat src + k - unat dst"
    by (simp add: unat_sub)
  then have "\<not> unat (src + of_nat k - dst) < k" using assms(4) by (simp add: word_le_nat_alt)
  then show ?thesis by (simp only: copied_def if_False simp_thms)
qed

lemma unread_down:
  assumes "k < n" "unat dst + n \<le> 2 ^ 64" "unat src + n \<le> 2 ^ 64" "src \<le> dst"
  shows "copied dst src (Suc k) n m (src + of_nat k) = m (src + of_nat k)"
proof -
  have k: "k < 2 ^ 64" "unat src + k < 2 ^ 64" using assms by auto
  then have u: "unat (src + of_nat k) = unat src + k"
    by (simp add: unat_word_ariths unat_of_nat64)
  show ?thesis
  proof (cases "dst \<le> src + of_nat k")
    case True
    then have "unat (src + of_nat k - dst) = unat src + k - unat dst"
      using u by (simp add: unat_sub)
    then have "\<not> Suc k \<le> unat (src + of_nat k - dst)" using assms(4) by (simp add: word_le_nat_alt)
    then show ?thesis by (simp only: copied_def if_False simp_thms)
  next
    case False
    then have "unat (src + of_nat k - dst) = 2 ^ 64 + (unat src + k) - unat dst"
      using u by (simp add: unat_sub_if' word_le_nat_alt)
    moreover have "n \<le> 2 ^ 64 + (unat src + k) - unat dst" using assms by simp
    ultimately have "\<not> unat (src + of_nat k - dst) < n" by simp
    then show ?thesis by (simp only: copied_def if_False simp_thms)
  qed
qed

lemma memcpy_loop_copied:
  assumes "j \<le> n" "unat dst + n \<le> 2 ^ 64" "unat src + n \<le> 2 ^ 64" "dst \<le> src" "n < 2 ^ 64"
  shows "memcpy_loop dst src (of_nat n) (of_nat j) (copied dst src 0 j m) = Some (copied dst src 0 n m)"
  using assms(1)
proof (induction "n - j" arbitrary: j)
  case 0
  then show ?case by (subst memcpy_loop.simps) simp
next
  case (Suc k)
  then have j: "j < n" by simp
  then have "(of_nat j :: u64) < of_nat n"
    using assms(5) by (simp add: word_less_nat_alt unat_of_nat64)
  moreover note Suc.hyps(1) [of "Suc j"]
  ultimately show ?case
    using copied_up [OF _ _ unread_up [OF j assms(2,3,4)] refl] j Suc.hyps(2) assms(5)
    by (subst memcpy_loop.simps) (simp add: add.commute)
qed

lemma memmove_loop_up:
  assumes "j \<le> n" "unat dst + n \<le> 2 ^ 64" "unat src + n \<le> 2 ^ 64" "dst \<le> src" "n < 2 ^ 64"
  shows "memmove_loop dst src 1 (of_nat j - 1) (of_nat (n - j)) (copied dst src 0 j m) =
    Some (copied dst src 0 n m)"
  using assms(1)
proof (induction "n - j" arbitrary: j)
  case 0
  then show ?case by (subst memmove_loop.simps) simp
next
  case (Suc k)
  then have j: "j < n" by simp
  have "(of_nat (n - j) :: u64) \<noteq> 0"
    using j assms(5) unat_of_nat64 [of "n - j"] by (metis diff_is_0_eq leD less_imp_diff_less unat_0)
  moreover have "(of_nat (n - j) - 1 :: u64) = of_nat (n - Suc j)"
    using j by (simp add: of_nat_diff)
  moreover have "memmove_loop dst src 1 (of_nat j) (of_nat (n - Suc j)) (copied dst src 0 (Suc j) m) =
      Some (copied dst src 0 n m)"
    using Suc.hyps(1) [of "Suc j"] j Suc.hyps(2) by simp
  moreover have "(copied dst src 0 j m)(dst + of_nat j := copied dst src 0 j m (src + of_nat j)) =
      copied dst src 0 (Suc j) m"
    using j assms(5) by (intro copied_up [OF _ _ unread_up [OF j assms(2,3,4)] refl]) simp_all
  ultimately show ?case
    by (subst memmove_loop.simps) (simp only: Let_def if_True diff_add_cancel simp_thms)
qed

lemma memmove_loop_down:
  assumes "j \<le> n" "unat dst + n \<le> 2 ^ 64" "unat src + n \<le> 2 ^ 64" "src \<le> dst" "n < 2 ^ 64"
  shows "memmove_loop dst src (- 1) (of_nat j) (of_nat j) (copied dst src j n m) =
    Some (copied dst src 0 n m)"
  using assms(1)
proof (induction j)
  case 0
  then show ?case by (subst memmove_loop.simps) simp
next
  case (Suc j)
  then have j: "j < n" by simp
  have "(of_nat (Suc j) :: u64) \<noteq> 0"
    using j assms(5) unat_of_nat64 [of "Suc j"] by (metis Suc_leI le_less_trans nat.distinct(1) unat_0)
  with Suc copied_down [OF _ _ unread_down [OF j assms(2,3,4)] refl] j assms(5) show ?case
    by (subst memmove_loop.simps) (simp add: Let_def)
qed

lemma memmove_ok:
  assumes "unat dst + unat len \<le> 2 ^ 64" "unat src + unat len \<le> 2 ^ 64"
  shows "memmove dst src len m = Some (dst, copied dst src 0 (unat len) m)"
proof -
  have n: "unat len < 2 ^ 64" by (rule order.strict_trans2 [OF unsigned_less]) simp
  show ?thesis
  proof (cases "dst < src")
    case True
    with memmove_loop_up [of 0 "unat len" dst src m] assms n show ?thesis
      by (simp add: memmove_def less_imp_le)
  next
    case False
    with memmove_loop_down [of "unat len" "unat len" dst src m] assms n show ?thesis
      by (simp add: memmove_def)
  qed
qed

section \<open>Properties\<close>

text \<open>C35: memmove copies a range to another that may overlap it: whatever the direction of the
  overlap, the destination ends up with the bytes the source had, and nothing else changes.\<close>

theorem memmove_correct:
  assumes "unat dst + unat len \<le> 2 ^ 64" "unat src + unat len \<le> 2 ^ 64"
  shows "memmove dst src len m =
    Some (dst, \<lambda>a. if unat (a - dst) < unat len then m (src + (a - dst)) else m a)"
  using memmove_ok [OF assms] by (simp add: copied_def)

lemma memmove_witness:
  "memmove 0x1004 0x1000 16 (\<lambda>a. ucast a) =
    Some (0x1004, \<lambda>a. if unat (a - 0x1004) < 16 then ucast (0x1000 + (a - 0x1004)) else ucast a)"
  using memmove_correct [of "0x1004" 16 "0x1000" "\<lambda>a. ucast a"] by simp

text \<open>On bytes, the loop of memset has the effect the memory model gives to memset: exactly the
  range is filled, also when it ends at the top of the address space.\<close>

theorem memset_equiv: "memset_b (p :: ptr) b n (mem8 h) = Some (p, mem8 (memset p b n h))"
  by (simp add: memset_b_def memset_loop_fill memset_def)

end
