(* ===== verification/Lists.thy ===== *)
theory Lists
  imports Mem_Heap
begin

text \<open>
  The circular doubly linked lists of \<open>src/lib/list.h\<close> and \<open>src/lib/list.c\<close>: an entry is the
  address of a \<open>list_entry_t\<close>, its links are \<open>l_next\<close> and \<open>l_prev\<close>, and a list is such an entry
  too, its head.  The checks of \<open>list.c\<close> never return once they fail.  A loop of the
  \<open>list_for_each\<close> family is the function that visits its entries; it may not end, and then it
  is \<open>None\<close>.
\<close>

section \<open>Operations\<close>

definition set_l_next :: "ptr \<Rightarrow> ptr \<Rightarrow> mm \<Rightarrow> mm" where
  "set_l_next p v h = h\<lparr>l_next := (l_next h)(p := v)\<rparr>"

definition set_l_prev :: "ptr \<Rightarrow> ptr \<Rightarrow> mm \<Rightarrow> mm" where
  "set_l_prev p v h = h\<lparr>l_prev := (l_prev h)(p := v)\<rparr>"

definition init_list :: "ptr \<Rightarrow> mm \<Rightarrow> mm" where
  "init_list list h =
     (let h = set_l_next list list h;
          h = set_l_prev list list h
      in h)"

text \<open>\<open>__list_add_valid\<close> and \<open>__list_del_entry_valid\<close>.\<close>

definition list_add_valid :: "ptr \<Rightarrow> ptr \<Rightarrow> ptr \<Rightarrow> mm \<Rightarrow> unit option" where
  "list_add_valid new prev next h = do {
     chk next; chk prev;
     ASSERT (l_prev h next = prev \<and> l_next h prev = next \<and> new \<noteq> prev \<and> new \<noteq> next) }"

definition list_del_entry_valid :: "ptr \<Rightarrow> mm \<Rightarrow> unit option" where
  "list_del_entry_valid entry h = do {
     chk entry;
     let prev = l_prev h entry;
     let next = l_next h entry;
     chk prev; chk next;
     ASSERT (l_next h prev = entry \<and> l_prev h next = entry) }"

text \<open>\<open>__list_add\<close>, \<open>__list_del\<close> and \<open>__list_del_entry\<close>.\<close>

definition list_add_between :: "ptr \<Rightarrow> ptr \<Rightarrow> ptr \<Rightarrow> mm \<Rightarrow> mm option" where
  "list_add_between new prev next h = do {
     list_add_valid new prev next h;
     chk new;
     let h = set_l_prev next new h;
     let h = set_l_next new next h;
     let h = set_l_prev new prev h;
     let h = set_l_next prev new h;
     Some h }"

definition list_add :: "ptr \<Rightarrow> ptr \<Rightarrow> mm \<Rightarrow> mm option" where
  "list_add head new h = do { chk head; list_add_between new head (l_next h head) h }"

definition list_add_tail :: "ptr \<Rightarrow> ptr \<Rightarrow> mm \<Rightarrow> mm option" where
  "list_add_tail head new h = do { chk head; list_add_between new (l_prev h head) head h }"

definition list_del_between :: "ptr \<Rightarrow> ptr \<Rightarrow> mm \<Rightarrow> mm" where
  "list_del_between prev next h =
     (let h = set_l_prev next prev h;
          h = set_l_next prev next h
      in h)"

definition list_del_entry :: "ptr \<Rightarrow> mm \<Rightarrow> mm option" where
  "list_del_entry entry h = do {
     list_del_entry_valid entry h;
     Some (list_del_between (l_prev h entry) (l_next h entry) h) }"

definition list_del :: "ptr \<Rightarrow> mm \<Rightarrow> mm option" where
  "list_del entry h = do {
     h \<leftarrow> list_del_entry entry h;
     let h = set_l_next entry LIST_POISON1 h;
     let h = set_l_prev entry LIST_POISON2 h;
     Some h }"

definition list_is_first :: "mm \<Rightarrow> ptr \<Rightarrow> ptr \<Rightarrow> bool" where
  "list_is_first h list head \<longleftrightarrow> l_prev h list = head"

definition list_is_last :: "mm \<Rightarrow> ptr \<Rightarrow> ptr \<Rightarrow> bool" where
  "list_is_last h list head \<longleftrightarrow> l_next h list = head"

definition list_is_head :: "ptr \<Rightarrow> ptr \<Rightarrow> bool" where
  "list_is_head list head \<longleftrightarrow> list = head"

definition list_empty :: "mm \<Rightarrow> ptr \<Rightarrow> bool" where
  "list_empty h head \<longleftrightarrow> l_next h head = head"

text \<open>The entries, for a member at offset \<open>off\<close> of its struct.\<close>

definition list_entry :: "ptr \<Rightarrow> u64 \<Rightarrow> ptr" where
  "list_entry p off = p - off"

definition list_first_entry :: "mm \<Rightarrow> ptr \<Rightarrow> u64 \<Rightarrow> ptr" where
  "list_first_entry h p off = list_entry (l_next h p) off"

definition list_last_entry :: "mm \<Rightarrow> ptr \<Rightarrow> u64 \<Rightarrow> ptr" where
  "list_last_entry h p off = list_entry (l_prev h p) off"

definition list_first_entry_or_null :: "mm \<Rightarrow> ptr \<Rightarrow> u64 \<Rightarrow> ptr" where
  "list_first_entry_or_null h head off =
     (let pos = l_next h head in if pos \<noteq> head then list_entry pos off else 0)"

definition list_last_entry_or_null :: "mm \<Rightarrow> ptr \<Rightarrow> u64 \<Rightarrow> ptr" where
  "list_last_entry_or_null h head off =
     (let pos = l_prev h head in if pos \<noteq> head then list_entry pos off else 0)"

definition list_next_entry :: "mm \<Rightarrow> ptr \<Rightarrow> u64 \<Rightarrow> ptr" where
  "list_next_entry h pos off = list_entry (l_next h (pos + off)) off"

definition list_prev_entry :: "mm \<Rightarrow> ptr \<Rightarrow> u64 \<Rightarrow> ptr" where
  "list_prev_entry h pos off = list_entry (l_prev h (pos + off)) off"

definition list_next_entry_circular :: "mm \<Rightarrow> ptr \<Rightarrow> ptr \<Rightarrow> u64 \<Rightarrow> ptr" where
  "list_next_entry_circular h pos head off =
     (if list_is_last h (pos + off) head then list_first_entry h head off else list_next_entry h pos off)"

definition list_prev_entry_circular :: "mm \<Rightarrow> ptr \<Rightarrow> ptr \<Rightarrow> u64 \<Rightarrow> ptr" where
  "list_prev_entry_circular h pos head off =
     (if list_is_first h (pos + off) head then list_last_entry h head off else list_prev_entry h pos off)"

definition list_entry_is_head :: "ptr \<Rightarrow> ptr \<Rightarrow> u64 \<Rightarrow> bool" where
  "list_entry_is_head pos head off \<longleftrightarrow> list_is_head (pos + off) head"

section \<open>Loops\<close>

text \<open>The loop of \<open>list_count_nodes\<close>, from \<open>pos\<close> on.\<close>

partial_function (option) list_count_from :: "mm \<Rightarrow> ptr \<Rightarrow> ptr \<Rightarrow> u64 \<Rightarrow> u64 option" where
  "list_count_from h head pos cnt =
     (if list_is_head pos head then Some cnt
      else if pos = 0 then None
      else list_count_from h head (l_next h pos) (cnt + 1))"

definition list_count_nodes :: "mm \<Rightarrow> ptr \<Rightarrow> u64 option" where
  "list_count_nodes h head = (if head = 0 then None else list_count_from h head (l_next h head) 0)"

text \<open>The entries a loop visits: \<open>list_for_each\<close>, its \<open>_prev\<close> and \<open>_continue\<close> forms, and the same
  over the structs.\<close>

partial_function (option) list_visit :: "(ptr \<Rightarrow> ptr) \<Rightarrow> ptr \<Rightarrow> ptr \<Rightarrow> ptr list option" where
  "list_visit step head pos =
     (if list_is_head pos head then Some []
      else if pos = 0 then None
      else do { ps \<leftarrow> list_visit step head (step pos); Some (pos # ps) })"

definition list_for_each :: "mm \<Rightarrow> ptr \<Rightarrow> ptr list option" where
  "list_for_each h head = list_visit (l_next h) head (l_next h head)"

definition list_for_each_continue :: "mm \<Rightarrow> ptr \<Rightarrow> ptr \<Rightarrow> ptr list option" where
  "list_for_each_continue h pos head = list_visit (l_next h) head (l_next h pos)"

definition list_for_each_prev :: "mm \<Rightarrow> ptr \<Rightarrow> ptr list option" where
  "list_for_each_prev h head = list_visit (l_prev h) head (l_prev h head)"

partial_function (option) list_visit_entries ::
    "(ptr \<Rightarrow> ptr) \<Rightarrow> ptr \<Rightarrow> u64 \<Rightarrow> ptr \<Rightarrow> ptr list option" where
  "list_visit_entries step head off pos =
     (if list_entry_is_head pos head off then Some []
      else if pos + off = 0 then None
      else do { ps \<leftarrow> list_visit_entries step head off (step pos); Some (pos # ps) })"

definition list_for_each_entry :: "mm \<Rightarrow> ptr \<Rightarrow> u64 \<Rightarrow> ptr list option" where
  "list_for_each_entry h head off =
     list_visit_entries (\<lambda>pos. list_next_entry h pos off) head off (list_first_entry h head off)"

definition list_for_each_entry_reverse :: "mm \<Rightarrow> ptr \<Rightarrow> u64 \<Rightarrow> ptr list option" where
  "list_for_each_entry_reverse h head off =
     list_visit_entries (\<lambda>pos. list_prev_entry h pos off) head off (list_last_entry h head off)"

definition list_for_each_entry_from :: "mm \<Rightarrow> ptr \<Rightarrow> ptr \<Rightarrow> u64 \<Rightarrow> ptr list option" where
  "list_for_each_entry_from h pos head off =
     list_visit_entries (\<lambda>pos. list_next_entry h pos off) head off pos"

definition list_for_each_entry_continue :: "mm \<Rightarrow> ptr \<Rightarrow> ptr \<Rightarrow> u64 \<Rightarrow> ptr list option" where
  "list_for_each_entry_continue h pos head off =
     list_visit_entries (\<lambda>pos. list_next_entry h pos off) head off (list_next_entry h pos off)"

text \<open>The \<open>_safe\<close> loops read the next entry before the body runs, so the body may delete the
  entry it is given.\<close>

partial_function (option) list_for_each_safe_from ::
    "(ptr \<Rightarrow> mm \<Rightarrow> mm option) \<Rightarrow> ptr \<Rightarrow> ptr \<Rightarrow> ptr \<Rightarrow> mm \<Rightarrow> mm option" where
  "list_for_each_safe_from body head pos n h =
     (if list_is_head pos head then Some h
      else if pos = 0 then None
      else (case body pos h of
              None \<Rightarrow> None
            | Some h \<Rightarrow> list_for_each_safe_from body head n (l_next h n) h))"

definition list_for_each_safe :: "(ptr \<Rightarrow> mm \<Rightarrow> mm option) \<Rightarrow> ptr \<Rightarrow> mm \<Rightarrow> mm option" where
  "list_for_each_safe body head h =
     (let pos = l_next h head; n = l_next h pos in list_for_each_safe_from body head pos n h)"

section \<open>Representation\<close>

text \<open>The links between \<open>p\<close> and \<open>q\<close> go through the entries \<open>xs\<close>, in both directions.\<close>

fun lpath :: "mm \<Rightarrow> ptr \<Rightarrow> ptr list \<Rightarrow> ptr \<Rightarrow> bool" where
  "lpath h p [] q \<longleftrightarrow> l_next h p = q \<and> l_prev h q = p"
| "lpath h p (x # xs) q \<longleftrightarrow> l_next h p = x \<and> l_prev h x = p \<and> lpath h x xs q"

definition dlist :: "mm \<Rightarrow> ptr \<Rightarrow> ptr list \<Rightarrow> bool" where
  "dlist h head xs \<longleftrightarrow> lpath h head xs head \<and> distinct (head # xs) \<and> 0 \<notin> set (head # xs)"

lemma lpath_append: "lpath h p (xs @ x # ys) q \<longleftrightarrow> lpath h p xs x \<and> lpath h x ys q"
  by (induction xs arbitrary: p) auto

lemma lpath_cong:
  "\<lbrakk>\<And>a. a \<in> set (p # xs) \<Longrightarrow> l_next h' a = l_next h a; \<And>a. a \<in> set (xs @ [q]) \<Longrightarrow> l_prev h' a = l_prev h a\<rbrakk>
    \<Longrightarrow> lpath h' p xs q = lpath h p xs q"
  by (induction xs arbitrary: p) auto

lemma lpath_next: "lpath h p xs q \<Longrightarrow> l_next h p = (case xs of [] \<Rightarrow> q | x # _ \<Rightarrow> x)"
  by (cases xs) auto

lemma lpath_prev: "lpath h p xs q \<Longrightarrow> l_prev h q = (if xs = [] then p else last xs)"
  by (induction xs arbitrary: p) auto

lemma dlist_cong:
  "(\<And>a. a \<in> set (head # xs) \<Longrightarrow> l_next h' a = l_next h a \<and> l_prev h' a = l_prev h a)
    \<Longrightarrow> dlist h' head xs = dlist h head xs"
  unfolding dlist_def by (intro conj_cong refl lpath_cong) auto

lemma dlist_head: "dlist h head xs \<Longrightarrow> l_next h head = (case xs of [] \<Rightarrow> head | x # _ \<Rightarrow> x) \<and>
  l_prev h head = (if xs = [] then head else last xs) \<and> head \<noteq> 0"
  using lpath_next lpath_prev by (auto simp: dlist_def)

lemma list_empty_dlist: "dlist h head xs \<Longrightarrow> list_empty h head \<longleftrightarrow> xs = []"
  using dlist_head [of h head xs] by (auto simp: list_empty_def dlist_def split: list.splits)

lemma list_first_dlist: "dlist h head xs \<Longrightarrow>
  list_first_entry_or_null h head 0 = (case xs of [] \<Rightarrow> 0 | x # _ \<Rightarrow> x)"
  using dlist_head [of h head xs]
  by (auto simp: list_first_entry_or_null_def list_entry_def dlist_def split: list.splits)

text \<open>An update of links only.\<close>

definition l_frame :: "ptr set \<Rightarrow> mm \<Rightarrow> mm \<Rightarrow> bool" where
  "l_frame S h h' \<longleftrightarrow> (\<exists>f g. h' = h\<lparr>l_next := f, l_prev := g\<rparr> \<and>
     (\<forall>a. a \<notin> S \<longrightarrow> f a = l_next h a \<and> g a = l_prev h a))"

lemma l_frameD: "l_frame S h h' \<Longrightarrow> a \<notin> S \<Longrightarrow> l_next h' a = l_next h a \<and> l_prev h' a = l_prev h a"
  by (auto simp: l_frame_def)

lemma l_frame_update: "(\<And>a. a \<notin> S \<Longrightarrow> f a = l_next h a \<and> g a = l_prev h a) \<Longrightarrow>
  l_frame S h (h\<lparr>l_next := f, l_prev := g\<rparr>)"
  unfolding l_frame_def by blast

lemma l_frame_rest: "l_frame S h h' \<Longrightarrow> \<exists>f g. h' = h\<lparr>l_next := f, l_prev := g\<rparr>"
  by (auto simp: l_frame_def)

lemma l_frame_mono: "l_frame S h h' \<Longrightarrow> S \<subseteq> T \<Longrightarrow> l_frame T h h'"
  unfolding l_frame_def by blast

lemma l_frame_trans:
  assumes "l_frame S h h1" "l_frame S h1 h2" shows "l_frame S h h2"
proof -
  obtain f g f' g' where "h1 = h\<lparr>l_next := f, l_prev := g\<rparr>" "h2 = h1\<lparr>l_next := f', l_prev := g'\<rparr>"
    "\<forall>a. a \<notin> S \<longrightarrow> f a = l_next h a \<and> g a = l_prev h a" "\<forall>a. a \<notin> S \<longrightarrow> f' a = l_next h1 a \<and> g' a = l_prev h1 a"
    using assms unfolding l_frame_def by blast
  then have "h2 = h\<lparr>l_next := f', l_prev := g'\<rparr>" "\<forall>a. a \<notin> S \<longrightarrow> f' a = l_next h a \<and> g' a = l_prev h a"
    by simp_all
  then show ?thesis unfolding l_frame_def by blast
qed

lemma dlist_frame: "l_frame S h h' \<Longrightarrow> set (head # xs) \<inter> S = {} \<Longrightarrow> dlist h' head xs = dlist h head xs"
  by (intro dlist_cong) (auto dest: l_frameD)

section \<open>Correctness\<close>

lemma init_list_eq: "init_list p h = h\<lparr>l_next := (l_next h)(p := p), l_prev := (l_prev h)(p := p)\<rparr>"
  by (simp add: init_list_def set_l_next_def set_l_prev_def Let_def)

lemma init_list_ok: "head \<noteq> 0 \<Longrightarrow> dlist (init_list head h) head [] \<and> l_frame {head} h (init_list head h)"
  unfolding init_list_eq by (auto simp: dlist_def intro!: l_frame_update)

text \<open>An entry put between two neighbours.\<close>

lemma list_add_between_ok:
  assumes "lpath h p [] q" "new \<noteq> p" "new \<noteq> q" "new \<noteq> 0" "p \<noteq> 0" "q \<noteq> 0"
  shows "\<exists>h'. list_add_between new p q h = Some h' \<and> lpath h' p [new] q \<and> l_frame {p, new, q} h h' \<and>
    (\<forall>a. a \<noteq> p \<and> a \<noteq> new \<longrightarrow> l_next h' a = l_next h a) \<and> (\<forall>a. a \<noteq> q \<and> a \<noteq> new \<longrightarrow> l_prev h' a = l_prev h a)"
proof -
  define h' where "h' = h\<lparr>l_next := (l_next h)(new := q, p := new), l_prev := (l_prev h)(q := new, new := p)\<rparr>"
  have "list_add_between new p q h = Some h'"
    using assms by (simp add: list_add_between_def list_add_valid_def set_l_next_def set_l_prev_def
      Let_def h'_def)
  moreover have "l_frame {p, new, q} h h'"
    unfolding h'_def by (rule l_frame_update) simp
  moreover have "l_next h' = (l_next h)(new := q, p := new)" "l_prev h' = (l_prev h)(q := new, new := p)"
    by (simp_all add: h'_def)
  ultimately show ?thesis using assms by auto
qed

lemma list_add_at:
  assumes d: "dlist h head (xs @ ys)" and new: "new \<notin> set (head # xs @ ys)" "new \<noteq> 0"
    and p: "p = last (head # xs)" and q: "q = hd (ys @ [head])"
  shows "\<exists>h'. list_add_between new p q h = Some h' \<and> dlist h' head (xs @ new # ys) \<and>
    l_frame (insert new (set (head # xs @ ys))) h h'"
proof -
  have all: "lpath h head (xs @ ys) head" "distinct (head # xs @ ys)" "0 \<notin> set (head # xs @ ys)"
    using d unfolding dlist_def by blast+
  have pq: "p \<in> set (head # xs)" "q \<in> set (ys @ [head])"
    unfolding p q using last_in_set [of "head # xs"] hd_in_set [of "ys @ [head]"] by blast+
  obtain xs0 where xs0: "head # xs = xs0 @ [p]"
    unfolding p by (metis append_butlast_last_id list.distinct(1))
  obtain ys0 where ys0: "ys @ [head] = q # ys0"
    unfolding q by (metis list.collapse snoc_eq_iff_butlast)
  have link: "lpath h p [] q"
  proof (cases ys)
    case Nil
    with all lpath_prev [of h head xs head] lpath_next show ?thesis
      unfolding p q by (cases xs rule: rev_cases) (auto simp: lpath_append)
  next
    case (Cons y ys')
    with all show ?thesis
      unfolding p q by (cases xs rule: rev_cases) (auto simp: lpath_append)
  qed
  have ne: "new \<noteq> p" "new \<noteq> q" "p \<noteq> 0" "q \<noteq> 0" using pq new all(3) by auto
  obtain h' where h': "list_add_between new p q h = Some h'" "lpath h' p [new] q"
    "l_frame {p, new, q} h h'" "\<And>a. a \<noteq> p \<Longrightarrow> a \<noteq> new \<Longrightarrow> l_next h' a = l_next h a"
    "\<And>a. a \<noteq> q \<Longrightarrow> a \<noteq> new \<Longrightarrow> l_prev h' a = l_prev h a"
    using list_add_between_ok [OF link ne(1,2) new(2) ne(3,4)] by blast
  have "lpath h' head xs new"
  proof (cases xs rule: rev_cases)
    case Nil
    then show ?thesis using h'(2) p by simp
  next
    case (snoc zs z)
    have "lpath h head zs z" using all(1) snoc by (auto simp: lpath_append)
    moreover have "p = z" using p snoc by simp
    moreover have "lpath h' head zs z = lpath h head zs z"
    proof (intro lpath_cong)
      show "l_next h' a = l_next h a" if "a \<in> set (head # zs)" for a
        using that all(2) snoc new \<open>p = z\<close> by (intro h'(4)) auto
      show "l_prev h' a = l_prev h a" if "a \<in> set (zs @ [z])" for a
        using that all(2) snoc new pq(2) by (intro h'(5)) auto
    qed
    ultimately show ?thesis using snoc h'(2) by (auto simp: lpath_append)
  qed
  moreover have "lpath h' new ys head"
  proof (cases ys)
    case Nil
    then show ?thesis using h'(2) q by simp
  next
    case (Cons z zs)
    have "lpath h z zs head" using all(1) Cons by (auto simp: lpath_append)
    moreover have "q = z" using q Cons by simp
    moreover have "lpath h' z zs head = lpath h z zs head"
    proof (intro lpath_cong)
      show "l_next h' a = l_next h a" if "a \<in> set (z # zs)" for a
        using that all(2) Cons new pq(1) by (intro h'(4)) auto
      show "l_prev h' a = l_prev h a" if "a \<in> set (zs @ [head])" for a
        using that all(2) Cons new \<open>q = z\<close> by (intro h'(5)) auto
    qed
    ultimately show ?thesis using Cons h'(2) by auto
  qed
  ultimately have "dlist h' head (xs @ new # ys)"
    using all(2,3) new by (auto simp: dlist_def lpath_append)
  moreover have "l_frame (insert new (set (head # xs @ ys))) h h'"
    by (rule l_frame_mono [OF h'(3)]) (use pq in auto)
  ultimately show ?thesis using h'(1) by blast
qed

lemma list_add_ok:
  assumes "dlist h head xs" "new \<notin> set (head # xs)" "new \<noteq> 0"
  shows "\<exists>h'. list_add head new h = Some h' \<and> dlist h' head (new # xs) \<and>
    l_frame (insert new (set (head # xs))) h h'"
proof -
  have "l_next h head = hd (xs @ [head])" "head \<noteq> 0"
    using dlist_head [OF assms(1)] by (auto split: list.splits)
  with list_add_at [of h head "[]" xs new head "hd (xs @ [head])"] assms show ?thesis
    by (auto simp: list_add_def)
qed

lemma list_add_tail_ok:
  assumes "dlist h head xs" "new \<notin> set (head # xs)" "new \<noteq> 0"
  shows "\<exists>h'. list_add_tail head new h = Some h' \<and> dlist h' head (xs @ [new]) \<and>
    l_frame (insert new (set (head # xs))) h h'"
proof -
  have "l_prev h head = last (head # xs)" "head \<noteq> 0"
    using dlist_head [OF assms(1)] by auto
  with list_add_at [of h head xs "[]" new "last (head # xs)" head] assms show ?thesis
    by (auto simp: list_add_tail_def)
qed

lemma list_del_ok:
  assumes d: "dlist h head (xs @ x # ys)"
  shows "\<exists>h'. list_del x h = Some h' \<and> dlist h' head (xs @ ys) \<and>
    l_frame (set (head # xs @ x # ys)) h h'"
proof -
  have all: "lpath h head xs x" "lpath h x ys head" "distinct (head # xs @ x # ys)"
    "0 \<notin> set (head # xs @ x # ys)"
    using d unfolding dlist_def lpath_append by blast+
  define p where "p = l_prev h x"
  define q where "q = l_next h x"
  have p: "p = last (head # xs)" unfolding p_def using lpath_prev [OF all(1)] by auto
  have q: "q = hd (ys @ [head])" unfolding q_def using lpath_next [OF all(2)] by (auto split: list.splits)
  have np: "l_next h p = x" using all(1) unfolding p
    by (cases xs rule: rev_cases) (auto simp: lpath_append)
  have pq: "l_prev h q = x" using all(2) unfolding q by (cases ys) auto
  have ne: "p \<noteq> 0" "q \<noteq> 0" "x \<noteq> 0" "p \<noteq> x" "q \<noteq> x"
    using all(3,4) last_in_set [of "head # xs"] hd_in_set [of "ys @ [head]"] unfolding p q by auto
  define h' where "h' = h\<lparr>l_next := (l_next h)(p := q, x := LIST_POISON1),
    l_prev := (l_prev h)(q := p, x := LIST_POISON2)\<rparr>"
  have run: "list_del x h = Some h'"
    using np pq ne unfolding list_del_def list_del_entry_def list_del_entry_valid_def
      list_del_between_def set_l_next_def set_l_prev_def h'_def p_def q_def
    by (simp add: Let_def)
  have nx: "a \<noteq> p \<Longrightarrow> a \<noteq> x \<Longrightarrow> l_next h' a = l_next h a" and pv: "a \<noteq> q \<Longrightarrow> a \<noteq> x \<Longrightarrow> l_prev h' a = l_prev h a"
    and pq': "l_next h' p = q" "l_prev h' q = p" for a
    using ne by (simp_all add: h'_def)
  have "dlist h' head (xs @ ys)"
  proof (cases xs rule: rev_cases)
    case Nil
    then have p: "p = head" using p by simp
    show ?thesis
    proof (cases ys)
      case Nil
      with \<open>xs = []\<close> show ?thesis using q p pq' all(4) by (simp add: dlist_def)
    next
      case (Cons z zs)
      then have "lpath h' z zs head = lpath h z zs head"
        using all(3) p q \<open>xs = []\<close> by (intro lpath_cong) (auto intro!: nx pv)
      with \<open>xs = []\<close> Cons q p pq' all show ?thesis by (simp add: dlist_def)
    qed
  next
    case (snoc zs z)
    then have p: "p = z" using p by simp
    have "q \<notin> set (zs @ [z])" using q all(3) snoc hd_in_set [of "ys @ [head]"] by auto
    then have l: "lpath h' head zs z = lpath h head zs z"
      using all(3) p snoc by (intro lpath_cong) (auto intro!: nx pv)
    show ?thesis
    proof (cases ys)
      case Nil
      with l snoc q p pq' all show ?thesis by (auto simp: dlist_def lpath_append)
    next
      case (Cons w ws)
      then have "lpath h' w ws head = lpath h w ws head"
        using all(3) p q snoc by (intro lpath_cong) (auto intro!: nx pv)
      with l snoc Cons q p pq' all show ?thesis by (auto simp: dlist_def lpath_append)
    qed
  qed
  moreover have "l_frame (set (head # xs @ x # ys)) h h'"
  proof -
    have "p \<in> set (head # xs)" "q \<in> set (ys @ [head])"
      unfolding p q using last_in_set [of "head # xs"] hd_in_set [of "ys @ [head]"] by blast+
    then have S: "{p, q, x} \<subseteq> set (head # xs @ x # ys)" by auto
    have "l_frame {p, q, x} h h'" unfolding h'_def by (rule l_frame_update) simp
    then show ?thesis using S by (rule l_frame_mono)
  qed
  ultimately show ?thesis using run by blast
qed

lemma list_visit_path:
  "lpath h p xs head \<Longrightarrow> distinct (head # xs) \<Longrightarrow> 0 \<notin> set xs \<Longrightarrow>
    list_visit (l_next h) head (l_next h p) = Some xs"
proof (induction xs arbitrary: p)
  case Nil
  then show ?case by (subst list_visit.simps) (simp add: list_is_head_def)
next
  case (Cons x xs)
  then have "list_visit (l_next h) head (l_next h x) = Some xs" by simp
  with Cons.prems show ?case by (subst list_visit.simps) (auto simp: list_is_head_def)
qed

lemma list_count_path:
  "lpath h p xs head \<Longrightarrow> distinct (head # xs) \<Longrightarrow> 0 \<notin> set xs \<Longrightarrow>
    list_count_from h head (l_next h p) n = Some (n + of_nat (length xs))"
proof (induction xs arbitrary: p n)
  case Nil
  then show ?case by (subst list_count_from.simps) (simp add: list_is_head_def)
next
  case (Cons x xs)
  then have "list_count_from h head (l_next h x) (n + 1) = Some (n + 1 + of_nat (length xs))" by simp
  with Cons.prems show ?case by (subst list_count_from.simps) (auto simp: list_is_head_def add_ac)
qed

end
