(* ===== verification/Virt.thy ===== *)
theory Virt
  imports Phys
begin

text \<open>
  Page tables, \<open>src/mem/virt.c\<close>.  The tables are the words \<open>mem64\<close> of the memory record, at the
  addresses of the direct map.  The arguments \<open>dm\<close> and \<open>uend\<close> are \<open>g_direct_map.base\<close> and
  \<open>vmar_end(&g_user_region)\<close>, which boot has fixed.  The page fault handler, which needs the vmars,
  is in \<open>Stacks\<close>.
\<close>

section \<open>Walking the tables\<close>

definition virt_is_user_address :: "u64 \<Rightarrow> ptr \<Rightarrow> bool" where
  "virt_is_user_address uend addr \<longleftrightarrow> addr \<le> uend"

definition store64 :: "ptr \<Rightarrow> u64 \<Rightarrow> mm \<Rightarrow> mm" where
  "store64 p v h = h\<lparr>mem64 := (mem64 h)(p := v)\<rparr>"

text \<open>The compare-exchange of a new table into an entry.  \<open>value\<close> is the word read before.\<close>

definition virt_get_next_level :: "u64 \<Rightarrow> ptr \<Rightarrow> bool \<Rightarrow> bool \<Rightarrow> mm \<Rightarrow> (ptr \<times> mm) option" where
  "virt_get_next_level dm entry alloc user h = do {
     chk entry;
     let value = mem64 h entry;
     (null, value, h) \<leftarrow>
       (if value AND IA32_PG_P = 0 then do {
          ASSERT alloc;
          (phys, h) \<leftarrow> phys_alloc dm PAGE_SIZE h;
          if phys = 0 then Some (True, value, h)
          else do {
            let new_entry = direct_to_phys dm phys OR IA32_PG_P;
            let new_entry = new_entry OR IA32_PG_RW;
            let new_entry = (if user then new_entry OR IA32_PG_U else new_entry);
            if mem64 h entry = value then Some (False, new_entry, store64 entry new_entry h)
            else do {
              let value = mem64 h entry;
              h \<leftarrow> phys_free dm phys PAGE_SIZE h;
              Some (False, value, h) } } }
        else Some (False, value, h));
     if null then Some (0, h)
     else do {
       ASSERT (value AND IA32_PG_P \<noteq> 0);
       Some (phys_to_direct dm (value AND PAGING_4K_ADDRESS_MASK), h) } }"

definition virt_index :: "ptr \<Rightarrow> nat \<Rightarrow> u64" where
  "virt_index virt i = drop_bit (PAGING_INDEX_BITS * i + PAGE_SHIFT) virt AND PAGING_INDEX_MASK"

text \<open>The loop of \<open>virt_get_pte\<close>, from level \<open>i\<close> down.  A null result is one of
  \<open>virt_get_next_level\<close>.\<close>

fun virt_walk :: "u64 \<Rightarrow> bool \<Rightarrow> bool \<Rightarrow> ptr \<Rightarrow> nat \<Rightarrow> ptr \<Rightarrow> mm \<Rightarrow> (ptr \<times> mm) option" where
  "virt_walk dm alloc user virt 0 table h = Some (table + 8 * virt_index virt 0, h)"
| "virt_walk dm alloc user virt (Suc i) table h =
     (case virt_get_next_level dm (table + 8 * virt_index virt (Suc i)) alloc user h of
        None \<Rightarrow> None
      | Some (table, h) \<Rightarrow>
          if table = 0 then Some (0, h) else virt_walk dm alloc user virt i table h)"

definition virt_get_pte :: "u64 \<Rightarrow> u64 \<Rightarrow> ptr \<Rightarrow> bool \<Rightarrow> mm \<Rightarrow> (ptr \<times> mm) option" where
  "virt_get_pte dm uend virt alloc h =
     (let table = g_page_table h;
          user = virt_is_user_address uend virt
      in case g_page_table_levels h of
           0 \<Rightarrow> None
         | Suc i \<Rightarrow> virt_walk dm alloc user virt i table h)"

section \<open>Operations on a range\<close>

text \<open>Each \<open>for\<close> loop over the pages of a range is a function of the pages that are left; the
  page itself is at \<open>base + i * PAGE_SIZE\<close>.\<close>

definition virt_page :: "ptr \<Rightarrow> u64 \<Rightarrow> nat \<Rightarrow> ptr" where
  "virt_page base page_count k = base + (page_count - of_nat k) * PAGE_SIZE"

definition virt_make_global_page :: "u64 \<Rightarrow> u64 \<Rightarrow> ptr \<Rightarrow> mm \<Rightarrow> mm option" where
  "virt_make_global_page dm uend addr h = do {
     (pte, h) \<leftarrow> virt_get_pte dm uend addr False h;
     ASSERT (pte \<noteq> 0);
     let value = mem64 h pte;
     Some (if value AND IA32_PG_P \<noteq> 0 then store64 pte (value OR IA32_PG_G) h else h) }"

fun virt_pages :: "(ptr \<Rightarrow> mm \<Rightarrow> mm option) \<Rightarrow> ptr \<Rightarrow> u64 \<Rightarrow> nat \<Rightarrow> mm \<Rightarrow> mm option" where
  "virt_pages f base page_count 0 h = Some h"
| "virt_pages f base page_count (Suc k) h =
     (case f (virt_page base page_count (Suc k)) h of
        None \<Rightarrow> None
      | Some h \<Rightarrow> virt_pages f base page_count k h)"

definition virt_make_global :: "u64 \<Rightarrow> u64 \<Rightarrow> ptr \<Rightarrow> u64 \<Rightarrow> mm \<Rightarrow> mm option" where
  "virt_make_global dm uend base page_count h =
     virt_pages (virt_make_global_page dm uend) base page_count (unat page_count) h"

text \<open>The loop of \<open>virt_reserve_page_tables\<close> stops at the first page it cannot serve.\<close>

fun virt_reserve_loop :: "u64 \<Rightarrow> u64 \<Rightarrow> ptr \<Rightarrow> u64 \<Rightarrow> nat \<Rightarrow> mm \<Rightarrow> (err \<times> mm) option" where
  "virt_reserve_loop dm uend base page_count 0 h = Some (SUCCESS, h)"
| "virt_reserve_loop dm uend base page_count (Suc k) h =
     (case virt_get_pte dm uend (virt_page base page_count (Suc k)) True h of
        None \<Rightarrow> None
      | Some (pte, h) \<Rightarrow>
          if pte = 0 then Some (OUT_OF_RESOURCES, h)
          else virt_reserve_loop dm uend base page_count k h)"

definition virt_reserve_page_tables :: "u64 \<Rightarrow> u64 \<Rightarrow> ptr \<Rightarrow> u64 \<Rightarrow> mm \<Rightarrow> (err \<times> mm) option" where
  "virt_reserve_page_tables dm uend base page_count h = do {
     let (err, h) = mem_acct_reserve page_count h;
     if IS_ERROR err then Some (err, h)
     else do {
       (err, h) \<leftarrow> virt_reserve_loop dm uend base page_count (unat page_count) h;
       if IS_ERROR err then do { h \<leftarrow> mem_acct_unreserve page_count h; Some (err, h) }
       else Some (err, h) } }"

definition virt_populate_page :: "u64 \<Rightarrow> u64 \<Rightarrow> bool \<Rightarrow> bool \<Rightarrow> ptr \<Rightarrow> mm \<Rightarrow> mm option" where
  "virt_populate_page dm uend user global addr h = do {
     (pte, h) \<leftarrow> virt_get_pte dm uend addr False h;
     ASSERT (pte \<noteq> 0);
     let value = mem64 h pte;
     if value AND IA32_PG_P \<noteq> 0 then Some h
     else do {
       (phys, h) \<leftarrow> phys_alloc_reserved dm PAGE_SIZE h;
       ASSERT (phys \<noteq> 0);
       let entry = direct_to_phys dm phys OR IA32_PG_P OR IA32_PG_A;
       let entry = entry OR (IA32_PG_RW OR IA32_PG_D);
       let entry = entry OR IA32_PG_NX;
       let entry = (if global then entry OR IA32_PG_G else entry);
       let entry = (if user then entry OR IA32_PG_U else entry);
       Some (store64 pte entry h) } }"

definition virt_populate :: "u64 \<Rightarrow> u64 \<Rightarrow> ptr \<Rightarrow> u64 \<Rightarrow> bool \<Rightarrow> mm \<Rightarrow> mm option" where
  "virt_populate dm uend base page_count global h =
     (let user = virt_is_user_address uend base
      in virt_pages (virt_populate_page dm uend user global) base page_count (unat page_count) h)"

text \<open>The two passes of \<open>virt_free\<close>: the first leaves only the address in each entry (and would
  flush the TLB), counting the pages that were never populated; the second frees.\<close>

fun virt_free_invalidate :: "u64 \<Rightarrow> u64 \<Rightarrow> ptr \<Rightarrow> u64 \<Rightarrow> nat \<Rightarrow> u64 \<Rightarrow> mm \<Rightarrow> (u64 \<times> mm) option" where
  "virt_free_invalidate dm uend base page_count 0 early_unreserve h = Some (early_unreserve, h)"
| "virt_free_invalidate dm uend base page_count (Suc k) early_unreserve h =
     (case virt_get_pte dm uend (virt_page base page_count (Suc k)) False h of
        None \<Rightarrow> None
      | Some (pte, h) \<Rightarrow>
          let value = mem64 h pte in
          if pte = 0 \<or> value AND IA32_PG_G \<noteq> 0 then None
          else if value \<noteq> 0 then
            let address = value AND PAGING_4K_ADDRESS_MASK
            in virt_free_invalidate dm uend base page_count k early_unreserve (store64 pte address h)
          else virt_free_invalidate dm uend base page_count k (early_unreserve + 1) h)"

definition virt_free_page :: "u64 \<Rightarrow> u64 \<Rightarrow> ptr \<Rightarrow> mm \<Rightarrow> mm option" where
  "virt_free_page dm uend addr h = do {
     (pte, h) \<leftarrow> virt_get_pte dm uend addr False h;
     chk pte;
     let value = mem64 h pte;
     if value \<noteq> 0 then do {
       let address = value AND PAGING_4K_ADDRESS_MASK;
       ASSERT (address = value);
       h \<leftarrow> phys_free dm (phys_to_direct dm address) PAGE_SIZE h;
       Some (store64 pte 0 h) }
     else Some h }"

definition virt_free :: "u64 \<Rightarrow> u64 \<Rightarrow> ptr \<Rightarrow> u64 \<Rightarrow> mm \<Rightarrow> mm option" where
  "virt_free dm uend base page_count h = do {
     (early_unreserve, h) \<leftarrow> virt_free_invalidate dm uend base page_count (unat page_count) 0 h;
     h \<leftarrow> mem_acct_unreserve early_unreserve h;
     virt_pages (virt_free_page dm uend) base page_count (unat page_count) h }"

end
