(* ===== verification/Slab.thy ===== *)
theory Slab
  imports Lists Virt
begin

text \<open>
  The slab allocators, \<open>src/mem/alloc.h\<close> and \<open>src/mem/alloc.c\<close>.  A \<open>mem_alloc_t\<close> and a
  \<open>mem_alloc_slab_t\<close> are addresses; a slab is a page, with its objects behind the header.
\<close>

section \<open>The structs\<close>

record mem_alloc_meta =
  objects_per_slab :: u16
  object_stride :: u16
  object_size :: u16
  object_align :: u16

text \<open>The offsets of the lists in a \<open>mem_alloc_t\<close>, and of the members of a \<open>mem_alloc_slab_t\<close>,
  whose size is 48.  The fields \<open>alloc\<close> and \<open>in_use\<close> are \<open>sl_alloc\<close> and \<open>sl_in_use\<close> of the
  memory record.\<close>

definition al_partial :: "ptr \<Rightarrow> ptr" where "al_partial alloc = alloc + 8"
definition al_full :: "ptr \<Rightarrow> ptr" where "al_full alloc = alloc + 24"
definition al_empty :: "ptr \<Rightarrow> ptr" where "al_empty alloc = alloc + 40"
definition slab_link :: "ptr \<Rightarrow> ptr" where "slab_link slab = slab"
definition slab_free :: "ptr \<Rightarrow> ptr" where "slab_free slab = slab + 16"
definition sizeof_slab :: u64 where "sizeof_slab = 48"

text \<open>\<open>DEFINE_ALLOC(type)\<close> for a type of the given size and alignment: the metadata, which exists
  only when the static assertions hold, and the initial value of the allocator.\<close>

definition alloc_meta :: "u64 \<Rightarrow> u64 \<Rightarrow> mem_alloc_meta option" where
  "alloc_meta sz align = do {
     ASSERT (16 \<le> sz); ASSERT (sz \<le> 0xFFFF); ASSERT (align \<le> 0xFFFF);
     let stride = ALIGN_UP (if 8 > sz then 8 else sz) align;
     ASSERT (stride \<le> 0xFFFF); ASSERT (sz \<le> stride);
     let objects = (PAGE_SIZE - ALIGN_UP sizeof_slab align) div stride;
     ASSERT (1 \<le> objects); ASSERT (objects \<le> 0xFFFF);
     Some \<lparr>objects_per_slab = ucast objects, object_stride = ucast stride,
       object_size = ucast sz, object_align = ucast align\<rparr> }"

definition alloc_init :: "ptr \<Rightarrow> mm \<Rightarrow> mm" where
  "alloc_init alloc h =
     (let h = h\<lparr>al_lock := (al_lock h)(alloc := 0)\<rparr>;
          h = init_list (al_partial alloc) h;
          h = init_list (al_full alloc) h;
          h = init_list (al_empty alloc) h
      in h)"

section \<open>Operations\<close>

definition object_to_slab :: "ptr \<Rightarrow> ptr" where
  "object_to_slab p = ALIGN_DOWN p PAGE_SIZE"

definition al_mutex_lock :: "ptr \<Rightarrow> mm \<Rightarrow> mm option" where
  "al_mutex_lock alloc h = do {
     chk alloc; l \<leftarrow> mutex_lock (al_lock h alloc); Some (h\<lparr>al_lock := (al_lock h)(alloc := l)\<rparr>) }"

definition al_mutex_unlock :: "ptr \<Rightarrow> mm \<Rightarrow> mm option" where
  "al_mutex_unlock alloc h = do {
     l \<leftarrow> mutex_unlock (al_lock h alloc); Some (h\<lparr>al_lock := (al_lock h)(alloc := l)\<rparr>) }"

text \<open>The loop of \<open>slab_create\<close> that puts the objects on the free list, from object \<open>i\<close> on with
  \<open>k\<close> left.\<close>

fun slab_link_objects :: "mem_alloc_meta \<Rightarrow> ptr \<Rightarrow> ptr \<Rightarrow> nat \<Rightarrow> nat \<Rightarrow> mm \<Rightarrow> mm option" where
  "slab_link_objects meta slab area i 0 h = Some h"
| "slab_link_objects meta slab area i (Suc k) h =
     (let node = area + ucast (object_stride meta) * of_nat i in
      case list_add (slab_free slab) node h of
        None \<Rightarrow> None
      | Some h \<Rightarrow>
          let h = memset (node + ucast (object_size meta)) 0xBB
                    (ucast (object_stride meta) - ucast (object_size meta)) h
          in slab_link_objects meta slab area (Suc i) k h)"

definition slab_create :: "u64 \<Rightarrow> u64 \<Rightarrow> ptr \<Rightarrow> mem_alloc_meta \<Rightarrow> mm \<Rightarrow> (ptr \<times> mm) option" where
  "slab_create dm uend alloc meta h = do {
     (slab, h) \<leftarrow> phys_alloc dm PAGE_SIZE h;
     if slab = 0 then Some (0, h)
     else do {
       h \<leftarrow> virt_make_global dm uend slab 1 h;
       let h = h\<lparr>sl_alloc := (sl_alloc h)(slab := alloc)\<rparr>;
       let h = init_list (slab_free slab) h;
       let area = slab + ALIGN_UP sizeof_slab (ucast (object_align meta));
       h \<leftarrow> slab_link_objects meta slab area 0 (unat (objects_per_slab meta)) h;
       Some (slab, h) } }"

text \<open>The choice of the slab in \<open>mem_alloc\<close>; null when a new one was needed and there is no
  memory.\<close>

definition slab_choose :: "u64 \<Rightarrow> u64 \<Rightarrow> ptr \<Rightarrow> mem_alloc_meta \<Rightarrow> mm \<Rightarrow> (ptr \<times> mm) option" where
  "slab_choose dm uend alloc meta h =
     (if \<not> list_empty h (al_partial alloc) then
        Some (list_first_entry h (al_partial alloc) 0, h)
      else if \<not> list_empty h (al_empty alloc) then do {
        let slab = list_first_entry h (al_empty alloc) 0;
        h \<leftarrow> list_del (slab_link slab) h;
        h \<leftarrow> list_add (al_partial alloc) (slab_link slab) h;
        Some (slab, h) }
      else do {
        (slab, h) \<leftarrow> slab_create dm uend alloc meta h;
        if slab = 0 then Some (0, h)
        else do {
          h \<leftarrow> list_add (al_partial alloc) (slab_link slab) h;
          Some (slab, h) } })"

text \<open>The rest of \<open>mem_alloc\<close>: an object off the free list of the slab.\<close>

definition slab_take :: "ptr \<Rightarrow> mem_alloc_meta \<Rightarrow> ptr \<Rightarrow> mm \<Rightarrow> (ptr \<times> mm) option" where
  "slab_take alloc meta slab h = do {
     ASSERT (\<not> list_empty h (slab_free slab));
     let object = l_next h (slab_free slab);
     h \<leftarrow> list_del object h;
     let h = set_l_next object 0 (set_l_prev object 0 h);
     let h = h\<lparr>sl_in_use := (sl_in_use h)(slab := sl_in_use h slab + 1)\<rparr>;
     h \<leftarrow> (if sl_in_use h slab = objects_per_slab meta then do {
             h \<leftarrow> list_del (slab_link slab) h;
             list_add (al_full alloc) (slab_link slab) h }
           else Some h);
     Some (object, h) }"

definition mem_alloc :: "u64 \<Rightarrow> u64 \<Rightarrow> ptr \<Rightarrow> mem_alloc_meta \<Rightarrow> mm \<Rightarrow> (ptr \<times> mm) option" where
  "mem_alloc dm uend alloc meta h = do {
     h \<leftarrow> al_mutex_lock alloc h;
     (slab, h) \<leftarrow> slab_choose dm uend alloc meta h;
     if slab = 0 then do { h \<leftarrow> al_mutex_unlock alloc h; Some (0, h) }
     else do {
       (object, h) \<leftarrow> slab_take alloc meta slab h;
       h \<leftarrow> al_mutex_unlock alloc h;
       Some (object, h) } }"

definition mem_free :: "ptr \<Rightarrow> mem_alloc_meta \<Rightarrow> ptr \<Rightarrow> mm \<Rightarrow> mm option" where
  "mem_free alloc meta ptr h =
     (if ptr = 0 then Some h
      else do {
        h \<leftarrow> al_mutex_lock alloc h;
        let slab = object_to_slab ptr;
        ASSERT (sl_alloc h slab = alloc);
        let h = memset ptr 0 (ucast (object_size meta)) h;
        h \<leftarrow> list_add_tail (slab_free slab) ptr h;
        ASSERT (sl_in_use h slab \<noteq> 0);
        let was_full = (sl_in_use h slab = objects_per_slab meta);
        let h = h\<lparr>sl_in_use := (sl_in_use h)(slab := sl_in_use h slab - 1)\<rparr>;
        h \<leftarrow> (if sl_in_use h slab = 0 then do {
                h \<leftarrow> list_del (slab_link slab) h;
                list_add_tail (al_empty alloc) (slab_link slab) h }
              else if was_full then do {
                h \<leftarrow> list_del (slab_link slab) h;
                list_add_tail (al_partial alloc) (slab_link slab) h }
              else Some h);
        al_mutex_unlock alloc h })"

text \<open>\<open>FREE(type, ptr)\<close>.\<close>

definition FREE :: "ptr \<Rightarrow> mem_alloc_meta \<Rightarrow> ptr \<Rightarrow> mm \<Rightarrow> mm option" where
  "FREE alloc meta value h = (if value \<noteq> 0 then mem_free alloc meta value h else Some h)"

end
