(* ===== verification/Rb_Heap.thy ===== *)
theory Rb_Heap
  imports Prelude
begin

text \<open>
  The data of the red-black trees (\<open>src/lib/rbtree/rbtree_types.h\<close>) as a heap: one field of
  the record per struct field, indexed by the address of the struct.  The record is open, so
  the trees' functions work unchanged on a heap that also holds the structs the nodes are
  embedded in.  A \<open>rb_node_t\<close> is the first member of a \<open>rb_node_linked_t\<close> and a
  \<open>rb_root_t\<close> the first of a \<open>rb_root_linked_t\<close>, so the two share an address.

  Below the primitives, the representation of an abstract tree by the heap, split into a
  subtree and the path that leads to it.
\<close>

section \<open>The heap\<close>

record rb_heap =
  rb_pc :: "ptr \<Rightarrow> u64"
  rb_right :: "ptr \<Rightarrow> ptr"
  rb_left :: "ptr \<Rightarrow> ptr"
  ln_prev :: "ptr \<Rightarrow> ptr"
  ln_next :: "ptr \<Rightarrow> ptr"
  rt_node :: "ptr \<Rightarrow> ptr"
  rt_leftmost :: "ptr \<Rightarrow> ptr"

definition set_pc :: "ptr \<Rightarrow> u64 \<Rightarrow> 'z rb_heap_scheme \<Rightarrow> 'z rb_heap_scheme" where
  "set_pc x v h = h\<lparr>rb_pc := (rb_pc h)(x := v)\<rparr>"

definition set_right :: "ptr \<Rightarrow> ptr \<Rightarrow> 'z rb_heap_scheme \<Rightarrow> 'z rb_heap_scheme" where
  "set_right x v h = h\<lparr>rb_right := (rb_right h)(x := v)\<rparr>"

definition set_left :: "ptr \<Rightarrow> ptr \<Rightarrow> 'z rb_heap_scheme \<Rightarrow> 'z rb_heap_scheme" where
  "set_left x v h = h\<lparr>rb_left := (rb_left h)(x := v)\<rparr>"

definition set_prev :: "ptr \<Rightarrow> ptr \<Rightarrow> 'z rb_heap_scheme \<Rightarrow> 'z rb_heap_scheme" where
  "set_prev x v h = h\<lparr>ln_prev := (ln_prev h)(x := v)\<rparr>"

definition set_next :: "ptr \<Rightarrow> ptr \<Rightarrow> 'z rb_heap_scheme \<Rightarrow> 'z rb_heap_scheme" where
  "set_next x v h = h\<lparr>ln_next := (ln_next h)(x := v)\<rparr>"

definition set_root :: "ptr \<Rightarrow> ptr \<Rightarrow> 'z rb_heap_scheme \<Rightarrow> 'z rb_heap_scheme" where
  "set_root x v h = h\<lparr>rt_node := (rt_node h)(x := v)\<rparr>"

definition set_leftmost :: "ptr \<Rightarrow> ptr \<Rightarrow> 'z rb_heap_scheme \<Rightarrow> 'z rb_heap_scheme" where
  "set_leftmost x v h = h\<lparr>rt_leftmost := (rt_leftmost h)(x := v)\<rparr>"

lemma set_pc_sel [simp]:
  "rb_pc (set_pc x v h) = (rb_pc h)(x := v)" "rb_right (set_pc x v h) = rb_right h"
  "rb_left (set_pc x v h) = rb_left h" "ln_prev (set_pc x v h) = ln_prev h"
  "ln_next (set_pc x v h) = ln_next h" "rt_node (set_pc x v h) = rt_node h"
  "rt_leftmost (set_pc x v h) = rt_leftmost h" "rb_heap.more (set_pc x v h) = rb_heap.more h"
  by (simp_all add: set_pc_def)

lemma set_right_sel [simp]:
  "rb_pc (set_right x v h) = rb_pc h" "rb_right (set_right x v h) = (rb_right h)(x := v)"
  "rb_left (set_right x v h) = rb_left h" "ln_prev (set_right x v h) = ln_prev h"
  "ln_next (set_right x v h) = ln_next h" "rt_node (set_right x v h) = rt_node h"
  "rt_leftmost (set_right x v h) = rt_leftmost h"
  "rb_heap.more (set_right x v h) = rb_heap.more h"
  by (simp_all add: set_right_def)

lemma set_left_sel [simp]:
  "rb_pc (set_left x v h) = rb_pc h" "rb_right (set_left x v h) = rb_right h"
  "rb_left (set_left x v h) = (rb_left h)(x := v)" "ln_prev (set_left x v h) = ln_prev h"
  "ln_next (set_left x v h) = ln_next h" "rt_node (set_left x v h) = rt_node h"
  "rt_leftmost (set_left x v h) = rt_leftmost h" "rb_heap.more (set_left x v h) = rb_heap.more h"
  by (simp_all add: set_left_def)

lemma set_prev_sel [simp]:
  "rb_pc (set_prev x v h) = rb_pc h" "rb_right (set_prev x v h) = rb_right h"
  "rb_left (set_prev x v h) = rb_left h" "ln_prev (set_prev x v h) = (ln_prev h)(x := v)"
  "ln_next (set_prev x v h) = ln_next h" "rt_node (set_prev x v h) = rt_node h"
  "rt_leftmost (set_prev x v h) = rt_leftmost h" "rb_heap.more (set_prev x v h) = rb_heap.more h"
  by (simp_all add: set_prev_def)

lemma set_next_sel [simp]:
  "rb_pc (set_next x v h) = rb_pc h" "rb_right (set_next x v h) = rb_right h"
  "rb_left (set_next x v h) = rb_left h" "ln_prev (set_next x v h) = ln_prev h"
  "ln_next (set_next x v h) = (ln_next h)(x := v)" "rt_node (set_next x v h) = rt_node h"
  "rt_leftmost (set_next x v h) = rt_leftmost h" "rb_heap.more (set_next x v h) = rb_heap.more h"
  by (simp_all add: set_next_def)

lemma set_root_sel [simp]:
  "rb_pc (set_root x v h) = rb_pc h" "rb_right (set_root x v h) = rb_right h"
  "rb_left (set_root x v h) = rb_left h" "ln_prev (set_root x v h) = ln_prev h"
  "ln_next (set_root x v h) = ln_next h" "rt_node (set_root x v h) = (rt_node h)(x := v)"
  "rt_leftmost (set_root x v h) = rt_leftmost h" "rb_heap.more (set_root x v h) = rb_heap.more h"
  by (simp_all add: set_root_def)

lemma set_leftmost_sel [simp]:
  "rb_pc (set_leftmost x v h) = rb_pc h" "rb_right (set_leftmost x v h) = rb_right h"
  "rb_left (set_leftmost x v h) = rb_left h" "ln_prev (set_leftmost x v h) = ln_prev h"
  "ln_next (set_leftmost x v h) = ln_next h" "rt_node (set_leftmost x v h) = rt_node h"
  "rt_leftmost (set_leftmost x v h) = (rt_leftmost h)(x := v)"
  "rb_heap.more (set_leftmost x v h) = rb_heap.more h"
  by (simp_all add: set_leftmost_def)

section \<open>Colours and parents, packed in one word\<close>

definition RB_RED :: u64 where "RB_RED = 0"

definition RB_BLACK :: u64 where "RB_BLACK = 1"

definition rb_parent :: "'z rb_heap_scheme \<Rightarrow> ptr \<Rightarrow> ptr" where
  "rb_parent h r = rb_pc h r AND NOT 3"

definition rb_color :: "'z rb_heap_scheme \<Rightarrow> ptr \<Rightarrow> u64" where
  "rb_color h rb = rb_pc h rb AND 1"

definition rb_is_red :: "'z rb_heap_scheme \<Rightarrow> ptr \<Rightarrow> bool" where
  "rb_is_red h rb \<longleftrightarrow> rb_color h rb = 0"

definition rb_is_black :: "'z rb_heap_scheme \<Rightarrow> ptr \<Rightarrow> bool" where
  "rb_is_black h rb \<longleftrightarrow> rb_color h rb \<noteq> 0"

definition rb_set_parent :: "ptr \<Rightarrow> ptr \<Rightarrow> 'z rb_heap_scheme \<Rightarrow> 'z rb_heap_scheme" where
  "rb_set_parent rb p h = set_pc rb (rb_color h rb + p) h"

definition rb_set_parent_color ::
    "ptr \<Rightarrow> ptr \<Rightarrow> u64 \<Rightarrow> 'z rb_heap_scheme \<Rightarrow> 'z rb_heap_scheme" where
  "rb_set_parent_color rb p color h = set_pc rb (p + color) h"

definition rb_set_black :: "ptr \<Rightarrow> 'z rb_heap_scheme \<Rightarrow> 'z rb_heap_scheme" where
  "rb_set_black rb h = set_pc rb (rb_pc h rb + RB_BLACK) h"

definition rb_red_parent :: "'z rb_heap_scheme \<Rightarrow> ptr \<Rightarrow> ptr" where
  "rb_red_parent h red = rb_pc h red"

definition RB_EMPTY_NODE :: "'z rb_heap_scheme \<Rightarrow> ptr \<Rightarrow> bool" where
  "RB_EMPTY_NODE h node \<longleftrightarrow> rb_pc h node = node"

definition RB_CLEAR_NODE :: "ptr \<Rightarrow> 'z rb_heap_scheme \<Rightarrow> 'z rb_heap_scheme" where
  "RB_CLEAR_NODE node h = set_pc node node h"

definition RB_CLEAR_LINKED_NODE :: "ptr \<Rightarrow> 'z rb_heap_scheme \<Rightarrow> 'z rb_heap_scheme" where
  "RB_CLEAR_LINKED_NODE lnode h = set_prev lnode 0 (set_next lnode 0 (RB_CLEAR_NODE lnode h))"

definition RB_EMPTY_ROOT :: "'z rb_heap_scheme \<Rightarrow> ptr \<Rightarrow> bool" where
  "RB_EMPTY_ROOT h root \<longleftrightarrow> rt_node h root = 0"

text \<open>The initialisers \<open>RB_ROOT\<close>, \<open>RB_ROOT_CACHED\<close> and \<open>RB_ROOT_LINKED\<close>.\<close>

definition RB_ROOT :: "ptr \<Rightarrow> 'z rb_heap_scheme \<Rightarrow> 'z rb_heap_scheme" where
  "RB_ROOT root h = set_root root 0 h"

definition RB_ROOT_LINKED :: "ptr \<Rightarrow> 'z rb_heap_scheme \<Rightarrow> 'z rb_heap_scheme" where
  "RB_ROOT_LINKED root h = set_leftmost root 0 (set_root root 0 h)"

definition rb_change_child ::
    "ptr \<Rightarrow> ptr \<Rightarrow> ptr \<Rightarrow> ptr \<Rightarrow> 'z rb_heap_scheme \<Rightarrow> 'z rb_heap_scheme" where
  "rb_change_child old new parent root h =
     (if parent \<noteq> 0 then
        (if rb_left h parent = old then set_left parent new h else set_right parent new h)
      else set_root root new h)"

definition rb_rotate_set_parents ::
    "ptr \<Rightarrow> ptr \<Rightarrow> ptr \<Rightarrow> u64 \<Rightarrow> 'z rb_heap_scheme \<Rightarrow> 'z rb_heap_scheme" where
  "rb_rotate_set_parents old new root color h =
     (let parent = rb_parent h old;
          h = set_pc new (rb_pc h old) h;
          h = rb_set_parent_color old new color h
      in rb_change_child old new parent root h)"

text \<open>A \<open>rb_node_t **\<close>: the place a child pointer is stored at.\<close>

datatype slot = Slot_Root ptr | Slot_Left ptr | Slot_Right ptr

fun slot_load :: "'z rb_heap_scheme \<Rightarrow> slot \<Rightarrow> ptr" where
  "slot_load h (Slot_Root r) = rt_node h r"
| "slot_load h (Slot_Left p) = rb_left h p"
| "slot_load h (Slot_Right p) = rb_right h p"

fun slot_store :: "slot \<Rightarrow> ptr \<Rightarrow> 'z rb_heap_scheme \<Rightarrow> 'z rb_heap_scheme" where
  "slot_store (Slot_Root r) v h = set_root r v h"
| "slot_store (Slot_Left p) v h = set_left p v h"
| "slot_store (Slot_Right p) v h = set_right p v h"

definition rb_link_node ::
    "ptr \<Rightarrow> ptr \<Rightarrow> slot \<Rightarrow> 'z rb_heap_scheme \<Rightarrow> 'z rb_heap_scheme" where
  "rb_link_node node parent rb_link h =
     (let h = set_pc node parent h;
          h = set_right node 0 h;
          h = set_left node 0 h
      in slot_store rb_link node h)"

text \<open>The augmented callbacks, over the heap type they work on.\<close>

record 'h rb_augment_callbacks =
  propagate :: "ptr \<Rightarrow> ptr \<Rightarrow> 'h \<Rightarrow> 'h option"
  copy :: "ptr \<Rightarrow> ptr \<Rightarrow> 'h \<Rightarrow> 'h"
  rotate :: "ptr \<Rightarrow> ptr \<Rightarrow> 'h \<Rightarrow> 'h"

definition dummy_callbacks :: "'h rb_augment_callbacks" where
  "dummy_callbacks = \<lparr>propagate = (\<lambda>node stop h. Some h), copy = (\<lambda>old new h. h),
                      rotate = (\<lambda>old new h. h)\<rparr>"

end
