(* ===== verification/Rb_Spec.thy ===== *)
theory Rb_Spec
  imports Rb_Heap
begin

text \<open>
  What the rebalancing code computes, on abstract trees: a tree of addresses and colours,
  a path of frames from a subtree up to the root (innermost first), and the two functions
  the loops of \<open>rbtree.c\<close> implement, \<open>ins_fix\<close> and \<open>del_fix\<close>.  They are written for a
  direction \<open>d\<close>, because each loop of the code is written out twice, once per side.

  The lemmas show that they keep the in-order sequence of the nodes and establish the
  red-black invariants stated at the head of \<open>rbtree.c\<close>.
\<close>

section \<open>Trees, directions and paths\<close>

datatype col = Red | Black

datatype ptree = Lf | Nd ptree ptr col ptree

datatype dir = Lft | Rgt

fun opp :: "dir \<Rightarrow> dir" where
  "opp Lft = Rgt"
| "opp Rgt = Lft"

lemma opp_simps [simp]: "opp (opp d) = d" "opp d \<noteq> d" "d \<noteq> opp d"
  by (cases d; simp)+

lemma neq_dir [simp]: "d \<noteq> e \<longleftrightarrow> d = opp e"
  by (cases d; cases e; simp)

lemma all_dir: "(\<forall>d. P d) \<longleftrightarrow> P Lft \<and> P Rgt"
  by (metis dir.exhaust)

text \<open>A node whose subtree on side \<open>d\<close> is \<open>a\<close> and on the other side \<open>b\<close>.\<close>

fun nd :: "dir \<Rightarrow> ptree \<Rightarrow> ptr \<Rightarrow> col \<Rightarrow> ptree \<Rightarrow> ptree" where
  "nd Lft a x c b = Nd a x c b"
| "nd Rgt a x c b = Nd b x c a"

lemma nd_opp [simp]: "nd (opp d) a x c b = nd d b x c a"
  by (cases d) simp_all

lemma nd_neq [simp]: "nd d a x c b \<noteq> Lf" "Lf \<noteq> nd d a x c b"
  by (cases d; simp)+

lemma nd_inject [simp]:
  "nd d a x c b = nd d a' x' c' b' \<longleftrightarrow> a = a' \<and> x = x' \<and> c = c' \<and> b = b'"
  by (cases d) auto

lemma nd_cases: "(t = Lf \<Longrightarrow> P) \<Longrightarrow> (\<And>a x c b. t = nd d a x c b \<Longrightarrow> P) \<Longrightarrow> P"
  by (cases t; cases d) (metis nd.simps)+

text \<open>The parts of a node seen from side \<open>d\<close>.\<close>

fun split_nd :: "dir \<Rightarrow> ptree \<Rightarrow> (ptree \<times> ptr \<times> col \<times> ptree) option" where
  "split_nd d Lf = None"
| "split_nd d (Nd l x c r) = Some (if d = Lft then (l, x, c, r) else (r, x, c, l))"

lemma split_nd_nd [simp]: "split_nd d (nd d a x c b) = Some (a, x, c, b)"
  by (cases d) simp_all

fun top :: "ptree \<Rightarrow> ptr" where
  "top Lf = 0"
| "top (Nd l x c r) = x"

fun color :: "ptree \<Rightarrow> col" where
  "color Lf = Black"
| "color (Nd l x c r) = c"

fun paint :: "col \<Rightarrow> ptree \<Rightarrow> ptree" where
  "paint c Lf = Lf"
| "paint c (Nd l x c' r) = Nd l x c r"

fun addrs :: "ptree \<Rightarrow> ptr list" where
  "addrs Lf = []"
| "addrs (Nd l x c r) = addrs l @ x # addrs r"

lemma nd_sel [simp]:
  "top (nd d a x c b) = x" "color (nd d a x c b) = c"
  "paint c' (nd d a x c b) = nd d a x c' b"
  by (cases d; simp)+

lemma set_addrs_nd [simp]: "set (addrs (nd d a x c b)) = insert x (set (addrs a) \<union> set (addrs b))"
  by (cases d) auto

lemma distinct_addrs_nd [simp]:
  "distinct (addrs (nd d a x c b)) \<longleftrightarrow>
     x \<notin> set (addrs a) \<and> x \<notin> set (addrs b) \<and> distinct (addrs a) \<and> distinct (addrs b) \<and>
     set (addrs a) \<inter> set (addrs b) = {}"
  by (cases d) auto

lemma top_paint [simp]: "top (paint c t) = top t"
  by (cases t) simp_all

lemma addrs_paint [simp]: "addrs (paint c t) = addrs t"
  by (cases t) simp_all

lemma color_paint_Black [simp]: "color (paint Black t) = Black"
  by (cases t) simp_all

lemma paint_eq_Lf [simp]: "paint c t = Lf \<longleftrightarrow> t = Lf" "Lf = paint c t \<longleftrightarrow> t = Lf"
  by (cases t; simp)+

lemma paint_color: "color t = c \<Longrightarrow> paint c t = t"
  by (cases t) auto

lemma col_neq [simp]: "c \<noteq> Red \<longleftrightarrow> c = Black" "c \<noteq> Black \<longleftrightarrow> c = Red"
  by (cases c; simp)+

lemma top_in_addrs: "t \<noteq> Lf \<Longrightarrow> top t \<in> set (addrs t)"
  by (cases t) auto

text \<open>
  A frame: the node above the subtree, the side the subtree is on, the node's colour and its
  other subtree.
\<close>

datatype frame = Fr dir ptr col ptree

fun plug :: "frame list \<Rightarrow> ptree \<Rightarrow> ptree" where
  "plug [] t = t"
| "plug (Fr d x c s # K) t = plug K (nd d t x c s)"

fun faddrs :: "frame list \<Rightarrow> ptr list" where
  "faddrs [] = []"
| "faddrs (Fr d x c s # K) = x # addrs s @ faddrs K"

text \<open>The address at the top of a path, above a subtree with top \<open>p\<close>.\<close>

fun top_of :: "frame list \<Rightarrow> ptr \<Rightarrow> ptr" where
  "top_of [] p = p"
| "top_of (Fr d x c s # K) p = top_of K x"

text \<open>The parent pointer of the subtree below a path whose last frame hangs below \<open>stop\<close>.\<close>

fun up :: "frame list \<Rightarrow> ptr \<Rightarrow> ptr" where
  "up [] stop = stop"
| "up (Fr d x c s # K) stop = x"

fun before :: "frame list \<Rightarrow> ptr list" where
  "before [] = []"
| "before (Fr Lft x c s # K) = before K"
| "before (Fr Rgt x c s # K) = before K @ addrs s @ [x]"

fun after :: "frame list \<Rightarrow> ptr list" where
  "after [] = []"
| "after (Fr Lft x c s # K) = x # addrs s @ after K"
| "after (Fr Rgt x c s # K) = after K"

lemma addrs_plug: "addrs (plug K t) = before K @ addrs t @ after K"
proof (induction K arbitrary: t)
  case (Cons f K)
  then show ?case by (cases f; cases "case f of Fr d _ _ _ \<Rightarrow> d") auto
qed simp

lemma set_before_after: "set (before K) \<union> set (after K) = set (faddrs K)"
proof (induction K)
  case (Cons f K)
  then show ?case by (cases f; cases "case f of Fr d _ _ _ \<Rightarrow> d") auto
qed simp

lemma set_addrs_plug [simp]: "set (addrs (plug K t)) = set (addrs t) \<union> set (faddrs K)"
  using set_before_after [of K] by (auto simp: addrs_plug)

lemma distinct_before_after:
  "distinct (before K @ after K) \<longleftrightarrow> distinct (faddrs K)"
proof (induction K)
  case (Cons f K)
  then show ?case
    using set_before_after [of K] by (cases f; cases "case f of Fr d _ _ _ \<Rightarrow> d") auto
qed simp

lemma distinct_addrs_plug [simp]:
  "distinct (addrs (plug K t)) \<longleftrightarrow>
     distinct (addrs t) \<and> distinct (faddrs K) \<and> set (addrs t) \<inter> set (faddrs K) = {}"
  using distinct_before_after [of K] set_before_after [of K] by (auto simp: addrs_plug)

lemma plug_append: "plug (K @ K') t = plug K' (plug K t)"
  by (induction K t rule: plug.induct) auto

lemma faddrs_append [simp]: "faddrs (K @ K') = faddrs K @ faddrs K'"
  by (induction K rule: faddrs.induct) auto

lemma top_plug: "top (plug K t) = top_of K (top t)"
  by (induction K t rule: plug.induct) auto

lemma top_of_append: "top_of (K @ K') p = top_of K' (top_of K p)"
  by (induction K p rule: top_of.induct) auto

lemma up_append: "up (K @ K') stop = up K (up K' stop)"
  by (cases K rule: faddrs.cases) auto

lemma plug_eq_Lf [simp]: "plug K t = Lf \<longleftrightarrow> K = [] \<and> t = Lf"
  by (induction K t rule: plug.induct) auto

section \<open>Rebalancing after an insertion\<close>

text \<open>
  \<open>t\<close> is the subtree with the red node at its top.  With a red uncle the colours are flipped
  and the loop goes on two levels up (case 1); otherwise the grandparent is rotated down
  (case 3), after rotating the parent if the node is on its inner side (case 2).
\<close>

fun ins_fix :: "ptree \<Rightarrow> frame list \<Rightarrow> ptree" where
  "ins_fix t [] = paint Black t"
| "ins_fix t (Fr d p Black s # K) = plug (Fr d p Black s # K) t"
| "ins_fix t [Fr d p Red s] = plug [Fr d p Red s] t"
| "ins_fix t (Fr d p Red s # Fr e g cg u # K) =
     (if color u = Red then
        ins_fix (nd e (nd d t p Black s) g Red (paint Black u)) K
      else if d = e then
        plug K (nd e t p cg (nd e (paint Black s) g Red u))
      else
        (case split_nd e t of
           None \<Rightarrow> plug (Fr d p Red s # Fr e g cg u # K) t
         | Some (a, n, cn, b) \<Rightarrow>
             plug K (nd e (nd e s p Red (paint Black a)) n cg
                          (nd e (paint Black b) g Red u))))"

lemma addrs_nd_cong: "addrs a = addrs a' \<Longrightarrow> addrs b = addrs b' \<Longrightarrow>
    addrs (nd d a x c b) = addrs (nd d a' x c' b')"
  by (cases d) auto

lemma addrs_nd_rotate:
  "addrs (nd d (nd d a x c b) y c' e) = addrs (nd d a x c'' (nd d b y c''' e))"
  by (cases d) auto

lemma addrs_plug_cong: "addrs t = addrs t' \<Longrightarrow> addrs (plug K t) = addrs (plug K t')"
  by (simp add: addrs_plug)

lemma addrs_ins_fix: "addrs (ins_fix t K) = addrs (plug K t)"
proof (induction t K rule: ins_fix.induct)
  case (4 t d p s e g cg u K)
  show ?case
  proof (cases "color u = Red")
    case True
    with 4 show ?thesis
      by (auto simp: intro!: addrs_plug_cong addrs_nd_cong)
  next
    case outer: False
    show ?thesis
    proof (cases "d = e")
      case True
      with outer show ?thesis
        by (simp, intro addrs_plug_cong, cases e; simp)
    next
      case False
      show ?thesis
      proof (cases t rule: nd_cases [where d = e])
        case 1
        with outer False show ?thesis by simp
      next
        case (2 a n cn b)
        with outer False show ?thesis
          by (simp, intro addrs_plug_cong, cases e; simp)
      qed
    qed
  qed
qed simp_all

section \<open>Rebalancing after an erase\<close>

text \<open>
  Cases 2, 3 and 4 at a node \<open>p\<close> of colour \<open>c\<close> whose subtree \<open>t\<close> on side \<open>d\<close> lacks one black
  node and whose other subtree is \<open>s\<close>, with a black top: the tree that replaces \<open>p\<close>, and whether
  it still lacks a black node.
\<close>

definition del_cases :: "dir \<Rightarrow> ptree \<Rightarrow> ptr \<Rightarrow> col \<Rightarrow> ptree \<Rightarrow> ptree \<times> bool" where
  "del_cases d t p c s =
     (case split_nd d s of
        None \<Rightarrow> (nd d t p c s, False)
      | Some (sl, x, cx, sr) \<Rightarrow>
          if color sr = Black then
            if color sl = Black then
              (nd d t p Black (nd d sl x Red sr), c = Black)
            else
              (case split_nd d sl of
                 None \<Rightarrow> (nd d t p c s, False)
               | Some (a, y, cy, b) \<Rightarrow>
                   (nd d (nd d t p Black a) y c (nd d (paint Black b) x Black sr), False))
          else (nd d (nd d t p Black sl) x c (paint Black sr), False))"

fun del_fix :: "ptree \<Rightarrow> frame list \<Rightarrow> ptree" where
  "del_fix t [] = t"
| "del_fix t (Fr d p c s # K) =
     (if color s = Red then
        (case split_nd d s of
           None \<Rightarrow> plug K (nd d t p c s)
         | Some (sl, x, cx, sr) \<Rightarrow>
             plug K (nd d (fst (del_cases d t p Red (paint Black sl))) x c sr))
      else
        (case del_cases d t p c s of
           (r, deficient) \<Rightarrow> if deficient then del_fix r K else plug K r))"

lemma addrs_del_cases: "addrs (fst (del_cases d t p c s)) = addrs (nd d t p c s)"
proof (cases s rule: nd_cases [where d = d])
  case (2 sl x cx sr)
  show ?thesis
  proof (cases sl rule: nd_cases [where d = d])
    case 1
    with 2 show ?thesis by (cases d) (simp_all add: del_cases_def)
  next
    case (2 a y cy b)
    with \<open>s = nd d sl x cx sr\<close> show ?thesis by (cases d) (simp_all add: del_cases_def)
  qed
qed (simp add: del_cases_def)

lemma addrs_del_fix: "addrs (del_fix t K) = addrs (plug K t)"
proof (induction t K rule: del_fix.induct)
  case (2 t d p c s K)
  show ?case
  proof (cases s rule: nd_cases [where d = d])
    case 1
    with 2 show ?thesis
      by (auto simp: del_cases_def)
  next
    case nd: (2 sl x cx sr)
    show ?thesis
    proof (cases "color s = Red")
      case True
      then show ?thesis
        using addrs_del_cases [of d t p Red "paint Black sl"] nd
        by (auto intro!: addrs_plug_cong) (cases d; simp)
    next
      case False
      obtain r m where rm: "del_cases d t p c s = (r, m)" by fastforce
      then have "addrs r = addrs (nd d t p c s)"
        using addrs_del_cases [of d t p c s] by simp
      with False rm 2 show ?thesis
        by (auto intro!: addrs_plug_cong)
    qed
  qed
qed simp

section \<open>Taking a node out\<close>

text \<open>The leftmost node of a tree: its address, colour and right subtree, and the path to it.\<close>

fun min_path :: "ptree \<Rightarrow> ptr \<Rightarrow> col \<Rightarrow> ptree \<Rightarrow> frame list \<Rightarrow> ptr \<times> col \<times> ptree \<times> frame list" where
  "min_path Lf x c r K = (x, c, r, K)"
| "min_path (Nd l' x' c' r') x c r K = min_path l' x' c' r' (Fr Lft x c r # K)"

text \<open>
  Erasing the node \<open>n\<close> below the path \<open>K\<close>: a node with at most one child is replaced by the
  child (case 1), any other by its successor, the leftmost node of its right subtree
  (cases 2 and 3).
\<close>

fun erase_at :: "ptree \<Rightarrow> ptr \<Rightarrow> col \<Rightarrow> ptree \<Rightarrow> frame list \<Rightarrow> ptree" where
  "erase_at Lf n c Lf K = (if c = Black then del_fix Lf K else plug K Lf)"
| "erase_at Lf n c (Nd rl x cx rr) K = plug K (paint c (Nd rl x cx rr))"
| "erase_at (Nd ll x cx lr) n c Lf K = plug K (paint c (Nd ll x cx lr))"
| "erase_at (Nd ll x cx lr) n c (Nd rl y cy rr) K =
     (case min_path rl y cy rr [] of
        (s, cs, c2, J) \<Rightarrow>
          let K' = J @ Fr Rgt s c (Nd ll x cx lr) # K
          in if c2 \<noteq> Lf then plug K' (paint Black c2)
             else if cs = Black then del_fix Lf K' else plug K' Lf)"

lemma min_path_plug:
  "min_path l x c r K = (s, cs, c2, J) \<Longrightarrow> plug J (Nd Lf s cs c2) = plug K (Nd l x c r)"
  by (induction l x c r K rule: min_path.induct) auto

lemma min_path_app:
  "min_path l x c r K = (s, cs, c2, J) \<Longrightarrow> \<exists>J'. J = J' @ K"
  by (induction l x c r K rule: min_path.induct) fastforce+

lemma min_path_acc:
  "min_path l x c r (K @ K') =
     (case min_path l x c r K of (s, cs, c2, J) \<Rightarrow> (s, cs, c2, J @ K'))"
  by (induction l x c r K rule: min_path.induct) auto

lemma before_append: "before (K @ K') = before K' @ before K"
  by (induction K rule: before.induct) auto

lemma after_append: "after (K @ K') = after K @ after K'"
  by (induction K rule: after.induct) auto

lemma min_path_before: "min_path l x c r K = (s, cs, c2, J) \<Longrightarrow> before J = before K"
  by (induction l x c r K rule: min_path.induct) auto

lemma min_path_addrs:
  assumes "min_path l x c r [] = (s, cs, c2, J)"
  shows "addrs (Nd l x c r) = s # addrs c2 @ after J"
  using min_path_plug [OF assms] min_path_before [OF assms] addrs_plug [of J "Nd Lf s cs c2"]
  by simp

text \<open>Erasing takes exactly the node out of the in-order sequence.\<close>

lemma addrs_erase_at:
  "addrs (erase_at l n c r K) = before K @ addrs l @ addrs r @ after K"
proof (induction l n c r K rule: erase_at.induct)
  case (4 ll x cx lr n c rl y cy rr K)
  obtain s cs c2 J where m: "min_path rl y cy rr [] = (s, cs, c2, J)"
    by (metis prod_cases4)
  show ?case
    using min_path_addrs [OF m] min_path_before [OF m] m
    by (auto simp: addrs_del_fix addrs_plug before_append after_append Let_def)
qed (auto simp: addrs_del_fix addrs_plug)

section \<open>The red-black invariants\<close>

text \<open>
  \<open>invc\<close>: both children of a red node are black.  \<open>invh\<close>: every path from a node to the
  leaves below it has the same number \<open>bh\<close> of black nodes.  \<open>rbt\<close>: both, and the root is black.
\<close>

fun bh :: "ptree \<Rightarrow> nat" where
  "bh Lf = 0"
| "bh (Nd l x c r) = bh l + (if c = Black then 1 else 0)"

fun invc :: "ptree \<Rightarrow> bool" where
  "invc Lf = True"
| "invc (Nd l x c r) \<longleftrightarrow> (c = Red \<longrightarrow> color l = Black \<and> color r = Black) \<and> invc l \<and> invc r"

fun invh :: "ptree \<Rightarrow> bool" where
  "invh Lf = True"
| "invh (Nd l x c r) \<longleftrightarrow> bh l = bh r \<and> invh l \<and> invh r"

definition rbt :: "ptree \<Rightarrow> bool" where
  "rbt t \<longleftrightarrow> invc t \<and> invh t \<and> color t = Black"

lemma invc_nd [simp]:
  "invc (nd d a x c b) \<longleftrightarrow> (c = Red \<longrightarrow> color a = Black \<and> color b = Black) \<and> invc a \<and> invc b"
  by (cases d) auto

lemma invh_nd [simp]: "invh (nd d a x c b) \<longleftrightarrow> bh a = bh b \<and> invh a \<and> invh b"
  by (cases d) auto

lemma bh_nd: "bh a = bh b \<Longrightarrow> bh (nd d a x c b) = bh a + (if c = Black then 1 else 0)"
  by (cases d) auto

lemma invc_paint_Black [simp]: "invc t \<Longrightarrow> invc (paint Black t)"
  by (cases t) auto

lemma invh_paint [simp]: "invh (paint c t) = invh t"
  by (cases t) auto

lemma bh_paint_Black: "bh (paint Black t) = bh t + (if color t = Red then 1 else 0)"
  by (cases t) auto

text \<open>
  The path around a subtree of black height \<open>n\<close>: its side trees are red-black, a red frame has a
  black frame above it (so it is not the root), and the black heights agree.
\<close>

fun pcol :: "frame list \<Rightarrow> col" where
  "pcol [] = Red"
| "pcol (Fr d x c s # K) = c"

fun pinv :: "frame list \<Rightarrow> nat \<Rightarrow> bool" where
  "pinv [] n = True"
| "pinv (Fr d x c s # K) n \<longleftrightarrow>
     invc s \<and> invh s \<and> bh s = n \<and> (c = Red \<longrightarrow> color s = Black \<and> pcol K = Black) \<and>
     pinv K (n + (if c = Black then 1 else 0))"

lemma rbt_plug:
  "rbt (plug K t) \<longleftrightarrow>
     pinv K (bh t) \<and> invc t \<and> invh t \<and> (color t = Red \<longrightarrow> pcol K = Black)"
proof (induction K t rule: plug.induct)
  case (1 t)
  then show ?case by (auto simp: rbt_def)
next
  case (2 d x c s K t)
  then show ?case by (cases "bh t = bh s") (auto simp: bh_nd)
qed

lemma rbt_plugI:
  "pinv K n \<Longrightarrow> bh t = n \<Longrightarrow> invc t \<Longrightarrow> invh t \<Longrightarrow> (color t = Red \<Longrightarrow> pcol K = Black) \<Longrightarrow>
   rbt (plug K t)"
  by (auto simp: rbt_plug)

lemma pinv_append: "pinv (J @ K) n \<Longrightarrow> \<exists>m. pinv K m"
proof (induction J arbitrary: n)
  case (Cons f J)
  then show ?case by (cases f) auto
qed auto

subsection \<open>Insertion\<close>

theorem rbt_ins_fix:
  "pinv K (bh t) \<Longrightarrow> invc t \<Longrightarrow> invh t \<Longrightarrow> color t = Red \<Longrightarrow> rbt (ins_fix t K)"
proof (induction t K rule: ins_fix.induct)
  case (1 t)
  then show ?case by (auto simp: rbt_def)
next
  case (2 t d p s K)
  then show ?case by (auto intro!: rbt_plugI simp: bh_nd)
next
  case (3 t d p s)
  then show ?case by simp
next
  case (4 t d p s e g cg u K)
  from "4.prems" have cg: "cg = Black" by simp
  from "4.prems" have inv: "invc s" "invh s" "bh s = bh t" "color s = Black"
    "invc u" "invh u" "bh u = bh t" "pinv K (Suc (bh t))"
    by (simp_all add: cg)
  show ?case
  proof (cases "color u = Red")
    case True
    with 4 inv cg show ?thesis by (simp add: bh_nd bh_paint_Black)
  next
    case outer: False
    show ?thesis
    proof (cases "d = e")
      case True
      have "rbt (plug K (nd e t p cg (nd e (paint Black s) g Red u)))"
        using outer cg inv "4.prems" by (intro rbt_plugI) (simp_all add: bh_nd paint_color)
      with True outer show ?thesis by simp
    next
      case False
      obtain a n b where t: "t = nd e a n Red b"
        using "4.prems" by (cases t rule: nd_cases [where d = e]) auto
      have "rbt (plug K (nd e (nd e s p Red (paint Black a)) n cg (nd e (paint Black b) g Red u)))"
        using outer cg inv "4.prems" t by (intro rbt_plugI) (simp_all add: bh_nd paint_color)
      with False outer t show ?thesis by simp
    qed
  qed
qed

subsection \<open>Erase\<close>

lemma del_cases_inv:
  assumes "invc t" "invh t" "color t = Black" "invc s" "invh s" "bh s = Suc (bh t)"
    and "color s = Black" and r: "del_cases d t p c s = (r, m)"
  shows "invh r \<and> invc r \<and> (c = Black \<longrightarrow> color r = Black) \<and> (m \<longrightarrow> c = Black) \<and>
         bh r = bh s + (if c = Black \<and> \<not> m then 1 else 0)"
proof -
  obtain sl x sr where s: "s = nd d sl x Black sr"
    using assms by (cases s rule: nd_cases [where d = d]) auto
  show ?thesis
  proof (cases sl rule: nd_cases [where d = d])
    case 1
    with s assms show ?thesis
      by (auto simp: del_cases_def bh_nd bh_paint_Black split: if_splits)
  next
    case (2 a y cy b)
    with s assms show ?thesis
      by (auto simp: del_cases_def bh_nd bh_paint_Black paint_color split: if_splits)
  qed
qed

text \<open>
  \<open>t\<close> lacks one black node: with it, every path below the parent would be one short.  The loop
  ends in a red-black tree.
\<close>

theorem rbt_del_fix:
  "pinv K (Suc (bh t)) \<Longrightarrow> invc t \<Longrightarrow> invh t \<Longrightarrow> color t = Black \<Longrightarrow> rbt (del_fix t K)"
proof (induction t K rule: del_fix.induct)
  case (1 t)
  then show ?case by (simp add: rbt_def)
next
  case (2 t d p c s K)
  show ?case
  proof (cases "color s = Red")
    case True
    then obtain sl x sr where s: "s = nd d sl x Red sr"
      by (cases s rule: nd_cases [where d = d]) auto
    obtain r m where rm: "del_cases d t p Red (paint Black sl) = (r, m)" by fastforce
    have "invh r \<and> invc r \<and> \<not> m \<and> bh r = bh sl"
      using del_cases_inv [OF _ _ _ _ _ _ _ rm] "2.prems" s by (auto simp: bh_nd bh_paint_Black)
    with s rm "2.prems" show ?thesis
      by (auto intro!: rbt_plugI simp: bh_nd)
  next
    case False
    obtain r m where rm: "del_cases d t p c s = (r, m)" by fastforce
    have inv: "invh r \<and> invc r \<and> (c = Black \<longrightarrow> color r = Black) \<and> (m \<longrightarrow> c = Black) \<and>
        bh r = bh s + (if c = Black \<and> \<not> m then 1 else 0)"
      using del_cases_inv [OF _ _ _ _ _ _ _ rm] "2.prems" False by auto
    show ?thesis
    proof (cases m)
      case True
      with inv False rm 2 show ?thesis by auto
    next
      case False
      with inv \<open>color s \<noteq> Red\<close> rm "2.prems" show ?thesis
        by (auto intro!: rbt_plugI)
    qed
  qed
qed

lemma min_path_inv:
  "min_path l x c r K = (s, cs, c2, J) \<Longrightarrow> pinv K (bh (Nd l x c r)) \<Longrightarrow>
   invc (Nd l x c r) \<Longrightarrow> invh (Nd l x c r) \<Longrightarrow> (c = Red \<Longrightarrow> pcol K = Black) \<Longrightarrow>
   pinv J (bh (Nd Lf s cs c2)) \<and> invc (Nd Lf s cs c2) \<and> invh (Nd Lf s cs c2) \<and>
   (cs = Red \<longrightarrow> pcol J = Black)"
proof (induction l x c r K rule: min_path.induct)
  case (2 l' x' c' r' x c r K)
  show ?case
    by (rule "2.IH") (use "2.prems" in \<open>auto simp: bh_nd\<close>)
qed auto

text \<open>A node with a single child: the child is red and a leaf, the node is black.\<close>

lemma bh_0_leaf: "invc t \<Longrightarrow> invh t \<Longrightarrow> bh t = 0 \<Longrightarrow> color t = Black \<Longrightarrow> t = Lf"
  by (cases t) auto

theorem rbt_erase_at:
  assumes "rbt (plug K (Nd l n c r))"
  shows "rbt (erase_at l n c r K)"
  using assms
proof (induction l n c r K rule: erase_at.induct)
  case (1 n c K)
  then show ?case by (auto simp: rbt_plug intro!: rbt_del_fix)
next
  case (2 n c rl x cx rr K)
  then have "cx = Red" by (auto simp: rbt_plug split: if_splits)
  with 2 show ?case by (auto simp: rbt_plug split: if_splits)
next
  case (3 ll x cx lr n c K)
  then have "cx = Red" by (auto simp: rbt_plug split: if_splits)
  with 3 show ?case by (auto simp: rbt_plug split: if_splits)
next
  case (4 ll x cx lr n c rl y cy rr K)
  obtain s cs c2 J where m: "min_path rl y cy rr [] = (s, cs, c2, J)"
    by (metis prod_cases4)
  let ?F = "Fr Rgt s c (Nd ll x cx lr) # K"
  have "min_path rl y cy rr ?F = (s, cs, c2, J @ ?F)"
    using min_path_acc [of rl y cy rr "[]" ?F] m by simp
  then have inv: "pinv (J @ ?F) (bh (Nd Lf s cs c2)) \<and> invc (Nd Lf s cs c2) \<and>
      invh (Nd Lf s cs c2) \<and> (cs = Red \<longrightarrow> pcol (J @ ?F) = Black)"
    by (rule min_path_inv) (use 4 in \<open>auto simp: rbt_plug\<close>)
  have c2: "color c2 = Red \<and> cs = Black" if "c2 \<noteq> Lf"
    using inv that bh_0_leaf [of c2] by (cases "color c2"; cases cs) auto
  show ?case
    using m inv c2 by (auto simp: Let_def rbt_plug bh_paint_Black intro!: rbt_del_fix)
qed

end
