(* ===== verification/Rb_Rep.thy ===== *)
theory Rb_Rep
  imports Rb_Spec
begin

text \<open>
  How the heap represents an abstract tree.  \<open>tree_at h par t\<close>: the nodes of \<open>t\<close> are in the
  heap, with the parent and colour words, and the child pointers, that \<open>t\<close> says; \<open>par\<close> is the
  parent of its top.  \<open>path_at h K p stop\<close>: the same for the frames of the path \<open>K\<close>, whose
  innermost frame has \<open>p\<close> as its child and whose outermost has the parent \<open>stop\<close>.

  The locale \<open>rb_augment\<close> is the contract between the trees and the callbacks that keep
  augmented data: what the rebalancing relies on when it calls \<open>rotate\<close>, \<open>copy\<close> and
  \<open>propagate\<close>.
\<close>

section \<open>Children by side\<close>

definition child :: "'z rb_heap_scheme \<Rightarrow> dir \<Rightarrow> ptr \<Rightarrow> ptr" where
  "child h d x = (case d of Lft \<Rightarrow> rb_left h x | Rgt \<Rightarrow> rb_right h x)"

definition set_child :: "dir \<Rightarrow> ptr \<Rightarrow> ptr \<Rightarrow> 'z rb_heap_scheme \<Rightarrow> 'z rb_heap_scheme" where
  "set_child d x v h = (case d of Lft \<Rightarrow> set_left x v h | Rgt \<Rightarrow> set_right x v h)"

lemma set_child_sel [simp]:
  "rb_pc (set_child d x v h) = rb_pc h" "ln_prev (set_child d x v h) = ln_prev h"
  "ln_next (set_child d x v h) = ln_next h" "rt_node (set_child d x v h) = rt_node h"
  "rt_leftmost (set_child d x v h) = rt_leftmost h"
  "rb_heap.more (set_child d x v h) = rb_heap.more h"
  by (cases d; simp add: set_child_def)+

lemma child_set_child [simp]:
  "child (set_child d x v h) e y = (if e = d \<and> y = x then v else child h e y)"
  by (cases d; cases e) (auto simp: set_child_def child_def)

lemma child_other [simp]:
  "child (set_pc x v h) = child h" "child (set_prev x p h) = child h"
  "child (set_next x p h) = child h" "child (set_root x p h) = child h"
  "child (set_leftmost x p h) = child h"
  by (auto simp: child_def fun_eq_iff split: dir.splits)

lemma left_right_child: "rb_left h x = child h Lft x" "rb_right h x = child h Rgt x"
  by (simp_all add: child_def)

lemma set_left_right_child: "set_left x v h = set_child Lft x v h"
    "set_right x v h = set_child Rgt x v h"
  by (simp_all add: set_child_def)

section \<open>Colour words\<close>

fun colw :: "col \<Rightarrow> u64" where
  "colw Red = RB_RED"
| "colw Black = RB_BLACK"

lemma colw_parent: "aligned4 p \<Longrightarrow> (p + colw c) AND NOT 3 = p"
  by (cases c) (simp_all only: colw.simps RB_RED_def RB_BLACK_def add_0_right aligned4_mask
    aligned4_plus_mask)

lemma colw_color: "aligned4 p \<Longrightarrow> (p + colw c) AND 1 = colw c"
  by (cases c) (simp_all add: RB_RED_def RB_BLACK_def aligned4_and_1 aligned4_plus_and_1)

lemma rb_parent_eq: "rb_pc h x = p + colw c \<Longrightarrow> aligned4 p \<Longrightarrow> rb_parent h x = p"
  by (simp only: rb_parent_def colw_parent)

lemma rb_color_eq: "rb_pc h x = p + colw c \<Longrightarrow> aligned4 p \<Longrightarrow> rb_color h x = colw c"
  by (simp add: rb_color_def colw_color)

lemma rb_is_red_eq: "rb_pc h x = p + colw c \<Longrightarrow> aligned4 p \<Longrightarrow> rb_is_red h x \<longleftrightarrow> c = Red"
  using rb_color_eq [of h x p c] by (cases c) (simp_all add: rb_is_red_def RB_RED_def RB_BLACK_def)

lemma rb_is_black_eq: "rb_pc h x = p + colw c \<Longrightarrow> aligned4 p \<Longrightarrow> rb_is_black h x \<longleftrightarrow> c = Black"
  using rb_color_eq [of h x p c] by (cases c) (simp_all add: rb_is_black_def RB_RED_def RB_BLACK_def)

section \<open>The representation predicates\<close>

fun tree_at :: "'z rb_heap_scheme \<Rightarrow> ptr \<Rightarrow> ptree \<Rightarrow> bool" where
  "tree_at h par Lf \<longleftrightarrow> True"
| "tree_at h par (Nd l x c r) \<longleftrightarrow>
     x \<noteq> 0 \<and> aligned4 x \<and> rb_pc h x = par + colw c \<and>
     rb_left h x = top l \<and> rb_right h x = top r \<and> tree_at h x l \<and> tree_at h x r"

fun path_at :: "'z rb_heap_scheme \<Rightarrow> frame list \<Rightarrow> ptr \<Rightarrow> ptr \<Rightarrow> bool" where
  "path_at h [] p stop \<longleftrightarrow> True"
| "path_at h (Fr d x c s # K) p stop \<longleftrightarrow>
     x \<noteq> 0 \<and> aligned4 x \<and> rb_pc h x = up K stop + colw c \<and>
     child h d x = p \<and> child h (opp d) x = top s \<and> tree_at h x s \<and> path_at h K x stop"

text \<open>The whole tree at the root \<open>root\<close>.\<close>

definition rb_tree :: "'z rb_heap_scheme \<Rightarrow> ptr \<Rightarrow> ptree \<Rightarrow> bool" where
  "rb_tree h root t \<longleftrightarrow> rt_node h root = top t \<and> tree_at h 0 t \<and> distinct (addrs t)"

lemma tree_at_nd [simp]:
  "tree_at h par (nd d a x c b) \<longleftrightarrow>
     x \<noteq> 0 \<and> aligned4 x \<and> rb_pc h x = par + colw c \<and>
     child h d x = top a \<and> child h (opp d) x = top b \<and> tree_at h x a \<and> tree_at h x b"
  by (cases d) (auto simp: child_def)

lemma tree_at_top: "tree_at h par t \<Longrightarrow> top t = 0 \<longleftrightarrow> t = Lf"
  by (cases t) auto

lemma tree_at_addrs: "tree_at h par t \<Longrightarrow> x \<in> set (addrs t) \<Longrightarrow> x \<noteq> 0 \<and> aligned4 x"
  by (induction h par t rule: tree_at.induct) auto

lemma tree_at_0 [simp]: "tree_at h par t \<Longrightarrow> 0 \<notin> set (addrs t)"
  using tree_at_addrs by blast

lemma path_at_addrs: "path_at h K p stop \<Longrightarrow> x \<in> set (faddrs K) \<Longrightarrow> x \<noteq> 0 \<and> aligned4 x"
  by (induction h K p stop rule: path_at.induct) (auto dest: tree_at_addrs)

lemma path_at_0 [simp]: "path_at h K p stop \<Longrightarrow> 0 \<notin> set (faddrs K)"
  using path_at_addrs by blast

lemma path_at_up: "path_at h K p stop \<Longrightarrow> aligned4 stop \<Longrightarrow> aligned4 (up K stop)"
  by (cases K rule: faddrs.cases) auto

lemma path_at_append [simp]:
  "path_at h (J @ K) p stop \<longleftrightarrow> path_at h J p (up K stop) \<and> path_at h K (top_of J p) stop"
  by (induction J arbitrary: p rule: faddrs.induct) (auto simp: up_append)

lemma tree_at_plug:
  "tree_at h par (plug K t) \<longleftrightarrow> tree_at h (up K par) t \<and> path_at h K (top t) par"
  by (induction K t rule: plug.induct) auto

text \<open>A subtree depends on its own nodes only.\<close>

lemma tree_at_cong:
  "(\<And>x. x \<in> set (addrs t) \<Longrightarrow> rb_pc h' x = rb_pc h x \<and> rb_left h' x = rb_left h x \<and>
       rb_right h' x = rb_right h x) \<Longrightarrow> tree_at h' par t = tree_at h par t"
  by (induction t arbitrary: par) auto

lemma child_cong:
  "rb_left h' x = rb_left h x \<Longrightarrow> rb_right h' x = rb_right h x \<Longrightarrow> child h' d x = child h d x"
  by (cases d) (simp_all add: child_def)

lemma path_at_cong:
  "(\<And>x. x \<in> set (faddrs K) \<Longrightarrow> rb_pc h' x = rb_pc h x \<and> rb_left h' x = rb_left h x \<and>
       rb_right h' x = rb_right h x) \<Longrightarrow> path_at h' K p stop = path_at h K p stop"
proof (induction K arbitrary: p rule: faddrs.induct)
  case (2 d x c s K)
  have "tree_at h' x s = tree_at h x s" by (rule tree_at_cong) (use 2 in auto)
  moreover have "child h' e x = child h e x" for e by (rule child_cong) (use 2 in auto)
  ultimately show ?case using 2 by auto
qed simp

text \<open>The child pointer a path hangs on can be exchanged.\<close>

lemma path_at_swap_child:
  "path_at h (Fr d x c s # K) p stop \<Longrightarrow> x \<notin> set (addrs s) \<Longrightarrow> x \<notin> set (faddrs K) \<Longrightarrow>
   path_at (set_child d x q h) (Fr d x c s # K) q stop"
proof -
  assume p: "path_at h (Fr d x c s # K) p stop" and x: "x \<notin> set (addrs s)" "x \<notin> set (faddrs K)"
  have "rb_left (set_child d x q h) y = rb_left h y \<and> rb_right (set_child d x q h) y = rb_right h y"
    if "y \<noteq> x" for y
    using that by (cases d) (auto simp: set_child_def)
  then have "tree_at (set_child d x q h) x s = tree_at h x s"
    and "path_at (set_child d x q h) K x stop = path_at h K x stop"
    using x by (auto intro!: tree_at_cong path_at_cong) (metis set_child_sel(1))+
  with p show ?thesis by simp
qed

section \<open>Frames of the heap\<close>

text \<open>
  Stores outside a subtree or a path do not touch it; these are the rewrite rules that carry
  the symbolic execution of the rebalancing code.
\<close>

lemma set_child_fields:
  "rb_left (set_child d x v h) = (case d of Lft \<Rightarrow> (rb_left h)(x := v) | Rgt \<Rightarrow> rb_left h)"
  "rb_right (set_child d x v h) = (case d of Lft \<Rightarrow> rb_right h | Rgt \<Rightarrow> (rb_right h)(x := v))"
  by (cases d; simp add: set_child_def)+

lemma tree_at_store [simp]:
  "x \<notin> set (addrs t) \<Longrightarrow> tree_at (set_pc x v h) par t = tree_at h par t"
  "x \<notin> set (addrs t) \<Longrightarrow> tree_at (set_child d x p h) par t = tree_at h par t"
  "tree_at (set_prev x p h) par t = tree_at h par t"
  "tree_at (set_next x p h) par t = tree_at h par t"
  "tree_at (set_root x p h) par t = tree_at h par t"
  "tree_at (set_leftmost x p h) par t = tree_at h par t"
  by (rule tree_at_cong; auto simp: set_child_fields split: dir.splits)+

lemma path_at_store [simp]:
  "x \<notin> set (faddrs K) \<Longrightarrow> path_at (set_pc x v h) K q stop = path_at h K q stop"
  "x \<notin> set (faddrs K) \<Longrightarrow> path_at (set_child d x p h) K q stop = path_at h K q stop"
  "path_at (set_prev x p h) K q stop = path_at h K q stop"
  "path_at (set_next x p h) K q stop = path_at h K q stop"
  "path_at (set_root x p h) K q stop = path_at h K q stop"
  "path_at (set_leftmost x p h) K q stop = path_at h K q stop"
  by (rule path_at_cong; auto simp: set_child_fields split: dir.splits)+

text \<open>All seven fields of the trees agree.\<close>

definition same_shape :: "'z rb_heap_scheme \<Rightarrow> 'z rb_heap_scheme \<Rightarrow> bool" where
  "same_shape h h' \<longleftrightarrow>
     rb_pc h' = rb_pc h \<and> rb_left h' = rb_left h \<and> rb_right h' = rb_right h \<and>
     ln_prev h' = ln_prev h \<and> ln_next h' = ln_next h \<and>
     rt_node h' = rt_node h \<and> rt_leftmost h' = rt_leftmost h"

lemma same_shape_refl [simp]: "same_shape h h"
  by (simp add: same_shape_def)

lemma same_shape_trans: "same_shape h h' \<Longrightarrow> same_shape h' h'' \<Longrightarrow> same_shape h h''"
  by (simp add: same_shape_def)

lemma same_shape_child: "same_shape h h' \<Longrightarrow> child h' = child h"
  by (auto simp: same_shape_def child_def fun_eq_iff split: dir.splits)

lemma same_shape_tree_at: "same_shape h h' \<Longrightarrow> tree_at h' par t = tree_at h par t"
  by (rule tree_at_cong) (simp add: same_shape_def)

lemma same_shape_path_at: "same_shape h h' \<Longrightarrow> path_at h' K p stop = path_at h K p stop"
  by (rule path_at_cong) (simp add: same_shape_def)

text \<open>
  The tree fields agree but for the nodes in \<open>S\<close> and the root \<open>root\<close>; the links are the same.
\<close>

definition rb_frame :: "ptr set \<Rightarrow> ptr \<Rightarrow> 'z rb_heap_scheme \<Rightarrow> 'z rb_heap_scheme \<Rightarrow> bool" where
  "rb_frame S root h h' \<longleftrightarrow>
     (\<forall>x. x \<notin> S \<longrightarrow> rb_pc h' x = rb_pc h x \<and> rb_left h' x = rb_left h x \<and>
                    rb_right h' x = rb_right h x) \<and>
     (\<forall>r. r \<noteq> root \<longrightarrow> rt_node h' r = rt_node h r) \<and>
     ln_prev h' = ln_prev h \<and> ln_next h' = ln_next h \<and> rt_leftmost h' = rt_leftmost h"

lemma rb_frame_refl [simp]: "rb_frame S root h h"
  by (simp add: rb_frame_def)

lemma rb_frame_trans:
  "rb_frame S root h h' \<Longrightarrow> rb_frame S' root h' h'' \<Longrightarrow> rb_frame (S \<union> S') root h h''"
  by (auto simp: rb_frame_def)

lemma rb_frame_mono: "rb_frame S root h h' \<Longrightarrow> S \<subseteq> S' \<Longrightarrow> rb_frame S' root h h'"
  by (auto simp: rb_frame_def)

lemma rb_frame_shape: "rb_frame S root h h' \<Longrightarrow> same_shape h' h'' \<Longrightarrow> rb_frame S root h h''"
  by (auto simp: rb_frame_def same_shape_def)

lemma rb_frame_store [simp]:
  "x \<in> S \<Longrightarrow> rb_frame S root h h' \<Longrightarrow> rb_frame S root h (set_pc x v h')"
  "x \<in> S \<Longrightarrow> rb_frame S root h h' \<Longrightarrow> rb_frame S root h (set_child d x p h')"
  "rb_frame S root h h' \<Longrightarrow> rb_frame S root h (set_root root p h')"
  by (auto simp: rb_frame_def set_child_fields split: dir.splits)

lemma rb_frame_tree_at:
  "rb_frame S root h h' \<Longrightarrow> set (addrs t) \<inter> S = {} \<Longrightarrow> tree_at h' par t = tree_at h par t"
  by (rule tree_at_cong) (auto simp: rb_frame_def)

lemma rb_frame_path_at:
  "rb_frame S root h h' \<Longrightarrow> set (faddrs K) \<inter> S = {} \<Longrightarrow>
   path_at h' K p stop = path_at h K p stop"
  by (rule path_at_cong) (auto simp: rb_frame_def)

lemma rb_frame_rb_tree:
  "rb_frame S root h h' \<Longrightarrow> set (addrs t) \<inter> S = {} \<Longrightarrow> r \<noteq> root \<Longrightarrow>
   rb_tree h' r t = rb_tree h r t"
  by (auto simp: rb_tree_def rb_frame_tree_at) (auto simp: rb_frame_def)

section \<open>The steps of a rotation\<close>

text \<open>
  The conditional \<open>rb_set_parent_color(tmp, p, RB_BLACK)\<close> of every rotation: the inner subtree
  gets its new parent and turns black.
\<close>

definition adopt :: "ptr \<Rightarrow> ptr \<Rightarrow> 'z rb_heap_scheme \<Rightarrow> 'z rb_heap_scheme" where
  "adopt tmp p h = (if tmp \<noteq> 0 then rb_set_parent_color tmp p RB_BLACK h else h)"

lemma adopt_sel [simp]:
  "rb_pc (adopt tmp p h) y = (if tmp \<noteq> 0 \<and> y = tmp then p + RB_BLACK else rb_pc h y)"
  "rt_node (adopt tmp p h) = rt_node h" "child (adopt tmp p h) = child h"
  "rb_heap.more (adopt tmp p h) = rb_heap.more h"
  by (simp_all add: adopt_def rb_set_parent_color_def)

lemma adopt_tree_at [simp]:
  "tmp \<notin> set (addrs t) \<Longrightarrow> tree_at (adopt tmp p h) par t = tree_at h par t"
  "tmp \<notin> set (faddrs K) \<Longrightarrow> path_at (adopt tmp p h) K q stop = path_at h K q stop"
  by (simp_all add: adopt_def rb_set_parent_color_def)

lemma adopt_frame [simp]:
  "tmp = 0 \<or> tmp \<in> S \<Longrightarrow> rb_frame S root h h' \<Longrightarrow> rb_frame S root h (adopt tmp p h')"
  by (auto simp: adopt_def rb_set_parent_color_def)

lemma top_notin: "set (addrs t) \<inter> S = {} \<Longrightarrow> 0 \<notin> S \<Longrightarrow> top t \<notin> S"
  by (cases t) auto

lemma tree_at_recolor:
  "tree_at h q t \<Longrightarrow> distinct (addrs t) \<Longrightarrow> t \<noteq> Lf \<Longrightarrow>
   tree_at (set_pc (top t) (p + colw c) h) p (paint c t)"
  by (cases t) auto

lemma tree_at_adopt:
  "tree_at h q t \<Longrightarrow> distinct (addrs t) \<Longrightarrow> tree_at (adopt (top t) p h) p (paint Black t)"
  using tree_at_recolor [of h q t p Black] tree_at_top [of h q t]
  by (auto simp: adopt_def rb_set_parent_color_def)

text \<open>The pointer that leads to a subtree below the path \<open>K\<close>.\<close>

definition put_child ::
    "frame list \<Rightarrow> ptr \<Rightarrow> ptr \<Rightarrow> 'z rb_heap_scheme \<Rightarrow> 'z rb_heap_scheme" where
  "put_child K root q h = (case K of [] \<Rightarrow> set_root root q h | Fr d x c s # J \<Rightarrow> set_child d x q h)"

lemma rb_change_child_path:
  "path_at h K p 0 \<Longrightarrow> p \<noteq> 0 \<Longrightarrow> p \<notin> set (faddrs K) \<Longrightarrow>
   rb_change_child p q (up K 0) root h = put_child K root q h"
proof (cases K rule: faddrs.cases)
  case (2 d x c s J)
  assume asm: "path_at h K p 0" "p \<noteq> 0" "p \<notin> set (faddrs K)"
  have "top s \<noteq> p" using asm 2 by (cases s) auto
  with asm 2 show ?thesis
    by (cases d) (auto simp: rb_change_child_def put_child_def child_def set_child_def)
qed (simp add: rb_change_child_def put_child_def)

lemma put_child_sel [simp]:
  "rb_pc (put_child K root q h) = rb_pc h" "rb_heap.more (put_child K root q h) = rb_heap.more h"
  by (auto simp: put_child_def split: list.splits frame.splits)

lemma put_child_child:
  "y \<notin> set (faddrs K) \<Longrightarrow> child (put_child K root q h) e y = child h e y"
  by (auto simp: put_child_def split: list.splits frame.splits)

lemma put_child_tree_at:
  "set (addrs t) \<inter> set (faddrs K) = {} \<Longrightarrow>
   tree_at (put_child K root q h) par t = tree_at h par t"
  by (auto simp: put_child_def split: list.splits frame.splits)

lemma put_child_path_other:
  "set (faddrs J) \<inter> set (faddrs K) = {} \<Longrightarrow>
   path_at (put_child K root q h) J p stop = path_at h J p stop"
  by (auto simp: put_child_def split: list.splits frame.splits)

lemma put_child_path_at:
  "path_at h K p stop \<Longrightarrow> distinct (faddrs K) \<Longrightarrow> path_at (put_child K root q h) K q stop"
proof (cases K rule: faddrs.cases)
  case (2 d x c s J)
  assume "path_at h K p stop" "distinct (faddrs K)"
  with 2 show ?thesis using path_at_swap_child [of h d x c s J p stop q]
    by (simp add: put_child_def)
qed simp

lemma put_child_root:
  "rt_node h root = top_of K p \<Longrightarrow> rt_node (put_child K root q h) root = top_of K q"
  by (cases K rule: faddrs.cases) (simp_all add: put_child_def)

lemma put_child_frame:
  "rb_frame S root h h' \<Longrightarrow> set (faddrs K) \<subseteq> S \<Longrightarrow> rb_frame S root h (put_child K root q h')"
  by (cases K rule: faddrs.cases) (simp_all add: put_child_def)

lemmas put_child_simps = put_child_child put_child_tree_at put_child_path_at put_child_root
  put_child_frame

lemma rb_rotate_set_parents_path:
  assumes "path_at h K old 0" "rb_pc h old = up K 0 + colw c" "old \<noteq> 0"
    and "old \<notin> set (faddrs K)" "new \<notin> set (faddrs K)"
  shows "rb_rotate_set_parents old new root col h =
    put_child K root new (set_pc old (new + col) (set_pc new (up K 0 + colw c) h))"
proof -
  have "aligned4 (up K 0)" using assms(1) by (rule path_at_up) simp
  then have "rb_parent h old = up K 0" using assms(2) by (simp add: rb_parent_eq)
  with assms show ?thesis
    by (simp add: rb_rotate_set_parents_def rb_set_parent_color_def Let_def rb_change_child_path)
qed

section \<open>Augmented data\<close>

text \<open>
  \<open>nok z x l r\<close> says that the augmented data of the node \<open>x\<close> is right for the children \<open>l\<close> and
  \<open>r\<close>, in the part \<open>z\<close> of the heap that is not the trees' own.
\<close>

definition nokd ::
    "('z \<Rightarrow> ptr \<Rightarrow> ptr \<Rightarrow> ptr \<Rightarrow> bool) \<Rightarrow> 'z \<Rightarrow> dir \<Rightarrow> ptr \<Rightarrow> ptr \<Rightarrow> ptr \<Rightarrow> bool" where
  "nokd nok z d x a b = (case d of Lft \<Rightarrow> nok z x a b | Rgt \<Rightarrow> nok z x b a)"

lemma nokd_opp [simp]: "nokd nok z (opp d) x a b = nokd nok z d x b a"
  by (cases d) (simp_all add: nokd_def)

fun aug_tree :: "('z \<Rightarrow> ptr \<Rightarrow> ptr \<Rightarrow> ptr \<Rightarrow> bool) \<Rightarrow> 'z \<Rightarrow> ptree \<Rightarrow> bool" where
  "aug_tree nok z Lf \<longleftrightarrow> True"
| "aug_tree nok z (Nd l x c r) \<longleftrightarrow>
     nok z x (top l) (top r) \<and> aug_tree nok z l \<and> aug_tree nok z r"

fun aug_path :: "('z \<Rightarrow> ptr \<Rightarrow> ptr \<Rightarrow> ptr \<Rightarrow> bool) \<Rightarrow> 'z \<Rightarrow> frame list \<Rightarrow> ptr \<Rightarrow> bool" where
  "aug_path nok z [] p \<longleftrightarrow> True"
| "aug_path nok z (Fr d x c s # K) p \<longleftrightarrow>
     nokd nok z d x p (top s) \<and> aug_tree nok z s \<and> aug_path nok z K x"

text \<open>The same, but for the innermost frame, whose child may have changed.\<close>

fun aug_stale :: "('z \<Rightarrow> ptr \<Rightarrow> ptr \<Rightarrow> ptr \<Rightarrow> bool) \<Rightarrow> 'z \<Rightarrow> frame list \<Rightarrow> bool" where
  "aug_stale nok z [] \<longleftrightarrow> True"
| "aug_stale nok z (Fr d x c s # K) \<longleftrightarrow> aug_tree nok z s \<and> aug_path nok z K x"

fun fnodes :: "frame list \<Rightarrow> ptr list" where
  "fnodes [] = []"
| "fnodes (Fr d x c s # K) = x # fnodes K"

lemma fnodes_subset: "set (fnodes K) \<subseteq> set (faddrs K)"
  by (induction K rule: fnodes.induct) auto

lemma aug_tree_nd [simp]:
  "aug_tree nok z (nd d a x c b) \<longleftrightarrow>
     nokd nok z d x (top a) (top b) \<and> aug_tree nok z a \<and> aug_tree nok z b"
  by (cases d) (auto simp: nokd_def)

lemma aug_tree_paint [simp]: "aug_tree nok z (paint c t) = aug_tree nok z t"
  by (cases t) auto

lemma aug_tree_plug: "aug_tree nok z (plug K t) \<longleftrightarrow> aug_tree nok z t \<and> aug_path nok z K (top t)"
  by (induction K t rule: plug.induct) auto

lemma aug_path_append: "aug_path nok z (J @ K) p \<longleftrightarrow> aug_path nok z J p \<and> aug_path nok z K (top_of J p)"
  by (induction J arbitrary: p rule: fnodes.induct) auto

lemma aug_path_stale: "aug_path nok z K p \<Longrightarrow> aug_stale nok z K"
  by (cases K rule: fnodes.cases) auto

text \<open>Augmented data outside \<open>S\<close> is right as it was.\<close>

lemma aug_tree_cong:
  "(\<And>x l r. x \<notin> S \<Longrightarrow> l \<notin> S \<Longrightarrow> r \<notin> S \<Longrightarrow> nok z' x l r = nok z x l r) \<Longrightarrow> 0 \<notin> S \<Longrightarrow>
   set (addrs t) \<inter> S = {} \<Longrightarrow> aug_tree nok z' t = aug_tree nok z t"
proof (induction t)
  case (Nd l x c r)
  have "top l \<notin> S" using Nd.prems by (cases l) auto
  moreover have "top r \<notin> S" using Nd.prems by (cases r) auto
  ultimately show ?case using Nd by auto
qed simp

lemma aug_path_cong:
  "(\<And>x l r. x \<notin> S \<Longrightarrow> l \<notin> S \<Longrightarrow> r \<notin> S \<Longrightarrow> nok z' x l r = nok z x l r) \<Longrightarrow> 0 \<notin> S \<Longrightarrow>
   set (faddrs K) \<inter> S = {} \<Longrightarrow> p \<notin> S \<Longrightarrow> aug_path nok z' K p = aug_path nok z K p"
proof (induction K arbitrary: p rule: fnodes.induct)
  case (2 d x c s K)
  have "top s \<notin> S" using 2 by (cases s) auto
  moreover have "aug_tree nok z' s = aug_tree nok z s"
    by (rule aug_tree_cong [of S]) (use 2 in auto)
  moreover have "aug_path nok z' K x = aug_path nok z K x"
    by (rule "2.IH") (use 2 in auto)
  ultimately show ?case using 2 by (cases d) (simp_all add: nokd_def)
qed simp

text \<open>The tree at \<open>root\<close>, with its augmented data right at every node.\<close>

definition aug_rb ::
    "('z \<Rightarrow> ptr \<Rightarrow> ptr \<Rightarrow> ptr \<Rightarrow> bool) \<Rightarrow> 'z rb_heap_scheme \<Rightarrow> ptr \<Rightarrow> ptree \<Rightarrow> bool" where
  "aug_rb nok h root t \<longleftrightarrow> rb_tree h root t \<and> aug_tree nok (rb_heap.more h) t"

lemma aug_rb_plug:
  "aug_rb nok h root (plug K t) \<longleftrightarrow>
     rt_node h root = top_of K (top t) \<and> tree_at h (up K 0) t \<and> path_at h K (top t) 0 \<and>
     distinct (addrs t) \<and> distinct (faddrs K) \<and> set (addrs t) \<inter> set (faddrs K) = {} \<and>
     aug_tree nok (rb_heap.more h) t \<and> aug_path nok (rb_heap.more h) K (top t)"
  by (auto simp: aug_rb_def rb_tree_def tree_at_plug aug_tree_plug top_plug)

locale rb_augment =
  fixes cb :: "'z rb_heap_scheme rb_augment_callbacks"
    and nok :: "'z \<Rightarrow> ptr \<Rightarrow> ptr \<Rightarrow> ptr \<Rightarrow> bool"
    and keep :: "ptr set \<Rightarrow> 'z \<Rightarrow> 'z \<Rightarrow> bool"
  assumes keep_refl: "keep S z z"
    and keep_trans: "keep S z z' \<Longrightarrow> keep S z' z'' \<Longrightarrow> keep S z z''"
    and keep_mono: "keep S z z' \<Longrightarrow> S \<subseteq> S' \<Longrightarrow> keep S' z z'"
    and nok_keep: "keep S z z' \<Longrightarrow> x \<notin> S \<Longrightarrow> l \<notin> S \<Longrightarrow> r \<notin> S \<Longrightarrow> nok z' x l r = nok z x l r"
    and rotate_shape: "same_shape h (rotate cb old new h)"
    and rotate_keep: "keep {old, new} (rb_heap.more h) (rb_heap.more (rotate cb old new h))"
    and rotate_nok:
      "old \<noteq> new \<Longrightarrow> old \<noteq> 0 \<Longrightarrow> new \<noteq> 0 \<Longrightarrow> child h e old = i \<Longrightarrow> child h (opp e) old = u \<Longrightarrow>
       i \<notin> {old, new} \<Longrightarrow> u \<notin> {old, new} \<Longrightarrow> n \<notin> {old, new} \<Longrightarrow>
       nokd nok (rb_heap.more h) e new n i \<Longrightarrow> nokd nok (rb_heap.more h) e old new u \<Longrightarrow>
       nokd nok (rb_heap.more (rotate cb old new h)) e old i u \<and>
       nokd nok (rb_heap.more (rotate cb old new h)) e new n old"
    and rotate_parent:
      "x \<notin> {old, new} \<Longrightarrow> y \<notin> {old, new} \<Longrightarrow> old \<noteq> new \<Longrightarrow> old \<noteq> 0 \<Longrightarrow> new \<noteq> 0 \<Longrightarrow>
       nokd nok (rb_heap.more h) d x old y \<Longrightarrow> nokd nok (rb_heap.more (rotate cb old new h)) d x new y"
    and copy_shape: "same_shape h (copy cb old new h)"
    and copy_keep: "keep {new} (rb_heap.more h) (rb_heap.more (copy cb old new h))"
    and copy_parent:
      "x \<noteq> new \<Longrightarrow> y \<noteq> new \<Longrightarrow> old \<noteq> 0 \<Longrightarrow> new \<noteq> 0 \<Longrightarrow>
       nokd nok (rb_heap.more h) d x old y \<Longrightarrow> nokd nok (rb_heap.more (copy cb old new h)) d x new y"
    and propagate_path:
      "path_at h K p stop \<Longrightarrow> distinct (faddrs K) \<Longrightarrow> aligned4 stop \<Longrightarrow> stop \<notin> set (fnodes K) \<Longrightarrow>
       p \<notin> set (faddrs K) \<Longrightarrow> aug_stale nok (rb_heap.more h) K \<Longrightarrow>
       \<exists>h'. propagate cb (up K stop) stop h = Some h' \<and> same_shape h h' \<and>
            keep (set (fnodes K)) (rb_heap.more h) (rb_heap.more h') \<and>
            aug_path nok (rb_heap.more h') K p"
begin

lemma rotate_sel [simp]:
  "rb_pc (rotate cb old new h) = rb_pc h" "rb_left (rotate cb old new h) = rb_left h"
  "rb_right (rotate cb old new h) = rb_right h" "rt_node (rotate cb old new h) = rt_node h"
  "child (rotate cb old new h) = child h"
  "tree_at (rotate cb old new h) par t = tree_at h par t"
  "path_at (rotate cb old new h) K p stop = path_at h K p stop"
  using rotate_shape [of h old new]
  by (simp_all add: same_shape_child same_shape_tree_at same_shape_path_at)
    (simp_all add: same_shape_def)

lemma rotate_frame [simp]:
  "rb_frame S root h h' \<Longrightarrow> rb_frame S root h (rotate cb old new h')"
  using rb_frame_shape rotate_shape by blast

lemma nokd_keep:
  "keep S z z' \<Longrightarrow> x \<notin> S \<Longrightarrow> l \<notin> S \<Longrightarrow> r \<notin> S \<Longrightarrow> nokd nok z' d x l r = nokd nok z d x l r"
  by (cases d) (simp_all add: nokd_def nok_keep)

lemma aug_tree_keep:
  "keep S z z' \<Longrightarrow> 0 \<notin> S \<Longrightarrow> set (addrs t) \<inter> S = {} \<Longrightarrow> aug_tree nok z' t = aug_tree nok z t"
  using aug_tree_cong [of S nok z' z t] nok_keep by blast

lemma aug_path_keep:
  "keep S z z' \<Longrightarrow> 0 \<notin> S \<Longrightarrow> set (faddrs K) \<inter> S = {} \<Longrightarrow> p \<notin> S \<Longrightarrow>
   aug_path nok z' K p = aug_path nok z K p"
  using aug_path_cong [of S nok z' z K p] nok_keep by blast

text \<open>A rotation below a path: the path's top child is now \<open>new\<close>.\<close>

lemma aug_path_rotate:
  "aug_path nok (rb_heap.more h) K old \<Longrightarrow> old \<notin> set (faddrs K) \<Longrightarrow> new \<notin> set (faddrs K) \<Longrightarrow>
   old \<noteq> new \<Longrightarrow> old \<noteq> 0 \<Longrightarrow> new \<noteq> 0 \<Longrightarrow>
   distinct (faddrs K) \<Longrightarrow> aug_path nok (rb_heap.more (rotate cb old new h)) K new"
proof (cases K rule: fnodes.cases)
  case (2 d x c s J)
  assume asm: "aug_path nok (rb_heap.more h) K old" "old \<notin> set (faddrs K)"
    "new \<notin> set (faddrs K)" "old \<noteq> new" "old \<noteq> 0" "new \<noteq> 0" "distinct (faddrs K)"
  note keep = rotate_keep [of old new h]
  have "top s \<notin> {old, new}" using asm 2 by (cases s) auto
  then have "nokd nok (rb_heap.more (rotate cb old new h)) d x new (top s)"
    using asm 2 by (intro rotate_parent) auto
  moreover have "aug_tree nok (rb_heap.more (rotate cb old new h)) s"
    using asm 2 by (subst aug_tree_keep [OF keep]) auto
  moreover have "aug_path nok (rb_heap.more (rotate cb old new h)) J x"
    using asm 2 by (subst aug_path_keep [OF keep]) auto
  ultimately show ?thesis using 2 by simp
qed simp

text \<open>
  The common end of every rotation: the pointers of the node \<open>g\<close> and of its child \<open>x\<close> are already
  exchanged; \<open>__rb_rotate_set_parents\<close> and the callback make \<open>x\<close> the top of the subtree.
\<close>

lemma rotate_up_aug:
  assumes h: "path_at h K g 0" "rb_pc h g = up K 0 + colw cg" "rt_node h root = top_of K g"
    and g: "g \<noteq> 0" "aligned4 g" "child h e g = top b" "child h (opp e) g = top u"
      "tree_at h g b" "tree_at h g u"
    and x: "x \<noteq> 0" "aligned4 x" "child h e x = top a" "child h (opp e) x = g" "tree_at h x a"
    and d: "distinct (addrs (plug K (nd e (nd e a x Red b) g cg u)))"
    and aug: "nokd nok (rb_heap.more h) e x (top a) (top b)"
      "nokd nok (rb_heap.more h) e g x (top u)"
      "aug_tree nok (rb_heap.more h) a" "aug_tree nok (rb_heap.more h) b"
      "aug_tree nok (rb_heap.more h) u" "aug_path nok (rb_heap.more h) K g"
    and h': "h' = rotate cb g x (rb_rotate_set_parents g x root (colw co) h)"
  shows "aug_rb nok h' root (plug K (nd e a x cg (nd e b g co u)))"
    and "rb_frame (set (addrs (plug K (nd e (nd e a x Red b) g cg u)))) root h h'"
    and "keep {g, x} (rb_heap.more h) (rb_heap.more h')"
proof -
  define h2 where "h2 = put_child K root x (set_pc g (x + colw co) (set_pc x (up K 0 + colw cg) h))"
  have nin: "top a \<notin> {g, x}" "top b \<notin> {g, x}" "top u \<notin> {g, x}"
    using d g x h tree_at_0 by (intro top_notin; fastforce)+
  have rsp: "rb_rotate_set_parents g x root (colw co) h = h2"
    unfolding h2_def by (rule rb_rotate_set_parents_path [OF h(1,2)]) (use d g in auto)
  have h'_eq: "h' = rotate cb g x h2"
    unfolding h' rsp ..
  have more: "rb_heap.more h2 = rb_heap.more h"
    by (simp add: h2_def)
  note keep = rotate_keep [of g x h2, unfolded more]
  have chl: "child h2 e x = top a" "child h2 (opp e) x = g"
    "child h2 e g = top b" "child h2 (opp e) g = top u"
    unfolding h2_def using d x g by (auto simp: put_child_simps)
  have trees: "tree_at h2 x a" "tree_at h2 g b" "tree_at h2 g u"
    unfolding h2_def using d x g nin by (auto simp: put_child_simps Int_Un_distrib2)
  have path: "path_at h2 K x 0" "rt_node h2 root = top_of K x"
    unfolding h2_def using d h by (auto simp: put_child_simps)
  have pcs: "rb_pc h2 x = up K 0 + colw cg" "rb_pc h2 g = x + colw co"
    using d by (auto simp: h2_def)
  have nok: "nokd nok (rb_heap.more h') e g (top b) (top u)" "nokd nok (rb_heap.more h') e x (top a) g"
    unfolding h'_eq using rotate_nok [of g x h2 e "top b" "top u" "top a"] chl nin aug d g x
    by (auto simp: more)
  have augs: "aug_tree nok (rb_heap.more h') a" "aug_tree nok (rb_heap.more h') b"
    "aug_tree nok (rb_heap.more h') u"
    unfolding h'_eq using aug d g x by (subst aug_tree_keep [OF keep]; auto)+
  have augp: "aug_path nok (rb_heap.more h') K x"
    unfolding h'_eq using aug d g x by (intro aug_path_rotate) (auto simp: more)
  show "aug_rb nok h' root (plug K (nd e a x cg (nd e b g co u)))"
    unfolding aug_rb_plug using d g x chl trees path pcs nok augs augp
    by (auto simp: h'_eq)
  show "rb_frame (set (addrs (plug K (nd e (nd e a x Red b) g cg u)))) root h h'"
    unfolding h'_eq h2_def
    by (auto intro!: rotate_frame put_child_frame rb_frame_store)
  show "keep {g, x} (rb_heap.more h) (rb_heap.more h')"
    using keep by (simp add: h'_eq)
qed

text \<open>
  A step from the tree \<open>T\<close> of \<open>h\<close> to the tree \<open>t\<close> of \<open>h'\<close>: only the nodes of \<open>T\<close> and the root
  changed, in the trees' fields and in the augmented data.
\<close>

definition rb_ok where
  "rb_ok h root t T h' \<longleftrightarrow>
     aug_rb nok h' root t \<and> rb_frame (set (addrs T)) root h h' \<and>
     keep (set (addrs T)) (rb_heap.more h) (rb_heap.more h')"

lemma rb_ok_trans:
  "rb_ok h root t T h' \<Longrightarrow> rb_ok h' root t' T' h'' \<Longrightarrow> set (addrs T') = set (addrs T) \<Longrightarrow>
   rb_ok h root t' T h''"
  unfolding rb_ok_def
  by (metis keep_trans rb_frame_trans sup.idem)

end

text \<open>The dummy callbacks keep no data.\<close>

interpretation dummy: rb_augment dummy_callbacks "\<lambda>z x l r. True" "\<lambda>S z z'. z' = z"
proof
  fix z z' :: 'z and K p
  have [simp]: "aug_tree (\<lambda>z x l r. True) z t" for z :: 'z and t by (induction t) auto
  have [simp]: "aug_path (\<lambda>z x l r. True) z K p" for z :: 'z and K p
    by (induction K arbitrary: p rule: fnodes.induct) (auto simp: nokd_def split: dir.splits)
  show "\<exists>h'. propagate dummy_callbacks (up K stop) stop h = Some h' \<and> same_shape h h' \<and>
      rb_heap.more h' = rb_heap.more h \<and> aug_path (\<lambda>z x l r. True) (rb_heap.more h') K p"
    for h :: "'z rb_heap_scheme" and stop
    by (simp add: dummy_callbacks_def)
qed (auto simp: dummy_callbacks_def nokd_def split: dir.splits)

end
