(* ===== verification/Rb_Insert.thy ===== *)
theory Rb_Insert
  imports Rb_Rep
begin

text \<open>
  \<open>__rb_insert\<close> of \<open>rbtree.c\<close>, statement by statement over the heap, and its refinement of
  \<open>ins_fix\<close>.  The two halves of the loop are mirror images; a first lemma folds them into one,
  for a side \<open>e\<close>, and the rest is proved once.
\<close>

section \<open>The code\<close>

text \<open>
  The loop; \<open>rot\<close> is \<open>augment_rotate\<close>.  A null grandparent, which the code would dereference,
  ends the run, and so does a loop that does not end.
\<close>

partial_function (option) rb_insert_loop ::
    "(ptr \<Rightarrow> ptr \<Rightarrow> 'z rb_heap_scheme \<Rightarrow> 'z rb_heap_scheme) \<Rightarrow> ptr \<Rightarrow> ptr \<Rightarrow> ptr \<Rightarrow>
     'z rb_heap_scheme \<Rightarrow> 'z rb_heap_scheme option" where
  "rb_insert_loop rot root node parent h =
     (if parent = 0 then Some (rb_set_parent_color node 0 RB_BLACK h)
      else if rb_is_black h parent then Some h
      else
        let gparent = rb_red_parent h parent in
        do {
          chk gparent;
          let tmp = rb_right h gparent;
          if parent \<noteq> tmp then
            (if tmp \<noteq> 0 \<and> rb_is_red h tmp then
               let h = rb_set_parent_color tmp gparent RB_BLACK h;
                   h = rb_set_parent_color parent gparent RB_BLACK h;
                   node = gparent;
                   parent = rb_parent h node;
                   h = rb_set_parent_color node parent RB_RED h
               in rb_insert_loop rot root node parent h
             else
               let tmp = rb_right h parent;
                   (parent, tmp, h) =
                     (if node = tmp then
                        let tmp = rb_left h node;
                            h = set_right parent tmp h;
                            h = set_left node parent h;
                            h = (if tmp \<noteq> 0 then rb_set_parent_color tmp parent RB_BLACK h else h);
                            h = rb_set_parent_color parent node RB_RED h;
                            h = rot parent node h
                        in (node, rb_right h node, h)
                      else (parent, tmp, h));
                   h = set_left gparent tmp h;
                   h = set_right parent gparent h;
                   h = (if tmp \<noteq> 0 then rb_set_parent_color tmp gparent RB_BLACK h else h);
                   h = rb_rotate_set_parents gparent parent root RB_RED h
               in Some (rot gparent parent h))
          else
            let tmp = rb_left h gparent in
            (if tmp \<noteq> 0 \<and> rb_is_red h tmp then
               let h = rb_set_parent_color tmp gparent RB_BLACK h;
                   h = rb_set_parent_color parent gparent RB_BLACK h;
                   node = gparent;
                   parent = rb_parent h node;
                   h = rb_set_parent_color node parent RB_RED h
               in rb_insert_loop rot root node parent h
             else
               let tmp = rb_left h parent;
                   (parent, tmp, h) =
                     (if node = tmp then
                        let tmp = rb_right h node;
                            h = set_left parent tmp h;
                            h = set_right node parent h;
                            h = (if tmp \<noteq> 0 then rb_set_parent_color tmp parent RB_BLACK h else h);
                            h = rb_set_parent_color parent node RB_RED h;
                            h = rot parent node h
                        in (node, rb_left h node, h)
                      else (parent, tmp, h));
                   h = set_right gparent tmp h;
                   h = set_left parent gparent h;
                   h = (if tmp \<noteq> 0 then rb_set_parent_color tmp gparent RB_BLACK h else h);
                   h = rb_rotate_set_parents gparent parent root RB_RED h
               in Some (rot gparent parent h))
        })"

definition rb_insert_internal ::
    "ptr \<Rightarrow> ptr \<Rightarrow> (ptr \<Rightarrow> ptr \<Rightarrow> 'z rb_heap_scheme \<Rightarrow> 'z rb_heap_scheme) \<Rightarrow>
     'z rb_heap_scheme \<Rightarrow> 'z rb_heap_scheme option" where
  "rb_insert_internal node root augment_rotate h =
     do { chk node; rb_insert_loop augment_rotate root node (rb_red_parent h node) h }"

definition rb_insert_color :: "ptr \<Rightarrow> ptr \<Rightarrow> 'z rb_heap_scheme \<Rightarrow> 'z rb_heap_scheme option" where
  "rb_insert_color node root h = rb_insert_internal node root (rotate dummy_callbacks) h"

definition rb_insert_augmented ::
    "ptr \<Rightarrow> ptr \<Rightarrow> 'z rb_heap_scheme rb_augment_callbacks \<Rightarrow>
     'z rb_heap_scheme \<Rightarrow> 'z rb_heap_scheme option" where
  "rb_insert_augmented node root augment h = rb_insert_internal node root (rotate augment) h"

section \<open>One loop body for both sides\<close>

definition ins_rotate_inner ::
    "dir \<Rightarrow> (ptr \<Rightarrow> ptr \<Rightarrow> 'z rb_heap_scheme \<Rightarrow> 'z rb_heap_scheme) \<Rightarrow> ptr \<Rightarrow> ptr \<Rightarrow>
     'z rb_heap_scheme \<Rightarrow> 'z rb_heap_scheme" where
  "ins_rotate_inner e rot node parent h =
     (let tmp = child h e node;
          h = set_child (opp e) parent tmp h;
          h = set_child e node parent h;
          h = adopt tmp parent h;
          h = rb_set_parent_color parent node RB_RED h
      in rot parent node h)"

definition ins_rotate_outer ::
    "dir \<Rightarrow> (ptr \<Rightarrow> ptr \<Rightarrow> 'z rb_heap_scheme \<Rightarrow> 'z rb_heap_scheme) \<Rightarrow> ptr \<Rightarrow> ptr \<Rightarrow> ptr \<Rightarrow>
     'z rb_heap_scheme \<Rightarrow> 'z rb_heap_scheme" where
  "ins_rotate_outer e rot root parent gparent h =
     (let tmp = child h (opp e) parent;
          h = set_child e gparent tmp h;
          h = set_child (opp e) parent gparent h;
          h = adopt tmp gparent h;
          h = rb_rotate_set_parents gparent parent root RB_RED h
      in rot gparent parent h)"

definition ins_flip :: "ptr \<Rightarrow> ptr \<Rightarrow> ptr \<Rightarrow> 'z rb_heap_scheme \<Rightarrow> 'z rb_heap_scheme" where
  "ins_flip uncle parent gparent h =
     (let h = rb_set_parent_color uncle gparent RB_BLACK h;
          h = rb_set_parent_color parent gparent RB_BLACK h
      in rb_set_parent_color gparent (rb_parent h gparent) RB_RED h)"

text \<open>The parts of the body, as the two halves of the code write them.\<close>

lemma ins_rotate_inner_left:
  "ins_rotate_inner Lft rot node parent h =
     (let tmp = rb_left h node;
          h = set_right parent tmp h;
          h = set_left node parent h;
          h = (if tmp \<noteq> 0 then rb_set_parent_color tmp parent RB_BLACK h else h);
          h = rb_set_parent_color parent node RB_RED h
      in rot parent node h)"
  by (simp add: ins_rotate_inner_def adopt_def left_right_child set_left_right_child)

lemma ins_rotate_inner_right:
  "ins_rotate_inner Rgt rot node parent h =
     (let tmp = rb_right h node;
          h = set_left parent tmp h;
          h = set_right node parent h;
          h = (if tmp \<noteq> 0 then rb_set_parent_color tmp parent RB_BLACK h else h);
          h = rb_set_parent_color parent node RB_RED h
      in rot parent node h)"
  by (simp add: ins_rotate_inner_def adopt_def left_right_child set_left_right_child)

lemma ins_rotate_outer_left:
  "ins_rotate_outer Lft rot root parent gparent h =
     (let tmp = rb_right h parent;
          h = set_left gparent tmp h;
          h = set_right parent gparent h;
          h = (if tmp \<noteq> 0 then rb_set_parent_color tmp gparent RB_BLACK h else h);
          h = rb_rotate_set_parents gparent parent root RB_RED h
      in rot gparent parent h)"
  by (simp add: ins_rotate_outer_def adopt_def left_right_child set_left_right_child)

lemma ins_rotate_outer_right:
  "ins_rotate_outer Rgt rot root parent gparent h =
     (let tmp = rb_left h parent;
          h = set_right gparent tmp h;
          h = set_left parent gparent h;
          h = (if tmp \<noteq> 0 then rb_set_parent_color tmp gparent RB_BLACK h else h);
          h = rb_rotate_set_parents gparent parent root RB_RED h
      in rot gparent parent h)"
  by (simp add: ins_rotate_outer_def adopt_def left_right_child set_left_right_child)

lemma ins_flip_parent:
  "ins_flip uncle parent gparent h =
     rb_set_parent_color gparent
       (rb_parent (rb_set_parent_color parent gparent RB_BLACK
                     (rb_set_parent_color uncle gparent RB_BLACK h)) gparent) RB_RED
       (rb_set_parent_color parent gparent RB_BLACK
          (rb_set_parent_color uncle gparent RB_BLACK h))"
  by (simp add: ins_flip_def Let_def)

lemma rb_insert_loop_stop:
  "rb_insert_loop rot root node 0 h = Some (rb_set_parent_color node 0 RB_BLACK h)"
  "parent \<noteq> 0 \<Longrightarrow> rb_is_black h parent \<Longrightarrow> rb_insert_loop rot root node parent h = Some h"
  by (subst rb_insert_loop.simps; simp)+

lemma rb_insert_loop_flip:
  assumes "parent \<noteq> 0" "\<not> rb_is_black h parent" "rb_red_parent h parent = gparent" "gparent \<noteq> 0"
    and "e = (if parent \<noteq> rb_right h gparent then Lft else Rgt)"
    and "uncle = child h (opp e) gparent" "uncle \<noteq> 0" "rb_is_red h uncle"
  shows "rb_insert_loop rot root node parent h =
    rb_insert_loop rot root gparent
      (rb_parent (rb_set_parent_color parent gparent RB_BLACK
                    (rb_set_parent_color uncle gparent RB_BLACK h)) gparent)
      (ins_flip uncle parent gparent h)"
proof (cases "parent \<noteq> rb_right h gparent")
  case True
  with assms show ?thesis
    by (subst rb_insert_loop.simps) (simp add: ins_flip_parent child_def Let_def)
next
  case False
  with assms show ?thesis
    by (subst rb_insert_loop.simps) (simp add: ins_flip_parent child_def Let_def)
qed

lemma rb_insert_loop_outer:
  assumes "parent \<noteq> 0" "\<not> rb_is_black h parent" "rb_red_parent h parent = gparent" "gparent \<noteq> 0"
    and "e = (if parent \<noteq> rb_right h gparent then Lft else Rgt)"
    and "uncle = child h (opp e) gparent" "\<not> (uncle \<noteq> 0 \<and> rb_is_red h uncle)"
    and "node \<noteq> child h (opp e) parent"
  shows "rb_insert_loop rot root node parent h =
    Some (ins_rotate_outer e rot root parent gparent h)"
proof (cases "parent \<noteq> rb_right h gparent")
  case True
  with assms have e: "e = Lft" by simp
  show ?thesis
    using assms True unfolding e opp.simps
    by (subst rb_insert_loop.simps)
      (simp only: ins_rotate_outer_left Let_def chk_simps not_False_eq_True if_True if_False
        prod.case bind.bind_lunit left_right_child refl simp_thms)
next
  case False
  with assms have e: "e = Rgt" by simp
  show ?thesis
    using assms False unfolding e opp.simps
    by (subst rb_insert_loop.simps)
      (simp only: ins_rotate_outer_right Let_def chk_simps not_False_eq_True if_True if_False
        prod.case bind.bind_lunit left_right_child refl simp_thms)
qed

lemma rb_insert_loop_inner:
  assumes "parent \<noteq> 0" "\<not> rb_is_black h parent" "rb_red_parent h parent = gparent" "gparent \<noteq> 0"
    and "e = (if parent \<noteq> rb_right h gparent then Lft else Rgt)"
    and "uncle = child h (opp e) gparent" "\<not> (uncle \<noteq> 0 \<and> rb_is_red h uncle)"
    and "node = child h (opp e) parent"
  shows "rb_insert_loop rot root node parent h =
    Some (ins_rotate_outer e rot root node gparent (ins_rotate_inner e rot node parent h))"
proof (cases "parent \<noteq> rb_right h gparent")
  case True
  with assms have e: "e = Lft" by simp
  show ?thesis
    using assms True unfolding e opp.simps
    by (subst rb_insert_loop.simps)
      (simp only: ins_rotate_outer_left ins_rotate_inner_left Let_def chk_simps
        not_False_eq_True if_True if_False prod.case bind.bind_lunit left_right_child refl simp_thms)
next
  case False
  with assms have e: "e = Rgt" by simp
  show ?thesis
    using assms False unfolding e opp.simps
    by (subst rb_insert_loop.simps)
      (simp only: ins_rotate_outer_right ins_rotate_inner_right Let_def chk_simps
        not_False_eq_True if_True if_False prod.case bind.bind_lunit left_right_child refl simp_thms)
qed

section \<open>Refinement\<close>

text \<open>The root of the whole tree is black: the outermost frame is.\<close>

fun root_black :: "frame list \<Rightarrow> bool" where
  "root_black [] \<longleftrightarrow> True"
| "root_black (Fr d x c s # K) \<longleftrightarrow> (if K = [] then c = Black else root_black K)"

lemma pinv_root_black: "pinv K n \<Longrightarrow> root_black K"
  by (induction K n rule: pinv.induct) (auto simp: col_neq split: if_splits)

context rb_augment
begin

text \<open>The rotation at the grandparent \<open>g\<close>, whose new top is \<open>x\<close>.\<close>

lemma ins_rotate_outer_aug:
  assumes h: "path_at h K g 0" "rb_pc h g = up K 0 + colw cg" "rt_node h root = top_of K g"
    and g: "g \<noteq> 0" "aligned4 g" "child h (opp e) g = top u" "tree_at h g u"
    and x: "x \<noteq> 0" "aligned4 x" "child h e x = top a" "child h (opp e) x = top b"
      "tree_at h x a" "tree_at h x b"
    and d: "distinct (addrs (plug K (nd e (nd e a x Red b) g cg u)))"
    and aug: "nokd nok (rb_heap.more h) e x (top a) (top b)"
      "nokd nok (rb_heap.more h) e g x (top u)"
      "aug_tree nok (rb_heap.more h) a" "aug_tree nok (rb_heap.more h) b"
      "aug_tree nok (rb_heap.more h) u" "aug_path nok (rb_heap.more h) K g"
    and h': "h' = ins_rotate_outer e (rotate cb) root x g h"
  shows "aug_rb nok h' root (plug K (nd e a x cg (nd e (paint Black b) g Red u)))"
    and "rb_frame (set (addrs (plug K (nd e (nd e a x Red b) g cg u)))) root h h'"
    and "keep {g, x} (rb_heap.more h) (rb_heap.more h')"
proof -
  define h1 where "h1 = adopt (top b) g (set_child (opp e) x g (set_child e g (top b) h))"
  have nin: "top b \<notin> {g, x}" "top b \<notin> set (addrs a)" "top b \<notin> set (addrs u)"
    "top b \<notin> set (faddrs K)"
    using d g x h tree_at_0 path_at_0 by (intro top_notin; fastforce)+
  have h'_eq: "h' = rotate cb g x (rb_rotate_set_parents g x root (colw Red) h1)"
    unfolding h' ins_rotate_outer_def Let_def x h1_def by simp
  have more: "rb_heap.more h1 = rb_heap.more h"
    by (simp add: h1_def)
  have b1: "tree_at h1 g (paint Black b)"
    unfolding h1_def using x d by (intro tree_at_adopt [where q = x]) auto
  have pre: "path_at h1 K g 0" "rb_pc h1 g = up K 0 + colw cg" "rt_node h1 root = top_of K g"
    "g \<noteq> 0" "aligned4 g" "child h1 e g = top (paint Black b)" "child h1 (opp e) g = top u"
    "tree_at h1 g (paint Black b)" "tree_at h1 g u" "x \<noteq> 0" "aligned4 x" "child h1 e x = top a"
    "child h1 (opp e) x = g" "tree_at h1 x a"
    using b1 h g x d nin by (auto simp: h1_def)
  note up = rotate_up_aug [OF pre _ _ _ _ _ _ _ h'_eq, unfolded more]
  have "aug_rb nok h' root (plug K (nd e a x cg (nd e (paint Black b) g Red u)))"
    by (rule up(1)) (use d aug in auto)
  then show "aug_rb nok h' root (plug K (nd e a x cg (nd e (paint Black b) g Red u)))" .
  have "rb_frame (set (addrs (plug K (nd e (nd e a x Red b) g cg u)))) root h h1"
    unfolding h1_def using top_in_addrs [of b]
    by (cases "b = Lf") (auto intro!: adopt_frame rb_frame_store)
  moreover have "rb_frame (set (addrs (plug K (nd e (nd e a x Red (paint Black b)) g cg u)))) root h1 h'"
    by (rule up(2)) (use d aug in auto)
  ultimately show "rb_frame (set (addrs (plug K (nd e (nd e a x Red b) g cg u)))) root h h'"
    using rb_frame_trans by fastforce
  show "keep {g, x} (rb_heap.more h) (rb_heap.more h')"
    by (rule up(3)) (use d aug in auto)
qed

text \<open>The rotation at the parent \<open>p\<close>, for a node \<open>n\<close> on its inner side.\<close>

lemma ins_rotate_inner_aug:
  assumes p: "p \<noteq> 0" "aligned4 p" "child h e p = top s" "tree_at h p s"
    and n: "n \<noteq> 0" "child h e n = top a" "child h (opp e) n = top b"
      "tree_at h n a" "tree_at h n b" "child h (opp e) p = n"
    and d: "distinct (addrs (nd e (nd e s p Red (nd e a n cn b)) g cg u))" "g \<noteq> 0"
    and u: "tree_at h g u"
    and aug: "nokd nok (rb_heap.more h) e p (top s) n" "nokd nok (rb_heap.more h) e n (top a) (top b)"
      "nokd nok (rb_heap.more h) e g p (top u)"
      "aug_tree nok (rb_heap.more h) s" "aug_tree nok (rb_heap.more h) a"
      "aug_tree nok (rb_heap.more h) b" "aug_tree nok (rb_heap.more h) u"
    and h': "h' = ins_rotate_inner e (rotate cb) n p h"
  shows "child h' e n = p" "child h' (opp e) n = top b" "tree_at h' n b"
    "tree_at h' n (nd e s p Red (paint Black a))"
    "nokd nok (rb_heap.more h') e n p (top b)" "nokd nok (rb_heap.more h') e g n (top u)"
    "aug_tree nok (rb_heap.more h') (nd e s p Red (paint Black a))"
    "aug_tree nok (rb_heap.more h') b" "aug_tree nok (rb_heap.more h') u"
    and "\<And>y. y \<notin> {p, n} \<Longrightarrow> child h' f y = child h f y"
    and "\<And>y. y \<notin> insert p (set (addrs a)) \<Longrightarrow> rb_pc h' y = rb_pc h y"
    and "\<And>t par. set (addrs t) \<inter> insert p (insert n (set (addrs a))) = {} \<Longrightarrow>
           tree_at h' par t = tree_at h par t"
    and "\<And>J q. set (faddrs J) \<inter> insert p (insert n (set (addrs a))) = {} \<Longrightarrow>
           path_at h' J q 0 = path_at h J q 0"
    and "rt_node h' = rt_node h"
    and "rb_frame (insert p (insert n (set (addrs a)))) root h h'"
    and "keep {p, n} (rb_heap.more h) (rb_heap.more h')"
proof -
  define h1 where
    "h1 = set_pc p (n + RB_RED) (adopt (top a) p (set_child e n p (set_child (opp e) p (top a) h)))"
  have h'_eq: "h' = rotate cb p n h1"
    by (simp add: h' ins_rotate_inner_def Let_def h1_def n rb_set_parent_color_def)
  have nin: "top a \<notin> {p, n}" "top b \<notin> {p, n}" "top s \<notin> {p, n}" "top u \<notin> {p, n}"
    "top a \<notin> set (addrs b)" "top a \<notin> set (addrs s)"
    using d n p u tree_at_0 by (intro top_notin; fastforce)+
  have more: "rb_heap.more h1 = rb_heap.more h"
    by (simp add: h1_def)
  note keep = rotate_keep [of p n h1, unfolded more]
  have chl: "child h1 e n = p" "child h1 (opp e) n = top b" "child h1 e p = top s"
    "child h1 (opp e) p = top a"
    unfolding h1_def using n p d by auto
  have a1: "tree_at h1 p (paint Black a)"
    unfolding h1_def using n d by (subst tree_at_store) (auto intro: tree_at_adopt [where q = n])
  have trees: "tree_at h1 n b" "tree_at h1 p s"
    unfolding h1_def using n p d nin by auto
  have nok: "nokd nok (rb_heap.more h') (opp e) p (top a) (top s)"
    "nokd nok (rb_heap.more h') (opp e) n (top b) p"
    unfolding h'_eq using rotate_nok [of p n h1 "opp e" "top a" "top s" "top b"] chl nin aug d n p
    by (auto simp: more)
  have nokg: "nokd nok (rb_heap.more h') e g n (top u)"
    unfolding h'_eq using aug d n p nin by (intro rotate_parent) (auto simp: more)
  have augs: "aug_tree nok (rb_heap.more h') s" "aug_tree nok (rb_heap.more h') a"
    "aug_tree nok (rb_heap.more h') b" "aug_tree nok (rb_heap.more h') u"
    unfolding h'_eq using aug d n p by (subst aug_tree_keep [OF keep]; auto)+
  show "child h' e n = p" "child h' (opp e) n = top b" "tree_at h' n b"
    using chl trees by (simp_all add: h'_eq)
  show "tree_at h' n (nd e s p Red (paint Black a))"
    using chl trees a1 p by (simp add: h'_eq) (simp add: h1_def)
  show "nokd nok (rb_heap.more h') e n p (top b)" "nokd nok (rb_heap.more h') e g n (top u)"
    "aug_tree nok (rb_heap.more h') (nd e s p Red (paint Black a))"
    "aug_tree nok (rb_heap.more h') b" "aug_tree nok (rb_heap.more h') u"
    using nok nokg augs by simp_all
  show "\<And>y. y \<notin> {p, n} \<Longrightarrow> child h' f y = child h f y"
    by (simp add: h'_eq h1_def)
  show "\<And>y. y \<notin> insert p (set (addrs a)) \<Longrightarrow> rb_pc h' y = rb_pc h y"
    using top_in_addrs [of a] by (cases a) (auto simp: h'_eq h1_def)
  show "tree_at h' par t = tree_at h par t"
    if "set (addrs t) \<inter> insert p (insert n (set (addrs a))) = {}" for t par
    using that n by (cases a) (auto simp: h'_eq h1_def adopt_def rb_set_parent_color_def)
  show "path_at h' J q 0 = path_at h J q 0"
    if "set (faddrs J) \<inter> insert p (insert n (set (addrs a))) = {}" for J q
    using that n by (cases a) (auto simp: h'_eq h1_def adopt_def rb_set_parent_color_def)
  show "rt_node h' = rt_node h"
    by (simp add: h'_eq h1_def)
  show "rb_frame (insert p (insert n (set (addrs a)))) root h h'"
    unfolding h'_eq h1_def by (cases a) (auto intro!: rotate_frame adopt_frame rb_frame_store)
  show "keep {p, n} (rb_heap.more h) (rb_heap.more h')"
    using keep by (simp add: h'_eq)
qed

lemma ins_flip_aug:
  assumes "aug_rb nok h root (plug (Fr d p Red s # Fr e g cg u # K) t)" "u \<noteq> Lf"
  shows "rb_ok h root (plug K (nd e (nd d t p Black s) g Red (paint Black u)))
      (plug (Fr d p Red s # Fr e g cg u # K) t) (ins_flip (top u) p g h)"
    and "rb_parent (rb_set_parent_color p g RB_BLACK
            (rb_set_parent_color (top u) g RB_BLACK h)) g = up K 0"
proof -
  let ?T = "plug (Fr d p Red s # Fr e g cg u # K) t"
  let ?h = "set_pc p (g + RB_BLACK) (set_pc (top u) (g + RB_BLACK) h)"
  note a = assms(1)[unfolded aug_rb_plug]
  have k: "aligned4 (up K 0)" "rb_pc h g = up K 0 + colw cg"
    using a path_at_up [of h K g 0] by auto
  have nin: "top u \<notin> {p, g}" "top u \<notin> set (addrs t)" "top u \<notin> set (addrs s)"
    "top u \<notin> set (faddrs K)"
    using a tree_at_0 path_at_0 by (intro top_notin; fastforce)+
  have "rb_parent ?h g = rb_parent h g"
    using nin a by (auto simp: rb_parent_def)
  also have par: "rb_parent h g = up K 0"
    using k by (simp add: rb_parent_eq)
  finally show "rb_parent (rb_set_parent_color p g RB_BLACK
            (rb_set_parent_color (top u) g RB_BLACK h)) g = up K 0"
    by (simp add: rb_set_parent_color_def)
  then have eq: "ins_flip (top u) p g h = set_pc g (up K 0 + RB_RED) ?h"
    by (simp add: ins_flip_def rb_set_parent_color_def)
  have u: "tree_at (set_pc (top u) (g + RB_BLACK) h) g (paint Black u)"
    using tree_at_recolor [of h g u g Black] a assms(2) by auto
  have "aug_rb nok (set_pc g (up K 0 + RB_RED) ?h) root
      (plug K (nd e (nd d t p Black s) g Red (paint Black u)))"
    unfolding aug_rb_plug using a nin u by (auto simp: Int_Un_distrib2)
  then show "rb_ok h root (plug K (nd e (nd d t p Black s) g Red (paint Black u))) ?T
      (ins_flip (top u) p g h)"
    using assms(2) top_in_addrs [of u] by (simp add: rb_ok_def eq keep_refl)
qed

lemma ins_outer_ok:
  assumes "aug_rb nok h root (plug (Fr e p Red s # Fr e g cg u # K) t)"
  shows "rb_ok h root (plug K (nd e t p cg (nd e (paint Black s) g Red u)))
      (plug (Fr e p Red s # Fr e g cg u # K) t) (ins_rotate_outer e (rotate cb) root p g h)"
proof -
  note a = assms[unfolded aug_rb_plug]
  have d: "distinct (addrs (plug K (nd e (nd e t p Red s) g cg u)))"
    using a by auto
  have pre: "path_at h K g 0" "rb_pc h g = up K 0 + colw cg" "rt_node h root = top_of K g"
    "g \<noteq> 0" "aligned4 g" "child h (opp e) g = top u" "tree_at h g u"
    "p \<noteq> 0" "aligned4 p" "child h e p = top t" "child h (opp e) p = top s"
    "tree_at h p t" "tree_at h p s"
    "nokd nok (rb_heap.more h) e p (top t) (top s)" "nokd nok (rb_heap.more h) e g p (top u)"
    "aug_tree nok (rb_heap.more h) t" "aug_tree nok (rb_heap.more h) s"
    "aug_tree nok (rb_heap.more h) u" "aug_path nok (rb_heap.more h) K g"
    using a by simp_all
  note outer = ins_rotate_outer_aug [OF pre(1-13) d pre(14-19) refl]
  have "{g, p} \<subseteq> set (addrs (plug (Fr e p Red s # Fr e g cg u # K) t))" by simp
  with outer show ?thesis
    unfolding rb_ok_def by (auto intro: keep_mono)
qed

lemma ins_inner_ok:
  assumes "aug_rb nok h root (plug (Fr (opp e) p Red s # Fr e g cg u # K) (nd e a n cn b))"
  shows "rb_ok h root
      (plug K (nd e (nd e s p Red (paint Black a)) n cg (nd e (paint Black b) g Red u)))
      (plug (Fr (opp e) p Red s # Fr e g cg u # K) (nd e a n cn b))
      (ins_rotate_outer e (rotate cb) root n g (ins_rotate_inner e (rotate cb) n p h))"
proof -
  let ?h1 = "ins_rotate_inner e (rotate cb) n p h"
  let ?P = "nd e s p Red (paint Black a)"
  note h = assms[unfolded aug_rb_plug]
  have d: "distinct (addrs (nd e (nd e s p Red (nd e a n cn b)) g cg u))"
    "distinct (addrs (plug K (nd e (nd e ?P n Red b) g cg u)))"
    using h by auto
  have pre: "p \<noteq> 0" "aligned4 p" "child h e p = top s" "tree_at h p s" "n \<noteq> 0"
    "child h e n = top a" "child h (opp e) n = top b" "tree_at h n a" "tree_at h n b"
    "child h (opp e) p = n" "g \<noteq> 0" "tree_at h g u" "nokd nok (rb_heap.more h) e p (top s) n"
    "nokd nok (rb_heap.more h) e n (top a) (top b)" "nokd nok (rb_heap.more h) e g p (top u)"
    "aug_tree nok (rb_heap.more h) s" "aug_tree nok (rb_heap.more h) a"
    "aug_tree nok (rb_heap.more h) b" "aug_tree nok (rb_heap.more h) u"
    using h by simp_all
  note inner = ins_rotate_inner_aug [OF pre(1-10) d(1) pre(11-19) refl]
  have dis: "g \<notin> {p, n}" "g \<notin> insert p (set (addrs a))"
    "set (addrs u) \<inter> insert p (insert n (set (addrs a))) = {}"
    "set (faddrs K) \<inter> insert p (insert n (set (addrs a))) = {}"
    using h by auto
  have g: "path_at ?h1 K g 0" "rb_pc ?h1 g = up K 0 + colw cg" "rt_node ?h1 root = top_of K g"
    "g \<noteq> 0" "aligned4 g" "child ?h1 (opp e) g = top u" "tree_at ?h1 g u" "n \<noteq> 0" "aligned4 n"
    using h inner(10)[OF dis(1)] inner(11)[OF dis(2)] inner(12)[OF dis(3)] inner(13)[OF dis(4)]
      inner(14) by simp_all
  have aug: "aug_path nok (rb_heap.more ?h1) K g"
    using h dis by (subst aug_path_keep [OF inner(16)]) auto
  have tops: "child ?h1 e n = top ?P" "nokd nok (rb_heap.more ?h1) e n (top ?P) (top b)"
    using inner(1,5) by simp_all
  note outer = ins_rotate_outer_aug [OF g tops(1) inner(2,4,3) d(2) tops(2) inner(6,7,8,9) aug refl]
  let ?T = "plug (Fr (opp e) p Red s # Fr e g cg u # K) (nd e a n cn b)"
  have sub: "{p, n} \<subseteq> set (addrs ?T)" "{g, n} \<subseteq> set (addrs ?T)"
    "insert p (insert n (set (addrs a))) \<subseteq> set (addrs ?T)"
    "set (addrs (plug K (nd e (nd e ?P n Red b) g cg u))) \<subseteq> set (addrs ?T)"
    by auto
  have "rb_frame (set (addrs ?T)) root h
      (ins_rotate_outer e (rotate cb) root n g ?h1)"
    using rb_frame_trans [OF rb_frame_mono [OF inner(15) sub(3)] rb_frame_mono [OF outer(2) sub(4)]]
    by simp
  moreover have "keep (set (addrs ?T)) (rb_heap.more h)
      (rb_heap.more (ins_rotate_outer e (rotate cb) root n g ?h1))"
    by (rule keep_trans [OF keep_mono [OF inner(16) sub(1)] keep_mono [OF outer(3) sub(2)]])
  ultimately show ?thesis
    using outer(1) unfolding rb_ok_def by blast
qed

lemma rb_insert_loop_aug:
  "aug_rb nok h root (plug K t) \<Longrightarrow> t \<noteq> Lf \<Longrightarrow> root_black K \<Longrightarrow>
   \<exists>h'. rb_insert_loop (rotate cb) root (top t) (up K 0) h = Some h' \<and>
        rb_ok h root (ins_fix t K) (plug K t) h'"
proof (induction t K arbitrary: h rule: ins_fix.induct)
  case (1 t)
  then have "tree_at h 0 t" "t \<noteq> Lf" by (simp_all add: aug_rb_def rb_tree_def)
  then have "tree_at (set_pc (top t) RB_BLACK h) 0 (paint Black t)"
    using tree_at_recolor [of h 0 t 0 Black] 1 by (simp add: aug_rb_def rb_tree_def)
  with 1 show ?case
    using top_in_addrs [of t]
    by (auto simp: rb_insert_loop_stop rb_ok_def aug_rb_def rb_tree_def rb_set_parent_color_def
      keep_refl)
next
  case (2 t d p s K)
  then have "path_at h (Fr d p Black s # K) (top t) 0" by (simp only: aug_rb_plug)
  then have "p \<noteq> 0" "rb_is_black h p"
    using path_at_up [of h K p 0] rb_is_black_eq [of h p "up K 0" Black] by auto
  with 2 show ?case by (simp add: rb_insert_loop_stop rb_ok_def keep_refl)
next
  case (3 t d p s)
  then show ?case by simp
next
  case (4 t d p s e g cg u K)
  let ?K = "Fr d p Red s # Fr e g cg u # K"
  note a = "4.prems"(1)[unfolded aug_rb_plug]
  have path: "path_at h ?K (top t) 0" using a by blast
  then have pg: "p \<noteq> 0" "aligned4 p" "g \<noteq> 0" "aligned4 g" "rb_pc h p = g + colw Red"
    "child h e g = p" "child h (opp e) g = top u"
    by auto
  have red: "\<not> rb_is_black h p" "rb_red_parent h p = g"
    using pg rb_is_black_eq [of h p g Red] by (simp_all add: rb_red_parent_def RB_RED_def)
  have up: "top u \<noteq> p" using a by (intro notI) (cases u; auto)
  then have e: "e = (if p \<noteq> rb_right h g then Lft else Rgt)"
    using pg by (cases e) (auto simp: child_def)
  have ured: "top u \<noteq> 0 \<and> rb_is_red h (top u) \<longleftrightarrow> color u = Red"
    using a by (cases u) (auto simp: rb_is_red_eq)
  have tt: "top t \<noteq> 0" using a "4.prems" tree_at_top by auto
  note code = pg(1) red pg(3) e pg(7)[symmetric]
  show ?case
  proof (cases "color u = Red")
    case True
    then have "u \<noteq> Lf" by auto
    note flip = ins_flip_aug [OF "4.prems"(1) this]
    have "\<exists>h'. rb_insert_loop (rotate cb) root g (up K 0) (ins_flip (top u) p g h) = Some h' \<and>
        rb_ok (ins_flip (top u) p g h) root (ins_fix (nd e (nd d t p Black s) g Red (paint Black u)) K)
          (plug K (nd e (nd d t p Black s) g Red (paint Black u))) h'"
      using "4.IH"[OF True, of "ins_flip (top u) p g h"] flip(1) "4.prems"(3)
      by (auto simp: rb_ok_def split: if_splits)
    moreover have "rb_insert_loop (rotate cb) root (top t) p h =
        rb_insert_loop (rotate cb) root g (up K 0) (ins_flip (top u) p g h)"
      using rb_insert_loop_flip [OF code] ured True flip(2) by auto
    ultimately show ?thesis
      using rb_ok_trans [OF flip(1)] True by auto
  next
    case nored: False
    show ?thesis
    proof (cases "d = e")
      case True
      have "child h (opp d) p \<noteq> top t"
        using a tt top_in_addrs [of t] "4.prems"(2) by (cases s) auto
      then have run: "rb_insert_loop (rotate cb) root (top t) p h =
          Some (ins_rotate_outer e (rotate cb) root p g h)"
        using rb_insert_loop_outer [OF code] ured nored True by auto
      show ?thesis
        using run ins_outer_ok [of h root e p s g cg u K t] "4.prems"(1) True nored by auto
    next
      case False
      obtain a n cn b where t: "t = nd e a n cn b"
        using "4.prems"(2) by (cases t rule: nd_cases [where d = e]) auto
      have d: "d = opp e" using False by simp
      have "rb_insert_loop (rotate cb) root (top t) p h =
          Some (ins_rotate_outer e (rotate cb) root n g (ins_rotate_inner e (rotate cb) n p h))"
        using rb_insert_loop_inner [OF code] ured nored a d t by auto
      then show ?thesis
        using ins_inner_ok [of h root e p s g cg u K a n cn b] "4.prems"(1) t d nored by auto
    qed
  qed
qed

end

end
