(* ===== verification/Rb_Erase.thy ===== *)
theory Rb_Erase
  imports Rb_Insert
begin

text \<open>
  Erasing a node: \<open>____rb_erase_color\<close> of \<open>rbtree.c\<close> and \<open>__rb_erase_augmented\<close> of
  \<open>rbtree_augmented.h\<close>, statement by statement over the heap, and their refinement of \<open>del_fix\<close>
  and \<open>erase_at\<close>.
\<close>

section \<open>The code\<close>

text \<open>
  The statements of Case 4, which Case 3 falls into; \<open>tmp1\<close> is the sibling's far child.  The use of
  a null pointer ends the run: \<open>chk\<close> stands before each pointer the code does not test.
\<close>

definition erase_case4_left ::
    "(ptr \<Rightarrow> ptr \<Rightarrow> 'z rb_heap_scheme \<Rightarrow> 'z rb_heap_scheme) \<Rightarrow> ptr \<Rightarrow> ptr \<Rightarrow> ptr \<Rightarrow> ptr \<Rightarrow>
     'z rb_heap_scheme \<Rightarrow> 'z rb_heap_scheme" where
  "erase_case4_left rot root parent sibling tmp1 h =
     (let tmp2 = rb_left h sibling;
          h = set_right parent tmp2 h;
          h = set_left sibling parent h;
          h = rb_set_parent_color tmp1 sibling RB_BLACK h;
          h = (if tmp2 \<noteq> 0 then rb_set_parent tmp2 parent h else h);
          h = rb_rotate_set_parents parent sibling root RB_BLACK h
      in rot parent sibling h)"

definition erase_case4_right ::
    "(ptr \<Rightarrow> ptr \<Rightarrow> 'z rb_heap_scheme \<Rightarrow> 'z rb_heap_scheme) \<Rightarrow> ptr \<Rightarrow> ptr \<Rightarrow> ptr \<Rightarrow> ptr \<Rightarrow>
     'z rb_heap_scheme \<Rightarrow> 'z rb_heap_scheme" where
  "erase_case4_right rot root parent sibling tmp1 h =
     (let tmp2 = rb_right h sibling;
          h = set_left parent tmp2 h;
          h = set_right sibling parent h;
          h = rb_set_parent_color tmp1 sibling RB_BLACK h;
          h = (if tmp2 \<noteq> 0 then rb_set_parent tmp2 parent h else h);
          h = rb_rotate_set_parents parent sibling root RB_BLACK h
      in rot parent sibling h)"

partial_function (option) rb_erase_color_loop ::
    "(ptr \<Rightarrow> ptr \<Rightarrow> 'z rb_heap_scheme \<Rightarrow> 'z rb_heap_scheme) \<Rightarrow> ptr \<Rightarrow> ptr \<Rightarrow> ptr \<Rightarrow>
     'z rb_heap_scheme \<Rightarrow> 'z rb_heap_scheme option" where
  "rb_erase_color_loop rot root node parent h =
     do {
       chk parent;
       let sibling = rb_right h parent;
       if node \<noteq> sibling then do {
         chk sibling;
         (sibling, h) \<leftarrow>
           (if rb_is_red h sibling then do {
              let tmp1 = rb_left h sibling;
              let h = set_right parent tmp1 h;
              let h = set_left sibling parent h;
              chk tmp1;
              let h = rb_set_parent_color tmp1 parent RB_BLACK h;
              let h = rb_rotate_set_parents parent sibling root RB_RED h;
              let h = rot parent sibling h;
              Some (tmp1, h)
            } else Some (sibling, h));
         let tmp1 = rb_right h sibling;
         if tmp1 = 0 \<or> rb_is_black h tmp1 then
           let tmp2 = rb_left h sibling in
           if tmp2 = 0 \<or> rb_is_black h tmp2 then
             let h = rb_set_parent_color sibling parent RB_RED h in
             if rb_is_red h parent then Some (rb_set_black parent h)
             else
               let node = parent;
                   parent = rb_parent h node
               in if parent \<noteq> 0 then rb_erase_color_loop rot root node parent h else Some h
           else
             let tmp1 = rb_right h tmp2;
                 h = set_left sibling tmp1 h;
                 h = set_right tmp2 sibling h;
                 h = set_right parent tmp2 h;
                 h = (if tmp1 \<noteq> 0 then rb_set_parent_color tmp1 sibling RB_BLACK h else h);
                 h = rot sibling tmp2 h
             in Some (erase_case4_left rot root parent tmp2 sibling h)
         else Some (erase_case4_left rot root parent sibling tmp1 h)
       } else do {
         let sibling = rb_left h parent;
         chk sibling;
         (sibling, h) \<leftarrow>
           (if rb_is_red h sibling then do {
              let tmp1 = rb_right h sibling;
              let h = set_left parent tmp1 h;
              let h = set_right sibling parent h;
              chk tmp1;
              let h = rb_set_parent_color tmp1 parent RB_BLACK h;
              let h = rb_rotate_set_parents parent sibling root RB_RED h;
              let h = rot parent sibling h;
              Some (tmp1, h)
            } else Some (sibling, h));
         let tmp1 = rb_left h sibling;
         if tmp1 = 0 \<or> rb_is_black h tmp1 then
           let tmp2 = rb_right h sibling in
           if tmp2 = 0 \<or> rb_is_black h tmp2 then
             let h = rb_set_parent_color sibling parent RB_RED h in
             if rb_is_red h parent then Some (rb_set_black parent h)
             else
               let node = parent;
                   parent = rb_parent h node
               in if parent \<noteq> 0 then rb_erase_color_loop rot root node parent h else Some h
           else
             let tmp1 = rb_left h tmp2;
                 h = set_right sibling tmp1 h;
                 h = set_left tmp2 sibling h;
                 h = set_left parent tmp2 h;
                 h = (if tmp1 \<noteq> 0 then rb_set_parent_color tmp1 sibling RB_BLACK h else h);
                 h = rot sibling tmp2 h
             in Some (erase_case4_right rot root parent tmp2 sibling h)
         else Some (erase_case4_right rot root parent sibling tmp1 h)
       }
     }"

definition rb_erase_color ::
    "ptr \<Rightarrow> ptr \<Rightarrow> (ptr \<Rightarrow> ptr \<Rightarrow> 'z rb_heap_scheme \<Rightarrow> 'z rb_heap_scheme) \<Rightarrow>
     'z rb_heap_scheme \<Rightarrow> 'z rb_heap_scheme option" where
  "rb_erase_color parent root augment_rotate h = rb_erase_color_loop augment_rotate root 0 parent h"

text \<open>The descent to the successor: \<open>do ... while (tmp)\<close> of Case 3.\<close>

partial_function (option) rb_successor_loop ::
    "'z rb_heap_scheme \<Rightarrow> ptr \<Rightarrow> ptr \<Rightarrow> (ptr \<times> ptr) option" where
  "rb_successor_loop h successor tmp =
     (let parent = successor;
          successor = tmp;
          tmp = rb_left h tmp
      in if tmp \<noteq> 0 then rb_successor_loop h successor tmp else Some (parent, successor))"

definition rb_erase_augmented_unlink ::
    "ptr \<Rightarrow> ptr \<Rightarrow> 'z rb_heap_scheme rb_augment_callbacks \<Rightarrow>
     'z rb_heap_scheme \<Rightarrow> (ptr \<times> 'z rb_heap_scheme) option" where
  "rb_erase_augmented_unlink node root augment h =
     do {
       chk node;
       let child = rb_right h node;
       let tmp = rb_left h node;
       (tmp, rebalance, h) \<leftarrow>
         (if tmp = 0 then
            let pc = rb_pc h node;
                parent = pc AND NOT 3;
                h = rb_change_child node child parent root h;
                (rebalance, h) =
                  (if child \<noteq> 0 then (0, set_pc child pc h)
                   else (if pc AND 1 \<noteq> 0 then parent else 0, h))
            in Some (parent, rebalance, h)
          else if child = 0 then
            let pc = rb_pc h node;
                h = set_pc tmp pc h;
                parent = pc AND NOT 3;
                h = rb_change_child node tmp parent root h
            in Some (parent, 0, h)
          else do {
            let successor = child;
            let tmp = rb_left h child;
            (parent, successor, child2, h) \<leftarrow>
              (if tmp = 0 then
                 let parent = successor;
                     child2 = rb_right h successor
                 in Some (parent, successor, child2, copy augment node successor h)
               else do {
                 (parent, successor) \<leftarrow> rb_successor_loop h successor tmp;
                 let child2 = rb_right h successor;
                 let h = set_left parent child2 h;
                 let h = set_right successor child h;
                 let h = rb_set_parent child successor h;
                 let h = copy augment node successor h;
                 h \<leftarrow> propagate augment parent successor h;
                 Some (parent, successor, child2, h)
               });
            let tmp = rb_left h node;
            let h = set_left successor tmp h;
            let h = rb_set_parent tmp successor h;
            let pc = rb_pc h node;
            let tmp = pc AND NOT 3;
            let h = rb_change_child node successor tmp root h;
            let (rebalance, h) =
              (if child2 \<noteq> 0 then (0, rb_set_parent_color child2 parent RB_BLACK h)
               else (if rb_is_black h successor then parent else 0, h));
            let h = set_pc successor pc h;
            Some (successor, rebalance, h)
          });
       h \<leftarrow> propagate augment tmp 0 h;
       Some (rebalance, h)
     }"

definition rb_erase_augmented ::
    "ptr \<Rightarrow> ptr \<Rightarrow> 'z rb_heap_scheme rb_augment_callbacks \<Rightarrow>
     'z rb_heap_scheme \<Rightarrow> 'z rb_heap_scheme option" where
  "rb_erase_augmented node root augment h =
     do {
       (rebalance, h) \<leftarrow> rb_erase_augmented_unlink node root augment h;
       if rebalance \<noteq> 0 then rb_erase_color rebalance root (rotate augment) h else Some h
     }"

definition rb_erase :: "ptr \<Rightarrow> ptr \<Rightarrow> 'z rb_heap_scheme \<Rightarrow> 'z rb_heap_scheme option" where
  "rb_erase node root h =
     do {
       (rebalance, h) \<leftarrow> rb_erase_augmented_unlink node root dummy_callbacks h;
       if rebalance \<noteq> 0 then rb_erase_color_loop (rotate dummy_callbacks) root 0 rebalance h
       else Some h
     }"

section \<open>One loop body for both sides\<close>

text \<open>\<open>d\<close> is the side of the node; its sibling is on the other.\<close>

definition del_case1 ::
    "dir \<Rightarrow> (ptr \<Rightarrow> ptr \<Rightarrow> 'z rb_heap_scheme \<Rightarrow> 'z rb_heap_scheme) \<Rightarrow> ptr \<Rightarrow> ptr \<Rightarrow> ptr \<Rightarrow>
     'z rb_heap_scheme \<Rightarrow> 'z rb_heap_scheme" where
  "del_case1 d rot root parent sibling h =
     (let tmp1 = child h d sibling;
          h = set_child (opp d) parent tmp1 h;
          h = set_child d sibling parent h;
          h = rb_set_parent_color tmp1 parent RB_BLACK h;
          h = rb_rotate_set_parents parent sibling root RB_RED h
      in rot parent sibling h)"

definition del_case3 ::
    "dir \<Rightarrow> (ptr \<Rightarrow> ptr \<Rightarrow> 'z rb_heap_scheme \<Rightarrow> 'z rb_heap_scheme) \<Rightarrow> ptr \<Rightarrow> ptr \<Rightarrow> ptr \<Rightarrow>
     'z rb_heap_scheme \<Rightarrow> 'z rb_heap_scheme" where
  "del_case3 d rot parent sibling tmp2 h =
     (let tmp1 = child h (opp d) tmp2;
          h = set_child d sibling tmp1 h;
          h = set_child (opp d) tmp2 sibling h;
          h = set_child (opp d) parent tmp2 h;
          h = adopt tmp1 sibling h
      in rot sibling tmp2 h)"

definition del_case4 ::
    "dir \<Rightarrow> (ptr \<Rightarrow> ptr \<Rightarrow> 'z rb_heap_scheme \<Rightarrow> 'z rb_heap_scheme) \<Rightarrow> ptr \<Rightarrow> ptr \<Rightarrow> ptr \<Rightarrow> ptr \<Rightarrow>
     'z rb_heap_scheme \<Rightarrow> 'z rb_heap_scheme" where
  "del_case4 d rot root parent sibling tmp1 h =
     (let tmp2 = child h d sibling;
          h = set_child (opp d) parent tmp2 h;
          h = set_child d sibling parent h;
          h = rb_set_parent_color tmp1 sibling RB_BLACK h;
          h = (if tmp2 \<noteq> 0 then rb_set_parent tmp2 parent h else h);
          h = rb_rotate_set_parents parent sibling root RB_BLACK h
      in rot parent sibling h)"

definition del_tail ::
    "(ptr \<Rightarrow> ptr \<Rightarrow> 'z rb_heap_scheme \<Rightarrow> 'z rb_heap_scheme option) \<Rightarrow> dir \<Rightarrow>
     (ptr \<Rightarrow> ptr \<Rightarrow> 'z rb_heap_scheme \<Rightarrow> 'z rb_heap_scheme) \<Rightarrow> ptr \<Rightarrow> ptr \<Rightarrow> ptr \<Rightarrow>
     'z rb_heap_scheme \<Rightarrow> 'z rb_heap_scheme option" where
  "del_tail loop d rot root parent sibling h =
     (let tmp1 = child h (opp d) sibling in
      if tmp1 = 0 \<or> rb_is_black h tmp1 then
        let tmp2 = child h d sibling in
        if tmp2 = 0 \<or> rb_is_black h tmp2 then
          let h = rb_set_parent_color sibling parent RB_RED h in
          if rb_is_red h parent then Some (rb_set_black parent h)
          else
            let node = parent;
                parent = rb_parent h node
            in if parent \<noteq> 0 then loop node parent h else Some h
        else Some (del_case4 d rot root parent tmp2 sibling (del_case3 d rot parent sibling tmp2 h))
      else Some (del_case4 d rot root parent sibling tmp1 h))"

lemma del_case4_sides:
  "erase_case4_left = del_case4 Lft" "erase_case4_right = del_case4 Rgt"
  by (simp_all add: fun_eq_iff erase_case4_left_def erase_case4_right_def del_case4_def
    child_def set_child_def Let_def)

lemma rb_erase_color_loop_left:
  assumes "parent \<noteq> 0" "node \<noteq> rb_right h parent" "sibling = rb_right h parent" "sibling \<noteq> 0"
    and "rb_is_red h sibling \<Longrightarrow> rb_left h sibling \<noteq> 0"
  shows "rb_erase_color_loop rot root node parent h =
    (if rb_is_red h sibling then
       del_tail (rb_erase_color_loop rot root) Lft rot root parent (child h Lft sibling)
         (del_case1 Lft rot root parent sibling h)
     else del_tail (rb_erase_color_loop rot root) Lft rot root parent sibling h)"
proof (cases "rb_is_red h sibling")
  case True
  with assms show ?thesis
    by (subst rb_erase_color_loop.simps)
      (simp only: if_True if_False not_False_eq_True simp_thms chk_simps bind.bind_lunit prod.case
        Let_def del_tail_def del_case1_def del_case3_def del_case4_sides opp.simps adopt_def
        left_right_child set_left_right_child)
next
  case False
  with assms show ?thesis
    by (subst rb_erase_color_loop.simps)
      (simp only: if_True if_False not_False_eq_True simp_thms chk_simps bind.bind_lunit prod.case
        Let_def del_tail_def del_case3_def del_case4_sides opp.simps adopt_def
        left_right_child set_left_right_child)
qed

lemma rb_erase_color_loop_right:
  assumes "parent \<noteq> 0" "node = rb_right h parent" "sibling = rb_left h parent" "sibling \<noteq> 0"
    and "rb_is_red h sibling \<Longrightarrow> rb_right h sibling \<noteq> 0"
  shows "rb_erase_color_loop rot root node parent h =
    (if rb_is_red h sibling then
       del_tail (rb_erase_color_loop rot root) Rgt rot root parent (child h Rgt sibling)
         (del_case1 Rgt rot root parent sibling h)
     else del_tail (rb_erase_color_loop rot root) Rgt rot root parent sibling h)"
proof (cases "rb_is_red h sibling")
  case True
  with assms show ?thesis
    by (subst rb_erase_color_loop.simps)
      (simp only: if_True if_False not_False_eq_True simp_thms chk_simps bind.bind_lunit prod.case
        Let_def del_tail_def del_case1_def del_case3_def del_case4_sides opp.simps adopt_def
        left_right_child set_left_right_child)
next
  case False
  with assms show ?thesis
    by (subst rb_erase_color_loop.simps)
      (simp only: if_True if_False not_False_eq_True simp_thms chk_simps bind.bind_lunit prod.case
        Let_def del_tail_def del_case3_def del_case4_sides opp.simps adopt_def
        left_right_child set_left_right_child)
qed

section \<open>Refinement\<close>

lemma tree_at_black:
  "tree_at h q t \<Longrightarrow> aligned4 q \<Longrightarrow> (top t = 0 \<or> rb_is_black h (top t)) \<longleftrightarrow> color t = Black"
  by (cases t) (simp_all add: rb_is_black_eq)

lemma tree_at_red:
  "tree_at h q t \<Longrightarrow> aligned4 q \<Longrightarrow> t \<noteq> Lf \<Longrightarrow> rb_is_red h (top t) \<longleftrightarrow> color t = Red"
  by (cases t) (simp_all add: rb_is_red_eq)

lemma tree_at_reparent:
  assumes "tree_at h q t" "aligned4 q" "distinct (addrs t)" "t \<noteq> Lf"
  shows "tree_at (rb_set_parent (top t) p h) p t"
proof -
  have "rb_color h (top t) = colw (color t)"
    using assms by (cases t) (simp_all add: rb_color_eq)
  then have "rb_set_parent (top t) p h = set_pc (top t) (p + colw (color t)) h"
    by (simp add: rb_set_parent_def add.commute)
  with tree_at_recolor [OF assms(1,3,4), of p "color t"] show ?thesis
    by (simp add: paint_color)
qed

text \<open>The conditional reparenting of Case 4.\<close>

definition reparent :: "ptr \<Rightarrow> ptr \<Rightarrow> 'z rb_heap_scheme \<Rightarrow> 'z rb_heap_scheme" where
  "reparent tmp p h = (if tmp \<noteq> 0 then rb_set_parent tmp p h else h)"

lemma reparent_sel [simp]:
  "y \<noteq> tmp \<Longrightarrow> rb_pc (reparent tmp p h) y = rb_pc h y"
  "rt_node (reparent tmp p h) = rt_node h" "child (reparent tmp p h) = child h"
  "rb_heap.more (reparent tmp p h) = rb_heap.more h"
  by (simp_all add: reparent_def rb_set_parent_def)

lemma reparent_tree_at [simp]:
  "tmp \<notin> set (addrs t) \<Longrightarrow> tree_at (reparent tmp p h) par t = tree_at h par t"
  "tmp \<notin> set (faddrs K) \<Longrightarrow> path_at (reparent tmp p h) K q stop = path_at h K q stop"
  by (simp_all add: reparent_def rb_set_parent_def)

lemma reparent_frame [simp]:
  "tmp = 0 \<or> tmp \<in> S \<Longrightarrow> rb_frame S root h h' \<Longrightarrow> rb_frame S root h (reparent tmp p h')"
  by (auto simp: reparent_def rb_set_parent_def)

lemma reparent_tree:
  "tree_at h q t \<Longrightarrow> aligned4 q \<Longrightarrow> distinct (addrs t) \<Longrightarrow> tree_at (reparent (top t) p h) p t"
  using tree_at_reparent [of h q t p] tree_at_top [of h q t] by (auto simp: reparent_def)

context rb_augment
begin

lemma del_case4_aug:
  assumes h: "path_at h K p 0" "rb_pc h p = up K 0 + colw c" "rt_node h root = top_of K p"
    and p: "p \<noteq> 0" "aligned4 p" "child h d p = top t" "tree_at h p t"
    and x: "x \<noteq> 0" "aligned4 x" "child h d x = top sl" "child h (opp d) x = top sr"
      "tree_at h x sl" "tree_at h q sr" "sr \<noteq> Lf"
    and d: "distinct (addrs (plug K (nd d t p c (nd d sl x Red sr))))"
    and aug: "nokd nok (rb_heap.more h) d x (top sl) (top sr)"
      "nokd nok (rb_heap.more h) d p (top t) x"
      "aug_tree nok (rb_heap.more h) t" "aug_tree nok (rb_heap.more h) sl"
      "aug_tree nok (rb_heap.more h) sr" "aug_path nok (rb_heap.more h) K p"
    and h': "h' = del_case4 d (rotate cb) root p x (top sr) h"
  shows "aug_rb nok h' root (plug K (nd d (nd d t p Black sl) x c (paint Black sr)))"
    and "rb_frame (set (addrs (plug K (nd d t p c (nd d sl x Red sr))))) root h h'"
    and "keep {p, x} (rb_heap.more h) (rb_heap.more h')"
proof -
  define h0 where "h0 = set_pc (top sr) (x + RB_BLACK) (set_child d x p (set_child (opp d) p (top sl) h))"
  define h1 where "h1 = reparent (top sl) p h0"
  have h'_eq: "h' = rotate cb p x (rb_rotate_set_parents p x root (colw Black) h1)"
    by (simp add: h' del_case4_def Let_def h1_def h0_def reparent_def x rb_set_parent_color_def)
  have sr: "top sr \<in> set (addrs sr)" "top sr \<noteq> 0"
    using x top_in_addrs [of sr] tree_at_0 [of h q sr] by auto
  have srn: "top sr \<noteq> p" "top sr \<noteq> x" "top sr \<notin> set (addrs sl)" "top sr \<notin> set (addrs t)"
    "top sr \<notin> set (faddrs K)"
    using d sr by auto
  have nin: "top sl \<notin> {p, x}" "top sl \<notin> set (addrs t)" "top sl \<notin> set (addrs sr)"
    "top sl \<notin> set (faddrs K)"
    using d p x h tree_at_0 path_at_0 by (intro top_notin; fastforce)+
  have more: "rb_heap.more h1 = rb_heap.more h"
    by (simp add: h1_def h0_def)
  have sl: "tree_at h1 p sl"
    unfolding h1_def
  proof (rule reparent_tree)
    show "tree_at h0 x sl"
      unfolding h0_def using x d srn by auto
  qed (use x d in auto)
  have "tree_at (set_child d x p (set_child (opp d) p (top sl) h)) q sr" "distinct (addrs sr)"
    using x d by auto
  from tree_at_recolor [OF this x(7), of x Black] have "tree_at h0 x (paint Black sr)"
    by (simp add: h0_def)
  then have b: "tree_at h1 x (paint Black sr)"
    unfolding h1_def using nin by simp
  have pre: "path_at h1 K p 0" "rb_pc h1 p = up K 0 + colw c" "rt_node h1 root = top_of K p"
    "p \<noteq> 0" "aligned4 p" "child h1 (opp d) p = top sl" "child h1 (opp (opp d)) p = top t"
    "tree_at h1 p sl" "tree_at h1 p t" "x \<noteq> 0" "aligned4 x"
    "child h1 (opp d) x = top (paint Black sr)" "child h1 (opp (opp d)) x = p"
    "tree_at h1 x (paint Black sr)"
    using sl b h p x d nin srn unfolding h1_def h0_def by auto
  note up = rotate_up_aug [OF pre _ _ _ _ _ _ _ h'_eq, unfolded more]
  have "aug_rb nok h' root (plug K (nd (opp d) (paint Black sr) x c (nd (opp d) sl p Black t)))"
    by (rule up(1)) (use d aug in auto)
  then show "aug_rb nok h' root (plug K (nd d (nd d t p Black sl) x c (paint Black sr)))"
    by simp
  have "rb_frame (set (addrs (plug K (nd d t p c (nd d sl x Red sr))))) root h h1"
    unfolding h1_def h0_def using top_in_addrs [of sl] sr
    by (cases "sl = Lf") (auto intro!: reparent_frame rb_frame_store)
  moreover have "rb_frame (set (addrs (plug K (nd (opp d) (nd (opp d) (paint Black sr) x Red sl)
      p c t)))) root h1 h'"
    by (rule up(2)) (use d aug in auto)
  then have "rb_frame (set (addrs (plug K (nd d t p c (nd d sl x Red sr))))) root h1 h'"
    by (rule rb_frame_mono) auto
  ultimately show "rb_frame (set (addrs (plug K (nd d t p c (nd d sl x Red sr))))) root h h'"
    using rb_frame_trans by fastforce
  show "keep {p, x} (rb_heap.more h) (rb_heap.more h')"
    by (rule up(3)) (use d aug in auto)
qed

lemma del_case3_aug:
  assumes a: "aug_rb nok h root (plug (Fr d p c (nd d (nd d a y cy b) x Black sr) # K) t)"
    and h': "h' = del_case3 d (rotate cb) p x y h"
  defines "s' \<equiv> nd d (paint Black b) x Black sr"
  shows "path_at h' K p 0" "rb_pc h' p = up K 0 + colw c" "rt_node h' root = top_of K p"
    "p \<noteq> 0" "aligned4 p" "child h' d p = top t" "tree_at h' p t"
    "y \<noteq> 0" "aligned4 y" "child h' d y = top a" "child h' (opp d) y = top s'"
    "tree_at h' y a" "tree_at h' p s'" "s' \<noteq> Lf"
    "distinct (addrs (plug K (nd d t p c (nd d a y Red s'))))"
    "nokd nok (rb_heap.more h') d y (top a) (top s')"
    "nokd nok (rb_heap.more h') d p (top t) y"
    "aug_tree nok (rb_heap.more h') t" "aug_tree nok (rb_heap.more h') a"
    "aug_tree nok (rb_heap.more h') s'" "aug_path nok (rb_heap.more h') K p"
    and "rb_frame (insert p (insert x (insert y (set (addrs b))))) root h h'"
    and "keep {x, y} (rb_heap.more h) (rb_heap.more h')"
proof -
  let ?hc = "set_child (opp d) p y (set_child (opp d) y x (set_child d x (top b) h))"
  define h1 where "h1 = adopt (top b) x ?hc"
  note h = a[unfolded aug_rb_plug]
  have d: "distinct (addrs (plug K (nd d t p c (nd d (nd d a y Red b) x Black sr))))"
    using h by auto
  have ne: "p \<noteq> x" "p \<noteq> y" "x \<noteq> y" "x \<noteq> p" "y \<noteq> p" "y \<noteq> x"
    "p \<notin> set (addrs t)" "p \<notin> set (addrs a)" "p \<notin> set (addrs b)" "p \<notin> set (addrs sr)"
    "p \<notin> set (faddrs K)" "x \<notin> set (addrs t)" "x \<notin> set (addrs a)" "x \<notin> set (addrs b)"
    "x \<notin> set (addrs sr)" "x \<notin> set (faddrs K)" "y \<notin> set (addrs t)" "y \<notin> set (addrs a)"
    "y \<notin> set (addrs b)" "y \<notin> set (addrs sr)" "y \<notin> set (faddrs K)" "distinct (addrs b)"
    using d by auto
  have f: "p \<noteq> 0" "aligned4 p" "x \<noteq> 0" "aligned4 x" "y \<noteq> 0" "aligned4 y"
    "child h d p = top t" "child h (opp d) p = x" "child h d x = y" "child h (opp d) x = top sr"
    "child h d y = top a" "child h (opp d) y = top b" "tree_at h p t" "tree_at h y a"
    "tree_at h y b" "tree_at h x sr" "path_at h K p 0" "rb_pc h p = up K 0 + colw c"
    "rb_pc h x = p + colw Black" "rt_node h root = top_of K p"
    using h by simp_all
  have g: "nokd nok (rb_heap.more h) d y (top a) (top b)" "nokd nok (rb_heap.more h) d x y (top sr)"
    "nokd nok (rb_heap.more h) d p (top t) x" "aug_tree nok (rb_heap.more h) t"
    "aug_tree nok (rb_heap.more h) a" "aug_tree nok (rb_heap.more h) b"
    "aug_tree nok (rb_heap.more h) sr" "aug_path nok (rb_heap.more h) K p"
    using h by simp_all
  have h'_eq: "h' = rotate cb x y h1"
    by (simp add: h' del_case3_def Let_def f h1_def)
  have nin: "top b \<notin> {p, x, y}" "top b \<notin> set (addrs t)" "top b \<notin> set (addrs a)"
    "top b \<notin> set (addrs sr)" "top b \<notin> set (faddrs K)"
    using d f tree_at_0 path_at_0 by (intro top_notin; (auto; fail))+
  have nin2: "top a \<notin> {x, y}" "top sr \<notin> {x, y}" "top t \<notin> {x, y}"
    using ne f by (intro top_notin; (auto; fail))+
  have more: "rb_heap.more h1 = rb_heap.more h"
    by (simp add: h1_def)
  note keep = rotate_keep [of x y h1, unfolded more]
  have "tree_at ?hc y b"
    using f ne by simp
  then have b: "tree_at h1 x (paint Black b)"
    unfolding h1_def using ne by (intro tree_at_adopt [where q = y])
  have chl: "child h1 d y = top a" "child h1 (opp d) y = x" "child h1 d x = top b"
    "child h1 (opp d) x = top sr" "child h1 d p = top t" "child h1 (opp d) p = y"
    unfolding h1_def using f ne by simp_all
  have trees: "tree_at h1 p t" "tree_at h1 y a" "tree_at h1 x sr" "path_at h1 K p 0"
    unfolding h1_def using f ne nin by simp_all
  have pcs: "rb_pc h1 x = p + colw Black" "rb_pc h1 p = up K 0 + colw c" "rt_node h1 = rt_node h"
    unfolding h1_def using f ne nin by auto
  have nok: "nokd nok (rb_heap.more h') d x (top b) (top sr)" "nokd nok (rb_heap.more h') d y (top a) x"
    unfolding h'_eq using rotate_nok [of x y h1 d "top b" "top sr" "top a"] chl nin nin2 g(1,2) ne f
    by (simp_all add: more)
  have nokp: "nokd nok (rb_heap.more h') (opp d) p y (top t)"
    unfolding h'_eq using g ne f nin2 by (intro rotate_parent) (simp_all add: more)
  have augs: "aug_tree nok (rb_heap.more h') t" "aug_tree nok (rb_heap.more h') a"
    "aug_tree nok (rb_heap.more h') b" "aug_tree nok (rb_heap.more h') sr"
    unfolding h'_eq using g ne f by (subst aug_tree_keep [OF keep]; simp)+
  show "aug_path nok (rb_heap.more h') K p"
    unfolding h'_eq using g ne f by (subst aug_path_keep [OF keep]) simp_all
  show "path_at h' K p 0" "rb_pc h' p = up K 0 + colw c" "rt_node h' root = top_of K p"
    "p \<noteq> 0" "aligned4 p" "child h' d p = top t" "tree_at h' p t"
    "y \<noteq> 0" "aligned4 y" "child h' d y = top a" "tree_at h' y a"
    using chl trees pcs f by (simp_all add: h'_eq)
  show "child h' (opp d) y = top s'" "tree_at h' p s'" "s' \<noteq> Lf"
    using chl trees pcs f b by (simp_all add: h'_eq s'_def)
  show "distinct (addrs (plug K (nd d t p c (nd d a y Red s'))))"
    using d by (auto simp: s'_def)
  show "nokd nok (rb_heap.more h') d y (top a) (top s')"
    "nokd nok (rb_heap.more h') d p (top t) y"
    "aug_tree nok (rb_heap.more h') t" "aug_tree nok (rb_heap.more h') a"
    "aug_tree nok (rb_heap.more h') s'"
    using nok nokp augs by (simp_all add: s'_def)
  show "rb_frame (insert p (insert x (insert y (set (addrs b))))) root h h'"
    unfolding h'_eq h1_def using top_in_addrs [of b]
    by (cases "b = Lf") (auto intro!: rotate_frame adopt_frame rb_frame_store)
  show "keep {x, y} (rb_heap.more h) (rb_heap.more h')"
    using keep by (simp add: h'_eq)
qed

lemma del_case34_ok:
  assumes a: "aug_rb nok h root (plug (Fr d p c (nd d (nd d a y cy b) x Black sr) # K) t)"
  shows "rb_ok h root
      (plug K (nd d (nd d t p Black a) y c (nd d (paint Black b) x Black sr)))
      (plug (Fr d p c (nd d (nd d a y cy b) x Black sr) # K) t)
      (del_case4 d (rotate cb) root p y x (del_case3 d (rotate cb) p x y h))"
proof -
  let ?h = "del_case3 d (rotate cb) p x y h"
  let ?h' = "del_case4 d (rotate cb) root p y x ?h"
  let ?T = "plug (Fr d p c (nd d (nd d a y cy b) x Black sr) # K) t"
  note c3 = del_case3_aug [OF a refl]
  have top: "top (nd d (paint Black b) x Black sr) = x" by simp
  note c4 = del_case4_aug [OF c3(1-21) refl, unfolded top]
  have sub: "insert p (insert x (insert y (set (addrs b)))) \<subseteq> set (addrs ?T)"
    "set (addrs (plug K (nd d t p c (nd d a y Red (nd d (paint Black b) x Black sr)))))
      \<subseteq> set (addrs ?T)" "{x, y} \<subseteq> set (addrs ?T)" "{p, y} \<subseteq> set (addrs ?T)"
    by auto
  have "rb_frame (set (addrs ?T)) root h ?h'"
    using rb_frame_trans [OF rb_frame_mono [OF c3(22) sub(1)] rb_frame_mono [OF c4(2) sub(2)]]
    by simp
  moreover have "keep (set (addrs ?T)) (rb_heap.more h) (rb_heap.more ?h')"
    by (rule keep_trans [OF keep_mono [OF c3(23) sub(3)] keep_mono [OF c4(3) sub(4)]])
  ultimately show ?thesis
    using c4(1) by (simp add: rb_ok_def)
qed

end

end
