(* ===== verification/Rb_Erase_Loop.thy ===== *)
theory Rb_Erase_Loop
  imports Rb_Erase
begin

text \<open>
  The loop of \<open>____rb_erase_color\<close> refines \<open>del_fix\<close>: Cases 1 and 2, the choice of the case, and
  the induction over the path.  The hypotheses of \<open>rbt_del_fix\<close> carry the loop invariants the
  code states, and with them that the sibling is never null.
\<close>

definition deficient :: "frame list \<Rightarrow> ptree \<Rightarrow> bool" where
  "deficient K t \<longleftrightarrow> pinv K (Suc (bh t)) \<and> invc t \<and> invh t \<and> color t = Black"

context rb_augment
begin

lemma del_case1_ok:
  assumes a: "aug_rb nok h root (plug (Fr d p c (nd d sl x Red sr) # K) t)" and sl: "sl \<noteq> Lf"
  shows "rb_ok h root (plug (Fr d p Red (paint Black sl) # Fr d x c sr # K) t)
      (plug (Fr d p c (nd d sl x Red sr) # K) t) (del_case1 d (rotate cb) root p x h)"
proof -
  let ?h' = "del_case1 d (rotate cb) root p x h"
  let ?T = "plug (Fr d p c (nd d sl x Red sr) # K) t"
  define hc where "hc = set_child d x p (set_child (opp d) p (top sl) h)"
  define h1 where "h1 = set_pc (top sl) (p + colw Black) hc"
  note h = a[unfolded aug_rb_plug]
  have d: "distinct (addrs (plug K (nd d t p c (nd d sl x Red sr))))"
    using h by auto
  have ne: "p \<noteq> x" "x \<noteq> p" "p \<notin> set (addrs t)" "p \<notin> set (addrs sl)" "p \<notin> set (addrs sr)"
    "p \<notin> set (faddrs K)" "x \<notin> set (addrs t)" "x \<notin> set (addrs sl)" "x \<notin> set (addrs sr)"
    "x \<notin> set (faddrs K)" "distinct (addrs sl)"
    using d by auto
  have f: "p \<noteq> 0" "aligned4 p" "x \<noteq> 0" "aligned4 x"
    "child h d p = top t" "child h d x = top sl" "child h (opp d) x = top sr"
    "tree_at h p t" "tree_at h x sl" "tree_at h x sr" "path_at h K p 0"
    "rb_pc h p = up K 0 + colw c" "rt_node h root = top_of K p"
    using h by simp_all
  have g: "nokd nok (rb_heap.more h) d x (top sl) (top sr)" "nokd nok (rb_heap.more h) d p (top t) x"
    "aug_tree nok (rb_heap.more h) t" "aug_tree nok (rb_heap.more h) sl"
    "aug_tree nok (rb_heap.more h) sr" "aug_path nok (rb_heap.more h) K p"
    using h by simp_all
  have tsl: "top sl \<in> set (addrs sl)" using sl by (rule top_in_addrs)
  then have nin: "top sl \<noteq> p" "top sl \<noteq> x" "top sl \<notin> set (addrs t)" "top sl \<notin> set (addrs sr)"
    "top sl \<notin> set (faddrs K)"
    using d by auto
  have h'_eq: "?h' = rotate cb p x (rb_rotate_set_parents p x root (colw Red) h1)"
    by (simp add: del_case1_def Let_def f h1_def hc_def rb_set_parent_color_def)
  have more: "rb_heap.more h1 = rb_heap.more h"
    by (simp add: h1_def hc_def)
  have "tree_at hc x sl"
    unfolding hc_def using f ne by simp
  then have b: "tree_at h1 p (paint Black sl)"
    unfolding h1_def using ne sl by (intro tree_at_recolor)
  have pre: "path_at h1 K p 0" "rb_pc h1 p = up K 0 + colw c" "rt_node h1 root = top_of K p"
    "p \<noteq> 0" "aligned4 p" "child h1 (opp d) p = top (paint Black sl)" "child h1 (opp (opp d)) p = top t"
    "tree_at h1 p (paint Black sl)" "tree_at h1 p t" "x \<noteq> 0" "aligned4 x"
    "child h1 (opp d) x = top sr" "child h1 (opp (opp d)) x = p" "tree_at h1 x sr"
    using b f ne nin by (simp_all add: h1_def hc_def)
  have d': "distinct (addrs (plug K (nd (opp d) (nd (opp d) sr x Red (paint Black sl)) p c t)))"
    using d by auto
  note up = rotate_up_aug [OF pre d' _ _ _ _ _ _ h'_eq, unfolded more]
  have 1: "aug_rb nok ?h' root (plug K (nd (opp d) sr x c (nd (opp d) (paint Black sl) p Red t)))"
    by (rule up(1)) (use g in simp_all)
  have sub: "set (addrs (plug K (nd (opp d) (nd (opp d) sr x Red (paint Black sl)) p c t)))
      \<subseteq> set (addrs ?T)" "{p, x} \<subseteq> set (addrs ?T)"
    by auto
  have "rb_frame (set (addrs ?T)) root h h1"
    unfolding h1_def hc_def using tsl by (auto intro!: rb_frame_store)
  moreover have "rb_frame (set (addrs ?T)) root h1 ?h'"
    by (rule rb_frame_mono [OF up(2) sub(1)]) (use g in simp_all)
  ultimately have 2: "rb_frame (set (addrs ?T)) root h ?h'"
    using rb_frame_trans by fastforce
  have "keep {p, x} (rb_heap.more h) (rb_heap.more ?h')"
    by (rule up(3)) (use g in simp_all)
  then have 3: "keep (set (addrs ?T)) (rb_heap.more h) (rb_heap.more ?h')"
    using sub(2) by (rule keep_mono)
  show ?thesis using 1 2 3 by (simp add: rb_ok_def)
qed

lemma del_case2_ok:
  assumes a: "aug_rb nok h root (plug (Fr d p c (nd d sl x Black sr) # K) t)"
  defines "h1 \<equiv> rb_set_parent_color x p RB_RED h"
  shows "rb_is_red h1 p \<longleftrightarrow> c = Red"
    "c = Red \<Longrightarrow> rb_ok h root (plug K (nd d t p Black (nd d sl x Red sr)))
       (plug (Fr d p c (nd d sl x Black sr) # K) t) (rb_set_black p h1)"
    "c = Black \<Longrightarrow> rb_ok h root (plug K (nd d t p Black (nd d sl x Red sr)))
       (plug (Fr d p c (nd d sl x Black sr) # K) t) h1"
    "rb_parent h1 p = up K 0"
proof -
  note h = a[unfolded aug_rb_plug]
  have al: "aligned4 (up K 0)" using h path_at_up [of h K p 0] by auto
  have d: "distinct (addrs (plug K (nd d t p c (nd d sl x Black sr))))"
    using h by auto
  have pc: "rb_pc h1 p = up K 0 + colw c"
    using h unfolding h1_def by (simp add: rb_set_parent_color_def)
  show "rb_is_red h1 p \<longleftrightarrow> c = Red" "rb_parent h1 p = up K 0"
    using rb_is_red_eq [OF pc al] rb_parent_eq [OF pc al] by simp_all
  have "rb_set_black p h1 = set_pc p (up K 0 + RB_BLACK) h1" if "c = Red"
    using pc that by (simp add: rb_set_black_def RB_RED_def)
  then show "c = Red \<Longrightarrow> rb_ok h root (plug K (nd d t p Black (nd d sl x Red sr)))
       (plug (Fr d p c (nd d sl x Black sr) # K) t) (rb_set_black p h1)"
    using h unfolding h1_def
    by (auto simp: rb_ok_def aug_rb_plug rb_set_parent_color_def keep_refl Int_Un_distrib2)
  show "c = Black \<Longrightarrow> rb_ok h root (plug K (nd d t p Black (nd d sl x Red sr)))
       (plug (Fr d p c (nd d sl x Black sr) # K) t) h1"
    using h unfolding h1_def
    by (auto simp: rb_ok_def aug_rb_plug rb_set_parent_color_def keep_refl Int_Un_distrib2)
qed

lemma del_case4_ok:
  assumes a: "aug_rb nok h root (plug (Fr d p c (nd d sl x Black sr) # K) t)" and sr: "sr \<noteq> Lf"
  shows "rb_ok h root (plug K (nd d (nd d t p Black sl) x c (paint Black sr)))
       (plug (Fr d p c (nd d sl x Black sr) # K) t) (del_case4 d (rotate cb) root p x (top sr) h)"
proof -
  let ?T = "plug (Fr d p c (nd d sl x Black sr) # K) t"
  note h = a[unfolded aug_rb_plug]
  have f: "path_at h K p 0" "rb_pc h p = up K 0 + colw c" "rt_node h root = top_of K p"
    "p \<noteq> 0" "aligned4 p" "child h d p = top t" "tree_at h p t"
    "x \<noteq> 0" "aligned4 x" "child h d x = top sl" "child h (opp d) x = top sr"
    "tree_at h x sl" "tree_at h x sr" "sr \<noteq> Lf"
    using h sr by simp_all
  have d: "distinct (addrs (plug K (nd d t p c (nd d sl x Red sr))))"
    using h by auto
  have g: "nokd nok (rb_heap.more h) d x (top sl) (top sr)" "nokd nok (rb_heap.more h) d p (top t) x"
    "aug_tree nok (rb_heap.more h) t" "aug_tree nok (rb_heap.more h) sl"
    "aug_tree nok (rb_heap.more h) sr" "aug_path nok (rb_heap.more h) K p"
    using h by simp_all
  note c4 = del_case4_aug [OF f d g refl]
  have "{p, x} \<subseteq> set (addrs ?T)" by auto
  with c4 show ?thesis
    unfolding rb_ok_def by (auto intro: keep_mono)
qed

lemma path_at_up_0: "path_at h K p 0 \<Longrightarrow> up K 0 = 0 \<longleftrightarrow> K = []"
  by (cases K rule: faddrs.cases) auto

text \<open>The choice of the case, once the sibling is black.\<close>

lemma del_tail_ok:
  assumes a: "aug_rb nok h root (plug (Fr d p c s # K) t)"
    and s: "s \<noteq> Lf" "color s = Black" and r: "del_cases d t p c s = (r, m)"
  shows "\<exists>h'. rb_ok h root (plug K r) (plug (Fr d p c s # K) t) h' \<and>
    del_tail loop d (rotate cb) root p (top s) h =
      (if m \<and> K \<noteq> [] then loop p (up K 0) h' else Some h')"
proof -
  obtain sl x sr where s_eq: "s = nd d sl x Black sr"
    using s by (cases s rule: nd_cases [where d = d]) auto
  note h = a[unfolded aug_rb_plug]
  have f: "aligned4 x" "child h (opp d) x = top sr" "child h d x = top sl"
    "tree_at h x sl" "tree_at h x sr" "top s = x"
    using h by (simp_all add: s_eq)
  have up0: "up K 0 = 0 \<longleftrightarrow> K = []"
    using h path_at_up_0 [of h K p] by simp
  note blk = tree_at_black [OF f(5,1)] tree_at_black [OF f(4,1)]
  show ?thesis
  proof (cases "color sr = Black")
    case sr: True
    show ?thesis
    proof (cases "color sl = Black")
      case True
      then have rm: "r = nd d t p Black (nd d sl x Red sr)" "m \<longleftrightarrow> c = Black"
        using r sr by (auto simp: del_cases_def s_eq)
      note c2 = del_case2_ok [OF a[unfolded s_eq]]
      show ?thesis
      proof (cases c)
        case Red
        then show ?thesis
          using c2(1,2) sr True blk
          by (auto simp: del_tail_def f rm s_eq Let_def)
      next
        case Black
        then show ?thesis
          using c2(1,3,4) sr True blk up0
          by (auto simp: del_tail_def f rm s_eq Let_def)
      qed
    next
      case False
      then obtain a' y b where sl: "sl = nd d a' y Red b"
        by (cases sl rule: nd_cases [where d = d]) auto
      have rm: "r = nd d (nd d t p Black a') y c (nd d (paint Black b) x Black sr)" "\<not> m"
        using r sr by (auto simp: del_cases_def s_eq sl)
      show ?thesis
        using del_case34_ok [of h root d p c a' y Red b x sr K t] a sr False blk
        by (auto simp: del_tail_def f rm s_eq Let_def sl)
    qed
  next
    case False
    then have rm: "r = nd d (nd d t p Black sl) x c (paint Black sr)" "\<not> m" "sr \<noteq> Lf"
      using r by (auto simp: del_cases_def s_eq)
    show ?thesis
      using del_case4_ok [OF a[unfolded s_eq] rm(3)] False blk rm(2)
      by (auto simp: del_tail_def f rm(1) s_eq Let_def)
  qed
qed

text \<open>One round of the loop, whichever side the node is on.\<close>

lemma rb_erase_color_loop_round:
  assumes a: "aug_rb nok h root (plug (Fr d p c s # K) t)" and s: "s \<noteq> Lf"
    and red: "color s = Red \<Longrightarrow> child h d (top s) \<noteq> 0"
  shows "rb_erase_color_loop rot root (top t) p h =
    (if color s = Red then
       del_tail (rb_erase_color_loop rot root) d rot root p (child h d (top s))
         (del_case1 d rot root p (top s) h)
     else del_tail (rb_erase_color_loop rot root) d rot root p (top s) h)"
proof -
  note h = a[unfolded aug_rb_plug]
  have f: "p \<noteq> 0" "aligned4 p" "child h d p = top t" "child h (opp d) p = top s" "tree_at h p s"
    using h by simp_all
  have s0: "top s \<noteq> 0" using tree_at_top [OF f(5)] s by simp
  have "set (addrs t) \<inter> set (addrs s) = {}" using h by auto
  then have ts: "top t \<noteq> top s"
    using s0 top_in_addrs [OF s] top_in_addrs [of t] by (cases "t = Lf") auto
  have r: "rb_is_red h (top s) \<longleftrightarrow> color s = Red"
    by (rule tree_at_red [OF f(5,2) s])
  show ?thesis
  proof (cases d)
    case Lft
    then have n: "top t \<noteq> rb_right h p" "top s = rb_right h p"
      using f ts by (simp_all add: left_right_child)
    show ?thesis
      unfolding Lft
      by (subst rb_erase_color_loop_left [OF f(1) n s0])
        (use red r Lft in \<open>simp_all add: left_right_child\<close>)
  next
    case Rgt
    then have n: "top t = rb_right h p" "top s = rb_left h p"
      using f ts by (simp_all add: left_right_child)
    show ?thesis
      unfolding Rgt
      by (subst rb_erase_color_loop_right [OF f(1) n s0])
        (use red r Rgt in \<open>simp_all add: left_right_child\<close>)
  qed
qed

lemma deficient_sibling:
  "deficient (Fr d p c s # K) t \<Longrightarrow> s \<noteq> Lf"
  "deficient (Fr d p c s # K) t \<Longrightarrow> s = nd e sl x Red sr \<Longrightarrow> sl \<noteq> Lf \<and> color sl = Black"
  by (auto simp: deficient_def bh_nd)

lemma erase_round_black:
  assumes a: "aug_rb nok h root (plug (Fr d p c s # K) t)" and sb: "color s = Black"
    and def: "deficient (Fr d p c s # K) t" and rm: "del_cases d t p c s = (r, m)"
  obtains h' where "rb_ok h root (plug K r) (plug (Fr d p c s # K) t) h'"
    "rb_erase_color_loop (rotate cb) root (top t) p h =
       (if m \<and> K \<noteq> [] then rb_erase_color_loop (rotate cb) root p (up K 0) h' else Some h')"
proof -
  have s: "s \<noteq> Lf" using def by (rule deficient_sibling)
  have run: "rb_erase_color_loop (rotate cb) root (top t) p h =
      del_tail (rb_erase_color_loop (rotate cb) root) d (rotate cb) root p (top s) h"
    by (subst rb_erase_color_loop_round [OF a s]) (simp_all add: sb)
  show thesis
    using del_tail_ok [OF a s sb rm, of "rb_erase_color_loop (rotate cb) root"] that
    unfolding run by blast
qed

lemma erase_round_red:
  assumes a: "aug_rb nok h root (plug (Fr d p c (nd d sl x Red sr) # K) t)"
    and def: "deficient (Fr d p c (nd d sl x Red sr) # K) t"
  obtains h' where
    "rb_ok h root (plug K (nd d (fst (del_cases d t p Red (paint Black sl))) x c sr))
       (plug (Fr d p c (nd d sl x Red sr) # K) t) h'"
    "rb_erase_color_loop (rotate cb) root (top t) p h = Some h'"
proof -
  let ?loop = "rb_erase_color_loop (rotate cb) root"
  let ?s = "nd d sl x Red sr"
  let ?T = "plug (Fr d p c ?s # K) t"
  let ?h1 = "del_case1 d (rotate cb) root p x h"
  let ?K1 = "Fr d p Red (paint Black sl) # Fr d x c sr # K"
  have sl: "sl \<noteq> Lf" "color sl = Black"
    using deficient_sibling(2) [OF def refl] by simp_all
  have ok1: "rb_ok h root (plug ?K1 t) ?T ?h1"
    by (rule del_case1_ok [OF a sl(1)])
  obtain r m where rm: "del_cases d t p Red (paint Black sl) = (r, m)" by fastforce
  have m: "\<not> m"
    using rm by (auto simp: del_cases_def split: option.splits if_splits prod.splits)
  have "child h d x = top sl" "tree_at h x sl"
    using a[unfolded aug_rb_plug] by simp_all
  then have ch: "child h d (top ?s) = top sl" "top sl \<noteq> 0"
    using sl(1) tree_at_top by auto
  have run: "?loop (top t) p h = del_tail ?loop d (rotate cb) root p (top sl) ?h1"
    by (subst rb_erase_color_loop_round [OF a]) (use ch in simp_all)
  have ps: "paint Black sl \<noteq> Lf" "color (paint Black sl) = Black" using sl by simp_all
  have "aug_rb nok ?h1 root (plug ?K1 t)" using ok1 by (simp add: rb_ok_def)
  from del_tail_ok [OF this ps rm, of ?loop] m obtain h' where
    h': "rb_ok ?h1 root (plug (Fr d x c sr # K) r) (plug ?K1 t) h'"
    "del_tail ?loop d (rotate cb) root p (top sl) ?h1 = Some h'"
    by auto
  have "set (addrs (plug ?K1 t)) = set (addrs ?T)" by auto
  from rb_ok_trans [OF ok1 h'(1) this] that [of h'] h'(2) show thesis
    by (simp add: run rm)
qed

lemma rb_erase_color_loop_aug:
  "aug_rb nok h root (plug K t) \<Longrightarrow> deficient K t \<Longrightarrow> K \<noteq> [] \<Longrightarrow>
   \<exists>h'. rb_erase_color_loop (rotate cb) root (top t) (up K 0) h = Some h' \<and>
        rb_ok h root (del_fix t K) (plug K t) h'"
proof (induction t K arbitrary: h rule: del_fix.induct)
  case (2 t d p c s K)
  let ?T = "plug (Fr d p c s # K) t"
  note s = deficient_sibling(1) [OF "2.prems"(2)]
  show ?case
  proof (cases "color s = Red")
    case True
    then obtain sl x sr where s_eq: "s = nd d sl x Red sr"
      using s by (cases s rule: nd_cases [where d = d]) auto
    show ?thesis
      by (rule erase_round_red [OF "2.prems"(1,2)[unfolded s_eq]]) (auto simp: s_eq)
  next
    case False
    then have sb: "color s = Black" by simp
    obtain r m where rm: "del_cases d t p c s = (r, m)" by fastforce
    obtain h' where h': "rb_ok h root (plug K r) ?T h'"
      "rb_erase_color_loop (rotate cb) root (top t) p h =
        (if m \<and> K \<noteq> [] then rb_erase_color_loop (rotate cb) root p (up K 0) h' else Some h')"
      by (rule erase_round_black [OF "2.prems"(1) sb "2.prems"(2) rm])
    have fix_eq: "del_fix t (Fr d p c s # K) = (if m then del_fix r K else plug K r)"
      using sb rm by simp
    show ?thesis
    proof (cases "m \<and> K \<noteq> []")
      case True
      have top: "top r = p"
        using rm s True by (auto simp: del_cases_def split: option.splits if_splits prod.splits)
      have inv: "invh r \<and> invc r \<and> (c = Black \<longrightarrow> color r = Black) \<and> (m \<longrightarrow> c = Black) \<and>
          bh r = bh s + (if c = Black \<and> \<not> m then 1 else 0)"
        using "2.prems"(2) sb rm
        by (intro del_cases_inv [where t = t and p = p and d = d]) (auto simp: deficient_def)
      have "deficient K r"
        using inv True "2.prems"(2) by (auto simp: deficient_def)
      moreover have "aug_rb nok h' root (plug K r)"
        using h'(1) by (simp add: rb_ok_def)
      ultimately obtain h'' where
        h'': "rb_erase_color_loop (rotate cb) root p (up K 0) h' = Some h''"
          "rb_ok h' root (del_fix r K) (plug K r) h''"
        using "2.IH" [OF False rm[symmetric], of h'] True top by auto
      have "set (addrs (plug K r)) = set (addrs ?T)"
        using addrs_del_cases [of d t p c s] rm by (metis addrs_plug_cong fst_conv plug.simps(2))
      from rb_ok_trans [OF h'(1) h''(2) this] h''(1) h'(2) True show ?thesis
        unfolding fix_eq by simp
    next
      case no: False
      then have "del_fix t (Fr d p c s # K) = plug K r"
        unfolding fix_eq by (cases m) auto
      with h' no show ?thesis
        by auto
    qed
  qed
qed simp

end

end
