(* ===== verification/Rb_Erase_Node.thy ===== *)
theory Rb_Erase_Node
  imports Rb_Erase_Loop
begin

text \<open>
  \<open>__rb_erase_augmented\<close> takes the node out of the tree as \<open>erase_at\<close> does, and tells where the
  rebalancing has to start; with the loop, \<open>rb_erase_augmented\<close> and \<open>rb_erase\<close> refine
  \<open>erase_at\<close>.
\<close>

section \<open>Finding the successor\<close>

lemma rb_successor_loop_min:
  "tree_at h q (Nd l x c r) \<Longrightarrow> l \<noteq> Lf \<Longrightarrow> min_path l x c r K = (s, cs, c2, J) \<Longrightarrow>
   rb_successor_loop h x (top l) = Some (up J n, s) \<and> J \<noteq> []"
proof (induction l x c r K arbitrary: q rule: min_path.induct)
  case (2 l' x' c' r' x c r K)
  show ?case
  proof (cases "l' = Lf")
    case True
    with 2 show ?thesis by (subst rb_successor_loop.simps) auto
  next
    case False
    with "2.prems" have "top l' \<noteq> 0" "rb_left h x' = top l'" using tree_at_top [of h x' l'] by auto
    with 2 False show ?thesis by (subst rb_successor_loop.simps) auto
  qed
qed simp

lemma top_of_in_fnodes: "J \<noteq> [] \<Longrightarrow> top_of J p \<in> set (fnodes J)"
proof (induction J arbitrary: p rule: fnodes.induct)
  case (2 d x c t J)
  then show ?case by (cases "J = []") auto
qed simp

lemma top_of_in: "J \<noteq> [] \<Longrightarrow> top_of J p \<in> set (faddrs J)"
  using top_of_in_fnodes fnodes_subset by blast

text \<open>The topmost node of a path gets a new parent.\<close>

lemma path_at_stop:
  "path_at h J p n \<Longrightarrow> J \<noteq> [] \<Longrightarrow> distinct (faddrs J) \<Longrightarrow> aligned4 n \<Longrightarrow>
   path_at (rb_set_parent (top_of J p) s h) J p s"
proof (induction J arbitrary: p rule: faddrs.induct)
  case (2 d x c t J)
  show ?case
  proof (cases "J = []")
    case True
    then have "rb_color h x = colw c" using 2 by (auto intro: rb_color_eq)
    with True 2 show ?thesis by (auto simp: rb_set_parent_def)
  next
    case False
    let ?y = "top_of J x"
    have "?y \<in> set (faddrs J)"
      using False top_of_in by blast
    then have y: "?y \<noteq> x" "?y \<notin> set (addrs t)" using 2 by auto
    have "up J n = up J s" using False by (cases J rule: faddrs.cases) auto
    with 2 False y show ?thesis by (auto simp: rb_set_parent_def)
  qed
qed simp

section \<open>The cases\<close>

context rb_augment
begin

text \<open>Case 1: the child, if any, takes the place of the node.\<close>

lemma replace_by_child:
  assumes a: "aug_rb nok h root (plug K (Nd l n c r))" and ch: "l = Lf \<and> t = r \<or> r = Lf \<and> t = l"
    and h1: "h1 = put_child K root (top t) (if t \<noteq> Lf then set_pc (top t) (rb_pc h n) h else h)
        \<or> h1 = (if t \<noteq> Lf then set_pc (top t) (rb_pc h n) (put_child K root (top t) h)
               else put_child K root (top t) h)"
  shows "\<exists>h'. propagate cb (up K 0) 0 h1 = Some h' \<and>
    rb_ok h root (plug K (paint c t)) (plug K (Nd l n c r)) h'"
proof -
  let ?T = "plug K (Nd l n c r)"
  note h = a[unfolded aug_rb_plug]
  have f: "path_at h K n 0" "rb_pc h n = up K 0 + colw c" "rt_node h root = top_of K n"
    "tree_at h n t" "aug_tree nok (rb_heap.more h) t" "aug_path nok (rb_heap.more h) K n"
    using h ch by auto
  have d: "distinct (addrs t)" "distinct (faddrs K)" "set (addrs t) \<inter> set (faddrs K) = {}"
    "set (addrs t) \<subseteq> set (addrs ?T)" "set (faddrs K) \<subseteq> set (addrs ?T)"
    using h ch by auto
  have top: "top t \<notin> set (faddrs K)"
    using d f path_at_0 by (intro top_notin) auto
  let ?h = "if t \<noteq> Lf then set_pc (top t) (rb_pc h n) h else h"
  let ?h1 = "put_child K root (top t) ?h"
  have comm: "set_pc x v (put_child K root q h) = put_child K root q (set_pc x v h)" for x v q
    by (cases K rule: faddrs.cases)
      (auto simp: put_child_def set_child_def set_pc_def set_left_def set_right_def set_root_def
        split: dir.splits)
  have h1_eq: "h1 = ?h1"
    using h1 by (auto simp: comm)
  have path: "path_at h1 K (top t) 0"
    unfolding h1_eq using f d top by (intro put_child_path_at) auto
  have tree: "tree_at h1 (up K 0) (paint c t)"
  proof (cases "t = Lf")
    case False
    then have "tree_at (set_pc (top t) (up K 0 + colw c) h) (up K 0) (paint c t)"
      using f d by (intro tree_at_recolor)
    with False d f show ?thesis
      unfolding h1_eq by (subst put_child_tree_at) auto
  qed simp
  have root: "rt_node h1 root = top_of K (top t)"
    unfolding h1_eq using f by (intro put_child_root [where p = n]) auto
  have more: "rb_heap.more h1 = rb_heap.more h"
    by (simp add: h1_eq)
  have fr: "rb_frame (set (addrs ?T)) root h h1"
    unfolding h1_eq using d top_in_addrs [of t] by (intro put_child_frame) auto
  have n0: "0 \<notin> set (fnodes K)"
    using f fnodes_subset [of K] path_at_0 [OF f(1)] by blast
  obtain h' where h': "propagate cb (up K 0) 0 h1 = Some h'" "same_shape h1 h'"
    "keep (set (fnodes K)) (rb_heap.more h) (rb_heap.more h')"
    "aug_path nok (rb_heap.more h') K (top t)"
    using propagate_path [OF path d(2) aligned4_0 n0 top] aug_path_stale [OF f(6)] by (auto simp: more)
  have at: "aug_tree nok (rb_heap.more h') t"
    using f d fnodes_subset [of K] n0
    by (subst aug_tree_keep [OF h'(3)]) auto
  have "aug_rb nok h' root (plug K (paint c t))"
    unfolding aug_rb_plug using h'(2,4) at path tree root d
    by (auto simp: same_shape_tree_at same_shape_path_at) (simp add: same_shape_def)
  moreover have "keep (set (addrs ?T)) (rb_heap.more h) (rb_heap.more h')"
    using h'(3) by (rule keep_mono) (use fnodes_subset [of K] d in auto)
  ultimately show ?thesis
    using h'(1) rb_frame_shape [OF fr h'(2)] by (auto simp: rb_ok_def)
qed

text \<open>
  Cases 2 and 3 after the successor \<open>s\<close> is known and, in Case 3, taken out of its place below the
  path \<open>J\<close>: it takes the place of the node.
\<close>

lemma replace_by_successor:
  assumes d: "distinct (addrs (plug K (Nd l n c (plug J (Nd Lf s cs c2)))))"
    and J: "path_at h J (top c2) s" "rb_right h s = top_of J (top c2)" "tree_at h q c2"
      "s \<noteq> 0" "aligned4 s" "rb_pc h s = par + colw cs" "aligned4 par"
    and K: "path_at h K n 0" "rb_pc h n = up K 0 + colw c" "rt_node h root = top_of K n" "n \<noteq> 0"
    and l: "rb_left h n = top l" "tree_at h n l" "l \<noteq> Lf" "aligned4 n"
    and aug: "aug_path nok (rb_heap.more h) J (top c2)" "aug_tree nok (rb_heap.more h) c2"
      "aug_tree nok (rb_heap.more h) l" "aug_path nok (rb_heap.more h) K s"
  defines "h1 \<equiv> rb_set_parent (rb_left h n) s (set_left s (rb_left h n) h)"
  defines "h2 \<equiv> rb_change_child n s (rb_pc h1 n AND NOT 3) root h1"
  defines "h3 \<equiv> (if top c2 \<noteq> 0 then rb_set_parent_color (top c2) (up J s) RB_BLACK h2 else h2)"
  shows "rb_is_black h2 s \<longleftrightarrow> cs = Black"
    "\<exists>h'. propagate cb s 0 (set_pc s (rb_pc h1 n) h3) = Some h' \<and>
      rb_ok h root (plug (J @ Fr Rgt s c l # K) (paint Black c2))
        (plug K (Nd l n c (plug J (Nd Lf s cs c2)))) h'"
proof -
  let ?T = "plug K (Nd l n c (plug J (Nd Lf s cs c2)))"
  let ?F = "Fr Rgt s c l # K"
  have dis: "s \<noteq> n" "n \<noteq> s" "s \<notin> set (addrs l)" "s \<notin> set (addrs c2)" "s \<notin> set (faddrs J)"
    "s \<notin> set (faddrs K)" "n \<notin> set (addrs l)" "n \<notin> set (addrs c2)" "n \<notin> set (faddrs J)"
    "n \<notin> set (faddrs K)" "distinct (addrs l)" "distinct (addrs c2)" "distinct (faddrs J)"
    "distinct (faddrs K)" "set (addrs c2) \<inter> set (faddrs K) = {}"
    "set (addrs l) \<inter> set (faddrs K) = {}" "set (faddrs J) \<inter> set (faddrs K) = {}"
    "set (addrs c2) \<inter> set (faddrs J) = {}" "set (addrs l) \<inter> set (faddrs J) = {}"
    "set (addrs l) \<inter> set (addrs c2) = {}"
    using d by auto
  have tl: "top l \<in> set (addrs l)" "top l \<noteq> 0"
    using l top_in_addrs tree_at_0 by metis+
  then have tln: "top l \<noteq> s" "top l \<noteq> n" "top l \<notin> set (addrs c2)" "top l \<notin> set (faddrs J)"
    "top l \<notin> set (faddrs K)"
    using dis by auto
  have tc: "top c2 \<notin> {s, n}" "top c2 \<notin> set (addrs l)" "top c2 \<notin> set (faddrs J)"
    "top c2 \<notin> set (faddrs K)"
    using dis J l K tree_at_0 [OF l(2)] path_at_0 [OF J(1)] path_at_0 [OF K(1)]
    by (intro top_notin; blast)+
  have alK: "aligned4 (up K 0)" using K(1) by (rule path_at_up) simp
  have "tree_at (set_left s (top l) h) n l" "rb_pc (set_left s (top l) h) = rb_pc h"
    using dis l(2) by (simp_all add: set_left_right_child)
  note rp = tree_at_reparent [OF this(1) l(4) dis(11) l(3), of s]
  obtain v where h1: "h1 = set_pc (top l) v (set_child Lft s (top l) h)" "tree_at h1 s l"
    using rp by (auto simp: h1_def l(1) rb_set_parent_def set_left_right_child)
  have pc: "rb_pc h1 n = up K 0 + colw c" "rb_pc h1 n AND NOT 3 = up K 0"
    using h1 tln K colw_parent [OF alK, of c] by auto
  have pK: "path_at h1 K n 0" using K tln dis unfolding h1(1) by simp
  have h2: "h2 = put_child K root s h1"
    unfolding h2_def pc(2) by (rule rb_change_child_path [OF pK K(4) dis(10)])
  have h3: "h3 = adopt (top c2) (up J s) h2"
    by (simp add: h3_def adopt_def)
  have "rb_pc h2 s = par + colw cs"
    using J tln by (simp add: h2 h1(1))
  then show "rb_is_black h2 s \<longleftrightarrow> cs = Black"
    using J(7) by (rule rb_is_black_eq)
  define h4 where "h4 = set_pc s (rb_pc h1 n) h3"
  have chl: "child h4 Rgt s = top_of J (top c2)" "child h4 Lft s = top l" "rb_pc h4 s = up K 0 + colw c"
    using dis J(2) pc by (simp_all add: h4_def h3 h2 h1(1) put_child_child) (simp add: left_right_child)
  have tl4: "tree_at h4 s l"
    using h1(2) dis tc by (simp add: h4_def h3 h2 put_child_tree_at)
  have "tree_at h2 q c2"
    using J(3) dis tln by (simp add: h2 h1(1) put_child_tree_at)
  then have "tree_at h3 (up J s) (paint Black c2)"
    unfolding h3 using dis by (intro tree_at_adopt)
  then have tc4: "tree_at h4 (up J s) (paint Black c2)"
    unfolding h4_def using dis by simp
  have pJ4: "path_at h4 J (top c2) s"
    using J(1) dis tln tc by (simp add: h4_def h3 h2 h1(1) put_child_path_other)
  have pK4: "path_at h4 K s 0"
    using put_child_path_at [OF pK dis(14), of root s] dis tc by (simp add: h4_def h3 h2)
  have root4: "rt_node h4 root = top_of K s"
    using put_child_root [of h1 root K n s] K(3) by (simp add: h4_def h3 h2 h1(1))
  have more: "rb_heap.more h4 = rb_heap.more h"
    by (simp add: h4_def h3 h2 h1(1))
  have pF4: "path_at h4 ?F (top_of J (top c2)) 0"
    using chl tl4 pK4 J(4,5) by simp
  have fr: "rb_frame (set (addrs ?T)) root h h4"
    unfolding h4_def h3 h2 h1(1) using tl top_in_addrs [of c2]
    by (cases "c2 = Lf") (auto intro!: rb_frame_store adopt_frame put_child_frame)
  have dF: "distinct (faddrs ?F)" "0 \<notin> set (fnodes ?F)"
    using dis J(4) path_at_0 [OF K(1)] fnodes_subset [of K] by auto
  have top: "top_of J (top c2) \<notin> set (faddrs ?F)"
  proof (cases "J = []")
    case True
    then show ?thesis using tc by simp
  next
    case False
    from top_of_in [OF this, of "top c2"] show ?thesis using dis by auto
  qed
  obtain h' where h': "propagate cb (up ?F 0) 0 h4 = Some h'" "same_shape h4 h'"
    "keep (set (fnodes ?F)) (rb_heap.more h) (rb_heap.more h')"
    "aug_path nok (rb_heap.more h') ?F (top_of J (top c2))"
    using propagate_path [OF pF4 dF(1) aligned4_0 dF(2) top] aug by (auto simp: more)
  have fn: "set (fnodes ?F) \<subseteq> insert s (set (faddrs K))" "0 \<notin> set (fnodes ?F)"
    using fnodes_subset [of K] dF by auto
  have augs: "aug_tree nok (rb_heap.more h') c2" "aug_path nok (rb_heap.more h') J (top c2)"
    using aug(2) aug_tree_keep [OF h'(3) fn(2), of c2] fn dis
      aug(1) aug_path_keep [OF h'(3) fn(2), of J "top c2"] tc by blast+
  have "aug_rb nok h' root (plug (J @ ?F) (paint Black c2))"
    unfolding aug_rb_plug using h'(2,4) augs pJ4 pF4 tc4 root4 dis
    by (auto simp: same_shape_tree_at same_shape_path_at same_shape_child aug_path_append
      top_of_append up_append) (simp_all add: same_shape_def)
  moreover have "keep (set (addrs ?T)) (rb_heap.more h) (rb_heap.more h')"
    using h'(3) by (rule keep_mono) (use fn in auto)
  ultimately have "rb_ok h root (plug (J @ ?F) (paint Black c2)) ?T h'"
    using rb_frame_shape [OF fr h'(2)] by (simp add: rb_ok_def)
  with h'(1) show "\<exists>h'. propagate cb s 0 (set_pc s (rb_pc h1 n) h3) = Some h' \<and>
      rb_ok h root (plug (J @ ?F) (paint Black c2)) ?T h'"
    by (auto simp: h4_def)
qed

text \<open>Case 3: the successor leaves its place below the path \<open>J\<close>.\<close>

lemma take_successor:
  assumes d: "distinct (addrs (plug K (Nd l n c (plug J (Nd Lf s cs c2)))))" and J: "J \<noteq> []"
    and h: "tree_at h n (plug J (Nd Lf s cs c2))" "aligned4 n" "path_at h K n 0"
    and aug: "aug_tree nok (rb_heap.more h) (plug J (Nd Lf s cs c2))"
      "aug_tree nok (rb_heap.more h) l" "aug_path nok (rb_heap.more h) K n" "tree_at h n l" "n \<noteq> 0"
    and left: "hd J = Fr Lft q' c' s'"
  defines "y \<equiv> top_of J s"
  defines "h3 \<equiv> rb_set_parent y s (set_right s y (set_left (up J n) (rb_right h s) h))"
  shows "\<exists>h'. propagate cb (up J n) s (copy cb n s h3) = Some h' \<and>
    path_at h' J (top c2) s \<and> rb_right h' s = top_of J (top c2) \<and> tree_at h' s c2 \<and>
    rb_pc h' s = up J n + colw cs \<and>
    aug_path nok (rb_heap.more h') J (top c2) \<and> aug_tree nok (rb_heap.more h') c2 \<and>
    aug_tree nok (rb_heap.more h') l \<and> aug_path nok (rb_heap.more h') K s \<and>
    rb_frame (insert s (set (faddrs J))) root h h' \<and>
    (\<forall>x. x \<notin> insert s (set (faddrs J)) \<longrightarrow> rb_pc h' x = rb_pc h x) \<and> rt_node h' = rt_node h \<and>
    keep (insert s (set (faddrs J))) (rb_heap.more h) (rb_heap.more h')"
proof -
  have dis: "s \<noteq> n" "n \<noteq> s" "s \<notin> set (addrs l)" "s \<notin> set (addrs c2)" "s \<notin> set (faddrs J)"
    "s \<notin> set (faddrs K)" "n \<notin> set (addrs l)" "n \<notin> set (addrs c2)" "n \<notin> set (faddrs J)"
    "n \<notin> set (faddrs K)" "distinct (addrs l)" "distinct (addrs c2)" "distinct (faddrs J)"
    "distinct (faddrs K)" "set (addrs c2) \<inter> set (faddrs K) = {}"
    "set (addrs l) \<inter> set (faddrs K) = {}" "set (faddrs J) \<inter> set (faddrs K) = {}"
    "set (addrs c2) \<inter> set (faddrs J) = {}" "set (addrs l) \<inter> set (faddrs J) = {}"
    "set (addrs l) \<inter> set (addrs c2) = {}"
    using d by auto
  have f: "s \<noteq> 0" "aligned4 s" "rb_pc h s = up J n + colw cs" "rb_right h s = top c2"
    "tree_at h s c2" "path_at h J s n"
    using h(1) by (simp_all add: tree_at_plug)
  have g: "nok (rb_heap.more h) s 0 (top c2)" "aug_tree nok (rb_heap.more h) c2"
    "aug_path nok (rb_heap.more h) J s"
    using aug(1) by (simp_all add: aug_tree_plug)
  obtain J' where J_eq: "J = Fr Lft q' c' s' # J'"
    using J left by (cases J) auto
  have y: "y = top_of J (top c2)" "y \<in> set (fnodes J)" "y \<in> set (faddrs J)"
    using J_eq top_of_in_fnodes [OF J] top_of_in [OF J] by (simp_all add: y_def)
  have tc: "top c2 \<notin> {s, n}" "top c2 \<notin> set (addrs l)" "top c2 \<notin> set (faddrs J)"
    "top c2 \<notin> set (faddrs K)"
    using dis f h aug tree_at_0 [OF aug(4)] path_at_0 [OF f(6)] path_at_0 [OF h(3)]
    by (intro top_notin; blast)+
  have upq: "up J n = q'" "q' \<in> set (faddrs J)" by (simp_all add: J_eq)
  define h1 where "h1 = set_child Rgt s y (set_child Lft q' (top c2) h)"
  have "path_at (set_child Lft q' (top c2) h) J (top c2) n"
    unfolding J_eq by (rule path_at_swap_child) (use f(6) dis(13) in \<open>auto simp: J_eq\<close>)
  then have p1: "path_at h1 J (top c2) n"
    using dis by (simp add: h1_def)
  have h3: "h3 = rb_set_parent (top_of J (top c2)) s h1"
    by (simp add: h3_def h1_def f(4) upq set_left_right_child y)
  have p3: "path_at h3 J (top c2) s"
    unfolding h3 using p1 J dis(13) h(2) by (rule path_at_stop)
  obtain v where h3v: "h3 = set_pc y v h1"
    by (auto simp: h3 rb_set_parent_def y)
  have ys: "y \<noteq> s" "y \<notin> set (addrs c2)" "q' \<notin> set (addrs c2)" using y upq dis by auto
  have s3: "rb_right h3 s = y" "tree_at h3 s c2" "rb_pc h3 s = up J n + colw cs"
    "rt_node h3 = rt_node h" "rb_heap.more h3 = rb_heap.more h"
    "\<forall>x. x \<notin> insert s (set (faddrs J)) \<longrightarrow> rb_pc h3 x = rb_pc h x"
    using ys f dis upq y by (auto simp: h3v h1_def left_right_child)
  have fr3: "rb_frame (insert s (set (faddrs J))) root h h3"
    unfolding h3v h1_def using upq y by (auto intro!: rb_frame_store)
  define h4 where "h4 = copy cb n s h3"
  have sh4: "same_shape h3 h4" by (simp add: h4_def copy_shape)
  have k4: "keep {s} (rb_heap.more h) (rb_heap.more h4)"
    using copy_keep [of s h3 n] by (simp add: h4_def s3)
  have st4: "aug_stale nok (rb_heap.more h4) J"
  proof -
    have "0 \<notin> {s}" "set (addrs s') \<inter> {s} = {}" "set (faddrs J') \<inter> {s} = {}" "q' \<notin> {s}"
      using dis f by (auto simp: J_eq)
    then show ?thesis
      using g(3) aug_tree_keep [OF k4, of s'] aug_path_keep [OF k4, of J' q'] by (simp add: J_eq)
  qed
  have p4: "path_at h4 J (top c2) s"
    using p3 same_shape_path_at [OF sh4] by simp
  have sJ: "s \<notin> set (fnodes J)" using dis fnodes_subset by blast
  obtain h' where h': "propagate cb (up J s) s h4 = Some h'" "same_shape h4 h'"
    "keep (set (fnodes J)) (rb_heap.more h4) (rb_heap.more h')"
    "aug_path nok (rb_heap.more h') J (top c2)"
    using propagate_path [OF p4 dis(13) f(2) sJ tc(3) st4] by blast
  have upJ: "up J s = up J n" by (simp add: J_eq)
  have sh: "same_shape h3 h'" using same_shape_trans [OF sh4 h'(2)] .
  have k: "keep (insert s (set (faddrs J))) (rb_heap.more h) (rb_heap.more h')"
    by (rule keep_trans [OF keep_mono [OF k4] keep_mono [OF h'(3)]])
      (use fnodes_subset [of J] in auto)
  have n0: "0 \<notin> insert s (set (faddrs J))"
    using f path_at_0 [OF f(6)] by simp
  have "aug_path nok (rb_heap.more h4) K s"
  proof (cases K rule: fnodes.cases)
    case (2 dd x cc t L)
    have "nokd nok (rb_heap.more h4) dd x s (top t)"
      unfolding h4_def
      by (rule copy_parent) (use 2 aug dis f h s3 top_notin [of t "{s}"] in auto)
    moreover have "aug_tree nok (rb_heap.more h4) t" "aug_path nok (rb_heap.more h4) L x"
      using aug(3) 2 dis f by (auto simp: aug_tree_keep [OF k4] aug_path_keep [OF k4])
    ultimately show ?thesis by (simp add: 2)
  qed simp
  then have aK: "aug_path nok (rb_heap.more h') K s"
    using aug_path_keep [OF h'(3), of K s] fnodes_subset [of J] n0 dis sJ by blast
  have ac: "aug_tree nok (rb_heap.more h') c2" "aug_tree nok (rb_heap.more h') l"
    using g(2) aug(2) aug_tree_keep [OF k n0, of c2] aug_tree_keep [OF k n0, of l] dis by auto
  show ?thesis
    using h'(1,4) sh s3 p3 ac aK k y rb_frame_shape [OF fr3 sh]
    by (intro exI [of _ h']) (simp add: h4_def upJ same_shape_tree_at same_shape_path_at,
      simp add: same_shape_def)
qed

end

end
