(* ===== verification/Rb_Erase_All.thy ===== *)
theory Rb_Erase_All
  imports Rb_Erase_Node
begin

text \<open>
  The whole of \<open>__rb_erase_augmented\<close> and of \<open>rb_erase_augmented\<close>: they refine \<open>erase_at\<close>.
\<close>

section \<open>Where the rebalancing starts\<close>

text \<open>The tree without the node, the path to the place that changed, and whether a black node
  is missing there.\<close>

fun erase_cut :: "ptree \<Rightarrow> ptr \<Rightarrow> col \<Rightarrow> ptree \<Rightarrow> frame list \<Rightarrow> ptree \<times> frame list \<times> bool" where
  "erase_cut Lf n c Lf K = (Lf, K, c = Black)"
| "erase_cut Lf n c (Nd rl x cx rr) K = (paint c (Nd rl x cx rr), K, False)"
| "erase_cut (Nd ll x cx lr) n c Lf K = (paint c (Nd ll x cx lr), K, False)"
| "erase_cut (Nd ll x cx lr) n c (Nd rl y cy rr) K =
     (case min_path rl y cy rr [] of
        (s, cs, c2, J) \<Rightarrow>
          (paint Black c2, J @ Fr Rgt s c (Nd ll x cx lr) # K, c2 = Lf \<and> cs = Black))"

lemma erase_at_cut:
  "erase_at l n c r K = (case erase_cut l n c r K of
     (t, K', b) \<Rightarrow> if b then del_fix t K' else plug K' t)"
  by (induction l n c r K rule: erase_cut.induct) (auto simp: Let_def split: prod.splits)

lemma erase_cut_Lf: "erase_cut l n c r K = (t, K', True) \<Longrightarrow> t = Lf"
  by (induction l n c r K rule: erase_cut.induct) (auto split: prod.splits)

lemma erase_cut_deficient:
  assumes "rbt (plug K (Nd l n c r))" "erase_cut l n c r K = (t, K', True)"
  shows "deficient K' t"
  using assms
proof (induction l n c r K rule: erase_cut.induct)
  case (4 ll x cx lr n c rl y cy rr K)
  obtain s cs c2 J where m: "min_path rl y cy rr [] = (s, cs, c2, J)"
    by (metis prod_cases4)
  let ?F = "Fr Rgt s c (Nd ll x cx lr) # K"
  have "min_path rl y cy rr ?F = (s, cs, c2, J @ ?F)"
    using min_path_acc [of rl y cy rr "[]" ?F] m by simp
  then have "pinv (J @ ?F) (bh (Nd Lf s cs c2)) \<and> invc (Nd Lf s cs c2) \<and>
      invh (Nd Lf s cs c2) \<and> (cs = Red \<longrightarrow> pcol (J @ ?F) = Black)"
    by (rule min_path_inv) (use 4 in \<open>auto simp: rbt_plug\<close>)
  then show ?case using 4 m by (auto simp: deficient_def)
qed (auto simp: deficient_def rbt_plug)

context rb_augment
begin

lemma rb_ok_trans_sub:
  assumes 1: "rb_ok h root t T h'" and 2: "rb_ok h' root t' T' h''"
    and sub: "set (addrs T') \<subseteq> set (addrs T)"
  shows "rb_ok h root t' T h''"
proof -
  note 1 = 1[unfolded rb_ok_def] and 2 = 2[unfolded rb_ok_def]
  have "rb_frame (set (addrs T)) root h' h''" "keep (set (addrs T)) (rb_heap.more h') (rb_heap.more h'')"
    using 2 sub rb_frame_mono keep_mono by blast+
  with 1 2 show ?thesis
    unfolding rb_ok_def by (metis rb_frame_trans keep_trans sup.idem)
qed

definition unlink_ok where
  "unlink_ok n root h l c r K \<longleftrightarrow>
     (case erase_cut l n c r K of
        (t, K', b) \<Rightarrow>
          \<exists>h'. rb_erase_augmented_unlink n root cb h = Some (if b then up K' 0 else 0, h') \<and>
               rb_ok h root (plug K' t) (plug K (Nd l n c r)) h')"

lemma unlink_right:
  assumes a: "aug_rb nok h root (plug K (Nd Lf n c r))"
  shows "unlink_ok n root h Lf c r K"
proof -
  note h = a[unfolded aug_rb_plug]
  have f: "path_at h K n 0" "rb_pc h n = up K 0 + colw c" "rb_left h n = 0" "rb_right h n = top r"
    "n \<noteq> 0" "n \<notin> set (faddrs K)" "tree_at h n r"
    using h by auto
  have al: "aligned4 (up K 0)" using f(1) by (rule path_at_up) simp
  have pc: "rb_pc h n AND NOT 3 = up K 0" "rb_pc h n AND 1 \<noteq> 0 \<longleftrightarrow> c = Black"
    unfolding f(2) colw_parent [OF al] colw_color [OF al]
    by (cases c; simp add: RB_RED_def RB_BLACK_def)+
  have cc: "rb_change_child n q (up K 0) root h = put_child K root q h" for q
    using f by (intro rb_change_child_path)
  have t: "top r \<noteq> 0 \<longleftrightarrow> r \<noteq> Lf" using tree_at_top [OF f(7)] by simp
  obtain h' where h': "propagate cb (up K 0) 0 (if r \<noteq> Lf then set_pc (top r) (rb_pc h n)
      (put_child K root (top r) h) else put_child K root (top r) h) = Some h'"
    "rb_ok h root (plug K (paint c r)) (plug K (Nd Lf n c r)) h'"
    using replace_by_child [OF a, of r, OF _ disjI2, OF _ refl] by auto
  show ?thesis
  proof (cases r)
    case Lf
    with h' f pc cc show ?thesis
      by (auto simp: unlink_ok_def rb_erase_augmented_unlink_def Let_def)
  next
    case (Nd rl x cx rr)
    with h' f pc(1) cc t show ?thesis
      by (auto simp: unlink_ok_def rb_erase_augmented_unlink_def Let_def)
  qed
qed

lemma unlink_left:
  assumes a: "aug_rb nok h root (plug K (Nd l n c Lf))" and l: "l \<noteq> Lf"
  shows "unlink_ok n root h l c Lf K"
proof -
  note h = a[unfolded aug_rb_plug]
  have f: "path_at h K n 0" "rb_pc h n = up K 0 + colw c" "rb_left h n = top l" "rb_right h n = 0"
    "n \<noteq> 0" "n \<notin> set (faddrs K)" "tree_at h n l"
    using h by auto
  have al: "aligned4 (up K 0)" using f(1) by (rule path_at_up) simp
  have pc: "rb_pc h n AND NOT 3 = up K 0"
    unfolding f(2) by (rule colw_parent [OF al])
  have t: "top l \<noteq> 0" using tree_at_top [OF f(7)] l by simp
  have "top l \<in> set (addrs l)" using l by (rule top_in_addrs)
  then have tl: "top l \<notin> set (faddrs K)" using h by auto
  then have p: "path_at (set_pc (top l) (rb_pc h n) h) K n 0" using f(1) by simp
  have cc: "rb_change_child n (top l) (up K 0) root (set_pc (top l) (rb_pc h n) h) =
      put_child K root (top l) (set_pc (top l) (rb_pc h n) h)"
    using f p by (intro rb_change_child_path)
  obtain h' where h': "propagate cb (up K 0) 0 (put_child K root (top l)
      (if l \<noteq> Lf then set_pc (top l) (rb_pc h n) h else h)) = Some h'"
    "rb_ok h root (plug K (paint c l)) (plug K (Nd l n c Lf)) h'"
    using replace_by_child [OF a, of l, OF _ disjI1, OF _ refl] by auto
  obtain ll x cx lr where l_eq: "l = Nd ll x cx lr" using l by (cases l) auto
  show ?thesis
    using h' f pc cc t l
    by (auto simp: unlink_ok_def rb_erase_augmented_unlink_def Let_def l_eq)
qed

lemma path_min_left:
  "min_path l x c r K = (s, cs, c2, J) \<Longrightarrow> J = K \<or> (\<exists>q c' s' L. J = Fr Lft q c' s' # L)"
  by (induction l x c r K rule: min_path.induct) fastforce+

text \<open>The code from Case 2 or 3 on.\<close>

definition put_successor where
  "put_successor n root parent successor child2 h =
     do {
       let tmp = rb_left h n;
       let h = set_left successor tmp h;
       let h = rb_set_parent tmp successor h;
       let pc = rb_pc h n;
       let tmp = pc AND NOT 3;
       let h = rb_change_child n successor tmp root h;
       let (rebalance, h) =
         (if child2 \<noteq> 0 then (0, rb_set_parent_color child2 parent RB_BLACK h)
          else (if rb_is_black h successor then parent else 0, h));
       let h = set_pc successor pc h;
       h \<leftarrow> propagate cb successor 0 h;
       Some (rebalance, h)
     }"

lemma put_successor_ok:
  assumes d: "distinct (addrs (plug K (Nd l n c (plug J (Nd Lf s cs c2)))))"
    and J: "path_at h J (top c2) s" "rb_right h s = top_of J (top c2)" "tree_at h q c2"
      "s \<noteq> 0" "aligned4 s" "rb_pc h s = par + colw cs" "aligned4 par"
    and K: "path_at h K n 0" "rb_pc h n = up K 0 + colw c" "rt_node h root = top_of K n" "n \<noteq> 0"
    and l: "rb_left h n = top l" "tree_at h n l" "l \<noteq> Lf" "aligned4 n"
    and aug: "aug_path nok (rb_heap.more h) J (top c2)" "aug_tree nok (rb_heap.more h) c2"
      "aug_tree nok (rb_heap.more h) l" "aug_path nok (rb_heap.more h) K s"
  shows "\<exists>h'. put_successor n root (up J s) s (top c2) h =
      Some (if c2 = Lf \<and> cs = Black then up J s else 0, h') \<and>
    rb_ok h root (plug (J @ Fr Rgt s c l # K) (paint Black c2))
      (plug K (Nd l n c (plug J (Nd Lf s cs c2)))) h'"
proof -
  have t: "top c2 = 0 \<longleftrightarrow> c2 = Lf" using tree_at_top [OF J(3)] .
  note r = replace_by_successor [OF d J K l aug]
  show ?thesis
  proof (cases "c2 = Lf")
    case True
    with r t show ?thesis
      by (auto simp: put_successor_def Let_def)
  next
    case False
    with r t show ?thesis
      by (auto simp: put_successor_def Let_def)
  qed
qed

lemma unlink_code:
  assumes "n \<noteq> 0" "rb_left h n \<noteq> 0" "rb_right h n = y" "y \<noteq> 0"
  shows "rb_left h y = 0 \<Longrightarrow> rb_erase_augmented_unlink n root cb h =
      put_successor n root y y (rb_right h y) (copy cb n y h)"
    and "rb_left h y \<noteq> 0 \<Longrightarrow> rb_successor_loop h y (rb_left h y) = Some (p, s) \<Longrightarrow>
      propagate cb p s (copy cb n s (rb_set_parent y s (set_right s y (set_left p (rb_right h s) h))))
        = Some h' \<Longrightarrow>
      rb_erase_augmented_unlink n root cb h = put_successor n root p s (rb_right h s) h'"
  using assms
  by (simp_all add: rb_erase_augmented_unlink_def put_successor_def Let_def split_beta)

lemma unlink_both:
  assumes a: "aug_rb nok h root (plug K (Nd l n c (Nd rl y cy rr)))" and l: "l \<noteq> Lf"
  shows "unlink_ok n root h l c (Nd rl y cy rr) K"
proof -
  obtain s cs c2 J where m: "min_path rl y cy rr [] = (s, cs, c2, J)"
    by (metis prod_cases4)
  have R: "plug J (Nd Lf s cs c2) = Nd rl y cy rr"
    using min_path_plug [OF m] by simp
  note h = a[unfolded aug_rb_plug]
  have K: "path_at h K n 0" "rb_pc h n = up K 0 + colw c" "rt_node h root = top_of K n" "n \<noteq> 0"
    and l': "rb_left h n = top l" "tree_at h n l" "aligned4 n"
    and r: "tree_at h n (Nd rl y cy rr)" "rb_right h n = y"
    and aug: "aug_tree nok (rb_heap.more h) (Nd rl y cy rr)" "aug_tree nok (rb_heap.more h) l"
      "aug_path nok (rb_heap.more h) K n"
    using h by simp_all
  have y: "y \<noteq> 0" "rb_left h y = top rl" "tree_at h y rl" using r by auto
  have tl: "rb_left h n \<noteq> 0" using tree_at_top [OF l'(2)] l l'(1) by simp
  have d: "distinct (addrs (plug K (Nd l n c (plug J (Nd Lf s cs c2)))))"
    using a unfolding R by (simp add: aug_rb_def rb_tree_def del: distinct_addrs_plug)
  have sR: "tree_at h (up J n) (Nd Lf s cs c2)" "path_at h J s n"
    using r(1) unfolding R[symmetric] by (simp_all add: tree_at_plug)
  have sf: "s \<noteq> 0" "aligned4 s" "rb_right h s = top c2" "rb_pc h s = up J n + colw cs" "tree_at h s c2"
    using sR(1) by simp_all
  have alJ: "aligned4 (up J n)" using sR(2) l'(3) by (rule path_at_up)
  obtain l1 x cx l2 where l_eq: "l = Nd l1 x cx l2" using l by (cases l) auto
  have cut: "erase_cut l n c (Nd rl y cy rr) K =
      (paint Black c2, J @ Fr Rgt s c l # K, c2 = Lf \<and> cs = Black)"
    using m by (simp add: l_eq)
  have up: "up (J @ Fr Rgt s c l # K) 0 = up J s" by (simp add: up_append)
  have "\<exists>h'. rb_erase_augmented_unlink n root cb h =
        Some (if c2 = Lf \<and> cs = Black then up J s else 0, h') \<and>
      rb_ok h root (plug (J @ Fr Rgt s c l # K) (paint Black c2)) (plug K (Nd l n c (Nd rl y cy rr))) h'"
  proof (cases "rl = Lf")
    case True
    then have J: "J = []" "s = y" "cs = cy" "c2 = rr" using m by auto
    let ?h = "copy cb n y h"
    have sh: "same_shape h ?h" by (rule copy_shape)
    note k = copy_keep [of y h n]
    have dis: "y \<noteq> n" "y \<notin> set (addrs l)" "y \<notin> set (addrs rr)" "y \<notin> set (faddrs K)"
      "n \<notin> set (faddrs K)" "distinct (faddrs K)"
      using d by (auto simp: J)
    have aK: "aug_path nok (rb_heap.more ?h) K y"
    proof (cases K rule: fnodes.cases)
      case (2 dd z cc t L)
      have "nokd nok (rb_heap.more ?h) dd z y (top t)"
        by (rule copy_parent) (use 2 aug dis K y top_notin [of t "{y}"] in auto)
      moreover have "aug_tree nok (rb_heap.more ?h) t" "aug_path nok (rb_heap.more ?h) L z"
        using aug(3) 2 dis y by (auto simp: aug_tree_keep [OF k] aug_path_keep [OF k])
      ultimately show ?thesis by (simp add: 2)
    qed simp
    have at: "aug_tree nok (rb_heap.more ?h) rr" "aug_tree nok (rb_heap.more ?h) l"
      using aug dis y by (auto simp: aug_tree_keep [OF k])
    have code: "rb_erase_augmented_unlink n root cb h = put_successor n root (up J y) y (top c2) ?h"
      using unlink_code(1) [OF K(4) tl r(2) y(1)] y(2) sf(3) True by (simp add: J)
    have "\<exists>h'. put_successor n root (up J s) s (top c2) ?h =
        Some (if c2 = Lf \<and> cs = Black then up J s else 0, h') \<and>
      rb_ok ?h root (plug (J @ Fr Rgt s c l # K) (paint Black c2))
        (plug K (Nd l n c (plug J (Nd Lf s cs c2)))) h'"
      by (rule put_successor_ok [OF d, where q = s and par = n])
        (use sf K l' l aK at sh in \<open>simp_all add: J same_shape_tree_at same_shape_path_at\<close>,
         simp_all add: same_shape_def)
    then obtain h' where h': "put_successor n root (up J s) s (top c2) ?h =
        Some (if c2 = Lf \<and> cs = Black then up J s else 0, h')"
      "rb_ok ?h root (plug (J @ Fr Rgt s c l # K) (paint Black c2))
        (plug K (Nd l n c (plug J (Nd Lf s cs c2)))) h'" by blast
    let ?T = "plug K (Nd l n c (plug J (Nd Lf s cs c2)))"
    have fr: "rb_frame (set (addrs ?T)) root h ?h" using rb_frame_shape [OF rb_frame_refl sh] .
    have kp: "keep (set (addrs ?T)) (rb_heap.more h) (rb_heap.more ?h)"
      using k by (rule keep_mono) (simp add: J)
    have "rb_ok h root (plug (J @ Fr Rgt s c l # K) (paint Black c2)) ?T h'"
      using h'(2) rb_frame_trans [OF fr] keep_trans [OF kp] unfolding rb_ok_def
      by (metis sup.idem)
    with h'(1) code show ?thesis unfolding R by (auto simp: J)
  next
    case False
    then have tr: "top rl \<noteq> 0" using tree_at_top [OF y(3)] by simp
    from rb_successor_loop_min [OF r(1) False m, of n]
    have suc: "rb_successor_loop h y (rb_left h y) = Some (up J n, s)" "J \<noteq> []"
      using y(2) by simp_all
    then obtain q' c' s' L where J: "J = Fr Lft q' c' s' # L"
      using path_min_left [OF m] by auto
    have "top_of J s = y" using arg_cong [OF R, of top] by (simp add: top_plug)
    note ts = take_successor [OF d suc(2) _ l'(3) K(1) _ aug(2,3) l'(2) K(4), where q' = q'
        and c' = c' and s' = s', unfolded R this, OF r(1) aug(1)]
    obtain h5 where h5: "propagate cb (up J n) s (copy cb n s
        (rb_set_parent y s (set_right s y (set_left (up J n) (rb_right h s) h)))) = Some h5"
      "path_at h5 J (top c2) s" "rb_right h5 s = top_of J (top c2)" "tree_at h5 s c2"
      "rb_pc h5 s = up J n + colw cs" "aug_path nok (rb_heap.more h5) J (top c2)"
      "aug_tree nok (rb_heap.more h5) c2" "aug_tree nok (rb_heap.more h5) l"
      "aug_path nok (rb_heap.more h5) K s" "rb_frame (insert s (set (faddrs J))) root h h5"
      "\<forall>x. x \<notin> insert s (set (faddrs J)) \<longrightarrow> rb_pc h5 x = rb_pc h x" "rt_node h5 = rt_node h"
      "keep (insert s (set (faddrs J))) (rb_heap.more h) (rb_heap.more h5)"
      using ts J by auto
    have upJ: "up J n = up J s" by (simp add: J)
    have code: "rb_erase_augmented_unlink n root cb h = put_successor n root (up J s) s (top c2) h5"
      using unlink_code(2) [OF K(4) tl r(2) y(1) _ suc(1) h5(1)] y(2) tr sf(3) upJ by simp
    have dis: "n \<notin> insert s (set (faddrs J))" "set (addrs l) \<inter> insert s (set (faddrs J)) = {}"
      "set (faddrs K) \<inter> insert s (set (faddrs J)) = {}"
      using d by auto
    have lf: "rb_left h5 n = rb_left h n" "rb_pc h5 n = rb_pc h n"
      using h5(10) dis(1) by (simp_all add: rb_frame_def)
    have p5: "path_at h5 K n 0"
      using K(1) rb_frame_path_at [OF h5(10) dis(3)] by simp
    have t5: "tree_at h5 n l"
      using l'(2) rb_frame_tree_at [OF h5(10) dis(2)] by simp
    have "\<exists>h'. put_successor n root (up J s) s (top c2) h5 =
        Some (if c2 = Lf \<and> cs = Black then up J s else 0, h') \<and>
      rb_ok h5 root (plug (J @ Fr Rgt s c l # K) (paint Black c2))
        (plug K (Nd l n c (plug J (Nd Lf s cs c2)))) h'"
      by (rule put_successor_ok [OF d h5(2,3,4) sf(1,2) h5(5) alJ p5 _ _ K(4) _ t5 l l'(3) h5(6-9)])
        (use lf K l' h5(12) in simp_all)
    then obtain h' where h': "put_successor n root (up J s) s (top c2) h5 =
        Some (if c2 = Lf \<and> cs = Black then up J s else 0, h')"
      "rb_ok h5 root (plug (J @ Fr Rgt s c l # K) (paint Black c2))
        (plug K (Nd l n c (plug J (Nd Lf s cs c2)))) h'" by blast
    let ?T = "plug K (Nd l n c (plug J (Nd Lf s cs c2)))"
    have sub: "insert s (set (faddrs J)) \<subseteq> set (addrs ?T)" by auto
    have "rb_ok h root (plug (J @ Fr Rgt s c l # K) (paint Black c2)) ?T h'"
      using h'(2) rb_frame_trans [OF rb_frame_mono [OF h5(10) sub]]
        keep_trans [OF keep_mono [OF h5(13) sub]] unfolding rb_ok_def
      by (metis sup.idem)
    with h'(1) code show ?thesis unfolding R by auto
  qed
  then show ?thesis
    by (simp only: unlink_ok_def cut prod.case up)
qed

lemma unlink_aug:
  assumes a: "aug_rb nok h root (plug K (Nd l n c r))"
  shows "unlink_ok n root h l c r K"
proof (cases "l = Lf")
  case True
  with a show ?thesis using unlink_right by simp
next
  case False
  with a show ?thesis
    using unlink_left [of h root K l n c] unlink_both [of h root K l n c] by (cases r) auto
qed

theorem rb_erase_augmented_aug:
  assumes a: "aug_rb nok h root (plug K (Nd l n c r))" and rb: "rbt (plug K (Nd l n c r))"
  shows "\<exists>h'. rb_erase_augmented n root cb h = Some h' \<and>
      rb_ok h root (erase_at l n c r K) (plug K (Nd l n c r)) h'"
proof -
  obtain t K' b where cut: "erase_cut l n c r K = (t, K', b)" by (metis prod_cases3)
  from unlink_aug [OF a] cut obtain h1 where
    h1: "rb_erase_augmented_unlink n root cb h = Some (if b then up K' 0 else 0, h1)"
      "rb_ok h root (plug K' t) (plug K (Nd l n c r)) h1"
    by (auto simp: unlink_ok_def)
  then have a1: "aug_rb nok h1 root (plug K' t)" by (simp add: rb_ok_def)
  have up: "up K' 0 = 0 \<longleftrightarrow> K' = []"
    using a1 path_at_up_0 by (auto simp: aug_rb_plug)
  have at: "erase_at l n c r K = (if b then del_fix t K' else plug K' t)"
    by (simp add: erase_at_cut cut)
  show ?thesis
  proof (cases "b \<and> K' \<noteq> []")
    case True
    then have Lf: "t = Lf" using erase_cut_Lf [of l n c r K t K'] cut by auto
    have "deficient K' t"
      using erase_cut_deficient [OF rb, of t K'] cut True by simp
    from rb_erase_color_loop_aug [OF a1 this] True Lf obtain h' where
      h': "rb_erase_color_loop (rotate cb) root 0 (up K' 0) h1 = Some h'"
        "rb_ok h1 root (del_fix t K') (plug K' t) h'" by auto
    have "set (addrs (plug K' t)) \<subseteq> set (addrs (plug K (Nd l n c r)))"
    proof -
      have "addrs (plug K' t) = before K @ addrs l @ addrs r @ after K"
        using arg_cong [OF at, of addrs] True by (simp add: addrs_erase_at addrs_del_fix)
      then have "set (addrs (plug K' t)) = set (before K @ addrs l @ addrs r @ after K)"
        by (simp only:)
      also have "\<dots> \<subseteq> set (addrs (plug K (Nd l n c r)))"
        unfolding addrs_plug by auto
      finally show ?thesis .
    qed
    with h1(2) h'(2) have "rb_ok h root (del_fix t K') (plug K (Nd l n c r)) h'"
      by (rule rb_ok_trans_sub)
    with h'(1) h1(1) True up at show ?thesis
      by (auto simp: rb_erase_augmented_def rb_erase_color_def)
  next
    case False
    then have "erase_at l n c r K = plug K' t" "(if b then up K' 0 else 0) = 0"
      using at up by (auto split: if_splits)
    with h1 show ?thesis
      by (auto simp: rb_erase_augmented_def)
  qed
qed

end

end
