(* ===== verification/Rb_Tree.thy ===== *)
theory Rb_Tree
  imports Rb_Erase_All
begin

text \<open>
  The trees without augmented data: \<open>rb_link_node\<close>, \<open>rb_insert_color\<close>, \<open>rb_erase\<close>,
  \<open>rb_replace_node\<close>, the searches and insertions of \<open>rbtree.h\<close>.  The properties are about the
  in-order sequence of the nodes and the red-black invariants of the tree in the heap.
\<close>

section \<open>Insertion\<close>

lemma plug_at: "x \<in> set (addrs t) \<Longrightarrow> \<exists>K l c r. t = plug K (Nd l x c r)"
proof (induction t)
  case (Nd l y c r)
  consider "x = y" | "x \<in> set (addrs l)" | "x \<in> set (addrs r)"
    using Nd.prems by auto
  then show ?case
  proof cases
    case 1
    then have "Nd l y c r = plug [] (Nd l x c r)" by simp
    then show ?thesis by blast
  next
    case 2
    then obtain K l' c' r' where "l = plug K (Nd l' x c' r')" using Nd.IH by blast
    then have "Nd l y c r = plug (K @ [Fr Lft y c r]) (Nd l' x c' r')" by (simp add: plug_append)
    then show ?thesis by blast
  next
    case 3
    then obtain K l' c' r' where "r = plug K (Nd l' x c' r')" using Nd.IH by blast
    then have "Nd l y c r = plug (K @ [Fr Rgt y c l]) (Nd l' x c' r')" by (simp add: plug_append)
    then show ?thesis by blast
  qed
qed simp

text \<open>The node of a tree at a place of its sequence.\<close>

lemma plug_split:
  assumes "distinct (addrs t)" "addrs t = xs @ n # ys"
  obtains K l c r where "t = plug K (Nd l n c r)" "xs = before K @ addrs l" "ys = addrs r @ after K"
proof -
  obtain K l c r where t: "t = plug K (Nd l n c r)"
    using assms(2) plug_at [of n t] by auto
  have "xs @ n # ys = (before K @ addrs l) @ n # (addrs r @ after K)"
    using assms(2) by (simp add: t addrs_plug)
  moreover have "n \<notin> set xs" "n \<notin> set ys"
    using assms by auto
  ultimately have "xs = before K @ addrs l" "ys = addrs r @ after K"
    using append_Cons_eq_iff [of n xs ys "before K @ addrs l" "addrs r @ after K"] by auto
  with t that show thesis by blast
qed

fun slot_of :: "frame list \<Rightarrow> ptr \<Rightarrow> slot" where
  "slot_of [] root = Slot_Root root"
| "slot_of (Fr Lft x c s # K) root = Slot_Left x"
| "slot_of (Fr Rgt x c s # K) root = Slot_Right x"

lemma slot_store_put_child: "slot_store (slot_of K root) v h = put_child K root v h"
  by (cases K rule: before.cases) (simp_all add: put_child_def set_left_right_child)

lemma aug_tree_True [simp]: "aug_tree (\<lambda>z x l r. True) z t"
  by (induction t) auto

lemma aug_path_True [simp]: "aug_path (\<lambda>z x l r. True) z K p"
  by (induction K arbitrary: p rule: fnodes.induct) (auto simp: nokd_def split: dir.splits)

lemma aug_rb_True [simp]: "aug_rb (\<lambda>z x l r. True) h root t = rb_tree h root t"
  by (simp add: aug_rb_def)

text \<open>A new node at an empty place of the tree.\<close>

lemma rb_link_node_tree:
  assumes "rb_tree h root (plug K Lf)" "n \<noteq> 0" "aligned4 n" "n \<notin> set (faddrs K)"
  shows "rb_tree (rb_link_node n (up K 0) (slot_of K root) h) root (plug K (Nd Lf n Red Lf))"
    and "rb_heap.more (rb_link_node n (up K 0) (slot_of K root) h) = rb_heap.more h"
    and "rb_frame (insert n (set (faddrs K))) root h (rb_link_node n (up K 0) (slot_of K root) h)"
proof -
  note h = assms(1)[folded aug_rb_True, unfolded aug_rb_plug]
  let ?h = "set_child Lft n 0 (set_child Rgt n 0 (set_pc n (up K 0) h))"
  have eq: "rb_link_node n (up K 0) (slot_of K root) h = put_child K root n ?h"
    by (simp add: rb_link_node_def Let_def slot_store_put_child set_left_right_child)
  have p: "path_at ?h K 0 0" "rt_node ?h root = top_of K 0"
    using h assms by simp_all
  have f: "rb_left (put_child K root n ?h) n = 0" "rb_right (put_child K root n ?h) n = 0"
    using put_child_child [of n K root n ?h] assms(4) by (simp_all add: left_right_child)
  have "aug_rb (\<lambda>z x l r. True) (put_child K root n ?h) root (plug K (Nd Lf n Red Lf))"
    unfolding aug_rb_plug using h assms f put_child_path_at [OF p(1), of root n] put_child_root [OF p(2)]
    by (auto simp: RB_RED_def)
  then show "rb_tree (rb_link_node n (up K 0) (slot_of K root) h) root (plug K (Nd Lf n Red Lf))"
    by (simp add: eq)
  show "rb_heap.more (rb_link_node n (up K 0) (slot_of K root) h) = rb_heap.more h"
    by (simp add: eq)
  show "rb_frame (insert n (set (faddrs K))) root h (rb_link_node n (up K 0) (slot_of K root) h)"
    unfolding eq by (auto intro!: put_child_frame rb_frame_store)
qed

lemma rb_ok_dummy:
  "dummy.rb_ok h root t T h' \<longleftrightarrow>
     rb_tree h' root t \<and> rb_frame (set (addrs T)) root h h' \<and> rb_heap.more h' = rb_heap.more h"
  by (simp add: dummy.rb_ok_def)

text \<open>C11: Linking a new node at an empty place of a red-black tree (\<open>rb_link_node\<close>) and
  rebalancing it (\<open>rb_insert_color\<close>) returns; the heap then holds a red-black tree with the same
  nodes in the same order and the new one at that place, and no field of any other node, of any
  other root, and no data outside the trees has changed.\<close>

theorem rb_insert_correct:
  assumes "rb_tree h root (plug K Lf)" "rbt (plug K Lf)"
    and "n \<noteq> 0" "aligned4 n" "n \<notin> set (faddrs K)"
  shows "\<exists>h' t. rb_insert_color n root (rb_link_node n (up K 0) (slot_of K root) h) = Some h' \<and>
    rb_tree h' root t \<and> rbt t \<and> addrs t = before K @ n # after K \<and>
    rb_frame (insert n (set (faddrs K))) root h h' \<and> rb_heap.more h' = rb_heap.more h"
proof -
  let ?h = "rb_link_node n (up K 0) (slot_of K root) h" and ?T = "plug K (Nd Lf n Red Lf)"
  note l = rb_link_node_tree [OF assms(1,3,4,5)]
  have pinv: "pinv K 0" using assms(2) by (simp add: rbt_plug)
  obtain h' where h': "rb_insert_loop (rotate dummy_callbacks) root n (up K 0) ?h = Some h'"
    "dummy.rb_ok ?h root (ins_fix (Nd Lf n Red Lf) K) ?T h'"
    using dummy.rb_insert_loop_aug [of ?h root K "Nd Lf n Red Lf"] l(1) pinv_root_black [OF pinv]
    by auto
  have "rb_tree ?h root ?T" by (rule l(1))
  then have "rb_pc ?h n = up K 0"
    by (simp add: rb_tree_def tree_at_plug RB_RED_def)
  then have "rb_insert_color n root ?h = Some h'"
    using h'(1) assms(3) by (simp add: rb_insert_color_def rb_insert_internal_def rb_red_parent_def)
  moreover have "rbt (ins_fix (Nd Lf n Red Lf) K)"
    using pinv by (intro rbt_ins_fix) simp_all
  moreover have "addrs (ins_fix (Nd Lf n Red Lf) K) = before K @ n # after K"
    by (simp add: addrs_ins_fix addrs_plug)
  moreover have "rb_frame (insert n (set (faddrs K))) root h h'"
    using rb_frame_trans [OF l(3), of "insert n (set (faddrs K))" h'] h'(2)
    by (simp add: rb_ok_dummy)
  ultimately show ?thesis
    using h'(2) l(2) by (auto simp: rb_ok_dummy)
qed

text \<open>C12: Erasing a node of a red-black tree (\<open>rb_erase\<close>) returns; the heap then holds a red-black
  tree with the remaining nodes in the same order, and nothing outside the tree has changed.\<close>

theorem rb_erase_correct:
  assumes "rb_tree h root t" "rbt t" "addrs t = xs @ n # ys"
  shows "\<exists>h' t'. rb_erase n root h = Some h' \<and> rb_tree h' root t' \<and> rbt t' \<and>
    addrs t' = xs @ ys \<and> rb_frame (set (addrs t)) root h h' \<and> rb_heap.more h' = rb_heap.more h"
proof -
  have d: "distinct (addrs t)" using assms(1) by (simp add: rb_tree_def)
  obtain K l c r where t: "t = plug K (Nd l n c r)" and xy: "xs = before K @ addrs l"
    "ys = addrs r @ after K"
    using plug_split [OF d assms(3)] .
  obtain h' where h': "rb_erase_augmented n root dummy_callbacks h = Some h'"
    "dummy.rb_ok h root (erase_at l n c r K) t h'"
    using dummy.rb_erase_augmented_aug [of h root K l n c r] assms(1,2) by (auto simp: t)
  have "rb_erase n root h = rb_erase_augmented n root dummy_callbacks h"
    unfolding rb_erase_def rb_erase_augmented_def
    by (rule arg_cong2 [where f = Option.bind, OF refl]) (auto simp: fun_eq_iff rb_erase_color_def)
  then show ?thesis
    using h' rbt_erase_at assms(2) by (auto simp: t xy addrs_erase_at rb_ok_dummy)
qed

subsection \<open>Witnesses\<close>

text \<open>A tree of two nodes: the black root 16 with the red child 48 on its right.\<close>

definition two_nodes :: rb_heap where
  "two_nodes = \<lparr>rb_pc = (\<lambda>_. 0)(16 := 1, 48 := 16), rb_right = (\<lambda>_. 0)(16 := 48),
     rb_left = (\<lambda>_. 0), ln_prev = (\<lambda>_. 0), ln_next = (\<lambda>_. 0),
     rt_node = (\<lambda>_. 0)(1024 := 16), rt_leftmost = (\<lambda>_. 0)\<rparr>"

lemma two_nodes_tree:
  "rb_tree two_nodes 1024 (Nd Lf 16 Black (Nd Lf 48 Red Lf))"
  "rbt (Nd Lf 16 Black (Nd Lf 48 Red Lf))"
  by (simp_all add: two_nodes_def rb_tree_def RB_RED_def RB_BLACK_def aligned4_def rbt_def)

lemma rb_insert_correct_witness:
  "\<exists>h' t. rb_insert_color 32 1024 (rb_link_node 32 48 (Slot_Left 48) two_nodes) = Some h' \<and>
     rb_tree h' 1024 t \<and> rbt t \<and> addrs t = [16, 32, 48]"
  using rb_insert_correct [of two_nodes 1024 "[Fr Lft 48 Red Lf, Fr Rgt 16 Black Lf]" 32]
    two_nodes_tree
  by (auto simp: aligned4_def)

lemma rb_erase_correct_witness:
  "\<exists>h' t. rb_erase 16 1024 two_nodes = Some h' \<and> rb_tree h' 1024 t \<and> rbt t \<and> addrs t = [48]"
  using rb_erase_correct [of two_nodes 1024 "Nd Lf 16 Black (Nd Lf 48 Red Lf)" "[]" 16 "[48]"]
    two_nodes_tree
  by auto

end
