(* ===== verification/Rb_Walk.thy ===== *)
theory Rb_Walk
  imports Rb_Tree
begin

text \<open>
  Walking the tree in the heap: first, last, next and previous node in order and in post-order
  (\<open>rbtree.c\<close>, \<open>rbtree.h\<close>), and the replacement of a node.  \<open>rb_next\<close> and \<open>rb_prev\<close> are mirror
  images, so the loops they share take the side as an argument.
\<close>

section \<open>The code\<close>

text \<open>\<open>while (n->rb_left) n = n->rb_left;\<close> and its mirror image.\<close>

partial_function (option) rb_descend_loop :: "dir \<Rightarrow> 'z rb_heap_scheme \<Rightarrow> ptr \<Rightarrow> ptr option" where
  "rb_descend_loop d h n =
     (if child h d n \<noteq> 0 then rb_descend_loop d h (child h d n) else Some n)"

text \<open>\<open>while ((parent = rb_parent(node)) && node == parent->rb_right) node = parent;\<close>\<close>

partial_function (option) rb_ascend_loop :: "dir \<Rightarrow> 'z rb_heap_scheme \<Rightarrow> ptr \<Rightarrow> ptr option" where
  "rb_ascend_loop d h node =
     (let parent = rb_parent h node in
      if parent \<noteq> 0 \<and> node = child h d parent then rb_ascend_loop d h parent else Some parent)"

definition rb_first :: "'z rb_heap_scheme \<Rightarrow> ptr \<Rightarrow> ptr option" where
  "rb_first h root =
     (let n = rt_node h root in if n = 0 then Some 0 else rb_descend_loop Lft h n)"

definition rb_last :: "'z rb_heap_scheme \<Rightarrow> ptr \<Rightarrow> ptr option" where
  "rb_last h root =
     (let n = rt_node h root in if n = 0 then Some 0 else rb_descend_loop Rgt h n)"

definition rb_next :: "'z rb_heap_scheme \<Rightarrow> ptr \<Rightarrow> ptr option" where
  "rb_next h node =
     do {
       chk node;
       if RB_EMPTY_NODE h node then Some 0
       else if rb_right h node \<noteq> 0 then rb_descend_loop Lft h (rb_right h node)
       else rb_ascend_loop Rgt h node
     }"

definition rb_prev :: "'z rb_heap_scheme \<Rightarrow> ptr \<Rightarrow> ptr option" where
  "rb_prev h node =
     do {
       chk node;
       if RB_EMPTY_NODE h node then Some 0
       else if rb_left h node \<noteq> 0 then rb_descend_loop Rgt h (rb_left h node)
       else rb_ascend_loop Lft h node
     }"

partial_function (option) rb_left_deepest_node :: "'z rb_heap_scheme \<Rightarrow> ptr \<Rightarrow> ptr option" where
  "rb_left_deepest_node h node =
     (if rb_left h node \<noteq> 0 then rb_left_deepest_node h (rb_left h node)
      else if rb_right h node \<noteq> 0 then rb_left_deepest_node h (rb_right h node)
      else Some node)"

definition rb_next_postorder :: "'z rb_heap_scheme \<Rightarrow> ptr \<Rightarrow> ptr option" where
  "rb_next_postorder h node =
     (if node = 0 then Some 0
      else
        let parent = rb_parent h node in
        if parent \<noteq> 0 \<and> node = rb_left h parent \<and> rb_right h parent \<noteq> 0 then
          rb_left_deepest_node h (rb_right h parent)
        else Some parent)"

definition rb_first_postorder :: "'z rb_heap_scheme \<Rightarrow> ptr \<Rightarrow> ptr option" where
  "rb_first_postorder h root =
     (if rt_node h root = 0 then Some 0 else rb_left_deepest_node h (rt_node h root))"

text \<open>\<open>*new = *victim\<close> copies the three words of the node.\<close>

definition rb_replace_node ::
    "ptr \<Rightarrow> ptr \<Rightarrow> ptr \<Rightarrow> 'z rb_heap_scheme \<Rightarrow> 'z rb_heap_scheme" where
  "rb_replace_node victim new root h =
     (let parent = rb_parent h victim;
          h = set_left new (rb_left h victim) (set_right new (rb_right h victim)
                (set_pc new (rb_pc h victim) h));
          h = (if rb_left h victim \<noteq> 0 then rb_set_parent (rb_left h victim) new h else h);
          h = (if rb_right h victim \<noteq> 0 then rb_set_parent (rb_right h victim) new h else h)
      in rb_change_child victim new parent root h)"

section \<open>In-order walks\<close>

text \<open>The sequence of a tree seen from side \<open>d\<close>, and what follows a place on that side.\<close>

definition seq :: "dir \<Rightarrow> ptree \<Rightarrow> ptr list" where
  "seq d t = (case d of Lft \<Rightarrow> addrs t | Rgt \<Rightarrow> rev (addrs t))"

definition aft :: "dir \<Rightarrow> frame list \<Rightarrow> ptr list" where
  "aft d K = (case d of Lft \<Rightarrow> after K | Rgt \<Rightarrow> rev (before K))"

definition hd0 :: "ptr list \<Rightarrow> ptr" where
  "hd0 xs = (case xs of [] \<Rightarrow> 0 | x # _ \<Rightarrow> x)"

lemma hd0_simps [simp]: "hd0 [] = 0" "hd0 (x # xs) = x"
  by (simp_all add: hd0_def)

lemma hd0_append: "xs \<noteq> [] \<Longrightarrow> hd0 (xs @ ys) = hd0 xs"
  by (cases xs) simp_all

lemma seq_simps [simp]: "seq d Lf = []" "seq d (nd d a x c b) = seq d a @ x # seq d b"
  by (cases d; simp add: seq_def)+

lemma seq_nonempty [simp]: "seq d t = [] \<longleftrightarrow> t = Lf"
  by (cases d; cases t) (simp_all add: seq_def)

lemma addrs_nonempty [simp]: "addrs t = [] \<longleftrightarrow> t = Lf"
  by (cases t) simp_all

lemma aft_simps [simp]:
  "aft d [] = []" "aft d (Fr d x c s # K) = x # seq d s @ aft d K"
  "aft d (Fr (opp d) x c s # K) = aft d K"
  by (cases d; simp add: aft_def seq_def)+

lemma rb_descend_loop_tree:
  "tree_at h q t \<Longrightarrow> t \<noteq> Lf \<Longrightarrow> rb_descend_loop d h (top t) = Some (hd0 (seq d t))"
proof (induction t arbitrary: q)
  case (Nd l x c r)
  obtain a b where t: "Nd l x c r = nd d a x c b" and a: "a = l \<or> a = r"
    by (cases d) (metis nd.simps)+
  have h: "tree_at h x a" "child h d x = top a"
    using Nd.prems(1) unfolding t by simp_all
  show ?case
  proof (cases "a = Lf")
    case True
    with h show ?thesis unfolding t by (subst rb_descend_loop.simps) simp
  next
    case False
    have "rb_descend_loop d h (top a) = Some (hd0 (seq d a))"
      using a Nd.IH h False by blast
    with False h tree_at_top [OF h(1)] show ?thesis
      unfolding t by (subst rb_descend_loop.simps) (simp add: hd0_append)
  qed
qed simp

lemma rb_ascend_loop_path:
  "path_at h K x 0 \<Longrightarrow> rb_parent h x = up K 0 \<Longrightarrow> x \<noteq> 0 \<Longrightarrow> x \<notin> set (faddrs K) \<Longrightarrow>
   distinct (faddrs K) \<Longrightarrow> rb_ascend_loop (opp d) h x = Some (hd0 (aft d K))"
proof (induction K arbitrary: x rule: faddrs.induct)
  case 1
  then show ?case by (subst rb_ascend_loop.simps) simp
next
  case (2 e y c s K)
  have al: "aligned4 (up K 0)" using path_at_up [of h K y 0] 2 by simp
  show ?case
  proof (cases "e = d")
    case True
    have "top s \<noteq> x"
      using 2 by (cases s) auto
    with 2 True show ?thesis by (subst rb_ascend_loop.simps) auto
  next
    case False
    then have e: "e = opp d" by simp
    have "rb_ascend_loop (opp d) h y = Some (hd0 (aft d K))"
      using 2 al by (intro "2.IH") (auto intro: rb_parent_eq)
    with 2 e show ?thesis by (subst rb_ascend_loop.simps) auto
  qed
qed

lemma rb_tree_node:
  assumes "rb_tree h root t" "addrs t = xs @ n # ys"
  obtains K l c r where "t = plug K (Nd l n c r)" "xs = before K @ addrs l" "ys = addrs r @ after K"
    "path_at h K n 0" "tree_at h n l" "tree_at h n r" "rb_left h n = top l" "rb_right h n = top r"
    "rb_pc h n = up K 0 + colw c" "n \<noteq> 0" "aligned4 n" "n \<notin> set (faddrs K)" "distinct (faddrs K)"
    "rb_parent h n = up K 0" "\<not> RB_EMPTY_NODE h n"
proof -
  have d: "distinct (addrs t)" using assms(1) by (simp add: rb_tree_def)
  obtain K l c r where t: "t = plug K (Nd l n c r)" and xy: "xs = before K @ addrs l"
    "ys = addrs r @ after K"
    using plug_split [OF d assms(2)] .
  note h = assms(1)[unfolded t, folded aug_rb_True, unfolded aug_rb_plug]
  have f: "rb_pc h n = up K 0 + colw c" "n \<noteq> 0" "aligned4 n" "n \<notin> set (faddrs K)"
    "path_at h K n 0"
    using h by auto
  have al: "aligned4 (up K 0)" using path_at_up [OF f(5)] by simp
  have "up K 0 \<noteq> n" using f by (cases K rule: faddrs.cases) auto
  then have ne: "\<not> RB_EMPTY_NODE h n"
    using f(1) aligned4_plus_and_1 [OF al] aligned4_and_1 [OF f(3)]
    by (cases c) (auto simp: RB_EMPTY_NODE_def RB_RED_def RB_BLACK_def)
  show thesis
    using h f ne by (intro that [OF t xy]) (auto intro: rb_parent_eq [OF _ al])
qed

text \<open>C31: In a well-formed tree \<open>rb_next\<close> returns the node after a node of the tree in order, and
  null after the last one.\<close>

theorem rb_next_correct:
  assumes "rb_tree h root t" "addrs t = xs @ n # ys"
  shows "rb_next h n = Some (hd0 ys)"
proof -
  obtain K l c r where n: "ys = addrs r @ after K" "path_at h K n 0" "tree_at h n r"
    "rb_right h n = top r" "n \<noteq> 0" "n \<notin> set (faddrs K)" "distinct (faddrs K)"
    "rb_parent h n = up K 0" "\<not> RB_EMPTY_NODE h n"
    using rb_tree_node [OF assms] .
  show ?thesis
  proof (cases "r = Lf")
    case True
    then show ?thesis
      using n rb_ascend_loop_path [of h K n Lft] by (simp add: rb_next_def aft_def)
  next
    case False
    then show ?thesis
      using n rb_descend_loop_tree [of h n r Lft] tree_at_top [OF n(3)]
      by (simp add: rb_next_def seq_def hd0_append addrs_nonempty)
  qed
qed

theorem rb_prev_correct:
  assumes "rb_tree h root t" "addrs t = xs @ n # ys"
  shows "rb_prev h n = Some (hd0 (rev xs))"
proof -
  obtain K l c r where n: "xs = before K @ addrs l" "path_at h K n 0" "tree_at h n l"
    "rb_left h n = top l" "n \<noteq> 0" "n \<notin> set (faddrs K)" "distinct (faddrs K)"
    "rb_parent h n = up K 0" "\<not> RB_EMPTY_NODE h n"
    using rb_tree_node [OF assms] .
  show ?thesis
  proof (cases "l = Lf")
    case True
    then show ?thesis
      using n rb_ascend_loop_path [of h K n Rgt] by (simp add: rb_prev_def aft_def)
  next
    case False
    then show ?thesis
      using n rb_descend_loop_tree [of h n l Rgt] tree_at_top [OF n(3)]
      by (simp add: rb_prev_def seq_def hd0_append addrs_nonempty)
  qed
qed

theorem rb_first_last_correct:
  assumes "rb_tree h root t"
  shows "rb_first h root = Some (hd0 (addrs t))" "rb_last h root = Some (hd0 (rev (addrs t)))"
  using assms rb_descend_loop_tree [of h 0 t Lft] rb_descend_loop_tree [of h 0 t Rgt]
    tree_at_top [of h 0 t]
  by (cases "t = Lf"; simp add: rb_first_def rb_last_def rb_tree_def seq_def)+

lemma rb_next_correct_witness: "rb_next two_nodes 16 = Some 48"
  using rb_next_correct [OF two_nodes_tree(1), of "[]" 16 "[48]"] by simp

section \<open>Post-order walks\<close>

fun post :: "ptree \<Rightarrow> ptr list" where
  "post Lf = []"
| "post (Nd l x c r) = post l @ post r @ [x]"

fun post_before :: "frame list \<Rightarrow> ptr list" where
  "post_before [] = []"
| "post_before (Fr Lft x c s # K) = post_before K"
| "post_before (Fr Rgt x c s # K) = post_before K @ post s"

fun post_after :: "frame list \<Rightarrow> ptr list" where
  "post_after [] = []"
| "post_after (Fr Lft x c s # K) = post s @ x # post_after K"
| "post_after (Fr Rgt x c s # K) = x # post_after K"

lemma post_plug: "post (plug K t) = post_before K @ post t @ post_after K"
proof (induction K arbitrary: t)
  case (Cons f K)
  then show ?case by (cases f; cases "case f of Fr d _ _ _ \<Rightarrow> d") auto
qed simp

lemma post_nonempty [simp]: "post t = [] \<longleftrightarrow> t = Lf"
  by (cases t) simp_all

lemma set_post [simp]: "set (post t) = set (addrs t)"
  by (induction t) auto

lemma distinct_post: "distinct (addrs t) \<Longrightarrow> distinct (post t)"
  by (induction t) auto

lemma rb_left_deepest_node_tree:
  "tree_at h q t \<Longrightarrow> t \<noteq> Lf \<Longrightarrow> rb_left_deepest_node h (top t) = Some (hd0 (post t))"
proof (induction t arbitrary: q)
  case (Nd l x c r)
  consider "l \<noteq> Lf" | "l = Lf" "r \<noteq> Lf" | "l = Lf" "r = Lf" by blast
  then show ?case
  proof cases
    case 1
    then have "rb_left_deepest_node h (top l) = Some (hd0 (post l))" "top l \<noteq> 0"
      using Nd.prems Nd.IH(1) [of x] tree_at_top [of h x l] by auto
    with 1 Nd.prems show ?thesis
      by (subst rb_left_deepest_node.simps) (simp add: hd0_append)
  next
    case 2
    then have "rb_left_deepest_node h (top r) = Some (hd0 (post r))" "top r \<noteq> 0"
      using Nd.prems Nd.IH(2) [of x] tree_at_top [of h x r] by auto
    with 2 Nd.prems show ?thesis
      by (subst rb_left_deepest_node.simps) (simp add: hd0_append)
  next
    case 3
    with Nd.prems show ?thesis by (subst rb_left_deepest_node.simps) simp
  qed
qed simp

text \<open>C32: In a well-formed tree \<open>rb_next_postorder\<close> returns the node after a node of the tree in
  post-order, and null after the last one: a walk visits every node after its children.\<close>

theorem rb_next_postorder_correct:
  assumes "rb_tree h root t" "post t = xs @ n # ys"
  shows "rb_next_postorder h n = Some (hd0 ys)"
proof -
  have "n \<in> set (addrs t)" using assms(2) by (simp flip: set_post)
  then obtain us vs where "addrs t = us @ n # vs" by (meson split_list)
  from rb_tree_node [OF assms(1) this] obtain K l c r where
    t: "t = plug K (Nd l n c r)" and n: "path_at h K n 0" "n \<noteq> 0" "n \<notin> set (faddrs K)"
    "rb_parent h n = up K 0" "distinct (faddrs K)" by metis
  have "distinct (post t)" using assms(1) by (simp add: rb_tree_def distinct_post)
  moreover have "post t = (post_before K @ post l @ post r) @ n # post_after K"
    by (simp add: t post_plug)
  ultimately have ys: "ys = post_after K"
    using append_Cons_eq_iff [of n xs ys "post_before K @ post l @ post r" "post_after K"]
    by (auto simp: assms(2))
  show ?thesis
  proof (cases K rule: before.cases)
    case 1
    with n ys show ?thesis by (simp add: rb_next_postorder_def)
  next
    case (2 x c' s J)
    then have s: "tree_at h x s" "rb_left h x = n" "rb_right h x = top s" "x \<noteq> 0"
      using n(1) by (simp_all add: child_def)
    show ?thesis
    proof (cases "s = Lf")
      case True
      with 2 n ys s show ?thesis by (simp add: rb_next_postorder_def)
    next
      case False
      with 2 n ys s rb_left_deepest_node_tree [OF s(1)] tree_at_top [OF s(1)] show ?thesis
        by (simp add: rb_next_postorder_def hd0_append)
    qed
  next
    case (3 x c' s J)
    then have s: "rb_left h x = top s" "x \<noteq> 0"
      using n(1) by (simp_all add: child_def)
    have "top s \<noteq> n" using 3 n by (cases s) auto
    with 3 n ys s show ?thesis by (simp add: rb_next_postorder_def)
  qed
qed

lemma rb_next_postorder_correct_witness: "rb_next_postorder two_nodes 48 = Some 16"
  using rb_next_postorder_correct [OF two_nodes_tree(1), of "[]" 48 "[16]"] by simp

theorem rb_first_postorder_correct:
  assumes "rb_tree h root t"
  shows "rb_first_postorder h root = Some (hd0 (post t))"
  using assms rb_left_deepest_node_tree [of h 0 t] tree_at_top [of h 0 t]
  by (cases "t = Lf") (simp_all add: rb_first_postorder_def rb_tree_def)

section \<open>Replacing a node\<close>

lemma reparent_children:
  assumes "tree_at h v l" "tree_at h v r" "aligned4 v" "distinct (addrs l)" "distinct (addrs r)"
    and "set (addrs l) \<inter> set (addrs r) = {}"
  shows "tree_at (reparent (top r) new (reparent (top l) new h)) new l"
    "tree_at (reparent (top r) new (reparent (top l) new h)) new r"
proof -
  have 0: "0 \<notin> set (addrs l)" "0 \<notin> set (addrs r)" using assms tree_at_0 by blast+
  then have n: "top r \<notin> set (addrs l)" "top l \<notin> set (addrs r)"
    using assms(6) top_notin [of l "set (addrs r)"] top_notin [of r "set (addrs l)"] by auto
  have l: "tree_at (reparent (top l) new h) new l"
    using assms by (intro reparent_tree)
  have r: "tree_at (reparent (top l) new h) v r"
    using assms n by simp
  show "tree_at (reparent (top r) new (reparent (top l) new h)) new l"
    using l n by simp
  show "tree_at (reparent (top r) new (reparent (top l) new h)) new r"
    using r assms by (intro reparent_tree)
qed

text \<open>C33: \<open>rb_replace_node\<close> puts a new node exactly where the victim was: same place in the
  order, same colours, and the result is the same tree with the address exchanged.\<close>

theorem rb_replace_node_correct:
  assumes "rb_tree h root (plug K (Nd l v c r))" "new \<noteq> 0" "aligned4 new"
    and "new \<notin> set (addrs (plug K (Nd l v c r)))"
  shows "rb_tree (rb_replace_node v new root h) root (plug K (Nd l new c r)) \<and>
    rb_frame (insert new (set (addrs (plug K (Nd l v c r))))) root h
      (rb_replace_node v new root h)"
proof -
  let ?S = "insert new (set (addrs (plug K (Nd l v c r))))"
  note h = assms(1)[folded aug_rb_True, unfolded aug_rb_plug]
  have f: "path_at h K v 0" "tree_at h v l" "tree_at h v r" "aligned4 v" "v \<noteq> 0"
    "rb_left h v = top l" "rb_right h v = top r" "rb_pc h v = up K 0 + colw c"
    "rt_node h root = top_of K v"
    using h by auto
  have d: "new \<notin> set (addrs l)" "new \<notin> set (addrs r)" "new \<notin> set (faddrs K)" "new \<noteq> v"
    "v \<notin> set (faddrs K)" "distinct (addrs l)" "distinct (addrs r)"
    "set (addrs l) \<inter> set (addrs r) = {}" "distinct (faddrs K)"
    "set (addrs l) \<inter> set (faddrs K) = {}" "set (addrs r) \<inter> set (faddrs K) = {}"
    using h assms(4) by auto
  have al: "aligned4 (up K 0)" using path_at_up [OF f(1)] by simp
  have p: "rb_parent h v = up K 0" using f(8) al by (rule rb_parent_eq)
  define h1 where
    "h1 = set_child Lft new (top l) (set_child Rgt new (top r) (set_pc new (rb_pc h v) h))"
  define h2 where "h2 = reparent (top r) new (reparent (top l) new h1)"
  have t1: "tree_at h1 v l" "tree_at h1 v r" using f d by (simp_all add: h1_def)
  note t2 = reparent_children [OF t1 f(4) d(6-8), of new, folded h2_def]
  have nin: "top l \<notin> set (faddrs K)" "top r \<notin> set (faddrs K)" "top l \<noteq> new" "top r \<noteq> new"
    using d f path_at_0 [OF f(1)] assms(2) top_notin [of l "set (faddrs K)"]
      top_notin [of r "set (faddrs K)"] top_notin [of l "{new}"] top_notin [of r "{new}"] by auto
  have p2: "path_at h2 K v 0" using f d nin by (simp add: h2_def h1_def)
  have left: "rb_left h1 v = top l" "rb_right (reparent (top l) new h1) v = top r"
    using d f by (simp_all add: h1_def left_right_child)
  have "rb_replace_node v new root h = rb_change_child v new (up K 0) root h2"
    by (simp only: rb_replace_node_def Let_def set_left_right_child f(6,7) p
      h1_def [symmetric] reparent_def [symmetric] left h2_def)
  also have "\<dots> = put_child K root new h2"
    using p2 f d by (intro rb_change_child_path)
  finally have eq: "rb_replace_node v new root h = put_child K root new h2" .
  have c2: "rb_left h2 new = top l" "rb_right h2 new = top r" "rb_pc h2 new = up K 0 + colw c"
    using nin f by (simp_all add: h2_def h1_def left_right_child)
  have "path_at (put_child K root new h2) K new 0" "rt_node (put_child K root new h2) root = top_of K new"
    using put_child_path_at [OF p2 d(9)] put_child_root [of h2 root K v new] f(9)
    by (simp_all add: h2_def h1_def)
  moreover have "rb_left (put_child K root new h2) new = top l" "rb_right (put_child K root new h2) new = top r"
    using put_child_child [OF d(3), of root new h2] c2 by (simp_all add: left_right_child)
  moreover have "tree_at (put_child K root new h2) new l" "tree_at (put_child K root new h2) new r"
    using t2 d by (simp_all add: put_child_tree_at)
  ultimately have "aug_rb (\<lambda>z x l r. True) (put_child K root new h2) root (plug K (Nd l new c r))"
    unfolding aug_rb_plug using h d assms c2 by auto
  then have 1: "rb_tree (rb_replace_node v new root h) root (plug K (Nd l new c r))"
    by (simp add: eq)
  have 2: "rb_frame ?S root h (rb_replace_node v new root h)"
    unfolding eq h2_def h1_def using top_in_addrs [of l] top_in_addrs [of r]
    by (cases "l = Lf"; cases "r = Lf")
      (auto intro!: put_child_frame reparent_frame rb_frame_store)
  from 1 2 show ?thesis by blast
qed

lemma rb_replace_node_correct_witness:
  "rb_tree (rb_replace_node 16 32 1024 two_nodes) 1024 (Nd Lf 32 Black (Nd Lf 48 Red Lf))"
  using rb_replace_node_correct [of two_nodes 1024 "[]" Lf 16 Black "Nd Lf 48 Red Lf" 32]
    two_nodes_tree(1)
  by (simp add: aligned4_def)

end
