(* ===== verification/Rb_Search.thy ===== *)
theory Rb_Search
  imports Rb_Walk
begin

text \<open>
  The searches and the insertions of \<open>rbtree.h\<close>: \<open>rb_find\<close>, \<open>rb_find_first\<close>, \<open>rb_next_match\<close>,
  \<open>rb_add\<close>, \<open>rb_find_add\<close> and their leftmost-cached variants.  The operators \<open>cmp\<close> and \<open>less\<close> only
  read the heap, so a search takes the comparison with its key as a function of the node.
\<close>

section \<open>The code\<close>

partial_function (option) rb_find_loop ::
    "(ptr \<Rightarrow> int) \<Rightarrow> 'z rb_heap_scheme \<Rightarrow> ptr \<Rightarrow> ptr option" where
  "rb_find_loop cmp h node =
     (if node = 0 then Some 0
      else
        let c = cmp node in
        if c < 0 then rb_find_loop cmp h (rb_left h node)
        else if c > 0 then rb_find_loop cmp h (rb_right h node)
        else Some node)"

definition rb_find :: "(ptr \<Rightarrow> int) \<Rightarrow> 'z rb_heap_scheme \<Rightarrow> ptr \<Rightarrow> ptr option" where
  "rb_find cmp h tree = rb_find_loop cmp h (rt_node h tree)"

partial_function (option) rb_find_first_loop ::
    "(ptr \<Rightarrow> int) \<Rightarrow> 'z rb_heap_scheme \<Rightarrow> ptr \<Rightarrow> ptr \<Rightarrow> ptr option" where
  "rb_find_first_loop cmp h node match =
     (if node = 0 then Some match
      else
        let c = cmp node in
        if c \<le> 0 then
          let match = (if c = 0 then node else match)
          in rb_find_first_loop cmp h (rb_left h node) match
        else rb_find_first_loop cmp h (rb_right h node) match)"

definition rb_find_first :: "(ptr \<Rightarrow> int) \<Rightarrow> 'z rb_heap_scheme \<Rightarrow> ptr \<Rightarrow> ptr option" where
  "rb_find_first cmp h tree = rb_find_first_loop cmp h (rt_node h tree) 0"

definition rb_next_match :: "(ptr \<Rightarrow> int) \<Rightarrow> 'z rb_heap_scheme \<Rightarrow> ptr \<Rightarrow> ptr option" where
  "rb_next_match cmp h node =
     do {
       node \<leftarrow> rb_next h node;
       Some (if node \<noteq> 0 \<and> cmp node \<noteq> 0 then 0 else node)
     }"

text \<open>The descent of the insertions: the node found, or else the place of the new one.\<close>

partial_function (option) rb_descend ::
    "(ptr \<Rightarrow> int) \<Rightarrow> 'z rb_heap_scheme \<Rightarrow> slot \<Rightarrow> ptr \<Rightarrow> (ptr \<times> ptr \<times> slot) option" where
  "rb_descend cmp h link parent =
     (if slot_load h link = 0 then Some (0, parent, link)
      else
        let parent = slot_load h link;
            c = cmp parent
        in
        if c < 0 then rb_descend cmp h (Slot_Left parent) parent
        else if c > 0 then rb_descend cmp h (Slot_Right parent) parent
        else Some (parent, parent, link))"

definition rb_find_add ::
    "ptr \<Rightarrow> ptr \<Rightarrow> (ptr \<Rightarrow> int) \<Rightarrow> 'z rb_heap_scheme \<Rightarrow> (ptr \<times> 'z rb_heap_scheme) option" where
  "rb_find_add node tree cmp h =
     do {
       (found, parent, link) \<leftarrow> rb_descend cmp h (Slot_Root tree) 0;
       if found \<noteq> 0 then Some (found, h)
       else do {
         let h = rb_link_node node parent link h;
         h \<leftarrow> rb_insert_color node tree h;
         Some (0, h)
       }
     }"

text \<open>The insertions by \<open>less\<close> descend to the right when the node is not less.\<close>

definition by_less :: "(ptr \<Rightarrow> bool) \<Rightarrow> ptr \<Rightarrow> int" where
  "by_less lt parent = (if lt parent then -1 else 1)"

definition rb_add ::
    "ptr \<Rightarrow> ptr \<Rightarrow> (ptr \<Rightarrow> bool) \<Rightarrow> 'z rb_heap_scheme \<Rightarrow> 'z rb_heap_scheme option" where
  "rb_add node tree lt h =
     do {
       (_, parent, link) \<leftarrow> rb_descend (by_less lt) h (Slot_Root tree) 0;
       rb_insert_color node tree (rb_link_node node parent link h)
     }"

text \<open>The variants that cache the leftmost node follow whether the descent ever went right.\<close>

partial_function (option) rb_descend_cached ::
    "(ptr \<Rightarrow> int) \<Rightarrow> 'z rb_heap_scheme \<Rightarrow> slot \<Rightarrow> ptr \<Rightarrow> bool \<Rightarrow>
     (ptr \<times> ptr \<times> slot \<times> bool) option" where
  "rb_descend_cached cmp h link parent leftmost =
     (if slot_load h link = 0 then Some (0, parent, link, leftmost)
      else
        let parent = slot_load h link;
            c = cmp parent
        in
        if c < 0 then rb_descend_cached cmp h (Slot_Left parent) parent leftmost
        else if c > 0 then rb_descend_cached cmp h (Slot_Right parent) parent False
        else Some (parent, parent, link, leftmost))"

definition rb_insert_color_cached ::
    "ptr \<Rightarrow> ptr \<Rightarrow> bool \<Rightarrow> 'z rb_heap_scheme \<Rightarrow> 'z rb_heap_scheme option" where
  "rb_insert_color_cached node root leftmost h =
     (let h = (if leftmost then set_leftmost root node h else h) in rb_insert_color node root h)"

definition rb_find_add_cached ::
    "ptr \<Rightarrow> ptr \<Rightarrow> (ptr \<Rightarrow> int) \<Rightarrow> 'z rb_heap_scheme \<Rightarrow> (ptr \<times> 'z rb_heap_scheme) option" where
  "rb_find_add_cached node tree cmp h =
     do {
       (found, parent, link, leftmost) \<leftarrow> rb_descend_cached cmp h (Slot_Root tree) 0 True;
       if found \<noteq> 0 then Some (found, h)
       else do {
         let h = rb_link_node node parent link h;
         h \<leftarrow> rb_insert_color_cached node tree leftmost h;
         Some (0, h)
       }
     }"

definition rb_add_cached ::
    "ptr \<Rightarrow> ptr \<Rightarrow> (ptr \<Rightarrow> bool) \<Rightarrow> 'z rb_heap_scheme \<Rightarrow> (ptr \<times> 'z rb_heap_scheme) option" where
  "rb_add_cached node tree lt h =
     do {
       (_, parent, link, leftmost) \<leftarrow> rb_descend_cached (by_less lt) h (Slot_Root tree) 0 True;
       h \<leftarrow> rb_insert_color_cached node tree leftmost (rb_link_node node parent link h);
       Some (if leftmost then node else 0, h)
     }"

definition rb_erase_cached ::
    "ptr \<Rightarrow> ptr \<Rightarrow> 'z rb_heap_scheme \<Rightarrow> (ptr \<times> 'z rb_heap_scheme) option" where
  "rb_erase_cached node root h =
     do {
       (leftmost, h) \<leftarrow>
         (if rt_leftmost h root = node then do {
            n \<leftarrow> rb_next h node;
            Some (n, set_leftmost root n h)
          } else Some (0, h));
       h \<leftarrow> rb_erase node root h;
       Some (leftmost, h)
     }"

definition rb_replace_node_cached ::
    "ptr \<Rightarrow> ptr \<Rightarrow> ptr \<Rightarrow> 'z rb_heap_scheme \<Rightarrow> 'z rb_heap_scheme" where
  "rb_replace_node_cached victim new root h =
     (let h = (if rt_leftmost h root = victim then set_leftmost root new h else h)
      in rb_replace_node victim new root h)"

section \<open>Searching\<close>

text \<open>
  The comparison with the key agrees with the order of the nodes: it is positive on a first part
  of the sequence, zero on a second, and negative on the rest.
\<close>

definition cmp_sorted :: "(ptr \<Rightarrow> int) \<Rightarrow> ptr list \<Rightarrow> bool" where
  "cmp_sorted cmp xs \<longleftrightarrow> sorted_wrt (\<lambda>x y. sgn (cmp y) \<le> sgn (cmp x)) xs"

lemma cmp_sorted_append:
  "cmp_sorted cmp (xs @ ys) \<longleftrightarrow> cmp_sorted cmp xs \<and> cmp_sorted cmp ys \<and>
     (\<forall>x\<in>set xs. \<forall>y\<in>set ys. sgn (cmp y) \<le> sgn (cmp x))"
  by (simp add: cmp_sorted_def sorted_wrt_append)

lemma cmp_sorted_Cons:
  "cmp_sorted cmp (x # ys) \<longleftrightarrow> cmp_sorted cmp ys \<and> (\<forall>y\<in>set ys. sgn (cmp y) \<le> sgn (cmp x))"
  by (auto simp: cmp_sorted_def)

lemma sgn_cmp:
  "sgn (a :: int) \<le> sgn b \<Longrightarrow> b < 0 \<Longrightarrow> a < 0" "sgn (a :: int) \<le> sgn b \<Longrightarrow> a > 0 \<Longrightarrow> b > 0"
  by (auto simp: sgn_if split: if_splits)

lemma rb_find_loop_tree:
  "tree_at h q t \<Longrightarrow> cmp_sorted cmp (addrs t) \<Longrightarrow>
   \<exists>n. rb_find_loop cmp h (top t) = Some n \<and>
     (if n = 0 then \<forall>x\<in>set (addrs t). cmp x \<noteq> 0 else n \<in> set (addrs t) \<and> cmp n = 0)"
proof (induction t arbitrary: q)
  case Lf
  then show ?case by (subst rb_find_loop.simps) simp
next
  case (Nd l x c r)
  have s: "cmp_sorted cmp (addrs l)" "cmp_sorted cmp (addrs r)"
    "\<forall>y\<in>set (addrs l). sgn (cmp x) \<le> sgn (cmp y)" "\<forall>y\<in>set (addrs r). sgn (cmp y) \<le> sgn (cmp x)"
    using Nd.prems(2) by (auto simp: cmp_sorted_append cmp_sorted_Cons)
  consider "cmp x < 0" | "cmp x > 0" | "cmp x = 0" by linarith
  then show ?case
  proof cases
    case 1
    with s(4) have "\<forall>y\<in>set (addrs r). cmp y < 0" using sgn_cmp(1) by blast
    with 1 Nd s show ?thesis
      by (subst rb_find_loop.simps) (fastforce split: if_splits)
  next
    case 2
    with s(3) have "\<forall>y\<in>set (addrs l). cmp y > 0" using sgn_cmp(2) by blast
    with 2 Nd s show ?thesis
      by (subst rb_find_loop.simps) (fastforce split: if_splits)
  next
    case 3
    with Nd show ?thesis by (subst rb_find_loop.simps) auto
  qed
qed

theorem rb_find_correct:
  assumes "rb_tree h tree t" "cmp_sorted cmp (addrs t)"
  shows "\<exists>n. rb_find cmp h tree = Some n \<and>
    (if n = 0 then \<forall>x\<in>set (addrs t). cmp x \<noteq> 0 else n \<in> set (addrs t) \<and> cmp n = 0)"
  using assms rb_find_loop_tree [of h 0 t cmp] by (simp add: rb_tree_def rb_find_def)

lemma rb_find_first_loop_tree:
  "tree_at h q t \<Longrightarrow> cmp_sorted cmp (addrs t) \<Longrightarrow>
   rb_find_first_loop cmp h (top t) m =
     Some (case filter (\<lambda>x. cmp x = 0) (addrs t) of [] \<Rightarrow> m | x # _ \<Rightarrow> x)"
proof (induction t arbitrary: q m)
  case Lf
  then show ?case by (subst rb_find_first_loop.simps) simp
next
  case (Nd l x c r)
  have s: "cmp_sorted cmp (addrs l)" "cmp_sorted cmp (addrs r)"
    "\<forall>y\<in>set (addrs l). sgn (cmp x) \<le> sgn (cmp y)" "\<forall>y\<in>set (addrs r). sgn (cmp y) \<le> sgn (cmp x)"
    using Nd.prems(2) by (auto simp: cmp_sorted_append cmp_sorted_Cons)
  consider "cmp x < 0" | "cmp x > 0" | "cmp x = 0" by linarith
  then show ?case
  proof cases
    case 1
    with s(4) have "\<forall>y\<in>set (addrs r). cmp y < 0" using sgn_cmp(1) by blast
    then have "filter (\<lambda>x. cmp x = 0) (addrs r) = []" by (auto simp: filter_empty_conv)
    with 1 Nd s show ?thesis
      by (subst rb_find_first_loop.simps) auto
  next
    case 2
    with s(3) have "\<forall>y\<in>set (addrs l). cmp y > 0" using sgn_cmp(2) by blast
    then have "filter (\<lambda>x. cmp x = 0) (addrs l) = []" by (auto simp: filter_empty_conv)
    with 2 Nd s show ?thesis
      by (subst rb_find_first_loop.simps) auto
  next
    case 3
    with Nd s show ?thesis
      by (subst rb_find_first_loop.simps) (auto split: list.splits)
  qed
qed

text \<open>C34: When the comparison agrees with the order of the tree, \<open>rb_find_first\<close> returns the first
  matching node of the in-order sequence, and null when there is none.\<close>

theorem rb_find_first_correct:
  assumes "rb_tree h tree t" "cmp_sorted cmp (addrs t)"
  shows "rb_find_first cmp h tree = Some (hd0 (filter (\<lambda>x. cmp x = 0) (addrs t)))"
  using assms rb_find_first_loop_tree [of h 0 t cmp 0]
  by (simp add: rb_tree_def rb_find_first_def hd0_def)

lemma rb_find_first_correct_witness:
  "rb_find_first (\<lambda>x. if x = 48 then 0 else 1) two_nodes 1024 = Some 48"
  using rb_find_first_correct [OF two_nodes_tree(1), of "\<lambda>x. if x = 48 then 0 else 1"]
  by (simp add: cmp_sorted_def)

section \<open>Adding\<close>

text \<open>
  The descent stops at the place \<open>K\<close> between the nodes the key is above and those it is below, or
  at a match.
\<close>

definition steered :: "(ptr \<Rightarrow> int) \<Rightarrow> frame list \<Rightarrow> bool" where
  "steered cmp J \<longleftrightarrow>
     (\<forall>f\<in>set J. case f of Fr d x c s \<Rightarrow> if d = Lft then cmp x < 0 else cmp x > 0)"

lemma steered_simps [simp]:
  "steered cmp []"
  "steered cmp (Fr d x c s # J) \<longleftrightarrow> (if d = Lft then cmp x < 0 else cmp x > 0) \<and> steered cmp J"
  "steered cmp (J @ J') \<longleftrightarrow> steered cmp J \<and> steered cmp J'"
  by (auto simp: steered_def)

lemma rb_descend_tree:
  assumes "tree_at h (up K 0) t" "slot_load h (slot_of K root) = top t"
  shows "(\<exists>n link p. rb_descend cmp h (slot_of K root) (up K 0) = Some (n, p, link) \<and> n \<noteq> 0 \<and>
            n \<in> set (addrs t) \<and> cmp n = 0) \<or>
         (\<exists>J. plug J Lf = t \<and>
            rb_descend cmp h (slot_of K root) (up K 0) =
              Some (0, up (J @ K) 0, slot_of (J @ K) root) \<and>
            steered cmp J)"
  using assms
proof (induction t arbitrary: K)
  case Lf
  then have "rb_descend cmp h (slot_of K root) (up K 0) = Some (0, up K 0, slot_of K root)"
    by (subst rb_descend.simps) simp
  then show ?case by (intro disjI2 exI [of _ "[]"]) simp
next
  case (Nd l x c r)
  have h: "x \<noteq> 0" "tree_at h x l" "tree_at h x r" "rb_left h x = top l" "rb_right h x = top r"
    using Nd.prems by simp_all
  consider "cmp x < 0" | "cmp x > 0" | "cmp x = 0" by linarith
  then show ?case
  proof cases
    case 1
    let ?K = "Fr Lft x c r # K"
    have "rb_descend cmp h (slot_of K root) (up K 0) = rb_descend cmp h (slot_of ?K root) (up ?K 0)"
      using 1 h Nd.prems(2) by (subst rb_descend.simps) simp
    moreover have ih: "(\<exists>n link p. rb_descend cmp h (slot_of ?K root) (up ?K 0) = Some (n, p, link) \<and>
            n \<noteq> 0 \<and> n \<in> set (addrs l) \<and> cmp n = 0) \<or>
         (\<exists>J. plug J Lf = l \<and>
            rb_descend cmp h (slot_of ?K root) (up ?K 0) =
              Some (0, up (J @ ?K) 0, slot_of (J @ ?K) root) \<and>
            steered cmp J)"
      using h by (intro Nd.IH(1)) simp_all
    ultimately show ?thesis
    proof (elim disjE exE conjE)
      fix J assume "plug J Lf = l" "rb_descend cmp h (slot_of ?K root) (up ?K 0) =
              Some (0, up (J @ ?K) 0, slot_of (J @ ?K) root)"
        "steered cmp J"
      then show ?thesis
        using 1 \<open>rb_descend cmp h (slot_of K root) (up K 0) = _\<close>
        by (intro disjI2 exI [of _ "J @ [Fr Lft x c r]"]) (auto simp: plug_append)
    qed auto
  next
    case 2
    let ?K = "Fr Rgt x c l # K"
    have "rb_descend cmp h (slot_of K root) (up K 0) = rb_descend cmp h (slot_of ?K root) (up ?K 0)"
      using 2 h Nd.prems(2) by (subst rb_descend.simps) simp
    moreover have ih: "(\<exists>n link p. rb_descend cmp h (slot_of ?K root) (up ?K 0) = Some (n, p, link) \<and>
            n \<noteq> 0 \<and> n \<in> set (addrs r) \<and> cmp n = 0) \<or>
         (\<exists>J. plug J Lf = r \<and>
            rb_descend cmp h (slot_of ?K root) (up ?K 0) =
              Some (0, up (J @ ?K) 0, slot_of (J @ ?K) root) \<and>
            steered cmp J)"
      using h by (intro Nd.IH(2)) simp_all
    ultimately show ?thesis
    proof (elim disjE exE conjE)
      fix J assume "plug J Lf = r" "rb_descend cmp h (slot_of ?K root) (up ?K 0) =
              Some (0, up (J @ ?K) 0, slot_of (J @ ?K) root)"
        "steered cmp J"
      then show ?thesis
        using 2 \<open>rb_descend cmp h (slot_of K root) (up K 0) = _\<close>
        by (intro disjI2 exI [of _ "J @ [Fr Rgt x c l]"]) (auto simp: plug_append)
    qed auto
  next
    case 3
    then show ?thesis
      using h Nd.prems(2) by (intro disjI1) (subst rb_descend.simps; simp)
  qed
qed

lemma steered_sides:
  "steered cmp J \<Longrightarrow> cmp_sorted cmp (before J @ after J) \<Longrightarrow>
   (\<forall>x\<in>set (before J). cmp x > 0) \<and> (\<forall>x\<in>set (after J). cmp x < 0)"
proof (induction J rule: before.induct)
  case (2 x c s K)
  have s: "cmp x < 0" "steered cmp K" using "2.prems"(1) by simp_all
  have ord: "\<forall>y\<in>set (addrs s). sgn (cmp y) \<le> sgn (cmp x)" "cmp_sorted cmp (before K @ after K)"
    using "2.prems"(2) by (simp_all add: cmp_sorted_append cmp_sorted_Cons)
  have "\<forall>y\<in>set (addrs s). cmp y < 0" using ord(1) s(1) sgn_cmp(1) by blast
  with s(1) "2.IH" [OF s(2) ord(2)] show ?case by auto
next
  case (3 x c s K)
  have s: "cmp x > 0" "steered cmp K" using "3.prems"(1) by simp_all
  have ord: "\<forall>y\<in>set (addrs s). sgn (cmp x) \<le> sgn (cmp y)" "cmp_sorted cmp (before K @ after K)"
    using "3.prems"(2) by (simp_all add: cmp_sorted_append cmp_sorted_Cons)
  have "\<forall>y\<in>set (addrs s). cmp y > 0" using ord(1) s(1) sgn_cmp(2) by blast
  with s(1) "3.IH" [OF s(2) ord(2)] show ?case by auto
qed simp

lemma rb_descend_root:
  assumes "rb_tree h root t" "cmp_sorted cmp (addrs t)"
  shows "(\<exists>n link p. rb_descend cmp h (Slot_Root root) 0 = Some (n, p, link) \<and> n \<noteq> 0 \<and>
            n \<in> set (addrs t) \<and> cmp n = 0) \<or>
         (\<exists>J. plug J Lf = t \<and> rb_descend cmp h (Slot_Root root) 0 =
              Some (0, up J 0, slot_of J root) \<and>
            (\<forall>x\<in>set (before J). cmp x > 0) \<and> (\<forall>x\<in>set (after J). cmp x < 0))"
proof -
  have "steered cmp J \<Longrightarrow> plug J Lf = t \<Longrightarrow>
      (\<forall>x\<in>set (before J). cmp x > 0) \<and> (\<forall>x\<in>set (after J). cmp x < 0)" for J
    using assms(2) addrs_plug [of J Lf] by (intro steered_sides) auto
  then show ?thesis
    using assms(1) rb_descend_tree [of h "[]" t root cmp]
    by (simp add: rb_tree_def) blast
qed

text \<open>C30: \<open>rb_find_add\<close>, for a comparison that agrees with the order of the tree: it returns a node
  that matches and changes nothing, or, when none does, puts the new node between the nodes it is
  above and those it is below, and leaves a red-black tree.\<close>

theorem rb_find_add_correct:
  assumes "rb_tree h root t" "rbt t" "cmp_sorted cmp (addrs t)"
    and "n \<noteq> 0" "aligned4 n" "n \<notin> set (addrs t)"
  shows "(\<exists>m\<in>set (addrs t). cmp m = 0 \<and> m \<noteq> 0 \<and> rb_find_add n root cmp h = Some (m, h)) \<or>
    (\<exists>h' t' xs ys. rb_find_add n root cmp h = Some (0, h') \<and> rb_tree h' root t' \<and> rbt t' \<and>
       addrs t = xs @ ys \<and> addrs t' = xs @ n # ys \<and>
       (\<forall>x\<in>set xs. cmp x > 0) \<and> (\<forall>y\<in>set ys. cmp y < 0))"
  using rb_descend_root [OF assms(1,3)]
proof (elim disjE exE conjE)
  fix J
  assume J: "plug J Lf = t" "rb_descend cmp h (Slot_Root root) 0 = Some (0, up J 0, slot_of J root)"
    "\<forall>x\<in>set (before J). cmp x > 0" "\<forall>x\<in>set (after J). cmp x < 0"
  obtain h' t' where h': "rb_insert_color n root (rb_link_node n (up J 0) (slot_of J root) h) = Some h'"
    "rb_tree h' root t'" "rbt t'" "addrs t' = before J @ n # after J"
    using rb_insert_correct [of h root J n] assms J(1) by auto
  have "addrs t = before J @ after J" using addrs_plug [of J Lf] J(1) by simp
  with h' J(2-4) have "rb_find_add n root cmp h = Some (0, h') \<and> rb_tree h' root t' \<and> rbt t' \<and>
       addrs t = before J @ after J \<and> addrs t' = before J @ n # after J \<and>
       (\<forall>x\<in>set (before J). cmp x > 0) \<and> (\<forall>y\<in>set (after J). cmp y < 0)"
    by (simp add: rb_find_add_def)
  then show ?thesis by blast
qed (auto simp: rb_find_add_def)

lemma rb_find_add_correct_witness:
  "\<exists>h' t'. rb_find_add 32 1024 (\<lambda>x. if x < 32 then 1 else -1) two_nodes = Some (0, h') \<and>
     rb_tree h' 1024 t' \<and> rbt t' \<and> addrs t' = [16, 32, 48]"
proof -
  let ?cmp = "\<lambda>x::ptr. if x < 32 then (1::int) else -1"
  let ?t = "Nd Lf 16 Black (Nd Lf 48 Red Lf)"
  have s: "cmp_sorted ?cmp (addrs ?t)" by (simp add: cmp_sorted_def)
  have n: "(32::ptr) \<noteq> 0" "aligned4 32" "32 \<notin> set (addrs ?t)" by (simp_all add: aligned4_def)
  have u: "xs = [16] \<and> ys = [48]" if "[16, 48::ptr] = xs @ ys" "\<forall>x\<in>set xs. ?cmp x > 0"
    "\<forall>y\<in>set ys. ?cmp y < 0" for xs ys
    using that by (auto simp: Cons_eq_append_conv split: if_splits)
  show ?thesis
    using rb_find_add_correct [OF two_nodes_tree s n] u by fastforce
qed

end
