(* ===== verification/Rb_Linked.thy ===== *)
theory Rb_Linked
  imports Rb_Search
begin

text \<open>
  Linked trees: a red-black tree whose nodes are also chained in order, with the first one cached
  (\<open>rb_root_linked_t\<close>).  The insertion \<open>rb_find_add_augmented_linked\<close> and the removal
  \<open>rb_erase_augmented_linked\<close>, which the address-space regions use, keep the chain equal to the
  in-order sequence of the tree, the augmented data right, and the tree red-black.
\<close>

section \<open>The code\<close>

definition rb_unlink_linked_node :: "ptr \<Rightarrow> ptr \<Rightarrow> 'z rb_heap_scheme \<Rightarrow> 'z rb_heap_scheme" where
  "rb_unlink_linked_node node root h =
     (let h = (if ln_prev h node \<noteq> 0 then set_next (ln_prev h node) (ln_next h node) h
               else set_leftmost root (ln_next h node) h)
      in if ln_next h node \<noteq> 0 then set_prev (ln_next h node) (ln_prev h node) h else h)"

definition rb_link_linked_node ::
    "ptr \<Rightarrow> ptr \<Rightarrow> slot \<Rightarrow> 'z rb_heap_scheme \<Rightarrow> 'z rb_heap_scheme" where
  "rb_link_linked_node node parent link h =
     (if parent = 0 then h
      else if link = Slot_Left parent then
        let h = set_prev node (ln_prev h parent) h;
            h = set_next node parent h;
            h = set_prev parent node h
        in if ln_prev h node \<noteq> 0 then set_next (ln_prev h node) node h else h
      else
        let h = set_next node (ln_next h parent) h;
            h = set_prev node parent h;
            h = set_next parent node h
        in if ln_next h node \<noteq> 0 then set_prev (ln_next h node) node h else h)"

definition rb_add_linked ::
    "ptr \<Rightarrow> ptr \<Rightarrow> (ptr \<Rightarrow> bool) \<Rightarrow> 'z rb_heap_scheme \<Rightarrow> (bool \<times> 'z rb_heap_scheme) option" where
  "rb_add_linked node tree lt h =
     do {
       (_, parent, link) \<leftarrow> rb_descend (by_less lt) h (Slot_Root tree) 0;
       let h = rb_link_linked_node node parent link h;
       let h = rb_link_node node parent link h;
       h \<leftarrow> rb_insert_color node tree h;
       let h = (if ln_prev h node = 0 then set_leftmost tree node h else h);
       Some (ln_prev h node = 0, h)
     }"

definition rb_find_add_augmented_linked ::
    "ptr \<Rightarrow> ptr \<Rightarrow> (ptr \<Rightarrow> int) \<Rightarrow> 'z rb_heap_scheme rb_augment_callbacks \<Rightarrow>
     'z rb_heap_scheme \<Rightarrow> (ptr \<times> 'z rb_heap_scheme) option" where
  "rb_find_add_augmented_linked node tree cmp augment h =
     do {
       (found, parent, link) \<leftarrow> rb_descend cmp h (Slot_Root tree) 0;
       if found \<noteq> 0 then Some (found, h)
       else do {
         let h = set_prev node 0 (set_next node 0 h);
         let h = rb_link_linked_node node parent link h;
         let h = (if ln_prev h node = 0 then set_leftmost tree node h else h);
         let h = rb_link_node node parent link h;
         h \<leftarrow> propagate augment parent 0 h;
         h \<leftarrow> rb_insert_augmented node tree augment h;
         Some (0, h)
       }
     }"

definition rb_erase_linked ::
    "ptr \<Rightarrow> ptr \<Rightarrow> 'z rb_heap_scheme \<Rightarrow> (bool \<times> 'z rb_heap_scheme) option" where
  "rb_erase_linked node root h =
     do {
       let h = rb_unlink_linked_node node root h;
       h \<leftarrow> rb_erase node root h;
       let h = RB_CLEAR_LINKED_NODE node h;
       Some (rt_leftmost h root \<noteq> 0, h)
     }"

definition rb_erase_augmented_linked ::
    "ptr \<Rightarrow> ptr \<Rightarrow> 'z rb_heap_scheme rb_augment_callbacks \<Rightarrow>
     'z rb_heap_scheme \<Rightarrow> (bool \<times> 'z rb_heap_scheme) option" where
  "rb_erase_augmented_linked node root augment h =
     do {
       let h = rb_unlink_linked_node node root h;
       h \<leftarrow> rb_erase_augmented node root augment h;
       let h = RB_CLEAR_LINKED_NODE node h;
       Some (rt_leftmost h root \<noteq> 0, h)
     }"

section \<open>The chain\<close>

fun fst_or :: "ptr list \<Rightarrow> ptr \<Rightarrow> ptr" where
  "fst_or [] q = q"
| "fst_or (x # xs) q = x"

fun last_or :: "ptr \<Rightarrow> ptr list \<Rightarrow> ptr" where
  "last_or p [] = p"
| "last_or p (x # xs) = last_or x xs"

text \<open>A segment of the chain: \<open>p\<close> is before it and \<open>q\<close> after it.\<close>

fun dseg :: "'z rb_heap_scheme \<Rightarrow> ptr \<Rightarrow> ptr list \<Rightarrow> ptr \<Rightarrow> bool" where
  "dseg h p [] q \<longleftrightarrow> True"
| "dseg h p (x # xs) q \<longleftrightarrow> ln_prev h x = p \<and> ln_next h x = fst_or xs q \<and> dseg h x xs q"

definition links :: "'z rb_heap_scheme \<Rightarrow> ptr \<Rightarrow> ptr list \<Rightarrow> bool" where
  "links h root xs \<longleftrightarrow> rt_leftmost h root = fst_or xs 0 \<and> dseg h 0 xs 0"

lemma fst_or_append [simp]: "fst_or (xs @ ys) q = fst_or xs (fst_or ys q)"
  by (cases xs) simp_all

lemma fst_or_hd0: "fst_or xs 0 = hd0 xs"
  by (cases xs) simp_all

lemma last_or_append [simp]: "last_or p (xs @ ys) = last_or (last_or p xs) ys"
  by (induction p xs rule: last_or.induct) simp_all

lemma dseg_append [simp]:
  "dseg h p (xs @ ys) q \<longleftrightarrow> dseg h p xs (fst_or ys q) \<and> dseg h (last_or p xs) ys q"
  by (induction xs arbitrary: p) auto

lemma last_or_in: "last_or p xs \<in> insert p (set xs)"
  by (induction p xs rule: last_or.induct) auto

lemma fst_or_in: "fst_or xs q \<in> insert q (set xs)"
  by (cases xs) auto

lemma dseg_cong:
  "(\<And>x. x \<in> set xs \<Longrightarrow> ln_prev h' x = ln_prev h x \<and> ln_next h' x = ln_next h x) \<Longrightarrow>
   dseg h' p xs q = dseg h p xs q"
  by (induction xs arbitrary: p) auto

text \<open>The last node of a segment can be given another follower, and the first another
  predecessor.\<close>

lemma dseg_set_next:
  "dseg h p xs q \<Longrightarrow> distinct xs \<Longrightarrow> last_or p xs = l \<Longrightarrow> l \<noteq> p \<Longrightarrow> p \<notin> set xs \<Longrightarrow>
   dseg (set_next l q' h) p xs q'"
proof (induction xs arbitrary: p)
  case (Cons x xs)
  show ?case
  proof (cases xs)
    case Nil
    with Cons show ?thesis by simp
  next
    case (Cons y ys)
    then have "l \<noteq> x" using Cons.prems last_or_in [of y ys] by auto
    then have "dseg (set_next l q' h) x xs q'"
      using Cons.prems Cons by (intro Cons.IH) auto
    with Cons.prems Cons \<open>l \<noteq> x\<close> show ?thesis by auto
  qed
qed simp

lemma dseg_other:
  "l \<notin> set xs \<Longrightarrow> dseg (set_next l v h) p xs q = dseg h p xs q"
  "l \<notin> set xs \<Longrightarrow> dseg (set_prev l v h) p xs q = dseg h p xs q"
  by (rule dseg_cong; auto)+

lemma dseg_set_prev:
  "dseg h p (x # xs) q \<Longrightarrow> x \<notin> set xs \<Longrightarrow> dseg (set_prev x p' h) p' (x # xs) q"
  by (simp add: dseg_other)

lemma dseg_fields [simp]:
  "dseg (set_leftmost r v h) p xs q = dseg h p xs q"
  "dseg (set_pc r w h) p xs q = dseg h p xs q" "dseg (set_root r v h) p xs q = dseg h p xs q"
  "dseg (set_child d r v h) p xs q = dseg h p xs q"
  by (rule dseg_cong; simp)+

lemma rb_frame_links: "rb_frame S root h h' \<Longrightarrow> links h' r xs = links h r xs"
  unfolding links_def by (simp add: rb_frame_def dseg_cong [of xs h' h])

text \<open>A node between the two parts of the chain.\<close>

lemma links_insert:
  assumes l: "dseg h 0 (xs @ ys) 0" and d: "distinct (xs @ ys)" "n \<notin> set (xs @ ys)" "0 \<notin> set (xs @ ys)"
    and p: "\<And>x. ln_prev h' x = (if x = n then last_or 0 xs
      else if x = fst_or ys 0 \<and> x \<noteq> 0 then n else ln_prev h x)"
    and q: "\<And>x. ln_next h' x = (if x = n then fst_or ys 0
      else if x = last_or 0 xs \<and> x \<noteq> 0 then n else ln_next h x)"
  shows "dseg h' 0 (xs @ n # ys) 0"
proof -
  have l1: "dseg h 0 xs (fst_or ys 0)" and l2: "dseg h (last_or 0 xs) ys 0"
    using l by simp_all
  have "dseg h' 0 xs n"
  proof (cases xs)
    case (Cons x xs')
    have n0: "last_or 0 xs \<in> set xs" "last_or 0 xs \<noteq> 0"
      using last_or_in [of x xs'] d Cons by auto
    have "fst_or ys 0 \<notin> set xs" using fst_or_in [of ys 0] d by auto
    then have "dseg h' 0 xs n = dseg (set_next (last_or 0 xs) n h) 0 xs n"
      using p q d n0 by (intro dseg_cong) auto
    also have "\<dots>"
      using l1 d n0 by (intro dseg_set_next) auto
    finally show ?thesis .
  qed simp
  moreover have "dseg h' n ys 0"
  proof (cases ys)
    case (Cons y ys')
    have "last_or 0 xs \<notin> set ys" using last_or_in [of 0 xs] d by auto
    then have "dseg h' n ys 0 = dseg (set_prev y n h) n ys 0"
      using p q d Cons by (intro dseg_cong) auto
    also have "\<dots>"
      using l2 d unfolding Cons by (intro dseg_set_prev) auto
    finally show ?thesis .
  qed simp
  ultimately show ?thesis
    using p q by simp
qed

lemma links_delete:
  assumes l: "dseg h 0 (xs @ n # ys) 0" and d: "distinct (xs @ n # ys)" "0 \<notin> set (xs @ n # ys)"
    and p: "\<And>x. ln_prev h' x =
      (if x = fst_or ys 0 \<and> x \<noteq> 0 then last_or 0 xs else ln_prev h x)"
    and q: "\<And>x. ln_next h' x =
      (if x = last_or 0 xs \<and> x \<noteq> 0 then fst_or ys 0 else ln_next h x)"
  shows "dseg h' 0 (xs @ ys) 0"
proof -
  have l1: "dseg h 0 xs n" and l2: "dseg h n ys 0"
    using l by simp_all
  have "dseg h' 0 xs (fst_or ys 0)"
  proof (cases xs)
    case (Cons x xs')
    have n0: "last_or 0 xs \<in> set xs" "last_or 0 xs \<noteq> 0"
      using last_or_in [of x xs'] d Cons by auto
    have "fst_or ys 0 \<notin> set xs" using fst_or_in [of ys 0] d by auto
    then have "dseg h' 0 xs (fst_or ys 0) = dseg (set_next (last_or 0 xs) (fst_or ys 0) h) 0 xs (fst_or ys 0)"
      using p q d n0 by (intro dseg_cong) auto
    also have "\<dots>"
      using l1 d n0 by (intro dseg_set_next) auto
    finally show ?thesis .
  qed simp
  moreover have "dseg h' (last_or 0 xs) ys 0"
  proof (cases ys)
    case (Cons y ys')
    have "last_or 0 xs \<notin> set ys" using last_or_in [of 0 xs] d by auto
    then have "dseg h' (last_or 0 xs) ys 0 = dseg (set_prev y (last_or 0 xs) h) (last_or 0 xs) ys 0"
      using p q d Cons by (intro dseg_cong) auto
    also have "\<dots>"
      using l2 d unfolding Cons by (intro dseg_set_prev) auto
    finally show ?thesis .
  qed simp
  ultimately show ?thesis
    by simp
qed

definition tree_fields where
  "tree_fields h = (rb_pc h, rb_left h, rb_right h, rt_node h, rb_heap.more h)"

text \<open>The neighbours of a place of the tree are those of the frame the place hangs on.\<close>

lemma place_neighbours:
  assumes "dseg h 0 (before K @ after K) 0"
  shows "K = Fr Lft x c s # J \<Longrightarrow> fst_or (after K) 0 = x \<and> ln_prev h x = last_or 0 (before K)"
    and "K = Fr Rgt x c s # J \<Longrightarrow> last_or 0 (before K) = x \<and> ln_next h x = fst_or (after K) 0"
  using assms by auto

lemma rb_link_linked_node_links:
  assumes l: "links h root (before K @ after K)" and d: "distinct (before K @ after K)"
    and n: "n \<notin> set (before K @ after K)" "n \<noteq> 0" "0 \<notin> set (before K @ after K)"
    and h1: "h1 = rb_link_linked_node n (up K 0) (slot_of K root) (set_prev n 0 (set_next n 0 h))"
    and h2: "h2 = (if ln_prev h1 n = 0 then set_leftmost root n h1 else h1)"
  shows "links h2 root (before K @ n # after K)"
    and "tree_fields h2 = tree_fields h"
    and "\<And>r. r \<noteq> root \<Longrightarrow> rt_leftmost h2 r = rt_leftmost h r"
    and "\<And>x. x \<notin> insert n (set (before K @ after K)) \<Longrightarrow>
           ln_prev h2 x = ln_prev h x \<and> ln_next h2 x = ln_next h x"
proof -
  have seg: "dseg h 0 (before K @ after K) 0" and lm: "rt_leftmost h root = fst_or (before K @ after K) 0"
    using l by (simp_all add: links_def)
  note nb = place_neighbours [OF seg]
  let ?p = "last_or 0 (before K)" and ?q = "fst_or (after K) 0"
  have pin: "?p \<in> insert 0 (set (before K))" "?q \<in> insert 0 (set (after K))"
    by (rule last_or_in, rule fst_or_in)
  have K: "K \<noteq> [] \<Longrightarrow> up K 0 \<noteq> 0"
    using n(3) by (cases K rule: before.cases) auto
  have h1': "ln_prev h1 = (\<lambda>x. if x = n then ?p else if x = ?q \<and> x \<noteq> 0 then n else ln_prev h x) \<and>
    ln_next h1 = (\<lambda>x. if x = n then ?q else if x = ?p \<and> x \<noteq> 0 then n else ln_next h x)"
  proof (cases K rule: before.cases)
    case 1
    then show ?thesis using n by (auto simp: h1 rb_link_linked_node_def fun_eq_iff)
  next
    case (2 x c s J)
    have "x \<noteq> 0" "n \<noteq> x" "?p \<noteq> n" "?q = x" "ln_prev h x = ?p" "?p \<noteq> x"
      using 2 n pin nb(1) [OF 2] d by auto
    then show ?thesis using n
      by (auto simp: h1 rb_link_linked_node_def Let_def fun_eq_iff 2)
  next
    case (3 x c s J)
    have "x \<noteq> 0" "n \<noteq> x" "?q \<noteq> n" "?p = x" "ln_next h x = ?q" "?q \<noteq> x"
      using 3 n pin nb(2) [OF 3] d by auto
    then show ?thesis using n
      by (auto simp: h1 rb_link_linked_node_def Let_def fun_eq_iff 3)
  qed
  have tf: "tree_fields h1 = tree_fields h" "rt_leftmost h1 = rt_leftmost h"
    by (simp_all add: h1 rb_link_linked_node_def Let_def tree_fields_def)
  have "dseg h1 0 (before K @ n # after K) 0"
    by (rule links_insert [OF seg d n(1,3)]) (use h1' in auto)
  moreover have "rt_leftmost h2 root = fst_or (before K @ n # after K) 0"
  proof (cases "before K")
    case Nil
    then show ?thesis using h1' by (simp add: h2)
  next
    case (Cons x xs)
    then have "?p \<noteq> 0" using last_or_in [of x xs] n by auto
    then show ?thesis using h1' tf lm Cons by (simp add: h2)
  qed
  ultimately show "links h2 root (before K @ n # after K)"
    by (simp add: links_def h2)
  show "tree_fields h2 = tree_fields h"
    using tf by (simp add: h2 tree_fields_def)
  show "rt_leftmost h2 r = rt_leftmost h r" if "r \<noteq> root" for r
    using that tf by (simp add: h2)
  show "ln_prev h2 x = ln_prev h x \<and> ln_next h2 x = ln_next h x"
    if "x \<notin> insert n (set (before K @ after K))" for x
    using that h1' pin by (auto simp: h2)
qed

lemma rb_unlink_linked_node_links:
  assumes l: "links h root (xs @ n # ys)" and d: "distinct (xs @ n # ys)" "0 \<notin> set (xs @ n # ys)"
    and h1: "h1 = rb_unlink_linked_node n root h"
  shows "links h1 root (xs @ ys)"
    and "tree_fields h1 = tree_fields h"
    and "\<And>r. r \<noteq> root \<Longrightarrow> rt_leftmost h1 r = rt_leftmost h r"
    and "\<And>x. x \<notin> set (xs @ n # ys) \<Longrightarrow> ln_prev h1 x = ln_prev h x \<and> ln_next h1 x = ln_next h x"
proof -
  have seg: "dseg h 0 (xs @ n # ys) 0" and lm: "rt_leftmost h root = fst_or (xs @ n # ys) 0"
    using l by (simp_all add: links_def)
  let ?p = "last_or 0 xs" and ?q = "fst_or ys 0"
  have pn: "ln_prev h n = ?p" "ln_next h n = ?q" using seg by simp_all
  have pin: "?p \<in> insert 0 (set xs)" "?q \<in> insert 0 (set ys)"
    by (rule last_or_in, rule fst_or_in)
  have ne: "?p = 0 \<longleftrightarrow> xs = []" "?p \<noteq> n" "?q \<noteq> n"
    using pin d last_or_in [of "hd xs" "tl xs"] by (cases xs; auto)+
  have h1': "ln_prev h1 = (\<lambda>x. if x = ?q \<and> x \<noteq> 0 then ?p else ln_prev h x)"
    "ln_next h1 = (\<lambda>x. if x = ?p \<and> x \<noteq> 0 then ?q else ln_next h x)"
    "rt_leftmost h1 = (if ?p \<noteq> 0 then rt_leftmost h else (rt_leftmost h)(root := ?q))"
    "tree_fields h1 = tree_fields h"
    using pn ne by (auto simp: h1 rb_unlink_linked_node_def Let_def fun_eq_iff tree_fields_def)
  have "dseg h1 0 (xs @ ys) 0"
    by (rule links_delete [OF seg d]) (use h1' in auto)
  moreover have "rt_leftmost h1 root = fst_or (xs @ ys) 0"
    using h1'(3) lm ne(1) by (cases xs) auto
  ultimately show "links h1 root (xs @ ys)" by (simp add: links_def)
  show "tree_fields h1 = tree_fields h" by (rule h1'(4))
  show "rt_leftmost h1 r = rt_leftmost h r" if "r \<noteq> root" for r
    using that h1'(3) by simp
  show "ln_prev h1 x = ln_prev h x \<and> ln_next h1 x = ln_next h x" if "x \<notin> set (xs @ n # ys)" for x
    using that h1' pin d by auto
qed

section \<open>The linked trees\<close>

text \<open>Nothing changed but the nodes in \<open>S\<close> and the root.\<close>

definition linked_frame :: "ptr set \<Rightarrow> ptr \<Rightarrow> 'z rb_heap_scheme \<Rightarrow> 'z rb_heap_scheme \<Rightarrow> bool" where
  "linked_frame S root h h' \<longleftrightarrow>
     (\<forall>x. x \<notin> S \<longrightarrow> rb_pc h' x = rb_pc h x \<and> rb_left h' x = rb_left h x \<and>
        rb_right h' x = rb_right h x \<and> ln_prev h' x = ln_prev h x \<and> ln_next h' x = ln_next h x) \<and>
     (\<forall>r. r \<noteq> root \<longrightarrow> rt_node h' r = rt_node h r \<and> rt_leftmost h' r = rt_leftmost h r)"

lemma linked_frame_rb: "rb_frame S root h h' \<Longrightarrow> linked_frame S root h h'"
  by (simp add: linked_frame_def rb_frame_def)

lemma linked_frame_trans:
  "linked_frame S root h h' \<Longrightarrow> linked_frame S root h' h'' \<Longrightarrow> linked_frame S root h h''"
  by (simp add: linked_frame_def)

lemma linked_frame_mono: "linked_frame S root h h' \<Longrightarrow> S \<subseteq> S' \<Longrightarrow> linked_frame S' root h h'"
  unfolding linked_frame_def by blast

lemma tree_fields_rb_tree: "tree_fields h' = tree_fields h \<Longrightarrow> rb_tree h' root t = rb_tree h root t"
  by (auto simp: tree_fields_def rb_tree_def tree_at_cong [of t h' h])

context rb_augment
begin

text \<open>The linked tree with the nodes of \<open>t\<close>, red-black, chained in order, its augmented data right.\<close>

definition linked_tree where
  "linked_tree h root t \<longleftrightarrow> aug_rb nok h root t \<and> rbt t \<and> links h root (addrs t)"

lemma linked_insert_at:
  assumes t: "linked_tree h root (plug K Lf)"
    and n: "n \<noteq> 0" "aligned4 n" "n \<notin> set (faddrs K)" "nok (rb_heap.more h) n 0 0"
    and h1: "h1 = rb_link_linked_node n (up K 0) (slot_of K root) (set_prev n 0 (set_next n 0 h))"
    and h2: "h2 = (if ln_prev h1 n = 0 then set_leftmost root n h1 else h1)"
    and h3: "h3 = rb_link_node n (up K 0) (slot_of K root) h2"
  shows "\<exists>h4 h5 t'. propagate cb (up K 0) 0 h3 = Some h4 \<and> rb_insert_augmented n root cb h4 = Some h5 \<and>
    linked_tree h5 root t' \<and> addrs t' = before K @ n # after K \<and>
    linked_frame (insert n (set (faddrs K))) root h h5 \<and>
    keep (insert n (set (faddrs K))) (rb_heap.more h) (rb_heap.more h5)"
proof -
  let ?S = "insert n (set (faddrs K))"
  let ?T = "plug K (Nd Lf n Red Lf)"
  have tr: "rb_tree h root (plug K Lf)" "rbt (plug K Lf)" "links h root (before K @ after K)"
    "aug_path nok (rb_heap.more h) K 0"
    using t by (simp_all add: linked_tree_def aug_rb_def addrs_plug aug_tree_plug)
  have S: "set (before K @ after K) = set (faddrs K)"
    using set_before_after [of K] by simp
  have dd: "distinct (before K @ after K)" "0 \<notin> set (before K @ after K)"
    using tr(1) tree_at_0 [of h 0 "plug K Lf"] distinct_before_after [of K]
    unfolding S by (simp_all add: rb_tree_def)
  have n1: "n \<notin> set (before K @ after K)" using n(3) S by simp
  note lk = rb_link_linked_node_links [OF tr(3) dd(1) n1 n(1) dd(2) h1 h2]
  have more2: "rb_heap.more h2 = rb_heap.more h" using lk(2) by (simp add: tree_fields_def)
  have "rb_tree h2 root (plug K Lf)" using tr(1) tree_fields_rb_tree [OF lk(2)] by simp
  note ln = rb_link_node_tree [OF this n(1,2,3), folded h3]
  have "linked_frame ?S root h h2"
    using lk(2,3,4) S by (auto simp: linked_frame_def tree_fields_def)
  with linked_frame_rb [OF ln(3)] have fr3: "linked_frame ?S root h h3"
    using linked_frame_trans by blast
  have links3: "links h3 root (before K @ n # after K)"
    using lk(1) rb_frame_links [OF ln(3)] by simp
  note T3 = ln(1)[folded aug_rb_True, unfolded aug_rb_plug]
  have p3: "path_at h3 K n 0" "distinct (faddrs K)" using T3 by simp_all
  have n0: "0 \<notin> set (fnodes K)" using path_at_0 [OF p3(1)] fnodes_subset by blast
  obtain h4 where h4: "propagate cb (up K 0) 0 h3 = Some h4" "same_shape h3 h4"
    "keep (set (fnodes K)) (rb_heap.more h) (rb_heap.more h4)" "aug_path nok (rb_heap.more h4) K n"
    using propagate_path [OF p3 aligned4_0 n0 n(3)] aug_path_stale [OF tr(4)] ln(2) more2 by auto
  have "n \<notin> set (fnodes K)" using n(3) fnodes_subset by blast
  then have nok4: "nok (rb_heap.more h4) n 0 0" using nok_keep [OF h4(3) _ n0 n0] n(4) by simp
  have a4: "aug_rb nok h4 root ?T"
    using ln(1) nok4 h4(2,4) same_shape_tree_at [OF h4(2)]
    by (auto simp: aug_rb_def rb_tree_def aug_tree_plug) (simp add: same_shape_def)
  have pinv: "pinv K 0" using tr(2) by (simp add: rbt_plug)
  obtain h5 where h5: "rb_insert_loop (rotate cb) root n (up K 0) h4 = Some h5"
    "rb_ok h4 root (ins_fix (Nd Lf n Red Lf) K) ?T h5"
    using rb_insert_loop_aug [OF a4] pinv_root_black [OF pinv] by auto
  have pc: "rb_pc h4 n = up K 0"
    using a4 by (simp add: aug_rb_plug RB_RED_def)
  have run: "rb_insert_augmented n root cb h4 = Some h5"
    using h5(1) pc n(1) by (simp add: rb_insert_augmented_def rb_insert_internal_def rb_red_parent_def)
  have fr5: "rb_frame ?S root h4 h5" "keep ?S (rb_heap.more h4) (rb_heap.more h5)"
    using h5(2) by (simp_all add: rb_ok_def)
  have f34: "rb_frame ?S root h3 h4" using rb_frame_shape [OF rb_frame_refl h4(2)] .
  have links5: "links h5 root (before K @ n # after K)"
    using links3 rb_frame_links [OF f34] rb_frame_links [OF fr5(1)] by simp
  have fr: "linked_frame ?S root h h5"
    using fr3 linked_frame_rb [OF f34] linked_frame_rb [OF fr5(1)] linked_frame_trans by blast
  have "set (fnodes K) \<subseteq> ?S" using fnodes_subset by blast
  then have kp: "keep ?S (rb_heap.more h) (rb_heap.more h5)"
    using keep_trans [OF keep_mono [OF h4(3)] fr5(2)] by blast
  have ad: "addrs (ins_fix (Nd Lf n Red Lf) K) = before K @ n # after K"
    by (simp add: addrs_ins_fix addrs_plug)
  have "rbt (ins_fix (Nd Lf n Red Lf) K)" using pinv by (intro rbt_ins_fix) simp_all
  then have "linked_tree h5 root (ins_fix (Nd Lf n Red Lf) K)"
    using h5(2) links5 ad by (simp add: linked_tree_def rb_ok_def)
  with h4(1) run fr kp ad show ?thesis by blast
qed

theorem rb_find_add_augmented_linked_ok:
  assumes t: "linked_tree h root t" "cmp_sorted cmp (addrs t)"
    and n: "n \<noteq> 0" "aligned4 n" "n \<notin> set (addrs t)" "nok (rb_heap.more h) n 0 0"
  shows "(\<exists>m\<in>set (addrs t). cmp m = 0 \<and> m \<noteq> 0 \<and>
           rb_find_add_augmented_linked n root cmp cb h = Some (m, h)) \<or>
    (\<exists>h' t' xs ys. rb_find_add_augmented_linked n root cmp cb h = Some (0, h') \<and>
       linked_tree h' root t' \<and> addrs t = xs @ ys \<and> addrs t' = xs @ n # ys \<and>
       (\<forall>x\<in>set xs. cmp x > 0) \<and> (\<forall>y\<in>set ys. cmp y < 0) \<and>
       linked_frame (insert n (set (addrs t))) root h h' \<and>
       keep (insert n (set (addrs t))) (rb_heap.more h) (rb_heap.more h'))"
proof -
  have "rb_tree h root t" using t(1) by (simp add: linked_tree_def aug_rb_def)
  from rb_descend_root [OF this t(2)] show ?thesis
  proof (elim disjE exE conjE)
    fix J
    assume J: "plug J Lf = t" "rb_descend cmp h (Slot_Root root) 0 = Some (0, up J 0, slot_of J root)"
      "\<forall>x\<in>set (before J). cmp x > 0" "\<forall>x\<in>set (after J). cmp x < 0"
    have S: "set (faddrs J) = set (addrs t)" using J(1) by auto
    have "n \<notin> set (faddrs J)" using n(3) S by simp
    note at = linked_insert_at [of h root J, unfolded J(1), OF t(1) n(1,2) this n(4) refl refl refl]
    then show ?thesis
      using J addrs_plug [of J Lf] unfolding S
      by (intro disjI2) (fastforce simp: rb_find_add_augmented_linked_def)
  qed (auto simp: rb_find_add_augmented_linked_def)
qed

theorem rb_erase_augmented_linked_ok:
  assumes t: "linked_tree h root t" "addrs t = xs @ n # ys"
  shows "\<exists>h' t'. rb_erase_augmented_linked n root cb h = Some (xs @ ys \<noteq> [], h') \<and>
     linked_tree h' root t' \<and> addrs t' = xs @ ys \<and> RB_EMPTY_NODE h' n \<and>
     ln_prev h' n = 0 \<and> ln_next h' n = 0 \<and>
     linked_frame (set (addrs t)) root h h' \<and>
     keep (set (addrs t)) (rb_heap.more h) (rb_heap.more h')"
proof -
  have tr: "rb_tree h root t" "rbt t" "aug_tree nok (rb_heap.more h) t" "links h root (xs @ n # ys)"
    using t by (simp_all add: linked_tree_def aug_rb_def)
  have d: "distinct (xs @ n # ys)" "0 \<notin> set (xs @ n # ys)"
    using tr(1) tree_at_0 [of h 0 t] unfolding t(2)[symmetric] by (simp_all add: rb_tree_def)
  define h1 where "h1 = rb_unlink_linked_node n root h"
  note ul = rb_unlink_linked_node_links [OF tr(4) d h1_def]
  have more1: "rb_heap.more h1 = rb_heap.more h" using ul(2) by (simp add: tree_fields_def)
  have a1: "aug_rb nok h1 root t"
    using tr tree_fields_rb_tree [OF ul(2)] more1 by (simp add: aug_rb_def)
  have dt: "distinct (addrs t)" using d t(2) by simp
  obtain K l c r where T: "t = plug K (Nd l n c r)" and xy: "xs = before K @ addrs l"
    "ys = addrs r @ after K"
    using plug_split [OF dt t(2)] .
  obtain h2 where h2: "rb_erase_augmented n root cb h1 = Some h2"
    "rb_ok h1 root (erase_at l n c r K) t h2"
    using rb_erase_augmented_aug [of h1 root K l n c r] a1 tr(2) by (auto simp: T)
  let ?t = "erase_at l n c r K"
  have ad: "addrs ?t = xs @ ys" by (simp add: addrs_erase_at xy)
  have a2: "aug_rb nok h2 root ?t" "rb_frame (set (addrs t)) root h1 h2"
    "keep (set (addrs t)) (rb_heap.more h1) (rb_heap.more h2)"
    using h2(2) by (simp_all add: rb_ok_def)
  have l2: "links h2 root (xs @ ys)" using ul(1) rb_frame_links [OF a2(2)] by simp
  let ?h = "RB_CLEAR_LINKED_NODE n h2"
  have nn: "n \<notin> set (addrs ?t)" using d(1) ad by simp
  have f: "rb_heap.more ?h = rb_heap.more h2" "rt_leftmost ?h = rt_leftmost h2"
    "rt_node ?h = rt_node h2"
    by (simp_all add: RB_CLEAR_LINKED_NODE_def RB_CLEAR_NODE_def)
  have "tree_at ?h 0 ?t = tree_at h2 0 ?t"
    using nn by (simp add: RB_CLEAR_LINKED_NODE_def RB_CLEAR_NODE_def)
  then have a3: "aug_rb nok ?h root ?t"
    using a2(1) f by (simp add: aug_rb_def rb_tree_def)
  have "links ?h root (xs @ ys)"
    using l2 nn ad unfolding links_def f
    by (simp add: RB_CLEAR_LINKED_NODE_def RB_CLEAR_NODE_def dseg_other)
  with a3 ad have lt: "linked_tree ?h root ?t"
    using rbt_erase_at [of K l n c r] tr(2) by (simp add: linked_tree_def T)
  have lm: "rt_leftmost ?h root = fst_or (xs @ ys) 0"
    using l2 by (simp add: f links_def)
  have "fst_or (xs @ ys) 0 \<noteq> 0 \<longleftrightarrow> xs @ ys \<noteq> []"
    using d(2) by (cases xs; cases ys) auto
  with lm have res: "rt_leftmost ?h root \<noteq> 0 \<longleftrightarrow> xs @ ys \<noteq> []" by simp
  have "linked_frame (set (addrs t)) root h h1"
    using ul(2,3,4) t(2) by (auto simp: linked_frame_def tree_fields_def)
  moreover have "linked_frame (set (addrs t)) root h1 h2"
    by (rule linked_frame_rb [OF a2(2)])
  moreover have "linked_frame (set (addrs t)) root h2 ?h"
    using t(2) by (auto simp: linked_frame_def RB_CLEAR_LINKED_NODE_def RB_CLEAR_NODE_def)
  ultimately have fr: "linked_frame (set (addrs t)) root h ?h"
    using linked_frame_trans by blast
  have run: "rb_erase_augmented_linked n root cb h = Some (rt_leftmost ?h root \<noteq> 0, ?h)"
    by (simp only: rb_erase_augmented_linked_def Let_def h1_def [symmetric] h2(1) bind.bind_lunit)
  have cl: "RB_EMPTY_NODE ?h n" "ln_prev ?h n = 0" "ln_next ?h n = 0"
    by (simp_all add: RB_EMPTY_NODE_def RB_CLEAR_LINKED_NODE_def RB_CLEAR_NODE_def)
  show ?thesis
    using run res lt ad fr a2(3) cl unfolding f(1) more1 by (auto simp: f(1))
qed

end

end
