(* ===== verification/Rb_Augment.thy ===== *)
theory Rb_Augment
  imports Rb_Linked
begin

text \<open>
  The callbacks that \<open>RB_DECLARE_CALLBACKS_MAX\<close> of \<open>rbtree_augmented.h\<close> declares: they keep in
  every node the maximum of a per-node scalar over its subtree; and the search
  \<open>rb_find_first_fit\<close> that uses them.

  The macro's arguments are those of the definitions: \<open>get\<close> and \<open>upd\<close> read and write the augmented
  field of all nodes (\<open>RBAUGMENTED\<close>), \<open>compute\<close> is the per-node scalar (\<open>RBCOMPUTE\<close>), all in the
  part of the heap that is not the trees' own.  The locale \<open>max_augment\<close> states what the macro
  expects of its arguments and shows that the callbacks then meet the contract \<open>rb_augment\<close>.
\<close>

section \<open>The code\<close>

type_synonym 'z field = "'z \<Rightarrow> ptr \<Rightarrow> u64"
type_synonym 'z field_upd = "(ptr \<Rightarrow> u64) \<Rightarrow> 'z \<Rightarrow> 'z"

definition aug_put ::
    "'z field \<Rightarrow> 'z field_upd \<Rightarrow> ptr \<Rightarrow> u64 \<Rightarrow> 'z rb_heap_scheme \<Rightarrow> 'z rb_heap_scheme" where
  "aug_put get upd x v h = rb_heap.more_update (\<lambda>z. upd ((get z)(x := v)) z) h"

definition max_compute_max ::
    "'z field \<Rightarrow> 'z field_upd \<Rightarrow> 'z field \<Rightarrow> ptr \<Rightarrow> bool \<Rightarrow>
     'z rb_heap_scheme \<Rightarrow> bool \<times> 'z rb_heap_scheme" where
  "max_compute_max get upd compute node exit h =
     (let z = rb_heap.more h;
          max = compute z node;
          max = (if rb_left h node \<noteq> 0 then
                   let child = rb_left h node in if get z child > max then get z child else max
                 else max);
          max = (if rb_right h node \<noteq> 0 then
                   let child = rb_right h node in if get z child > max then get z child else max
                 else max)
      in if exit \<and> get z node = max then (True, h)
         else (False, aug_put get upd node max h))"

partial_function (option) max_propagate ::
    "'z field \<Rightarrow> 'z field_upd \<Rightarrow> 'z field \<Rightarrow> ptr \<Rightarrow> ptr \<Rightarrow>
     'z rb_heap_scheme \<Rightarrow> 'z rb_heap_scheme option" where
  "max_propagate get upd compute rb stop h =
     (if rb = stop then Some h
      else do {
        chk rb;
        let (done, h) = max_compute_max get upd compute rb True h;
        if done then Some h
        else max_propagate get upd compute (rb_parent h rb) stop h
      })"

definition max_copy ::
    "'z field \<Rightarrow> 'z field_upd \<Rightarrow> ptr \<Rightarrow> ptr \<Rightarrow> 'z rb_heap_scheme \<Rightarrow> 'z rb_heap_scheme" where
  "max_copy get upd rb_old rb_new h =
     aug_put get upd rb_new (get (rb_heap.more h) rb_old) h"

definition max_rotate ::
    "'z field \<Rightarrow> 'z field_upd \<Rightarrow> 'z field \<Rightarrow> ptr \<Rightarrow> ptr \<Rightarrow>
     'z rb_heap_scheme \<Rightarrow> 'z rb_heap_scheme" where
  "max_rotate get upd compute rb_old rb_new h =
     (let h = aug_put get upd rb_new (get (rb_heap.more h) rb_old) h
      in snd (max_compute_max get upd compute rb_old False h))"

definition max_callbacks ::
    "'z field \<Rightarrow> 'z field_upd \<Rightarrow> 'z field \<Rightarrow> 'z rb_heap_scheme rb_augment_callbacks" where
  "max_callbacks get upd compute =
     \<lparr>propagate = max_propagate get upd compute, copy = max_copy get upd,
      rotate = max_rotate get upd compute\<rparr>"

text \<open>\<open>rb_find_first_fit\<close>: its labels and its inner loop are the three places it can be at.\<close>

datatype fit_place = Descend | Check_Current | Go_Up

partial_function (option) rb_first_fit_loop ::
    "(ptr \<Rightarrow> bool) \<Rightarrow> (ptr \<Rightarrow> bool) \<Rightarrow> 'z rb_heap_scheme \<Rightarrow> fit_place \<Rightarrow> ptr \<Rightarrow> ptr option" where
  "rb_first_fit_loop fits subtree_fits h at node =
     (case at of
        Descend \<Rightarrow>
          if rb_left h node \<noteq> 0 \<and> subtree_fits (rb_left h node) then
            rb_first_fit_loop fits subtree_fits h Descend (rb_left h node)
          else rb_first_fit_loop fits subtree_fits h Check_Current node
      | Check_Current \<Rightarrow>
          if fits node then Some node
          else if rb_right h node \<noteq> 0 \<and> subtree_fits (rb_right h node) then
            rb_first_fit_loop fits subtree_fits h Descend (rb_right h node)
          else rb_first_fit_loop fits subtree_fits h Go_Up node
      | Go_Up \<Rightarrow>
          let prev = node;
              node = rb_parent h prev
          in
          if node = 0 then Some 0
          else if prev = rb_left h node then
            rb_first_fit_loop fits subtree_fits h Check_Current node
          else rb_first_fit_loop fits subtree_fits h Go_Up node)"

definition rb_find_first_fit ::
    "(ptr \<Rightarrow> bool) \<Rightarrow> (ptr \<Rightarrow> bool) \<Rightarrow> 'z rb_heap_scheme \<Rightarrow> ptr \<Rightarrow> ptr option" where
  "rb_find_first_fit fits subtree_fits h tree =
     (let node = rt_node h tree in
      if node = 0 \<or> \<not> subtree_fits node then Some 0
      else rb_first_fit_loop fits subtree_fits h Descend node)"

section \<open>The first fit\<close>

text \<open>\<open>subtree_fits\<close> answers, for each subtree, whether one of its nodes fits.\<close>

fun fit_ok :: "(ptr \<Rightarrow> bool) \<Rightarrow> (ptr \<Rightarrow> bool) \<Rightarrow> ptree \<Rightarrow> bool" where
  "fit_ok fits sub Lf \<longleftrightarrow> True"
| "fit_ok fits sub (Nd l x c r) \<longleftrightarrow>
     (sub x \<longleftrightarrow> (\<exists>y\<in>set (addrs (Nd l x c r)). fits y)) \<and> fit_ok fits sub l \<and> fit_ok fits sub r"

lemma fit_ok_top: "fit_ok fits sub t \<Longrightarrow> t \<noteq> Lf \<Longrightarrow> sub (top t) \<longleftrightarrow> (\<exists>y\<in>set (addrs t). fits y)"
  by (cases t) auto

lemma rb_first_fit_loop_tree:
  "tree_at h q t \<Longrightarrow> fit_ok fits sub t \<Longrightarrow> \<exists>y\<in>set (addrs t). fits y \<Longrightarrow>
   rb_first_fit_loop fits sub h Descend (top t) = Some (hd0 (filter fits (addrs t)))"
proof (induction t arbitrary: q)
  case (Nd l x c r)
  have h: "rb_left h x = top l" "rb_right h x = top r" "tree_at h x l" "tree_at h x r"
    "fit_ok fits sub l" "fit_ok fits sub r"
    using Nd.prems by auto
  have sub: "top s \<noteq> 0 \<and> sub (top s) \<longleftrightarrow> (\<exists>y\<in>set (addrs s). fits y)"
    if "tree_at h x s" "fit_ok fits sub s" for s
    using fit_ok_top [OF that(2)] tree_at_top [OF that(1)] by (cases "s = Lf") auto
  show ?case
  proof (cases "\<exists>y\<in>set (addrs l). fits y")
    case True
    then have "filter fits (addrs l) \<noteq> []" by (auto simp: filter_empty_conv)
    with True h sub [OF h(3,5)] Nd.IH(1) [OF h(3,5)] show ?thesis
      by (subst rb_first_fit_loop.simps) (simp add: hd0_append)
  next
    case False
    then have fl: "filter fits (addrs l) = []" by (auto simp: filter_empty_conv)
    have step: "rb_first_fit_loop fits sub h Descend x = rb_first_fit_loop fits sub h Check_Current x"
      using False sub [OF h(3,5)] h by (subst rb_first_fit_loop.simps) auto
    show ?thesis
    proof (cases "fits x")
      case True
      then show ?thesis
        using fl step by (simp, subst rb_first_fit_loop.simps) simp
    next
      case nf: False
      then have "\<exists>y\<in>set (addrs r). fits y" using False Nd.prems by auto
      with nf h sub [OF h(4,6)] Nd.IH(2) [OF h(4,6)] fl step show ?thesis
        by (simp, subst rb_first_fit_loop.simps) simp
    qed
  qed
qed simp

lemma rb_first_fit_root:
  assumes "rb_tree h tree t" "fit_ok fits sub t"
  shows "rb_find_first_fit fits sub h tree = Some (hd0 (filter fits (addrs t)))"
proof (cases "t = Lf")
  case True
  with assms show ?thesis by (simp add: rb_find_first_fit_def rb_tree_def)
next
  case False
  have h: "tree_at h 0 t" "rt_node h tree = top t" using assms by (simp_all add: rb_tree_def)
  have t: "top t \<noteq> 0" using tree_at_top [OF h(1)] False by simp
  show ?thesis
  proof (cases "\<exists>y\<in>set (addrs t). fits y")
    case True
    then show ?thesis
      using rb_first_fit_loop_tree [OF h(1) assms(2)] fit_ok_top [OF assms(2) False] t h
      by (simp add: rb_find_first_fit_def)
  next
    case none: False
    then have "filter fits (addrs t) = []" by (auto simp: filter_empty_conv)
    then show ?thesis
      using none fit_ok_top [OF assms(2) False] t h
      by (simp add: rb_find_first_fit_def)
  qed
qed

text \<open>C19: When the augmented data is right, \<open>rb_find_first_fit\<close> returns the leftmost node that
  fits, and null exactly when none does.\<close>

theorem rb_find_first_fit_correct:
  assumes "rb_tree h tree t" "fit_ok fits sub t"
  shows "rb_find_first_fit fits sub h tree = Some (hd0 (filter fits (addrs t)))"
  by (rule rb_first_fit_root [OF assms])

lemma rb_find_first_fit_correct_witness:
  "rb_find_first_fit (\<lambda>x. x = 48) (\<lambda>x. True) two_nodes 1024 = Some 48"
  using rb_find_first_fit_correct [OF two_nodes_tree(1), of "\<lambda>x. x = 48" "\<lambda>x. True"]
  by simp

section \<open>The callbacks meet the contract\<close>

locale max_augment =
  fixes get :: "'z field" and upd :: "'z field_upd" and compute :: "'z field"
  assumes get_upd: "get (upd f z) = f"
    and upd_get: "upd (get z) z = z"
    and upd_upd: "upd f (upd g z) = upd f z"
    and compute_upd: "compute (upd f z) = compute z"
begin

text \<open>The value a child contributes.\<close>

definition val where
  "val z x = (if x = 0 then 0 else get z x)"

definition max_ok where
  "max_ok z x l r \<longleftrightarrow> get z x = max (compute z x) (max (val z l) (val z r))"

text \<open>Only the augmented field of the nodes in \<open>S\<close> changed.\<close>

definition max_keep where
  "max_keep S z z' \<longleftrightarrow> (\<exists>f. z' = upd f z \<and> (\<forall>x. x \<notin> S \<longrightarrow> f x = get z x))"

lemma aug_put_shape [simp]: "same_shape h (aug_put get upd x v h)"
  by (simp add: same_shape_def aug_put_def)

lemma aug_put_get [simp]:
  "get (rb_heap.more (aug_put get upd x v h)) = (get (rb_heap.more h))(x := v)"
  by (simp add: aug_put_def get_upd)

lemma aug_put_compute [simp]:
  "compute (rb_heap.more (aug_put get upd x v h)) = compute (rb_heap.more h)"
  by (simp add: aug_put_def compute_upd)

lemma aug_put_fields [simp]:
  "rb_left (aug_put get upd x v h) = rb_left h" "rb_right (aug_put get upd x v h) = rb_right h"
  "rb_parent (aug_put get upd x v h) = rb_parent h" "child (aug_put get upd x v h) = child h"
  by (auto simp: aug_put_def rb_parent_def child_def fun_eq_iff split: dir.splits)

lemma aug_put_keep: "x \<in> S \<Longrightarrow> max_keep S (rb_heap.more h) (rb_heap.more (aug_put get upd x v h))"
  by (auto simp: aug_put_def max_keep_def)

lemma max_keep_refl: "max_keep S z z"
  unfolding max_keep_def by (metis upd_get)

lemma max_keep_trans: "max_keep S z z' \<Longrightarrow> max_keep S z' z'' \<Longrightarrow> max_keep S z z''"
  unfolding max_keep_def by (metis get_upd upd_upd)

lemma max_keep_mono: "max_keep S z z' \<Longrightarrow> S \<subseteq> S' \<Longrightarrow> max_keep S' z z'"
  unfolding max_keep_def by blast

lemma max_keep_get: "max_keep S z z' \<Longrightarrow> x \<notin> S \<Longrightarrow> get z' x = get z x"
  by (auto simp: max_keep_def get_upd)

lemma max_keep_compute: "max_keep S z z' \<Longrightarrow> compute z' = compute z"
  by (auto simp: max_keep_def compute_upd)

lemma max_ok_keep:
  "max_keep S z z' \<Longrightarrow> x \<notin> S \<Longrightarrow> l \<notin> S \<Longrightarrow> r \<notin> S \<Longrightarrow> max_ok z' x l r = max_ok z x l r"
  by (simp add: max_ok_def val_def max_keep_get max_keep_compute)

lemma max_if: "(if b > a then b else a) = max a (b :: u64)"
  unfolding max_def by (auto simp: not_le less_imp_le)

lemma max_val: "(if x \<noteq> 0 then max m (get z x) else m) = max m (val z x)"
proof -
  have "max m (0 :: u64) = m" by (rule max_absorb1) simp
  then show ?thesis by (simp add: val_def)
qed

lemma max_compute_max_eq:
  "max_compute_max get upd compute node exit h =
     (let m = max (compute (rb_heap.more h) node)
                (max (val (rb_heap.more h) (rb_left h node)) (val (rb_heap.more h) (rb_right h node)))
      in if exit \<and> get (rb_heap.more h) node = m then (True, h)
         else (False, aug_put get upd node m h))"
  unfolding max_compute_max_def Let_def max_if max_val max.assoc ..

lemma nokd_max_ok:
  "nokd max_ok z d x a b \<longleftrightarrow> get z x = max (compute z x) (max (val z a) (val z b))"
proof (cases d)
  case Lft
  then show ?thesis by (simp add: nokd_def max_ok_def)
next
  case Rgt
  then show ?thesis by (simp add: nokd_def max_ok_def max.commute [of "val z b" "val z a"])
qed

lemma val_children:
  "max (val z (rb_left h x)) (val z (rb_right h x)) = max (val z (child h e x)) (val z (child h (opp e) x))"
proof (cases e)
  case Lft
  then show ?thesis by (simp add: child_def)
next
  case Rgt
  then show ?thesis by (simp add: child_def) (rule max.commute)
qed

lemma max_rotate_more:
  "max_rotate get upd compute old new h =
     (let h1 = aug_put get upd new (get (rb_heap.more h) old) h;
          z = rb_heap.more h1
      in aug_put get upd old (max (compute z old)
           (max (val z (rb_left h old)) (val z (rb_right h old)))) h1)"
  by (simp add: max_rotate_def max_compute_max_eq Let_def)

lemma max_copy_parent:
  assumes "x \<noteq> new" "y \<noteq> new" "old \<noteq> 0" "new \<noteq> 0" "nokd max_ok (rb_heap.more h) d x old y"
  shows "nokd max_ok (rb_heap.more (max_copy get upd old new h)) d x new y"
  using assms by (simp add: nokd_max_ok max_copy_def val_def)

lemma max_rotate_ac:
  "max a (max (max b (max c d)) e) = max b (max c (max a (max d (e :: 'b :: linorder))))"
  by (rule antisym) (simp_all add: max.coboundedI1 max.coboundedI2)

lemma max_rotate_nok:
  assumes "old \<noteq> new" "old \<noteq> 0" "new \<noteq> 0" "child h e old = i" "child h (opp e) old = u"
    and "i \<notin> {old, new}" "u \<notin> {old, new}" "n \<notin> {old, new}"
    and "nokd max_ok (rb_heap.more h) e new n i" "nokd max_ok (rb_heap.more h) e old new u"
  shows "nokd max_ok (rb_heap.more (max_rotate get upd compute old new h)) e old i u \<and>
    nokd max_ok (rb_heap.more (max_rotate get upd compute old new h)) e new n old"
proof -
  let ?z = "rb_heap.more h" and ?h = "max_rotate get upd compute old new h"
  let ?c = "compute ?z"
  have old: "get ?z new = max (?c new) (max (val ?z n) (val ?z i))"
    "get ?z old = max (?c old) (max (get ?z new) (val ?z u))"
    using assms(9,10) unfolding nokd_max_ok val_def [of ?z new] by (simp_all only: assms(3) if_False)
  have vi: "val (rb_heap.more (aug_put get upd new w h)) i = val ?z i"
    "val (rb_heap.more (aug_put get upd new w h)) u = val ?z u" for w
    using assms(6,7) by (simp_all add: val_def)
  have ch: "max (val z (rb_left h old)) (val z (rb_right h old)) = max (val z i) (val z u)" for z
    using val_children [of z h old e] assms(4,5) by simp
  define z' where "z' = rb_heap.more ?h"
  define B where "B = max (?c old) (max (val ?z i) (val ?z u))"
  have g: "get z' = (get ?z)(new := get ?z old, old := B)" and c: "compute z' = ?c"
    unfolding z'_def B_def
    by (simp_all only: max_rotate_more Let_def ch aug_put_get aug_put_compute vi)
  have vals: "val z' i = val ?z i" "val z' u = val ?z u" "val z' n = val ?z n" "val z' old = B"
    using assms(1,2,6,7,8) unfolding val_def g by auto
  have gets: "get z' old = B" "get z' new = get ?z old"
    using assms(1) unfolding g by auto
  have "get ?z old = max (?c new) (max (val ?z n) B)"
    unfolding old(2) old(1) B_def by (rule max_rotate_ac)
  then show ?thesis
    unfolding z'_def [symmetric] nokd_max_ok gets vals c by (simp only: B_def simp_thms)
qed

lemma max_rotate_parent:
  assumes "x \<notin> {old, new}" "y \<notin> {old, new}" "old \<noteq> new" "old \<noteq> 0" "new \<noteq> 0"
    and "nokd max_ok (rb_heap.more h) d x old y"
  shows "nokd max_ok (rb_heap.more (max_rotate get upd compute old new h)) d x new y"
  using assms by (simp add: nokd_max_ok max_rotate_more Let_def val_def)

lemma max_rotate_keep:
  "max_keep {old, new} (rb_heap.more h) (rb_heap.more (max_rotate get upd compute old new h))"
  unfolding max_rotate_more Let_def
  by (rule max_keep_trans [OF aug_put_keep aug_put_keep]) simp_all

lemma max_rotate_shape: "same_shape h (max_rotate get upd compute old new h)"
  unfolding max_rotate_more Let_def
  by (rule same_shape_trans [OF aug_put_shape aug_put_shape])

lemma max_propagate_path:
  "path_at h K p stop \<Longrightarrow> distinct (faddrs K) \<Longrightarrow> aligned4 stop \<Longrightarrow> stop \<notin> set (fnodes K) \<Longrightarrow>
   p \<notin> set (faddrs K) \<Longrightarrow> aug_stale max_ok (rb_heap.more h) K \<Longrightarrow>
   \<exists>h'. max_propagate get upd compute (up K stop) stop h = Some h' \<and> same_shape h h' \<and>
     max_keep (set (fnodes K)) (rb_heap.more h) (rb_heap.more h') \<and>
     aug_path max_ok (rb_heap.more h') K p"
proof (induction K arbitrary: h p rule: fnodes.induct)
  case 1
  then show ?case by (subst max_propagate.simps) (simp add: max_keep_refl)
next
  case (2 d x c s K)
  let ?z = "rb_heap.more h"
  let ?m = "max (compute ?z x) (max (val ?z p) (val ?z (top s)))"
  have x: "x \<noteq> 0" "x \<noteq> stop" "child h d x = p" "child h (opp d) x = top s"
    "path_at h K x stop" "rb_pc h x = up K stop + colw c" "x \<notin> set (faddrs K)" "x \<notin> set (addrs s)"
    using "2.prems" by auto
  have par: "rb_parent h x = up K stop"
    using x(6) path_at_up [OF x(5) "2.prems"(3)] by (rule rb_parent_eq)
  have eq: "max_compute_max get upd compute x True h =
      (if get ?z x = ?m then (True, h) else (False, aug_put get upd x ?m h))"
    using val_children [of ?z h x d] x by (simp add: max_compute_max_eq Let_def)
  have st: "aug_tree max_ok ?z s" "aug_path max_ok ?z K x" using "2.prems"(6) by simp_all
  show ?case
  proof (cases "get ?z x = ?m")
    case True
    then have "max_propagate get upd compute x stop h = Some h"
      using x eq by (subst max_propagate.simps) simp
    with True st show ?thesis
      by (simp add: max_keep_refl nokd_max_ok)
  next
    case False
    let ?h = "aug_put get upd x ?m h"
    have run: "max_propagate get upd compute x stop h =
        max_propagate get upd compute (up K stop) stop ?h"
      using x eq False par by (subst max_propagate.simps) simp
    have k1: "max_keep {x} ?z (rb_heap.more ?h)" by (rule aug_put_keep) simp
    have ts: "top s \<noteq> x" using x by (cases s) auto
    have stale: "aug_stale max_ok (rb_heap.more ?h) K"
    proof (cases K rule: fnodes.cases)
      case (2 e y c t J)
      have "aug_tree max_ok (rb_heap.more ?h) t = aug_tree max_ok ?z t"
        by (rule aug_tree_cong [of "{x}"]) (use x 2 max_ok_keep [OF k1] in auto)
      moreover have "aug_path max_ok (rb_heap.more ?h) J y = aug_path max_ok ?z J y"
        by (rule aug_path_cong [of "{x}"]) (use x 2 max_ok_keep [OF k1] in auto)
      ultimately show ?thesis using st x by (simp add: 2)
    qed simp
    have p': "path_at ?h K x stop"
      using x(5) same_shape_path_at [OF aug_put_shape] by simp
    obtain h' where h': "max_propagate get upd compute (up K stop) stop ?h = Some h'"
      "same_shape ?h h'" "max_keep (set (fnodes K)) (rb_heap.more ?h) (rb_heap.more h')"
      "aug_path max_ok (rb_heap.more h') K x"
      using "2.IH" [OF p' _ "2.prems"(3) _ x(7) stale] "2.prems" by auto
    have kk: "max_keep (insert x (set (fnodes K))) ?z (rb_heap.more h')"
      by (rule max_keep_trans [OF max_keep_mono [OF k1] max_keep_mono [OF h'(3)]]) auto
    have xs: "x \<notin> set (fnodes K)" "set (addrs s) \<inter> set (fnodes K) = {}" "0 \<notin> set (fnodes K)"
      "p \<notin> insert x (set (fnodes K))"
      using "2.prems" x(7) fnodes_subset [of K] path_at_0 [OF x(5)] by auto
    have sub: "top s \<notin> set (fnodes K)" using xs(2,3) by (cases s) auto
    have tr: "aug_tree max_ok (rb_heap.more h') s"
      by (subst aug_tree_cong [of "insert x (set (fnodes K))" max_ok _ ?z])
        (use x xs st(1) max_ok_keep [OF kk] in auto)
    have "get (rb_heap.more h') x = ?m"
      using max_keep_get [OF h'(3) xs(1)] by simp
    moreover have "val (rb_heap.more h') p = val ?z p" "val (rb_heap.more h') (top s) = val ?z (top s)"
      using max_keep_get [OF h'(3)] xs(4) sub ts by (simp_all add: val_def)
    ultimately have "nokd max_ok (rb_heap.more h') d x p (top s)"
      by (simp add: nokd_max_ok max_keep_compute [OF h'(3)])
    with tr h' run kk same_shape_trans [OF aug_put_shape h'(2)] show ?thesis
      by auto
  qed
qed

end

sublocale max_augment \<subseteq> rb_augment "max_callbacks get upd compute" max_ok max_keep
proof (unfold_locales, goal_cases)
  case (1 S z) show ?case by (rule max_keep_refl)
next
  case (2 S z z' z'') then show ?case by (rule max_keep_trans)
next
  case (3 S z z' S') then show ?case by (rule max_keep_mono)
next
  case (4 S z z' x l r) then show ?case by (rule max_ok_keep)
next
  case (5 h old new) show ?case by (simp add: max_callbacks_def max_rotate_shape)
next
  case (6 old new h) show ?case by (simp add: max_callbacks_def max_rotate_keep)
next
  case (7 old new h e i u n) then show ?case
    unfolding max_callbacks_def rb_augment_callbacks.simps by (rule max_rotate_nok)
next
  case (8 x old new y h d) then show ?case
    unfolding max_callbacks_def rb_augment_callbacks.simps by (intro max_rotate_parent)
next
  case (9 h old new) show ?case by (simp add: max_callbacks_def max_copy_def)
next
  case (10 new h old) show ?case by (simp add: max_callbacks_def max_copy_def aug_put_keep)
next
  case (11 x new y old h d) then show ?case
    unfolding max_callbacks_def rb_augment_callbacks.simps by (intro max_copy_parent)
next
  case (12 h K p stop) then show ?case
    unfolding max_callbacks_def rb_augment_callbacks.simps by (rule max_propagate_path)
qed

end
