(* ===== verification/Snprintf.thy ===== *)
theory Snprintf
  imports Prelude
begin

text \<open>
  Formatting, \<open>src/lib/snprintf.c\<close>.  A C string is the list of its bytes without the final zero;
  a \<open>va_list\<close> is the list of the arguments not fetched yet.  The three converters return what
  they leave in the buffer in front of the zero (its length is the result in C).  \<open>kvsnprintf\<close>
  returns all it stores in the buffer, the final zero included.
\<close>

type_synonym cstr = "u8 list"

text \<open>The bytes of a literal.\<close>

definition lit :: "string \<Rightarrow> cstr" where
  "lit s = map of_char s"

abbreviation (input) CH :: "char \<Rightarrow> u8" where
  "CH c \<equiv> of_char c"

section \<open>Numbers\<close>

text \<open>\<open>lim\<close> is a power of ten, computed in a loop; the digit is counted off in another.\<close>

fun u64toa_lim :: "nat \<Rightarrow> u64" where
  "u64toa_lim 0 = 1"
| "u64toa_lim (Suc dig) = u64toa_lim dig * 10"

partial_function (option) u64toa_digit :: "u64 \<Rightarrow> u64 \<Rightarrow> u8 \<Rightarrow> (u64 \<times> u8) option" where
  "u64toa_digit lim inp dig =
     (if inp \<ge> lim then u64toa_digit lim (inp - lim) (dig + 1) else Some (inp, dig))"

definition u64toa_step :: "nat \<Rightarrow> u64 \<Rightarrow> cstr \<Rightarrow> (u64 \<times> cstr) option" where
  "u64toa_step pos inp buffer =
     (let lim = u64toa_lim pos in
      if buffer \<noteq> [] \<or> inp \<ge> lim \<or> pos = 0 then do {
        (inp, dig) \<leftarrow> u64toa_digit lim inp 0;
        Some (inp, buffer @ [CH (CHR ''0'') + dig]) }
      else Some (inp, buffer))"

fun u64toa_loop :: "nat \<Rightarrow> u64 \<Rightarrow> cstr \<Rightarrow> cstr option" where
  "u64toa_loop 0 inp buffer = do { (inp, buffer) \<leftarrow> u64toa_step 0 inp buffer; Some buffer }"
| "u64toa_loop (Suc pos) inp buffer =
     (case u64toa_step (Suc pos) inp buffer of
        None \<Rightarrow> None
      | Some (inp, buffer) \<Rightarrow> u64toa_loop pos inp buffer)"

definition u64toa_r :: "u64 \<Rightarrow> cstr option" where
  "u64toa_r inp = u64toa_loop 19 inp []"

definition i64toa_r :: "u64 \<Rightarrow> cstr option" where
  "i64toa_r inp =
     (if inp <s 0 then do { ds \<leftarrow> u64toa_r (- inp); Some (CH (CHR ''-'') # ds) }
      else u64toa_r inp)"

text \<open>The loop of \<open>u64toh_r\<close>; \<open>pos\<close> is four times the argument.\<close>

definition u64toh_step :: "nat \<Rightarrow> u64 \<Rightarrow> cstr \<Rightarrow> cstr" where
  "u64toh_step k inp buffer =
     (let dig = ucast (drop_bit (4 * k) inp AND 0xF) :: u8;
          dig = (if dig > 9 then dig + (CH (CHR ''a'') - CH (CHR ''0'') - 10) else dig)
      in if dig \<noteq> 0 \<or> buffer \<noteq> [] \<or> k = 0 then buffer @ [CH (CHR ''0'') + dig] else buffer)"

fun u64toh_loop :: "nat \<Rightarrow> u64 \<Rightarrow> cstr \<Rightarrow> cstr" where
  "u64toh_loop 0 inp buffer = u64toh_step 0 inp buffer"
| "u64toh_loop (Suc k) inp buffer = u64toh_loop k inp (u64toh_step (Suc k) inp buffer)"

definition u64toh_r :: "u64 \<Rightarrow> cstr" where
  "u64toh_r inp = u64toh_loop 15 inp []"

section \<open>Formatting\<close>

datatype va = Va_Int u64 | Va_Str "cstr option"

text \<open>\<open>va_arg\<close>; an argument of the wrong kind, or none left, is undefined behaviour.\<close>

fun va_arg_int :: "bool \<Rightarrow> va list \<Rightarrow> (u64 \<times> va list) option" where
  "va_arg_int long (Va_Int v # args) = Some (if long then v else ucast (ucast v :: u32), args)"
| "va_arg_int long _ = None"

fun va_arg_str :: "va list \<Rightarrow> (cstr option \<times> va list) option" where
  "va_arg_str (Va_Str s # args) = Some (s, args)"
| "va_arg_str _ = None"

text \<open>Where the output is: the bytes stored, the room left (\<open>n\<close>), \<open>written\<close>, and the arguments.\<close>

record snp =
  sn_out :: cstr
  sn_n :: u64
  sn_written :: u64
  sn_args :: "va list"

definition kv_flush :: "cstr \<Rightarrow> u64 \<Rightarrow> u64 \<Rightarrow> u8 \<Rightarrow> snp \<Rightarrow> snp" where
  "kv_flush outstr len width pad st =
     (let pad_len = (if width > len then width - len else 0);
          p = (if pad_len < sn_n st then pad_len else sn_n st);
          st = st\<lparr>sn_out := sn_out st @ replicate (unat p) pad, sn_n := sn_n st - p\<rparr>;
          w = (if len < sn_n st then len else sn_n st);
          st = st\<lparr>sn_out := sn_out st @ take (unat w) outstr, sn_n := sn_n st - w\<rparr>
      in st\<lparr>sn_written := sn_written st + (pad_len + len)\<rparr>)"

text \<open>\<open>fmt[i]\<close>: behind the last byte is the zero, and nothing may be read behind it.\<close>

definition fmt_at :: "cstr \<Rightarrow> nat \<Rightarrow> u8 option" where
  "fmt_at fmt i = (if i < length fmt then Some (fmt ! i) else if i = length fmt then Some 0 else None)"

partial_function (option) kv_width :: "cstr \<Rightarrow> u8 \<Rightarrow> nat \<Rightarrow> u64 \<Rightarrow> (u8 \<times> nat \<times> u64) option" where
  "kv_width fmt c i width =
     (if CH (CHR ''0'') \<le> c \<and> c \<le> CH (CHR ''9'') then
        (case fmt_at fmt i of
           None \<Rightarrow> None
         | Some c' \<Rightarrow> kv_width fmt c' (i + 1) (width * 10 + ucast (c - CH (CHR ''0''))))
      else Some (c, i, width))"

partial_function (option) kv_modifiers :: "cstr \<Rightarrow> u8 \<Rightarrow> nat \<Rightarrow> u64 \<Rightarrow> (u8 \<times> nat \<times> u64) option" where
  "kv_modifiers fmt c i lpref =
     (if c = CH (CHR ''l'') then
        (case fmt_at fmt i of
           None \<Rightarrow> None
         | Some c' \<Rightarrow> kv_modifiers fmt c' (i + 1) (lpref + 1))
      else Some (c, i, lpref))"

definition kv_convert :: "u8 \<Rightarrow> u64 \<Rightarrow> cstr option" where
  "kv_convert c v =
     (if c = CH (CHR ''c'') then Some (if (ucast v :: u8) = 0 then [] else [ucast v])
      else if c = CH (CHR ''d'') then i64toa_r v
      else if c = CH (CHR ''u'') then u64toa_r v
      else if c = CH (CHR ''p'') then Some (CH (CHR ''0'') # CH (CHR ''x'') # u64toh_r v)
      else Some (u64toh_r v))"

text \<open>
  What comes after the \<open>%\<close>, up to the conversion: \<open>c\<close> is the first byte and \<open>i\<close> the index of the
  next one.  The result is the conversion, the index behind it, the width, the padding and the
  count of \<open>l\<close>.
\<close>

definition kv_spec ::
    "cstr \<Rightarrow> u8 \<Rightarrow> nat \<Rightarrow> u64 \<Rightarrow> (u8 \<times> nat \<times> u64 \<times> u8 \<times> u64) option" where
  "kv_spec fmt c i lpref = do {
     (c, i, pad) \<leftarrow>
       (if c = CH (CHR ''0'') then do { c \<leftarrow> fmt_at fmt i; Some (c, i + 1, CH (CHR ''0'')) }
        else Some (c, i, CH (CHR '' '')));
     (c, i, width) \<leftarrow> kv_width fmt c i 0;
     (c, i, lpref) \<leftarrow> kv_modifiers fmt c i lpref;
     (c, i, lpref) \<leftarrow>
       (if c = CH (CHR ''z'') \<and> lpref = 0 then do { c \<leftarrow> fmt_at fmt i; Some (c, i + 1, 1) }
        else Some (c, i, lpref));
     Some (c, i, width, pad, lpref) }"

text \<open>The loop of \<open>kvsnprintf\<close>.  \<open>fmt + base\<close> is the value of \<open>fmt\<close> and \<open>i\<close> that of
  \<open>fmt + offset\<close>.\<close>

partial_function (option) kv_loop :: "cstr \<Rightarrow> nat \<Rightarrow> nat \<Rightarrow> bool \<Rightarrow> u64 \<Rightarrow> snp \<Rightarrow> snp option" where
  "kv_loop fmt base i escape lpref st =
     (case fmt_at fmt i of None \<Rightarrow> None | Some c \<Rightarrow>
        if escape then
          (case kv_spec fmt c (i + 1) lpref of None \<Rightarrow> None | Some (c, i, width, pad, lpref) \<Rightarrow>
             if c \<in> {CH (CHR ''c''), CH (CHR ''d''), CH (CHR ''u''), CH (CHR ''x''), CH (CHR ''p'')} then
               (case va_arg_int (c = CH (CHR ''p'') \<or> lpref > 0) (sn_args st) of
                  None \<Rightarrow> None
                | Some (v, args) \<Rightarrow>
                    let v = (if c = CH (CHR ''d'') \<and> lpref = 0 then scast (ucast v :: u32) else v) in
                    (case kv_convert c v of None \<Rightarrow> None | Some outstr \<Rightarrow>
                       kv_loop fmt i i False lpref
                         (kv_flush outstr (of_nat (length outstr)) width pad (st\<lparr>sn_args := args\<rparr>))))
             else if c = CH (CHR ''s'') then
               (case va_arg_str (sn_args st) of
                  None \<Rightarrow> None
                | Some (s, args) \<Rightarrow>
                    let outstr = (case s of None \<Rightarrow> lit ''(null)'' | Some s \<Rightarrow> s) in
                    kv_loop fmt i i False lpref
                      (kv_flush outstr (of_nat (length outstr)) width pad (st\<lparr>sn_args := args\<rparr>)))
             else if c = CH (CHR ''%'') then kv_loop fmt base i False lpref st
             else
               let outstr = drop (base - 1) fmt;
                   offset = i - base;
                   len = (if c = 0 then of_nat offset else of_nat (offset + 1));
                   st = kv_flush outstr len 0 pad st
               in if c = 0 then Some st else kv_loop fmt i i False lpref st)
        else if c = 0 \<or> c = CH (CHR ''%'') then
          let st = kv_flush (drop base fmt) (of_nat (i - base)) 0 (CH (CHR '' '')) st
          in if c = 0 then Some st else kv_loop fmt (i + 1) (i + 1) True 0 st
        else kv_loop fmt base (i + 1) False lpref st)"

definition kvsnprintf :: "u64 \<Rightarrow> cstr \<Rightarrow> va list \<Rightarrow> cstr option" where
  "kvsnprintf n fmt args = do {
     st \<leftarrow> kv_loop fmt 0 0 False 0 \<lparr>sn_out = [], sn_n = n, sn_written = 0, sn_args = args\<rparr>;
     if n \<noteq> 0 then
       let k = (if sn_written st < n then unat (sn_written st) else unat (n - 1))
       in if k < length (sn_out st) then Some ((sn_out st)[k := 0]) else Some (sn_out st @ [0])
     else Some (sn_out st) }"

definition ksnprintf :: "u64 \<Rightarrow> cstr \<Rightarrow> va list \<Rightarrow> cstr option" where
  "ksnprintf sz format args = kvsnprintf sz format args"


end
