(* ===== verification/Kernel.thy ===== *)
theory Kernel
  imports Slab Rb_Augment Snprintf
begin

text \<open>
  The state of the kernel above the memory layer: the red-black trees, and behind them the record
  \<open>vmars\<close> with the objects, the vmars and the memory layer itself.  As in \<open>Mem_Heap\<close>, a struct is
  seen through its fields, indexed by the address of the struct, and the members of a union are
  fields of their own.
\<close>

section \<open>Enumerations\<close>

datatype object_kind = OBJECT_KIND_VMAR | OBJECT_KIND_THREAD
datatype vmar_kind = VMAR_KIND_REGION | VMAR_KIND_SPECIAL | VMAR_KIND_MAPPING
datatype vmar_role = VMAR_ROLE_UNKNOWN | VMAR_ROLE_MEMORY | VMAR_ROLE_STACK | VMAR_ROLE_STACK_GUARD
datatype vm_perm = VM_PERM_RO | VM_PERM_RW | VM_PERM_RX

section \<open>State\<close>

text \<open>
  Fields, in order: \<open>object_t\<close>; \<open>vmar_t\<close>, whose tree node and children are in the tree heap;
  the variables of \<open>mapping.c\<close> (the addresses the linker gives them) and the allocators of
  \<open>DEFINE_ALLOC(vmar_t)\<close> and \<open>DEFINE_ALLOC(thread_t)\<close>; \<open>m_vmar_lock\<close>; the memory layer.
\<close>

record vmars =
  ob_kind :: "ptr \<Rightarrow> object_kind"
  ob_ref_count :: "ptr \<Rightarrow> u64"
  ob_name :: "ptr \<Rightarrow> cstr"
  vm_base :: "ptr \<Rightarrow> ptr"
  vm_page_count :: "ptr \<Rightarrow> u64"
  vm_parent :: "ptr \<Rightarrow> ptr"
  vm_gap :: "ptr \<Rightarrow> u64"
  vm_max_gap :: "ptr \<Rightarrow> u64"
  vm_kind :: "ptr \<Rightarrow> vmar_kind"
  vm_role :: "ptr \<Rightarrow> vmar_role"
  vm_unmapped :: "ptr \<Rightarrow> bool"
  vm_locked :: "ptr \<Rightarrow> bool"
  vm_table_lock :: "ptr \<Rightarrow> u64"
  g_user_region :: ptr
  g_kernel_region :: ptr
  g_direct_map :: ptr
  g_buddy_bitmap_mapping :: ptr
  m_vmar_alloc :: ptr
  m_thread_alloc :: ptr
  m_vmar_lock :: u64
  phys_mem :: mm

type_synonym kstate = "vmars rb_heap_scheme"

abbreviation vs :: "kstate \<Rightarrow> vmars" where
  "vs \<equiv> rb_heap.more"

definition on_vs :: "(vmars \<Rightarrow> vmars) \<Rightarrow> kstate \<Rightarrow> kstate" where
  "on_vs f h = rb_heap.more_update f h"

lemma vs_on_vs [simp]: "vs (on_vs f h) = f (vs h)"
  by (simp add: on_vs_def)

lemma on_vs_tree [simp]:
  "rb_pc (on_vs f h) = rb_pc h" "rb_left (on_vs f h) = rb_left h" "rb_right (on_vs f h) = rb_right h"
  "ln_prev (on_vs f h) = ln_prev h" "ln_next (on_vs f h) = ln_next h"
  "rt_node (on_vs f h) = rt_node h" "rt_leftmost (on_vs f h) = rt_leftmost h"
  by (simp_all add: on_vs_def)

text \<open>An operation of the memory layer.\<close>

definition on_mem :: "(mm \<Rightarrow> mm option) \<Rightarrow> kstate \<Rightarrow> kstate option" where
  "on_mem f h = (case f (phys_mem (vs h)) of
     None \<Rightarrow> None | Some m \<Rightarrow> Some (on_vs (phys_mem_update (\<lambda>_. m)) h))"

definition on_mem_res :: "(mm \<Rightarrow> ('r \<times> mm) option) \<Rightarrow> kstate \<Rightarrow> ('r \<times> kstate) option" where
  "on_mem_res f h = (case f (phys_mem (vs h)) of
     None \<Rightarrow> None | Some (r, m) \<Rightarrow> Some (r, on_vs (phys_mem_update (\<lambda>_. m)) h))"

section \<open>Fields of a vmar\<close>

text \<open>The offsets of \<open>node\<close> and of \<open>region.children\<close> in a \<open>vmar_t\<close>, whose size is 248.\<close>

definition vmar_node :: "ptr \<Rightarrow> ptr" where "vmar_node vmar = vmar + 144"
definition vmar_children :: "ptr \<Rightarrow> ptr" where "vmar_children vmar = vmar + 232"

definition vmar_of_rb :: "ptr \<Rightarrow> ptr" where "vmar_of_rb rb = rb - 144"

lemma vmar_of_node [simp]: "vmar_of_rb (vmar_node v) = v" "vmar_node (vmar_of_rb n) = n"
  by (simp_all add: vmar_of_rb_def vmar_node_def)

definition vmar_meta :: mem_alloc_meta where
  "vmar_meta = the (alloc_meta 248 8)"

definition vmar_end :: "vmars \<Rightarrow> ptr \<Rightarrow> ptr" where
  "vmar_end z vmar = vm_base z vmar + (vm_page_count z vmar * PAGE_SIZE - 1)"

text \<open>What the memory layer reads of the vmars: \<open>g_direct_map.base\<close> and the end of the user region.\<close>

definition dm_base :: "kstate \<Rightarrow> u64" where
  "dm_base h = vm_base (vs h) (g_direct_map (vs h))"

definition user_end :: "kstate \<Rightarrow> u64" where
  "user_end h = vmar_end (vs h) (g_user_region (vs h))"

text \<open>\<open>ALLOC(vmar_t)\<close>: an object comes out of the allocator zeroed, so all its fields are 0.\<close>

definition vmar_zero :: "ptr \<Rightarrow> vmars \<Rightarrow> vmars" where
  "vmar_zero p z = z\<lparr>
     ob_kind := (ob_kind z)(p := OBJECT_KIND_VMAR), ob_ref_count := (ob_ref_count z)(p := 0),
     ob_name := (ob_name z)(p := []),
     vm_base := (vm_base z)(p := 0), vm_page_count := (vm_page_count z)(p := 0),
     vm_parent := (vm_parent z)(p := 0), vm_gap := (vm_gap z)(p := 0),
     vm_max_gap := (vm_max_gap z)(p := 0), vm_kind := (vm_kind z)(p := VMAR_KIND_REGION),
     vm_role := (vm_role z)(p := VMAR_ROLE_UNKNOWN), vm_unmapped := (vm_unmapped z)(p := False),
     vm_locked := (vm_locked z)(p := False), vm_table_lock := (vm_table_lock z)(p := 0)\<rparr>"

definition node_zero :: "ptr \<Rightarrow> kstate \<Rightarrow> kstate" where
  "node_zero p h =
     set_pc (vmar_node p) 0 (set_left (vmar_node p) 0 (set_right (vmar_node p) 0
       (set_prev (vmar_node p) 0 (set_next (vmar_node p) 0
         (set_root (vmar_children p) 0 (set_leftmost (vmar_children p) 0 h))))))"

definition ALLOC_vmar :: "kstate \<Rightarrow> (ptr \<times> kstate) option" where
  "ALLOC_vmar h = do {
     (p, h) \<leftarrow> on_mem_res (mem_alloc (dm_base h) (user_end h) (m_vmar_alloc (vs h)) vmar_meta) h;
     Some (p, if p = 0 then h else on_vs (vmar_zero p) (node_zero p h)) }"

definition FREE_vmar :: "ptr \<Rightarrow> kstate \<Rightarrow> kstate option" where
  "FREE_vmar p h = on_mem (FREE (m_vmar_alloc (vs h)) vmar_meta p) h"

section \<open>Objects\<close>

definition object_get :: "ptr \<Rightarrow> kstate \<Rightarrow> kstate" where
  "object_get obj h =
     on_vs (\<lambda>z. z\<lparr>ob_ref_count := (ob_ref_count z)(obj := ob_ref_count z obj + 1)\<rparr>) h"

definition vmar_free :: "ptr \<Rightarrow> kstate \<Rightarrow> kstate option" where
  "vmar_free vmar h = do {
     ASSERT (vm_unmapped (vs h) vmar);
     FREE_vmar vmar h }"

text \<open>\<open>thread_free\<close> is an argument, as the threads are modelled above the vmars.\<close>

definition object_free :: "(ptr \<Rightarrow> kstate \<Rightarrow> kstate option) \<Rightarrow> ptr \<Rightarrow> kstate \<Rightarrow> kstate option" where
  "object_free thread_free obj h =
     (case ob_kind (vs h) obj of
        OBJECT_KIND_VMAR \<Rightarrow> vmar_free obj h
      | OBJECT_KIND_THREAD \<Rightarrow> thread_free obj h)"

definition object_put :: "(ptr \<Rightarrow> kstate \<Rightarrow> kstate option) \<Rightarrow> ptr \<Rightarrow> kstate \<Rightarrow> kstate option" where
  "object_put thread_free obj h =
     (let ref_count = ob_ref_count (vs h) obj;
          h = on_vs (\<lambda>z. z\<lparr>ob_ref_count := (ob_ref_count z)(obj := ref_count - 1)\<rparr>) h
      in do {
        ASSERT (ref_count \<ge> 1);
        if ref_count = 1 then object_free thread_free obj h else Some h })"

text \<open>\<open>OBJECT_PUT\<close> of a \<open>vmar_t *\<close>, whose kind is never that of a thread.\<close>

definition vmar_put :: "ptr \<Rightarrow> kstate \<Rightarrow> kstate option" where
  "vmar_put vmar h = object_put (\<lambda>_ _. None) vmar h"

text \<open>\<open>vmar_set_name\<close>, with the arguments of its format; a name has room for 128 bytes.\<close>

definition vmar_set_name :: "ptr \<Rightarrow> cstr \<Rightarrow> va list \<Rightarrow> kstate \<Rightarrow> kstate option" where
  "vmar_set_name vmar fmt args h = do {
     name \<leftarrow> kvsnprintf 128 fmt args;
     Some (on_vs (\<lambda>z. z\<lparr>ob_name := (ob_name z)(vmar := takeWhile (\<lambda>c. c \<noteq> 0) name)\<rparr>) h) }"

end
