(* ===== verification/Vmar.thy ===== *)
theory Vmar
  imports Kernel
begin

text \<open>
  Virtual memory address regions, \<open>src/mem/vmar.c\<close>: a tree of address ranges.  The children of a
  region are a linked red-black tree in address order, augmented with the largest gap in front of
  a chld of each subtree.
\<close>

section \<open>Helpers\<close>

definition vmar_of_linked :: "ptr \<Rightarrow> ptr" where
  "vmar_of_linked lnode = (if lnode \<noteq> 0 then vmar_of_rb lnode else 0)"

definition vmar_prev :: "kstate \<Rightarrow> ptr \<Rightarrow> ptr" where
  "vmar_prev h vmar = vmar_of_linked (ln_prev h (vmar_node vmar))"

definition vmar_next :: "kstate \<Rightarrow> ptr \<Rightarrow> ptr" where
  "vmar_next h vmar = vmar_of_linked (ln_next h (vmar_node vmar))"

definition vmar_first_page :: "vmars \<Rightarrow> ptr \<Rightarrow> u64" where
  "vmar_first_page z vmar = drop_bit PAGE_SHIFT (vm_base z vmar)"

definition vmar_end_page :: "vmars \<Rightarrow> ptr \<Rightarrow> u64" where
  "vmar_end_page z vmar = vmar_first_page z vmar + vm_page_count z vmar"

section \<open>Gaps\<close>

definition vmar_gap_of :: "vmars \<Rightarrow> ptr \<Rightarrow> u64" where
  "vmar_gap_of z vmar = vm_gap z vmar"

text \<open>\<open>RB_DECLARE_CALLBACKS_MAX(..., max_gap, vmar_gap_of)\<close>: the field and the scalar, by node.\<close>

definition vmar_aug_get :: "vmars field" where
  "vmar_aug_get z = (\<lambda>rb. vm_max_gap z (vmar_of_rb rb))"

definition vmar_aug_upd :: "vmars field_upd" where
  "vmar_aug_upd f z = z\<lparr>vm_max_gap := (\<lambda>v. f (vmar_node v))\<rparr>"

definition vmar_aug_compute :: "vmars field" where
  "vmar_aug_compute z = (\<lambda>rb. vmar_gap_of z (vmar_of_rb rb))"

definition vmar_gap_callbacks :: "kstate rb_augment_callbacks" where
  "vmar_gap_callbacks = max_callbacks vmar_aug_get vmar_aug_upd vmar_aug_compute"

text \<open>The vmars meet the contract of the augmented trees: the field can be read and written by node,
  and the gap of a vmar does not depend on it.\<close>

interpretation gaps: max_augment vmar_aug_get vmar_aug_upd vmar_aug_compute
  by unfold_locales
    (simp_all add: vmar_aug_get_def vmar_aug_upd_def vmar_aug_compute_def vmar_gap_of_def)

definition set_gap :: "ptr \<Rightarrow> u64 \<Rightarrow> kstate \<Rightarrow> kstate" where
  "set_gap vmar v h = on_vs (\<lambda>z. z\<lparr>vm_gap := (vm_gap z)(vmar := v)\<rparr>) h"

definition vmar_gap_update :: "ptr \<Rightarrow> kstate \<Rightarrow> kstate option" where
  "vmar_gap_update vmar h =
     (let prev = vmar_prev h vmar;
          gap_start = (if prev \<noteq> 0 then vmar_end_page (vs h) prev
                       else vmar_first_page (vs h) (vm_parent (vs h) vmar));
          h = set_gap vmar (vmar_first_page (vs h) vmar - gap_start) h
      in propagate vmar_gap_callbacks (vmar_node vmar) 0 h)"

text \<open>The size of the gap after the last chld, and its first page.\<close>

definition vmar_tail_gap :: "kstate \<Rightarrow> ptr \<Rightarrow> (u64 \<times> u64) option" where
  "vmar_tail_gap h parent = do {
     last \<leftarrow> rb_last h (vmar_children parent);
     let start = (if last \<noteq> 0 then vmar_end_page (vs h) (vmar_of_rb last)
                  else vmar_first_page (vs h) parent);
     Some (vmar_end_page (vs h) parent - start, start) }"

section \<open>Linking\<close>

definition vmar_compare_ranges :: "vmars \<Rightarrow> ptr \<Rightarrow> ptr \<Rightarrow> int" where
  "vmar_compare_ranges z a b =
     (if vmar_end_page z a \<le> vmar_first_page z b then - 1
      else if vmar_first_page z a \<ge> vmar_end_page z b then 1
      else 0)"

definition vmar_overlap_cmp :: "vmars \<Rightarrow> ptr \<Rightarrow> ptr \<Rightarrow> int" where
  "vmar_overlap_cmp z new exist = vmar_compare_ranges z (vmar_of_rb new) (vmar_of_rb exist)"

definition vmar_overlap_find_cmp :: "vmars \<Rightarrow> ptr \<Rightarrow> ptr \<Rightarrow> int" where
  "vmar_overlap_find_cmp z key exist = vmar_compare_ranges z key (vmar_of_rb exist)"

definition add_overflow :: "u64 \<Rightarrow> u64 \<Rightarrow> bool" where
  "add_overflow a b \<longleftrightarrow> unat a + unat b \<ge> 2 ^ 64"

definition vmar_check_in_parent :: "vmars \<Rightarrow> ptr \<Rightarrow> ptr \<Rightarrow> err" where
  "vmar_check_in_parent z parent chld =
     (if add_overflow (vmar_first_page z chld) (vm_page_count z chld) then INTERNAL_ERROR
      else
        let fin = vmar_first_page z chld + vm_page_count z chld in
        if \<not> vmar_first_page z chld \<ge> vmar_first_page z parent then INTERNAL_ERROR
        else if \<not> fin \<le> vmar_end_page z parent then INTERNAL_ERROR
        else SUCCESS)"

definition vmar_link_internal :: "ptr \<Rightarrow> ptr \<Rightarrow> kstate \<Rightarrow> kstate option" where
  "vmar_link_internal parent chld h = do {
     ASSERT (vm_kind (vs h) parent = VMAR_KIND_REGION);
     ASSERT (vm_parent (vs h) chld = 0);
     let h = on_vs (\<lambda>z. z\<lparr>vm_gap := (vm_gap z)(chld := 0), vm_max_gap := (vm_max_gap z)(chld := 0)\<rparr>) h;
     (found, h) \<leftarrow> rb_find_add_augmented_linked (vmar_node chld) (vmar_children parent)
       (vmar_overlap_cmp (vs h) (vmar_node chld)) vmar_gap_callbacks h;
     ASSERT (found = 0);
     let h = on_vs (\<lambda>z. z\<lparr>vm_parent := (vm_parent z)(chld := parent)\<rparr>) h;
     h \<leftarrow> vmar_gap_update chld h;
     let next = vmar_next h chld;
     if next \<noteq> 0 then vmar_gap_update next h else Some h }"

definition vmar_lock_exclusive :: "kstate \<Rightarrow> kstate option" where
  "vmar_lock_exclusive h = do {
     l \<leftarrow> rwlock_lock_exclusive (m_vmar_lock (vs h)); Some (on_vs (\<lambda>z. z\<lparr>m_vmar_lock := l\<rparr>) h) }"

definition vmar_unlock_exclusive :: "kstate \<Rightarrow> kstate option" where
  "vmar_unlock_exclusive h = do {
     l \<leftarrow> rwlock_unlock_exclusive (m_vmar_lock (vs h)); Some (on_vs (\<lambda>z. z\<lparr>m_vmar_lock := l\<rparr>) h) }"

definition vmar_lock_shared :: "kstate \<Rightarrow> kstate option" where
  "vmar_lock_shared h = do {
     l \<leftarrow> rwlock_lock_shared (m_vmar_lock (vs h)); Some (on_vs (\<lambda>z. z\<lparr>m_vmar_lock := l\<rparr>) h) }"

definition vmar_unlock_shared :: "kstate \<Rightarrow> kstate option" where
  "vmar_unlock_shared h = do {
     l \<leftarrow> rwlock_unlock_shared (m_vmar_lock (vs h)); Some (on_vs (\<lambda>z. z\<lparr>m_vmar_lock := l\<rparr>) h) }"

definition vmar_link :: "ptr \<Rightarrow> ptr \<Rightarrow> kstate \<Rightarrow> kstate option" where
  "vmar_link parent chld h = do {
     h \<leftarrow> vmar_lock_exclusive h;
     ASSERT (\<not> IS_ERROR (vmar_check_in_parent (vs h) parent chld));
     h \<leftarrow> vmar_link_internal parent chld h;
     vmar_unlock_exclusive h }"

section \<open>Allocation\<close>

definition VMAR_ANY_OFFSET :: u64 where "VMAR_ANY_OFFSET = - 1"

definition vmar_gap_fits :: "vmars \<Rightarrow> u64 \<Rightarrow> ptr \<Rightarrow> bool" where
  "vmar_gap_fits z key rb \<longleftrightarrow> vm_gap z (vmar_of_rb rb) \<ge> key"

definition vmar_max_gap_fits :: "vmars \<Rightarrow> u64 \<Rightarrow> ptr \<Rightarrow> bool" where
  "vmar_max_gap_fits z key rb \<longleftrightarrow> vm_max_gap z (vmar_of_rb rb) \<ge> key"

text \<open>The first page of the gap, if there is one.\<close>

definition vmar_find_gap :: "kstate \<Rightarrow> ptr \<Rightarrow> u64 \<Rightarrow> (bool \<times> u64) option" where
  "vmar_find_gap h parent page_count = do {
     rb \<leftarrow> rb_find_first_fit (vmar_gap_fits (vs h) page_count) (vmar_max_gap_fits (vs h) page_count)
       h (vmar_children parent);
     if rb \<noteq> 0 then
       let vmar = vmar_of_rb rb in Some (True, vmar_first_page (vs h) vmar - vm_gap (vs h) vmar)
     else do {
       (gap, gap_start) \<leftarrow> vmar_tail_gap h parent;
       if gap \<ge> page_count then Some (True, gap_start) else Some (False, 0) } }"

definition set_base :: "ptr \<Rightarrow> ptr \<Rightarrow> kstate \<Rightarrow> kstate" where
  "set_base vmar v h = on_vs (\<lambda>z. z\<lparr>vm_base := (vm_base z)(vmar := v)\<rparr>) h"

definition set_page_count :: "ptr \<Rightarrow> u64 \<Rightarrow> kstate \<Rightarrow> kstate" where
  "set_page_count vmar v h = on_vs (\<lambda>z. z\<lparr>vm_page_count := (vm_page_count z)(vmar := v)\<rparr>) h"

definition vmar_find_place :: "ptr \<Rightarrow> ptr \<Rightarrow> u64 \<Rightarrow> u64 \<Rightarrow> kstate \<Rightarrow> (err \<times> kstate) option" where
  "vmar_find_place parent chld offset page_count h =
     (if vm_unmapped (vs h) parent then Some (INTERNAL_ERROR, h)
      else
        let h = set_page_count chld page_count h in
        if offset = VMAR_ANY_OFFSET then do {
          (found, page) \<leftarrow> vmar_find_gap h parent page_count;
          if \<not> found then Some (INTERNAL_ERROR, h)
          else Some (SUCCESS, set_base chld (push_bit PAGE_SHIFT page) h) }
        else if offset AND PAGE_MASK \<noteq> 0 then Some (INTERNAL_ERROR, h)
        else if add_overflow (vm_base (vs h) parent) offset then Some (INTERNAL_ERROR, h)
        else
          let h = set_base chld (vm_base (vs h) parent + offset) h;
              err = vmar_check_in_parent (vs h) parent chld
          in if IS_ERROR err then Some (err, h)
             else do {
               rb \<leftarrow> rb_find (vmar_overlap_find_cmp (vs h) chld) h (vmar_children parent);
               if rb \<noteq> 0 then Some (INTERNAL_ERROR, h) else Some (SUCCESS, h) })"

definition vmar_allocate_static :: "ptr \<Rightarrow> ptr \<Rightarrow> u64 \<Rightarrow> u64 \<Rightarrow> kstate \<Rightarrow> (err \<times> kstate) option" where
  "vmar_allocate_static parent chld offset page_count h =
     (if vm_kind (vs h) parent \<noteq> VMAR_KIND_REGION then Some (INVALID_ARGUMENT, h)
      else if page_count = 0 then Some (INVALID_ARGUMENT, h)
      else do {
        h \<leftarrow> vmar_lock_exclusive h;
        (err, h) \<leftarrow> vmar_find_place parent chld offset page_count h;
        if IS_ERROR err then do { h \<leftarrow> vmar_unlock_exclusive h; Some (err, h) }
        else do {
          h \<leftarrow> vmar_link_internal parent chld h;
          h \<leftarrow> vmar_unlock_exclusive h;
          Some (SUCCESS, h) } })"

text \<open>The header that \<open>vmar_allocate\<close> and \<open>vmar_map\<close> give a new vmar.\<close>

definition vmar_setup :: "ptr \<Rightarrow> vmar_kind \<Rightarrow> kstate \<Rightarrow> kstate" where
  "vmar_setup chld kind h = on_vs (\<lambda>z. z\<lparr>
     ob_kind := (ob_kind z)(chld := OBJECT_KIND_VMAR), ob_ref_count := (ob_ref_count z)(chld := 2),
     vm_kind := (vm_kind z)(chld := kind)\<rparr>) h"

text \<open>The results are the error, what is stored in \<open>*new_child\<close> (null for nothing), and the state.\<close>

definition vmar_allocate :: "ptr \<Rightarrow> u64 \<Rightarrow> u64 \<Rightarrow> kstate \<Rightarrow> (err \<times> ptr \<times> kstate) option" where
  "vmar_allocate parent offset page_count h =
     (if vm_kind (vs h) parent \<noteq> VMAR_KIND_REGION then Some (INVALID_ARGUMENT, 0, h)
      else if page_count = 0 then Some (INVALID_ARGUMENT, 0, h)
      else do {
        (chld, h) \<leftarrow> ALLOC_vmar h;
        if chld = 0 then Some (OUT_OF_RESOURCES, 0, h)
        else do {
          let h = vmar_setup chld VMAR_KIND_REGION h;
          let h = RB_ROOT_LINKED (vmar_children chld) h;
          (err, h) \<leftarrow> vmar_allocate_static parent chld offset page_count h;
          if IS_ERROR err then do { h \<leftarrow> FREE_vmar chld h; Some (err, 0, h) }
          else Some (SUCCESS, chld, h) } })"

definition vmar_map :: "ptr \<Rightarrow> u64 \<Rightarrow> u64 \<Rightarrow> kstate \<Rightarrow> (err \<times> ptr \<times> kstate) option" where
  "vmar_map parent offset page_count h =
     (if vm_kind (vs h) parent \<noteq> VMAR_KIND_REGION then Some (INVALID_ARGUMENT, 0, h)
      else if page_count = 0 then Some (INVALID_ARGUMENT, 0, h)
      else do {
        (chld, h) \<leftarrow> ALLOC_vmar h;
        if chld = 0 then Some (OUT_OF_RESOURCES, 0, h)
        else do {
          let h = vmar_setup chld VMAR_KIND_MAPPING h;
          h \<leftarrow> vmar_lock_exclusive h;
          (err, h) \<leftarrow> vmar_find_place parent chld offset page_count h;
          (err, h) \<leftarrow> (if IS_ERROR err then Some (err, h)
            else on_mem_res (virt_reserve_page_tables (dm_base h) (user_end h)
                   (vm_base (vs h) chld) (vm_page_count (vs h) chld)) h);
          if IS_ERROR err then do {
            h \<leftarrow> vmar_unlock_exclusive h;
            h \<leftarrow> FREE_vmar chld h;
            Some (err, 0, h) }
          else do {
            h \<leftarrow> vmar_link_internal parent chld h;
            h \<leftarrow> vmar_unlock_exclusive h;
            Some (SUCCESS, chld, h) } } })"

definition table_lock :: "ptr \<Rightarrow> kstate \<Rightarrow> kstate option" where
  "table_lock vmar h = do {
     l \<leftarrow> mutex_lock (vm_table_lock (vs h) vmar);
     Some (on_vs (\<lambda>z. z\<lparr>vm_table_lock := (vm_table_lock z)(vmar := l)\<rparr>) h) }"

definition table_unlock :: "ptr \<Rightarrow> kstate \<Rightarrow> kstate option" where
  "table_unlock vmar h = do {
     l \<leftarrow> mutex_unlock (vm_table_lock (vs h) vmar);
     Some (on_vs (\<lambda>z. z\<lparr>vm_table_lock := (vm_table_lock z)(vmar := l)\<rparr>) h) }"

definition vmar_populate :: "ptr \<Rightarrow> kstate \<Rightarrow> (err \<times> kstate) option" where
  "vmar_populate vmar h =
     (if vm_kind (vs h) vmar \<noteq> VMAR_KIND_MAPPING then Some (INVALID_ARGUMENT, h)
      else do {
        h \<leftarrow> vmar_lock_shared h;
        h \<leftarrow> table_lock vmar h;
        (err, h) \<leftarrow> (if vm_unmapped (vs h) vmar then Some (INTERNAL_ERROR, h)
          else do {
            h \<leftarrow> on_mem (virt_populate (dm_base h) (user_end h) (vm_base (vs h) vmar)
                   (vm_page_count (vs h) vmar) (vm_locked (vs h) vmar)) h;
            Some (SUCCESS, h) });
        h \<leftarrow> table_unlock vmar h;
        h \<leftarrow> vmar_unlock_shared h;
        Some (err, h) })"

text \<open>The two recursive functions call themselves from a loop over the children: \<open>One\<close> is a call
  of the function, \<open>Siblings\<close> its loop at the linked node it has reached.\<close>

datatype vmar_call = One ptr | Siblings ptr

partial_function (option) vmar_lock_at :: "vmar_call \<Rightarrow> kstate \<Rightarrow> kstate option" where
  "vmar_lock_at c h =
     (case c of
        Siblings it \<Rightarrow>
          if it = 0 then Some h
          else do {
            h \<leftarrow> vmar_lock_at (One (vmar_of_linked it)) h;
            vmar_lock_at (Siblings (ln_next h it)) h }
      | One vmar \<Rightarrow>
          let h = on_vs (\<lambda>z. z\<lparr>vm_locked := (vm_locked z)(vmar := True)\<rparr>) h in
          (case vm_kind (vs h) vmar of
             VMAR_KIND_REGION \<Rightarrow> vmar_lock_at (Siblings (rt_leftmost h (vmar_children vmar))) h
           | VMAR_KIND_MAPPING \<Rightarrow> do {
               h \<leftarrow> table_lock vmar h;
               h \<leftarrow> on_mem (virt_make_global (dm_base h) (user_end h) (vm_base (vs h) vmar)
                      (vm_page_count (vs h) vmar)) h;
               table_unlock vmar h }
           | VMAR_KIND_SPECIAL \<Rightarrow> Some h))"

definition vmar_lock_internal :: "ptr \<Rightarrow> kstate \<Rightarrow> kstate option" where
  "vmar_lock_internal vmar h = vmar_lock_at (One vmar) h"

definition vmar_lock :: "ptr \<Rightarrow> kstate \<Rightarrow> kstate option" where
  "vmar_lock vmar h = do {
     h \<leftarrow> vmar_lock_exclusive h;
     ASSERT (\<not> vm_unmapped (vs h) vmar);
     h \<leftarrow> vmar_lock_internal vmar h;
     vmar_unlock_exclusive h }"

section \<open>Lookup\<close>

definition vmar_address_find_cmp :: "vmars \<Rightarrow> ptr \<Rightarrow> ptr \<Rightarrow> int" where
  "vmar_address_find_cmp z key exist =
     (let page = drop_bit PAGE_SHIFT key; vmar = vmar_of_rb exist in
      if page < vmar_first_page z vmar then - 1
      else if page \<ge> vmar_end_page z vmar then 1
      else 0)"

definition vmar_find_internal :: "kstate \<Rightarrow> ptr \<Rightarrow> ptr \<Rightarrow> ptr option" where
  "vmar_find_internal h root address = do {
     ASSERT (vm_kind (vs h) root = VMAR_KIND_REGION);
     rb \<leftarrow> rb_find (vmar_address_find_cmp (vs h) address) h (vmar_children root);
     if rb = 0 then Some 0 else Some (vmar_of_rb rb) }"

text \<open>The loop of \<open>vmar_find_mapping\<close>: the leaf that contains the address, or null.\<close>

partial_function (option) vmar_find_leaf :: "kstate \<Rightarrow> ptr \<Rightarrow> ptr \<Rightarrow> ptr option" where
  "vmar_find_leaf h vmar address =
     (case vmar_find_internal h vmar address of
        None \<Rightarrow> None
      | Some vmar \<Rightarrow>
          if vmar = 0 then Some 0
          else if vm_kind (vs h) vmar = VMAR_KIND_REGION then vmar_find_leaf h vmar address
          else Some vmar)"

definition vmar_find_mapping :: "ptr \<Rightarrow> ptr \<Rightarrow> kstate \<Rightarrow> (ptr \<times> kstate) option" where
  "vmar_find_mapping root address h = do {
     h \<leftarrow> vmar_lock_shared h;
     vmar \<leftarrow> vmar_find_leaf h root address;
     if vmar = 0 \<or> vm_kind (vs h) vmar \<noteq> VMAR_KIND_MAPPING then do {
       h \<leftarrow> vmar_unlock_shared h;
       Some (0, h) }
     else do {
       let h = object_get vmar h;
       h \<leftarrow> table_lock vmar h;
       h \<leftarrow> vmar_unlock_shared h;
       Some (vmar, h) } }"

section \<open>Unmapping\<close>

text \<open>The last part of \<open>vmar_unmap_internal\<close>: out of the tree of the parent.\<close>

definition vmar_unlink :: "ptr \<Rightarrow> ptr \<Rightarrow> kstate \<Rightarrow> kstate option" where
  "vmar_unlink vmar parent h = do {
     let next = vmar_next h vmar;
     (_, h) \<leftarrow> rb_erase_augmented_linked (vmar_node vmar) (vmar_children parent) vmar_gap_callbacks h;
     h \<leftarrow> (if next \<noteq> 0 then vmar_gap_update next h else Some h);
     Some (on_vs (\<lambda>z. z\<lparr>vm_parent := (vm_parent z)(vmar := 0),
                       vm_unmapped := (vm_unmapped z)(vmar := True)\<rparr>) h) }"

definition vmar_unmap_pages :: "ptr \<Rightarrow> kstate \<Rightarrow> kstate option" where
  "vmar_unmap_pages vmar h = do {
     h \<leftarrow> table_lock vmar h;
     h \<leftarrow> on_mem (virt_free (dm_base h) (user_end h) (vm_base (vs h) vmar) (vm_page_count (vs h) vmar)) h;
     table_unlock vmar h }"

partial_function (option) vmar_unmap_at :: "vmar_call \<Rightarrow> kstate \<Rightarrow> kstate option" where
  "vmar_unmap_at c h =
     (case c of
        Siblings it \<Rightarrow>
          if it = 0 then Some h
          else
            let chld = vmar_of_linked it; it = ln_next h it in
            if vm_unmapped (vs h) chld \<or> vm_locked (vs h) chld then None
            else do {
              h \<leftarrow> vmar_unmap_at (One chld) h;
              h \<leftarrow> vmar_put chld h;
              vmar_unmap_at (Siblings it) h }
      | One vmar \<Rightarrow>
          if vm_unmapped (vs h) vmar \<or> vm_locked (vs h) vmar then None
          else
            let parent = vm_parent (vs h) vmar in
            if parent = 0 \<or> vm_kind (vs h) parent \<noteq> VMAR_KIND_REGION then None
            else do {
              h \<leftarrow> (case vm_kind (vs h) vmar of
                     VMAR_KIND_REGION \<Rightarrow> vmar_unmap_at (Siblings (rt_leftmost h (vmar_children vmar))) h
                   | VMAR_KIND_MAPPING \<Rightarrow> vmar_unmap_pages vmar h
                   | VMAR_KIND_SPECIAL \<Rightarrow> None);
              vmar_unlink vmar parent h })"

definition vmar_unmap_internal :: "ptr \<Rightarrow> kstate \<Rightarrow> kstate option" where
  "vmar_unmap_internal vmar h = vmar_unmap_at (One vmar) h"

definition vmar_unmap :: "ptr \<Rightarrow> kstate \<Rightarrow> kstate option" where
  "vmar_unmap vmar h = do {
     h \<leftarrow> vmar_lock_exclusive h;
     if vm_unmapped (vs h) vmar then vmar_unlock_exclusive h
     else do {
       h \<leftarrow> vmar_unmap_internal vmar h;
       h \<leftarrow> vmar_put vmar h;
       vmar_unlock_exclusive h } }"

section \<open>Dumping\<close>

text \<open>What \<open>vmar_dump\<close> prints, a line at a time: the guide lines in front, then a vmar or a gap.  A
  guide line is one of the glyphs below.\<close>

datatype dump_glyph = DUMP_BRANCH | DUMP_BRANCH_LAST | DUMP_INDENT | DUMP_INDENT_LAST
datatype dump_line =
    Dump_Vmar "dump_glyph list" ptr ptr cstr string
  | Dump_Gap "dump_glyph list" u64 u64 u64

text \<open>The lengths of the indents in bytes: three of the guide line's are one character.\<close>

definition DUMP_MAX_DEPTH :: nat where "DUMP_MAX_DEPTH = 32"
definition indent_len :: "dump_glyph \<Rightarrow> nat" where
  "indent_len g = (if g = DUMP_INDENT then 6 else 4)"
definition DUMP_PREFIX_SIZE :: nat where
  "DUMP_PREFIX_SIZE = DUMP_MAX_DEPTH * indent_len DUMP_INDENT + 1"

fun vmar_kind_str :: "vmar_kind \<Rightarrow> string" where
  "vmar_kind_str VMAR_KIND_REGION = ''region''"
| "vmar_kind_str VMAR_KIND_SPECIAL = ''special''"
| "vmar_kind_str VMAR_KIND_MAPPING = ''mapping''"

definition vmar_dump_line :: "vmars \<Rightarrow> ptr \<Rightarrow> dump_glyph list \<Rightarrow> dump_line" where
  "vmar_dump_line z vmar prefix =
     Dump_Vmar prefix (vm_base z vmar) (vmar_end z vmar) (ob_name z vmar) (vmar_kind_str (vm_kind z vmar))"

definition vmar_dump_gap :: "u64 \<Rightarrow> u64 \<Rightarrow> dump_glyph list \<Rightarrow> dump_line" where
  "vmar_dump_gap first_page page_count prefix =
     (let start = push_bit PAGE_SHIFT first_page
      in Dump_Gap prefix start (start + (push_bit PAGE_SHIFT page_count - 1)) page_count)"

text \<open>\<open>vmar_dump_children\<close>; the flag of \<open>Siblings\<close> is in the loop's arguments: the last sibling
  closes the tree when no gap follows it.\<close>

partial_function (option) vmar_dump_at ::
    "kstate \<Rightarrow> vmar_call \<Rightarrow> dump_glyph list \<Rightarrow> nat \<Rightarrow> u64 \<Rightarrow> dump_line list option" where
  "vmar_dump_at h c prefix prefix_len tail_gap =
     (case c of
        One vmar \<Rightarrow>
          if vm_kind (vs h) vmar \<noteq> VMAR_KIND_REGION then Some []
          else
            (case vmar_tail_gap h vmar of None \<Rightarrow> None | Some (tail_gap, tail_page) \<Rightarrow> do {
               ls \<leftarrow> vmar_dump_at h (Siblings (rt_leftmost h (vmar_children vmar))) prefix prefix_len tail_gap;
               Some (ls @ (if tail_gap \<noteq> 0 then [vmar_dump_gap tail_page tail_gap (prefix @ [DUMP_BRANCH_LAST])]
                           else [])) })
      | Siblings it \<Rightarrow>
          if it = 0 then Some []
          else
            let chld = vmar_of_linked it;
                gap = vm_gap (vs h) chld;
                before = (if gap \<noteq> 0
                  then [vmar_dump_gap (vmar_first_page (vs h) chld - gap) gap (prefix @ [DUMP_BRANCH])] else []);
                last = (ln_next h it = 0 \<and> tail_gap = 0);
                (branch, indent) = (if last then (DUMP_BRANCH_LAST, DUMP_INDENT_LAST) else (DUMP_BRANCH, DUMP_INDENT));
                child_len = prefix_len + indent_len indent
            in
            do {
              ls \<leftarrow> (if child_len < DUMP_PREFIX_SIZE
                     then vmar_dump_at h (One chld) (prefix @ [indent]) child_len 0
                     else vmar_dump_at h (One chld) prefix prefix_len 0);
              rest \<leftarrow> vmar_dump_at h (Siblings (ln_next h it)) prefix prefix_len tail_gap;
              Some (before @ vmar_dump_line (vs h) chld (prefix @ [branch]) # ls @ rest) })"

definition vmar_dump :: "ptr \<Rightarrow> kstate \<Rightarrow> (dump_line list \<times> kstate) option" where
  "vmar_dump root h = do {
     h \<leftarrow> vmar_lock_shared h;
     ls \<leftarrow> vmar_dump_at h (One root) [] 0 0;
     h \<leftarrow> vmar_unlock_shared h;
     Some (vmar_dump_line (vs h) root [] # ls, h) }"

end
