(* ===== verification/Stacks.thy ===== *)
theory Stacks
  imports Vmar
begin

text \<open>Stacks with a guard page on either side, \<open>src/mem/stack.c\<close>, and the page fault handler of
  \<open>src/mem/virt.c\<close>.\<close>

section \<open>Stacks\<close>

record stack_allocation =
  stack_region :: ptr
  stack_bottom :: ptr

definition set_role :: "ptr \<Rightarrow> vmar_role \<Rightarrow> kstate \<Rightarrow> kstate" where
  "set_role vmar r h = on_vs (\<lambda>z. z\<lparr>vm_role := (vm_role z)(vmar := r)\<rparr>) h"

text \<open>What runs when an error leaves \<open>stack_alloc\<close> behind the first allocation.\<close>

definition stack_undo :: "ptr \<Rightarrow> kstate \<Rightarrow> kstate option" where
  "stack_undo region h = do { h \<leftarrow> vmar_unmap region h; vmar_put region h }"

text \<open>The result is the error, what is stored in \<open>*allocation\<close> if anything, and the state.\<close>

definition stack_alloc :: "u64 \<Rightarrow> bool \<Rightarrow> kstate \<Rightarrow> (err \<times> stack_allocation option \<times> kstate) option" where
  "stack_alloc sz user h = do {
     let root = (if user then g_user_region (vs h) else g_kernel_region (vs h));
     let page_count = DIV_ROUND_UP sz PAGE_SIZE;
     (err, region, h) \<leftarrow> vmar_allocate root VMAR_ANY_OFFSET (page_count + 2) h;
     if IS_ERROR err then Some (err, None, h)
     else do {
       let h = set_role region VMAR_ROLE_STACK_GUARD h;
       h \<leftarrow> vmar_set_name region (lit ''stack-guard'') [] h;
       (err, stack, h) \<leftarrow> vmar_map region PAGE_SIZE page_count h;
       if IS_ERROR err then do { h \<leftarrow> stack_undo region h; Some (err, None, h) }
       else do {
         let bottom = (vmar_end (vs h) stack + 1) - 8 * 2;
         let h = set_role stack VMAR_ROLE_STACK h;
         h \<leftarrow> vmar_set_name stack (lit ''stack'') [] h;
         (err, h) \<leftarrow> (if \<not> user then vmar_populate stack h else Some (SUCCESS, h));
         if IS_ERROR err then do {
           h \<leftarrow> vmar_put stack h;
           h \<leftarrow> stack_undo region h;
           Some (err, None, h) }
         else do {
           h \<leftarrow> vmar_put stack h;
           Some (SUCCESS, Some \<lparr>stack_region = region, stack_bottom = bottom\<rparr>, h) } } } }"

section \<open>Page faults\<close>

text \<open>A failed \<open>CHECK_KILL\<close>: a fault of user code must kill the thread, which is not implemented
  and stops; a fault of the kernel is an error.\<close>

definition check_kill :: "u64 \<Rightarrow> err option" where
  "check_kill error_code =
     (if error_code AND IA32_PF_EC_USER \<noteq> 0 then None else Some INTERNAL_ERROR)"

definition virt_page_fault_handler :: "ptr \<Rightarrow> u64 \<Rightarrow> kstate \<Rightarrow> (err \<times> kstate) option" where
  "virt_page_fault_handler addr error_code h =
     (let valid_flags = IA32_PF_EC_USER OR IA32_PF_EC_WRITE OR IA32_PF_EC_PROT OR IA32_PF_EC_INSTR in
      if error_code AND valid_flags \<noteq> error_code then Some (INTERNAL_ERROR, h)
      else do {
        let root = (if error_code AND IA32_PF_EC_USER \<noteq> 0 \<or> addr < vm_base (vs h) (g_kernel_region (vs h))
                    then g_user_region (vs h) else g_kernel_region (vs h));
        (vmar, h) \<leftarrow> vmar_find_mapping root addr h;
        if vmar = 0 then do { err \<leftarrow> check_kill error_code; Some (err, h) }
        else do {
          (err, h) \<leftarrow>
            (if error_code AND IA32_PF_EC_PROT \<noteq> 0 \<or> error_code AND IA32_PF_EC_INSTR \<noteq> 0 then do {
               err \<leftarrow> check_kill error_code; Some (err, h) }
             else do {
               h \<leftarrow> on_mem (virt_populate (dm_base h) (user_end h) addr 1 (vm_locked (vs h) vmar)) h;
               Some (SUCCESS, h) });
          h \<leftarrow> table_unlock vmar h;
          h \<leftarrow> vmar_put vmar h;
          Some (err, h) } })"

end
