(* ===== verification/Threads.thy ===== *)
theory Threads
  imports Stacks
begin

text \<open>
  Threads and the scheduler, \<open>src/thread\<close>, as one core sees them.  A context switch exchanges the
  stacks and goes on in \<open>scheduler_after_schedule\<close> of the other thread: it is called right after
  the switch in \<open>scheduler_schedule\<close>, where a thread was switched out, and in
  \<open>thread_entry_point\<close>, where a new one starts.
\<close>

section \<open>State\<close>

datatype thread_state =
    THREAD_STATE_IDLE | THREAD_STATE_DEAD | THREAD_STATE_READY | THREAD_STATE_RUNNING
  | THREAD_STATE_PARKING | THREAD_STATE_PARKED

datatype last_thread_action =
    LAST_THREAD_ACTION_NONE | LAST_THREAD_ACTION_PARK | LAST_THREAD_ACTION_PUT

text \<open>
  Fields, in order: \<open>thread_t\<close> (the object header is at offset 8, \<open>rqe.link\<close> at 160, the size is
  184); the locals of the core, \<open>m_run_queue\<close> being the address of its list; the interrupt flag;
  the variables of the scheduler; the rest of the kernel.
\<close>

record sched =
  th_kernel_rsp :: "ptr \<Rightarrow> ptr"
  th_kernel_stack :: "ptr \<Rightarrow> ptr"
  th_state :: "ptr \<Rightarrow> thread_state"
  g_current_thread :: ptr
  g_last_thread :: ptr
  g_last_thread_action :: last_thread_action
  g_idle_thread :: "nat \<Rightarrow> ptr"
  m_run_queue :: "nat \<Rightarrow> ptr"
  cpu_id :: nat
  irq_on :: bool
  g_cpu_count :: u64
  m_sched_start_count :: u64
  kst :: kstate

definition thread_object :: "ptr \<Rightarrow> ptr" where "thread_object thread = thread + 8"
definition thread_rqe :: "ptr \<Rightarrow> ptr" where "thread_rqe thread = thread + 160"

definition thread_meta :: mem_alloc_meta where
  "thread_meta = the (alloc_meta 184 8)"

definition set_state :: "ptr \<Rightarrow> thread_state \<Rightarrow> sched \<Rightarrow> sched" where
  "set_state thread st s = s\<lparr>th_state := (th_state s)(thread := st)\<rparr>"

definition on_kst :: "(kstate \<Rightarrow> kstate option) \<Rightarrow> sched \<Rightarrow> sched option" where
  "on_kst f s = (case f (kst s) of None \<Rightarrow> None | Some k \<Rightarrow> Some (s\<lparr>kst := k\<rparr>))"

section \<open>Run queues\<close>

fun run_queue_init_loop :: "(nat \<Rightarrow> ptr) \<Rightarrow> nat \<Rightarrow> nat \<Rightarrow> mm \<Rightarrow> mm" where
  "run_queue_init_loop rq i 0 m = m"
| "run_queue_init_loop rq i (Suc k) m = run_queue_init_loop rq (Suc i) k (init_list (rq i) m)"

definition run_queue_init :: "sched \<Rightarrow> sched option" where
  "run_queue_init s =
     on_kst (on_mem (\<lambda>m. Some (run_queue_init_loop (m_run_queue s) 0 (unat (g_cpu_count s)) m))) s"

definition run_queue_put :: "ptr \<Rightarrow> sched \<Rightarrow> sched option" where
  "run_queue_put entry s =
     (let run_queue = m_run_queue s (cpu_id s)
      in on_kst (on_mem (list_add run_queue entry)) s)"

definition run_queue_get :: "sched \<Rightarrow> (ptr \<times> sched) option" where
  "run_queue_get s =
     (let run_queue = m_run_queue s (cpu_id s);
          rqe = list_first_entry_or_null (phys_mem (vs (kst s))) run_queue 0
      in if rqe \<noteq> 0 then do { s \<leftarrow> on_kst (on_mem (list_del rqe)) s; Some (rqe, s) }
         else Some (rqe, s))"

section \<open>Threads\<close>

text \<open>\<open>ALLOC(thread_t)\<close> and \<open>FREE(thread_t, p)\<close>.\<close>

definition ALLOC_thread :: "sched \<Rightarrow> (ptr \<times> sched) option" where
  "ALLOC_thread s =
     (let h = kst s in do {
        (p, h) \<leftarrow> on_mem_res (mem_alloc (dm_base h) (user_end h) (m_thread_alloc (vs h)) thread_meta) h;
        let o' = thread_object p;
        Some (p, if p = 0 then s\<lparr>kst := h\<rparr>
          else s\<lparr>th_kernel_rsp := (th_kernel_rsp s)(p := 0), th_kernel_stack := (th_kernel_stack s)(p := 0),
            th_state := (th_state s)(p := THREAD_STATE_IDLE),
            kst := on_vs (\<lambda>z. z\<lparr>ob_kind := (ob_kind z)(o' := OBJECT_KIND_VMAR),
              ob_ref_count := (ob_ref_count z)(o' := 0), ob_name := (ob_name z)(o' := [])\<rparr>) h\<rparr>) })"

definition FREE_thread :: "ptr \<Rightarrow> kstate \<Rightarrow> kstate option" where
  "FREE_thread p h = on_mem (FREE (m_thread_alloc (vs h)) thread_meta p) h"

definition thread_free :: "sched \<Rightarrow> ptr \<Rightarrow> kstate \<Rightarrow> kstate option" where
  "thread_free s thread h = do {
     h \<leftarrow> vmar_unmap (th_kernel_stack s thread) h;
     FREE_thread thread h }"

text \<open>\<open>OBJECT_PUT\<close> of a \<open>thread_t *\<close>.\<close>

definition thread_put :: "ptr \<Rightarrow> sched \<Rightarrow> sched option" where
  "thread_put thread s =
     on_kst (object_put (\<lambda>obj. thread_free s (obj - 8)) (thread_object thread)) s"

text \<open>The frame of a new thread: \<open>rip\<close>, \<open>rdi\<close> and \<open>rsi\<close> behind the six saved registers.\<close>

definition sizeof_entry_frame :: u64 where "sizeof_entry_frame = 9 * 8"

definition entry_frame_setup :: "ptr \<Rightarrow> u64 \<Rightarrow> u64 \<Rightarrow> u64 \<Rightarrow> mm \<Rightarrow> mm" where
  "entry_frame_setup frame rip rdi rsi m =
     store64 (frame + 64) rsi (store64 (frame + 56) rdi (store64 (frame + 48) rip m))"

text \<open>\<open>thunk\<close> is the address of \<open>thread_entry_thunk\<close>.\<close>

definition thread_create ::
    "u64 \<Rightarrow> u64 \<Rightarrow> u64 \<Rightarrow> cstr \<Rightarrow> va list \<Rightarrow> sched \<Rightarrow> (err \<times> ptr \<times> sched) option" where
  "thread_create thunk entry arg name_fmt args s = do {
     (thread, s) \<leftarrow> ALLOC_thread s;
     chk thread;
     let o' = thread_object thread;
     name \<leftarrow> kvsnprintf 128 name_fmt args;
     let s = set_state thread THREAD_STATE_IDLE (s\<lparr>kst := on_vs (\<lambda>z. z\<lparr>
       ob_kind := (ob_kind z)(o' := OBJECT_KIND_THREAD), ob_ref_count := (ob_ref_count z)(o' := 1),
       ob_name := (ob_name z)(o' := takeWhile (\<lambda>c. c \<noteq> 0) name)\<rparr>) (kst s)\<rparr>);
     (err, alloc, h) \<leftarrow> stack_alloc PAGE_SIZE False (kst s);
     let s = s\<lparr>kst := h\<rparr>;
     case alloc of
       None \<Rightarrow> do { s \<leftarrow> on_kst (FREE_thread thread) s; Some (err, 0, s) }
     | Some kernel_stack \<Rightarrow> do {
         let s = s\<lparr>th_kernel_stack := (th_kernel_stack s)(thread := stack_region kernel_stack)\<rparr>;
         let rsp = stack_bottom kernel_stack - sizeof_entry_frame;
         let s = s\<lparr>th_kernel_rsp := (th_kernel_rsp s)(thread := rsp)\<rparr>;
         s \<leftarrow> on_kst (on_mem (\<lambda>m. Some (entry_frame_setup rsp thunk entry arg m))) s;
         Some (SUCCESS, thread, s) } }"

definition thread_start :: "ptr \<Rightarrow> sched \<Rightarrow> sched option" where
  "thread_start thread s =
     (let old = th_state s thread;
          s = set_state thread THREAD_STATE_READY s
      in do {
        ASSERT (old = THREAD_STATE_IDLE);
        run_queue_put (thread_rqe thread) s })"

section \<open>Scheduling\<close>

definition sched_select_thread :: "sched \<Rightarrow> (ptr \<times> sched) option" where
  "sched_select_thread s = do {
     (entry, s) \<leftarrow> run_queue_get s;
     if entry \<noteq> 0 then Some (entry - 160, s) else Some (g_idle_thread s (cpu_id s), s) }"

definition scheduler_finish_park :: "ptr \<Rightarrow> sched \<Rightarrow> sched option" where
  "scheduler_finish_park thread s =
     (if th_state s thread = THREAD_STATE_PARKING then Some (set_state thread THREAD_STATE_PARKED s)
      else if th_state s thread = THREAD_STATE_READY then run_queue_put (thread_rqe thread) s
      else Some s)"

definition scheduler_after_schedule :: "sched \<Rightarrow> sched option" where
  "scheduler_after_schedule s = do {
     s \<leftarrow> (case g_last_thread_action s of
             LAST_THREAD_ACTION_NONE \<Rightarrow> Some s
           | LAST_THREAD_ACTION_PARK \<Rightarrow> scheduler_finish_park (g_last_thread s) s
           | LAST_THREAD_ACTION_PUT \<Rightarrow> thread_put (g_last_thread s) s);
     Some (s\<lparr>g_last_thread := 0, g_last_thread_action := LAST_THREAD_ACTION_NONE\<rparr>) }"

text \<open>The first half of \<open>scheduler_schedule\<close>: what becomes of the thread that runs.\<close>

definition scheduler_leave :: "sched \<Rightarrow> sched option" where
  "scheduler_leave s =
     (let current = g_current_thread s in
      case th_state s current of
        THREAD_STATE_DEAD \<Rightarrow> Some (s\<lparr>g_last_thread_action := LAST_THREAD_ACTION_PUT\<rparr>)
      | THREAD_STATE_PARKING \<Rightarrow> Some (s\<lparr>g_last_thread_action := LAST_THREAD_ACTION_PARK\<rparr>)
      | THREAD_STATE_RUNNING \<Rightarrow>
          let s = set_state current THREAD_STATE_READY s in
          if current \<noteq> g_idle_thread s (cpu_id s) then run_queue_put (thread_rqe current) s else Some s
      | _ \<Rightarrow> None)"

definition scheduler_schedule :: "sched \<Rightarrow> sched option" where
  "scheduler_schedule s = do {
     ASSERT (\<not> irq_on s);
     let current = g_current_thread s;
     s \<leftarrow> scheduler_leave s;
     let s = s\<lparr>g_last_thread := current\<rparr>;
     (new_thread, s) \<leftarrow> sched_select_thread s;
     ASSERT (new_thread \<noteq> 0);
     ASSERT (th_state s new_thread = THREAD_STATE_READY);
     let s = set_state new_thread THREAD_STATE_RUNNING s;
     let s = (if new_thread \<noteq> current then s\<lparr>g_current_thread := new_thread\<rparr> else s);
     scheduler_after_schedule s }"

text \<open>\<open>thread_exit\<close> does not return: this is the state in which the next thread goes on.\<close>

definition thread_exit :: "sched \<Rightarrow> sched option" where
  "thread_exit s =
     (let old = th_state s (g_current_thread s);
          s = set_state (g_current_thread s) THREAD_STATE_DEAD s
      in do {
        ASSERT (old = THREAD_STATE_RUNNING);
        let s = s\<lparr>irq_on := False\<rparr>;
        scheduler_schedule s })"

text \<open>The interrupts are enabled once the thread that yielded runs again; when another thread was
  switched to, that is later.\<close>

definition thread_yield :: "sched \<Rightarrow> sched option" where
  "thread_yield s = do {
     let current = g_current_thread s;
     let s = s\<lparr>irq_on := False\<rparr>;
     s \<leftarrow> scheduler_schedule s;
     Some (if g_current_thread s = current then s\<lparr>irq_on := True\<rparr> else s) }"

text \<open>A new thread, from the switch to it on; \<open>entry\<close> is its entry point with its argument.\<close>

definition thread_entry_point :: "(sched \<Rightarrow> sched option) \<Rightarrow> sched \<Rightarrow> sched option" where
  "thread_entry_point entry s = do {
     s \<leftarrow> scheduler_after_schedule s;
     s \<leftarrow> entry s;
     thread_exit s }"

text \<open>
  One round of \<open>scheduler_idle_loop\<close>: when there was nothing else to run, the core enables the interrupts,
  halts, and disables them; \<open>wake\<close> is what the interrupt that ends the halt does (\<open>None\<close> when none ever
  comes).  When another thread was switched to, the halt comes later.
\<close>

definition scheduler_idle_round :: "(sched \<Rightarrow> sched option) \<Rightarrow> sched \<Rightarrow> sched option" where
  "scheduler_idle_round wake s = do {
     let current = g_current_thread s;
     s \<leftarrow> scheduler_schedule s;
     if g_current_thread s = current then do {
       let s = s\<lparr>irq_on := True\<rparr>;
       s \<leftarrow> wake s;
       Some (s\<lparr>irq_on := False\<rparr>) }
     else Some s }"

definition scheduler_idle_thread_enter :: "sched \<Rightarrow> sched" where
  "scheduler_idle_thread_enter s =
     (let s = s\<lparr>m_sched_start_count := m_sched_start_count s + 1\<rparr> in s\<lparr>irq_on := False\<rparr>)"

section \<open>Initialisation\<close>

text \<open>The loop of \<open>sched_init\<close> from core \<open>i\<close> on; \<open>idle_entry\<close> is the address of
  \<open>scheduler_idle_thread\<close>.\<close>

fun sched_init_loop :: "u64 \<Rightarrow> u64 \<Rightarrow> nat \<Rightarrow> nat \<Rightarrow> sched \<Rightarrow> sched option" where
  "sched_init_loop thunk idle_entry i 0 s = Some s"
| "sched_init_loop thunk idle_entry i (Suc k) s =
     (case thread_create thunk idle_entry 0 (lit ''{idle-%d}'') [Va_Int (of_nat (cpu_id s))] s of
        None \<Rightarrow> None
      | Some (err, thread, s) \<Rightarrow>
          if IS_ERROR err then None
          else
            let s = set_state thread THREAD_STATE_READY s;
                s = s\<lparr>g_idle_thread := (g_idle_thread s)(i := thread)\<rparr>
            in sched_init_loop thunk idle_entry (Suc i) k s)"

definition sched_init :: "u64 \<Rightarrow> u64 \<Rightarrow> sched \<Rightarrow> sched option" where
  "sched_init thunk idle_entry s = do {
     s \<leftarrow> run_queue_init s;
     sched_init_loop thunk idle_entry 0 (unat (g_cpu_count s)) s }"

definition thread_bootstrap :: "ptr \<Rightarrow> sched \<Rightarrow> sched" where
  "thread_bootstrap thread s =
     (let s = set_state thread THREAD_STATE_RUNNING s in s\<lparr>g_current_thread := thread\<rparr>)"

definition sched_start_per_core :: "sched \<Rightarrow> sched" where
  "sched_start_per_core s =
     (let s = s\<lparr>irq_on := False\<rparr> in thread_bootstrap (g_idle_thread s (cpu_id s)) s)"

end
