(* ===== verification/Sched_Inv.thy ===== *)
theory Sched_Inv
  imports Threads
begin

text \<open>The scheduler of a core as a state machine: the run queue as a list, the invariant of the
  states of the threads, and what every operation does to them.\<close>

section \<open>The run queue\<close>

abbreviation run_mem :: "sched \<Rightarrow> mm" where "run_mem s \<equiv> phys_mem (vs (kst s))"

abbreviation run_head :: "sched \<Rightarrow> ptr" where "run_head s \<equiv> m_run_queue s (cpu_id s)"

abbreviation idle_thread :: "sched \<Rightarrow> ptr" where "idle_thread s \<equiv> g_idle_thread s (cpu_id s)"

definition set_mem :: "mm \<Rightarrow> sched \<Rightarrow> sched" where
  "set_mem m s = s\<lparr>kst := on_vs (phys_mem_update (\<lambda>_. m)) (kst s)\<rparr>"

lemma set_mem_simps [simp]:
  "run_mem (set_mem m s) = m" "ob_ref_count (vs (kst (set_mem m s))) = ob_ref_count (vs (kst s))"
  "th_state (set_mem m s) = th_state s" "g_current_thread (set_mem m s) = g_current_thread s"
  "g_last_thread (set_mem m s) = g_last_thread s"
  "g_last_thread_action (set_mem m s) = g_last_thread_action s"
  "g_idle_thread (set_mem m s) = g_idle_thread s" "m_run_queue (set_mem m s) = m_run_queue s"
  "cpu_id (set_mem m s) = cpu_id s" "irq_on (set_mem m s) = irq_on s"
  by (simp_all add: set_mem_def)

lemma set_mem_self: "s = set_mem (run_mem s) s"
proof -
  have "vs (kst s) = phys_mem_update (\<lambda>_. run_mem s) (vs (kst s))" by (rule vmars.equality) simp_all
  then have "kst s = on_vs (phys_mem_update (\<lambda>_. run_mem s)) (kst s)"
    by (intro rb_heap.equality) (simp_all add: on_vs_def)
  then show ?thesis by (intro sched.equality) (simp_all add: set_mem_def)
qed

lemma thread_rqe_inj [simp]: "thread_rqe a = thread_rqe b \<longleftrightarrow> a = b" "inj_on thread_rqe A"
  by (auto simp: thread_rqe_def inj_on_def)

lemma thread_rqe_mem [simp]: "thread_rqe t \<in> thread_rqe ` A \<longleftrightarrow> t \<in> A"
  by (auto simp: thread_rqe_def)

lemma thread_of_rqe [simp]: "thread_rqe t - 160 = t"
  by (simp add: thread_rqe_def)

text \<open>A thread whose queue entry is not null and not the head of the queue.\<close>

definition thread_ok :: "sched \<Rightarrow> ptr \<Rightarrow> bool" where
  "thread_ok s t \<longleftrightarrow> t \<noteq> 0 \<and> thread_rqe t \<noteq> 0 \<and> thread_rqe t \<noteq> run_head s"

lemma run_queue_put_ok:
  assumes "dlist (run_mem s) (run_head s) (map thread_rqe q)" "t \<notin> set q" "thread_ok s t"
  shows "\<exists>m. run_queue_put (thread_rqe t) s = Some (set_mem m s) \<and>
    dlist m (run_head s) (map thread_rqe (t # q))"
proof -
  have "thread_rqe t \<notin> set (run_head s # map thread_rqe q)" "thread_rqe t \<noteq> 0"
    using assms(2,3) by (simp_all add: thread_ok_def)
  from list_add_ok [OF assms(1) this] obtain m where
    "list_add (run_head s) (thread_rqe t) (run_mem s) = Some m" "dlist m (run_head s) (map thread_rqe (t # q))"
    by auto
  then show ?thesis
    by (intro exI [of _ m]) (simp add: run_queue_put_def on_kst_def on_mem_def set_mem_def Let_def)
qed

lemma run_queue_get_ok:
  assumes d: "dlist (run_mem s) (run_head s) (map thread_rqe q)"
  shows "\<exists>m. run_queue_get s = Some (case q of [] \<Rightarrow> 0 | t # _ \<Rightarrow> thread_rqe t, set_mem m s) \<and>
    dlist m (run_head s) (map thread_rqe (tl q))"
proof (cases q)
  case Nil
  then have "run_queue_get s = Some (0, s)"
    using list_first_dlist [OF d] by (simp add: run_queue_get_def Let_def)
  then show ?thesis using d Nil set_mem_self [of s] by (intro exI [of _ "run_mem s"]) simp
next
  case (Cons t q')
  have "thread_rqe t \<noteq> 0" using d Cons by (simp add: dlist_def)
  moreover obtain m where "list_del (thread_rqe t) (run_mem s) = Some m" "dlist m (run_head s) (map thread_rqe q')"
    using list_del_ok [of "run_mem s" "run_head s" "[]" "thread_rqe t" "map thread_rqe q'"] d Cons by auto
  ultimately show ?thesis
    using list_first_dlist [OF d] Cons
    by (intro exI [of _ m]) (simp add: run_queue_get_def on_kst_def on_mem_def set_mem_def Let_def)
qed

section \<open>The invariant\<close>

text \<open>
  Between two operations: \<open>q\<close> are the threads in the run queue, in order.  They are ready, and no
  other thread is but the idle one; the thread that runs is the only one that does and is not queued.
\<close>

definition sched_inv :: "sched \<Rightarrow> ptr list \<Rightarrow> bool" where
  "sched_inv s q \<longleftrightarrow>
     dlist (run_mem s) (run_head s) (map thread_rqe q) \<and>
     (\<forall>t. th_state s t = THREAD_STATE_READY \<longleftrightarrow>
        t \<in> set q \<or> t = idle_thread s \<and> t \<noteq> g_current_thread s) \<and>
     (\<forall>t. th_state s t = THREAD_STATE_RUNNING \<longleftrightarrow> t = g_current_thread s) \<and>
     idle_thread s \<notin> set q \<and> (\<forall>t\<in>insert (g_current_thread s) (insert (idle_thread s) (set q)). thread_ok s t) \<and>
     g_last_thread s = 0 \<and> g_last_thread_action s = LAST_THREAD_ACTION_NONE"

lemma sched_invD:
  assumes "sched_inv s q"
  shows "dlist (run_mem s) (run_head s) (map thread_rqe q)" "g_current_thread s \<notin> set q"
    "th_state s (g_current_thread s) = THREAD_STATE_RUNNING" "idle_thread s \<notin> set q"
    "thread_ok s (g_current_thread s)" "thread_ok s (idle_thread s)" "distinct q"
    "\<And>t. t \<in> set q \<Longrightarrow> th_state s t = THREAD_STATE_READY \<and> thread_ok s t"
    "idle_thread s \<noteq> g_current_thread s \<Longrightarrow> th_state s (idle_thread s) = THREAD_STATE_READY"
proof -
  have a: "\<forall>t. th_state s t = THREAD_STATE_READY \<longleftrightarrow> t \<in> set q \<or> t = idle_thread s \<and> t \<noteq> g_current_thread s"
    "\<forall>t. th_state s t = THREAD_STATE_RUNNING \<longleftrightarrow> t = g_current_thread s"
    using assms unfolding sched_inv_def by blast+
  show "g_current_thread s \<notin> set q" 
    using a(1) [THEN spec, of "g_current_thread s"] a(2) [THEN spec, of "g_current_thread s"] by auto
  show "th_state s (g_current_thread s) = THREAD_STATE_RUNNING" using a(2) by blast
  show "idle_thread s \<noteq> g_current_thread s \<Longrightarrow> th_state s (idle_thread s) = THREAD_STATE_READY" using a(1) by blast
  show "dlist (run_mem s) (run_head s) (map thread_rqe q)" using assms unfolding sched_inv_def by blast
  then show "distinct q" by (simp add: dlist_def distinct_map)
  show "idle_thread s \<notin> set q" "thread_ok s (g_current_thread s)" "thread_ok s (idle_thread s)"
    "\<And>t. t \<in> set q \<Longrightarrow> th_state s t = THREAD_STATE_READY \<and> thread_ok s t"
    using assms unfolding sched_inv_def by blast+
qed

section \<open>Scheduling\<close>

lemma on_vs_mem [simp]:
  "on_vs (phys_mem_update (\<lambda>_. m)) (on_vs (phys_mem_update (\<lambda>_. m')) h) = on_vs (phys_mem_update (\<lambda>_. m)) h"
  by (simp add: on_vs_def comp_def)

text \<open>The thread that is taken from the queue \<open>q\<close>.\<close>

definition next_thread :: "sched \<Rightarrow> ptr list \<Rightarrow> ptr" where
  "next_thread s q = (case q of [] \<Rightarrow> idle_thread s | t # _ \<Rightarrow> t)"

definition switched :: "ptr \<Rightarrow> ptr \<Rightarrow> mm \<Rightarrow> sched \<Rightarrow> sched" where
  "switched old new m s = set_mem m (s\<lparr>g_last_thread := old,
     th_state := (th_state s)(new := THREAD_STATE_RUNNING), g_current_thread := new\<rparr>)"

lemma schedule_run:
  assumes leave: "scheduler_leave s = Some s1" and irq: "\<not> irq_on s"
    and same: "g_current_thread s1 = g_current_thread s"
    and q: "dlist (run_mem s1) (run_head s1) (map thread_rqe q)" "\<forall>t\<in>set q. thread_ok s1 t"
    and new: "next_thread s1 q \<noteq> 0" "th_state s1 (next_thread s1 q) = THREAD_STATE_READY"
  shows "\<exists>m. scheduler_schedule s =
      scheduler_after_schedule (switched (g_current_thread s) (next_thread s1 q) m s1) \<and>
    dlist m (run_head s1) (map thread_rqe (tl q))"
proof -
  let ?s = "s1\<lparr>g_last_thread := g_current_thread s\<rparr>"
  obtain m where m: "run_queue_get ?s = Some (case q of [] \<Rightarrow> 0 | t # _ \<Rightarrow> thread_rqe t, set_mem m ?s)"
    "dlist m (run_head s1) (map thread_rqe (tl q))"
    using run_queue_get_ok [of ?s q] q(1) by auto
  have "sched_select_thread ?s = Some (next_thread s1 q, set_mem m ?s)"
  proof (cases q)
    case Nil
    then show ?thesis using m by (simp add: sched_select_thread_def next_thread_def)
  next
    case (Cons t q')
    then have "thread_rqe t \<noteq> 0" using q(2) by (simp add: thread_ok_def)
    with Cons show ?thesis using m by (simp add: sched_select_thread_def next_thread_def)
  qed
  then have "scheduler_schedule s =
      (let s2 = set_state (next_thread s1 q) THREAD_STATE_RUNNING (set_mem m ?s) in
       scheduler_after_schedule (if next_thread s1 q \<noteq> g_current_thread s
         then s2\<lparr>g_current_thread := next_thread s1 q\<rparr> else s2))"
    using leave irq new by (simp add: scheduler_schedule_def Let_def)
  also have "\<dots> = scheduler_after_schedule (switched (g_current_thread s) (next_thread s1 q) m s1)"
  proof -
    have "(if next_thread s1 q \<noteq> g_current_thread s
         then (set_state (next_thread s1 q) THREAD_STATE_RUNNING (set_mem m ?s))\<lparr>g_current_thread := next_thread s1 q\<rparr>
         else set_state (next_thread s1 q) THREAD_STATE_RUNNING (set_mem m ?s)) =
      switched (g_current_thread s) (next_thread s1 q) m s1"
      using same by (intro sched.equality) (simp_all add: switched_def set_state_def set_mem_def)
    then show ?thesis by (simp add: Let_def)
  qed
  finally show ?thesis using m(2) by blast
qed

text \<open>What no operation here changes.\<close>

definition sched_same :: "sched \<Rightarrow> sched \<Rightarrow> bool" where
  "sched_same s s' \<longleftrightarrow> cpu_id s' = cpu_id s \<and> g_idle_thread s' = g_idle_thread s \<and> m_run_queue s' = m_run_queue s"

lemma after_none: "g_last_thread_action s = LAST_THREAD_ACTION_NONE \<Longrightarrow>
  scheduler_after_schedule s = Some (s\<lparr>g_last_thread := 0, g_last_thread_action := LAST_THREAD_ACTION_NONE\<rparr>)"
  by (simp add: scheduler_after_schedule_def)

text \<open>A thread that still runs is put in front of the queue and taken again.\<close>

lemma schedule_self:
  assumes i: "sched_inv s q" "\<not> irq_on s" and c: "g_current_thread s \<noteq> idle_thread s"
  shows "\<exists>s'. scheduler_schedule s = Some s' \<and> sched_inv s' q \<and> g_current_thread s' = g_current_thread s \<and>
    sched_same s s' \<and> irq_on s' = irq_on s \<and> th_state s' = th_state s"
proof -
  note f = sched_invD [OF i(1)]
  let ?c = "g_current_thread s"
  let ?s = "set_state ?c THREAD_STATE_READY s"
  obtain m where m: "run_queue_put (thread_rqe ?c) ?s = Some (set_mem m ?s)"
    "dlist m (run_head s) (map thread_rqe (?c # q))"
    using run_queue_put_ok [of ?s q ?c] f(1,2,5) by (auto simp: set_state_def thread_ok_def)
  let ?s1 = "set_mem m ?s"
  have leave: "scheduler_leave s = Some ?s1"
    using f(3) m(1) c by (simp add: scheduler_leave_def Let_def) (simp add: set_state_def)
  have q1: "dlist (run_mem ?s1) (run_head ?s1) (map thread_rqe (?c # q))" using m(2) by (simp add: set_state_def)
  have ok: "\<forall>t\<in>set (?c # q). thread_ok ?s1 t"
    using f(5,8) by (simp add: thread_ok_def set_state_def)
  have nx: "next_thread ?s1 (?c # q) = ?c" by (simp add: next_thread_def)
  obtain m' where m': "scheduler_schedule s = scheduler_after_schedule (switched ?c ?c m' ?s1)"
    "dlist m' (run_head s) (map thread_rqe q)"
    using schedule_run [OF leave i(2) _ q1 ok] f(5) unfolding nx by (auto simp: set_state_def thread_ok_def)
  define s' where "s' = switched ?c ?c m' ?s1\<lparr>g_last_thread := 0, g_last_thread_action := LAST_THREAD_ACTION_NONE\<rparr>"
  have "scheduler_schedule s = Some s'"
    using i(1) unfolding m'(1) s'_def by (intro after_none) (simp add: switched_def set_state_def sched_inv_def)
  moreover have fields: "th_state s' = th_state s" "g_current_thread s' = ?c" "run_mem s' = m'" "irq_on s' = irq_on s"
    "cpu_id s' = cpu_id s" "g_idle_thread s' = g_idle_thread s" "m_run_queue s' = m_run_queue s"
    "g_last_thread s' = 0" "g_last_thread_action s' = LAST_THREAD_ACTION_NONE"
    using f(3) by (simp_all add: s'_def switched_def set_state_def set_mem_def fun_upd_idem)
  moreover have "sched_inv s' q"
    using i(1) m'(2) unfolding sched_inv_def fields thread_ok_def by simp
  ultimately show ?thesis by (auto simp: sched_same_def)
qed

text \<open>The idle thread goes on, or gives way to the first thread of the queue.\<close>

lemma schedule_idle:
  assumes i: "sched_inv s q" "\<not> irq_on s" and c: "g_current_thread s = idle_thread s"
  shows "\<exists>s'. scheduler_schedule s = Some s' \<and> sched_inv s' (tl q) \<and>
    g_current_thread s' = next_thread s q \<and> sched_same s s' \<and>
    th_state s' = (th_state s)(idle_thread s := THREAD_STATE_READY, next_thread s q := THREAD_STATE_RUNNING)"
proof -
  note f = sched_invD [OF i(1)]
  let ?c = "g_current_thread s"
  let ?s1 = "set_state ?c THREAD_STATE_READY s"
  have leave: "scheduler_leave s = Some ?s1"
    using f(3) c by (simp add: scheduler_leave_def Let_def) (simp add: set_state_def)
  have q1: "dlist (run_mem ?s1) (run_head ?s1) (map thread_rqe q)" using f(1) by (simp add: set_state_def)
  have ok: "\<forall>t\<in>set q. thread_ok ?s1 t" using f(8) by (simp add: thread_ok_def set_state_def)
  have nx: "next_thread ?s1 q = next_thread s q" by (simp add: next_thread_def set_state_def split: list.split)
  have new: "next_thread s q \<noteq> 0" "th_state ?s1 (next_thread s q) = THREAD_STATE_READY"
    using f(6,8) c by (auto simp: next_thread_def thread_ok_def set_state_def split: list.splits)
  obtain m where m: "scheduler_schedule s = scheduler_after_schedule (switched ?c (next_thread s q) m ?s1)"
    "dlist m (run_head s) (map thread_rqe (tl q))"
    using schedule_run [OF leave i(2) _ q1 ok] new unfolding nx by (auto simp: set_state_def)
  define s' where "s' = switched ?c (next_thread s q) m ?s1
    \<lparr>g_last_thread := 0, g_last_thread_action := LAST_THREAD_ACTION_NONE\<rparr>"
  have "scheduler_schedule s = Some s'"
    using i(1) unfolding m(1) s'_def by (intro after_none) (simp add: switched_def set_state_def sched_inv_def)
  moreover have fields:
    "th_state s' = (th_state s)(idle_thread s := THREAD_STATE_READY, next_thread s q := THREAD_STATE_RUNNING)"
    "g_current_thread s' = next_thread s q" "run_mem s' = m"
    "cpu_id s' = cpu_id s" "g_idle_thread s' = g_idle_thread s" "m_run_queue s' = m_run_queue s"
    "g_last_thread s' = 0" "g_last_thread_action s' = LAST_THREAD_ACTION_NONE"
    using c by (simp_all add: s'_def switched_def set_state_def set_mem_def)
  moreover have "sched_inv s' (tl q)"
    unfolding sched_inv_def fields thread_ok_def
    using i(1) m(2) c f(4,7) by (cases q) (auto simp: sched_inv_def next_thread_def thread_ok_def)
  ultimately show ?thesis by (auto simp: sched_same_def)
qed

text \<open>A thread that has died, of which a reference is left.\<close>

lemma thread_put_held:
  assumes "1 < ob_ref_count (vs (kst s)) (thread_object t)"
  shows "thread_put t s = Some (s\<lparr>kst := on_vs (\<lambda>z. z\<lparr>ob_ref_count := (ob_ref_count z)
    (thread_object t := ob_ref_count (vs (kst s)) (thread_object t) - 1)\<rparr>) (kst s)\<rparr>)"
proof -
  have "1 \<le> ob_ref_count (vs (kst s)) (thread_object t)" "ob_ref_count (vs (kst s)) (thread_object t) \<noteq> 1"
    using assms by auto
  then show ?thesis by (simp add: thread_put_def object_put_def on_kst_def Let_def on_vs_def comp_def)
qed

lemma exit_held:
  assumes i: "sched_inv s q" and c: "g_current_thread s \<noteq> idle_thread s"
    and ref: "1 < ob_ref_count (vs (kst s)) (thread_object (g_current_thread s))"
  shows "\<exists>s'. thread_exit s = Some s' \<and> sched_inv s' (tl q) \<and>
    g_current_thread s' = next_thread s q \<and> sched_same s s' \<and>
    th_state s' = (th_state s)(g_current_thread s := THREAD_STATE_DEAD, next_thread s q := THREAD_STATE_RUNNING)"
proof -
  note f = sched_invD [OF i]
  let ?c = "g_current_thread s"
  let ?s0 = "set_state ?c THREAD_STATE_DEAD s\<lparr>irq_on := False\<rparr>"
  let ?s1 = "?s0\<lparr>g_last_thread_action := LAST_THREAD_ACTION_PUT\<rparr>"
  have leave: "scheduler_leave ?s0 = Some ?s1" by (simp add: scheduler_leave_def Let_def set_state_def)
  have q1: "dlist (run_mem ?s1) (run_head ?s1) (map thread_rqe q)" using f(1) by (simp add: set_state_def)
  have ok: "\<forall>t\<in>set q. thread_ok ?s1 t" using f(8) by (simp add: thread_ok_def set_state_def)
  have nx: "next_thread ?s1 q = next_thread s q" by (simp add: next_thread_def set_state_def split: list.split)
  have ne: "next_thread s q \<noteq> ?c" using c f(2) by (auto simp: next_thread_def split: list.splits)
  have new: "next_thread s q \<noteq> 0" "th_state ?s1 (next_thread s q) = THREAD_STATE_READY"
    using f(6,8,9) c ne by (auto simp: next_thread_def thread_ok_def set_state_def split: list.splits)
  obtain m where m: "scheduler_schedule ?s0 = scheduler_after_schedule (switched ?c (next_thread s q) m ?s1)"
    "dlist m (run_head s) (map thread_rqe (tl q))"
    using schedule_run [OF leave _ _ q1 ok] new unfolding nx by (auto simp: set_state_def)
  let ?s2 = "switched ?c (next_thread s q) m ?s1"
  have "1 < ob_ref_count (vs (kst ?s2)) (thread_object ?c)"
    using ref by (simp add: switched_def set_mem_def set_state_def)
  note put = thread_put_held [OF this]
  define s' where "s' = ?s2\<lparr>kst := on_vs (\<lambda>z. z\<lparr>ob_ref_count := (ob_ref_count z)
      (thread_object ?c := ob_ref_count (vs (kst ?s2)) (thread_object ?c) - 1)\<rparr>) (kst ?s2),
    g_last_thread := 0, g_last_thread_action := LAST_THREAD_ACTION_NONE\<rparr>"
  have "g_last_thread_action ?s2 = LAST_THREAD_ACTION_PUT" "g_last_thread ?s2 = ?c"
    by (simp_all add: switched_def set_mem_def)
  then have "scheduler_after_schedule ?s2 = Some s'"
    by (simp add: scheduler_after_schedule_def put s'_def)
  then have "thread_exit s = Some s'"
    using f(3) m(1) by (simp add: thread_exit_def Let_def)
  moreover have fields:
    "th_state s' = (th_state s)(?c := THREAD_STATE_DEAD, next_thread s q := THREAD_STATE_RUNNING)"
    "g_current_thread s' = next_thread s q" "run_mem s' = m"
    "cpu_id s' = cpu_id s" "g_idle_thread s' = g_idle_thread s" "m_run_queue s' = m_run_queue s"
    "g_last_thread s' = 0" "g_last_thread_action s' = LAST_THREAD_ACTION_NONE"
    by (simp_all add: s'_def switched_def set_state_def set_mem_def)
  moreover have "sched_inv s' (tl q)"
    unfolding sched_inv_def fields thread_ok_def
    using i m(2) c f(2,4,7) by (cases q) (auto simp: sched_inv_def next_thread_def thread_ok_def)
  ultimately show ?thesis by (auto simp: sched_same_def)
qed

lemma start_ok:
  assumes i: "sched_inv s q" and t: "th_state s t = THREAD_STATE_IDLE" "thread_ok s t"
  shows "\<exists>s'. thread_start t s = Some s' \<and> sched_inv s' (t # q) \<and> g_current_thread s' = g_current_thread s \<and>
    sched_same s s' \<and> irq_on s' = irq_on s \<and> th_state s' = (th_state s)(t := THREAD_STATE_READY)"
proof -
  note f = sched_invD [OF i]
  let ?s = "set_state t THREAD_STATE_READY s"
  have tq: "t \<notin> set q" "t \<noteq> g_current_thread s" using f(3,8) t(1) by auto
  then have ti: "t \<noteq> idle_thread s" using f(3,9) t(1) by (metis thread_state.distinct(3))
  obtain m where m: "run_queue_put (thread_rqe t) ?s = Some (set_mem m ?s)"
    "dlist m (run_head s) (map thread_rqe (t # q))"
    using run_queue_put_ok [of ?s q t] f(1) tq t(2) by (auto simp: set_state_def thread_ok_def)
  define s' where "s' = set_mem m ?s"
  have "thread_start t s = Some s'" using t(1) m(1) by (simp add: thread_start_def Let_def s'_def)
  moreover have fields: "th_state s' = (th_state s)(t := THREAD_STATE_READY)"
    "g_current_thread s' = g_current_thread s" "run_mem s' = m" "irq_on s' = irq_on s"
    "cpu_id s' = cpu_id s" "g_idle_thread s' = g_idle_thread s" "m_run_queue s' = m_run_queue s"
    "g_last_thread s' = g_last_thread s" "g_last_thread_action s' = g_last_thread_action s"
    by (simp_all add: s'_def set_state_def set_mem_def)
  moreover have "sched_inv s' (t # q)"
    unfolding sched_inv_def fields thread_ok_def
    using i m(2) tq ti t(2) by (auto simp: sched_inv_def thread_ok_def)
  ultimately show ?thesis by (auto simp: sched_same_def)
qed

end
