(* ===== verification/Vmar_Inv.thy ===== *)
theory Vmar_Inv
  imports Vmar
begin

text \<open>
  The invariant of a region, and what linking, unlinking and the searches do to it.  Ranges are in
  page numbers, as in the code, but as natural numbers.
\<close>

section \<open>Propagation from a node\<close>

text \<open>The data of one node of a tree was changed; propagating from it makes the data right again.\<close>

lemma aug_tree_cong2:
  "(\<And>y l r. y \<in> set (addrs t) \<Longrightarrow> nok z' y l r = nok z y l r) \<Longrightarrow> aug_tree nok z' t = aug_tree nok z t"
  by (induction t) auto

lemma aug_path_cong2:
  "(\<And>y l r. y \<in> set (faddrs K) \<Longrightarrow> nok z' y l r = nok z y l r) \<Longrightarrow> aug_path nok z' K p = aug_path nok z K p"
proof (induction K arbitrary: p rule: fnodes.induct)
  case (2 d x c s K)
  have "aug_tree nok z' s = aug_tree nok z s" by (rule aug_tree_cong2) (use 2 in auto)
  with 2 show ?case by (cases d) (simp_all add: nokd_def)
qed simp

context rb_augment
begin

lemma linked_shape: "same_shape h h' \<Longrightarrow> aug_tree nok (rb_heap.more h') t \<Longrightarrow> linked_tree h root t \<Longrightarrow>
  linked_tree h' root t"
  using same_shape_tree_at [of h h' 0 t]
  by (simp add: linked_tree_def aug_rb_def rb_tree_def links_def same_shape_def
    rb_frame_links [unfolded links_def] dseg_cong [of _ h' h])

lemma propagate_node:
  assumes t: "linked_tree h root t" "x \<in> set (addrs t)" and shape: "same_shape h h1"
    and nok: "\<And>y l r. y \<noteq> x \<Longrightarrow> y \<in> set (addrs t) \<Longrightarrow>
      nok (rb_heap.more h1) y l r = nok (rb_heap.more h) y l r"
  shows "\<exists>h'. propagate cb x 0 h1 = Some h' \<and> same_shape h1 h' \<and>
    keep (set (addrs t)) (rb_heap.more h1) (rb_heap.more h') \<and> linked_tree h' root t"
proof -
  have tr: "tree_at h 0 t" "distinct (addrs t)" "aug_tree nok (rb_heap.more h) t" "0 \<notin> set (addrs t)"
    using t(1) tree_at_0 [of h 0 t] by (simp_all add: linked_tree_def aug_rb_def rb_tree_def)
  obtain us ws where us: "addrs t = us @ x # ws" using t(2) by (meson split_list)
  obtain K l c r where T: "t = plug K (Nd l x c r)" using plug_split [OF tr(2) us] .
  let ?K = "Fr Lft x c r # K"
  have T': "t = plug ?K l" using T by simp
  have p: "path_at h1 ?K (top l) 0" "tree_at h1 x l"
    using same_shape_tree_at [OF shape, of 0 t] tr(1) unfolding T tree_at_plug
    by (auto simp: child_def)
  have d: "distinct (addrs l)" "distinct (faddrs ?K)" "set (addrs l) \<inter> set (faddrs ?K) = {}"
    using tr(2) unfolding T' distinct_addrs_plug by blast+
  have S: "set (addrs t) = set (addrs l) \<union> set (faddrs ?K)" unfolding T' by auto
  have l: "top l \<notin> set (faddrs ?K)" using d(3) tr(4) S by (cases l) auto
  have a: "aug_tree nok (rb_heap.more h) l" "aug_tree nok (rb_heap.more h) r"
    "aug_path nok (rb_heap.more h) K x"
    using tr(3) unfolding T aug_tree_plug by auto
  have xs: "x \<notin> set (addrs l)" "x \<notin> set (addrs r)" "x \<notin> set (faddrs K)"
    using d by auto
  have a1: "aug_tree nok (rb_heap.more h1) l" "aug_tree nok (rb_heap.more h1) r"
    "aug_path nok (rb_heap.more h1) K x"
  proof -
    have n: "nok (rb_heap.more h1) y u v = nok (rb_heap.more h) y u v"
      if "y \<in> set (addrs l) \<or> y \<in> set (addrs r) \<or> y \<in> set (faddrs K)" for y u v
    proof -
      have "y \<noteq> x" "y \<in> set (addrs t)" using that xs S by auto
      then show ?thesis by (rule nok)
    qed
    show "aug_tree nok (rb_heap.more h1) l"
      by (rule aug_tree_cong2 [THEN iffD2, OF _ a(1)]) (rule n, simp)
    show "aug_tree nok (rb_heap.more h1) r"
      by (rule aug_tree_cong2 [THEN iffD2, OF _ a(2)]) (rule n, simp)
    show "aug_path nok (rb_heap.more h1) K x"
      by (rule aug_path_cong2 [THEN iffD2, OF _ a(3)]) (rule n, simp)
  qed
  have n0: "0 \<notin> set (fnodes ?K)" using tr(4) S fnodes_subset [of ?K] by blast
  have st: "aug_stale nok (rb_heap.more h1) ?K" using a1 by simp
  obtain h' where h': "propagate cb x 0 h1 = Some h'" "same_shape h1 h'"
    "keep (set (fnodes ?K)) (rb_heap.more h1) (rb_heap.more h')" "aug_path nok (rb_heap.more h') ?K (top l)"
    using propagate_path [OF p(1) d(2) aligned4_0 n0 l st] by auto
  have "set (addrs l) \<inter> set (fnodes ?K) = {}" using d(3) fnodes_subset [of ?K] by blast
  then have "aug_tree nok (rb_heap.more h') l" using a1(1) aug_tree_keep [OF h'(3) n0] by simp
  with h'(4) have "aug_tree nok (rb_heap.more h') t" unfolding T' aug_tree_plug by simp
  then have "linked_tree h' root t"
    using linked_shape [OF same_shape_trans [OF shape h'(2)] _ t(1)] by blast
  moreover have "keep (set (addrs t)) (rb_heap.more h1) (rb_heap.more h')"
    using keep_mono [OF h'(3)] fnodes_subset [of ?K] S by blast
  ultimately show ?thesis using h' by blast
qed

end

section \<open>The children of a region\<close>

definition pg :: "vmars \<Rightarrow> ptr \<Rightarrow> nat" where "pg z v = unat (vmar_first_page z v)"
definition pn :: "vmars \<Rightarrow> ptr \<Rightarrow> nat" where "pn z v = unat (vm_page_count z v)"
definition pg_end :: "vmars \<Rightarrow> ptr \<Rightarrow> nat" where "pg_end z v = pg z v + pn z v"

text \<open>Where a sequence of children that starts at page \<open>s\<close> ends, and that they are in order, not
  empty, without overlap, each with its gap.\<close>

fun pend :: "vmars \<Rightarrow> nat \<Rightarrow> ptr list \<Rightarrow> nat" where
  "pend z s [] = s"
| "pend z s (c # cs) = pend z (pg_end z c) cs"

fun packed :: "vmars \<Rightarrow> nat \<Rightarrow> ptr list \<Rightarrow> bool" where
  "packed z s [] \<longleftrightarrow> True"
| "packed z s (c # cs) \<longleftrightarrow>
     0 < pn z c \<and> s \<le> pg z c \<and> unat (vm_gap z c) = pg z c - s \<and> packed z (pg_end z c) cs"

lemma pend_append [simp]: "pend z s (xs @ ys) = pend z (pend z s xs) ys"
  by (induction xs arbitrary: s) auto

lemma packed_append [simp]: "packed z s (xs @ ys) \<longleftrightarrow> packed z s xs \<and> packed z (pend z s xs) ys"
  by (induction xs arbitrary: s) auto

lemma packed_pend: "packed z s cs \<Longrightarrow> s \<le> pend z s cs"
  by (induction cs arbitrary: s) (fastforce simp: pg_end_def)+

lemma packed_mem: "packed z s cs \<Longrightarrow> c \<in> set cs \<Longrightarrow> s \<le> pg z c \<and> 0 < pn z c \<and> pg_end z c \<le> pend z s cs"
proof (induction cs arbitrary: s)
  case (Cons d cs)
  then show ?case using packed_pend [of z "pg_end z d" cs] by (force simp: pg_end_def)
qed simp

text \<open>The vmars in a region of the tree, as the code keeps them; \<open>cs\<close> are the children in order.\<close>

definition vregion :: "kstate \<Rightarrow> ptr \<Rightarrow> ptr list \<Rightarrow> bool" where
  "vregion h r cs \<longleftrightarrow>
     vm_kind (vs h) r = VMAR_KIND_REGION \<and>
     (\<exists>t. gaps.linked_tree h (vmar_children r) t \<and> addrs t = map vmar_node cs) \<and>
     packed (vs h) (pg (vs h) r) cs \<and> pend (vs h) (pg (vs h) r) cs \<le> pg_end (vs h) r \<and>
     pg_end (vs h) r \<le> 2 ^ 52 \<and>
     0 \<notin> set cs \<and> (\<forall>c\<in>set cs. vm_parent (vs h) c = r)"

lemma pg_bound: "pg z v < 2 ^ 52"
proof -
  have "unat (vm_base z v) < 2 ^ 64" by (rule order.strict_trans2 [OF unsigned_less]) simp
  then have "drop_bit 12 (unat (vm_base z v)) < 2 ^ 52" by (simp add: drop_bit_eq_div)
  then show ?thesis
    unfolding pg_def vmar_first_page_def PAGE_SHIFT_def unat_drop_bit_eq .
qed

lemma unat_end_page: "pg_end z v < 2 ^ 64 \<Longrightarrow> unat (vmar_end_page z v) = pg_end z v"
  by (simp add: vmar_end_page_def pg_end_def pg_def pn_def unat_add_exact)

lemma inj_vmar_node [simp]: "inj vmar_node" "inj_on vmar_node A" "vmar_node a = vmar_node b \<longleftrightarrow> a = b"
  by (auto simp: vmar_node_def inj_on_def)

lemma linked_tree_facts:
  assumes "gaps.linked_tree h root t" "addrs t = map vmar_node cs"
  shows "distinct cs" "\<forall>c\<in>set cs. vmar_node c \<noteq> 0" "rb_tree h root t" "links h root (map vmar_node cs)"
proof -
  have "distinct (addrs t)" "0 \<notin> set (addrs t)" and r: "rb_tree h root t" "links h root (addrs t)"
    using assms(1) tree_at_0 [of h 0 t] by (simp_all add: gaps.linked_tree_def aug_rb_def rb_tree_def)
  with assms(2) show "distinct cs" "\<forall>c\<in>set cs. vmar_node c \<noteq> 0" "rb_tree h root t"
    "links h root (map vmar_node cs)"
    by (auto simp: distinct_map)
qed

text \<open>Neighbours.\<close>

lemma links_neighbours:
  assumes "links h root (map vmar_node (xs @ c # ys))" "0 \<notin> set (xs @ c # ys)"
    "\<forall>c\<in>set (xs @ c # ys). vmar_node c \<noteq> 0"
  shows "vmar_prev h c = (if xs = [] then 0 else last xs)" "vmar_next h c = (case ys of [] \<Rightarrow> 0 | y # _ \<Rightarrow> y)"
proof -
  have d: "ln_prev h (vmar_node c) = last_or 0 (map vmar_node xs)"
    "ln_next h (vmar_node c) = fst_or (map vmar_node ys) 0"
    using assms(1) by (simp_all add: links_def)
  have "last_or p (map vmar_node xs) = (if xs = [] then p else vmar_node (last xs))" for p
    by (induction xs arbitrary: p) auto
  with d(1) assms(3) show "vmar_prev h c = (if xs = [] then 0 else last xs)"
    by (auto simp: vmar_prev_def vmar_of_linked_def)
  show "vmar_next h c = (case ys of [] \<Rightarrow> 0 | y # _ \<Rightarrow> y)"
    using d(2) assms(3) by (cases ys) (auto simp: vmar_next_def vmar_of_linked_def)
qed

section \<open>The gaps\<close>

text \<open>\<open>vmar_gap_update\<close> on a child whose predecessor is known.\<close>

definition gap_frame :: "ptr set \<Rightarrow> vmars \<Rightarrow> vmars \<Rightarrow> bool" where
  "gap_frame S z z' \<longleftrightarrow> (\<exists>f g. z' = z\<lparr>vm_gap := f, vm_max_gap := g\<rparr> \<and>
     (\<forall>x. x \<notin> S \<longrightarrow> f x = vm_gap z x \<and> g x = vm_max_gap z x))"

lemma gap_frame_trans:
  assumes "gap_frame S z z1" "gap_frame S z1 z2" shows "gap_frame S z z2"
proof -
  obtain f g f' g' where "z1 = z\<lparr>vm_gap := f, vm_max_gap := g\<rparr>" "z2 = z1\<lparr>vm_gap := f', vm_max_gap := g'\<rparr>"
    "\<forall>x. x \<notin> S \<longrightarrow> f x = vm_gap z x \<and> g x = vm_max_gap z x"
    "\<forall>x. x \<notin> S \<longrightarrow> f' x = vm_gap z1 x \<and> g' x = vm_max_gap z1 x"
    using assms unfolding gap_frame_def by blast
  then have "z2 = z\<lparr>vm_gap := f', vm_max_gap := g'\<rparr>"
    "\<forall>x. x \<notin> S \<longrightarrow> f' x = vm_gap z x \<and> g' x = vm_max_gap z x" by simp_all
  then show ?thesis unfolding gap_frame_def by blast
qed

lemma gap_frame_mono: "gap_frame S z z' \<Longrightarrow> S \<subseteq> T \<Longrightarrow> gap_frame T z z'"
  unfolding gap_frame_def by blast

lemma gap_frame_rest:
  assumes "gap_frame S z z'"
  shows "vm_base z' = vm_base z" "vm_page_count z' = vm_page_count z" "vm_parent z' = vm_parent z"
    "vm_kind z' = vm_kind z" "pg z' = pg z" "pn z' = pn z" "pg_end z' = pg_end z"
    "vm_unmapped z' = vm_unmapped z" "vm_locked z' = vm_locked z" "phys_mem z' = phys_mem z"
    "m_vmar_lock z' = m_vmar_lock z"
  using assms unfolding gap_frame_def
  by (auto simp: pg_def pn_def pg_end_def vmar_first_page_def fun_eq_iff)

lemma keep_gap_frame: "gaps.max_keep (vmar_node ` S) z z' \<Longrightarrow> gap_frame S z z'"
proof -
  assume "gaps.max_keep (vmar_node ` S) z z'"
  then obtain f where f: "z' = z\<lparr>vm_max_gap := (\<lambda>v. f (vmar_node v))\<rparr>"
    "\<And>x. x \<notin> vmar_node ` S \<Longrightarrow> f x = vm_max_gap z (vmar_of_rb x)"
    unfolding gaps.max_keep_def vmar_aug_upd_def vmar_aug_get_def by blast
  have "z' = z\<lparr>vm_gap := vm_gap z, vm_max_gap := (\<lambda>v. f (vmar_node v))\<rparr>" using f(1) by simp
  moreover have "\<forall>x. x \<notin> S \<longrightarrow> vm_gap z x = vm_gap z x \<and> f (vmar_node x) = vm_max_gap z x"
  proof (intro allI impI conjI refl)
    fix x assume "x \<notin> S"
    then have "vmar_node x \<notin> vmar_node ` S" by auto
    then show "f (vmar_node x) = vm_max_gap z x" using f(2) by simp
  qed
  ultimately show ?thesis unfolding gap_frame_def by blast
qed

lemma gap_update_ok:
  assumes t: "gaps.linked_tree h root t" "addrs t = map vmar_node (xs @ c # ys)"
    and z: "0 \<notin> set (xs @ c # ys)" and parent: "xs = [] \<Longrightarrow> pg (vs h) (vm_parent (vs h) c) = s"
    and p: "pend (vs h) s xs \<le> pg (vs h) c" "pend (vs h) s xs < 2 ^ 64"
  shows "\<exists>h'. vmar_gap_update c h = Some h' \<and> same_shape h h' \<and> gaps.linked_tree h' root t \<and>
    gap_frame (set (xs @ c # ys)) (vs h) (vs h') \<and>
    unat (vm_gap (vs h') c) = pg (vs h) c - pend (vs h) s xs \<and>
    (\<forall>v. v \<noteq> c \<longrightarrow> vm_gap (vs h') v = vm_gap (vs h) v)"
proof -
  note lt = linked_tree_facts [OF t]
  note nb = links_neighbours [OF lt(4) z lt(2)]
  define w where "w = (if vmar_prev h c \<noteq> 0 then vmar_end_page (vs h) (vmar_prev h c)
    else vmar_first_page (vs h) (vm_parent (vs h) c))"
  have uw: "unat w = pend (vs h) s xs"
  proof (cases xs rule: rev_cases)
    case Nil
    then show ?thesis using nb(1) parent by (simp add: w_def pg_def)
  next
    case (snoc us u)
    then have "pend (vs h) s xs = pg_end (vs h) u" "vmar_prev h c = u" "u \<noteq> 0" using nb(1) z by auto
    then show ?thesis using p(2) by (simp add: w_def unat_end_page)
  qed
  define h1 where "h1 = set_gap c (vmar_first_page (vs h) c - w) h"
  have run: "vmar_gap_update c h = propagate vmar_gap_callbacks (vmar_node c) 0 h1"
    by (simp add: vmar_gap_update_def Let_def h1_def w_def)
  have sh: "same_shape h h1" by (simp add: h1_def set_gap_def same_shape_def)
  have vs1: "vs h1 = (vs h)\<lparr>vm_gap := (vm_gap (vs h))(c := vmar_first_page (vs h) c - w)\<rparr>"
    by (simp add: h1_def set_gap_def)
  have nok: "gaps.max_ok (vs h1) y l r = gaps.max_ok (vs h) y l r" if "y \<noteq> vmar_node c" for y l r
  proof -
    have "vmar_of_rb y \<noteq> c" using that by auto
    then show ?thesis unfolding gaps.max_ok_def gaps.val_def vs1
      by (simp add: vmar_aug_get_def vmar_aug_compute_def vmar_gap_of_def)
  qed
  have "vmar_node c \<in> set (addrs t)" using t(2) by simp
  from gaps.propagate_node [OF t(1) this sh nok]
  obtain h' where h': "propagate vmar_gap_callbacks (vmar_node c) 0 h1 = Some h'" "same_shape h1 h'"
    "gaps.max_keep (set (addrs t)) (vs h1) (vs h')" "gaps.linked_tree h' root t"
    unfolding vmar_gap_callbacks_def by blast
  have "gap_frame (set (xs @ c # ys)) (vs h) (vs h1)"
    unfolding vs1 gap_frame_def
    by (intro exI [of _ "(vm_gap (vs h))(c := vmar_first_page (vs h) c - w)"]
      exI [of _ "vm_max_gap (vs h)"]) simp
  moreover have kf: "gap_frame (set (xs @ c # ys)) (vs h1) (vs h')"
    using h'(3) unfolding t(2) by (intro keep_gap_frame) (simp add: image_Un)
  moreover have "vm_gap (vs h') = vm_gap (vs h1)"
    using h'(3) unfolding gaps.max_keep_def vmar_aug_upd_def by auto
  moreover have "unat (vmar_first_page (vs h) c - w) = pg (vs h) c - pend (vs h) s xs"
    using p(1) uw by (simp add: pg_def unat_sub word_le_nat_alt)
  ultimately show ?thesis
    using run h'(1,4) same_shape_trans [OF sh h'(2)] gap_frame_trans by (auto simp: vs1)
qed

lemma packed_cong:
  "(\<And>c. c \<in> set cs \<Longrightarrow> pg z' c = pg z c \<and> pn z' c = pn z c \<and> vm_gap z' c = vm_gap z c) \<Longrightarrow>
   packed z' s cs = packed z s cs"
  by (induction cs arbitrary: s) (auto simp: pg_end_def)

lemma pend_cong:
  "(\<And>c. c \<in> set cs \<Longrightarrow> pg z' c = pg z c \<and> pn z' c = pn z c) \<Longrightarrow> pend z' s cs = pend z s cs"
  by (induction cs arbitrary: s) (auto simp: pg_end_def)

lemma packed_sorted: "packed z s cs \<Longrightarrow> sorted_wrt (\<lambda>a b. pg_end z a \<le> pg z b) cs"
proof (induction cs arbitrary: s)
  case (Cons c cs)
  then show ?case using packed_mem [of z "pg_end z c" cs] by auto
qed simp

section \<open>Linking\<close>

text \<open>The comparison of ranges, in page numbers.\<close>

lemma compare_ranges:
  assumes "pg_end z a < 2 ^ 64" "pg_end z b < 2 ^ 64"
  shows "vmar_compare_ranges z a b =
    (if pg_end z a \<le> pg z b then - 1 else if pg_end z b \<le> pg z a then 1 else 0)"
  using assms by (simp add: vmar_compare_ranges_def word_le_nat_alt unat_end_page) (simp add: pg_def)

lemma overlap_sorted:
  assumes "packed z s cs" "pend z s cs < 2 ^ 64" "pg_end z c < 2 ^ 64"
  shows "cmp_sorted (\<lambda>n. vmar_compare_ranges z c (vmar_of_rb n)) (map vmar_node cs)"
proof -
  have mem: "0 < pn z a \<and> pg_end z a < 2 ^ 64" if "a \<in> set cs" for a
    using packed_mem [OF assms(1) that] assms(2) by simp
  have "sgn (vmar_compare_ranges z c b) \<le> sgn (vmar_compare_ranges z c a)"
    if "a \<in> set cs" "b \<in> set cs" "pg_end z a \<le> pg z b" for a b
  proof -
    have "pg z a < pg z b" "pg z b < pg_end z b" using mem [OF that(1)] mem [OF that(2)] that(3)
      by (simp_all add: pg_end_def)
    then show ?thesis
      using compare_ranges [OF assms(3), of a] compare_ranges [OF assms(3), of b] mem that by auto
  qed
  then show ?thesis
    unfolding cmp_sorted_def sorted_wrt_map
    using sorted_wrt_mono_rel [OF _ packed_sorted [OF assms(1)]] by simp
qed

lemma max_ok_fields:
  "(vm_gap z' (vmar_of_rb y) = vm_gap z (vmar_of_rb y)) \<Longrightarrow>
    vm_max_gap z' = vm_max_gap z \<Longrightarrow> gaps.max_ok z' y l r = gaps.max_ok z y l r"
  by (simp add: gaps.max_ok_def gaps.val_def vmar_aug_get_def vmar_aug_compute_def vmar_gap_of_def)

text \<open>What a change of one region leaves alone: every node but the children, and of the vmars all
  but the gaps and the parents of the vmars in \<open>S\<close>.\<close>

definition vlink_frame :: "ptr set \<Rightarrow> ptr \<Rightarrow> kstate \<Rightarrow> kstate \<Rightarrow> bool" where
  "vlink_frame S r h h' \<longleftrightarrow> linked_frame (vmar_node ` S) (vmar_children r) h h' \<and>
     (\<exists>f g p u. vs h' = (vs h)\<lparr>vm_gap := f, vm_max_gap := g, vm_parent := p, vm_unmapped := u\<rparr> \<and>
       (\<forall>x. x \<notin> S \<longrightarrow> f x = vm_gap (vs h) x \<and> g x = vm_max_gap (vs h) x \<and> p x = vm_parent (vs h) x \<and>
          u x = vm_unmapped (vs h) x))"

lemma gap_frame_vlink: "linked_frame (vmar_node ` S) (vmar_children r) h h' \<Longrightarrow>
  gap_frame S (vs h) (vs h') \<Longrightarrow> vlink_frame S r h h'"
proof -
  assume lf: "linked_frame (vmar_node ` S) (vmar_children r) h h'" and "gap_frame S (vs h) (vs h')"
  then obtain f g where "vs h' = (vs h)\<lparr>vm_gap := f, vm_max_gap := g\<rparr>"
    "\<forall>x. x \<notin> S \<longrightarrow> f x = vm_gap (vs h) x \<and> g x = vm_max_gap (vs h) x"
    unfolding gap_frame_def by blast
  then have "vs h' = (vs h)\<lparr>vm_gap := f, vm_max_gap := g, vm_parent := vm_parent (vs h),
      vm_unmapped := vm_unmapped (vs h)\<rparr>" by simp
  with lf \<open>\<forall>x. x \<notin> S \<longrightarrow> f x = vm_gap (vs h) x \<and> g x = vm_max_gap (vs h) x\<close>
  show "vlink_frame S r h h'" unfolding vlink_frame_def by blast
qed

lemma vlink_frame_trans:
  assumes "vlink_frame S r h h1" "vlink_frame S r h1 h2" shows "vlink_frame S r h h2"
proof -
  obtain f g p u f' g' p' u' where
    "vs h1 = (vs h)\<lparr>vm_gap := f, vm_max_gap := g, vm_parent := p, vm_unmapped := u\<rparr>"
    "\<forall>x. x \<notin> S \<longrightarrow> f x = vm_gap (vs h) x \<and> g x = vm_max_gap (vs h) x \<and> p x = vm_parent (vs h) x \<and>
       u x = vm_unmapped (vs h) x"
    "vs h2 = (vs h1)\<lparr>vm_gap := f', vm_max_gap := g', vm_parent := p', vm_unmapped := u'\<rparr>"
    "\<forall>x. x \<notin> S \<longrightarrow> f' x = vm_gap (vs h1) x \<and> g' x = vm_max_gap (vs h1) x \<and> p' x = vm_parent (vs h1) x \<and>
       u' x = vm_unmapped (vs h1) x"
    using assms unfolding vlink_frame_def by blast
  then have "vs h2 = (vs h)\<lparr>vm_gap := f', vm_max_gap := g', vm_parent := p', vm_unmapped := u'\<rparr>"
    "\<forall>x. x \<notin> S \<longrightarrow> f' x = vm_gap (vs h) x \<and> g' x = vm_max_gap (vs h) x \<and> p' x = vm_parent (vs h) x \<and>
       u' x = vm_unmapped (vs h) x" by simp_all
  moreover have "linked_frame (vmar_node ` S) (vmar_children r) h h2"
    using assms linked_frame_trans unfolding vlink_frame_def by blast
  ultimately show ?thesis unfolding vlink_frame_def by blast
qed

lemma same_shape_linked_frame: "same_shape h h' \<Longrightarrow> linked_frame S r h h'"
  by (simp add: same_shape_def linked_frame_def)

lemma vlink_frame_pages:
  "vlink_frame S r h h' \<Longrightarrow> pg (vs h') = pg (vs h) \<and> pn (vs h') = pn (vs h) \<and>
     pg_end (vs h') = pg_end (vs h) \<and> vm_kind (vs h') = vm_kind (vs h)"
  unfolding vlink_frame_def by (auto simp: pg_def pn_def pg_end_def vmar_first_page_def fun_eq_iff)

end
