(* ===== verification/Vmar_Link.thy ===== *)
theory Vmar_Link
  imports Vmar_Inv
begin

text \<open>Linking a vmar into a region and unlinking it keep the invariant of the region.\<close>

section \<open>Linking\<close>

definition link_start :: "ptr \<Rightarrow> kstate \<Rightarrow> kstate" where
  "link_start c h = on_vs (\<lambda>z. z\<lparr>vm_gap := (vm_gap z)(c := 0), vm_max_gap := (vm_max_gap z)(c := 0)\<rparr>) h"

definition link_parent :: "ptr \<Rightarrow> ptr \<Rightarrow> kstate \<Rightarrow> kstate" where
  "link_parent c r h = on_vs (\<lambda>z. z\<lparr>vm_parent := (vm_parent z)(c := r)\<rparr>) h"

lemma link_start_tree:
  assumes "gaps.linked_tree h root t" "vmar_node c \<notin> set (addrs t)" "vmar_node c \<noteq> 0"
  shows "gaps.linked_tree (link_start c h) root t"
proof -
  have "gaps.max_ok (vs (link_start c h)) y l r = gaps.max_ok (vs h) y l r"
    if "y \<notin> {vmar_node c}" "l \<notin> {vmar_node c}" "r \<notin> {vmar_node c}" for y l r
  proof -
    have "vmar_of_rb y \<noteq> c" "vmar_of_rb l \<noteq> c" "vmar_of_rb r \<noteq> c" using that by auto
    then show ?thesis
      by (simp add: link_start_def gaps.max_ok_def gaps.val_def vmar_aug_get_def vmar_aug_compute_def
        vmar_gap_of_def)
  qed
  then have "aug_tree gaps.max_ok (vs (link_start c h)) t = aug_tree gaps.max_ok (vs h) t"
    by (rule aug_tree_cong) (use assms in auto)
  moreover have "aug_tree gaps.max_ok (vs h) t" using assms(1) by (simp add: gaps.linked_tree_def aug_rb_def)
  ultimately show ?thesis
    by (intro gaps.linked_shape [OF _ _ assms(1)]) (simp_all add: same_shape_def link_start_def)
qed

lemma link_parent_tree:
  assumes "gaps.linked_tree h root t" shows "gaps.linked_tree (link_parent c r h) root t"
proof (rule gaps.linked_shape [OF _ _ assms])
  show "same_shape h (link_parent c r h)" by (simp add: same_shape_def link_parent_def)
  have "aug_tree gaps.max_ok (vs (link_parent c r h)) t = aug_tree gaps.max_ok (vs h) t"
    by (rule aug_tree_cong2) (rule max_ok_fields; simp add: link_parent_def)
  then show "aug_tree gaps.max_ok (vs (link_parent c r h)) t"
    using assms unfolding gaps.linked_tree_def aug_rb_def by simp
qed

lemma gap_frame_vmars: "gap_frame {c} (vs h) (vs (link_start c h))"
proof -
  have "vs (link_start c h) = (vs h)\<lparr>vm_gap := (vm_gap (vs h))(c := 0), vm_max_gap := (vm_max_gap (vs h))(c := 0)\<rparr>"
    unfolding link_start_def vs_on_vs ..
  moreover have "\<forall>x. x \<notin> {c} \<longrightarrow> ((vm_gap (vs h))(c := 0)) x = vm_gap (vs h) x \<and>
      ((vm_max_gap (vs h))(c := 0)) x = vm_max_gap (vs h) x" by simp
  ultimately show ?thesis unfolding gap_frame_def by blast
qed

text \<open>The tree after the insertion, before the gaps are known.\<close>

lemma link_insert:
  assumes t: "gaps.linked_tree h root t" "addrs t = map vmar_node cs"
    and p: "packed (vs h) s cs" "pend (vs h) s cs < 2 ^ 64" "pg_end (vs h) c < 2 ^ 64" "0 < pn (vs h) c"
    and c: "c \<notin> set cs" "vmar_node c \<noteq> 0" "aligned4 (vmar_node c)"
    and dj: "\<forall>d\<in>set cs. pg_end (vs h) c \<le> pg (vs h) d \<or> pg_end (vs h) d \<le> pg (vs h) c"
  shows "\<exists>h' t' xs ys. rb_find_add_augmented_linked (vmar_node c) root
      (vmar_overlap_cmp (vs (link_start c h)) (vmar_node c)) vmar_gap_callbacks (link_start c h) = Some (0, h') \<and>
    cs = xs @ ys \<and> gaps.linked_tree h' root t' \<and> addrs t' = map vmar_node (xs @ c # ys) \<and>
    (\<forall>x\<in>set xs. pg_end (vs h) x \<le> pg (vs h) c) \<and> (\<forall>y\<in>set ys. pg_end (vs h) c \<le> pg (vs h) y) \<and>
    linked_frame (vmar_node ` set (c # cs)) root h h' \<and>
    gap_frame (set (c # cs)) (vs h) (vs h') \<and> (\<forall>v. v \<noteq> c \<longrightarrow> vm_gap (vs h') v = vm_gap (vs h) v)"
proof -
  let ?h = "link_start c h"
  let ?cmp = "vmar_overlap_cmp (vs ?h) (vmar_node c)"
  have gf: "gap_frame {c} (vs h) (vs ?h)" by (rule gap_frame_vmars)
  note same = gap_frame_rest [OF gf]
  have lt: "gaps.linked_tree ?h root t" by (rule link_start_tree [OF t(1)]) (use t(2) c in auto)
  have cmp: "?cmp n = vmar_compare_ranges (vs ?h) c (vmar_of_rb n)" for n
    by (simp add: vmar_overlap_cmp_def)
  have gap: "vm_gap (vs ?h) v = vm_gap (vs h) v" if "v \<noteq> c" for v using that by (simp add: link_start_def)
  have pk: "packed (vs ?h) s cs = packed (vs h) s cs"
  proof (rule packed_cong)
    fix d assume "d \<in> set cs"
    then have "d \<noteq> c" using c(1) by blast
    then show "pg (vs ?h) d = pg (vs h) d \<and> pn (vs ?h) d = pn (vs h) d \<and> vm_gap (vs ?h) d = vm_gap (vs h) d"
      using gap by (simp add: same)
  qed
  have pd: "pend (vs ?h) s cs = pend (vs h) s cs"
    by (rule pend_cong) (simp add: same)
  have srt: "cmp_sorted ?cmp (addrs t)"
    unfolding t(2) cmp using overlap_sorted [of "vs ?h" s cs c] pk pd p by (simp add: same)
  have bound: "pg_end (vs h) d < 2 ^ 64" "0 < pn (vs h) d" if "d \<in> set cs" for d
    using packed_mem [OF p(1) that] p(2) by simp_all
  have cv: "?cmp (vmar_node d) = (if pg_end (vs h) c \<le> pg (vs h) d then - 1
      else if pg_end (vs h) d \<le> pg (vs h) c then 1 else 0)" if "d \<in> set cs" for d
    using compare_ranges [of "vs ?h" c d] bound [OF that] p(3) by (simp add: cmp same)
  have no: "?cmp m \<noteq> 0" if m: "m \<in> set (addrs t)" for m
  proof -
    obtain d where "d \<in> set cs" "m = vmar_node d" using m unfolding t(2) by auto
    then show ?thesis using dj cv [of d] by (auto split: if_splits)
  qed
  have nok: "gaps.max_ok (vs ?h) (vmar_node c) 0 0"
    by (simp add: gaps.max_ok_def gaps.val_def link_start_def vmar_aug_get_def vmar_aug_compute_def vmar_gap_of_def)
  have "vmar_node c \<notin> set (addrs t)" using c(1) unfolding t(2) by auto
  note ins = gaps.rb_find_add_augmented_linked_ok [OF lt srt c(2,3) this nok, folded vmar_gap_callbacks_def]
  obtain h' t' us ws where h': "rb_find_add_augmented_linked (vmar_node c) root ?cmp vmar_gap_callbacks ?h = Some (0, h')"
    "gaps.linked_tree h' root t'" "addrs t = us @ ws" "addrs t' = us @ vmar_node c # ws"
    "\<forall>x\<in>set us. ?cmp x > 0" "\<forall>y\<in>set ws. ?cmp y < 0"
    "linked_frame (insert (vmar_node c) (set (addrs t))) root ?h h'"
    "gaps.max_keep (insert (vmar_node c) (set (addrs t))) (vs ?h) (vs h')"
    using ins
  proof (elim disjE bexE exE conjE)
    fix m assume "m \<in> set (addrs t)" "?cmp m = 0"
    with no show ?thesis by blast
  qed (rule that)
  obtain xs ys where xy: "cs = xs @ ys" "us = map vmar_node xs" "ws = map vmar_node ys"
    using h'(3) unfolding t(2) by (auto simp: map_eq_append_conv)
  have "pg_end (vs h) x \<le> pg (vs h) c" if "x \<in> set xs" for x
    using h'(5) cv [of x] that unfolding xy by (auto split: if_splits)
  moreover have "pg_end (vs h) c \<le> pg (vs h) y" if "y \<in> set ys" for y
    using h'(6) cv [of y] that unfolding xy by (auto split: if_splits)
  moreover have kf: "gap_frame (set (c # cs)) (vs ?h) (vs h')"
    using h'(8) unfolding t(2) by (intro keep_gap_frame) (simp add: image_Un)
  moreover have "vm_gap (vs h') = vm_gap (vs ?h)"
    using h'(8) unfolding gaps.max_keep_def vmar_aug_upd_def by auto
  moreover have "linked_frame (vmar_node ` set (c # cs)) root h h'"
    using h'(7) unfolding t(2) by (simp add: linked_frame_def link_start_def)
  moreover have "gap_frame (set (c # cs)) (vs h) (vs ?h)" by (rule gap_frame_mono [OF gf]) simp
  then have "gap_frame (set (c # cs)) (vs h) (vs h')" using kf by (rule gap_frame_trans)
  moreover have "addrs t' = map vmar_node (xs @ c # ys)" using h'(4) unfolding xy by simp
  ultimately show ?thesis
    using h'(1,2) xy(1) gap
    by (intro exI [of _ h'] exI [of _ t'] exI [of _ xs] exI [of _ ys] conjI) simp_all
qed

lemma pend_le: "packed z s xs \<Longrightarrow> \<forall>x\<in>set xs. pg_end z x \<le> m \<Longrightarrow> s \<le> m \<Longrightarrow> pend z s xs \<le> m"
  by (induction xs arbitrary: s) auto

lemma vmar_link_internal_ok:
  assumes r: "vregion h r cs"
    and c: "vm_parent (vs h) c = 0" "c \<noteq> 0" "c \<notin> set cs" "c \<noteq> r" "vmar_node c \<noteq> 0" "aligned4 (vmar_node c)"
    and rng: "0 < pn (vs h) c" "pg (vs h) r \<le> pg (vs h) c" "pg_end (vs h) c \<le> pg_end (vs h) r"
    and dj: "\<forall>d\<in>set cs. pg_end (vs h) c \<le> pg (vs h) d \<or> pg_end (vs h) d \<le> pg (vs h) c"
  shows "\<exists>h' xs ys. vmar_link_internal r c h = Some h' \<and> cs = xs @ ys \<and> vregion h' r (xs @ c # ys) \<and>
    vlink_frame (set (c # cs)) r h h' \<and> vm_unmapped (vs h') = vm_unmapped (vs h)"
proof -
  let ?z = "vs h" and ?s = "pg (vs h) r" and ?root = "vmar_children r"
  obtain t where t: "gaps.linked_tree h ?root t" "addrs t = map vmar_node cs"
    and p: "packed ?z ?s cs" "pend ?z ?s cs \<le> pg_end ?z r" "pg_end ?z r \<le> 2 ^ 52"
    and k: "vm_kind ?z r = VMAR_KIND_REGION" "0 \<notin> set cs" "\<forall>d\<in>set cs. vm_parent ?z d = r"
    using r unfolding vregion_def by blast
  have b: "pend ?z ?s cs < 2 ^ 64" "pg_end ?z c < 2 ^ 64" using p rng by simp_all
  obtain h1 t1 xs ys where h1: "rb_find_add_augmented_linked (vmar_node c) ?root
      (vmar_overlap_cmp (vs (link_start c h)) (vmar_node c)) vmar_gap_callbacks (link_start c h) = Some (0, h1)"
    "cs = xs @ ys" "gaps.linked_tree h1 ?root t1" "addrs t1 = map vmar_node (xs @ c # ys)"
    "\<forall>x\<in>set xs. pg_end ?z x \<le> pg ?z c" "\<forall>y\<in>set ys. pg_end ?z c \<le> pg ?z y"
    "linked_frame (vmar_node ` set (c # cs)) ?root h h1" "gap_frame (set (c # cs)) ?z (vs h1)"
    "\<forall>v. v \<noteq> c \<longrightarrow> vm_gap (vs h1) v = vm_gap ?z v"
    using link_insert [OF t p(1) b rng(1) c(3,5,6) dj] by blast
  define h2 where "h2 = link_parent c r h1"
  have t2: "gaps.linked_tree h2 ?root t1" unfolding h2_def by (rule link_parent_tree [OF h1(3)])
  have S: "set (xs @ c # ys) = set (c # cs)" using h1(2) by auto
  have z0: "0 \<notin> set (xs @ c # ys)" using k(2) c(2) h1(2) by auto
  have vs2: "vs h2 = (vs h1)\<lparr>vm_parent := (vm_parent ?z)(c := r)\<rparr>"
    using gap_frame_rest(3) [OF h1(8)] by (simp add: h2_def link_parent_def)
  have pgs2: "pg (vs h2) = pg ?z" "pn (vs h2) = pn ?z" "pg_end (vs h2) = pg_end ?z"
    using gap_frame_rest(5-7) [OF h1(8)]
    by (simp_all add: vs2 pg_def pn_def pg_end_def vmar_first_page_def fun_eq_iff)
  have gap2: "vm_gap (vs h2) v = vm_gap ?z v" if "v \<noteq> c" for v using h1(9) that by (simp add: vs2)
  have pe: "pend (vs h2) ?s us = pend ?z ?s us" for us by (rule pend_cong) (simp add: pgs2)
  have pxs: "packed ?z ?s xs" "packed ?z (pend ?z ?s xs) ys" using p(1) h1(2) by simp_all
  have le: "pend ?z ?s xs \<le> pg ?z c" using pend_le [OF pxs(1) h1(5) rng(2)] .
  have par: "xs = [] \<Longrightarrow> pg (vs h2) (vm_parent (vs h2) c) = ?s"
  proof -
    have "vm_parent (vs h2) c = r" by (simp add: vs2)
    then show ?thesis by (simp add: pgs2)
  qed
  have le2: "pend (vs h2) ?s xs \<le> pg (vs h2) c" "pend (vs h2) ?s xs < 2 ^ 64"
    using le pg_bound [of ?z c] by (simp_all add: pe pgs2)
  obtain h3 where h3: "vmar_gap_update c h2 = Some h3" "same_shape h2 h3" "gaps.linked_tree h3 ?root t1"
    "gap_frame (set (xs @ c # ys)) (vs h2) (vs h3)" "unat (vm_gap (vs h3) c) = pg ?z c - pend ?z ?s xs"
    "\<forall>v. v \<noteq> c \<longrightarrow> vm_gap (vs h3) v = vm_gap (vs h2) v"
    using gap_update_ok [OF t2 h1(4) z0 par le2] by (auto simp: pe pgs2)
  note same3 = gap_frame_rest [OF h3(4)]
  have nx: "vmar_next h3 c = (case ys of [] \<Rightarrow> 0 | y # _ \<Rightarrow> y)"
    using links_neighbours(2) [OF linked_tree_facts(4) [OF h3(3) h1(4)] z0 linked_tree_facts(2) [OF h3(3) h1(4)]] .
  have pe3: "pend (vs h3) ?s us = pend ?z ?s us" for us by (rule pend_cong) (simp add: pgs2 same3)
  have "\<exists>h4. (if vmar_next h3 c \<noteq> 0 then vmar_gap_update (vmar_next h3 c) h3 else Some h3) = Some h4 \<and>
    same_shape h3 h4 \<and> gaps.linked_tree h4 ?root t1 \<and> gap_frame (set (xs @ c # ys)) (vs h3) (vs h4) \<and>
    packed (vs h4) ?s (xs @ c # ys)"
  proof (cases ys)
    case Nil
    have "packed (vs h3) ?s xs = packed ?z ?s xs"
    proof (rule packed_cong)
      fix d assume "d \<in> set xs"
      then have "d \<noteq> c" using c(3) h1(2) by auto
      then show "pg (vs h3) d = pg ?z d \<and> pn (vs h3) d = pn ?z d \<and> vm_gap (vs h3) d = vm_gap ?z d"
        using h3(6) gap2 by (simp add: pgs2 same3)
    qed
    then have "packed (vs h3) ?s (xs @ [c])"
      using pxs(1) h3(5) le rng(1) pe3 by (simp add: pgs2 same3)
    moreover have "gap_frame (set (xs @ c # ys)) (vs h3) (vs h3)"
      unfolding gap_frame_def by (intro exI [of _ "vm_gap (vs h3)"] exI [of _ "vm_max_gap (vs h3)"]) simp
    ultimately show ?thesis using nx Nil h3(3) by simp
  next
    case (Cons y ws)
    have y0: "y \<noteq> 0" using z0 Cons by simp
    have l: "xs @ c # ys = (xs @ [c]) @ y # ws" using Cons by simp
    have yc: "pg_end ?z c \<le> pg ?z y" using h1(6) Cons by simp
    have "pend (vs h3) ?s (xs @ [c]) = pg_end ?z c" by (simp add: pgs2 same3)
    then have le3: "pend (vs h3) ?s (xs @ [c]) \<le> pg (vs h3) y" "pend (vs h3) ?s (xs @ [c]) < 2 ^ 64"
      using yc b(2) by (simp_all add: pgs2 same3)
    have par3: "xs @ [c] = [] \<Longrightarrow> pg (vs h3) (vm_parent (vs h3) y) = ?s" by simp
    obtain h4 where h4: "vmar_gap_update y h3 = Some h4" "same_shape h3 h4" "gaps.linked_tree h4 ?root t1"
      "gap_frame (set (xs @ c # ys)) (vs h3) (vs h4)" "unat (vm_gap (vs h4) y) = pg ?z y - pg_end ?z c"
      "\<forall>v. v \<noteq> y \<longrightarrow> vm_gap (vs h4) v = vm_gap (vs h3) v"
      using gap_update_ok [OF h3(3) h1(4) [unfolded l] z0 [unfolded l] par3 le3]
      unfolding l by (auto simp: pgs2 same3)
    note same4 = gap_frame_rest [OF h4(4)]
    have pe4: "pend (vs h4) ?s us = pend ?z ?s us" for us by (rule pend_cong) (simp add: pgs2 same3 same4)
    have dist: "distinct (xs @ c # y # ws)"
      using linked_tree_facts(1) [OF h3(3) h1(4)] Cons by simp
    have g: "vm_gap (vs h4) v = vm_gap ?z v" if "v \<in> set xs \<union> set ws" for v
    proof -
      have "v \<noteq> y" "v \<noteq> c" using that dist by auto
      then show ?thesis using h4(6) h3(6) gap2 by simp
    qed
    have gc: "unat (vm_gap (vs h4) c) = pg ?z c - pend ?z ?s xs"
      using h4(6) h3(5) dist by auto
    have "packed (vs h4) ?s xs = packed ?z ?s xs"
      by (rule packed_cong) (use g in \<open>auto simp: pgs2 same3 same4\<close>)
    moreover have "packed (vs h4) (pg_end ?z y) ws = packed ?z (pg_end ?z y) ws"
      by (rule packed_cong) (use g in \<open>auto simp: pgs2 same3 same4\<close>)
    ultimately have "packed (vs h4) ?s (xs @ c # ys)"
      using pxs le rng(1) yc gc h4(5) pe4 Cons by (simp add: pgs2 same3 same4)
    then show ?thesis using nx Cons y0 h4(1-4) by simp
  qed
  then obtain h4 where h4: "(if vmar_next h3 c \<noteq> 0 then vmar_gap_update (vmar_next h3 c) h3 else Some h3) = Some h4"
    "same_shape h3 h4" "gaps.linked_tree h4 ?root t1" "gap_frame (set (xs @ c # ys)) (vs h3) (vs h4)"
    "packed (vs h4) ?s (xs @ c # ys)" by blast
  note same4 = gap_frame_rest [OF h4(4)]
  have run: "vmar_link_internal r c h = Some h4"
    using k(1) c(1) h1(1) h3(1) h4(1)
    unfolding vmar_link_internal_def link_start_def [symmetric] h2_def link_parent_def
    by (simp add: Let_def)
  have pe4: "pend (vs h4) s us = pend ?z s us" for s us by (rule pend_cong) (simp add: pgs2 same3 same4)
  have "pend ?z ?s (xs @ c # ys) \<le> pg_end ?z r"
  proof (cases ys rule: rev_cases)
    case Nil
    then show ?thesis using rng(3) by simp
  next
    case (snoc ws w)
    then show ?thesis using p(2) h1(2) by simp
  qed
  moreover have "\<forall>d\<in>set (xs @ c # ys). vm_parent (vs h4) d = r"
    using k(3) h1(2) by (auto simp: same4 same3 vs2)
  moreover have "vm_kind (vs h4) r = VMAR_KIND_REGION"
    using k(1) gap_frame_rest(4) [OF h1(8)] by (simp add: same4 same3 vs2)
  ultimately have inv: "vregion h4 r (xs @ c # ys)"
    using h4(3,5) h1(4) z0 p(3) pe4 unfolding vregion_def by (auto simp: pgs2 same3 same4)
  have f12: "vlink_frame (set (c # cs)) r h1 h2"
  proof -
    have "vs h2 = (vs h1)\<lparr>vm_gap := vm_gap (vs h1), vm_max_gap := vm_max_gap (vs h1),
      vm_parent := (vm_parent (vs h1))(c := r), vm_unmapped := vm_unmapped (vs h1)\<rparr>"
      using gap_frame_rest(3) [OF h1(8)] by (simp add: vs2)
    moreover have "linked_frame (vmar_node ` set (c # cs)) ?root h1 h2"
      by (rule same_shape_linked_frame) (simp add: same_shape_def h2_def link_parent_def)
    moreover have "\<forall>x. x \<notin> set (c # cs) \<longrightarrow> vm_gap (vs h1) x = vm_gap (vs h1) x \<and>
        vm_max_gap (vs h1) x = vm_max_gap (vs h1) x \<and>
        ((vm_parent (vs h1))(c := r)) x = vm_parent (vs h1) x \<and> vm_unmapped (vs h1) x = vm_unmapped (vs h1) x"
      by simp
    ultimately show ?thesis unfolding vlink_frame_def by blast
  qed
  have "vlink_frame (set (c # cs)) r h h4"
    by (rule vlink_frame_trans [OF vlink_frame_trans [OF vlink_frame_trans
      [OF gap_frame_vlink [OF h1(7,8)] f12]
        gap_frame_vlink [OF same_shape_linked_frame [OF h3(2)] h3(4) [unfolded S]]]
        gap_frame_vlink [OF same_shape_linked_frame [OF h4(2)] h4(4) [unfolded S]]])
  moreover have "vm_unmapped (vs h4) = vm_unmapped ?z"
    using gap_frame_rest(8) [OF h1(8)] by (simp add: same4 same3 vs2)
  ultimately show ?thesis using run h1(2) inv by blast
qed

end
