(* ===== verification/Vmar_Unlink.thy ===== *)
theory Vmar_Unlink
  imports Vmar_Link
begin

text \<open>Unlinking a vmar from its region, and the searches of a region.\<close>

section \<open>Unlinking\<close>

definition unlink_finish :: "ptr \<Rightarrow> kstate \<Rightarrow> kstate" where
  "unlink_finish c h = on_vs (\<lambda>z. z\<lparr>vm_parent := (vm_parent z)(c := 0),
     vm_unmapped := (vm_unmapped z)(c := True)\<rparr>) h"

lemma unlink_finish_tree:
  assumes "gaps.linked_tree h root t" shows "gaps.linked_tree (unlink_finish c h) root t"
proof (rule gaps.linked_shape [OF _ _ assms])
  show "same_shape h (unlink_finish c h)" by (simp add: same_shape_def unlink_finish_def)
  have "aug_tree gaps.max_ok (vs (unlink_finish c h)) t = aug_tree gaps.max_ok (vs h) t"
    by (rule aug_tree_cong2) (rule max_ok_fields; simp add: unlink_finish_def)
  then show "aug_tree gaps.max_ok (vs (unlink_finish c h)) t"
    using assms unfolding gaps.linked_tree_def aug_rb_def by simp
qed

lemma gap_frame_refl: "gap_frame S z z"
  unfolding gap_frame_def by (intro exI [of _ "vm_gap z"] exI [of _ "vm_max_gap z"]) simp

text \<open>The follower, if any, gets the gap of both.\<close>

lemma unlink_next:
  assumes t: "gaps.linked_tree h root t" "addrs t = map vmar_node (xs @ ys)"
    and z: "0 \<notin> set (xs @ ys)" and s: "pg (vs h) r = s"
    and par: "\<forall>d\<in>set (xs @ ys). vm_parent (vs h) d = r"
    and p: "packed (vs h) s xs" "\<forall>y\<in>set ys. pend (vs h) s xs \<le> pg (vs h) y"
      "ys \<noteq> [] \<longrightarrow> packed (vs h) (pg_end (vs h) (hd ys)) (tl ys) \<and> 0 < pn (vs h) (hd ys)"
  shows "\<exists>h'. (if ys \<noteq> [] then vmar_gap_update (hd ys) h else Some h) = Some h' \<and> same_shape h h' \<and>
    gaps.linked_tree h' root t \<and> gap_frame (set (xs @ ys)) (vs h) (vs h') \<and> packed (vs h') s (xs @ ys)"
proof (cases ys)
  case Nil
  then show ?thesis using t p gap_frame_refl by simp
next
  case (Cons y ws)
  have par': "xs = [] \<Longrightarrow> pg (vs h) (vm_parent (vs h) y) = s" using par s Cons by simp
  have le: "pend (vs h) s xs \<le> pg (vs h) y" "pend (vs h) s xs < 2 ^ 64"
    using p(2) pg_bound [of "vs h" y] Cons by auto
  obtain h' where h': "vmar_gap_update y h = Some h'" "same_shape h h'" "gaps.linked_tree h' root t"
    "gap_frame (set (xs @ ys)) (vs h) (vs h')" "unat (vm_gap (vs h') y) = pg (vs h) y - pend (vs h) s xs"
    "\<forall>v. v \<noteq> y \<longrightarrow> vm_gap (vs h') v = vm_gap (vs h) v"
    using gap_update_ok [OF t(1) t(2) [unfolded Cons] z [unfolded Cons] par' le] unfolding Cons by blast
  note same = gap_frame_rest [OF h'(4)]
  have dist: "distinct (xs @ y # ws)" using linked_tree_facts(1) [OF t] Cons by simp
  have g: "vm_gap (vs h') v = vm_gap (vs h) v" if "v \<in> set xs \<union> set ws" for v
    using h'(6) that dist by auto
  have "packed (vs h') s xs = packed (vs h) s xs"
    by (rule packed_cong) (use g in \<open>simp add: same\<close>)
  moreover have "packed (vs h') (pg_end (vs h) y) ws = packed (vs h) (pg_end (vs h) y) ws"
    by (rule packed_cong) (use g in \<open>simp add: same\<close>)
  moreover have "pend (vs h') s xs = pend (vs h) s xs" by (rule pend_cong) (simp add: same)
  ultimately have "packed (vs h') s (xs @ ys)" using p h'(5) le(1) Cons by (simp add: same)
  then show ?thesis using h'(1-4) Cons by simp
qed

lemma vmar_unlink_ok:
  assumes r: "vregion h r (xs @ c # ys)" and cr: "c \<noteq> r"
  shows "\<exists>h'. vmar_unlink c r h = Some h' \<and> vregion h' r (xs @ ys) \<and>
    vlink_frame (set (xs @ c # ys)) r h h' \<and> vm_parent (vs h') c = 0 \<and>
    vm_unmapped (vs h') = (vm_unmapped (vs h))(c := True)"
proof -
  let ?z = "vs h" and ?s = "pg (vs h) r" and ?root = "vmar_children r" and ?cs = "xs @ c # ys"
  obtain t where t: "gaps.linked_tree h ?root t" "addrs t = map vmar_node ?cs"
    and p: "packed ?z ?s ?cs" "pend ?z ?s ?cs \<le> pg_end ?z r" "pg_end ?z r \<le> 2 ^ 52"
    and k: "vm_kind ?z r = VMAR_KIND_REGION" "0 \<notin> set ?cs" "\<forall>d\<in>set ?cs. vm_parent ?z d = r"
    using r unfolding vregion_def by blast
  note lt = linked_tree_facts [OF t]
  have nx: "vmar_next h c = (case ys of [] \<Rightarrow> 0 | y # _ \<Rightarrow> y)"
    using links_neighbours(2) [OF lt(4) k(2) lt(2)] .
  have "addrs t = map vmar_node xs @ vmar_node c # map vmar_node ys" using t(2) by simp
  from gaps.rb_erase_augmented_linked_ok [OF t(1) this, folded vmar_gap_callbacks_def]
  obtain b h1 t1 where h1: "rb_erase_augmented_linked (vmar_node c) ?root vmar_gap_callbacks h = Some (b, h1)"
    "gaps.linked_tree h1 ?root t1" "addrs t1 = map vmar_node (xs @ ys)"
    "linked_frame (set (addrs t)) ?root h h1" "gaps.max_keep (set (addrs t)) ?z (vs h1)"
    by auto
  have f1: "gap_frame (set ?cs) ?z (vs h1)"
    using h1(5) unfolding t(2) by (intro keep_gap_frame) (simp add: image_Un)
  note same1 = gap_frame_rest [OF f1]
  have gap1: "vm_gap (vs h1) = vm_gap ?z"
    using h1(5) unfolding gaps.max_keep_def vmar_aug_upd_def by auto
  have pk: "packed (vs h1) s us = packed ?z s us" for s us by (rule packed_cong) (simp add: same1 gap1)
  have pe: "pend (vs h1) s us = pend ?z s us" for s us by (rule pend_cong) (simp add: same1)
  have z0: "0 \<notin> set (xs @ ys)" using k(2) by simp
  have s1: "pg (vs h1) r = ?s" by (simp add: same1)
  have par1: "\<forall>d\<in>set (xs @ ys). vm_parent (vs h1) d = r" using k(3) by (simp add: same1)
  have pp: "packed ?z ?s xs" "pend ?z ?s xs \<le> pg ?z c" "packed ?z (pg_end ?z c) ys" using p(1) by simp_all
  have ge: "pend ?z ?s xs \<le> pg ?z y" if "y \<in> set ys" for y
    using packed_mem [OF pp(3) that] pp(2) by (simp add: pg_end_def)
  have q1: "\<forall>y\<in>set ys. pend (vs h1) ?s xs \<le> pg (vs h1) y" using ge by (simp add: pe same1)
  have q2: "ys \<noteq> [] \<longrightarrow> packed (vs h1) (pg_end (vs h1) (hd ys)) (tl ys) \<and> 0 < pn (vs h1) (hd ys)"
    using pp(3) by (cases ys) (simp_all add: pk same1)
  have q0: "packed (vs h1) ?s xs" using pp(1) pk by simp
  obtain h2 where h2: "(if ys \<noteq> [] then vmar_gap_update (hd ys) h1 else Some h1) = Some h2" "same_shape h1 h2"
    "gaps.linked_tree h2 ?root t1" "gap_frame (set (xs @ ys)) (vs h1) (vs h2)" "packed (vs h2) ?s (xs @ ys)"
    using unlink_next [OF h1(2,3) z0 s1 par1 q0 q1 q2] by blast
  note same2 = gap_frame_rest [OF h2(4)]
  define h3 where "h3 = unlink_finish c h2"
  have run: "vmar_unlink c r h = Some h3"
  proof -
    have "(if vmar_next h c \<noteq> 0 then vmar_gap_update (vmar_next h c) h1 else Some h1) = Some h2"
      using h2(1) nx z0 by (cases ys) auto
    then show ?thesis using h1(1) unfolding vmar_unlink_def h3_def unlink_finish_def by (simp add: Let_def)
  qed
  have vs3: "vs h3 = (vs h2)\<lparr>vm_parent := (vm_parent ?z)(c := 0), vm_unmapped := (vm_unmapped ?z)(c := True)\<rparr>"
    by (simp add: h3_def unlink_finish_def same2 same1)
  have pgs: "pg (vs h3) = pg ?z" "pn (vs h3) = pn ?z" "pg_end (vs h3) = pg_end ?z" "vm_gap (vs h3) = vm_gap (vs h2)"
    using same1(5-7) same2(5-7) by (simp_all add: vs3 pg_def pn_def pg_end_def vmar_first_page_def fun_eq_iff)
  have "packed (vs h3) ?s (xs @ ys) = packed (vs h2) ?s (xs @ ys)"
    by (rule packed_cong) (simp add: pgs same2 same1)
  moreover have "pend (vs h3) s us = pend ?z s us" for s us by (rule pend_cong) (simp add: pgs)
  moreover have "pend ?z ?s (xs @ ys) \<le> pg_end ?z r"
  proof (cases ys rule: rev_cases)
    case Nil
    then show ?thesis using p(2) pp(2) by (simp add: pg_end_def)
  next
    case (snoc ws w)
    then show ?thesis using p(2) by simp
  qed
  moreover have "c \<notin> set (xs @ ys)" using lt(1) by simp
  then have "\<forall>d\<in>set (xs @ ys). vm_parent (vs h3) d = r" using k(3) by (auto simp: vs3)
  moreover have "vm_kind (vs h3) r = VMAR_KIND_REGION" using k(1) by (simp add: vs3 same2 same1)
  moreover have "gaps.linked_tree h3 ?root t1" unfolding h3_def by (rule unlink_finish_tree [OF h2(3)])
  ultimately have inv: "vregion h3 r (xs @ ys)"
    using h2(5) h1(3) z0 p(3) unfolding vregion_def by (auto simp: pgs)
  have lf: "linked_frame (vmar_node ` set ?cs) ?root h h1" using h1(4) unfolding t(2) by (simp add: image_Un)
  have f23: "vlink_frame (set ?cs) r h2 h3"
  proof -
    have "vs h3 = (vs h2)\<lparr>vm_gap := vm_gap (vs h2), vm_max_gap := vm_max_gap (vs h2),
      vm_parent := (vm_parent (vs h2))(c := 0), vm_unmapped := (vm_unmapped (vs h2))(c := True)\<rparr>"
      by (simp add: vs3 same2 same1)
    moreover have "linked_frame (vmar_node ` set ?cs) ?root h2 h3"
      by (rule same_shape_linked_frame) (simp add: same_shape_def h3_def unlink_finish_def)
    moreover have "\<forall>x. x \<notin> set ?cs \<longrightarrow> vm_gap (vs h2) x = vm_gap (vs h2) x \<and>
        vm_max_gap (vs h2) x = vm_max_gap (vs h2) x \<and>
        ((vm_parent (vs h2))(c := 0)) x = vm_parent (vs h2) x \<and>
        ((vm_unmapped (vs h2))(c := True)) x = vm_unmapped (vs h2) x"
      by simp
    ultimately show ?thesis unfolding vlink_frame_def by blast
  qed
  have "gap_frame (set ?cs) (vs h1) (vs h2)" using h2(4) by (rule gap_frame_mono) auto
  then have "vlink_frame (set ?cs) r h h3"
    by (rule vlink_frame_trans [OF vlink_frame_trans [OF gap_frame_vlink [OF lf f1]
      gap_frame_vlink [OF same_shape_linked_frame [OF h2(2)]]] f23])
  then show ?thesis using run inv by (simp add: vs3)
qed

end
