(* ===== verification/Vmar_Place.thy ===== *)
theory Vmar_Place
  imports Vmar_Unlink
begin

text \<open>The searches of a region: the child at an address, the first gap that fits, and the place of
  a new vmar.\<close>

section \<open>The child at an address\<close>

lemma vregion_tree:
  assumes "vregion h r cs"
  obtains t where "gaps.linked_tree h (vmar_children r) t" "addrs t = map vmar_node cs"
    "rb_tree h (vmar_children r) t"
  using assms linked_tree_facts(3) unfolding vregion_def by blast

lemma vregion_facts:
  assumes "vregion h r cs"
  shows "packed (vs h) (pg (vs h) r) cs" "pend (vs h) (pg (vs h) r) cs \<le> pg_end (vs h) r"
    "pg_end (vs h) r \<le> 2 ^ 52" "0 \<notin> set cs" "vm_kind (vs h) r = VMAR_KIND_REGION" "distinct cs"
    "\<forall>c\<in>set cs. vmar_node c \<noteq> 0"
  using assms linked_tree_facts unfolding vregion_def by blast+

definition vpage :: "ptr \<Rightarrow> nat" where "vpage a = unat (drop_bit PAGE_SHIFT a :: u64)"

lemma vmar_find_internal_ok:
  assumes r: "vregion h r cs"
  shows "\<exists>v. vmar_find_internal h r a = Some v \<and>
    (if v = 0 then \<forall>c\<in>set cs. \<not> (pg (vs h) c \<le> vpage a \<and> vpage a < pg_end (vs h) c)
     else v \<in> set cs \<and> pg (vs h) v \<le> vpage a \<and> vpage a < pg_end (vs h) v)"
proof -
  let ?z = "vs h" and ?cmp = "vmar_address_find_cmp (vs h) a"
  obtain t where t: "addrs t = map vmar_node cs" "rb_tree h (vmar_children r) t"
    using vregion_tree [OF r] by blast
  note f = vregion_facts [OF r]
  have b: "pg_end ?z c < 2 ^ 64" "0 < pn ?z c" if "c \<in> set cs" for c
    using packed_mem [OF f(1) that] f(2,3) by simp_all
  have cv: "?cmp (vmar_node c) = (if vpage a < pg ?z c then - 1 else if pg_end ?z c \<le> vpage a then 1 else 0)"
    if "c \<in> set cs" for c
    using b(1) [OF that]
    by (simp add: vmar_address_find_cmp_def Let_def vpage_def word_less_nat_alt word_le_nat_alt unat_end_page)
      (simp add: pg_def)
  have "sgn (?cmp (vmar_node d)) \<le> sgn (?cmp (vmar_node c))"
    if "c \<in> set cs" "d \<in> set cs" "pg_end ?z c \<le> pg ?z d" for c d
    using cv [OF that(1)] cv [OF that(2)] that(3) b(2) [OF that(1)] b(2) [OF that(2)]
    by (auto simp: pg_end_def)
  then have "cmp_sorted ?cmp (addrs t)"
    unfolding t(1) cmp_sorted_def sorted_wrt_map
    using sorted_wrt_mono_rel [OF _ packed_sorted [OF f(1)]] by simp
  from rb_find_correct [OF t(2) this] obtain n where n: "rb_find ?cmp h (vmar_children r) = Some n"
    "if n = 0 then \<forall>x\<in>set (addrs t). ?cmp x \<noteq> 0 else n \<in> set (addrs t) \<and> ?cmp n = 0" by blast
  show ?thesis
  proof (cases "n = 0")
    case True
    then have "\<forall>c\<in>set cs. ?cmp (vmar_node c) \<noteq> 0" using n(2) t(1) by simp
    then have "\<forall>c\<in>set cs. \<not> (pg ?z c \<le> vpage a \<and> vpage a < pg_end ?z c)" using cv by fastforce
    with True n(1) f(5) show ?thesis by (simp add: vmar_find_internal_def)
  next
    case False
    then obtain c where c: "c \<in> set cs" "n = vmar_node c" "?cmp (vmar_node c) = 0" using n(2) t(1) by auto
    then have "pg ?z c \<le> vpage a \<and> vpage a < pg_end ?z c" using cv [OF c(1)] by (auto split: if_splits)
    moreover have "c \<noteq> 0" using c(1) f(4) by auto
    ultimately show ?thesis using False n(1) f(5) c by (auto simp: vmar_find_internal_def)
  qed
qed

section \<open>The first gap\<close>

lemma max_fit:
  "aug_tree gaps.max_ok z t \<Longrightarrow> 0 \<notin> set (addrs t) \<Longrightarrow>
   fit_ok (\<lambda>rb. vmar_aug_compute z rb \<ge> k) (\<lambda>rb. vmar_aug_get z rb \<ge> k) t"
proof (induction t)
  case (Nd l x c r)
  have sub: "gaps.val z (Rb_Spec.top s) \<ge> k \<longleftrightarrow> k = 0 \<or> (\<exists>y\<in>set (addrs s). vmar_aug_compute z y \<ge> k)"
    if "fit_ok (\<lambda>rb. vmar_aug_compute z rb \<ge> k) (\<lambda>rb. vmar_aug_get z rb \<ge> k) s" "0 \<notin> set (addrs s)" for s
    using that by (cases s) (auto simp: gaps.val_def)
  have m: "vmar_aug_get z x = max (vmar_aug_compute z x)
      (max (gaps.val z (Rb_Spec.top l)) (gaps.val z (Rb_Spec.top r)))"
    using Nd.prems(1) by (simp add: gaps.max_ok_def)
  have "fit_ok (\<lambda>rb. vmar_aug_compute z rb \<ge> k) (\<lambda>rb. vmar_aug_get z rb \<ge> k) l"
    "fit_ok (\<lambda>rb. vmar_aug_compute z rb \<ge> k) (\<lambda>rb. vmar_aug_get z rb \<ge> k) r"
    using Nd by simp_all
  with sub [of l] sub [of r] Nd.prems(2) show ?case unfolding fit_ok.simps m le_max_iff_disj by auto
qed simp

text \<open>\<open>n\<close> free pages in the region from page \<open>p\<close> on.\<close>

definition free_at :: "vmars \<Rightarrow> ptr \<Rightarrow> ptr list \<Rightarrow> nat \<Rightarrow> nat \<Rightarrow> bool" where
  "free_at z r cs p n \<longleftrightarrow> pg z r \<le> p \<and> p + n \<le> pg_end z r \<and>
     (\<forall>c\<in>set cs. p + n \<le> pg z c \<or> pg_end z c \<le> p)"

lemma no_gap_before:
  "packed z s us \<Longrightarrow> \<forall>c\<in>set us. unat (vm_gap z c) < n \<Longrightarrow> s \<le> p \<Longrightarrow>
   \<forall>c\<in>set us. p + n \<le> pg z c \<or> pg_end z c \<le> p \<Longrightarrow> pend z s us \<le> p"
proof (induction us arbitrary: s)
  case (Cons c us)
  then have "pg_end z c \<le> p" by auto
  with Cons show ?case by auto
qed simp

lemma vmar_find_gap_ok:
  assumes r: "vregion h r cs"
  shows "\<exists>b p. vmar_find_gap h r n = Some (b, p) \<and>
    (if b then free_at (vs h) r cs (unat p) (unat n) \<and> (\<forall>q. free_at (vs h) r cs q (unat n) \<longrightarrow> unat p \<le> q)
     else \<forall>q. \<not> free_at (vs h) r cs q (unat n))"
proof -
  let ?z = "vs h" and ?s = "pg (vs h) r"
  obtain t where t: "gaps.linked_tree h (vmar_children r) t" "addrs t = map vmar_node cs"
    "rb_tree h (vmar_children r) t"
    using vregion_tree [OF r] by blast
  note f = vregion_facts [OF r]
  have n0: "0 \<notin> set (addrs t)" using f(7) t(2) by auto
  let ?fits = "vmar_gap_fits ?z n" and ?sub = "vmar_max_gap_fits ?z n"
  have "fit_ok ?fits ?sub t"
    using max_fit [OF _ n0, of ?z n] t(1)
    by (simp add: gaps.linked_tree_def aug_rb_def vmar_aug_compute_def vmar_aug_get_def vmar_gap_of_def
      vmar_gap_fits_def [abs_def] vmar_max_gap_fits_def [abs_def])
  from rb_first_fit_root [OF t(3) this]
  have ff: "rb_find_first_fit ?fits ?sub h (vmar_children r) = Some (hd0 (filter ?fits (addrs t)))" .
  have fits: "?fits (vmar_node c) \<longleftrightarrow> unat n \<le> unat (vm_gap ?z c)" for c
    by (simp add: vmar_gap_fits_def word_le_nat_alt)
  have flt: "filter ?fits (addrs t) = map vmar_node (filter (\<lambda>c. unat n \<le> unat (vm_gap ?z c)) cs)"
    unfolding t(2) by (simp add: filter_map o_def fits)
  show ?thesis
  proof (cases "\<exists>c\<in>set cs. unat n \<le> unat (vm_gap ?z c)")
    case True
    then obtain us c ws where c: "cs = us @ c # ws" "unat n \<le> unat (vm_gap ?z c)"
      "\<forall>u\<in>set us. \<not> unat n \<le> unat (vm_gap ?z u)"
      using split_list_first_prop [OF True] by blast
    then have "filter (\<lambda>c. unat n \<le> unat (vm_gap ?z c)) cs = c # filter (\<lambda>c. unat n \<le> unat (vm_gap ?z c)) ws"
      by (simp add: filter_empty_conv [THEN iffD2])
    then have "hd0 (filter ?fits (addrs t)) = vmar_node c" using flt by simp
    moreover have "vmar_node c \<noteq> 0" using f(7) c(1) by simp
    ultimately have run: "vmar_find_gap h r n = Some (True, vmar_first_page ?z c - vm_gap ?z c)"
      using ff by (simp add: vmar_find_gap_def Let_def)
    have pk: "packed ?z ?s us" "pend ?z ?s us \<le> pg ?z c" "unat (vm_gap ?z c) = pg ?z c - pend ?z ?s us"
      "packed ?z (pg_end ?z c) ws"
      using f(1) c(1) by simp_all
    have up: "unat (vmar_first_page ?z c - vm_gap ?z c) = pend ?z ?s us"
      using pk(2,3) by (simp add: unat_sub word_le_nat_alt pg_def)
    have e: "pg_end ?z c \<le> pg_end ?z r" using packed_mem [OF f(1), of c] f(2) c(1) by simp
    have "free_at ?z r cs (pend ?z ?s us) (unat n)"
      unfolding free_at_def
    proof (intro conjI ballI)
      show "?s \<le> pend ?z ?s us" by (rule packed_pend [OF pk(1)])
      show "pend ?z ?s us + unat n \<le> pg_end ?z r" using c(2) pk(2,3) e by (simp add: pg_end_def)
      fix d assume "d \<in> set cs"
      then consider "d \<in> set us" | "d = c" | "d \<in> set ws" using c(1) by auto
      then show "pend ?z ?s us + unat n \<le> pg ?z d \<or> pg_end ?z d \<le> pend ?z ?s us"
      proof cases
        case 1 then show ?thesis using packed_mem [OF pk(1)] by simp
      next
        case 2
        have "pend ?z ?s us + unat n \<le> pg ?z c" using c(2) pk(2) unfolding pk(3) by arith
        with 2 show ?thesis by simp
      next
        case 3 then show ?thesis using packed_mem [OF pk(4)] c(2) pk(2,3) by (fastforce simp: pg_end_def)
      qed
    qed
    moreover have "pend ?z ?s us \<le> q" if "free_at ?z r cs q (unat n)" for q
      using that c unfolding free_at_def by (intro no_gap_before [OF pk(1), of "unat n"]) auto
    ultimately show ?thesis using run up by auto
  next
    case False
    then have "filter ?fits (addrs t) = []" using flt by (simp add: filter_empty_conv)
    then have rb0: "rb_find_first_fit ?fits ?sub h (vmar_children r) = Some 0" using ff by (simp add: hd0_def)
    have last: "rb_last h (vmar_children r) = Some (if cs = [] then 0 else vmar_node (last cs))"
      using rb_first_last_correct(2) [OF t(3)] t(2)
      by (cases cs rule: rev_cases) simp_all
    define w where "w = (if cs = [] then vmar_first_page ?z r else vmar_end_page ?z (last cs))"
    have tg: "vmar_tail_gap h r = Some (vmar_end_page ?z r - w, w)"
      using last f(7) by (cases "cs = []") (simp_all add: vmar_tail_gap_def w_def Let_def)
    have bnd: "pg_end ?z r < 2 ^ 64" "pend ?z ?s cs < 2 ^ 64" using f(2,3) by simp_all
    have uw: "unat w = pend ?z ?s cs"
    proof (cases cs rule: rev_cases)
      case Nil then show ?thesis by (simp add: w_def pg_def)
    next
      case (snoc us u)
      then show ?thesis using bnd(2) by (simp add: w_def unat_end_page)
    qed
    have ug: "unat (vmar_end_page ?z r - w) = pg_end ?z r - pend ?z ?s cs"
      using f(2) uw bnd(1) by (simp add: unat_sub word_le_nat_alt unat_end_page)
    have low: "pend ?z ?s cs \<le> q" if "free_at ?z r cs q (unat n)" for q
      using that False unfolding free_at_def by (intro no_gap_before [OF f(1), of "unat n"]) auto
    show ?thesis
    proof (cases "n \<le> vmar_end_page ?z r - w")
      case True
      then have le: "pend ?z ?s cs + unat n \<le> pg_end ?z r" using ug f(2) by (simp add: word_le_nat_alt)
      have "free_at ?z r cs (pend ?z ?s cs) (unat n)"
        unfolding free_at_def using packed_pend [OF f(1)] le packed_mem [OF f(1)] by auto
      moreover have "vmar_find_gap h r n = Some (True, w)" using rb0 tg True by (simp add: vmar_find_gap_def)
      ultimately show ?thesis using low uw by auto
    next
      case False
      then have "\<not> pend ?z ?s cs + unat n \<le> pg_end ?z r" using ug f(2) by (auto simp: word_le_nat_alt)
      then have "\<not> free_at ?z r cs q (unat n)" for q using low [of q] unfolding free_at_def by auto
      moreover have "vmar_find_gap h r n = Some (False, 0)" using rb0 tg False by (simp add: vmar_find_gap_def)
      ultimately show ?thesis by auto
    qed
  qed
qed

end
