(* ===== verification/Vmar_Alloc.thy ===== *)
theory Vmar_Alloc
  imports Vmar_Place
begin

text \<open>The place of a new vmar in its region, and allocation: \<open>vmar_find_place\<close> and
  \<open>vmar_allocate_static\<close> against a region seen as a set of free pages.\<close>

section \<open>Changes that a region does not see\<close>

lemma vregion_fields:
  assumes r: "vregion h r cs" and shape: "same_shape h h'"
    and fields: "vm_kind (vs h') = vm_kind (vs h)" "vm_gap (vs h') = vm_gap (vs h)"
      "vm_max_gap (vs h') = vm_max_gap (vs h)" "vm_parent (vs h') = vm_parent (vs h)"
    and pages: "\<And>v. v \<in> insert r (set cs) \<Longrightarrow>
      vm_base (vs h') v = vm_base (vs h) v \<and> vm_page_count (vs h') v = vm_page_count (vs h) v"
  shows "vregion h' r cs"
proof -
  obtain t where t: "gaps.linked_tree h (vmar_children r) t" "addrs t = map vmar_node cs"
    using r unfolding vregion_def by blast
  have "aug_tree gaps.max_ok (vs h') t = aug_tree gaps.max_ok (vs h) t"
    by (rule aug_tree_cong2) (rule max_ok_fields; simp add: fields)
  then have "aug_tree gaps.max_ok (vs h') t"
    using t(1) unfolding gaps.linked_tree_def aug_rb_def by simp
  then have t': "gaps.linked_tree h' (vmar_children r) t" by (rule gaps.linked_shape [OF shape _ t(1)])
  have pg: "pg (vs h') v = pg (vs h) v \<and> pn (vs h') v = pn (vs h) v" if "v \<in> insert r (set cs)" for v
    using pages [OF that] by (simp add: pg_def pn_def vmar_first_page_def)
  then have "pg (vs h') r = pg (vs h) r" "pg_end (vs h') r = pg_end (vs h) r" by (simp_all add: pg_end_def)
  moreover have "packed (vs h') s cs = packed (vs h) s cs" for s
    by (rule packed_cong) (use pg fields in simp)
  moreover have "pend (vs h') s cs = pend (vs h) s cs" for s
    by (rule pend_cong) (use pg in simp)
  ultimately show ?thesis using r t' t(2) fields unfolding vregion_def by auto
qed

text \<open>The range of a vmar outside of the tree.\<close>

definition set_range :: "ptr \<Rightarrow> ptr \<Rightarrow> u64 \<Rightarrow> kstate \<Rightarrow> kstate" where
  "set_range c b n h = set_base c b (set_page_count c n h)"

lemma set_range_simps:
  "vs (set_range c b n h) = (vs h)\<lparr>vm_base := (vm_base (vs h))(c := b),
     vm_page_count := (vm_page_count (vs h))(c := n)\<rparr>"
  by (simp add: set_range_def set_base_def set_page_count_def)

lemma same_shape_range: "same_shape h (set_range c b n h)"
  by (simp add: same_shape_def set_range_def set_base_def set_page_count_def)

lemma set_range_region:
  "vregion h r cs \<Longrightarrow> c \<notin> set cs \<Longrightarrow> c \<noteq> r \<Longrightarrow> vregion (set_range c b n h) r cs"
  by (rule vregion_fields [OF _ same_shape_range]) (auto simp: set_range_simps)

lemma set_range_pages:
  "v \<noteq> c \<Longrightarrow> pg (vs (set_range c b n h)) v = pg (vs h) v \<and> pg_end (vs (set_range c b n h)) v = pg_end (vs h) v"
  "pg (vs (set_range c b n h)) c = vpage b" "pn (vs (set_range c b n h)) c = unat n"
  "pg_end (vs (set_range c b n h)) c = vpage b + unat n"
  by (simp_all add: set_range_simps pg_def pn_def pg_end_def vmar_first_page_def vpage_def)

lemma set_range_free:
  "c \<notin> set cs \<Longrightarrow> c \<noteq> r \<Longrightarrow> free_at (vs (set_range c b n h)) r cs p k = free_at (vs h) r cs p k"
  using set_range_pages(1) [of _ c b n h] unfolding free_at_def by (metis (no_types, lifting))

lemma set_page_count_range: "set_page_count c n h = set_range c (vm_base (vs h) c) n h"
  by (cases h) (simp add: set_range_def set_base_def set_page_count_def on_vs_def)

section \<open>The checks\<close>

lemma check_in_parent_ok:
  assumes "pg_end z r \<le> 2 ^ 52"
  shows "IS_ERROR (vmar_check_in_parent z r c) \<longleftrightarrow> \<not> (pg z r \<le> pg z c \<and> pg_end z c \<le> pg_end z r)"
proof (cases "pg_end z c < 2 ^ 64")
  case True
  then have "unat (vmar_end_page z c) = pg_end z c" "unat (vmar_end_page z r) = pg_end z r"
    using assms by (simp_all add: unat_end_page)
  with True show ?thesis
    by (auto simp: vmar_check_in_parent_def add_overflow_def word_le_nat_alt Let_def
      vmar_end_page_def pg_end_def pg_def pn_def)
next
  case False
  with assms show ?thesis by (auto simp: vmar_check_in_parent_def add_overflow_def pg_end_def pg_def pn_def)
qed

lemma overlap_find_ok:
  assumes r: "vregion h r cs" and c: "pg_end (vs h) c \<le> pg_end (vs h) r" "0 < pn (vs h) c"
  shows "\<exists>n. rb_find (vmar_overlap_find_cmp (vs h) c) h (vmar_children r) = Some n \<and>
    (n = 0 \<longleftrightarrow> (\<forall>d\<in>set cs. pg_end (vs h) c \<le> pg (vs h) d \<or> pg_end (vs h) d \<le> pg (vs h) c))"
proof -
  let ?z = "vs h" and ?cmp = "vmar_overlap_find_cmp (vs h) c"
  obtain t where t: "addrs t = map vmar_node cs" "rb_tree h (vmar_children r) t"
    using vregion_tree [OF r] by blast
  note f = vregion_facts [OF r]
  have b: "pg_end ?z d < 2 ^ 64" if "d \<in> set cs" for d
    using packed_mem [OF f(1) that] f(2,3) by simp
  have bc: "pg_end ?z c < 2 ^ 64" "pend ?z (pg ?z r) cs < 2 ^ 64" using c f(2,3) by simp_all
  have "cmp_sorted ?cmp (addrs t)"
    using overlap_sorted [OF f(1) bc(2,1)] unfolding t(1) vmar_overlap_find_cmp_def [abs_def] .
  from rb_find_correct [OF t(2) this] obtain n where n: "rb_find ?cmp h (vmar_children r) = Some n"
    "if n = 0 then \<forall>x\<in>set (addrs t). ?cmp x \<noteq> 0 else n \<in> set (addrs t) \<and> ?cmp n = 0" by blast
  have cmp: "?cmp (vmar_node d) \<noteq> 0 \<longleftrightarrow> pg_end ?z c \<le> pg ?z d \<or> pg_end ?z d \<le> pg ?z c"
    if "d \<in> set cs" for d
    using compare_ranges [OF bc(1) b [OF that]] by (auto simp: vmar_overlap_find_cmp_def)
  have "n = 0 \<longleftrightarrow> (\<forall>d\<in>set cs. ?cmp (vmar_node d) \<noteq> 0)"
    using n(2) f(7) unfolding t(1) by (auto split: if_splits)
  then show ?thesis using n(1) cmp by auto
qed

section \<open>The place\<close>

text \<open>The page at which \<open>n\<close> pages fit, for an offset: the lowest one, or the one asked for.\<close>

definition place_at :: "vmars \<Rightarrow> ptr \<Rightarrow> ptr list \<Rightarrow> u64 \<Rightarrow> nat \<Rightarrow> nat \<Rightarrow> bool" where
  "place_at z r cs offset n p \<longleftrightarrow> free_at z r cs p n \<and>
     (if offset = VMAR_ANY_OFFSET then \<forall>q. free_at z r cs q n \<longrightarrow> p \<le> q
      else offset AND PAGE_MASK = 0 \<and> unat (vm_base z r) + unat offset < 2 ^ 64 \<and>
           p = vpage (vm_base z r + offset))"

lemma vpage_push:
  assumes "unat (p :: u64) < 2 ^ 52" shows "vpage (push_bit PAGE_SHIFT p) = unat p"
proof -
  have "push_bit PAGE_SHIFT p = p * 4096" by (simp add: PAGE_SHIFT_def push_bit_eq_mult)
  moreover have "unat (p * 4096) = unat p * unat (4096 :: u64)"
    by (rule unat_mult_lem [THEN iffD1]) (use assms in simp)
  ultimately have "unat (push_bit PAGE_SHIFT p) = unat p * 2 ^ 12" by simp
  then show ?thesis unfolding vpage_def unat_drop_bit_eq by (simp add: PAGE_SHIFT_def drop_bit_eq_div)
qed

text \<open>The result of the search: the lowest place, or none.\<close>

lemma find_place_any:
  assumes r: "vregion h r cs" and c: "c \<notin> set cs" "c \<noteq> r" and n: "n \<noteq> 0"
    and live: "\<not> vm_unmapped (vs h) r"
    and True: "offset = VMAR_ANY_OFFSET"
  shows "\<exists>e b. vmar_find_place r c offset n h = Some (e, set_range c b n h) \<and>
    (e = SUCCESS \<and> place_at (vs h) r cs offset (unat n) (vpage b) \<or>
     e = INTERNAL_ERROR \<and> (\<forall>p. \<not> place_at (vs h) r cs offset (unat n) p))"
proof -
  let ?h = "set_page_count c n h"
  have eq: "?h = set_range c (vm_base (vs h) c) n h" by (rule set_page_count_range)
  have r1: "vregion ?h r cs" unfolding eq by (rule set_range_region [OF r c])
  have free: "free_at (vs ?h) r cs p k = free_at (vs h) r cs p k" for p k
    unfolding eq by (rule set_range_free [OF c])
  obtain f p where fp: "vmar_find_gap ?h r n = Some (f, p)"
    "if f then free_at (vs h) r cs (unat p) (unat n) \<and> (\<forall>q. free_at (vs h) r cs q (unat n) \<longrightarrow> unat p \<le> q)
     else \<forall>q. \<not> free_at (vs h) r cs q (unat n)"
    using vmar_find_gap_ok [OF r1, of n] unfolding free by blast
  show ?thesis
  proof (cases f)
    case False
    then have "vmar_find_place r c offset n h = Some (INTERNAL_ERROR, ?h)"
      using True live fp(1) by (simp add: vmar_find_place_def)
    moreover have "\<forall>p. \<not> place_at (vs h) r cs offset (unat n) p"
      using fp(2) False unfolding place_at_def by simp
    ultimately show ?thesis using eq by metis
  next
    case f: True
    have "0 < unat n" using n by (simp add: unat_gt_0)
    then have "unat p < 2 ^ 52"
      using fp(2) f vregion_facts(3) [OF r] unfolding free_at_def by auto
    then have "vpage (push_bit PAGE_SHIFT p) = unat p" by (rule vpage_push)
    moreover have "vmar_find_place r c offset n h = Some (SUCCESS, set_range c (push_bit PAGE_SHIFT p) n h)"
      using True live fp(1) f by (simp add: vmar_find_place_def set_range_def)
    moreover have "place_at (vs h) r cs offset (unat n) (unat p)"
      using f fp(2) True unfolding place_at_def by simp
    ultimately show ?thesis by metis
  qed
qed

text \<open>The bounds and the overlap check of a range that the caller chose.\<close>

lemma find_place_fixed:
  assumes r: "vregion h r cs" and c: "c \<notin> set cs" "c \<noteq> r" and n: "n \<noteq> 0"
    and live: "\<not> vm_unmapped (vs h) r"
    and False: "offset \<noteq> VMAR_ANY_OFFSET"
  shows "\<exists>e b. vmar_find_place r c offset n h = Some (e, set_range c b n h) \<and>
    (e = SUCCESS \<and> place_at (vs h) r cs offset (unat n) (vpage b) \<or>
     e = INTERNAL_ERROR \<and> (\<forall>p. \<not> place_at (vs h) r cs offset (unat n) p))"
proof -
  let ?b = "vm_base (vs h) r + offset"
  let ?h = "set_range c ?b n h"
  have bad: "\<forall>p. \<not> place_at (vs h) r cs offset (unat n) p" if "offset AND PAGE_MASK \<noteq> 0 \<or> add_overflow (vm_base (vs h) r) offset"
    using that False by (auto simp: place_at_def add_overflow_def)
  show ?thesis
  proof (cases "offset AND PAGE_MASK \<noteq> 0 \<or> add_overflow (vm_base (vs h) r) offset")
    case True
    then have "vmar_find_place r c offset n h = Some (INTERNAL_ERROR, set_page_count c n h)"
      using live False c(2) True by (auto simp: vmar_find_place_def set_page_count_range set_range_simps Let_def)
    with bad [OF True] show ?thesis unfolding set_page_count_range by blast
  next
    case ok: False
    have base: "vm_base (vs (set_page_count c n h)) r = vm_base (vs h) r"
      using c(2) by (simp add: set_page_count_range set_range_simps)
    have "unat (vm_base (vs h) r) + unat offset < 2 ^ 64" "offset AND PAGE_MASK = 0"
      using ok by (simp_all add: add_overflow_def)
    then have place: "place_at (vs h) r cs offset (unat n) p \<longleftrightarrow> p = vpage ?b \<and> free_at (vs h) r cs p (unat n)" for p
      using False unfolding place_at_def by auto
    have run: "vmar_find_place r c offset n h =
        (let err = vmar_check_in_parent (vs ?h) r c
         in if IS_ERROR err then Some (err, ?h)
            else do {
              rb \<leftarrow> rb_find (vmar_overlap_find_cmp (vs ?h) c) ?h (vmar_children r);
              if rb \<noteq> 0 then Some (INTERNAL_ERROR, ?h) else Some (SUCCESS, ?h) })"
      using live False ok by (simp add: vmar_find_place_def base set_range_def [symmetric] Let_def)
    have r1: "vregion ?h r cs" by (rule set_range_region [OF r c])
    have err: "IS_ERROR (vmar_check_in_parent (vs ?h) r c) \<longleftrightarrow>
        \<not> (pg (vs h) r \<le> vpage ?b \<and> vpage ?b + unat n \<le> pg_end (vs h) r)"
      unfolding check_in_parent_ok [OF vregion_facts(3) [OF r1], of c] set_range_pages(2-4)
        set_range_pages(1) [OF c(2) [symmetric], THEN conjunct1] set_range_pages(1) [OF c(2) [symmetric], THEN conjunct2] ..
    show ?thesis
    proof (cases "IS_ERROR (vmar_check_in_parent (vs ?h) r c)")
      case True
      then have "vmar_check_in_parent (vs ?h) r c = INTERNAL_ERROR"
        by (auto simp: vmar_check_in_parent_def Let_def split: if_splits)
      then have res: "vmar_find_place r c offset n h = Some (INTERNAL_ERROR, ?h)" unfolding run by simp
      have "\<not> free_at (vs h) r cs (vpage ?b) (unat n)" using True unfolding err free_at_def by blast
      then have "\<forall>p. \<not> place_at (vs h) r cs offset (unat n) p" unfolding place by simp
      then show ?thesis by (intro exI conjI disjI2) (rule res, simp_all)
    next
      case inside: False
      have fit: "pg (vs h) r \<le> vpage ?b" "vpage ?b + unat n \<le> pg_end (vs h) r"
        using inside unfolding err by blast+
      have "pg_end (vs ?h) c \<le> pg_end (vs ?h) r" "0 < pn (vs ?h) c"
        using fit(2) n set_range_pages(1) [OF c(2) [symmetric], of ?b n h]
        by (simp_all add: set_range_pages(3,4) unat_gt_0)
      from overlap_find_ok [OF r1 this]
      obtain m where m: "rb_find (vmar_overlap_find_cmp (vs ?h) c) ?h (vmar_children r) = Some m"
        "m = 0 \<longleftrightarrow> (\<forall>d\<in>set cs. pg_end (vs ?h) c \<le> pg (vs ?h) d \<or> pg_end (vs ?h) d \<le> pg (vs ?h) c)" by blast
      have "(\<forall>d\<in>set cs. pg_end (vs ?h) c \<le> pg (vs ?h) d \<or> pg_end (vs ?h) d \<le> pg (vs ?h) c) \<longleftrightarrow>
          (\<forall>d\<in>set cs. vpage ?b + unat n \<le> pg (vs h) d \<or> pg_end (vs h) d \<le> vpage ?b)"
      proof (rule ball_cong [OF refl])
        fix d assume "d \<in> set cs"
        then have "d \<noteq> c" using c(1) by blast
        then show "(pg_end (vs ?h) c \<le> pg (vs ?h) d \<or> pg_end (vs ?h) d \<le> pg (vs ?h) c) \<longleftrightarrow>
          (vpage ?b + unat n \<le> pg (vs h) d \<or> pg_end (vs h) d \<le> vpage ?b)"
          using set_range_pages(1) [of d c ?b n h] set_range_pages(2-4) [of c ?b n h] by simp
      qed
      note ov = this
      have m0: "m = 0 \<longleftrightarrow> free_at (vs h) r cs (vpage ?b) (unat n)"
        unfolding m(2) ov free_at_def using fit by simp
      have res: "vmar_find_place r c offset n h = Some (if m \<noteq> 0 then INTERNAL_ERROR else SUCCESS, ?h)"
        using inside m(1) unfolding run by (simp add: Let_def)
      show ?thesis
      proof (cases "m = 0")
        case True
        then have "place_at (vs h) r cs offset (unat n) (vpage ?b)" unfolding place m0 by simp
        then show ?thesis using True by (intro exI conjI disjI1) (simp add: res, simp_all)
      next
        case False
        then have "\<forall>p. \<not> place_at (vs h) r cs offset (unat n) p" unfolding place m0 by simp
        then show ?thesis using False by (intro exI conjI disjI2) (simp add: res, simp_all)
      qed
    qed
  qed
qed

lemma vmar_find_place_ok:
  assumes r: "vregion h r cs" and c: "c \<notin> set cs" "c \<noteq> r" and n: "n \<noteq> 0"
    and live: "\<not> vm_unmapped (vs h) r"
  shows "\<exists>e b. vmar_find_place r c offset n h = Some (e, set_range c b n h) \<and>
    (e = SUCCESS \<and> place_at (vs h) r cs offset (unat n) (vpage b) \<or>
     e = INTERNAL_ERROR \<and> (\<forall>p. \<not> place_at (vs h) r cs offset (unat n) p))"
  using find_place_any [OF assms] find_place_fixed [OF assms] by blast

section \<open>Allocation\<close>

definition set_vmar_lock :: "u64 \<Rightarrow> kstate \<Rightarrow> kstate" where
  "set_vmar_lock l h = on_vs (\<lambda>z. z\<lparr>m_vmar_lock := l\<rparr>) h"

lemma set_vmar_lock_region [simp]: "vregion (set_vmar_lock l h) r cs = vregion h r cs"
proof
  have sh: "same_shape (set_vmar_lock l h) h" "same_shape h (set_vmar_lock l h)"
    by (simp_all add: same_shape_def set_vmar_lock_def)
  show "vregion h r cs" if "vregion (set_vmar_lock l h) r cs"
    by (rule vregion_fields [OF that sh(1)]) (simp_all add: set_vmar_lock_def)
  show "vregion (set_vmar_lock l h) r cs" if "vregion h r cs"
    by (rule vregion_fields [OF that sh(2)]) (simp_all add: set_vmar_lock_def)
qed

lemma set_vmar_lock_fields [simp]:
  "vs (set_vmar_lock l h) = (vs h)\<lparr>m_vmar_lock := l\<rparr>"
  by (simp add: set_vmar_lock_def)

lemma lock_fields [simp]:
  "free_at (z\<lparr>m_vmar_lock := l\<rparr>) r cs = free_at z r cs"
  "place_at (z\<lparr>m_vmar_lock := l\<rparr>) r cs = place_at z r cs"
  "pg (z\<lparr>m_vmar_lock := l\<rparr>) = pg z" "pn (z\<lparr>m_vmar_lock := l\<rparr>) = pn z"
  "pg_end (z\<lparr>m_vmar_lock := l\<rparr>) = pg_end z"
  by (simp_all add: fun_eq_iff place_at_def free_at_def pg_end_def pg_def pn_def vmar_first_page_def)

lemma vmar_lock_free [simp]:
  "m_vmar_lock (vs h) = 0 \<Longrightarrow> vmar_lock_exclusive h = Some (set_vmar_lock RWLOCK_WRITER_BIT h)"
  by (simp add: vmar_lock_exclusive_def set_vmar_lock_def rwlock_defs)

lemma vmar_unlock_held [simp]:
  "m_vmar_lock (vs h) = RWLOCK_WRITER_BIT \<Longrightarrow> vmar_unlock_exclusive h = Some (set_vmar_lock 0 h)"
  by (simp add: vmar_unlock_exclusive_def set_vmar_lock_def rwlock_defs)

lemma vlink_frame_lock: "vlink_frame S r h h' \<Longrightarrow> m_vmar_lock (vs h') = m_vmar_lock (vs h)"
  unfolding vlink_frame_def by auto

text \<open>A vmar that may be linked.\<close>

definition linkable :: "kstate \<Rightarrow> ptr \<Rightarrow> ptr list \<Rightarrow> ptr \<Rightarrow> bool" where
  "linkable h r cs c \<longleftrightarrow> vm_parent (vs h) c = 0 \<and> c \<noteq> 0 \<and> c \<notin> set cs \<and> c \<noteq> r \<and>
     vmar_node c \<noteq> 0 \<and> aligned4 (vmar_node c)"

lemma allocate_static_ok:
  assumes r: "vregion h r cs" and c: "linkable h r cs c" and n: "n \<noteq> 0"
    and live: "\<not> vm_unmapped (vs h) r" and lock: "m_vmar_lock (vs h) = 0"
  shows "\<exists>e h'. vmar_allocate_static r c offset n h = Some (e, h') \<and> m_vmar_lock (vs h') = 0 \<and>
    (e = SUCCESS \<and> place_at (vs h) r cs offset (unat n) (pg (vs h') c) \<and> pn (vs h') c = unat n \<and>
       (\<exists>xs ys. cs = xs @ ys \<and> vregion h' r (xs @ c # ys)) \<and>
       (\<forall>v. v \<noteq> c \<longrightarrow> pg (vs h') v = pg (vs h) v \<and> pn (vs h') v = pn (vs h) v) \<or>
     e = INTERNAL_ERROR \<and> (\<forall>p. \<not> place_at (vs h) r cs offset (unat n) p) \<and> vregion h' r cs)"
proof -
  let ?h = "set_vmar_lock RWLOCK_WRITER_BIT h"
  note cc = c [unfolded linkable_def]
  have k: "vm_kind (vs h) r = VMAR_KIND_REGION" by (rule vregion_facts(5) [OF r])
  have r0: "vregion ?h r cs" using r by simp
  obtain e b where eb: "vmar_find_place r c offset n ?h = Some (e, set_range c b n ?h)"
    "e = SUCCESS \<and> place_at (vs h) r cs offset (unat n) (vpage b) \<or>
     e = INTERNAL_ERROR \<and> (\<forall>p. \<not> place_at (vs h) r cs offset (unat n) p)"
    using vmar_find_place_ok [OF r0, of c n offset] cc n live by auto
  let ?h1 = "set_range c b n ?h"
  have r1: "vregion ?h1 r cs" by (rule set_range_region [OF r0]) (use cc in simp_all)
  have l1: "m_vmar_lock (vs ?h1) = RWLOCK_WRITER_BIT" by (simp add: set_range_simps)
  show ?thesis
  proof (cases "e = SUCCESS")
    case False
    then have "vmar_allocate_static r c offset n h = Some (e, set_vmar_lock 0 ?h1)"
      using k n lock eb(1) l1 by (simp add: vmar_allocate_static_def IS_ERROR_def)
    then show ?thesis using False eb(2) r1 by auto
  next
    case True
    then have place: "place_at (vs h) r cs offset (unat n) (vpage b)" using eb(2) by auto
    have rp: "pg (vs ?h1) v = pg (vs h) v" "pg_end (vs ?h1) v = pg_end (vs h) v" "pn (vs ?h1) v = pn (vs h) v"
      if "v \<noteq> c" for v
      using set_range_pages(1) [OF that, of b n ?h] that by (simp_all add: set_range_simps pn_def)
    have cp: "pg (vs ?h1) c = vpage b" "pn (vs ?h1) c = unat n" "pg_end (vs ?h1) c = vpage b + unat n"
      by (simp_all add: set_range_pages)
    have rc: "r \<noteq> c" using cc by blast
    have fr: "free_at (vs h) r cs (vpage b) (unat n)" using place by (simp add: place_at_def)
    have c1: "vm_parent (vs ?h1) c = 0" using cc by (simp add: set_range_simps)
    have rng: "0 < pn (vs ?h1) c" "pg (vs ?h1) r \<le> pg (vs ?h1) c" "pg_end (vs ?h1) c \<le> pg_end (vs ?h1) r"
      using fr rp [OF rc] n by (simp_all add: cp free_at_def unat_gt_0)
    have dj: "\<forall>d\<in>set cs. pg_end (vs ?h1) c \<le> pg (vs ?h1) d \<or> pg_end (vs ?h1) d \<le> pg (vs ?h1) c"
    proof
      fix d assume "d \<in> set cs"
      then show "pg_end (vs ?h1) c \<le> pg (vs ?h1) d \<or> pg_end (vs ?h1) d \<le> pg (vs ?h1) c"
        using fr cc rp [of d] unfolding free_at_def cp by metis
    qed
    obtain h2 xs ys where h2: "vmar_link_internal r c ?h1 = Some h2" "cs = xs @ ys"
      "vregion h2 r (xs @ c # ys)" "vlink_frame (set (c # cs)) r ?h1 h2"
      using vmar_link_internal_ok [OF r1 c1 _ _ _ _ _ rng dj] cc by blast
    have l2: "m_vmar_lock (vs h2) = RWLOCK_WRITER_BIT" using vlink_frame_lock [OF h2(4)] l1 by simp
    have p2: "pg (vs h2) = pg (vs ?h1)" "pn (vs h2) = pn (vs ?h1)"
      using vlink_frame_pages [OF h2(4)] by simp_all
    have "vmar_allocate_static r c offset n h = Some (SUCCESS, set_vmar_lock 0 h2)"
      using k n lock eb(1) True h2(1) l2 by (simp add: vmar_allocate_static_def)
    moreover have "\<forall>v. v \<noteq> c \<longrightarrow> pg (vs h2) v = pg (vs h) v \<and> pn (vs h2) v = pn (vs h) v"
      using rp by (simp add: p2)
    moreover have "\<exists>xs ys. cs = xs @ ys \<and> vregion (set_vmar_lock 0 h2) r (xs @ c # ys)" using h2(2,3) by auto
    ultimately show ?thesis using place
      by (intro exI [of _ SUCCESS] exI [of _ "set_vmar_lock 0 h2"] conjI disjI1) (simp_all add: p2 cp)
  qed
qed

end
