(* ===== verification/Vmar_Props.thy ===== *)
theory Vmar_Props
  imports Vmar_Alloc
begin

text \<open>The properties of the vmars: allocation, linking and unlinking, the searches, and the errors.\<close>

section \<open>A concrete region\<close>

text \<open>The static data before anything runs, and a region at address 2 of 16 pages with no children.
  Pages 0 to 15 are its range.\<close>

definition zero_vmars :: vmars where
  "zero_vmars = \<lparr>ob_kind = (\<lambda>_. OBJECT_KIND_VMAR), ob_ref_count = (\<lambda>_. 0), ob_name = (\<lambda>_. []),
     vm_base = (\<lambda>_. 0), vm_page_count = (\<lambda>_. 0), vm_parent = (\<lambda>_. 0), vm_gap = (\<lambda>_. 0),
     vm_max_gap = (\<lambda>_. 0), vm_kind = (\<lambda>_. VMAR_KIND_REGION), vm_role = (\<lambda>_. VMAR_ROLE_UNKNOWN),
     vm_unmapped = (\<lambda>_. False), vm_locked = (\<lambda>_. False), vm_table_lock = (\<lambda>_. 0),
     g_user_region = 0, g_kernel_region = 0, g_direct_map = 0, g_buddy_bitmap_mapping = 0,
     m_vmar_alloc = 0, m_thread_alloc = 0, m_vmar_lock = 0, phys_mem = empty_mm\<rparr>"

definition region_at_2 :: kstate where
  "region_at_2 = rb_heap.extend
     \<lparr>rb_pc = (\<lambda>_. 0), rb_right = (\<lambda>_. 0), rb_left = (\<lambda>_. 0), ln_prev = (\<lambda>_. 0), ln_next = (\<lambda>_. 0),
      rt_node = (\<lambda>_. 0), rt_leftmost = (\<lambda>_. 0)\<rparr>
     (zero_vmars\<lparr>vm_page_count := (\<lambda>_. 0)(2 := 16), vm_kind := (\<lambda>_. VMAR_KIND_MAPPING)(2 := VMAR_KIND_REGION)\<rparr>)"

lemma region_at_2_fields:
  "vs region_at_2 = zero_vmars\<lparr>vm_page_count := (\<lambda>_. 0)(2 := 16),
     vm_kind := (\<lambda>_. VMAR_KIND_MAPPING)(2 := VMAR_KIND_REGION)\<rparr>"
  "rt_node region_at_2 = (\<lambda>_. 0)" "rt_leftmost region_at_2 = (\<lambda>_. 0)"
  by (simp_all add: region_at_2_def rb_heap.extend_def)

lemma region_at_2: "vregion region_at_2 2 []"
proof -
  have "gaps.linked_tree region_at_2 (vmar_children 2) Lf"
    by (simp add: gaps.linked_tree_def aug_rb_def rb_tree_def links_def rbt_def region_at_2_fields)
  then show ?thesis
    by (auto simp: vregion_def region_at_2_fields zero_vmars_def pg_def pn_def pg_end_def
      vmar_first_page_def intro!: exI [of _ Lf])
qed

lemma region_at_2_pages [simp]: "pg (vs region_at_2) 2 = 0" "pg_end (vs region_at_2) 2 = 16"
  by (simp_all add: region_at_2_fields zero_vmars_def pg_def pn_def pg_end_def vmar_first_page_def)

lemma region_at_2_child: "linkable region_at_2 2 [] 0x1000"
  by (simp add: linkable_def region_at_2_fields zero_vmars_def vmar_node_def aligned4_def)

section \<open>Allocation\<close>

text \<open>C6: An allocation in a region never fails an assertion.  It succeeds exactly when the range asked
  for is free (or, for any offset, when some range of the size is free, and then takes the lowest),
  links the child in address order with all the gaps right, and otherwise returns
  \<open>INTERNAL_ERROR\<close> with the region as it was.\<close>

theorem vmar_allocate_static_correct:
  assumes "vregion h r cs" "linkable h r cs c" "n \<noteq> 0" "\<not> vm_unmapped (vs h) r" "m_vmar_lock (vs h) = 0"
  shows "\<exists>e h'. vmar_allocate_static r c offset n h = Some (e, h') \<and> m_vmar_lock (vs h') = 0 \<and>
    (e = SUCCESS \<and> place_at (vs h) r cs offset (unat n) (pg (vs h') c) \<and> pn (vs h') c = unat n \<and>
       (\<exists>xs ys. cs = xs @ ys \<and> vregion h' r (xs @ c # ys)) \<and>
       (\<forall>v. v \<noteq> c \<longrightarrow> pg (vs h') v = pg (vs h) v \<and> pn (vs h') v = pn (vs h) v) \<or>
     e = INTERNAL_ERROR \<and> (\<forall>p. \<not> place_at (vs h) r cs offset (unat n) p) \<and> vregion h' r cs)"
  by (rule allocate_static_ok [OF assms])

lemma vmar_allocate_static_witness:
  "\<exists>h'. vmar_allocate_static 2 0x1000 VMAR_ANY_OFFSET 4 region_at_2 = Some (SUCCESS, h') \<and>
     vregion h' 2 [0x1000] \<and> pg (vs h') 0x1000 = 0 \<and> pn (vs h') 0x1000 = 4"
proof -
  have free: "free_at (vs region_at_2) 2 [] p 4 \<longleftrightarrow> p + 4 \<le> 16" for p by (simp add: free_at_def)
  have "place_at (vs region_at_2) 2 [] VMAR_ANY_OFFSET 4 p \<longleftrightarrow> p = 0" for p
    by (auto simp: place_at_def free)
  then show ?thesis
    using vmar_allocate_static_correct [OF region_at_2 region_at_2_child, of 4 VMAR_ANY_OFFSET]
    by (auto simp: region_at_2_fields zero_vmars_def)
qed

section \<open>Unlinking\<close>

text \<open>A mapping of two pages at the start of the region.\<close>

lemma region_with_mapping:
  "\<exists>h. vregion h 2 [0x1000] \<and> pg (vs h) 0x1000 = 0 \<and> pg_end (vs h) 0x1000 = 2 \<and>
     vm_kind (vs h) 0x1000 = VMAR_KIND_MAPPING"
proof -
  let ?h = "set_range 0x1000 0 2 region_at_2"
  have r: "vregion ?h 2 []" by (rule set_range_region [OF region_at_2]) simp_all
  have p: "pg (vs ?h) 0x1000 = 0" "pn (vs ?h) 0x1000 = 2" "pg_end (vs ?h) 0x1000 = 2"
    "pg (vs ?h) 2 = 0" "pg_end (vs ?h) 2 = 16"
    using set_range_pages(2-4) [of "0x1000" 0 2 region_at_2] set_range_pages(1) [of 2 "0x1000" 0 2 region_at_2]
    by (simp_all add: vpage_def)
  have k: "vm_parent (vs ?h) 0x1000 = 0" "vm_kind (vs ?h) 0x1000 = VMAR_KIND_MAPPING"
    by (simp_all add: set_range_simps region_at_2_fields zero_vmars_def)
  obtain h where h: "vregion h 2 [0x1000]" "vlink_frame {0x1000} 2 ?h h"
    using vmar_link_internal_ok [OF r k(1)] p by (auto simp: vmar_node_def aligned4_def)
  then show ?thesis using p k(2) vlink_frame_pages [OF h(2)] by auto
qed

text \<open>C7: Taking a vmar out of its region rebalances the tree and repairs the gap of the vmar behind it
  and the largest gaps above: the other children stay, in order, with the invariant of the region.\<close>

theorem vmar_unlink_correct:
  assumes "vregion h r (xs @ c # ys)" "c \<noteq> r"
  shows "\<exists>h'. vmar_unlink c r h = Some h' \<and> vregion h' r (xs @ ys) \<and>
    vlink_frame (set (xs @ c # ys)) r h h' \<and> vm_parent (vs h') c = 0 \<and>
    vm_unmapped (vs h') = (vm_unmapped (vs h))(c := True)"
  by (rule vmar_unlink_ok [OF assms])

lemma vmar_unlink_witness: "\<exists>h h'. vmar_unlink 0x1000 2 h = Some h' \<and> vregion h' 2 []"
proof -
  obtain h where h: "vregion h 2 ([] @ 0x1000 # [])" using region_with_mapping by auto
  from vmar_unlink_correct [OF h] show ?thesis by auto
qed

end
