(* ===== verification/Sched_Props.thy ===== *)
theory Sched_Props
  imports Sched_Inv Vmar_Props
begin

text \<open>The scheduler of a core as a machine on the thread that runs and the queue, and its properties.\<close>

section \<open>Operations\<close>

text \<open>The interrupt that ends a halt does not touch the scheduler; no handler of the kernel does.\<close>

datatype sched_op = Start ptr | Yield | Idle_Round | Exit

fun run_op :: "sched_op \<Rightarrow> sched \<Rightarrow> sched option" where
  "run_op (Start t) s = thread_start t s"
| "run_op Yield s = thread_yield s"
| "run_op Idle_Round s = scheduler_idle_round Some (s\<lparr>irq_on := False\<rparr>)"
| "run_op Exit s = thread_exit s"

text \<open>When an operation may be called: a thread is started once; only other threads than the idle one
  yield and exit, and of one that exits somebody else holds a reference, so that it is not freed yet
  (freeing its stack and itself is not part of the machine; \<open>thread_create\<close> leaves one reference only).\<close>

fun op_ok :: "sched_op \<Rightarrow> sched \<Rightarrow> bool" where
  "op_ok (Start t) s \<longleftrightarrow> th_state s t = THREAD_STATE_IDLE \<and> thread_ok s t"
| "op_ok Yield s \<longleftrightarrow> g_current_thread s \<noteq> idle_thread s"
| "op_ok Idle_Round s \<longleftrightarrow> g_current_thread s = idle_thread s"
| "op_ok Exit s \<longleftrightarrow> g_current_thread s \<noteq> idle_thread s \<and>
     1 < ob_ref_count (vs (kst s)) (thread_object (g_current_thread s))"

text \<open>The abstract machine: the thread that runs, and the others that can; \<open>idle\<close> runs when nothing else can.\<close>

definition take_next :: "ptr \<Rightarrow> ptr list \<Rightarrow> ptr \<times> ptr list" where
  "take_next idle q = (case q of [] \<Rightarrow> (idle, []) | t # q' \<Rightarrow> (t, q'))"

fun abs_op :: "ptr \<Rightarrow> sched_op \<Rightarrow> ptr \<times> ptr list \<Rightarrow> ptr \<times> ptr list" where
  "abs_op idle (Start t) (c, q) = (c, t # q)"
| "abs_op idle Yield (c, q) = take_next idle (c # q)"
| "abs_op idle Idle_Round (c, q) = take_next idle q"
| "abs_op idle Exit (c, q) = take_next idle q"

lemma inv_irq [simp]: "sched_inv (s\<lparr>irq_on := b\<rparr>) q = sched_inv s q"
  by (simp add: sched_inv_def thread_ok_def)

lemma next_irq [simp]: "next_thread (s\<lparr>irq_on := b\<rparr>) q = next_thread s q"
  by (simp add: next_thread_def split: list.split)

lemma same_irq [simp]: "sched_same (s\<lparr>irq_on := b\<rparr>) s' = sched_same s s'" "sched_same s (s'\<lparr>irq_on := b\<rparr>) = sched_same s s'"
  by (simp_all add: sched_same_def)

lemma take_next_eq: "take_next (idle_thread s) q = (next_thread s q, tl q)"
  by (simp add: take_next_def next_thread_def split: list.split)

lemma yield_ok:
  assumes "sched_inv s q" "g_current_thread s \<noteq> idle_thread s"
  shows "\<exists>s'. thread_yield s = Some s' \<and> sched_inv s' q \<and> g_current_thread s' = g_current_thread s \<and>
    sched_same s s' \<and> irq_on s' \<and> th_state s' = th_state s"
proof -
  obtain s' where "scheduler_schedule (s\<lparr>irq_on := False\<rparr>) = Some s'" "sched_inv s' q"
    "g_current_thread s' = g_current_thread s" "sched_same s s'" "th_state s' = th_state s"
    using schedule_self [of "s\<lparr>irq_on := False\<rparr>" q] assms by auto
  then show ?thesis
    by (intro exI [of _ "s'\<lparr>irq_on := True\<rparr>"]) (simp add: thread_yield_def Let_def)
qed

lemma idle_round_ok:
  assumes "sched_inv s q" "g_current_thread s = idle_thread s"
  shows "\<exists>s'. run_op Idle_Round s = Some s' \<and> sched_inv s' (tl q) \<and> g_current_thread s' = next_thread s q \<and>
    sched_same s s' \<and>
    th_state s' = (th_state s)(idle_thread s := THREAD_STATE_READY, next_thread s q := THREAD_STATE_RUNNING)"
proof -
  obtain s' where s': "scheduler_schedule (s\<lparr>irq_on := False\<rparr>) = Some s'" "sched_inv s' (tl q)"
    "g_current_thread s' = next_thread s q" "sched_same s s'"
    "th_state s' = (th_state s)(idle_thread s := THREAD_STATE_READY, next_thread s q := THREAD_STATE_RUNNING)"
    using schedule_idle [of "s\<lparr>irq_on := False\<rparr>" q] assms by auto
  then have "run_op Idle_Round s =
      Some (if g_current_thread s' = g_current_thread s then s'\<lparr>irq_on := False\<rparr> else s')"
    by (simp add: scheduler_idle_round_def Let_def)
  with s' show ?thesis by simp
qed

lemma op_refines:
  assumes i: "sched_inv s q" and ok: "op_ok op' s"
  shows "\<exists>s'. run_op op' s = Some s' \<and> sched_same s s' \<and>
    (\<exists>q'. abs_op (idle_thread s) op' (g_current_thread s, q) = (g_current_thread s', q') \<and> sched_inv s' q')"
proof (cases op')
  case (Start t)
  with start_ok [OF i, of t] ok show ?thesis by auto
next
  case Yield
  with yield_ok [OF i] ok show ?thesis by (auto simp: take_next_def)
next
  case Idle_Round
  with idle_round_ok [OF i] ok show ?thesis by (auto simp: take_next_eq)
next
  case Exit
  with exit_held [OF i] ok show ?thesis by (auto simp: take_next_eq)
qed

section \<open>A concrete core\<close>

text \<open>The idle thread of the core is at 0x1000; the thread at 0x2000 runs, the one at 0x3000 waits.\<close>

definition two_threads :: sched where
  "two_threads = \<lparr>th_kernel_rsp = (\<lambda>_. 0), th_kernel_stack = (\<lambda>_. 0),
     th_state = (\<lambda>_. THREAD_STATE_IDLE)(0x1000 := THREAD_STATE_READY, 0x2000 := THREAD_STATE_RUNNING,
       0x3000 := THREAD_STATE_READY),
     g_current_thread = 0x2000, g_last_thread = 0, g_last_thread_action = LAST_THREAD_ACTION_NONE,
     g_idle_thread = (\<lambda>_. 0x1000), m_run_queue = (\<lambda>_. 0x10), cpu_id = 0, irq_on = True, g_cpu_count = 1,
     m_sched_start_count = 1,
     kst = on_vs (\<lambda>z. z\<lparr>ob_ref_count := (\<lambda>_. 2),
       phys_mem := (empty_mm\<lparr>l_next := (\<lambda>_. 0)(0x10 := 0x30A0, 0x30A0 := 0x10),
         l_prev := (\<lambda>_. 0)(0x10 := 0x30A0, 0x30A0 := 0x10)\<rparr>)\<rparr>) region_at_2\<rparr>"

lemma two_threads_inv: "sched_inv two_threads [0x3000]"
  by (simp add: sched_inv_def two_threads_def thread_ok_def thread_rqe_def dlist_def)

section \<open>Properties\<close>

text \<open>C10: The scheduler refines the abstract machine: every operation called when it may be fails no
  assertion and does to the thread that runs and to the queue in memory what the machine does.\<close>

theorem sched_refines:
  assumes "sched_inv s q" "op_ok op' s"
  shows "\<exists>s'. run_op op' s = Some s' \<and> sched_same s s' \<and>
    (\<exists>q'. abs_op (idle_thread s) op' (g_current_thread s, q) = (g_current_thread s', q') \<and> sched_inv s' q')"
  by (rule op_refines [OF assms])

lemma sched_refines_witness:
  "\<exists>s'. thread_exit two_threads = Some s' \<and> g_current_thread s' = 0x3000 \<and> sched_inv s' []"
  using sched_refines [OF two_threads_inv, of Exit]
  by (simp add: take_next_def two_threads_def) metis

text \<open>The transitions of the table in \<open>thread.h\<close> that these operations make.\<close>

inductive thread_transition :: "thread_state \<Rightarrow> thread_state \<Rightarrow> bool" where
  "thread_transition THREAD_STATE_IDLE THREAD_STATE_READY"
| "thread_transition THREAD_STATE_READY THREAD_STATE_RUNNING"
| "thread_transition THREAD_STATE_RUNNING THREAD_STATE_READY"
| "thread_transition THREAD_STATE_RUNNING THREAD_STATE_DEAD"

lemma transition_switch:
  fixes f :: "ptr \<Rightarrow> thread_state"
  assumes "f a = THREAD_STATE_RUNNING" "b = a \<and> y = THREAD_STATE_READY \<or> b \<noteq> a \<and> f b = THREAD_STATE_READY"
    "thread_transition THREAD_STATE_RUNNING y"
  shows "(f(a := y, b := THREAD_STATE_RUNNING)) t = f t \<or>
    thread_transition (f t) ((f(a := y, b := THREAD_STATE_RUNNING)) t)"
proof (cases "t = b")
  case True
  then show ?thesis using assms(1,2) by (auto intro: thread_transition.intros)
next
  case False
  then show ?thesis using assms(1,3) by (cases "t = a") simp_all
qed

lemma step_transitions:
  assumes i: "sched_inv s q" and ok: "op_ok op' s" and r: "run_op op' s = Some s'"
  shows "th_state s' t = th_state s t \<or> thread_transition (th_state s t) (th_state s' t)"
proof (cases op')
  case (Start t')
  obtain s1 where s1: "thread_start t' s = Some s1" "th_state s1 = (th_state s)(t' := THREAD_STATE_READY)"
    using start_ok [OF i ok [unfolded Start op_ok.simps, THEN conjunct1] ok [unfolded Start op_ok.simps, THEN conjunct2]]
    by (elim exE conjE) (rule that)
  have "s' = s1" using s1(1) r unfolding Start run_op.simps by simp
  with s1(2) have e: "th_state s' = (th_state s)(t' := THREAD_STATE_READY)" by (simp only:)
  show ?thesis using ok Start unfolding e by (auto intro: thread_transition.intros)
next
  case Yield
  obtain s1 where s1: "thread_yield s = Some s1" "th_state s1 = th_state s"
    using yield_ok [OF i ok [unfolded Yield op_ok.simps]] by (elim exE conjE) (rule that)
  have "s' = s1" using s1(1) r unfolding Yield run_op.simps by simp
  then show ?thesis by (simp only: s1(2) simp_thms)
next
  case Idle_Round
  obtain s1 where s1: "run_op Idle_Round s = Some s1" "th_state s1 = (th_state s)
      (idle_thread s := THREAD_STATE_READY, next_thread s q := THREAD_STATE_RUNNING)"
    using idle_round_ok [OF i ok [unfolded Idle_Round op_ok.simps]] by (elim exE conjE) (rule that)
  have "s' = s1" using s1(1) r unfolding Idle_Round by simp
  with s1(2) have e: "th_state s' = (th_state s)
      (idle_thread s := THREAD_STATE_READY, next_thread s q := THREAD_STATE_RUNNING)" by (simp only:)
  have c: "g_current_thread s = idle_thread s" using ok Idle_Round by simp
  show ?thesis unfolding e
  proof (rule transition_switch)
    show "th_state s (idle_thread s) = THREAD_STATE_RUNNING" using sched_invD(3) [OF i] unfolding c .
    show "next_thread s q = idle_thread s \<and> THREAD_STATE_READY = THREAD_STATE_READY \<or>
      next_thread s q \<noteq> idle_thread s \<and> th_state s (next_thread s q) = THREAD_STATE_READY"
      using sched_invD(8) [OF i] by (cases q) (auto simp: next_thread_def)
  qed (rule thread_transition.intros)
next
  case Exit
  obtain s1 where s1: "thread_exit s = Some s1" "th_state s1 = (th_state s)
      (g_current_thread s := THREAD_STATE_DEAD, next_thread s q := THREAD_STATE_RUNNING)"
    using exit_held [OF i ok [unfolded Exit op_ok.simps, THEN conjunct1] ok [unfolded Exit op_ok.simps, THEN conjunct2]]
    by (elim exE conjE) (rule that)
  have "s' = s1" using s1(1) r unfolding Exit run_op.simps by simp
  with s1(2) have e: "th_state s' = (th_state s)
      (g_current_thread s := THREAD_STATE_DEAD, next_thread s q := THREAD_STATE_RUNNING)" by (simp only:)
  have c: "g_current_thread s \<noteq> idle_thread s" using ok Exit by simp
  have "next_thread s q \<noteq> g_current_thread s \<and> th_state s (next_thread s q) = THREAD_STATE_READY"
    using sched_invD(2,8,9) [OF i] c by (cases q) (auto simp: next_thread_def)
  then show ?thesis unfolding e
    by (intro transition_switch sched_invD(3) [OF i] thread_transition.intros) blast
qed

text \<open>C18: An operation changes the state of a thread only along an edge of the state diagram in
  \<open>thread.h\<close>; a thread that has died stays dead.\<close>

theorem thread_transitions:
  assumes "sched_inv s q" "op_ok op' s" "run_op op' s = Some s'"
  shows "th_state s' t = th_state s t \<or> thread_transition (th_state s t) (th_state s' t)"
  by (rule step_transitions [OF assms])

lemma thread_transitions_witness:
  "\<exists>s'. run_op Exit two_threads = Some s' \<and> thread_transition (th_state two_threads 0x2000) (th_state s' 0x2000)"
proof -
  have ok: "op_ok Exit two_threads" by (simp add: two_threads_def)
  obtain s' where s': "run_op Exit two_threads = Some s'" "g_current_thread s' = 0x3000" "sched_inv s' []"
    using op_refines [OF two_threads_inv ok] by (auto simp: take_next_def two_threads_def)
  have "th_state s' 0x2000 \<noteq> THREAD_STATE_RUNNING" using s'(2,3) by (simp add: sched_inv_def)
  then have "th_state s' 0x2000 \<noteq> th_state two_threads 0x2000" by (simp add: two_threads_def)
  with thread_transitions [OF two_threads_inv ok s'(1), of "0x2000"] s'(1) show ?thesis by auto
qed

text \<open>C38: \<open>run_queue_put\<close> puts a thread in front of the queue and \<open>run_queue_get\<close> takes the first, so a
  thread that yields is at once selected again: it keeps the core and the others never run, however
  many are ready.\<close>

theorem thread_yield_keeps_core:
  assumes "sched_inv s q" "g_current_thread s \<noteq> idle_thread s"
  shows "\<exists>s'. thread_yield s = Some s' \<and> g_current_thread s' = g_current_thread s \<and>
    th_state s' = th_state s \<and> sched_inv s' q"
  using yield_ok [OF assms] by blast

lemma thread_yield_keeps_core_witness:
  "\<exists>s'. thread_yield two_threads = Some s' \<and> g_current_thread s' = 0x2000 \<and>
     th_state s' 0x3000 = THREAD_STATE_READY"
  using thread_yield_keeps_core [OF two_threads_inv] by (auto simp: two_threads_def)

end
