(* ===== verification/Snprintf_Num.thy ===== *)
theory Snprintf_Num
  imports Snprintf
begin

text \<open>The number converters of \<open>snprintf.c\<close> against the usual recursion on the number, and reading
  the digits back.\<close>

section \<open>Digits of a number\<close>

definition digit :: "nat \<Rightarrow> u8" where
  "digit d = (if d < 10 then CH (CHR ''0'') + of_nat d else CH (CHR ''a'') + of_nat (d - 10))"

fun digits :: "nat \<Rightarrow> nat \<Rightarrow> cstr" where
  "digits b n = (if n < b \<or> b < 2 then [digit n] else digits b (n div b) @ [digit (n mod b)])"

declare digits.simps [simp del]

text \<open>The lowest \<open>k\<close> digits, the highest of them first.\<close>

fun low_digits :: "nat \<Rightarrow> nat \<Rightarrow> nat \<Rightarrow> cstr" where
  "low_digits b 0 n = []"
| "low_digits b (Suc k) n = digit (n div b ^ k mod b) # low_digits b k n"

lemma low_digits_snoc: "low_digits b (Suc k) n = low_digits b k (n div b) @ [digit (n mod b)]"
  by (induction k) (simp_all add: div_mult2_eq)

lemma low_digits_mod: "low_digits b k (n mod b ^ k) = low_digits b k n"
proof (induction k arbitrary: n)
  case (Suc k)
  have "n mod b ^ Suc k div b = n div b mod b ^ k" "n mod b ^ Suc k mod b = n mod b"
    by (cases "b = 0"; simp add: mod_mult2_eq)+
  then show ?case unfolding low_digits_snoc by (simp add: Suc)
qed simp

lemma digits_low: "b \<ge> 2 \<Longrightarrow> b ^ k \<le> n \<Longrightarrow> n < b ^ Suc k \<Longrightarrow> digits b n = low_digits b (Suc k) n"
proof (induction k arbitrary: n)
  case 0
  then show ?case by (subst digits.simps) simp
next
  case (Suc k)
  have "b ^ k \<le> n div b" "n div b < b ^ Suc k"
    using Suc.prems by (simp_all add: less_eq_div_iff_mult_less_eq div_less_iff_less_mult ac_simps)
  moreover have "b \<le> n"
    by (rule order.trans [OF _ Suc.prems(2) [unfolded power_Suc]]) (use Suc.prems(1) in simp)
  ultimately show ?case
    using Suc.IH [of "n div b"] Suc.prems(1)
    by (subst digits.simps) (simp only: low_digits_snoc [of b "Suc k"]; simp)
qed

lemma length_digits: "b \<ge> 2 \<Longrightarrow> n < b ^ k \<Longrightarrow> 0 < k \<Longrightarrow> length (digits b n) \<le> k"
proof (induction k arbitrary: n)
  case (Suc k)
  show ?case
  proof (cases "n < b")
    case False
    then have "k \<noteq> 0" using Suc.prems(2) by (cases k) auto
    moreover have "n div b < b ^ k" using Suc.prems by (simp add: div_less_iff_less_mult ac_simps)
    ultimately show ?thesis using Suc.IH [of "n div b"] Suc.prems(1) False by (subst digits.simps) simp
  qed (subst digits.simps, simp)
qed simp

section \<open>Decimal\<close>

lemma unat_lim: "p \<le> 19 \<Longrightarrow> unat (u64toa_lim p) = 10 ^ p"
proof (induction p)
  case (Suc p)
  have "(10 :: nat) ^ Suc p \<le> 10 ^ 19" by (rule power_increasing) (use Suc.prems in simp_all)
  then have "unat (u64toa_lim p) * unat (10 :: u64) < 2 ^ 64" using Suc by simp
  then show ?case using Suc by (simp add: unat_mult_lem [THEN iffD1])
qed simp

lemma u64toa_digit_ok:
  "lim \<noteq> 0 \<Longrightarrow> u64toa_digit lim inp d =
     Some (of_nat (unat inp mod unat lim), d + of_nat (unat inp div unat lim))"
proof (induction "unat inp" arbitrary: inp d rule: less_induct)
  case less
  have pos: "0 < unat lim" using less.prems by (simp add: unat_gt_0)
  show ?case
  proof (cases "inp \<ge> lim")
    case False
    then have "unat inp < unat lim" by (simp add: word_le_nat_alt)
    then show ?thesis using False by (subst u64toa_digit.simps) simp
  next
    case True
    then have u: "unat (inp - lim) = unat inp - unat lim" "unat lim \<le> unat inp"
      by (simp_all add: unat_sub word_le_nat_alt)
    then have "u64toa_digit lim (inp - lim) (d + 1) =
        Some (of_nat (unat (inp - lim) mod unat lim), d + 1 + of_nat (unat (inp - lim) div unat lim))"
      using less pos by simp
    moreover have "unat inp div unat lim = Suc (unat (inp - lim) div unat lim)"
      "unat inp mod unat lim = unat (inp - lim) mod unat lim"
      using u pos by (simp_all add: le_div_geq le_mod_geq)
    ultimately show ?thesis using True by (subst u64toa_digit.simps) simp
  qed
qed

lemma u64toa_step_ok:
  assumes "p \<le> 19" "unat inp < 10 ^ Suc p"
  shows "u64toa_step p inp buf =
    (if buf \<noteq> [] \<or> 10 ^ p \<le> unat inp \<or> p = 0
     then Some (of_nat (unat inp mod 10 ^ p), buf @ [digit (unat inp div 10 ^ p mod 10)])
     else Some (inp, buf))"
proof -
  have "u64toa_lim p \<noteq> 0" using unat_lim [OF assms(1)] by (auto simp: unat_eq_zero [symmetric])
  moreover have d: "unat inp div 10 ^ p < 10" using assms(2) by (simp add: div_less_iff_less_mult ac_simps)
  moreover have "digit (unat inp div 10 ^ p mod 10) = CH (CHR ''0'') + of_nat (unat inp div 10 ^ p)"
    unfolding mod_less [OF d] using d by (simp add: digit_def)
  ultimately show ?thesis
    using assms by (simp add: u64toa_step_def u64toa_digit_ok unat_lim word_le_nat_alt Let_def)
qed

lemma unat_of_mod: "unat (of_nat (unat (x :: u64) mod m) :: u64) = unat x mod m"
proof -
  have "unat x < 2 ^ 64" by (rule order.strict_trans2 [OF unsigned_less]) simp
  then have "unat x mod m < 2 ^ 64" by (rule order.strict_trans1 [OF mod_less_eq_dividend])
  then show ?thesis by (simp add: unat_of_nat take_bit_nat_eq_self)
qed

lemma u64toa_loop_tail:
  "p \<le> 19 \<Longrightarrow> unat inp < 10 ^ Suc p \<Longrightarrow> buf \<noteq> [] \<Longrightarrow>
   u64toa_loop p inp buf = Some (buf @ low_digits 10 (Suc p) (unat inp))"
proof (induction p arbitrary: inp buf)
  case 0
  then show ?case by (simp add: u64toa_step_ok)
next
  case (Suc p)
  let ?inp = "of_nat (unat inp mod 10 ^ Suc p) :: u64"
  have u: "unat ?inp = unat inp mod 10 ^ Suc p" by (rule unat_of_mod)
  then have "unat ?inp < 10 ^ Suc p" by simp
  then have "u64toa_loop p ?inp (buf @ [digit (unat inp div 10 ^ Suc p mod 10)]) =
      Some ((buf @ [digit (unat inp div 10 ^ Suc p mod 10)]) @ low_digits 10 (Suc p) (unat ?inp))"
    using Suc by (intro Suc.IH) simp_all
  then show ?case
    using u64toa_step_ok [OF Suc.prems(1,2), of buf] Suc.prems(3)
    by (simp only: u64toa_loop.simps u low_digits_mod) simp
qed

lemma u64toa_loop_ok:
  "p \<le> 19 \<Longrightarrow> unat inp < 10 ^ Suc p \<Longrightarrow> u64toa_loop p inp [] = Some (digits 10 (unat inp))"
proof (induction p arbitrary: inp)
  case 0
  then show ?case by (subst digits.simps) (simp add: u64toa_step_ok)
next
  case (Suc p)
  show ?case
  proof (cases "10 ^ Suc p \<le> unat inp")
    case False
    then show ?thesis using u64toa_step_ok [OF Suc.prems, of "[]"] Suc by simp
  next
    case True
    let ?inp = "of_nat (unat inp mod 10 ^ Suc p) :: u64"
    have u: "unat ?inp = unat inp mod 10 ^ Suc p" by (rule unat_of_mod)
    then have "unat ?inp < 10 ^ Suc p" by simp
    then have "u64toa_loop p ?inp [digit (unat inp div 10 ^ Suc p mod 10)] =
        Some ([digit (unat inp div 10 ^ Suc p mod 10)] @ low_digits 10 (Suc p) (unat ?inp))"
      using Suc.prems by (intro u64toa_loop_tail) simp_all
    then show ?thesis
      using u64toa_step_ok [OF Suc.prems, of "[]"] True digits_low [of 10 "Suc p" "unat inp"] Suc.prems(2)
      by (simp only: u64toa_loop.simps u low_digits_mod) simp
  qed
qed

lemma u64toa_r_ok: "u64toa_r x = Some (digits 10 (unat x))"
proof -
  have "unat x < 2 ^ 64" by (rule order.strict_trans2 [OF unsigned_less]) simp
  then have "unat x < 10 ^ Suc 19" by simp
  then show ?thesis unfolding u64toa_r_def by (intro u64toa_loop_ok) simp_all
qed

section \<open>Hexadecimal\<close>

lemma unat_nibble:
  "unat (ucast (drop_bit (4 * k) (x :: u64) AND 0xF) :: u8) = unat x div 16 ^ k mod 16"
proof -
  have "(0xF :: u64) = mask 4" by (simp add: mask_eq_exp_minus_1)
  then have "unat (ucast (drop_bit (4 * k) x AND 0xF) :: u8) = take_bit 8 (take_bit 4 (drop_bit (4 * k) (unat x)))"
    by (simp only: take_bit_eq_mask [symmetric] unsigned_ucast_eq unsigned_take_bit_eq unat_drop_bit_eq) simp
  also have "\<dots> = unat x div 2 ^ (4 * k) mod 2 ^ 4" by (simp add: take_bit_eq_mod drop_bit_eq_div mod_mod_cancel)
  finally show ?thesis by (simp add: power_mult)
qed

lemma hex_digit:
  assumes "unat (w :: u8) < 16"
  shows "CH (CHR ''0'') + (if w > 9 then w + (CH (CHR ''a'') - CH (CHR ''0'') - 10) else w) = digit (unat w)"
    "(if w > 9 then w + (CH (CHR ''a'') - CH (CHR ''0'') - 10) else w) = 0 \<longleftrightarrow> unat w = 0"
proof -
  have all: "list_all (\<lambda>d. let w = of_nat d :: u8 in
      CH (CHR ''0'') + (if w > 9 then w + (CH (CHR ''a'') - CH (CHR ''0'') - 10) else w) = digit d \<and>
      ((if w > 9 then w + (CH (CHR ''a'') - CH (CHR ''0'') - 10) else w) = 0 \<longleftrightarrow> d = 0)) [0..<16]"
    by code_simp
  have "unat w \<in> set [0..<16]" using assms by simp
  from bspec [OF all [unfolded list_all_iff] this]
  show "CH (CHR ''0'') + (if w > 9 then w + (CH (CHR ''a'') - CH (CHR ''0'') - 10) else w) = digit (unat w)"
    "(if w > 9 then w + (CH (CHR ''a'') - CH (CHR ''0'') - 10) else w) = 0 \<longleftrightarrow> unat w = 0"
    unfolding Let_def of_nat_unat ucast_id by blast+
qed

lemma u64toh_step_ok:
  "u64toh_step k x buf =
    (if unat x div 16 ^ k mod 16 \<noteq> 0 \<or> buf \<noteq> [] \<or> k = 0
     then buf @ [digit (unat x div 16 ^ k mod 16)] else buf)"
proof -
  let ?w = "ucast (drop_bit (4 * k) x AND 0xF) :: u8"
  have u: "unat ?w = unat x div 16 ^ k mod 16" by (rule unat_nibble)
  then have "unat ?w < 16" by simp
  from hex_digit [OF this] show ?thesis unfolding u64toh_step_def Let_def u by simp
qed

lemma u64toh_loop_tail:
  "buf \<noteq> [] \<Longrightarrow> u64toh_loop k x buf = buf @ low_digits 16 (Suc k) (unat x)"
  by (induction k arbitrary: buf) (simp_all add: u64toh_step_ok)

lemma u64toh_loop_ok: "unat x < 16 ^ Suc k \<Longrightarrow> u64toh_loop k x [] = digits 16 (unat x)"
proof (induction k)
  case 0
  then show ?case by (subst digits.simps) (simp add: u64toh_step_ok)
next
  case (Suc k)
  have d: "unat x div 16 ^ Suc k < 16" using Suc.prems by (simp add: div_less_iff_less_mult ac_simps)
  show ?case
  proof (cases "16 ^ Suc k \<le> unat x")
    case False
    then have "unat x div 16 ^ Suc k = 0" by simp
    then show ?thesis using False Suc.IH by (simp add: u64toh_step_ok [of "Suc k"])
  next
    case True
    then have "unat x div 16 ^ Suc k \<noteq> 0" by (simp add: div_eq_0_iff)
    then have "u64toh_step (Suc k) x [] = [digit (unat x div 16 ^ Suc k mod 16)]"
      using d by (simp add: u64toh_step_ok [of "Suc k"])
    then show ?thesis
      using digits_low [of 16 "Suc k" "unat x"] True Suc.prems u64toh_loop_tail [of _ k x]
      by (simp only: u64toh_loop.simps) simp
  qed
qed

lemma u64toh_r_ok: "u64toh_r x = digits 16 (unat x)"
proof -
  have "unat x < 2 ^ 64" by (rule order.strict_trans2 [OF unsigned_less]) simp
  then show ?thesis unfolding u64toh_r_def by (intro u64toh_loop_ok) simp
qed

section \<open>Signed\<close>

definition show_int :: "int \<Rightarrow> cstr" where
  "show_int i = (if i < 0 then CH (CHR ''-'') # digits 10 (nat (- i)) else digits 10 (nat i))"

lemma i64toa_r_ok: "i64toa_r x = Some (show_int (sint x))"
proof (cases "sint x < 0")
  case True
  have r: "- (2 ^ 63) \<le> sint x" using sint_ge [of x] by simp
  have "uint (- x) = uint (word_of_int (- sint x) :: u64)" by simp
  also have "\<dots> = take_bit 64 (- sint x)" by (simp only: uint_word_of_int_eq) simp
  also have "\<dots> = - sint x" using True r by (intro take_bit_int_eq_self) simp_all
  finally have "uint (- x) = - sint x" .
  then have "unat (- x) = nat (- sint x)" by (simp add: unat_eq_nat_uint)
  then show ?thesis using True by (simp add: i64toa_r_def u64toa_r_ok show_int_def word_sless_alt)
next
  case False
  have "uint x = uint (word_of_int (sint x) :: u64)" by simp
  also have "\<dots> = take_bit 64 (sint x)" by (simp only: uint_word_of_int_eq) simp
  also have "\<dots> = sint x" using False sint_lt [of x] by (intro take_bit_int_eq_self) simp_all
  finally have "uint x = sint x" .
  then have "unat x = nat (sint x)" by (simp add: unat_eq_nat_uint)
  then show ?thesis using False by (simp add: i64toa_r_def u64toa_r_ok show_int_def word_sless_alt)
qed

section \<open>Properties\<close>

lemma unat_lt64: "unat (x :: u64) < 2 ^ 64"
  by (rule order.strict_trans2 [OF unsigned_less]) simp

lemma length_dec: "length (digits 10 (unat (x :: u64))) \<le> 20"
  using unat_lt64 [of x] by (intro length_digits) simp_all

lemma length_hex: "length (digits 16 (unat (x :: u64))) \<le> 16"
  using unat_lt64 [of x] by (intro length_digits) simp_all

lemma length_show_int: "length (show_int (sint (x :: u64))) \<le> 20"
proof -
  have r: "- (2 ^ 63) \<le> sint x" "sint x < 2 ^ 63" using sint_ge [of x] sint_lt [of x] by simp_all
  have "nat (- sint x) \<le> 2 ^ 63" "nat (sint x) \<le> 2 ^ 63" using r by (simp_all add: nat_le_iff)
  then have "nat (- sint x) < 10 ^ 19" "nat (sint x) < 10 ^ 20" by simp_all
  then have "length (digits 10 (nat (- sint x))) \<le> 19" "length (digits 10 (nat (sint x))) \<le> 20"
    by (intro length_digits; simp)+
  then show ?thesis by (simp add: show_int_def)
qed

text \<open>C36: Counting digits off by repeated subtraction and shifting nibbles out compute the usual
  decimal, signed decimal and hexadecimal notation of every 64-bit number, with no leading zero.\<close>

theorem number_notation:
  "u64toa_r x = Some (digits 10 (unat x)) \<and> i64toa_r x = Some (show_int (sint x)) \<and>
   u64toh_r x = digits 16 (unat x)"
  by (simp add: u64toa_r_ok i64toa_r_ok u64toh_r_ok)

text \<open>C37: Whatever the conversion and its argument, what it prints fits the 21 bytes of
  \<open>tmpbuf\<close> with the final zero.\<close>

theorem kv_convert_fits: "\<exists>s. kv_convert c v = Some s \<and> length s + 1 \<le> 21"
  using length_dec [of v] length_hex [of v] length_show_int [of v]
  by (simp add: kv_convert_def u64toa_r_ok i64toa_r_ok u64toh_r_ok)

end
