(* ===== verification/Snprintf_Fmt.thy ===== *)
theory Snprintf_Fmt
  imports Snprintf_Num
begin

text \<open>\<open>kvsnprintf\<close> against a description of formats by recursion on the format: the whole text is
  rendered first, and then cut to the buffer.\<close>

section \<open>What a format means\<close>

definition is_dec :: "u8 \<Rightarrow> bool" where
  "is_dec c \<longleftrightarrow> CH (CHR ''0'') \<le> c \<and> c \<le> CH (CHR ''9'')"

definition pad_to :: "u64 \<Rightarrow> u8 \<Rightarrow> cstr \<Rightarrow> cstr" where
  "pad_to width pad s = replicate (unat width - length s) pad @ s"

text \<open>What is behind a \<open>%\<close>: the padding, the width, whether the argument is a long, and the rest from
  the conversion on.\<close>

definition spec_pad :: "cstr \<Rightarrow> u8 \<times> cstr" where
  "spec_pad cs = (case cs of c # r \<Rightarrow> if c = CH (CHR ''0'') then (c, r) else (CH (CHR '' ''), cs)
     | [] \<Rightarrow> (CH (CHR '' ''), []))"

definition spec_size :: "bool \<Rightarrow> cstr \<Rightarrow> bool \<times> cstr" where
  "spec_size long cs = (case cs of c # r \<Rightarrow> if c = CH (CHR ''z'') \<and> \<not> long then (True, r) else (long, cs)
     | [] \<Rightarrow> (long, []))"

definition spec_width :: "u64 \<Rightarrow> cstr \<Rightarrow> u64" where
  "spec_width w cs = foldl (\<lambda>w c. w * 10 + ucast (c - CH (CHR ''0''))) w (takeWhile is_dec cs)"

definition fmt_spec :: "cstr \<Rightarrow> u8 \<times> u64 \<times> bool \<times> cstr" where
  "fmt_spec cs =
     (let (pad, cs1) = spec_pad cs;
          cs2 = dropWhile is_dec cs1;
          cs3 = dropWhile (\<lambda>c. c = CH (CHR ''l'')) cs2;
          (long, cs4) = spec_size (cs3 \<noteq> cs2) cs3
      in (pad, spec_width 0 cs1, long, cs4))"

definition fmt_number :: "u8 \<Rightarrow> bool \<Rightarrow> u64 \<Rightarrow> cstr" where
  "fmt_number c long v =
     (if c = CH (CHR ''c'') then (if (ucast v :: u8) = 0 then [] else [ucast v])
      else if c = CH (CHR ''d'') then show_int (if long then sint v else sint (ucast v :: u32))
      else if c = CH (CHR ''u'') then digits 10 (unat v)
      else if c = CH (CHR ''p'') then lit ''0x'' @ digits 16 (unat v)
      else digits 16 (unat v))"

lemma length_dropWhile: "length (dropWhile P xs) \<le> length xs"
  by (induction xs) auto

lemma fmt_spec_shorter: "fmt_spec cs = (pad, w, l, cs') \<Longrightarrow> length cs' \<le> length cs"
proof -
  assume "fmt_spec cs = (pad, w, l, cs')"
  then obtain l' where "cs' = snd (spec_size l' (dropWhile (\<lambda>c. c = CH (CHR ''l'')) (dropWhile is_dec (snd (spec_pad cs)))))"
    by (simp only: fmt_spec_def Let_def split_def prod.inject) blast
  moreover have "length (snd (spec_size l' ds)) \<le> length ds" for ds
    by (auto simp: spec_size_def split: list.splits)
  ultimately have "length cs' \<le> length (dropWhile (\<lambda>c. c = CH (CHR ''l'')) (dropWhile is_dec (snd (spec_pad cs))))"
    by blast
  also have "\<dots> \<le> length (snd (spec_pad cs))" using length_dropWhile le_trans by blast
  also have "\<dots> \<le> length cs" by (auto simp: spec_pad_def split: list.splits)
  finally show ?thesis .
qed

text \<open>The text of a format.  A conversion that is not known, or cut off by the end of the format, is
  printed as it stands; of \<open>%%\<close>, and of all that comes before a second \<open>%\<close>, the first one is left out.\<close>

function (sequential) render :: "cstr \<Rightarrow> va list \<Rightarrow> cstr option" where
  "render [] args = Some []"
| "render (c # cs) args =
     (if c \<noteq> CH (CHR ''%'') then map_option ((#) c) (render cs args)
      else (case fmt_spec cs of
        (pad, width, long, []) \<Rightarrow> Some (c # cs)
      | (pad, width, long, conv # rest) \<Rightarrow>
          if conv \<in> {CH (CHR ''c''), CH (CHR ''d''), CH (CHR ''u''), CH (CHR ''x''), CH (CHR ''p'')} then
            (case va_arg_int (conv = CH (CHR ''p'') \<or> long) args of
               None \<Rightarrow> None
             | Some (v, args) \<Rightarrow> map_option ((@) (pad_to width pad (fmt_number conv long v))) (render rest args))
          else if conv = CH (CHR ''s'') then
            (case va_arg_str args of
               None \<Rightarrow> None
             | Some (s, args) \<Rightarrow>
                 map_option ((@) (pad_to width pad (case s of None \<Rightarrow> lit ''(null)'' | Some s \<Rightarrow> s))) (render rest args))
          else if conv = CH (CHR ''%'') then
            map_option ((@) (take (length cs - length rest) cs)) (render rest args)
          else map_option ((@) (c # take (length cs - length rest) cs)) (render rest args)))"
  by pat_completeness auto
termination
  by (relation "measure (length \<circ> fst)") (auto dest: fmt_spec_shorter [OF sym])

section \<open>The parts of the loop\<close>

definition at0 :: "cstr \<Rightarrow> u8" where "at0 cs = (case cs of [] \<Rightarrow> 0 | c # _ \<Rightarrow> c)"

lemma at0_simps [simp]: "at0 [] = 0" "at0 (c # cs) = c"
  by (simp_all add: at0_def)

lemma fmt_at_drop: "i \<le> length fmt \<Longrightarrow> fmt_at fmt i = Some (at0 (drop i fmt))"
proof (cases "i < length fmt")
  case True
  then have "drop i fmt = fmt ! i # drop (Suc i) fmt" by (rule Cons_nth_drop_Suc [symmetric])
  with True show ?thesis by (simp add: fmt_at_def)
qed (simp add: fmt_at_def)

lemma drop_Cons_Suc: assumes "drop i xs = c # cs" shows "cs = drop (Suc i) xs \<and> i < length xs \<and> c = xs ! i"
proof -
  have i: "i < length xs" using assms by (cases "i < length xs") simp_all
  have "xs ! i # drop (Suc i) xs = c # cs" using Cons_nth_drop_Suc [OF i] assms by (rule trans)
  with i show ?thesis by simp
qed

lemma drop_dropWhile: "\<exists>k. i \<le> k \<and> k \<le> length xs \<and> dropWhile P (drop i xs) = drop k xs" if "i \<le> length xs"
proof -
  let ?ds = "drop i xs"
  have "dropWhile P ?ds = drop (length (takeWhile P ?ds)) ?ds" by (rule dropWhile_eq_drop)
  moreover have "length (takeWhile P ?ds) \<le> length ?ds" by (rule length_takeWhile_le)
  ultimately show ?thesis using that by (intro exI [of _ "i + length (takeWhile P ?ds)"]) (simp add: add.commute)
qed

lemma spec_width_Cons:
  "spec_width w (c # cs) = (if is_dec c then spec_width (w * 10 + ucast (c - CH (CHR ''0''))) cs else w)"
  by (simp add: spec_width_def)

lemma kv_width_stop: "\<not> is_dec c \<Longrightarrow> kv_width fmt c i w = Some (c, i, w)"
  by (subst kv_width.simps) (simp only: is_dec_def if_False)

lemma kv_width_go:
  "is_dec c \<Longrightarrow> i \<le> length fmt \<Longrightarrow>
   kv_width fmt c i w = kv_width fmt (at0 (drop i fmt)) (Suc i) (w * 10 + ucast (c - CH (CHR ''0'')))"
  by (subst kv_width.simps) (simp only: simp_thms is_dec_def if_True fmt_at_drop option.case add_Suc_right Nat.add_0_right One_nat_def)

lemma kv_modifiers_stop: "c \<noteq> CH (CHR ''l'') \<Longrightarrow> kv_modifiers fmt c i l = Some (c, i, l)"
  by (subst kv_modifiers.simps) (simp only: if_False)

lemma kv_modifiers_go:
  "i \<le> length fmt \<Longrightarrow> kv_modifiers fmt (CH (CHR ''l'')) i l =
   kv_modifiers fmt (at0 (drop i fmt)) (Suc i) (l + 1)"
  by (subst kv_modifiers.simps) (simp only: simp_thms if_True fmt_at_drop option.case add_Suc_right Nat.add_0_right One_nat_def)

lemma drop_eq_iff: "i \<le> length xs \<Longrightarrow> k \<le> length xs \<Longrightarrow> drop i xs = drop k xs \<longleftrightarrow> i = k"
  using length_drop [of i xs] length_drop [of k xs] by (metis diff_diff_cancel)

text \<open>Both loops run over the elements of a suffix that satisfy a predicate.\<close>

lemma suffix_induct [consumes 1, case_names stop fin go]:
  assumes "i \<le> length xs"
    and stop: "\<And>i c. i < length xs \<Longrightarrow> \<not> P c \<Longrightarrow> drop i xs = c # drop (Suc i) xs \<Longrightarrow> Q i i"
    and fin: "Q (length xs) (length xs)"
    and go: "\<And>i k c. i < length xs \<Longrightarrow> P c \<Longrightarrow> drop i xs = c # drop (Suc i) xs \<Longrightarrow> Q (Suc i) k \<Longrightarrow>
      Suc i \<le> k \<Longrightarrow> k \<le> length xs \<Longrightarrow> dropWhile P (drop (Suc i) xs) = drop k xs \<Longrightarrow> Q i k"
  shows "\<exists>k. i \<le> k \<and> k \<le> length xs \<and> dropWhile P (drop i xs) = drop k xs \<and> Q i k"
  using assms(1)
proof (induction "length xs - i" arbitrary: i)
  case 0
  then have "i = length xs" by simp
  then show ?case using fin by (intro exI [of _ i]) simp
next
  case (Suc m)
  then have i: "i < length xs" by simp
  note d = Cons_nth_drop_Suc [OF i, symmetric]
  show ?case
  proof (cases "P (xs ! i)")
    case False
    have "dropWhile P (drop i xs) = drop i xs" unfolding d dropWhile.simps if_not_P [OF False] ..
    then show ?thesis using i stop [OF i False d] by (intro exI [of _ i]) simp
  next
    case True
    obtain k where k: "Suc i \<le> k" "k \<le> length xs" "dropWhile P (drop (Suc i) xs) = drop k xs" "Q (Suc i) k"
      using Suc.hyps(1) [OF _ Suc_leI [OF i]] Suc.hyps(2) by fastforce
    have "dropWhile P (drop i xs) = drop k xs" unfolding d dropWhile.simps if_P [OF True] by (rule k(3))
    then show ?thesis using k go [OF i True d k(4,1,2,3)] by (intro exI [of _ k]) simp
  qed
qed

lemma kv_width_ok:
  assumes "i \<le> length fmt"
  shows "\<exists>k. i \<le> k \<and> k \<le> length fmt \<and> dropWhile is_dec (drop i fmt) = drop k fmt \<and>
    (\<forall>w. kv_width fmt (at0 (drop i fmt)) (Suc i) w = Some (at0 (drop k fmt), Suc k, spec_width w (drop i fmt)))"
  using assms
proof (induction rule: suffix_induct [where P = is_dec])
  case (stop i c)
  show ?case unfolding stop(3) by (simp add: kv_width_stop [OF stop(2)] spec_width_Cons stop(2))
next
  case fin
  show ?case by (simp add: kv_width_stop [of 0] is_dec_def spec_width_def)
next
  case (go i k c)
  show ?case unfolding go(3) at0_simps spec_width_Cons if_P [OF go(2)]
    using go(4) kv_width_go [OF go(2) Suc_leI [OF go(1)]] by simp
qed

lemma kv_modifiers_ok:
  assumes "i \<le> length fmt"
  shows "\<exists>k. i \<le> k \<and> k \<le> length fmt \<and>
    dropWhile (\<lambda>c. c = CH (CHR ''l'')) (drop i fmt) = drop k fmt \<and>
    (\<forall>l. kv_modifiers fmt (at0 (drop i fmt)) (Suc i) l = Some (at0 (drop k fmt), Suc k, l + of_nat (k - i)))"
  using assms
proof (induction rule: suffix_induct [where P = "\<lambda>c. c = CH (CHR ''l'')"])
  case (stop i c)
  show ?case unfolding stop(3) by (simp only: kv_modifiers_stop [OF stop(2)] at0_simps) simp
next
  case fin
  show ?case by (simp add: kv_modifiers_stop [of 0])
next
  case (go i k c)
  have "k - i = Suc (k - Suc i)" using go(5) by simp
  then show ?case unfolding go(3) at0_simps go(2)
    using go(4) kv_modifiers_go [OF Suc_leI [OF go(1)]] by simp
qed

lemma spec_pad_ok:
  assumes "j \<le> length fmt"
  shows "\<exists>k pad. j \<le> k \<and> k \<le> length fmt \<and> spec_pad (drop j fmt) = (pad, drop k fmt) \<and>
    (if at0 (drop j fmt) = CH (CHR ''0'') then do { c \<leftarrow> fmt_at fmt (Suc j); Some (c, Suc j + 1, CH (CHR ''0'')) }
     else Some (at0 (drop j fmt), Suc j, CH (CHR '' ''))) = Some (at0 (drop k fmt), Suc k, pad)"
proof (cases "j < length fmt \<and> fmt ! j = CH (CHR ''0'')")
  case True
  then have d: "drop j fmt = CH (CHR ''0'') # drop (Suc j) fmt" using Cons_nth_drop_Suc [of j fmt] by simp
  show ?thesis unfolding d using True
    by (intro exI [of _ "Suc j"] exI [of _ "CH (CHR ''0'')"]) (simp add: spec_pad_def fmt_at_drop Suc_le_eq)
next
  case False
  have "spec_pad (drop j fmt) = (CH (CHR '' ''), drop j fmt) \<and> at0 (drop j fmt) \<noteq> CH (CHR ''0'')"
  proof (cases "j < length fmt")
    case True
    with False have d: "drop j fmt = fmt ! j # drop (Suc j) fmt" "fmt ! j \<noteq> CH (CHR ''0'')"
      using Cons_nth_drop_Suc [of j fmt] by simp_all
    then show ?thesis unfolding d(1) spec_pad_def by simp
  qed (simp add: spec_pad_def)
  then show ?thesis using assms by auto
qed

lemma spec_size_ok:
  assumes "j \<le> length fmt"
  shows "\<exists>k (lp' :: u64). j \<le> k \<and> k \<le> length fmt \<and> spec_size (0 < (lp :: u64)) (drop j fmt) = (0 < lp', drop k fmt) \<and>
    (if at0 (drop j fmt) = CH (CHR ''z'') \<and> lp = 0 then do { c \<leftarrow> fmt_at fmt (Suc j); Some (c, Suc j + 1, 1) }
     else Some (at0 (drop j fmt), Suc j, lp)) = Some (at0 (drop k fmt), Suc k, lp')"
proof (cases "j < length fmt \<and> fmt ! j = CH (CHR ''z'') \<and> lp = 0")
  case True
  then have d: "drop j fmt = CH (CHR ''z'') # drop (Suc j) fmt" using Cons_nth_drop_Suc [of j fmt] by simp
  show ?thesis unfolding d using True
    by (intro exI [of _ "Suc j"] exI [of _ 1]) (simp add: spec_size_def fmt_at_drop Suc_le_eq)
next
  case False
  have "spec_size (0 < lp) (drop j fmt) = (0 < lp, drop j fmt) \<and> \<not> (at0 (drop j fmt) = CH (CHR ''z'') \<and> lp = 0)"
  proof (cases "j < length fmt")
    case True
    with False have d: "drop j fmt = fmt ! j # drop (Suc j) fmt" "\<not> (fmt ! j = CH (CHR ''z'') \<and> lp = 0)"
      using Cons_nth_drop_Suc [of j fmt] by auto
    then show ?thesis unfolding d(1) spec_size_def by (auto simp: word_gt_0)
  qed (simp add: spec_size_def)
  then show ?thesis using assms by auto
qed

lemma kv_spec_ok:
  assumes j: "j \<le> length fmt" and len: "length fmt < 2 ^ 64"
  shows "\<exists>k pad width lp. j \<le> k \<and> k \<le> length fmt \<and>
    kv_spec fmt (at0 (drop j fmt)) (Suc j) 0 = Some (at0 (drop k fmt), Suc k, width, pad, lp) \<and>
    fmt_spec (drop j fmt) = (pad, width, 0 < lp, drop k fmt)"
proof -
  obtain k1 pad where k1: "j \<le> k1" "k1 \<le> length fmt" "spec_pad (drop j fmt) = (pad, drop k1 fmt)"
    "(if at0 (drop j fmt) = CH (CHR ''0'') then do { c \<leftarrow> fmt_at fmt (Suc j); Some (c, Suc j + 1, CH (CHR ''0'')) }
     else Some (at0 (drop j fmt), Suc j, CH (CHR '' ''))) = Some (at0 (drop k1 fmt), Suc k1, pad)"
    using spec_pad_ok [OF j] by blast
  obtain k2 where k2: "k1 \<le> k2" "k2 \<le> length fmt" "dropWhile is_dec (drop k1 fmt) = drop k2 fmt"
    "kv_width fmt (at0 (drop k1 fmt)) (Suc k1) 0 = Some (at0 (drop k2 fmt), Suc k2, spec_width 0 (drop k1 fmt))"
    using kv_width_ok [OF k1(2)] by blast
  obtain k3 where k3: "k2 \<le> k3" "k3 \<le> length fmt" "dropWhile (\<lambda>c. c = CH (CHR ''l'')) (drop k2 fmt) = drop k3 fmt"
    "kv_modifiers fmt (at0 (drop k2 fmt)) (Suc k2) 0 = Some (at0 (drop k3 fmt), Suc k3, 0 + of_nat (k3 - k2))"
    using kv_modifiers_ok [OF k2(2)] by blast
  have "k3 - k2 < 2 ^ 64" using len k3(2) by linarith
  then have "unat (of_nat (k3 - k2) :: u64) = k3 - k2" by (simp add: unat_of_nat take_bit_nat_eq_self)
  then have pos: "(0 < (of_nat (k3 - k2) :: u64)) = (drop k3 fmt \<noteq> drop k2 fmt)"
    using k3(1,2) by (auto simp: word_less_nat_alt drop_eq_iff)
  obtain k4 and lp :: u64 where k4: "k3 \<le> k4" "k4 \<le> length fmt"
    "spec_size (0 < (of_nat (k3 - k2) :: u64)) (drop k3 fmt) = (0 < lp, drop k4 fmt)"
    "(if at0 (drop k3 fmt) = CH (CHR ''z'') \<and> (of_nat (k3 - k2) :: u64) = 0 then do { c \<leftarrow> fmt_at fmt (Suc k3); Some (c, Suc k3 + 1, 1) }
     else Some (at0 (drop k3 fmt), Suc k3, of_nat (k3 - k2))) = Some (at0 (drop k4 fmt), Suc k4, lp)"
    using spec_size_ok [OF k3(2)] by blast
  have "kv_spec fmt (at0 (drop j fmt)) (Suc j) 0 =
      Some (at0 (drop k4 fmt), Suc k4, spec_width 0 (drop k1 fmt), pad, lp)"
    unfolding kv_spec_def k1(4) using k2(4) k3(4) k4(4) by simp
  moreover have "fmt_spec (drop j fmt) = (pad, spec_width 0 (drop k1 fmt), 0 < lp, drop k4 fmt)"
    unfolding fmt_spec_def k1(3) using k2(3) k3(3) k4(3) by (simp add: pos)
  moreover have "j \<le> k4" using k1(1) k2(1) k3(1) k4(1) by simp
  ultimately show ?thesis using k4(2) by (intro exI conjI)
qed

section \<open>What has been stored\<close>

text \<open>\<open>st\<close> has stored the first \<open>N\<close> bytes of \<open>s\<close>, and counted them all, modulo the size of a word.\<close>

definition kv_ok :: "nat \<Rightarrow> cstr \<Rightarrow> snp \<Rightarrow> bool" where
  "kv_ok N s st \<longleftrightarrow> sn_out st = take N s \<and> unat (sn_n st) = N - length s \<and> sn_written st = of_nat (length s)"

lemma kv_ok_args [simp]: "kv_ok N s (st\<lparr>sn_args := a\<rparr>) = kv_ok N s st"
  by (simp add: kv_ok_def)

lemma kv_flush_args [simp]: "sn_args (kv_flush outstr len width pad st) = sn_args st"
  by (simp add: kv_flush_def Let_def)

lemma unat_min: "unat (if a < b then a else (b :: u64)) = min (unat a) (unat b)"
  by (simp add: word_less_nat_alt min_def)

lemma kv_flush_run:
  assumes pl: "pl = (if width > len then width - len else 0)" and p: "p = (if pl < sn_n st then pl else sn_n st)"
    and w: "w = (if len < sn_n st - p then len else sn_n st - p)"
  shows "kv_flush outstr len width pad st =
    st\<lparr>sn_out := sn_out st @ replicate (unat p) pad @ take (unat w) outstr,
      sn_n := sn_n st - p - w, sn_written := sn_written st + (pl + len)\<rparr>"
  by (simp add: kv_flush_def Let_def pl [symmetric] p [symmetric]) (simp add: w)

lemma kv_flush_ok:
  assumes ok: "kv_ok N s st" and len: "unat len \<le> length outstr"
  shows "kv_ok N (s @ pad_to width pad (take (unat len) outstr)) (kv_flush outstr len width pad st)"
proof -
  define o' where "o' = take (unat len) outstr"
  define k where "k = unat width - unat len"
  have lo: "length o' = unat len" using len by (simp add: o'_def)
  define pl where "pl = (if width > len then width - len else 0)"
  have pl: "unat pl = k" by (auto simp: pl_def k_def word_less_nat_alt unat_sub word_le_nat_alt)
  define p where "p = (if pl < sn_n st then pl else sn_n st)"
  have p: "unat p = min k (N - length s)" using ok by (simp add: p_def unat_min pl kv_ok_def)
  have n1: "unat (sn_n st - p) = N - length s - k"
    using ok p by (simp add: unat_sub word_le_nat_alt kv_ok_def min_def)
  define w where "w = (if len < sn_n st - p then len else sn_n st - p)"
  have w: "unat w = min (unat len) (N - length s - k)" by (simp add: w_def unat_min n1)
  have n2: "unat (sn_n st - p - w) = N - length s - k - unat len"
    using n1 w by (simp add: unat_sub word_le_nat_alt min_def)
  note run = kv_flush_run [OF pl_def p_def w_def, of outstr pad]
  have "pl = of_nat k" unfolding pl [symmetric] by simp
  then have wr: "sn_written st + (pl + len) = of_nat (length s + (k + unat len))"
    using ok by (simp add: kv_ok_def)
  have "take (unat w) outstr = take (N - length s - k) o'" by (simp add: w o'_def min.commute)
  moreover have "replicate (unat p) pad = take (N - length s) (replicate k pad)" by (simp add: p min.commute)
  moreover have "sn_out st = take N s" using ok by (simp add: kv_ok_def)
  ultimately show ?thesis
    unfolding run o'_def [symmetric] pad_to_def kv_ok_def lo k_def [symmetric]
    by (simp add: n2 wr lo)
qed

lemma kv_flush_all:
  assumes "kv_ok N s st" "length o' < 2 ^ 64"
  shows "kv_ok N (s @ pad_to width pad o') (kv_flush o' (of_nat (length o')) width pad st)"
proof -
  have "unat (of_nat (length o') :: u64) = length o'" using assms(2) by (simp add: unat_of_nat take_bit_nat_eq_self)
  then show ?thesis using kv_flush_ok [OF assms(1), of "of_nat (length o')" o' width pad] by simp
qed

lemma kv_flush_text:
  assumes "kv_ok N s st" "k \<le> length o'" "length o' < 2 ^ 64"
  shows "kv_ok N (s @ take k o') (kv_flush o' (of_nat k) 0 pad st)"
proof -
  have "k < 2 ^ 64" using assms(2,3) by simp
  then have "unat (of_nat k :: u64) = k" by (simp add: unat_of_nat take_bit_nat_eq_self)
  then show ?thesis using kv_flush_ok [OF assms(1), of "of_nat k" o' 0 pad] assms(2) by (simp add: pad_to_def)
qed

lemma sint_low: "sint (scast (x :: u32) :: u64) = sint x"
  by (rule sint_up_scast) (simp add: is_up)

lemma kv_convert_ok:
  "kv_convert c (if c = CH (CHR ''d'') \<and> lpref = 0 then scast (ucast v :: u32) else v) =
     Some (fmt_number c (0 < lpref) v)" if "(lpref :: u64) = 0 \<or> 0 < lpref"
  by (auto simp: kv_convert_def fmt_number_def i64toa_r_ok u64toa_r_ok u64toh_r_ok sint_low lit_def word_gt_0)

section \<open>The loop\<close>

lemma kv_loop_end:
  "fmt_at fmt i = Some 0 \<Longrightarrow> kv_loop fmt base i False lp st =
     Some (kv_flush (drop base fmt) (of_nat (i - base)) 0 (CH (CHR '' '')) st)"
  by (subst kv_loop.simps) (simp add: Let_def)

lemma kv_loop_pct:
  "fmt_at fmt i = Some (CH (CHR ''%'')) \<Longrightarrow> kv_loop fmt base i False lp st =
     kv_loop fmt (Suc i) (Suc i) True 0 (kv_flush (drop base fmt) (of_nat (i - base)) 0 (CH (CHR '' '')) st)"
  by (subst kv_loop.simps) (simp add: Let_def)

lemma kv_loop_lit:
  "fmt_at fmt i = Some c \<Longrightarrow> c \<noteq> 0 \<Longrightarrow> c \<noteq> CH (CHR ''%'') \<Longrightarrow>
   kv_loop fmt base i False lp st = kv_loop fmt base (Suc i) False lp st"
  by (subst kv_loop.simps) simp

text \<open>The conversions that fetch a number.\<close>

definition num_convs :: "u8 set" where
  "num_convs = {CH (CHR ''c''), CH (CHR ''d''), CH (CHR ''u''), CH (CHR ''x''), CH (CHR ''p'')}"

lemma not_conv [simp]: "0 \<notin> num_convs" "115 \<notin> num_convs" "37 \<notin> num_convs"
  by (simp_all add: num_convs_def)

lemma kv_loop_esc:
  assumes "fmt_at fmt i = Some c" "kv_spec fmt c (Suc i) lpref = Some (c', k, width, pad, lp)"
  shows "kv_loop fmt base i True lpref st =
    (if c' \<in> num_convs then
       (case va_arg_int (c' = CH (CHR ''p'') \<or> lp > 0) (sn_args st) of
          None \<Rightarrow> None
        | Some (v, args) \<Rightarrow> (let outstr = fmt_number c' (0 < lp) v in
            kv_loop fmt k k False lp
              (kv_flush outstr (of_nat (length outstr)) width pad (st\<lparr>sn_args := args\<rparr>))))
     else if c' = CH (CHR ''s'') then
       (case va_arg_str (sn_args st) of
          None \<Rightarrow> None
        | Some (s, args) \<Rightarrow>
            let outstr = (case s of None \<Rightarrow> lit ''(null)'' | Some s \<Rightarrow> s) in
            kv_loop fmt k k False lp
              (kv_flush outstr (of_nat (length outstr)) width pad (st\<lparr>sn_args := args\<rparr>)))
     else if c' = CH (CHR ''%'') then kv_loop fmt base k False lp st
     else if c' = 0 then Some (kv_flush (drop (base - 1) fmt) (of_nat (k - base)) 0 pad st)
     else kv_loop fmt k k False lp (kv_flush (drop (base - 1) fmt) (of_nat (k - base + 1)) 0 pad st))"
proof -
  have conv: "kv_convert c' (if c' = CH (CHR ''d'') \<and> lp = 0 then scast (ucast v :: u32) else v) =
      Some (fmt_number c' (0 < lp) v)" for v
    by (rule kv_convert_ok) (simp add: word_gt_0)
  show ?thesis
    by (subst kv_loop.simps, subst assms(1), simp only: option.case if_True add_0_right add_Suc_right One_nat_def
        assms(2) prod.case num_convs_def [symmetric] Let_def conv)
      (simp split: option.splits)
qed

text \<open>The text from \<open>base\<close> on that is not flushed yet.\<close>

definition pending :: "nat \<Rightarrow> nat \<Rightarrow> cstr \<Rightarrow> cstr" where
  "pending base i fmt = take (i - base) (drop base fmt)"

lemma pending_snoc: "base \<le> i \<Longrightarrow> i < length fmt \<Longrightarrow> pending base (Suc i) fmt = pending base i fmt @ [fmt ! i]"
  by (simp add: pending_def Suc_diff_le take_Suc_conv_app_nth)

lemma pending_refl [simp]: "pending i i fmt = []"
  by (simp add: pending_def)

lemma render_num:
  assumes "cs = drop j fmt" "fmt_spec cs = (pad, width, long, conv # rest)"
  shows "render (CH (CHR ''%'') # cs) args =
     (if conv \<in> num_convs then
            (case va_arg_int (conv = CH (CHR ''p'') \<or> long) args of
               None \<Rightarrow> None
             | Some (v, args) \<Rightarrow> map_option ((@) (pad_to width pad (fmt_number conv long v))) (render rest args))
          else if conv = CH (CHR ''s'') then
            (case va_arg_str args of
               None \<Rightarrow> None
             | Some (s, args) \<Rightarrow>
                 map_option ((@) (pad_to width pad (case s of None \<Rightarrow> lit ''(null)'' | Some s \<Rightarrow> s))) (render rest args))
          else if conv = CH (CHR ''%'') then
            map_option ((@) (take (length cs - length rest) cs)) (render rest args)
          else map_option ((@) (CH (CHR ''%'') # take (length cs - length rest) cs)) (render rest args))"
  unfolding render.simps assms(2) num_convs_def by (simp only: simp_thms if_False prod.case list.case)

text \<open>Strings are shorter than the address space: the whole text is, or each argument.\<close>

definition args_fit :: "va list \<Rightarrow> bool" where
  "args_fit args \<longleftrightarrow> (\<forall>s. Va_Str (Some s) \<in> set args \<longrightarrow> length s < 2 ^ 64)"

definition fits :: "cstr \<Rightarrow> va list \<Rightarrow> bool" where
  "fits t args \<longleftrightarrow> length t < 2 ^ 64 \<or> args_fit args"

lemma fits_int: "va_arg_int long args = Some (v, args') \<Longrightarrow> fits t args \<Longrightarrow> fits t args'"
  by (cases "(long, args)" rule: va_arg_int.cases) (auto simp: fits_def args_fit_def)

lemma fits_str:
  "va_arg_str args = Some (s, args') \<Longrightarrow> fits t args \<Longrightarrow> fits t args' \<and> (length t < 2 ^ 64 \<or> (\<forall>o'. s = Some o' \<longrightarrow> length o' < 2 ^ 64))"
  by (cases args rule: va_arg_str.cases) (auto simp: fits_def args_fit_def)

lemma length_number: "length (fmt_number c long v) < 2 ^ 64"
proof -
  have "length (show_int (sint v)) \<le> 20" "length (digits 10 (unat v)) \<le> 20" "length (digits 16 (unat v)) \<le> 16"
    by (rule length_show_int length_dec length_hex)+
  moreover have "length (show_int (sint (ucast v :: u32))) \<le> 20"
    using length_show_int [of "scast (ucast v :: u32)"] by (simp add: sint_low)
  ultimately show ?thesis by (simp add: fmt_number_def lit_def)
qed

text \<open>The loop from index \<open>i\<close> on stores the text that the rest of the format stands for.\<close>

definition kv_run :: "cstr \<Rightarrow> nat \<Rightarrow> nat \<Rightarrow> bool" where
  "kv_run fmt N i \<longleftrightarrow> (\<forall>base s st t lp. base \<le> i \<longrightarrow> kv_ok N s st \<longrightarrow>
     render (drop i fmt) (sn_args st) = Some t \<longrightarrow> fits (s @ pending base i fmt @ t) (sn_args st) \<longrightarrow>
     (\<exists>st'. kv_loop fmt base i False lp st = Some st' \<and> kv_ok N (s @ pending base i fmt @ t) st'))"

lemma kv_runI:
  "(\<And>base s st t lp. base \<le> i \<Longrightarrow> kv_ok N s st \<Longrightarrow> render (drop i fmt) (sn_args st) = Some t \<Longrightarrow>
     fits (s @ pending base i fmt @ t) (sn_args st) \<Longrightarrow>
     \<exists>st'. kv_loop fmt base i False lp st = Some st' \<and> kv_ok N (s @ pending base i fmt @ t) st') \<Longrightarrow>
   kv_run fmt N i"
  unfolding kv_run_def by blast

lemma kv_runD:
  "kv_run fmt N i \<Longrightarrow> base \<le> i \<Longrightarrow> kv_ok N s st \<Longrightarrow> render (drop i fmt) (sn_args st) = Some t \<Longrightarrow>
   fits (s @ pending base i fmt @ t) (sn_args st) \<Longrightarrow>
   \<exists>st'. kv_loop fmt base i False lp st = Some st' \<and> kv_ok N (s @ pending base i fmt @ t) st'"
  unfolding kv_run_def by blast

text \<open>After a flush, behind the conversion.\<close>

lemma kv_run_flush:
  assumes run: "kv_run fmt N k" and ok: "kv_ok N (s @ u) st"
    and r: "render (drop k fmt) (sn_args st) = Some t'" "fits (s @ u @ t') (sn_args st)"
  shows "\<exists>st'. kv_loop fmt k k False lp st = Some st' \<and> kv_ok N (s @ u @ t') st'"
  using kv_runD [OF run order.refl ok r(1), of lp] r(2) by simp

text \<open>A conversion.\<close>

lemma kv_run_esc:
  assumes i: "i < length fmt" "fmt ! i = CH (CHR ''%'')" and z: "0 \<notin> set fmt" and len: "length fmt < 2 ^ 64"
    and runs: "\<And>k. i < k \<Longrightarrow> k \<le> length fmt \<Longrightarrow> kv_run fmt N k"
    and ok: "kv_ok N s st" and r: "render (drop i fmt) (sn_args st) = Some t" "fits (s @ t) (sn_args st)"
  shows "\<exists>st'. kv_loop fmt (Suc i) (Suc i) True 0 st = Some st' \<and> kv_ok N (s @ t) st'"
proof -
  let ?cs = "drop (Suc i) fmt"
  have d: "drop i fmt = CH (CHR ''%'') # ?cs" using Cons_nth_drop_Suc [OF i(1)] i(2) by simp
  have ch: "fmt_at fmt (Suc i) = Some (at0 ?cs)" by (rule fmt_at_drop) (use i in simp)
  obtain k pad width lp where k: "Suc i \<le> k" "k \<le> length fmt"
    "kv_spec fmt (at0 ?cs) (Suc (Suc i)) 0 = Some (at0 (drop k fmt), Suc k, width, pad, lp)"
    "fmt_spec ?cs = (pad, width, 0 < lp, drop k fmt)"
    using kv_spec_ok [of "Suc i" fmt] i len by auto
  note esc = kv_loop_esc [OF ch k(3)]
  show ?thesis
  proof (cases "drop k fmt")
    case Nil
    then have "k = length fmt" using k(2) by simp
    moreover have "t = drop i fmt" using r(1) unfolding d render.simps k(4) Nil by simp
    ultimately have "kv_ok N (s @ t) (kv_flush (drop i fmt) (of_nat (k - i)) 0 pad st)"
      using kv_flush_text [OF ok, of "k - i" "drop i fmt" pad] len by simp
    then show ?thesis unfolding esc Nil by simp
  next
    case (Cons conv rest)
    note c = drop_Cons_Suc [OF Cons]
    have c0: "conv \<noteq> 0" using c z by (metis nth_mem)
    have run: "kv_run fmt N (Suc k)" by (rule runs) (use k c in simp_all)
    have tk: "take (length ?cs - length rest) ?cs = take (k - i) ?cs" using c k(1) by simp
    note re = r(1) [unfolded d render_num [OF refl k(4) [unfolded Cons]] tk]
    note es = esc [unfolded Cons at0_simps]
    consider (num) "conv \<in> num_convs" | (str) "conv = CH (CHR ''s'')" | (pct) "conv = CH (CHR ''%'')"
      | (other) "conv \<notin> num_convs" "conv \<noteq> CH (CHR ''s'')" "conv \<noteq> CH (CHR ''%'')" by blast
    then show ?thesis
    proof cases
      case num
      with re obtain v args t' where v: "va_arg_int (conv = CH (CHR ''p'') \<or> 0 < lp) (sn_args st) = Some (v, args)"
        "render (drop (Suc k) fmt) args = Some t'" "t = pad_to width pad (fmt_number conv (0 < lp) v) @ t'"
        using c by (auto split: option.splits)
      have "kv_ok N (s @ pad_to width pad (fmt_number conv (0 < lp) v))
          (kv_flush (fmt_number conv (0 < lp) v) (of_nat (length (fmt_number conv (0 < lp) v))) width pad
            (st\<lparr>sn_args := args\<rparr>))"
        by (rule kv_flush_all [OF _ length_number]) (simp add: ok)
      from kv_run_flush [OF run this, of t' lp] v fits_int [OF v(1) r(2)] show ?thesis
        unfolding es using num by (simp add: Let_def)
    next
      case str
      with re obtain o' args t' where v: "va_arg_str (sn_args st) = Some (o', args)"
        "render (drop (Suc k) fmt) args = Some t'"
        "t = pad_to width pad (case o' of None \<Rightarrow> lit ''(null)'' | Some s \<Rightarrow> s) @ t'"
        using c by (auto split: option.splits)
      have "kv_ok N (s @ pad_to width pad (case o' of None \<Rightarrow> lit ''(null)'' | Some s \<Rightarrow> s))
          (kv_flush (case o' of None \<Rightarrow> lit ''(null)'' | Some s \<Rightarrow> s)
            (of_nat (length (case o' of None \<Rightarrow> lit ''(null)'' | Some s \<Rightarrow> s))) width pad (st\<lparr>sn_args := args\<rparr>))"
      proof (rule kv_flush_all)
        show "length (case o' of None \<Rightarrow> lit ''(null)'' | Some s \<Rightarrow> s) < 2 ^ 64"
          using fits_str [OF v(1) r(2)] v(3) by (auto simp: lit_def pad_to_def split: option.splits)
      qed (simp add: ok)
      from kv_run_flush [OF run this, of t' lp] v fits_str [OF v(1) r(2)] show ?thesis
        unfolding es str by (simp add: Let_def)
    next
      case pct
      with re obtain t' where t': "render (drop (Suc k) fmt) (sn_args st) = Some t'" "t = pending (Suc i) (Suc k) fmt @ t'"
        using c by (auto simp: pending_def)
      then show ?thesis
        unfolding es using pct kv_runD [OF run _ ok t'(1), of "Suc i" lp] r(2) k(1) by simp
    next
      case other
      with re obtain t' where t': "render (drop (Suc k) fmt) (sn_args st) = Some t'"
        "t = take (Suc (k - i)) (drop i fmt) @ t'"
        using c unfolding d by auto
      have "kv_ok N (s @ take (Suc (k - i)) (drop i fmt)) (kv_flush (drop i fmt) (of_nat (Suc (k - i))) 0 pad st)"
      proof (rule kv_flush_text [OF ok])
        have "Suc (k - i) \<le> length fmt - i" using c k(1) by linarith
        then show "Suc (k - i) \<le> length (drop i fmt)" by simp
      qed (use len in simp)
      from kv_run_flush [OF run this, of t' lp] t' r(2) show ?thesis
        unfolding es using other c0 by simp
    qed
  qed
qed

lemma kv_run_all:
  assumes z: "0 \<notin> set fmt" and len: "length fmt < 2 ^ 64"
  shows "i \<le> length fmt \<Longrightarrow> kv_run fmt N i"
proof (induction "length fmt - i" arbitrary: i rule: less_induct)
  case less
  have runs: "kv_run fmt N k" if "i < k" "k \<le> length fmt" for k
    by (rule less.hyps) (use that in simp_all)
  show ?case
  proof (rule kv_runI)
    fix base s st t lp
    assume b: "base \<le> i" and ok: "kv_ok N s st" and r: "render (drop i fmt) (sn_args st) = Some t"
      "fits (s @ pending base i fmt @ t) (sn_args st)"
    note flush = kv_flush_text [OF ok, of "i - base" "drop base fmt" "CH (CHR '' '')", folded pending_def]
    show "\<exists>st'. kv_loop fmt base i False lp st = Some st' \<and> kv_ok N (s @ pending base i fmt @ t) st'"
    proof (cases "i < length fmt")
      case False
      then have "i = length fmt" using less.prems by simp
      moreover from this have "t = []" using r(1) by simp
      ultimately show ?thesis using flush len b kv_loop_end [of fmt i base lp st] by (simp add: fmt_at_def)
    next
      case True
      note d = Cons_nth_drop_Suc [OF True, symmetric]
      have c: "fmt_at fmt i = Some (fmt ! i)" "fmt ! i \<noteq> 0" using True z by (auto simp: fmt_at_def) (metis nth_mem)
      show ?thesis
      proof (cases "fmt ! i = CH (CHR ''%'')")
        case pct: True
        have "kv_ok N (s @ pending base i fmt) (kv_flush (drop base fmt) (of_nat (i - base)) 0 (CH (CHR '' '')) st)"
          using flush len True b by simp
        from kv_run_esc [OF True pct z len runs this, of t] r show ?thesis
          unfolding kv_loop_pct [OF c(1) [unfolded pct]] by simp
      next
        case lit: False
        then obtain t' where t': "render (drop (Suc i) fmt) (sn_args st) = Some t'" "t = fmt ! i # t'"
          using r(1) unfolding d by auto
        have "\<exists>st'. kv_loop fmt base (Suc i) False lp st = Some st' \<and> kv_ok N (s @ pending base (Suc i) fmt @ t') st'"
          by (rule kv_runD [OF runs _ ok t'(1)]) (use True b r(2) t'(2) in \<open>simp_all add: pending_snoc\<close>)
        then show ?thesis
          unfolding kv_loop_lit [OF c lit] using t'(2) True b by (simp add: pending_snoc)
      qed
    qed
  qed
qed

section \<open>Properties\<close>

text \<open>The count behind which the zero goes: at the end of the text, or in the last byte.  The count
  wraps round, which matters for texts longer than the address space only.\<close>

definition zero_at :: "u64 \<Rightarrow> cstr \<Rightarrow> nat" where
  "zero_at n t = min (length t mod 2 ^ 64) (unat n - 1)"

lemma kvsnprintf_all:
  assumes "0 \<notin> set fmt" "length fmt < 2 ^ 64" "render fmt args = Some t" "fits t args"
  shows "kvsnprintf n fmt args = Some (if n = 0 then [] else
    let k = zero_at n t in if k < length (take (unat n) t) then (take (unat n) t)[k := 0] else t @ [0])"
proof -
  define st0 where "st0 = \<lparr>sn_out = [], sn_n = n, sn_written = 0, sn_args = args\<rparr>"
  have "kv_ok (unat n) [] st0" by (simp add: kv_ok_def st0_def)
  from kv_runD [OF kv_run_all [OF assms(1,2)] _ this, where i = 0 and base = 0 and lp = 0 and t = t] assms(3,4)
  obtain st where st: "kv_loop fmt 0 0 False 0 st0 = Some st" "kv_ok (unat n) t st"
    by (auto simp: st0_def)
  have w: "unat (sn_written st) = length t mod 2 ^ 64" "sn_out st = take (unat n) t"
    using st(2) by (simp_all add: kv_ok_def unat_of_nat)
  show ?thesis
  proof (cases "n = 0")
    case True
    then show ?thesis using st w by (simp add: kvsnprintf_def st0_def)
  next
    case False
    then have n: "0 < unat n" "unat (n - 1) = unat n - 1" by (simp_all add: unat_gt_0 unat_minus_one)
    then have k: "(if sn_written st < n then unat (sn_written st) else unat (n - 1)) = zero_at n t"
      using w(1) by (auto simp: zero_at_def word_less_nat_alt)
    have "take (unat n) t = t" if "\<not> zero_at n t < length (take (unat n) t)"
      using that n(1) by (auto simp: zero_at_def)
    then show ?thesis
      using st(1) False by (simp only: kvsnprintf_def st0_def [symmetric] bind.bind_lunit k w(2) Let_def if_False simp_thms if_True)
        auto
  qed
qed

lemma kvsnprintf_ok:
  assumes "0 \<notin> set fmt" "length fmt < 2 ^ 64" "render fmt args = Some t" "length t < 2 ^ 64"
  shows "kvsnprintf n fmt args = Some (if n = 0 then [] else take (unat n - 1) t @ [0])"
proof (cases "n = 0")
  case True
  then show ?thesis using kvsnprintf_all [OF assms(1-3), of n] assms(4) by (simp add: fits_def)
next
  case False
  then have n: "0 < unat n" by (simp add: unat_gt_0)
  have z: "zero_at n t = min (length t) (unat n - 1)" using assms(4) by (simp add: zero_at_def)
  have "(if zero_at n t < length (take (unat n) t) then (take (unat n) t)[zero_at n t := 0] else t @ [0]) =
      take (unat n - 1) t @ [0]"
  proof (cases "length t < unat n")
    case True
    then show ?thesis by (simp add: z)
  next
    case full: False
    then have "(take (unat n) t)[unat n - 1 := 0] = take (unat n - 1) t @ [0]"
      using n by (intro nth_equalityI) (auto simp: nth_list_update nth_append)
    then show ?thesis using full n by (simp add: z)
  qed
  then show ?thesis using kvsnprintf_all [OF assms(1-3), of n] assms(4) False by (simp add: fits_def Let_def)
qed

text \<open>C17: Even for a text so long that the count of it wraps round (a width may be any number), the
  formatter returns, has stored at most \<open>n\<close> bytes, and among them a zero with nothing but the beginning of
  the text in front: in the last byte of the buffer, or where the count says that the text ends if that
  is before.\<close>

theorem kvsnprintf_in_buffer:
  assumes "0 \<notin> set fmt" "length fmt < 2 ^ 64" "render fmt args = Some t" "args_fit args"
  shows "\<exists>out. kvsnprintf n fmt args = Some out \<and> length out \<le> unat n \<and>
    (n \<noteq> 0 \<longrightarrow> zero_at n t < length out \<and> out ! zero_at n t = 0 \<and>
       take (zero_at n t) out = take (zero_at n t) t)"
proof -
  have "fits t args" using assms(4) by (simp add: fits_def)
  note run = kvsnprintf_all [OF assms(1-3) this, of n]
  show ?thesis
  proof (cases "n = 0")
    case True
    then show ?thesis using run by simp
  next
    case False
    then have n: "0 < unat n" by (simp add: unat_gt_0)
    define k where "k = zero_at n t"
    have k: "k < unat n" "k \<le> length t" using n by (auto simp: k_def zero_at_def intro: le_trans [OF min.cobounded1])
    define out where "out = (if k < length (take (unat n) t) then (take (unat n) t)[k := 0] else t @ [0])"
    have "length out \<le> unat n \<and> k < length out \<and> out ! k = 0 \<and> take k out = take k t"
      using k by (auto simp: out_def nth_append)
    moreover have "kvsnprintf n fmt args = Some out"
      using run False unfolding out_def k_def Let_def by (simp only: if_False simp_thms)
    ultimately show ?thesis unfolding k_def by blast
  qed
qed

text \<open>The width in this format is 6 less than 2 to the 64: the zero is in the fifth byte of the eight.\<close>

lemma kvsnprintf_in_buffer_witness:
  "\<exists>out. kvsnprintf 8 (lit ''%18446744073709551610dabcdefghij'') [Va_Int 1] = Some out \<and> length out \<le> 8 \<and>
     out ! 4 = 0"
proof -
  let ?fmt = "lit ''%18446744073709551610dabcdefghij''" and ?cs = "lit ''18446744073709551610dabcdefghij''"
  have f: "?fmt = CH (CHR ''%'') # ?cs" by (simp add: lit_def)
  have spec: "fmt_spec ?cs = (CH (CHR '' ''), 18446744073709551610, False, CH (CHR ''d'') # lit ''abcdefghij'')"
    by code_simp
  have rest: "render (lit ''abcdefghij'') [] = Some (lit ''abcdefghij'')" by code_simp
  have num: "fmt_number (CH (CHR ''d'')) False 1 = lit ''1''" by code_simp
  have conv: "CH (CHR ''d'') \<in> num_convs" "CH (CHR ''d'') \<noteq> CH (CHR ''p'')" by (simp_all add: num_convs_def)
  have arg: "va_arg_int False [Va_Int 1] = Some (1, [])" by simp
  define t where "t = pad_to 18446744073709551610 (CH (CHR '' '')) (lit ''1'') @ lit ''abcdefghij''"
  have t: "render ?fmt [Va_Int 1] = Some t"
    unfolding f render_num [of ?cs 0 ?cs, OF drop_0 [symmetric] spec]
    by (simp only: conv if_True if_False simp_thms arg option.case prod.case num rest option.map t_def)
  have "unat (18446744073709551610 :: u64) = 18446744073709551610" by simp
  then have "length t = 18446744073709551620" by (simp add: t_def pad_to_def lit_def)
  then have z: "zero_at 8 t = 4" by (simp add: zero_at_def)
  have "0 \<notin> set ?fmt" "length ?fmt < 2 ^ 64" "args_fit [Va_Int 1]" by (simp_all add: lit_def args_fit_def)
  from kvsnprintf_in_buffer [OF this(1,2) t this(3), of 8] show ?thesis unfolding z by auto
qed

text \<open>C16: \<open>kvsnprintf\<close> returns, and what it leaves in the buffer is the text the format stands for, cut
  to \<open>n - 1\<close> bytes, and a zero; nothing when \<open>n\<close> is 0.\<close>

theorem kvsnprintf_correct:
  assumes "0 \<notin> set fmt" "length fmt < 2 ^ 64" "render fmt args = Some t" "length t < 2 ^ 64"
  shows "kvsnprintf n fmt args = Some (if n = 0 then [] else take (unat n - 1) t @ [0])"
  by (rule kvsnprintf_ok [OF assms])

lemma kvsnprintf_witness:
  "kvsnprintf 8 (lit ''{idle-%d}'') [Va_Int 12] = Some (lit ''{idle-1'' @ [0])"
proof -
  have "render (lit ''{idle-%d}'') [Va_Int 12] = Some (lit ''{idle-12}'')" by code_simp
  from kvsnprintf_correct [OF _ _ this, of 8] show ?thesis by (simp add: lit_def)
qed

end
