(* ===== verification/Vmar_Find.thy ===== *)
theory Vmar_Find
  imports Vmar_Alloc
begin

text \<open>The lookup of an address through nested regions, \<open>vmar_find_mapping\<close>, against the list of the
  leaves of the tree.\<close>

section \<open>Trees of vmars\<close>

datatype vtree = Leaf_Vmar ptr | Region_Vmar ptr "vtree list"

fun troot :: "vtree \<Rightarrow> ptr" where
  "troot (Leaf_Vmar v) = v"
| "troot (Region_Vmar r ts) = r"

text \<open>\<open>h\<close> holds the tree: every region of it meets the invariant, and the leaves are no regions.\<close>

fun vspace :: "kstate \<Rightarrow> vtree \<Rightarrow> bool" where
  "vspace h (Leaf_Vmar v) \<longleftrightarrow> vm_kind (vs h) v \<noteq> VMAR_KIND_REGION"
| "vspace h (Region_Vmar r ts) \<longleftrightarrow> vregion h r (map troot ts) \<and> (\<forall>t\<in>set ts. vspace h t)"

fun leaves :: "vtree \<Rightarrow> ptr list" where
  "leaves (Leaf_Vmar v) = [v]"
| "leaves (Region_Vmar r ts) = concat (map leaves ts)"

text \<open>The page of the address is one of the pages of the vmar.\<close>

definition contains :: "vmars \<Rightarrow> ptr \<Rightarrow> ptr \<Rightarrow> bool" where
  "contains z a v \<longleftrightarrow> pg z v \<le> vpage a \<and> vpage a < pg_end z v"

text \<open>The leaf that contains the address, null if there is none.\<close>

definition leaf_at :: "vmars \<Rightarrow> ptr \<Rightarrow> vtree \<Rightarrow> ptr" where
  "leaf_at z a t = hd0 (filter (contains z a) (leaves t))"

lemma leaf_inside:
  "vspace h t \<Longrightarrow> l \<in> set (leaves t) \<Longrightarrow> pg (vs h) (troot t) \<le> pg (vs h) l \<and> pg_end (vs h) l \<le> pg_end (vs h) (troot t)"
proof (induction t)
  case (Region_Vmar r ts)
  then obtain t where t: "t \<in> set ts" "l \<in> set (leaves t)" by auto
  have "pg (vs h) r \<le> pg (vs h) (troot t) \<and> pg_end (vs h) (troot t) \<le> pg_end (vs h) r"
    using vregion_facts(1,2) [of h r "map troot ts"] packed_mem [of "vs h" "pg (vs h) r" "map troot ts" "troot t"]
      Region_Vmar.prems(1) t(1) by fastforce
  moreover have "pg (vs h) (troot t) \<le> pg (vs h) l \<and> pg_end (vs h) l \<le> pg_end (vs h) (troot t)"
    using Region_Vmar t by simp
  ultimately show ?case by simp
qed simp

lemma no_leaf:
  "vspace h t \<Longrightarrow> \<not> contains (vs h) a (troot t) \<Longrightarrow> filter (contains (vs h) a) (leaves t) = []"
  using leaf_inside [of h t] by (force simp: filter_empty_conv contains_def)

lemma filter_concat_map: "filter P (concat (map f xs)) = concat (map (filter P \<circ> f) xs)"
  by (induction xs) simp_all

text \<open>Of the children of a region, only one contains the address.\<close>

lemma contains_unique:
  assumes "packed z s (us @ v # ws)" "contains z a v" "u \<in> set us \<union> set ws"
  shows "\<not> contains z a u"
proof -
  have "sorted_wrt (\<lambda>a b. pg_end z a \<le> pg z b) (us @ v # ws)" by (rule packed_sorted [OF assms(1)])
  with assms(2,3) show ?thesis by (fastforce simp: sorted_wrt_append contains_def)
qed

lemma find_leaf_ok:
  "vspace h t \<Longrightarrow> t = Region_Vmar r ts \<Longrightarrow> vmar_find_leaf h r a = Some (leaf_at (vs h) a t)"
proof (induction t arbitrary: r ts)
  case (Region_Vmar r' ts')
  then have eq: "r' = r" "ts' = ts" by simp_all
  note reg = Region_Vmar.prems(1) [unfolded eq vspace.simps]
  obtain v where v: "vmar_find_internal h r a = Some v"
    "if v = 0 then \<forall>c\<in>set (map troot ts). \<not> contains (vs h) a c
     else v \<in> set (map troot ts) \<and> contains (vs h) a v"
    using vmar_find_internal_ok [OF conjunct1 [OF reg], of a] unfolding contains_def by blast
  show ?case
  proof (cases "v = 0")
    case True
    then have "\<forall>t\<in>set ts. filter (contains (vs h) a) (leaves t) = []"
      using v(2) reg no_leaf by simp
    then have "concat (map (filter (contains (vs h) a) \<circ> leaves) ts) = []" by simp
    then have "leaf_at (vs h) a (Region_Vmar r ts) = 0"
      by (simp only: leaf_at_def leaves.simps filter_concat_map hd0_simps)
    then show ?thesis using v(1) True unfolding eq by (subst vmar_find_leaf.simps) simp
  next
    case False
    then obtain us t ws where t: "ts = us @ t # ws" "v = troot t" using v(2) by (auto dest: split_list)
    have pk: "packed (vs h) (pg (vs h) r) (map troot us @ v # map troot ws)"
      using vregion_facts(1) [OF conjunct1 [OF reg]] t by simp
    have c: "contains (vs h) a v" using v(2) False by simp
    have "filter (contains (vs h) a) (leaves u) = []" if "u \<in> set us \<union> set ws" for u
    proof (rule no_leaf)
      show "vspace h u" using that reg t(1) by auto
      show "\<not> contains (vs h) a (troot u)" by (rule contains_unique [OF pk c]) (use that in auto)
    qed
    then have cc: "filter (contains (vs h) a) (concat (map leaves us)) = []"
      "filter (contains (vs h) a) (concat (map leaves ws)) = []" by (auto simp: filter_concat_map)
    have l: "leaf_at (vs h) a (Region_Vmar r ts) = leaf_at (vs h) a t"
      unfolding leaf_at_def leaves.simps t(1) map_append list.map concat_append concat.simps filter_append
        cc append_Nil append_Nil2 ..
    have st: "vspace h t" using reg t(1) by simp
    show ?thesis
    proof (cases t)
      case (Leaf_Vmar v')
      then have "vm_kind (vs h) v \<noteq> VMAR_KIND_REGION" "leaf_at (vs h) a t = v"
        using st t(2) c by (simp_all add: leaf_at_def)
      then show ?thesis using v(1) False l unfolding eq by (subst vmar_find_leaf.simps) simp
    next
      case (Region_Vmar r2 ts2)
      then have "vmar_find_leaf h v a = Some (leaf_at (vs h) a t)"
        using Region_Vmar.IH [of t r2 ts2] t st unfolding eq by simp
      moreover have "vm_kind (vs h) v = VMAR_KIND_REGION"
        using st t(2) vregion_facts(5) [of h r2 "map troot ts2"] Region_Vmar by simp
      ultimately show ?thesis using v(1) False l unfolding eq by (subst vmar_find_leaf.simps) simp
    qed
  qed
qed simp

end
