(* ===== verification/Boot.thy ===== *)
theory Boot
  imports Vmar
begin

text \<open>
  \<open>src/boot/virt.c\<close>: the first memory of the kernel.  Pages come straight out of the memory map of
  the boot loader; with them the kernel builds its own page tables, then the bitmap of the buddy
  allocator, and hands what is left of the memory to \<open>phys.c\<close>.

  The responses of the boot loader (the protocol of \<open>limine.h\<close>) are options: no response is the
  null pointer.  The array of pointers to entries is the list of the entries.
\<close>

section \<open>State\<close>

record limine_memmap_entry =
  me_base :: u64
  me_length :: u64
  me_type :: u64

definition LIMINE_MEMMAP_USABLE :: u64 where "LIMINE_MEMMAP_USABLE = 0"
definition LIMINE_MEMMAP_BOOTLOADER_RECLAIMABLE :: u64 where
  "LIMINE_MEMMAP_BOOTLOADER_RECLAIMABLE = 5"
definition LIMINE_PAGING_MODE_X86_64_4LVL :: u64 where "LIMINE_PAGING_MODE_X86_64_4LVL = 0"

record limine_executable_address =
  physical_base :: u64
  virtual_base :: u64

text \<open>The static vmars of \<open>mapping.c\<close>, one for each section of the kernel image.\<close>

record kernel_sections =
  g_kernel_limine_requests_mapping :: ptr
  g_kernel_init_text_mapping :: ptr
  g_kernel_init_rodata_mapping :: ptr
  g_kernel_init_data_mapping :: ptr
  g_kernel_text_mapping :: ptr
  g_kernel_rodata_mapping :: ptr
  g_kernel_late_rodata_mapping :: ptr
  g_kernel_data_mapping :: ptr

text \<open>
  Fields, in order: the responses to the requests of \<open>boot/virt.c\<close>; its variables; the register
  \<open>cr3\<close>; the sections of the kernel; the rest of the kernel.
\<close>

record boot =
  memmap :: "limine_memmap_entry list option"
  hhdm_offset :: "u64 option"
  executable_address :: "limine_executable_address option"
  paging_mode :: "u64 option"
  m_early_alloc_top :: u64
  m_early_alloc_size :: u64
  m_early_alloc_page_count :: u64
  cr3 :: u64
  ksections :: kernel_sections
  bk :: kstate

definition bmm :: "boot \<Rightarrow> mm" where "bmm b = phys_mem (vs (bk b))"
definition bdm :: "boot \<Rightarrow> u64" where "bdm b = dm_base (bk b)"

definition on_bk :: "(kstate \<Rightarrow> kstate option) \<Rightarrow> boot \<Rightarrow> boot option" where
  "on_bk f b = (case f (bk b) of None \<Rightarrow> None | Some h \<Rightarrow> Some (b\<lparr>bk := h\<rparr>))"

definition on_bmm :: "(mm \<Rightarrow> mm) \<Rightarrow> boot \<Rightarrow> boot" where
  "on_bmm f b = b\<lparr>bk := on_vs (phys_mem_update f) (bk b)\<rparr>"

section \<open>The early allocator\<close>

text \<open>The loop of \<open>early_alloc_find_next_entry\<close> over the entries that are left.\<close>

fun early_find_loop :: "limine_memmap_entry list \<Rightarrow> boot \<Rightarrow> boot option" where
  "early_find_loop [] b = None"
| "early_find_loop (e # es) b =
     (if me_type e \<noteq> LIMINE_MEMMAP_USABLE then early_find_loop es b
      else if me_base e < m_early_alloc_top b then early_find_loop es b
      else do {
        let b = b\<lparr>m_early_alloc_top := me_base e, m_early_alloc_size := me_length e\<rparr>;
        ASSERT (m_early_alloc_top b mod PAGE_SIZE = 0);
        ASSERT (m_early_alloc_size b mod PAGE_SIZE = 0);
        Some b })"

definition early_alloc_find_next_entry :: "boot \<Rightarrow> boot option" where
  "early_alloc_find_next_entry b = do { entries \<leftarrow> memmap b; early_find_loop entries b }"

definition early_phys_alloc_page :: "boot \<Rightarrow> (ptr \<times> boot) option" where
  "early_phys_alloc_page b = do {
     b \<leftarrow> (if m_early_alloc_size b = 0 then early_alloc_find_next_entry b else Some b);
     let phys = m_early_alloc_top b;
     let b = b\<lparr>m_early_alloc_top := m_early_alloc_top b + PAGE_SIZE,
               m_early_alloc_size := m_early_alloc_size b - PAGE_SIZE,
               m_early_alloc_page_count := m_early_alloc_page_count b + 1\<rparr>;
     let p = phys_to_direct (bdm b) phys;
     Some (p, on_bmm (memset p 0 PAGE_SIZE) b) }"

section \<open>The early regions\<close>

definition SIZE_4GB :: u64 where "SIZE_4GB = 0x100000000"
definition SIZE_128TB :: u64 where "SIZE_128TB = 0x800000000000"

definition set_range_of :: "ptr \<Rightarrow> u64 \<Rightarrow> u64 \<Rightarrow> kstate \<Rightarrow> kstate" where
  "set_range_of vmar base page_count h = on_vs (\<lambda>z. z\<lparr>vm_base := (vm_base z)(vmar := base),
     vm_page_count := (vm_page_count z)(vmar := page_count)\<rparr>) h"

text \<open>The result is the number of levels of the page tables.\<close>

definition init_kernel_region :: "boot \<Rightarrow> (nat \<times> boot) option" where
  "init_kernel_region b = do {
     mode \<leftarrow> paging_mode b;
     if mode = LIMINE_PAGING_MODE_X86_64_4LVL then
       let h = set_range_of (g_kernel_region (vs (bk b))) 0xFFFF800000000000
                 (SIZE_128TB div PAGE_SIZE) (bk b);
           h = set_range_of (g_user_region (vs h)) SIZE_4GB
                 ((SIZE_128TB - SIZE_4GB - PAGE_SIZE) div PAGE_SIZE) h
       in Some (4, b\<lparr>bk := h\<rparr>)
     else None }"

text \<open>The last entry that the direct map must reach decides; the loop runs downwards.\<close>

definition direct_mapped :: "limine_memmap_entry \<Rightarrow> bool" where
  "direct_mapped e \<longleftrightarrow> me_type e = LIMINE_MEMMAP_USABLE \<or>
     me_type e = LIMINE_MEMMAP_BOOTLOADER_RECLAIMABLE"

fun top_address_loop :: "limine_memmap_entry list \<Rightarrow> u64" where
  "top_address_loop [] = 0"
| "top_address_loop (e # rev_es) =
     (if direct_mapped e then me_base e + me_length e else top_address_loop rev_es)"

definition init_direct_map :: "boot \<Rightarrow> boot option" where
  "init_direct_map b = do {
     offset \<leftarrow> hhdm_offset b;
     entries \<leftarrow> memmap b;
     let top_address = top_address_loop (rev entries);
     Some (b\<lparr>bk := set_range_of (g_direct_map (vs (bk b))) offset (top_address div PAGE_SIZE) (bk b)\<rparr>) }"

section \<open>Early page tables\<close>

definition early_virt_get_next_level :: "ptr \<Rightarrow> boot \<Rightarrow> (ptr \<times> boot) option" where
  "early_virt_get_next_level entry b = do {
     b \<leftarrow> (if mem64 (bmm b) entry AND IA32_PG_P = 0 then do {
             (phys, b) \<leftarrow> early_phys_alloc_page b;
             Some (on_bmm (store64 entry (direct_to_phys (bdm b) phys OR IA32_PG_P OR IA32_PG_RW)) b) }
           else Some b);
     Some (phys_to_direct (bdm b) (mem64 (bmm b) entry AND PAGING_4K_ADDRESS_MASK), b) }"

text \<open>The loop of \<open>early_virt_get_pte\<close>, from level \<open>i\<close> down.\<close>

fun early_walk :: "ptr \<Rightarrow> nat \<Rightarrow> ptr \<Rightarrow> boot \<Rightarrow> (ptr \<times> boot) option" where
  "early_walk virt 0 table b = Some (table + 8 * virt_index virt 0, b)"
| "early_walk virt (Suc i) table b =
     (case early_virt_get_next_level (table + 8 * virt_index virt (Suc i)) b of
        None \<Rightarrow> None
      | Some (table, b) \<Rightarrow> early_walk virt i table b)"

definition early_virt_get_pte :: "ptr \<Rightarrow> boot \<Rightarrow> (ptr \<times> boot) option" where
  "early_virt_get_pte virt b =
     (case g_page_table_levels (bmm b) of
        0 \<Rightarrow> None
      | Suc i \<Rightarrow> early_walk virt i (g_page_table (bmm b)) b)"

definition early_virt_map_page :: "ptr \<Rightarrow> u64 \<Rightarrow> u64 \<Rightarrow> boot \<Rightarrow> boot option" where
  "early_virt_map_page virt phys flags b = do {
     (pte, b) \<leftarrow> early_virt_get_pte virt b;
     ASSERT (mem64 (bmm b) pte = 0);
     Some (on_bmm (store64 pte (phys OR IA32_PG_P OR IA32_PG_A OR flags)) b) }"

fun early_virt_map_loop :: "nat \<Rightarrow> ptr \<Rightarrow> u64 \<Rightarrow> u64 \<Rightarrow> boot \<Rightarrow> boot option" where
  "early_virt_map_loop 0 virt phys flags b = Some b"
| "early_virt_map_loop (Suc num_pages) virt phys flags b =
     (case early_virt_map_page virt phys flags b of
        None \<Rightarrow> None
      | Some b \<Rightarrow> early_virt_map_loop num_pages (virt + PAGE_SIZE) (phys + PAGE_SIZE) flags b)"

definition early_virt_map :: "ptr \<Rightarrow> u64 \<Rightarrow> u64 \<Rightarrow> u64 \<Rightarrow> boot \<Rightarrow> boot option" where
  "early_virt_map virt phys num_pages flags b =
     early_virt_map_loop (unat num_pages) virt phys flags b"

definition early_map_vmar :: "ptr \<Rightarrow> vm_perm \<Rightarrow> boot \<Rightarrow> boot option" where
  "early_map_vmar vmar perms b = do {
     response \<leftarrow> executable_address b;
     let phys_base = physical_base response;
     let virt_base = virtual_base response;
     let phys_addr = (vm_base (vs (bk b)) vmar - virt_base) + phys_base;
     let flags = IA32_PG_G;
     let flags = (if perms = VM_PERM_RW then flags OR (IA32_PG_D OR IA32_PG_RW) else flags);
     let flags = (if perms \<noteq> VM_PERM_RX then flags OR IA32_PG_NX else flags);
     early_virt_map (vm_base (vs (bk b)) vmar) phys_addr (vm_page_count (vs (bk b)) vmar) flags b }"

definition early_map_kernel :: "boot \<Rightarrow> boot option" where
  "early_map_kernel b = do {
     let s = ksections b;
     b \<leftarrow> early_map_vmar (g_kernel_limine_requests_mapping s) VM_PERM_RO b;
     b \<leftarrow> early_map_vmar (g_kernel_init_text_mapping s) VM_PERM_RX b;
     b \<leftarrow> early_map_vmar (g_kernel_init_rodata_mapping s) VM_PERM_RO b;
     b \<leftarrow> early_map_vmar (g_kernel_init_data_mapping s) VM_PERM_RW b;
     b \<leftarrow> early_map_vmar (g_kernel_text_mapping s) VM_PERM_RX b;
     b \<leftarrow> early_map_vmar (g_kernel_rodata_mapping s) VM_PERM_RO b;
     b \<leftarrow> early_map_vmar (g_kernel_late_rodata_mapping s) VM_PERM_RW b;
     early_map_vmar (g_kernel_data_mapping s) VM_PERM_RW b }"

fun early_map_direct_loop :: "limine_memmap_entry list \<Rightarrow> boot \<Rightarrow> boot option" where
  "early_map_direct_loop [] b = Some b"
| "early_map_direct_loop (e # es) b =
     (if \<not> direct_mapped e then early_map_direct_loop es b
      else case early_virt_map (phys_to_direct (bdm b) (me_base e)) (me_base e)
                  (me_length e div PAGE_SIZE) (IA32_PG_RW OR IA32_PG_D OR IA32_PG_NX) b of
             None \<Rightarrow> None
           | Some b \<Rightarrow> early_map_direct_loop es b)"

definition early_map_direct_map :: "boot \<Rightarrow> boot option" where
  "early_map_direct_map b = do { entries \<leftarrow> memmap b; early_map_direct_loop entries b }"

section \<open>The bitmap of the buddy allocator\<close>

definition early_bitmap_page :: "ptr \<Rightarrow> boot \<Rightarrow> boot option" where
  "early_bitmap_page bitmap_ptr b = do {
     (pte, b) \<leftarrow> early_virt_get_pte bitmap_ptr b;
     if mem64 (bmm b) pte AND IA32_PG_P \<noteq> 0 then Some b
     else do {
       (p, b) \<leftarrow> early_phys_alloc_page b;
       let entry = direct_to_phys (bdm b) p;
       let entry = entry OR (IA32_PG_P OR IA32_PG_RW OR IA32_PG_NX);
       let entry = entry OR IA32_PG_G;
       let entry = entry OR (IA32_PG_D OR IA32_PG_A);
       Some (on_bmm (store64 pte entry) b) } }"

partial_function (option) early_bitmap_pages :: "ptr \<Rightarrow> ptr \<Rightarrow> boot \<Rightarrow> boot option" where
  "early_bitmap_pages bitmap_ptr bitmap_end_ptr b =
     (if bitmap_ptr < bitmap_end_ptr then do {
        b \<leftarrow> early_bitmap_page bitmap_ptr b;
        early_bitmap_pages (bitmap_ptr + PAGE_SIZE) bitmap_end_ptr b }
      else Some b)"

definition early_bitmap_entry :: "limine_memmap_entry \<Rightarrow> boot \<Rightarrow> boot option" where
  "early_bitmap_entry e b =
     (let start = ALIGN_DOWN (me_base e) PHYS_BUDDY_MAX_SIZE;
          fin = ALIGN_UP (me_base e + me_length e) PHYS_BUDDY_MAX_SIZE;
          bitmap_start = ALIGN_DOWN (drop_bit PHYS_BUDDY_MIN_ORDER start div 8) PAGE_SIZE;
          bitmap_end = ALIGN_UP (DIV_ROUND_UP (drop_bit PHYS_BUDDY_MIN_ORDER fin) 8) PAGE_SIZE;
          base = vm_base (vs (bk b)) (g_buddy_bitmap_mapping (vs (bk b)))
      in early_bitmap_pages (base + bitmap_start) (base + bitmap_end) b)"

fun early_bitmap_loop :: "limine_memmap_entry list \<Rightarrow> boot \<Rightarrow> boot option" where
  "early_bitmap_loop [] b = Some b"
| "early_bitmap_loop (e # es) b =
     (if \<not> direct_mapped e then early_bitmap_loop es b
      else case early_bitmap_entry e b of
             None \<Rightarrow> None
           | Some b \<Rightarrow> early_bitmap_loop es b)"

definition early_create_buddy_bitmap :: "boot \<Rightarrow> boot option" where
  "early_create_buddy_bitmap b = do {
     let z = vs (bk b);
     let top = ALIGN_UP (vm_page_count z (g_direct_map z) * PAGE_SIZE) PHYS_BUDDY_MAX_SIZE;
     let bitmap_page_count =
       DIV_ROUND_UP (DIV_ROUND_UP (drop_bit PHYS_BUDDY_MIN_ORDER top) 8) PAGE_SIZE;
     b \<leftarrow> on_bk (\<lambda>h. do {
            (err, h) \<leftarrow> vmar_allocate_static (g_kernel_region z) (g_buddy_bitmap_mapping z)
              VMAR_ANY_OFFSET bitmap_page_count h;
            ASSERT (\<not> IS_ERROR err);
            Some h }) b;
     entries \<leftarrow> memmap b;
     early_bitmap_loop entries b }"

section \<open>Handing the memory over\<close>

fun early_add_loop :: "limine_memmap_entry list \<Rightarrow> boot \<Rightarrow> boot option" where
  "early_add_loop [] b = Some b"
| "early_add_loop (e # es) b =
     (if me_type e \<noteq> LIMINE_MEMMAP_USABLE then early_add_loop es b
      else
        let base = me_base e;
            fin = base + me_length e
        in if fin < m_early_alloc_top b then early_add_loop es b
           else
             let base = (if base < m_early_alloc_top b then m_early_alloc_top b else base)
             in case on_bk (on_mem (phys_add_memory (bdm b) (phys_to_direct (bdm b) base)
                        (phys_to_direct (bdm b) fin))) b of
                  None \<Rightarrow> None
                | Some b \<Rightarrow> early_add_loop es b)"

definition early_phys_add_memory :: "boot \<Rightarrow> boot option" where
  "early_phys_add_memory b = do {
     entries \<leftarrow> memmap b;
     b \<leftarrow> early_add_loop entries b;
     Some (on_bmm (mem_acct_add_committed (m_early_alloc_page_count b)) b) }"

section \<open>All of it\<close>

definition early_virt_switch_table :: "boot \<Rightarrow> boot" where
  "early_virt_switch_table b = b\<lparr>cr3 := direct_to_phys (bdm b) (g_page_table (bmm b))\<rparr>"

definition early_virt_init :: "boot \<Rightarrow> boot option" where
  "early_virt_init b = do {
     (levels, b) \<leftarrow> init_kernel_region b;
     let b = on_bmm (\<lambda>m. m\<lparr>g_page_table_levels := levels\<rparr>) b;
     b \<leftarrow> init_direct_map b;
     (page_table, b) \<leftarrow> early_phys_alloc_page b;
     let b = on_bmm (\<lambda>m. m\<lparr>g_page_table := page_table\<rparr>) b;
     b \<leftarrow> early_map_kernel b;
     b \<leftarrow> early_map_direct_map b;
     let b = early_virt_switch_table b;
     let s = ksections b;
     let link = (\<lambda>vmar b. on_bk (\<lambda>h. vmar_link (g_kernel_region (vs h)) vmar h) b);
     b \<leftarrow> link (g_direct_map (vs (bk b))) b;
     b \<leftarrow> link (g_kernel_limine_requests_mapping s) b;
     b \<leftarrow> link (g_kernel_init_text_mapping s) b;
     b \<leftarrow> link (g_kernel_init_rodata_mapping s) b;
     b \<leftarrow> link (g_kernel_init_data_mapping s) b;
     b \<leftarrow> link (g_kernel_text_mapping s) b;
     b \<leftarrow> link (g_kernel_rodata_mapping s) b;
     b \<leftarrow> link (g_kernel_late_rodata_mapping s) b;
     b \<leftarrow> link (g_kernel_data_mapping s) b;
     b \<leftarrow> early_create_buddy_bitmap b;
     early_phys_add_memory b }"

end
