(* ===== verification/Boot_Mem.thy ===== *)
theory Boot_Mem
  imports Boot Phys_Props
begin

text \<open>
  The early allocator of \<open>boot/virt.c\<close>: what it hands out, and that the memory it leaves is the
  memory the buddy allocator gets.
\<close>

section \<open>The memory map\<close>

definition usable :: "limine_memmap_entry \<Rightarrow> bool" where
  "usable e \<longleftrightarrow> me_type e = LIMINE_MEMMAP_USABLE"

definition entry_end :: "limine_memmap_entry \<Rightarrow> nat" where
  "entry_end e = unat (me_base e) + unat (me_length e)"

definition entry_range :: "limine_memmap_entry \<Rightarrow> u64 set" where
  "entry_range e = {a. unat (me_base e) \<le> unat a \<and> unat a < entry_end e}"

definition usable_memory :: "limine_memmap_entry list \<Rightarrow> u64 set" where
  "usable_memory es = {a. \<exists>e\<in>set es. usable e \<and> a \<in> entry_range e}"

text \<open>
  What the boot protocol promises of the usable entries: they ascend without overlapping, they are
  whole pages and not empty, and physical addresses are below \<open>2 ^ 52\<close>.  The direct map, at \<open>dm\<close>,
  stops a buddy block short of the end of the address space.
\<close>

fun memmap_from :: "u64 \<Rightarrow> nat \<Rightarrow> limine_memmap_entry list \<Rightarrow> bool" where
  "memmap_from dm k [] \<longleftrightarrow> True"
| "memmap_from dm k (e # es) \<longleftrightarrow>
     (if usable e then k \<le> unat (me_base e) \<and> algn 12 (me_base e) \<and> algn 12 (me_length e) \<and>
        me_length e \<noteq> 0 \<and> entry_end e \<le> 2 ^ 52 \<and> unat dm + entry_end e + 2 ^ 21 \<le> 2 ^ 64 \<and>
        memmap_from dm (entry_end e) es
      else memmap_from dm k es)"

lemma algn_dvd: "s < 64 \<Longrightarrow> algn s a \<longleftrightarrow> 2 ^ s dvd unat a"
proof -
  have "algn s a \<longleftrightarrow> unat (take_bit s a) = 0" by (simp add: algn_def unat_eq_0)
  also have "\<dots> \<longleftrightarrow> take_bit s (unat a) = 0" by (simp only: unsigned_take_bit_eq)
  also have "\<dots> \<longleftrightarrow> 2 ^ s dvd unat a" by (simp only: take_bit_eq_mod dvd_eq_mod_eq_0)
  finally show ?thesis .
qed

lemma algn_page: "algn 12 a \<longleftrightarrow> 4096 dvd unat a"
  using algn_dvd [of 12 a] by simp

lemma memmap_from_facts:
  assumes "memmap_from dm k es" "e \<in> set es" "usable e"
  shows "k \<le> unat (me_base e)" "4096 dvd unat (me_base e)" "4096 dvd unat (me_length e)"
    "unat (me_length e) > 0" "entry_end e \<le> 2 ^ 52" "unat dm + entry_end e + 2 ^ 21 \<le> 2 ^ 64"
proof -
  have "k \<le> unat (me_base e) \<and> 4096 dvd unat (me_base e) \<and> 4096 dvd unat (me_length e) \<and>
    unat (me_length e) > 0 \<and> entry_end e \<le> 2 ^ 52 \<and> unat dm + entry_end e + 2 ^ 21 \<le> 2 ^ 64"
    using assms
  proof (induction dm k es rule: memmap_from.induct)
    case (2 dm k x es)
    have "k \<le> entry_end x" if "usable x" "k \<le> unat (me_base x)"
      using that by (simp add: entry_end_def)
    with 2 show ?case
      by (auto simp: algn_page unat_gt_0 split: if_splits)
  qed simp
  then show "k \<le> unat (me_base e)" "4096 dvd unat (me_base e)" "4096 dvd unat (me_length e)"
    "unat (me_length e) > 0" "entry_end e \<le> 2 ^ 52" "unat dm + entry_end e + 2 ^ 21 \<le> 2 ^ 64"
    by simp_all
qed

lemma memmap_from_ascend:
  assumes "memmap_from dm k es" "x \<in> set es" "y \<in> set es" "usable x" "usable y"
    "unat (me_base x) < entry_end y"
  shows "x = y \<or> entry_end x \<le> unat (me_base y)"
  using assms
proof (induction dm k es rule: memmap_from.induct)
  case (2 dm k e es)
  show ?case
  proof (cases "usable e")
    case True
    note m = 2(3) [simplified, unfolded if_P [OF True]]
    have m': "memmap_from dm (entry_end e) es" using m True by simp
    have b: "entry_end e \<le> unat (me_base z)" if "z \<in> set es" "usable z" for z
      using memmap_from_facts(1) [OF m' that] .
    show ?thesis
      using 2(1) [OF True m'] 2(4-8) b [of x] b [of y] by auto
  next
    case False
    with 2 show ?thesis by auto
  qed
qed simp

section \<open>The invariant of the early allocator\<close>

text \<open>\<open>ps\<close> are the physical pages handed out.  They make up the usable memory below the top.\<close>

definition early_pos :: "limine_memmap_entry list \<Rightarrow> boot \<Rightarrow> bool" where
  "early_pos es b \<longleftrightarrow>
     (if m_early_alloc_size b = 0
      then \<forall>e\<in>set es. usable e \<longrightarrow>
        entry_end e \<le> unat (m_early_alloc_top b) \<or> unat (m_early_alloc_top b) \<le> unat (me_base e)
      else \<exists>e\<in>set es. usable e \<and> unat (me_base e) \<le> unat (m_early_alloc_top b) \<and>
        unat (m_early_alloc_top b) + unat (m_early_alloc_size b) = entry_end e)"

definition early_inv :: "limine_memmap_entry list \<Rightarrow> boot \<Rightarrow> u64 list \<Rightarrow> bool" where
  "early_inv es b ps \<longleftrightarrow>
     memmap b = Some es \<and> memmap_from (bdm b) 0 es \<and>
     4096 dvd unat (m_early_alloc_top b) \<and> 4096 dvd unat (m_early_alloc_size b) \<and> early_pos es b \<and>
     distinct ps \<and> (\<forall>p\<in>set ps. algn 12 p) \<and>
     (\<Union>p\<in>set ps. cov 12 p) = {a \<in> usable_memory es. a < m_early_alloc_top b} \<and>
     m_early_alloc_page_count b = of_nat (length ps)"

lemma cov_page:
  assumes "4096 dvd unat f" "unat f + 4096 \<le> 2 ^ 64"
  shows "a \<in> cov 12 f \<longleftrightarrow> unat f \<le> unat a \<and> unat a < unat f + 4096"
proof -
  have "a \<in> cov 12 f \<longleftrightarrow> a - f < 2 ^ 12"
    using range_cov [of 12 f a] assms(1) by (simp add: algn_page)
  also have "\<dots> \<longleftrightarrow> unat (a - f) < 4096"
    by (simp add: word_less_nat_alt)
  also have "\<dots> \<longleftrightarrow> unat f \<le> unat a \<and> unat a < unat f + 4096"
  proof (cases "f \<le> a")
    case True
    then show ?thesis using unat_sub [OF True] by (simp add: word_le_nat_alt) arith
  next
    case False
    then have "unat a < unat f" by (simp add: word_le_nat_alt)
    moreover have "unat (a - f) = unat a + 2 ^ 64 - unat f"
      using False unat_sub_if' [of a f] by (simp add: word_le_nat_alt)
    ultimately show ?thesis using assms(2) by arith
  qed
  finally show ?thesis .
qed

lemma mod_page: "algn 12 a \<longleftrightarrow> a mod PAGE_SIZE = 0"
proof -
  have "a mod PAGE_SIZE = take_bit 12 a" by (simp add: PAGE_SIZE_def PAGE_SHIFT_def take_bit_eq_mod)
  then show ?thesis by (simp add: algn_def)
qed

text \<open>The next entry is the lowest one at or above the top, and there is one unless all are below.\<close>

lemma early_find_loop_ok:
  assumes "memmap_from dm k es"
  shows "case early_find_loop es b of
      None \<Rightarrow> \<forall>e\<in>set es. usable e \<longrightarrow> me_base e < m_early_alloc_top b
    | Some b' \<Rightarrow> \<exists>e\<in>set es. usable e \<and> m_early_alloc_top b \<le> me_base e \<and>
        b' = b\<lparr>m_early_alloc_top := me_base e, m_early_alloc_size := me_length e\<rparr> \<and>
        (\<forall>x\<in>set es. usable x \<and> m_early_alloc_top b \<le> me_base x \<longrightarrow> me_base e \<le> me_base x)"
  using assms
proof (induction dm k es rule: memmap_from.induct)
  case (2 dm k e es)
  show ?case
  proof (cases "usable e")
    case False
    then show ?thesis
      using 2(2) [OF False] 2(3) by (auto simp: usable_def split: option.splits)
  next
    case True
    note m = 2(3) [simplified, unfolded if_P [OF True]]
    have m': "memmap_from dm (entry_end e) es" using m True by simp
    show ?thesis
    proof (cases "me_base e < m_early_alloc_top b")
      case below: True
      have "early_find_loop (e # es) b = early_find_loop es b"
        using True below by (simp add: usable_def)
      with 2(1) [OF True m'] below show ?thesis
        by (auto split: option.splits simp: not_less [symmetric])
    next
      case False
      have "me_base e \<le> me_base x" if "x \<in> set es" "usable x" for x
        using memmap_from_facts(1) [OF m' that] by (simp add: word_le_nat_alt entry_end_def)
      moreover have "early_find_loop (e # es) b =
          Some (b\<lparr>m_early_alloc_top := me_base e, m_early_alloc_size := me_length e\<rparr>)"
        using True False m by (simp add: usable_def mod_page)
      ultimately show ?thesis using True False by auto
    qed
  qed
qed simp

lemma bdm_unfold: "bdm b = vm_base (vs (bk b)) (g_direct_map (vs (bk b)))"
  by (simp add: bdm_def dm_base_def)

lemma on_bmm_simps [simp]:
  "bmm (on_bmm f b) = f (bmm b)" "bdm (on_bmm f b) = bdm b"
  "memmap (on_bmm f b) = memmap b" "m_early_alloc_top (on_bmm f b) = m_early_alloc_top b"
  "m_early_alloc_size (on_bmm f b) = m_early_alloc_size b"
  "m_early_alloc_page_count (on_bmm f b) = m_early_alloc_page_count b"
  by (simp_all add: on_bmm_def bmm_def bdm_def dm_base_def)

lemma early_inv_on_bmm [simp]: "early_inv es (on_bmm f b) ps \<longleftrightarrow> early_inv es b ps"
  by (simp add: early_inv_def early_pos_def)

text \<open>Moving on to an entry leaves the usable memory below the top as it is.\<close>

lemma early_next_entry:
  assumes inv: "early_inv es b ps" and zero: "m_early_alloc_size b = 0"
    and nxt: "early_alloc_find_next_entry b = Some b'"
  shows "early_inv es b' ps" "m_early_alloc_size b' \<noteq> 0" "bk b' = bk b"
proof -
  have es: "memmap b = Some es" and mm: "memmap_from (bdm b) 0 es" using inv by (auto simp: early_inv_def)
  obtain e where e: "e \<in> set es" "usable e" "m_early_alloc_top b \<le> me_base e"
    and b': "b' = b\<lparr>m_early_alloc_top := me_base e, m_early_alloc_size := me_length e\<rparr>"
    and low: "\<And>x. x \<in> set es \<Longrightarrow> usable x \<Longrightarrow> m_early_alloc_top b \<le> me_base x \<Longrightarrow> me_base e \<le> me_base x"
    using early_find_loop_ok [OF mm, of b] nxt
    by (auto simp: early_alloc_find_next_entry_def es)
  note f = memmap_from_facts [OF mm e(1,2)]
  have pos: "entry_end x \<le> unat (m_early_alloc_top b) \<or> unat (m_early_alloc_top b) \<le> unat (me_base x)"
    if "x \<in> set es" "usable x" for x
    using inv that zero by (auto simp: early_inv_def early_pos_def)
  have "a < me_base e \<longleftrightarrow> a < m_early_alloc_top b" if a: "a \<in> usable_memory es" for a
  proof -
    obtain x where x: "x \<in> set es" "usable x" "unat (me_base x) \<le> unat a" "unat a < entry_end x"
      using a by (auto simp: usable_memory_def entry_range_def)
    show ?thesis
      using pos [OF x(1,2)] low [OF x(1,2)] e(3) x(3,4)
      by (auto simp: word_le_nat_alt word_less_nat_alt)
  qed
  then have "{a \<in> usable_memory es. a < me_base e} = {a \<in> usable_memory es. a < m_early_alloc_top b}"
    by auto
  moreover have "bdm b' = bdm b" by (simp add: b' bdm_def)
  moreover have "early_pos es b'"
    using e f(4) by (auto simp: early_pos_def b' entry_end_def unat_gt_0)
  ultimately show "early_inv es b' ps" "m_early_alloc_size b' \<noteq> 0" "bk b' = bk b"
    using inv f(2-4) by (auto simp: early_inv_def b' unat_gt_0)
qed

lemma early_out_of_memory:
  assumes inv: "early_inv es b ps" and zero: "m_early_alloc_size b = 0"
    and none: "early_alloc_find_next_entry b = None" and a: "a \<in> usable_memory es"
  shows "a < m_early_alloc_top b"
proof -
  have es: "memmap b = Some es" and mm: "memmap_from (bdm b) 0 es" using inv by (auto simp: early_inv_def)
  obtain x where x: "x \<in> set es" "usable x" "unat (me_base x) \<le> unat a" "unat a < entry_end x"
    using a by (auto simp: usable_memory_def entry_range_def)
  have "me_base x < m_early_alloc_top b"
    using early_find_loop_ok [OF mm, of b] none x(1,2)
    by (auto simp: early_alloc_find_next_entry_def es)
  moreover have "entry_end x \<le> unat (m_early_alloc_top b) \<or> unat (m_early_alloc_top b) \<le> unat (me_base x)"
    using inv x(1,2) zero by (auto simp: early_inv_def early_pos_def)
  ultimately show ?thesis using x(4) by (auto simp: word_less_nat_alt)
qed

text \<open>Taking a page of the current entry.\<close>

definition early_take :: "boot \<Rightarrow> boot" where
  "early_take b = b\<lparr>m_early_alloc_top := m_early_alloc_top b + PAGE_SIZE,
     m_early_alloc_size := m_early_alloc_size b - PAGE_SIZE,
     m_early_alloc_page_count := m_early_alloc_page_count b + 1\<rparr>"

lemma early_take_ok:
  assumes inv: "early_inv es b ps" and some: "m_early_alloc_size b \<noteq> 0"
  shows "early_inv es (early_take b) (ps @ [m_early_alloc_top b])" "m_early_alloc_top b \<notin> set ps"
    "unat (m_early_alloc_top b) + 4096 \<le> 2 ^ 52" "unat (bdm b) + unat (m_early_alloc_top b) + 4096 \<le> 2 ^ 64"
proof -
  let ?t = "m_early_alloc_top b"
  let ?n = "m_early_alloc_size b"
  have mm: "memmap_from (bdm b) 0 es" and al: "4096 dvd unat ?t" "4096 dvd unat ?n"
    and ps: "distinct ps" "\<And>p. p \<in> set ps \<Longrightarrow> algn 12 p"
    and un: "(\<Union>p\<in>set ps. cov 12 p) = {a \<in> usable_memory es. a < ?t}"
    using inv by (auto simp: early_inv_def)
  obtain e where e: "e \<in> set es" "usable e" "unat (me_base e) \<le> unat ?t" "unat ?t + unat ?n = entry_end e"
    using inv some by (auto simp: early_inv_def early_pos_def)
  note f = memmap_from_facts [OF mm e(1,2)]
  have n: "4096 \<le> unat ?n" using al(2) some by (auto simp: unat_gt_0 dvd_imp_le)
  have bd: "unat ?t + 4096 \<le> 2 ^ 52" "unat (bdm b) + unat ?t + 4096 \<le> 2 ^ 64" using f e n by auto
  then show "unat ?t + 4096 \<le> 2 ^ 52" "unat (bdm b) + unat ?t + 4096 \<le> 2 ^ 64" .
  have t': "unat (?t + PAGE_SIZE) = unat ?t + 4096"
    using bd by (simp add: PAGE_SIZE_eq unat_word_ariths)
  have n': "unat (?n - PAGE_SIZE) = unat ?n - 4096"
    using n by (simp add: PAGE_SIZE_eq unat_sub word_le_nat_alt)
  have c: "a \<in> cov 12 ?t \<longleftrightarrow> unat ?t \<le> unat a \<and> unat a < unat ?t + 4096" for a
    by (rule cov_page [OF al(1)]) (use bd in simp)
  show nin: "?t \<notin> set ps"
  proof
    assume "?t \<in> set ps"
    then have "?t \<in> {a \<in> usable_memory es. a < ?t}" using un cov_self by blast
    then show False by simp
  qed
  have "cov 12 ?t \<subseteq> usable_memory es"
    using e n by (auto simp: c usable_memory_def entry_range_def intro!: bexI [of _ e])
  then have "(\<Union>p\<in>set (ps @ [?t]). cov 12 p) = {a \<in> usable_memory es. a < ?t + PAGE_SIZE}"
    using un c by (auto simp: word_less_nat_alt t')
  moreover have "early_pos es (early_take b)"
  proof (cases "unat ?n = 4096")
    case True
    then have z: "?n - PAGE_SIZE = 0" using n' by (simp add: unat_eq_0)
    have "entry_end x \<le> unat (?t + PAGE_SIZE) \<or> unat (?t + PAGE_SIZE) \<le> unat (me_base x)"
      if x: "x \<in> set es" "usable x" for x
    proof (cases "unat (me_base x) < entry_end e")
      case True
      with memmap_from_ascend [OF mm x(1) e(1) x(2) e(2)] e(4) t' \<open>unat ?n = 4096\<close> memmap_from_facts(4) [OF mm x]
      show ?thesis by (auto simp: entry_end_def)
    next
      case False
      then show ?thesis using e(4) t' \<open>unat ?n = 4096\<close> by simp
    qed
    then show ?thesis using z by (simp add: early_pos_def early_take_def)
  next
    case False
    then have z: "?n - PAGE_SIZE \<noteq> 0" using n n' by (metis diff_is_0_eq le_antisym unat_0)
    show ?thesis using z e t' n' n by (auto simp: early_pos_def early_take_def intro!: bexI [of _ e])
  qed
  ultimately show "early_inv es (early_take b) (ps @ [?t])"
    using inv nin al t' n' n ps
    by (auto simp: early_inv_def early_take_def bdm_def algn_page)
qed

lemma early_phys_alloc_page_eq:
  "early_phys_alloc_page b =
     (case (if m_early_alloc_size b = 0 then early_alloc_find_next_entry b else Some b) of
        None \<Rightarrow> None
      | Some b' \<Rightarrow> let p = phys_to_direct (bdm b') (m_early_alloc_top b')
          in Some (p, on_bmm (memset p 0 PAGE_SIZE) (early_take b')))"
  by (auto simp: early_phys_alloc_page_def early_take_def bdm_def Let_def bind_eq_Some_conv
      split: option.splits)

text \<open>An allocation either hands out a new page, cleared, or there is no usable memory left.\<close>

lemma early_alloc_ok:
  assumes inv: "early_inv es b ps"
  shows "case early_phys_alloc_page b of
      None \<Rightarrow> \<forall>a\<in>usable_memory es. a < m_early_alloc_top b
    | Some (p, b') \<Rightarrow> \<exists>f. p = bdm b + f \<and> f \<notin> set ps \<and> early_inv es b' (ps @ [f]) \<and>
        unat f + 4096 \<le> 2 ^ 52 \<and> unat (bdm b) + unat f + 4096 \<le> 2 ^ 64 \<and>
        bk b' = on_vs (phys_mem_update (memset p 0 PAGE_SIZE)) (bk b)"
proof -
  let ?m = "if m_early_alloc_size b = 0 then early_alloc_find_next_entry b else Some b"
  show ?thesis
  proof (cases ?m)
    case None
    then show ?thesis
      using early_out_of_memory [OF inv] by (auto simp: early_phys_alloc_page_eq split: if_splits)
  next
    case (Some b1)
    have b1: "early_inv es b1 ps" "m_early_alloc_size b1 \<noteq> 0" "bk b1 = bk b"
      using Some inv early_next_entry [OF inv] by (auto split: if_splits)
    have dm: "bdm b1 = bdm b" by (simp add: bdm_def b1(3))
    note t = early_take_ok [OF b1(1,2)]
    let ?p = "bdm b + m_early_alloc_top b1"
    have eq: "early_phys_alloc_page b = Some (?p, on_bmm (memset ?p 0 PAGE_SIZE) (early_take b1))"
      using Some by (simp add: early_phys_alloc_page_eq dm phys_to_direct_def Let_def)
    have "bk (on_bmm (memset ?p 0 PAGE_SIZE) (early_take b1)) =
        on_vs (phys_mem_update (memset ?p 0 PAGE_SIZE)) (bk b)"
      by (simp add: on_bmm_def early_take_def b1(3))
    with t show ?thesis
      unfolding eq option.case prod.case dm
      by (intro exI [of _ "m_early_alloc_top b1"]) simp
  qed
qed

section \<open>The rest of the memory\<close>

text \<open>The usable memory that was not handed out, at its addresses in the direct map.\<close>

definition rest_of :: "boot \<Rightarrow> limine_memmap_entry list \<Rightarrow> ptr set" where
  "rest_of b es = (\<lambda>a. bdm b + a) ` {a \<in> usable_memory es. m_early_alloc_top b \<le> a}"

lemma usable_memory_Cons:
  "usable_memory (e # es) = (if usable e then entry_range e else {}) \<union> usable_memory es"
  by (auto simp: usable_memory_def)

lemma usable_memory_Nil [simp]: "usable_memory [] = {}"
  by (simp add: usable_memory_def)

lemma direct_range:
  assumes "unat dm + unat fin \<le> 2 ^ 64 - 1" "start \<le> fin"
  shows "{w. dm + start \<le> w \<and> w < dm + fin} = (\<lambda>a :: u64. dm + a) ` {a. start \<le> a \<and> a < fin}"
proof -
  have s: "unat (dm + x) = unat dm + unat x" if "x \<le> fin" for x
    using that assms(1) by (intro unat_add_lem [THEN iffD1]) (simp add: word_le_nat_alt)
  show ?thesis
  proof (intro set_eqI iffI)
    fix w assume w: "w \<in> {w. dm + start \<le> w \<and> w < dm + fin}"
    then have b: "unat dm + unat start \<le> unat w" "unat w < unat dm + unat fin"
      using s [OF assms(2)] s [of fin] by (auto simp: word_le_nat_alt word_less_nat_alt)
    then have "unat (w - dm) = unat w - unat dm" by (intro unat_sub) (simp add: word_le_nat_alt)
    with b have "start \<le> w - dm" "w - dm < fin" by (auto simp: word_le_nat_alt word_less_nat_alt)
    then show "w \<in> (\<lambda>a. dm + a) ` {a. start \<le> a \<and> a < fin}"
      by (intro image_eqI [of _ _ "w - dm"]) auto
  next
    fix w assume "w \<in> (\<lambda>a. dm + a) ` {a. start \<le> a \<and> a < fin}"
    then obtain a where a: "w = dm + a" "start \<le> a" "a < fin" by auto
    then show "w \<in> {w. dm + start \<le> w \<and> w < dm + fin}"
      using s [OF assms(2)] s [of fin] s [of a]
      by (auto simp: word_le_nat_alt word_less_nat_alt)
  qed
qed

text \<open>What one entry contributes.\<close>

definition add_from :: "u64 \<Rightarrow> limine_memmap_entry \<Rightarrow> u64" where
  "add_from tp e = (if me_base e < tp then tp else me_base e)"

lemma add_range:
  assumes "usable e" "unat (me_base e) + unat (me_length e) \<le> 2 ^ 52" "\<not> me_base e + me_length e < tp"
  shows "{a. add_from tp e \<le> a \<and> a < me_base e + me_length e} = {a \<in> entry_range e. tp \<le> a}"
    "add_from tp e \<le> me_base e + me_length e"
proof -
  have l: "unat (me_base e + me_length e) = entry_end e"
    unfolding entry_end_def by (rule unat_add_lem [THEN iffD1]) (use assms(2) in simp)
  then show "{a. add_from tp e \<le> a \<and> a < me_base e + me_length e} = {a \<in> entry_range e. tp \<le> a}"
    by (auto simp: add_from_def entry_range_def word_le_nat_alt word_less_nat_alt)
  show "add_from tp e \<le> me_base e + me_length e"
    using assms(3) l by (auto simp: add_from_def word_le_nat_alt word_less_nat_alt entry_end_def)
qed

lemma card_range: "card {a :: u64. x \<le> a \<and> a < y} = unat y - unat x"
proof -
  have "bij_betw unat {a. x \<le> a \<and> a < y} {unat x..<unat y}"
  proof (rule bij_betw_imageI)
    show "inj_on unat {a. x \<le> a \<and> a < y}" by (auto intro!: inj_onI simp: word_unat_eq_iff)
    show "unat ` {a. x \<le> a \<and> a < y} = {unat x..<unat y}"
    proof (intro set_eqI iffI)
      fix n assume n: "n \<in> {unat x..<unat y}"
      have "unat y < 2 ^ LENGTH(64)" by (rule unsigned_less)
      with n have "n < 2 ^ 64" by simp
      then have "unat (word_of_nat n :: u64) = n" by (simp add: unat_of_nat)
      with n show "n \<in> unat ` {a. x \<le> a \<and> a < y}"
        by (intro image_eqI [of _ _ "word_of_nat n"]) (auto simp: word_le_nat_alt word_less_nat_alt)
    qed (auto simp: word_le_nat_alt word_less_nat_alt)
  qed
  then show ?thesis by (simp add: bij_betw_same_card)
qed

lemma on_vs_phys_mem:
  "on_vs (phys_mem_update g) (on_vs (phys_mem_update f) h) = on_vs (phys_mem_update (\<lambda>m. g (f m))) h"
  by (cases h) (simp add: on_vs_def comp_def)

lemma on_vs_phys_mem_self: "on_vs (phys_mem_update (\<lambda>_. phys_mem (vs h))) h = h"
  by (cases h) (simp add: on_vs_def)

lemma on_bmm_on_bmm [simp]: "on_bmm g (on_bmm f b) = on_bmm (\<lambda>m. g (f m)) b"
  by (simp add: on_bmm_def on_vs_phys_mem)

lemma on_bmm_self: "on_bmm (\<lambda>_. bmm b) b = b"
  by (simp add: on_bmm_def bmm_def on_vs_phys_mem_self)

lemma on_bk_mem:
  "on_bk (on_mem f) b = (case f (bmm b) of None \<Rightarrow> None | Some m \<Rightarrow> Some (on_bmm (\<lambda>_. m) b))"
  by (auto simp: on_bk_def on_mem_def on_bmm_def bmm_def split: option.splits)

lemma range_split:
  assumes "memmap_from dm k (e # es)" "usable e"
  shows "card {a \<in> usable_memory (e # es). tp \<le> a} =
    card {a \<in> entry_range e. tp \<le> a} + card {a \<in> usable_memory es. tp \<le> a}"
proof -
  have "memmap_from dm (entry_end e) es" using assms by simp
  then have "entry_range e \<inter> usable_memory es = {}"
    using memmap_from_facts(1) by (fastforce simp: usable_memory_def entry_range_def)
  moreover have "{a \<in> usable_memory (e # es). tp \<le> a} =
      {a \<in> entry_range e. tp \<le> a} \<union> {a \<in> usable_memory es. tp \<le> a}"
    using assms by (auto simp: usable_memory_Cons)
  ultimately show ?thesis by (simp only: card_Un_disjoint finite) (auto intro!: card_Un_disjoint)
qed

lemma early_add_loop_ok:
  assumes "memmap_from dm k es" "bdm b = dm" "dm \<noteq> 0" "algn 12 dm" "algn 12 (m_early_alloc_top b)"
    and "buddy_inv dm (bmm b) F {}" "\<forall>w\<in>cover F. unat w < unat dm + k"
    and "4096 * unat (m_available_pages (bmm b)) \<le> k" "k \<le> 2 ^ 52"
    and "m_reserved_pages (bmm b) = 0" "m_committed_pages (bmm b) = 0"
  shows "\<exists>m F'. early_add_loop es b = Some (on_bmm (\<lambda>_. m) b) \<and> buddy_inv dm m F' {} \<and>
    cover F' = cover F \<union> (\<lambda>a. dm + a) ` {a \<in> usable_memory es. m_early_alloc_top b \<le> a} \<and>
    4096 * unat (m_available_pages m) = 4096 * unat (m_available_pages (bmm b)) +
      card {a \<in> usable_memory es. m_early_alloc_top b \<le> a} \<and>
    m_reserved_pages m = 0 \<and> m_committed_pages m = 0"
  using assms
proof (induction dm k es arbitrary: b F rule: memmap_from.induct)
  case (1 dm k)
  show ?case
    by (rule exI [of _ "bmm b"], rule exI [of _ F]) (use 1 in \<open>simp add: on_bmm_self\<close>)
next
  case (2 dm k e es)
  let ?t = "m_early_alloc_top b"
  show ?case
  proof (cases "usable e")
    case False
    then have "early_add_loop (e # es) b = early_add_loop es b" by (simp add: usable_def)
    with 2(2) [OF False] 2(3-) False show ?thesis by (simp add: usable_memory_Cons)
  next
    case True
    note u = this
    have f: "k \<le> unat (me_base e)" "4096 dvd unat (me_base e)" "4096 dvd unat (me_length e)"
        "unat (me_length e) > 0" "entry_end e \<le> 2 ^ 52" "unat dm + entry_end e + 2 ^ 21 \<le> 2 ^ 64"
      using memmap_from_facts [OF 2(3), of e] u by auto
    have m': "memmap_from dm (entry_end e) es" using 2(3) u by simp
    have l: "unat (me_base e + me_length e) = entry_end e"
      unfolding entry_end_def
      by (rule unat_add_lem [THEN iffD1]) (use f(5) in \<open>simp add: entry_end_def\<close>)
    have k': "k \<le> entry_end e" using f(1) by (simp add: entry_end_def)
    show ?thesis
    proof (cases "me_base e + me_length e < ?t")
      case below: True
      then have "{a \<in> entry_range e. ?t \<le> a} = {}"
        using l by (auto simp: entry_range_def word_le_nat_alt word_less_nat_alt)
      then have none: "{a \<in> usable_memory (e # es). ?t \<le> a} = {a \<in> usable_memory es. ?t \<le> a}"
        using u by (auto simp: usable_memory_Cons)
      have run: "early_add_loop (e # es) b = early_add_loop es b"
        using u below by (simp add: usable_def)
      have "\<forall>w\<in>cover F. unat w < unat dm + entry_end e"
        "4096 * unat (m_available_pages (bmm b)) \<le> entry_end e"
        using 2(9,10) k' by auto
      from 2(1) [OF u m' 2(4-8) this f(5) 2(12,13)] show ?thesis unfolding run none .
    next
      case False
      let ?s = "add_from ?t e"
      let ?f = "me_base e + me_length e"
      have ar: "{a. ?s \<le> a \<and> a < ?f} = {a \<in> entry_range e. ?t \<le> a}" "?s \<le> ?f"
        by (rule add_range [OF u _ False], use f(5) in \<open>simp add: entry_end_def\<close>)+
      have dmf: "unat dm + unat ?f \<le> 2 ^ 64 - 1" using f(6) l by simp
      have ds: "unat (dm + ?s) = unat dm + unat ?s" "unat (dm + ?f) = unat dm + unat ?f"
        by (rule unat_add_lem [THEN iffD1], use dmf ar(2) in \<open>simp add: word_le_nat_alt\<close>)+
      have al: "algn 12 (dm + ?s)" "algn 12 (dm + ?f)"
        using 2(6,7) f(2,3) ds l unfolding algn_page by (auto simp: add_from_def entry_end_def)
      have s_k: "k \<le> unat ?s"
        using f(1) by (auto simp: add_from_def word_less_nat_alt)
      have pre: "dm + ?s \<le> dm + ?f" "unat (dm + ?f) + 2 ^ 21 \<le> 2 ^ 64" "dm + ?s \<noteq> 0"
        "range_new F {} (dm + ?s) (dm + ?f)" "unat (m_total_pages (bmm b)) + 2 ^ 52 < 2 ^ 64"
      proof -
        show "dm + ?s \<le> dm + ?f" using ds ar(2) by (simp add: word_le_nat_alt)
        show "unat (dm + ?f) + 2 ^ 21 \<le> 2 ^ 64" using ds f(6) l by simp
        show "dm + ?s \<noteq> 0" using ds(1) 2(5) by (metis add_is_0 unat_0 unat_eq_0)
        show "range_new F {} (dm + ?s) (dm + ?f)"
          using 2(9) s_k ds(1) by (fastforce simp: range_new_def cover_def word_le_nat_alt)
        have "acct_ok (bmm b)" using 2(8) by (simp add: buddy_inv_def)
        then show "unat (m_total_pages (bmm b)) + 2 ^ 52 < 2 ^ 64"
          using 2(10-13) by (simp add: acct_ok_def)
      qed
      obtain m F1 where m: "phys_add_memory dm (dm + ?s) (dm + ?f) (bmm b) = Some m" "buddy_inv dm m F1 {}"
          "cover F1 = cover F \<union> {w. dm + ?s \<le> w \<and> w < dm + ?f}"
          "unat (m_available_pages m) = unat (m_available_pages (bmm b)) + (unat (dm + ?f) - unat (dm + ?s)) div 4096"
          "m_reserved_pages m = 0" "m_committed_pages m = 0"
        using phys_add_memory_ok [OF 2(8) al pre(1-3,4,5)] 2(12,13) by auto
      have cov1: "cover F1 = cover F \<union> (\<lambda>a. dm + a) ` {a \<in> entry_range e. ?t \<le> a}"
        using m(3) direct_range [OF dmf ar(2)] ar(1) by simp
      have cnt: "4096 * unat (m_available_pages m) =
          4096 * unat (m_available_pages (bmm b)) + card {a \<in> entry_range e. ?t \<le> a}"
      proof -
        have "4096 dvd unat ?f - unat ?s"
          using 2(7) f(2,3) l by (auto simp: algn_page add_from_def entry_end_def intro!: dvd_diff_nat)
        then have "4096 * ((unat ?f - unat ?s) div 4096) = card {a \<in> entry_range e. ?t \<le> a}"
          using card_range [of ?s ?f] ar(1) by simp
        then show ?thesis using m(4) ds by simp
      qed
      have run: "early_add_loop (e # es) b = early_add_loop es (on_bmm (\<lambda>_. m) b)"
        using u False m(1) 2(4)
        by (simp add: usable_def on_bk_mem phys_to_direct_def add_from_def Let_def)
      have "4096 * unat (m_available_pages m) \<le> entry_end e"
        using cnt 2(10) s_k card_range [of ?s ?f] ar l by (simp add: word_le_nat_alt)
      moreover have "\<forall>w\<in>cover F1. unat w < unat dm + entry_end e"
        using 2(9) k' ds l by (auto simp: m(3) word_less_nat_alt)
      ultimately obtain m2 F2 where
        "early_add_loop es (on_bmm (\<lambda>_. m) b) = Some (on_bmm (\<lambda>_. m2) (on_bmm (\<lambda>_. m) b))"
        "buddy_inv dm m2 F2 {}"
        "cover F2 = cover F1 \<union> (\<lambda>a. dm + a) ` {a \<in> usable_memory es. ?t \<le> a}"
        "4096 * unat (m_available_pages m2) = 4096 * unat (m_available_pages m) +
          card {a \<in> usable_memory es. ?t \<le> a}" "m_reserved_pages m2 = 0" "m_committed_pages m2 = 0"
        using 2(1) [OF u m', of "on_bmm (\<lambda>_. m) b" F1] 2(4-7) m(2,5,6) f(5) by auto
      then show ?thesis
        using run cnt cov1 range_split [OF 2(3) u, of ?t] u
        by (intro exI [of _ m2] exI [of _ F2]) (auto simp: usable_memory_Cons)
    qed
  qed
qed

lemma usable_memory_bound:
  assumes "memmap_from dm k es" "a \<in> usable_memory es"
  shows "unat a < 2 ^ 52"
  using assms memmap_from_facts(5) [OF assms(1)] by (fastforce simp: usable_memory_def entry_range_def)

lemma card_usable_memory: "memmap_from dm k es \<Longrightarrow> card (usable_memory es) \<le> 2 ^ 52"
proof -
  assume m: "memmap_from dm k es"
  then have "usable_memory es \<subseteq> {a :: u64. 0 \<le> a \<and> a < 2 ^ 52}"
    using usable_memory_bound by (auto simp: word_less_nat_alt)
  then have "card (usable_memory es) \<le> card {a :: u64. 0 \<le> a \<and> a < 2 ^ 52}"
    by (intro card_mono) auto
  also have "\<dots> = unat (2 ^ 52 :: u64) - unat (0 :: u64)" by (rule card_range)
  finally show ?thesis by simp
qed

lemma card_cov: "4096 dvd unat f \<Longrightarrow> unat f + 4096 \<le> 2 ^ 52 \<Longrightarrow> card (cov 12 f) = 4096"
proof -
  assume f: "4096 dvd unat f" "unat f + 4096 \<le> 2 ^ 52"
  have e: "unat (f + 4096) = unat f + 4096"
    by (rule unat_add_lem [THEN iffD1, THEN trans]) (use f(2) in simp_all)
  have "cov 12 f = {a. f \<le> a \<and> a < f + 4096}"
    using cov_page [OF f(1)] f(2) e by (auto simp: word_le_nat_alt word_less_nat_alt)
  then show ?thesis using card_range [of f "f + 4096"] e by simp
qed

lemma card_pages:
  assumes "distinct ps" "\<And>p. p \<in> set ps \<Longrightarrow> algn 12 p \<and> card (cov 12 p) = 4096"
  shows "card (\<Union>p\<in>set ps. cov 12 p) = 4096 * length ps"
  using assms
proof (induction ps)
  case (Cons p ps)
  have "w \<notin> cov 12 q" if w: "w \<in> cov 12 p" and q: "q \<in> set ps" for w q
  proof
    assume "w \<in> cov 12 q"
    with w have "p \<in> cov 12 q" by (simp add: cov_def)
    moreover have "algn 12 p" "algn 12 q" using Cons.prems(2) q by auto
    ultimately have "p = q" by (rule algn_unique)
    with Cons.prems(1) q show False by simp
  qed
  then have "cov 12 p \<inter> (\<Union>q\<in>set ps. cov 12 q) = {}" by blast
  then show ?case using Cons by (simp add: card_Un_disjoint)
qed simp

text \<open>Every page that was handed out counts 4096 bytes of the usable memory below the top.\<close>

lemma early_given:
  assumes "early_inv es b ps"
  shows "card {a \<in> usable_memory es. a < m_early_alloc_top b} = 4096 * length ps"
    "usable_memory es - (\<Union>p\<in>set ps. cov 12 p) = {a \<in> usable_memory es. m_early_alloc_top b \<le> a}"
    "card {a \<in> usable_memory es. m_early_alloc_top b \<le> a} + 4096 * length ps = card (usable_memory es)"
proof -
  have mm: "memmap_from (bdm b) 0 es" and d: "distinct ps" and al: "\<And>p. p \<in> set ps \<Longrightarrow> algn 12 p"
    and un: "(\<Union>p\<in>set ps. cov 12 p) = {a \<in> usable_memory es. a < m_early_alloc_top b}"
    using assms by (auto simp: early_inv_def)
  have "card (cov 12 p) = 4096" if p: "p \<in> set ps" for p
  proof (rule card_cov)
    show dv: "4096 dvd unat p" using al [OF p] by (simp add: algn_page)
    have "p \<in> (\<Union>q\<in>set ps. cov 12 q)" using p cov_self by blast
    then have "p \<in> usable_memory es" unfolding un by simp
    then have "unat p < 2 ^ 52" using usable_memory_bound [OF mm] by simp
    with dv show "unat p + 4096 \<le> 2 ^ 52" by (auto elim!: dvdE)
  qed
  with card_pages [OF d] al un
  show g: "card {a \<in> usable_memory es. a < m_early_alloc_top b} = 4096 * length ps" by simp
  show "usable_memory es - (\<Union>p\<in>set ps. cov 12 p) = {a \<in> usable_memory es. m_early_alloc_top b \<le> a}"
    unfolding un by auto
  have "usable_memory es = {a \<in> usable_memory es. m_early_alloc_top b \<le> a} \<union>
      {a \<in> usable_memory es. a < m_early_alloc_top b}" by auto
  moreover have "card ({a \<in> usable_memory es. m_early_alloc_top b \<le> a} \<union>
      {a \<in> usable_memory es. a < m_early_alloc_top b}) =
    card {a \<in> usable_memory es. m_early_alloc_top b \<le> a} +
      card {a \<in> usable_memory es. a < m_early_alloc_top b}"
    by (rule card_Un_disjoint) auto
  ultimately show "card {a \<in> usable_memory es. m_early_alloc_top b \<le> a} + 4096 * length ps =
      card (usable_memory es)"
    using g by simp
qed

lemma buddy_inv_add_committed:
  assumes "buddy_inv dm m F A" "m_committed_pages m = 0" "m_reserved_pages m = 0"
    "unat (m_available_pages m) + unat n < 2 ^ 64"
  shows "buddy_inv dm (mem_acct_add_committed n m) F A"
proof -
  let ?m = "mem_acct_add_committed n m"
  have "m_total_pages m = m_available_pages m"
    using assms(1-3) by (simp add: buddy_inv_def acct_ok_def word_unat_eq_iff)
  moreover have "unat (m_available_pages m + n) = unat (m_available_pages m) + unat n"
    by (rule unat_add_lem [THEN iffD1]) (use assms(4) in simp)
  ultimately have acct: "acct_ok ?m"
    using assms(2,3) by (simp add: acct_ok_def mem_acct_add_eq)
  have fr: "acct_frame m ?m"
    unfolding acct_frame_def mem_acct_add_eq
    by (rule exI [of _ "m_available_pages m"], rule exI [of _ "m_total_pages m + n"],
        rule exI [of _ "m_committed_pages m + n"], rule exI [of _ "m_reserved_pages m"],
        rule exI [of _ "buddy_lock m"]) simp
  have "buddy_core dm ?m F A = buddy_core dm m F A" by (rule acct_frame_core [OF fr])
  moreover have "buddy_zero ?m F = buddy_zero m F" "buddy_is_block_free dm ?m x = buddy_is_block_free dm m x"
    "free_pages ?m = free_pages m" "buddy_lock ?m = buddy_lock m" for x
    by (simp_all add: mem_acct_add_eq buddy_zero_def no_header_def no_data_def
        buddy_is_block_free_def free_pages_def)
  ultimately show ?thesis
    using assms(1,2) acct by (simp add: buddy_inv_def)
qed

lemma early_phys_add_memory_ok:
  assumes inv: "early_inv es b ps" and dm: "bdm b \<noteq> 0" "algn 12 (bdm b)"
    and buddy: "buddy_inv (bdm b) (bmm b) (\<lambda>_. []) {}"
    and zero: "m_available_pages (bmm b) = 0" "m_reserved_pages (bmm b) = 0" "m_committed_pages (bmm b) = 0"
  shows "\<exists>m F. early_phys_add_memory b = Some (on_bmm (\<lambda>_. m) b) \<and> buddy_inv (bdm b) m F {} \<and>
    cover F = (\<lambda>a. bdm b + a) ` (usable_memory es - (\<Union>p\<in>set ps. cov 12 p)) \<and>
    unat (m_committed_pages m) = length ps \<and>
    4096 * (unat (m_available_pages m) + unat (m_committed_pages m)) = card (usable_memory es)"
proof -
  have es: "memmap b = Some es" and mm: "memmap_from (bdm b) 0 es"
    and al: "algn 12 (m_early_alloc_top b)" and cnt: "m_early_alloc_page_count b = of_nat (length ps)"
    using inv by (auto simp: early_inv_def algn_page)
  have c0: "cover (\<lambda>_. []) = {}" by (simp add: cover_def fset_def)
  obtain m F where run: "early_add_loop es b = Some (on_bmm (\<lambda>_. m) b)" and m: "buddy_inv (bdm b) m F {}"
    and cov: "cover F = (\<lambda>a. bdm b + a) ` {a \<in> usable_memory es. m_early_alloc_top b \<le> a}"
    and av: "4096 * unat (m_available_pages m) = card {a \<in> usable_memory es. m_early_alloc_top b \<le> a}"
    and z: "m_reserved_pages m = 0" "m_committed_pages m = 0"
    using early_add_loop_ok [OF mm refl dm al buddy] zero by (auto simp: c0)
  let ?n = "m_early_alloc_page_count b"
  note g = early_given [OF inv]
  have len: "4096 * length ps \<le> 2 ^ 52" using g(3) card_usable_memory [OF mm] by simp
  then have n: "unat ?n = length ps" by (simp add: cnt unat_of_nat)
  have "unat (m_available_pages m) + unat ?n < 2 ^ 64"
    using av g(3) card_usable_memory [OF mm] n by simp
  from buddy_inv_add_committed [OF m z(2,1) this]
  have "buddy_inv (bdm b) (mem_acct_add_committed ?n m) F {}" .
  moreover have "m_available_pages (mem_acct_add_committed ?n m) = m_available_pages m"
    "m_committed_pages (mem_acct_add_committed ?n m) = ?n"
    using z by (simp_all add: mem_acct_add_eq)
  ultimately show ?thesis
    using run av g(2,3) n cov
    by (intro exI [of _ "mem_acct_add_committed ?n m"] exI [of _ F])
      (simp add: early_phys_add_memory_def es)
qed

end
