(* ===== verification/Slab_Inv.thy ===== *)
theory Slab_Inv
  imports Slab Boot_Mem
begin

text \<open>
  The slabs of an allocator: how the objects lie in a page, the invariant of one slab and of the
  three lists of an allocator, and what the steps of \<open>mem_alloc\<close> and \<open>mem_free\<close> do to it.
\<close>

section \<open>The layout of a slab\<close>

definition object_offset :: "mem_alloc_meta \<Rightarrow> nat" where
  "object_offset meta = unat (ALIGN_UP sizeof_slab (ucast (object_align meta)))"

definition slab_object :: "mem_alloc_meta \<Rightarrow> ptr \<Rightarrow> nat \<Rightarrow> ptr" where
  "slab_object meta slab i =
     slab + ALIGN_UP sizeof_slab (ucast (object_align meta)) + ucast (object_stride meta) * of_nat i"

definition slab_objects :: "mem_alloc_meta \<Rightarrow> ptr \<Rightarrow> ptr list" where
  "slab_objects meta slab = map (slab_object meta slab) [0..<unat (objects_per_slab meta)]"

text \<open>The bytes of an object.\<close>

definition object_range :: "mem_alloc_meta \<Rightarrow> ptr \<Rightarrow> ptr set" where
  "object_range meta p = {w. w - p < ucast (object_size meta)}"

text \<open>Behind the header, in the page, and not overlapping.\<close>

definition meta_ok :: "mem_alloc_meta \<Rightarrow> bool" where
  "meta_ok meta \<longleftrightarrow> 48 \<le> object_offset meta \<and> 16 \<le> unat (object_size meta) \<and>
     unat (object_size meta) \<le> unat (object_stride meta) \<and> 1 \<le> unat (objects_per_slab meta) \<and>
     object_offset meta + unat (object_stride meta) * unat (objects_per_slab meta) \<le> 4096"

lemma unat_ucast16: "unat (ucast (x :: u16) :: u64) = unat x"
proof -
  have "unat x < 2 ^ LENGTH(16)" by (rule unsigned_less)
  then show ?thesis by (simp add: unsigned_ucast_eq take_bit_nat_eq_self_iff)
qed

lemma in_range: "unat p + unat n \<le> 2 ^ 64 \<Longrightarrow>
  w - p < n \<longleftrightarrow> unat p \<le> unat w \<and> unat w < unat p + unat n" for w p n :: u64
proof -
  assume b: "unat p + unat n \<le> 2 ^ 64"
  show ?thesis
  proof (cases "p \<le> w")
    case True
    then show ?thesis using unat_sub [OF True] by (auto simp: word_less_nat_alt word_le_nat_alt)
  next
    case False
    then have "unat (w - p) = unat w + 2 ^ 64 - unat p"
      using unat_sub_if' [of w p] by (simp add: word_le_nat_alt)
    then show ?thesis using b False by (simp add: word_less_nat_alt word_le_nat_alt)
  qed
qed

lemma page_top: "algn 12 s \<Longrightarrow> unat s + 4096 \<le> 2 ^ 64"
proof -
  assume "algn 12 s"
  then obtain k where k: "unat s = 4096 * k" using algn_page [of s] by (auto elim: dvdE)
  have "unat s < 2 ^ LENGTH(64)" by (rule unsigned_less)
  then have "k < 2 ^ 52" using k by simp
  then show ?thesis using k by simp
qed

lemma in_page: "algn 12 s \<Longrightarrow> w \<in> cov 12 s \<longleftrightarrow> unat s \<le> unat w \<and> unat w < unat s + 4096"
  using cov_page [of s w] page_top [of s] by (simp add: algn_page)

lemma mult_Suc_le: "st * Suc i \<le> st * n" if "i < n" for st i n :: nat
  using that by (intro mult_le_mono2) simp

text \<open>An object of a page, as numbers.\<close>

lemma object_place:
  assumes m: "meta_ok meta" and s: "algn 12 s" and i: "i < unat (objects_per_slab meta)"
  shows "unat (slab_object meta s i) = unat s + object_offset meta + unat (object_stride meta) * i"
    "unat (slab_object meta s i) + unat (object_stride meta) \<le> unat s + 4096"
proof -
  have st: "unat (object_stride meta) * Suc i \<le> unat (object_stride meta) * unat (objects_per_slab meta)"
    using i by (rule mult_Suc_le)
  have le: "object_offset meta + unat (object_stride meta) * i + unat (object_stride meta) \<le> 4096"
    using st m by (simp add: meta_ok_def)
  have "unat (objects_per_slab meta) < 2 ^ LENGTH(16)" by (rule unsigned_less)
  then have "unat (of_nat i :: u64) = i" using i by (simp add: unat_of_nat)
  then have u: "unat (ucast (object_stride meta) * of_nat i :: u64) = unat (object_stride meta) * i"
    using le by (simp add: unat_word_ariths unat_ucast16)
  have st0: "0 < unat (object_stride meta)" using m by (simp add: meta_ok_def)
  have o: "unat (s + ALIGN_UP sizeof_slab (ucast (object_align meta))) = unat s + object_offset meta"
    unfolding object_offset_def
    by (rule unat_add_lem [THEN iffD1]) (use le st0 page_top [OF s] in \<open>simp add: object_offset_def\<close>)
  show e: "unat (slab_object meta s i) = unat s + object_offset meta + unat (object_stride meta) * i"
    unfolding slab_object_def o [symmetric] u [symmetric]
    by (rule unat_add_lem [THEN iffD1]) (use le st0 page_top [OF s] o u in simp)
  show "unat (slab_object meta s i) + unat (object_stride meta) \<le> unat s + 4096"
    using e le by simp
qed

lemma in_object:
  assumes "meta_ok meta" "algn 12 s" "i < unat (objects_per_slab meta)"
  shows "w \<in> object_range meta (slab_object meta s i) \<longleftrightarrow>
    unat (slab_object meta s i) \<le> unat w \<and> unat w < unat (slab_object meta s i) + unat (object_size meta)"
  using object_place [OF assms] page_top [OF assms(2)] assms(1)
  by (auto simp: object_range_def in_range unat_ucast16 meta_ok_def)

lemma in_objects:
  "p \<in> set (slab_objects meta s) \<longleftrightarrow> (\<exists>i < unat (objects_per_slab meta). p = slab_object meta s i)"
  by (auto simp: slab_objects_def)

text \<open>What the proofs use of the layout.\<close>

lemma object_in_page:
  assumes "meta_ok meta" "algn 12 s" "p \<in> set (slab_objects meta s)"
  shows "object_range meta p \<subseteq> cov 12 s" "p \<in> object_range meta p" "p \<in> cov 12 s"
    "w \<in> object_range meta p \<Longrightarrow> unat s + 48 \<le> unat w"
proof -
  obtain i where i: "i < unat (objects_per_slab meta)" "p = slab_object meta s i"
    using assms(3) by (auto simp: in_objects)
  note pl = object_place [OF assms(1,2) i(1), folded i(2)] and ob = in_object [OF assms(1,2) i(1), folded i(2)]
  note mo = assms(1) [unfolded meta_ok_def]
  show r: "object_range meta p \<subseteq> cov 12 s"
    using pl ob mo by (auto simp: in_page [OF assms(2)])
  show "p \<in> object_range meta p" using ob mo by simp
  with r show "p \<in> cov 12 s" by blast
  show "w \<in> object_range meta p \<Longrightarrow> unat s + 48 \<le> unat w" using pl(1) ob [of w] mo by linarith
qed

lemma objects_apart:
  assumes "meta_ok meta" "algn 12 s" "p \<in> set (slab_objects meta s)" "q \<in> set (slab_objects meta s)"
    and "object_range meta p \<inter> object_range meta q \<noteq> {}"
  shows "p = q"
proof -
  obtain i j where ij: "i < unat (objects_per_slab meta)" "p = slab_object meta s i"
    "j < unat (objects_per_slab meta)" "q = slab_object meta s j"
    using assms(3,4) by (auto simp: in_objects)
  obtain w where w: "w \<in> object_range meta p" "w \<in> object_range meta q" using assms(5) by blast
  note p = w(1) [unfolded ij(2) in_object [OF assms(1,2) ij(1)], unfolded object_place(1) [OF assms(1,2) ij(1)]]
  note q = w(2) [unfolded ij(4) in_object [OF assms(1,2) ij(3)], unfolded object_place(1) [OF assms(1,2) ij(3)]]
  have sz: "unat (object_size meta) \<le> unat (object_stride meta)" using assms(1) by (simp add: meta_ok_def)
  have "\<not> i < j"
  proof
    assume "i < j"
    then have "unat (object_stride meta) * Suc i \<le> unat (object_stride meta) * j" by (rule mult_Suc_le)
    then have "unat (object_stride meta) * i + unat (object_stride meta) \<le> unat (object_stride meta) * j" by simp
    with p q sz show False by linarith
  qed
  moreover have "\<not> j < i"
  proof
    assume "j < i"
    then have "unat (object_stride meta) * Suc j \<le> unat (object_stride meta) * i" by (rule mult_Suc_le)
    then have "unat (object_stride meta) * j + unat (object_stride meta) \<le> unat (object_stride meta) * i" by simp
    with p q sz show False by linarith
  qed
  ultimately show ?thesis using ij by simp
qed

lemma distinct_objects:
  assumes "meta_ok meta" "algn 12 s"
  shows "distinct (slab_objects meta s)"
proof -
  have "inj_on (slab_object meta s) (set [0..<unat (objects_per_slab meta)])"
  proof (rule inj_onI)
    fix i j
    assume ij: "i \<in> set [0..<unat (objects_per_slab meta)]" "j \<in> set [0..<unat (objects_per_slab meta)]"
      "slab_object meta s i = slab_object meta s j"
    have st: "0 < unat (object_stride meta)" using assms(1) unfolding meta_ok_def by linarith
    have "unat s + object_offset meta + unat (object_stride meta) * i =
        unat s + object_offset meta + unat (object_stride meta) * j"
      using ij(1,2) arg_cong [OF ij(3), of unat]
      by (simp only: object_place(1) [OF assms] set_upt atLeastLessThan_iff)
    then have "unat (object_stride meta) * i = unat (object_stride meta) * j" by (rule add_left_imp_eq)
    with st show "i = j" by (metis mult_left_cancel less_numeral_extra(3))
  qed
  then show ?thesis by (simp add: slab_objects_def distinct_map)
qed

lemma object_slab:
  assumes "meta_ok meta" "algn 12 s" "p \<in> set (slab_objects meta s)"
  shows "object_to_slab p = s" "p \<noteq> 0"
proof -
  have c: "p \<in> cov 12 s" by (rule object_in_page(3) [OF assms])
  have "object_to_slab p = p AND NOT (mask 12)"
    by (simp add: object_to_slab_def ALIGN_DOWN_def PAGE_SIZE_eq mask_eq_exp_minus_1)
  also have "\<dots> = s"
    using c assms(2) by (intro bit_word_eqI) (auto simp: in_cov algn_bits bit_simps, metis not_le)
  finally show "object_to_slab p = s" .
  show "p \<noteq> 0" using object_in_page(4) [OF assms object_in_page(2) [OF assms]] by auto
qed

section \<open>What a step may change\<close>

text \<open>The data stored at \<open>w\<close> is the same; the header of a free block there is.\<close>

definition same_at :: "mm \<Rightarrow> mm \<Rightarrow> ptr \<Rightarrow> bool" where
  "same_at h h' w \<longleftrightarrow> l_next h' w = l_next h w \<and> l_prev h' w = l_prev h w \<and> sl_alloc h' w = sl_alloc h w \<and>
     sl_in_use h' w = sl_in_use h w \<and> mem64 h' w = mem64 h w \<and> mem8 h' w = mem8 h w"

definition same_header :: "mm \<Rightarrow> mm \<Rightarrow> ptr \<Rightarrow> bool" where
  "same_header h h' w \<longleftrightarrow> hn_next h' w = hn_next h w \<and> hn_pprev h' w = hn_pprev h w \<and> bf_level h' w = bf_level h w"

definition data_frame :: "ptr set \<Rightarrow> mm \<Rightarrow> mm \<Rightarrow> bool" where
  "data_frame S h h' \<longleftrightarrow> m_available_pages h' = m_available_pages h \<and> m_total_pages h' = m_total_pages h \<and>
     m_committed_pages h' = m_committed_pages h \<and> m_reserved_pages h' = m_reserved_pages h \<and>
     hl_first h' = hl_first h \<and> bitmap h' = bitmap h \<and> buddy_lock h' = buddy_lock h \<and>
     g_page_table h' = g_page_table h \<and> g_page_table_levels h' = g_page_table_levels h \<and>
     (\<forall>w. w \<notin> S \<longrightarrow> same_at h h' w \<and> same_header h h' w)"

lemma same_at_refl [simp]: "same_at h h w"
  by (simp add: same_at_def)

lemma same_at_trans: "same_at h h' w \<Longrightarrow> same_at h' h'' w \<Longrightarrow> same_at h h'' w"
  by (simp add: same_at_def)

lemma data_frameD: "data_frame S h h' \<Longrightarrow> w \<notin> S \<Longrightarrow> same_at h h' w"
  by (simp add: data_frame_def)

lemma data_frame_refl [simp]: "data_frame S h h"
  by (simp add: data_frame_def same_header_def)

lemma data_frame_trans: "data_frame S h h' \<Longrightarrow> data_frame S h' h'' \<Longrightarrow> data_frame S h h''"
  unfolding data_frame_def same_header_def by (metis same_at_trans)

lemma data_frame_mono: "data_frame S h h' \<Longrightarrow> S \<subseteq> T \<Longrightarrow> data_frame T h h'"
  unfolding data_frame_def by blast

lemma l_frame_data: "l_frame S h h' \<Longrightarrow> data_frame S h h'"
  by (auto simp: l_frame_def data_frame_def same_at_def same_header_def)

lemma no_data_cong: "same_at h h' w \<Longrightarrow> no_data h' w = no_data h w"
  by (simp add: same_at_def no_data_def)

text \<open>The other kinds of steps.\<close>

lemma in_use_frame: "data_frame {s} h (h\<lparr>sl_in_use := (sl_in_use h)(s := v)\<rparr>)"
  by (simp add: data_frame_def same_at_def same_header_def)

lemma al_lock_frame: "data_frame S h (h\<lparr>al_lock := k\<rparr>)"
  by (simp add: data_frame_def same_at_def same_header_def)

lemma memset_frame: "data_frame {w. w - p < n} h (memset p b n h)"
  by (simp add: data_frame_def same_at_def same_header_def memset_def fill_def)

section \<open>A slab\<close>

text \<open>A free object is clean but for its links.\<close>

definition clean_object :: "mem_alloc_meta \<Rightarrow> mm \<Rightarrow> ptr \<Rightarrow> bool" where
  "clean_object meta h p \<longleftrightarrow> (\<forall>w\<in>object_range meta p. no_data h w)"

definition unlinked :: "ptr \<Rightarrow> mm \<Rightarrow> mm" where
  "unlinked p h = set_l_next p 0 (set_l_prev p 0 h)"

text \<open>The slab at \<open>s\<close>: \<open>fs\<close> are its free objects in the order of its list, \<open>us\<close> those in use.\<close>

definition slab_ok :: "ptr \<Rightarrow> mem_alloc_meta \<Rightarrow> mm \<Rightarrow> ptr \<Rightarrow> ptr list \<Rightarrow> ptr set \<Rightarrow> bool" where
  "slab_ok alloc meta h s fs us \<longleftrightarrow> algn 12 s \<and> s \<noteq> 0 \<and> sl_alloc h s = alloc \<and> dlist h (slab_free s) fs \<and>
     set fs \<union> us = set (slab_objects meta s) \<and> set fs \<inter> us = {} \<and> unat (sl_in_use h s) = card us \<and>
     (\<forall>p\<in>set fs. clean_object meta (unlinked p h) p)"

lemma slab_free_place:
  assumes "algn 12 s"
  shows "slab_free s \<in> cov 12 s" "slab_free s \<noteq> s" "unat (slab_free s) = unat s + 16"
proof -
  show u: "unat (slab_free s) = unat s + 16"
    unfolding slab_free_def using page_top [OF assms] by (simp add: unat_word_ariths)
  then show "slab_free s \<in> cov 12 s" "slab_free s \<noteq> s" using in_page [OF assms] by auto
qed

text \<open>A slab is only looked at inside its page.\<close>

lemma unlinked_same: "same_at h h' w \<Longrightarrow> same_at (unlinked p h) (unlinked p h') w"
  by (simp add: same_at_def unlinked_def set_l_next_def set_l_prev_def)

lemma slab_ok_cong:
  assumes m: "meta_ok meta" and w: "\<And>w. w \<in> cov 12 s \<Longrightarrow> w \<noteq> s \<Longrightarrow> same_at h h' w"
    and "sl_alloc h' s = sl_alloc h s" "sl_in_use h' s = sl_in_use h s"
  shows "slab_ok alloc meta h s fs us \<Longrightarrow> slab_ok alloc meta h' s fs us"
proof -
  assume ok: "slab_ok alloc meta h s fs us"
  then have s: "algn 12 s" and fs: "set fs \<subseteq> set (slab_objects meta s)" by (auto simp: slab_ok_def)
  have inner: "same_at h h' w" if "p \<in> set fs" "w \<in> object_range meta p" for p w
  proof -
    have p: "p \<in> set (slab_objects meta s)" using that(1) fs by blast
    show ?thesis
      using object_in_page(1) [OF m s p] object_in_page(4) [OF m s p that(2)] that(2) by (intro w) auto
  qed
  have "dlist h' (slab_free s) fs = dlist h (slab_free s) fs"
  proof (rule dlist_cong)
    fix a assume "a \<in> set (slab_free s # fs)"
    then have "same_at h h' a"
    proof (cases "a = slab_free s")
      case False
      then have a: "a \<in> set fs" "a \<in> set (slab_objects meta s)" using \<open>a \<in> set (slab_free s # fs)\<close> fs by auto
      show ?thesis by (rule inner [OF a(1) object_in_page(2) [OF m s a(2)]])
    qed (use slab_free_place [OF s] w in simp)
    then show "l_next h' a = l_next h a \<and> l_prev h' a = l_prev h a" by (simp add: same_at_def)
  qed
  moreover have "clean_object meta (unlinked p h') p = clean_object meta (unlinked p h) p" if "p \<in> set fs" for p
    unfolding clean_object_def using no_data_cong [OF unlinked_same [OF inner [OF that]]] by blast
  ultimately show ?thesis using ok assms(3,4) by (simp add: slab_ok_def)
qed

lemma slab_card:
  assumes "meta_ok meta" "slab_ok alloc meta h s fs us"
  shows "length fs + card us = unat (objects_per_slab meta)" "finite us" "distinct fs"
    "unat (sl_in_use h s) + length fs = unat (objects_per_slab meta)"
proof -
  have s: "algn 12 s" "dlist h (slab_free s) fs" "set fs \<union> us = set (slab_objects meta s)" "set fs \<inter> us = {}"
    "unat (sl_in_use h s) = card us"
    using assms(2) by (simp_all add: slab_ok_def)
  show "finite us" using s(3) by (metis List.finite_set finite_Un)
  show d: "distinct fs" using s(2) by (simp add: dlist_def)
  have "card (set fs \<union> us) = card (set fs) + card us"
    using \<open>finite us\<close> s(4) by (simp add: card_Un_disjoint)
  moreover have "card (set (slab_objects meta s)) = unat (objects_per_slab meta)"
    using distinct_card [OF distinct_objects [OF assms(1) s(1)]] by (simp add: slab_objects_def)
  ultimately show "length fs + card us = unat (objects_per_slab meta)"
    using s(3) distinct_card [OF d] by simp
  then show "unat (sl_in_use h s) + length fs = unat (objects_per_slab meta)" using s(5) by simp
qed

end
