(* ===== verification/Slab_Lists.thy ===== *)
theory Slab_Lists
  imports Slab_Inv
begin

text \<open>
  The three lists of an allocator: moving a slab from one to another, taking an object off the free
  list of a slab and putting one back.
\<close>

section \<open>The lists\<close>

datatype slab_list = Partial | Full | Empty

fun list_head :: "ptr \<Rightarrow> slab_list \<Rightarrow> ptr" where
  "list_head alloc Partial = al_partial alloc"
| "list_head alloc Full = al_full alloc"
| "list_head alloc Empty = al_empty alloc"

definition heads :: "ptr \<Rightarrow> ptr set" where
  "heads alloc = {al_partial alloc, al_full alloc, al_empty alloc}"

definition slabs :: "(slab_list \<Rightarrow> ptr list) \<Rightarrow> ptr set" where
  "slabs L = (\<Union>k. set (L k))"

definition slab_lists :: "ptr \<Rightarrow> mem_alloc_meta \<Rightarrow> mm \<Rightarrow> (slab_list \<Rightarrow> ptr list) \<Rightarrow>
    (ptr \<Rightarrow> ptr list) \<Rightarrow> (ptr \<Rightarrow> ptr set) \<Rightarrow> bool" where
  "slab_lists alloc meta h L FR U \<longleftrightarrow> meta_ok meta \<and>
     (\<forall>k. dlist h (list_head alloc k) (L k)) \<and> (\<forall>j k. j \<noteq> k \<longrightarrow> set (L j) \<inter> set (L k) = {}) \<and>
     (\<forall>s\<in>slabs L. slab_ok alloc meta h s (FR s) (U s) \<and> heads alloc \<inter> cov 12 s = {})"

lemma list_head_in [simp]: "list_head alloc k \<in> heads alloc"
  by (cases k) (simp_all add: heads_def)

lemma list_head_inj: "list_head alloc j = list_head alloc k \<Longrightarrow> j = k"
  by (cases j; cases k) (simp_all add: al_partial_def al_full_def al_empty_def)

lemma in_slabs: "s \<in> set (L k) \<Longrightarrow> s \<in> slabs L"
  by (auto simp: slabs_def)

lemma slab_listsD:
  assumes "slab_lists alloc meta h L FR U"
  shows "meta_ok meta" "dlist h (list_head alloc k) (L k)" "j \<noteq> k \<Longrightarrow> set (L j) \<inter> set (L k) = {}"
    "s \<in> slabs L \<Longrightarrow> slab_ok alloc meta h s (FR s) (U s)"
    "s \<in> slabs L \<Longrightarrow> heads alloc \<inter> cov 12 s = {}"
    "s \<in> slabs L \<Longrightarrow> algn 12 s \<and> s \<noteq> 0"
  using assms unfolding slab_lists_def slab_ok_def by blast+

text \<open>Slabs are pages.\<close>

lemma slabs_apart:
  assumes "slab_lists alloc meta h L FR U" "s \<in> slabs L" "t \<in> slabs L" "w \<in> cov 12 s" "w \<in> cov 12 t"
  shows "s = t"
proof -
  have "s \<in> cov 12 t" using cov_eq [OF assms(4)] cov_eq [OF assms(5)] cov_self [of s 12] by simp
  then show ?thesis using algn_unique [of s 12 t] slab_listsD(6) [OF assms(1)] assms(2,3) by blast
qed

text \<open>Only the heads and the pages of the slabs matter.\<close>

lemma slab_lists_cong:
  assumes sl: "slab_lists alloc meta h L FR U"
    and w: "\<And>w. w \<in> heads alloc \<union> (\<Union>s\<in>slabs L. cov 12 s) \<Longrightarrow> same_at h h' w"
  shows "slab_lists alloc meta h' L FR U"
  unfolding slab_lists_def
proof (intro conjI allI ballI impI)
  note m = slab_listsD(1) [OF sl]
  show "meta_ok meta" by (rule m)
  show "dlist h' (list_head alloc k) (L k)" for k
  proof -
    have "same_at h h' a" if "a \<in> set (list_head alloc k # L k)" for a
    proof (rule w)
      have "a \<in> slabs L \<Longrightarrow> a \<in> (\<Union>s\<in>slabs L. cov 12 s)" using cov_self [of a 12] by blast
      then show "a \<in> heads alloc \<union> (\<Union>s\<in>slabs L. cov 12 s)"
        using that list_head_in [of alloc k] in_slabs [of a L k] by auto
    qed
    then have "dlist h' (list_head alloc k) (L k) = dlist h (list_head alloc k) (L k)"
      by (intro dlist_cong) (simp add: same_at_def)
    then show ?thesis using slab_listsD(2) [OF sl] by simp
  qed
  show "set (L j) \<inter> set (L k) = {}" if "j \<noteq> k" for j k by (rule slab_listsD(3) [OF sl that])
  fix t assume t: "t \<in> slabs L"
  show "heads alloc \<inter> cov 12 t = {}" by (rule slab_listsD(5) [OF sl t])
  have in_t: "same_at h h' a" if "a \<in> cov 12 t" for a using that t by (intro w) blast
  show "slab_ok alloc meta h' t (FR t) (U t)"
    by (rule slab_ok_cong [OF m _ _ _ slab_listsD(4) [OF sl t]])
      (use in_t in_t [OF cov_self] in \<open>simp_all add: same_at_def\<close>)
qed

text \<open>A new slab on one of the lists.\<close>

lemma slab_lists_add:
  assumes sl: "slab_lists alloc meta h L FR U" and ok: "slab_ok alloc meta h p fs us"
    and p: "p \<notin> slabs L" "heads alloc \<inter> cov 12 p = {}"
  shows "\<exists>h'. list_add (list_head alloc k) p h = Some h' \<and>
    slab_lists alloc meta h' (L(k := p # L k)) (FR(p := fs)) (U(p := us)) \<and>
    l_frame (insert p (heads alloc \<union> slabs L)) h h'"
proof -
  let ?L = "L(k := p # L k)"
  note m = slab_listsD(1) [OF sl]
  have pa: "algn 12 p" "p \<noteq> 0" using ok by (simp_all add: slab_ok_def)
  have hp: "list_head alloc j \<noteq> t" if "t \<in> insert p (slabs L)" for j t
    using that slab_listsD(5) [OF sl, of t] p(2) cov_self [of t 12] list_head_in [of alloc j] by blast
  have subL: "set (L j) \<subseteq> slabs L" for j using in_slabs by blast
  have ho: "list_head alloc i \<notin> set (L j)" and pL: "p \<notin> set (L j)" for i j
    using hp [of _ i] subL [of j] p(1) by blast+
  have "p \<notin> set (list_head alloc k # L k)" using hp [of p k] pL by auto
  then obtain h' where h': "list_add (list_head alloc k) p h = Some h'" "dlist h' (list_head alloc k) (p # L k)"
    "l_frame (insert p (set (list_head alloc k # L k))) h h'"
    using list_add_ok [OF slab_listsD(2) [OF sl] _ pa(2)] by blast
  have fr: "l_frame (insert p (heads alloc \<union> slabs L)) h h'"
    by (rule l_frame_mono [OF h'(3)]) (use subL [of k] in auto)
  have new: "slabs ?L = insert p (slabs L)" by (auto simp: slabs_def split: if_splits)
  have inner: "same_at h h' w" if "t \<in> insert p (slabs L)" "w \<in> cov 12 t" "w \<noteq> t" for t w
  proof (rule data_frameD [OF l_frame_data [OF fr]])
    have al: "algn 12 t" "heads alloc \<inter> cov 12 t = {}"
      using that(1) pa(1) p(2) slab_listsD(5,6) [OF sl, of t] by auto
    moreover have "w \<notin> insert p (slabs L)"
    proof
      assume "w \<in> insert p (slabs L)"
      then have "algn 12 w" using pa(1) slab_listsD(6) [OF sl, of w] by auto
      then show False using algn_unique [OF that(2) _ al(1)] that(3) by blast
    qed
    ultimately show "w \<notin> insert p (heads alloc \<union> slabs L)" using that(2) by blast
  qed
  have sl_same: "sl_alloc h' = sl_alloc h" "sl_in_use h' = sl_in_use h" using h'(3) by (auto simp: l_frame_def)
  have "slab_lists alloc meta h' ?L (FR(p := fs)) (U(p := us))"
    unfolding slab_lists_def new
  proof (intro conjI allI ballI impI)
    show "meta_ok meta" by (rule m)
    show "dlist h' (list_head alloc j) (?L j)" for j
    proof (cases "j = k")
      case False
      have "set (list_head alloc j # L j) \<inter> insert p (set (list_head alloc k # L k)) = {}"
        using slab_listsD(3) [OF sl False] list_head_inj [of alloc j k] False ho [of j k] ho [of k j] hp [of p j] pL [of j]
        by auto
      from dlist_frame [OF h'(3) this] show ?thesis using slab_listsD(2) [OF sl] False by simp
    qed (use h'(2) in simp)
    show "set (?L i) \<inter> set (?L j) = {}" if "i \<noteq> j" for i j
      using slab_listsD(3) [OF sl that] that p(1) subL [of i] subL [of j] by auto
    fix t assume t: "t \<in> insert p (slabs L)"
    then show "heads alloc \<inter> cov 12 t = {}" using p(2) slab_listsD(5) [OF sl] by auto
    show "slab_ok alloc meta h' t ((FR(p := fs)) t) ((U(p := us)) t)"
      by (rule slab_ok_cong [OF m inner [OF t]]) (use t p(1) ok slab_listsD(4) [OF sl] sl_same in auto)
  qed
  with h'(1) fr show ?thesis by blast
qed

section \<open>Moving a slab\<close>

lemma slab_move:
  assumes sl: "slab_lists alloc meta h L FR U" and j: "L j = xs @ s # ys" "j \<noteq> k"
    and put: "\<And>g. dlist g (list_head alloc k) (L k) \<Longrightarrow> s \<notin> set (list_head alloc k # L k) \<Longrightarrow> s \<noteq> 0 \<Longrightarrow>
      \<exists>g'. put g = Some g' \<and> dlist g' (list_head alloc k) zs \<and>
        l_frame (insert s (set (list_head alloc k # L k))) g g'"
    and zs: "set zs = insert s (set (L k))"
  shows "\<exists>g h'. list_del s h = Some g \<and> put g = Some h' \<and>
    slab_lists alloc meta h' (L(j := xs @ ys, k := zs)) FR U \<and> l_frame (heads alloc \<union> slabs L) h h' \<and>
    slabs (L(j := xs @ ys, k := zs)) = slabs L"
proof -
  let ?S = "heads alloc \<union> slabs L" and ?L = "L(j := xs @ ys, k := zs)"
  have s: "s \<in> slabs L" "s \<noteq> 0" using in_slabs [of s L j] j(1) slab_listsD(6) [OF sl] by auto
  have hs: "list_head alloc i \<noteq> t" if "t \<in> slabs L" for i t
    using slab_listsD(5) [OF sl that] cov_self [of t 12] list_head_in [of alloc i] by (metis IntI empty_iff)
  have subL: "set (L i) \<subseteq> slabs L" for i using in_slabs by blast
  have ho: "list_head alloc i \<notin> set (L k)" for i k using hs in_slabs by blast
  have dj: "dlist h (list_head alloc j) (xs @ s # ys)" using slab_listsD(2) [OF sl, of j] j(1) by simp
  obtain g where g: "list_del s h = Some g" "dlist g (list_head alloc j) (xs @ ys)"
    "l_frame (set (list_head alloc j # xs @ s # ys)) h g"
    using list_del_ok [OF dj] by blast
  have off: "set (list_head alloc i # L i) \<inter> set (list_head alloc j # L j) = {}" if "i \<noteq> j" for i
    using slab_listsD(3) [OF sl that] list_head_inj [of alloc i j] that ho [of i j] ho [of j i] by auto
  have dg: "dlist g (list_head alloc i) (L i)" if "i \<noteq> j" for i
  proof -
    have "dlist g (list_head alloc i) (L i) = dlist h (list_head alloc i) (L i)"
      by (rule dlist_frame [OF g(3)]) (use off [OF that] j(1) in simp)
    then show ?thesis using slab_listsD(2) [OF sl] by simp
  qed
  have "s \<notin> set (list_head alloc k # L k)"
    using off [of k] j hs [OF s(1), of k] by auto
  with put [OF dg] j(2) s(2) obtain h' where h': "put g = Some h'" "dlist h' (list_head alloc k) zs"
    "l_frame (insert s (set (list_head alloc k # L k))) g h'"
    by auto
  have fr: "l_frame ?S h h'"
    by (rule l_frame_trans [OF l_frame_mono [OF g(3)] l_frame_mono [OF h'(3)]])
      (use subL [of j] subL [of k] j(1) s(1) in auto)
  have sub: "slabs ?L = slabs L"
  proof
    have "set (?L i) \<subseteq> slabs L" for i
      using j zs s(1) subL [of i] subL [of j] subL [of k] by auto
    then show "slabs ?L \<subseteq> slabs L" unfolding slabs_def [of ?L] by blast
    show "slabs L \<subseteq> slabs ?L"
    proof
      fix t assume "t \<in> slabs L"
      then obtain i where t: "t \<in> set (L i)" by (auto simp: slabs_def)
      show "t \<in> slabs ?L"
      proof (cases "i = j \<and> t \<noteq> s")
        case True
        then show ?thesis using t j by (intro in_slabs [of _ _ j]) auto
      next
        case False
        then show ?thesis using t j zs by (cases "t = s \<or> i = k") (auto intro: in_slabs [of _ _ k] in_slabs [of _ _ i])
      qed
    qed
  qed
  have dist: "distinct (xs @ s # ys)" using dj by (simp add: dlist_def)
  have "slab_lists alloc meta h' ?L FR U"
    unfolding slab_lists_def sub
  proof (intro conjI allI ballI impI)
    show "meta_ok meta" by (rule slab_listsD(1) [OF sl])
    show "dlist h' (list_head alloc i) (?L i)" for i
    proof (cases "i = k")
      case False
      have d: "dlist g (list_head alloc i) (?L i)" using False dg [of i] g(2) by simp
      have "set (list_head alloc i # ?L i) \<inter> insert s (set (list_head alloc k # L k)) = {}"
      proof (cases "i = j")
        case True
        then show ?thesis using off [of k] j dist hs [OF s(1)] by auto
      next
        case ne: False
        have "set (list_head alloc i # L i) \<inter> set (list_head alloc k # L k) = {}"
          using slab_listsD(3) [OF sl False] list_head_inj [of alloc i k] False ho [of i k] ho [of k i] by auto
        then show ?thesis using off [OF ne] j ne False by auto
      qed
      then show ?thesis using dlist_frame [OF h'(3)] d by blast
    qed (use h'(2) in simp)
    show "set (?L a) \<inter> set (?L b) = {}" if "a \<noteq> b" for a b
      using that slab_listsD(3) [OF sl, of a b] slab_listsD(3) [OF sl, of a j] slab_listsD(3) [OF sl, of b j]
        slab_listsD(3) [OF sl, of a k] slab_listsD(3) [OF sl, of b k] slab_listsD(3) [OF sl j(2)] j zs dist
      by (auto split: if_splits)
    fix t assume t: "t \<in> slabs L"
    show "heads alloc \<inter> cov 12 t = {}" by (rule slab_listsD(5) [OF sl t])
    have "l_frame ?S h h' \<Longrightarrow> w \<in> cov 12 t \<Longrightarrow> w \<noteq> t \<Longrightarrow> same_at h h' w" for w
    proof (rule data_frameD [OF l_frame_data])
      assume w: "w \<in> cov 12 t" "w \<noteq> t"
      have "w \<notin> slabs L" using slabs_apart [OF sl _ t cov_self w(1)] w(2) by blast
      then show "w \<notin> ?S" using slab_listsD(5) [OF sl t] w(1) by blast
    qed
    then show "slab_ok alloc meta h' t (FR t) (U t)"
      by (rule slab_ok_cong [OF slab_listsD(1) [OF sl]]) (use fr slab_listsD(4) [OF sl t] in \<open>auto simp: l_frame_def\<close>)
  qed
  with g(1) h'(1) fr sub show ?thesis by blast
qed

lemma slab_move_front:
  assumes "slab_lists alloc meta h L FR U" "L j = xs @ s # ys" "j \<noteq> k"
  shows "\<exists>g h'. list_del s h = Some g \<and> list_add (list_head alloc k) s g = Some h' \<and>
    slab_lists alloc meta h' (L(j := xs @ ys, k := s # L k)) FR U \<and> l_frame (heads alloc \<union> slabs L) h h' \<and>
    slabs (L(j := xs @ ys, k := s # L k)) = slabs L"
  by (rule slab_move [OF assms list_add_ok]) simp_all

lemma slab_move_back:
  assumes "slab_lists alloc meta h L FR U" "L j = xs @ s # ys" "j \<noteq> k"
  shows "\<exists>g h'. list_del s h = Some g \<and> list_add_tail (list_head alloc k) s g = Some h' \<and>
    slab_lists alloc meta h' (L(j := xs @ ys, k := L k @ [s])) FR U \<and> l_frame (heads alloc \<union> slabs L) h h' \<and>
    slabs (L(j := xs @ ys, k := L k @ [s])) = slabs L"
  by (rule slab_move [OF assms list_add_tail_ok]) simp_all

section \<open>Inside a slab\<close>

text \<open>A change inside the page of a slab that leaves its own link.\<close>

lemma slab_inside:
  assumes sl: "slab_lists alloc meta h L FR U" and s: "s \<in> slabs L"
    and fr: "data_frame (cov 12 s) h h'" "l_next h' s = l_next h s" "l_prev h' s = l_prev h s"
    and ok: "slab_ok alloc meta h' s fs us"
  shows "slab_lists alloc meta h' L (FR(s := fs)) (U(s := us))"
  unfolding slab_lists_def
proof (intro conjI allI ballI impI)
  note m = slab_listsD(1) [OF sl]
  show "meta_ok meta" by (rule m)
  have out: "same_at h h' w" if "w \<in> cov 12 t" "t \<in> slabs L" "t \<noteq> s" for w t
    by (rule data_frameD [OF fr(1)]) (use slabs_apart [OF sl s that(2) _ that(1)] that(3) in blast)
  show "dlist h' (list_head alloc k) (L k)" for k
  proof -
    have "dlist h' (list_head alloc k) (L k) = dlist h (list_head alloc k) (L k)"
    proof (rule dlist_cong)
      fix a assume a: "a \<in> set (list_head alloc k # L k)"
      show "l_next h' a = l_next h a \<and> l_prev h' a = l_prev h a"
      proof (cases "a = list_head alloc k")
        case True
        then have "a \<notin> cov 12 s" using slab_listsD(5) [OF sl s] list_head_in [of alloc k] by blast
        then show ?thesis using data_frameD [OF fr(1)] by (simp add: same_at_def)
      next
        case False
        then have "a \<in> slabs L" using a in_slabs [of a L k] by simp
        then show ?thesis using out [OF cov_self] fr(2,3) by (cases "a = s") (simp_all add: same_at_def)
      qed
    qed
    then show ?thesis using slab_listsD(2) [OF sl] by simp
  qed
  show "set (L j) \<inter> set (L k) = {}" if "j \<noteq> k" for j k by (rule slab_listsD(3) [OF sl that])
  fix t assume t: "t \<in> slabs L"
  show "heads alloc \<inter> cov 12 t = {}" by (rule slab_listsD(5) [OF sl t])
  show "slab_ok alloc meta h' t ((FR(s := fs)) t) ((U(s := us)) t)"
  proof (cases "t = s")
    case False
    note o = out [OF _ t False]
    have "slab_ok alloc meta h' t (FR t) (U t)"
      by (rule slab_ok_cong [OF m _ _ _ slab_listsD(4) [OF sl t]]) (use o o [OF cov_self] in \<open>simp_all add: same_at_def\<close>)
    with False show ?thesis by simp
  qed (use ok in simp)
qed

text \<open>The places of a slab: its link, its free list, its objects.\<close>

lemma place_apart:
  assumes "meta_ok meta" "algn 12 s" "p \<in> set (slab_objects meta s)" "w \<in> object_range meta p"
  shows "w \<noteq> s" "w \<noteq> slab_free s" "w \<in> set (slab_objects meta s) \<Longrightarrow> w = p"
proof -
  show "w \<noteq> s" "w \<noteq> slab_free s"
    using object_in_page(4) [OF assms] slab_free_place(3) [OF assms(2)] by auto
  assume w: "w \<in> set (slab_objects meta s)"
  show "w = p"
    using objects_apart [OF assms(1,2) w assms(3)] object_in_page(2) [OF assms(1,2) w] assms(4) by blast
qed

text \<open>Links of the free list leave the objects clean.\<close>

lemma clean_links:
  assumes "meta_ok meta" "algn 12 s" "p \<in> set (slab_objects meta s)"
    and fr: "l_frame (insert (slab_free s) (set (slab_objects meta s))) h h'"
  shows "clean_object meta (unlinked p h') p = clean_object meta (unlinked p h) p"
proof -
  have "no_data (unlinked p h') w = no_data (unlinked p h) w" if w: "w \<in> object_range meta p" for w
  proof (cases "w = p")
    case True
    then show ?thesis
      using fr by (auto simp: l_frame_def no_data_def unlinked_def set_l_next_def set_l_prev_def)
  next
    case False
    have "same_at h h' w"
      by (rule data_frameD [OF l_frame_data [OF fr]]) (use place_apart [OF assms(1-3) w] False in blast)
    then show ?thesis by (intro no_data_cong unlinked_same)
  qed
  then show ?thesis by (simp add: clean_object_def)
qed

lemma clean_in_use:
  assumes "meta_ok meta" "algn 12 s" "p \<in> set (slab_objects meta s)"
  shows "clean_object meta (h\<lparr>sl_in_use := (sl_in_use h)(s := v)\<rparr>) p = clean_object meta h p"
    "clean_object meta (unlinked p (h\<lparr>sl_in_use := (sl_in_use h)(s := v)\<rparr>)) p = clean_object meta (unlinked p h) p"
  using place_apart(1) [OF assms]
  by (auto simp: clean_object_def no_data_def unlinked_def set_l_next_def set_l_prev_def)

lemma unlinked_l_frame: "l_frame {p} h (unlinked p h)"
proof -
  have e: "unlinked p h = h\<lparr>l_next := (l_next h)(p := 0), l_prev := (l_prev h)(p := 0)\<rparr>"
    by (simp add: unlinked_def set_l_next_def set_l_prev_def)
  show ?thesis unfolding e by (rule l_frame_update) simp
qed

text \<open>An object off the free list.\<close>

lemma take_object:
  assumes m: "meta_ok meta" and ok: "slab_ok alloc meta h s (x # fs) us"
  shows "\<exists>h1 h3. list_del x h = Some h1 \<and>
    h3 = (unlinked x h1)\<lparr>sl_in_use := (sl_in_use (unlinked x h1))(s := sl_in_use (unlinked x h1) s + 1)\<rparr> \<and>
    slab_ok alloc meta h3 s fs (insert x us) \<and> clean_object meta h3 x \<and>
    data_frame (insert s (insert (slab_free s) (set (x # fs)))) h h3 \<and>
    l_next h3 s = l_next h s \<and> l_prev h3 s = l_prev h s \<and> al_lock h3 = al_lock h"
proof -
  have s: "algn 12 s" "s \<noteq> 0" and d: "dlist h (slab_free s) ([] @ x # fs)"
    and un: "insert x (set fs) \<union> us = set (slab_objects meta s)" "x \<notin> us" "set fs \<inter> us = {}"
    and n: "unat (sl_in_use h s) = card us" "sl_alloc h s = alloc"
    and cl: "\<And>p. p \<in> set (x # fs) \<Longrightarrow> clean_object meta (unlinked p h) p"
    using ok by (auto simp: slab_ok_def)
  have x: "x \<in> set (slab_objects meta s)" and fs: "set fs \<subseteq> set (slab_objects meta s)" using un(1) by auto
  obtain h1 where h1: "list_del x h = Some h1" "dlist h1 (slab_free s) fs"
    "l_frame (set (slab_free s # x # fs)) h h1"
    using list_del_ok [OF d] by auto
  let ?h2 = "unlinked x h1"
  let ?h3 = "?h2\<lparr>sl_in_use := (sl_in_use ?h2)(s := sl_in_use ?h2 s + 1)\<rparr>"
  have xfs: "x \<notin> set (slab_free s # fs)" using d by (auto simp: dlist_def)
  have l2: "l_frame {x} h1 ?h2" by (rule unlinked_l_frame)
  have l: "l_frame (set (slab_free s # x # fs)) h ?h2"
    by (rule l_frame_trans [OF h1(3) l_frame_mono [OF l2]]) simp
  then have big: "l_frame (insert (slab_free s) (set (slab_objects meta s))) h ?h2"
    by (rule l_frame_mono) (use x fs in auto)
  have d2: "dlist ?h3 (slab_free s) fs"
  proof -
    have "dlist ?h3 (slab_free s) fs = dlist ?h2 (slab_free s) fs" by (rule dlist_cong) simp
    moreover have "dlist ?h2 (slab_free s) fs = dlist h1 (slab_free s) fs"
      by (rule dlist_frame [OF l2]) (use xfs in auto)
    ultimately show ?thesis using h1(2) by simp
  qed
  have use2: "sl_in_use ?h2 = sl_in_use h" "sl_alloc ?h2 = sl_alloc h" "al_lock ?h2 = al_lock h" using l by (auto simp: l_frame_def)
  have "card us < 2 ^ LENGTH(16) - 1"
  proof -
    have "Suc (length fs) + card us = unat (objects_per_slab meta)" using slab_card(1) [OF m ok] by simp
    moreover have "unat (objects_per_slab meta) < 2 ^ LENGTH(16)" by (rule unsigned_less)
    ultimately show ?thesis by simp
  qed
  then have "unat (sl_in_use h s + 1) = Suc (card us)"
    using n(1) by (simp add: unat_word_ariths)
  moreover have "card (insert x us) = Suc (card us)" using slab_card(2) [OF m ok] un(2) by simp
  ultimately have n3: "unat (sl_in_use ?h3 s) = card (insert x us)" using use2 by simp
  have c2: "clean_object meta (unlinked p ?h2) p" if "p \<in> set (x # fs)" for p
    using clean_links [OF m s(1) _ big, of p] cl [OF that] that x fs by auto
  have "unlinked x ?h2 = ?h2" by (simp add: unlinked_def set_l_next_def set_l_prev_def fun_upd_idem)
  then have cx: "clean_object meta ?h3 x" using c2 [of x] clean_in_use(1) [OF m s(1) x] by simp
  have "slab_ok alloc meta ?h3 s fs (insert x us)"
    unfolding slab_ok_def
  proof (intro conjI ballI)
    show "clean_object meta (unlinked p ?h3) p" if "p \<in> set fs" for p
      using c2 [of p] clean_in_use(2) [OF m s(1), of p ?h2] that fs by auto
  qed (use s d2 n3 un n use2 xfs in auto)
  moreover have "s \<notin> set (slab_free s # x # fs)"
    using slab_free_place(2) [OF s(1)] place_apart(1) [OF m s(1) _ object_in_page(2) [OF m s(1)]] x fs by auto
  then have "same_at h ?h2 s" using data_frameD [OF l_frame_data [OF l]] by blast
  moreover have "data_frame (insert s (insert (slab_free s) (set (x # fs)))) h ?h3"
    by (rule data_frame_trans [OF data_frame_mono [OF l_frame_data [OF l]] data_frame_mono [OF in_use_frame]]) auto
  ultimately show ?thesis using h1(1) cx use2(3) by (intro exI [of _ h1] exI [of _ ?h3]) (simp add: same_at_def)
qed

text \<open>An object back at the end of the free list.\<close>

lemma put_object:
  assumes m: "meta_ok meta" and ok: "slab_ok alloc meta h s fs us" and p: "p \<in> us"
  defines "h0 \<equiv> memset p 0 (ucast (object_size meta)) h"
  shows "\<exists>h1 h3. list_add_tail (slab_free s) p h0 = Some h1 \<and> sl_in_use h1 s = sl_in_use h s \<and> sl_in_use h s \<noteq> 0 \<and>
    h3 = h1\<lparr>sl_in_use := (sl_in_use h1)(s := sl_in_use h1 s - 1)\<rparr> \<and>
    slab_ok alloc meta h3 s (fs @ [p]) (us - {p}) \<and> sl_alloc h1 s = alloc \<and>
    data_frame (insert s (insert (slab_free s) (set fs \<union> object_range meta p))) h h3 \<and>
    l_next h3 s = l_next h s \<and> l_prev h3 s = l_prev h s \<and> al_lock h3 = al_lock h"
proof -
  have s: "algn 12 s" "s \<noteq> 0" and d: "dlist h (slab_free s) fs"
    and un: "set fs \<union> us = set (slab_objects meta s)" "set fs \<inter> us = {}"
    and n: "unat (sl_in_use h s) = card us" "sl_alloc h s = alloc"
    and cl: "\<And>q. q \<in> set fs \<Longrightarrow> clean_object meta (unlinked q h) q"
    using ok by (auto simp: slab_ok_def)
  have po: "p \<in> set (slab_objects meta s)" and fs: "set fs \<subseteq> set (slab_objects meta s)" using un(1) p by auto
  have f0: "data_frame (object_range meta p) h h0"
    unfolding h0_def object_range_def by (rule memset_frame)
  have keep: "same_at h h0 w" if "w = s \<or> w = slab_free s \<or> w \<in> set fs" for w
    by (rule data_frameD [OF f0]) (use place_apart [OF m s(1) po] that un(2) p fs in blast)
  have d0: "dlist h0 (slab_free s) fs"
  proof -
    have "dlist h0 (slab_free s) fs = dlist h (slab_free s) fs"
      by (rule dlist_cong) (use keep in \<open>auto simp: same_at_def\<close>)
    with d show ?thesis by simp
  qed
  have p0: "p \<notin> set (slab_free s # fs)" "p \<noteq> 0"
    using place_apart(2) [OF m s(1) po object_in_page(2) [OF m s(1) po]] object_slab(2) [OF m s(1) po] un(2) p by auto
  obtain h1 where h1: "list_add_tail (slab_free s) p h0 = Some h1" "dlist h1 (slab_free s) (fs @ [p])"
    "l_frame (insert p (set (slab_free s # fs))) h0 h1"
    using list_add_tail_ok [OF d0 p0] by blast
  let ?h3 = "h1\<lparr>sl_in_use := (sl_in_use h1)(s := sl_in_use h1 s - 1)\<rparr>"
  have big: "l_frame (insert (slab_free s) (set (slab_objects meta s))) h0 h1"
    by (rule l_frame_mono [OF h1(3)]) (use po fs in auto)
  have same: "sl_in_use h1 = sl_in_use h0" "sl_alloc h1 = sl_alloc h0" "al_lock h1 = al_lock h0"
    using h1(3) by (auto simp: l_frame_def)
  then have lk: "al_lock h1 = al_lock h" by (simp add: h0_def memset_def)
  have at: "sl_in_use h1 s = sl_in_use h s" "sl_alloc h1 s = alloc"
    using same keep [of s] n(2) by (simp_all add: same_at_def)
  have fin: "finite us" by (rule slab_card(2) [OF m ok])
  then have pos: "0 < card us" using p by (auto simp: card_gt_0_iff)
  then have nz: "sl_in_use h s \<noteq> 0" using n(1) by auto
  then have "unat (sl_in_use h s - 1) = card us - 1"
    using n(1) by (simp add: unat_minus_one)
  then have n3: "unat (sl_in_use ?h3 s) = card (us - {p})" using at(1) p fin by simp
  have d3: "dlist ?h3 (slab_free s) (fs @ [p])"
  proof -
    have "dlist ?h3 (slab_free s) (fs @ [p]) = dlist h1 (slab_free s) (fs @ [p])" by (rule dlist_cong) simp
    with h1(2) show ?thesis by simp
  qed
  have c0: "clean_object meta (unlinked q h0) q" if "q \<in> set (fs @ [p])" for q
  proof (cases "q = p")
    case True
    have "no_data (unlinked p h0) w" if "w \<in> object_range meta p" for w
    proof -
      have "no_data h0 w"
        using memset_0_clean [of w p "ucast (object_size meta)" h] that by (simp add: h0_def object_range_def)
      then show ?thesis by (simp add: no_data_def unlinked_def set_l_next_def set_l_prev_def)
    qed
    then show ?thesis using True by (simp add: clean_object_def)
  next
    case False
    then have q: "q \<in> set fs" "q \<in> set (slab_objects meta s)" using that fs by auto
    have "same_at h h0 w" if "w \<in> object_range meta q" for w
      by (rule data_frameD [OF f0]) (use objects_apart [OF m s(1) q(2) po] that False in blast)
    then have "no_data (unlinked q h0) w = no_data (unlinked q h) w" if "w \<in> object_range meta q" for w
      using that by (intro no_data_cong unlinked_same) simp
    then show ?thesis using cl [OF q(1)] by (simp add: clean_object_def)
  qed
  have "slab_ok alloc meta ?h3 s (fs @ [p]) (us - {p})"
    unfolding slab_ok_def
  proof (intro conjI ballI)
    show "clean_object meta (unlinked q ?h3) q" if "q \<in> set (fs @ [p])" for q
    proof -
      have q: "q \<in> set (slab_objects meta s)" using that po fs by auto
      show ?thesis
        using c0 [OF that] clean_links [OF m s(1) q big] clean_in_use(2) [OF m s(1) q, of h1] by simp
    qed
  qed (use s d3 n3 un n at p in auto)
  moreover have "s \<notin> insert p (set (slab_free s # fs))"
    using slab_free_place(2) [OF s(1)] place_apart(1) [OF m s(1) _ object_in_page(2) [OF m s(1)]] po fs by auto
  then have "same_at h0 h1 s" using data_frameD [OF l_frame_data [OF h1(3)]] by blast
  then have "same_at h h1 s" using keep [of s] same_at_trans by blast
  moreover have "data_frame (insert s (insert (slab_free s) (set fs \<union> object_range meta p))) h ?h3"
    by (rule data_frame_trans [OF data_frame_trans [OF data_frame_mono [OF f0]
      data_frame_mono [OF l_frame_data [OF h1(3)]]] data_frame_mono [OF in_use_frame]])
      (use object_in_page(2) [OF m s(1) po] in auto)
  ultimately show ?thesis using h1(1) at nz lk by (intro exI [of _ h1] exI [of _ ?h3]) (simp add: same_at_def)
qed

section \<open>Allocation from the slabs there are\<close>

definition slab_status :: "(slab_list \<Rightarrow> ptr list) \<Rightarrow> (ptr \<Rightarrow> ptr list) \<Rightarrow> (ptr \<Rightarrow> ptr set) \<Rightarrow> bool" where
  "slab_status L FR U \<longleftrightarrow> (\<forall>s\<in>set (L Partial). FR s \<noteq> [] \<and> U s \<noteq> {}) \<and>
     (\<forall>s\<in>set (L Full). FR s = [] \<and> U s \<noteq> {}) \<and> (\<forall>s\<in>set (L Empty). U s = {} \<and> FR s \<noteq> [])"

lemma object_outside:
  assumes "slab_lists alloc meta h L FR U" "s \<in> slabs L" "p \<in> set (slab_objects meta s)" "w \<in> object_range meta p"
  shows "w \<notin> heads alloc" "w \<notin> slabs L"
proof -
  note m = slab_listsD(1) [OF assms(1)] and s = conjunct1 [OF slab_listsD(6) [OF assms(1,2)]]
  have c: "w \<in> cov 12 s" using object_in_page(1) [OF m s assms(3)] assms(4) by blast
  then show "w \<notin> heads alloc" using slab_listsD(5) [OF assms(1,2)] by blast
  show "w \<notin> slabs L"
    using slabs_apart [OF assms(1,2) _ c cov_self] place_apart(1) [OF m s assms(3,4)] by blast
qed

text \<open>The objects in use, and their memory.\<close>

definition in_use :: "(slab_list \<Rightarrow> ptr list) \<Rightarrow> (ptr \<Rightarrow> ptr set) \<Rightarrow> ptr set" where
  "in_use L U = (\<Union>s\<in>slabs L. U s)"

definition live :: "mem_alloc_meta \<Rightarrow> (slab_list \<Rightarrow> ptr list) \<Rightarrow> (ptr \<Rightarrow> ptr set) \<Rightarrow> ptr set" where
  "live meta L U = (\<Union>q\<in>in_use L U. object_range meta q)"

lemma live_apart:
  assumes "slab_lists alloc meta h L FR U" "w \<in> live meta L U"
  shows "w \<notin> heads alloc" "w \<notin> slabs L" "t \<in> slabs L \<Longrightarrow> w \<noteq> slab_free t" "t \<in> slabs L \<Longrightarrow> w \<notin> set (FR t)"
proof -
  obtain s q where s: "s \<in> slabs L" "q \<in> U s" "w \<in> object_range meta q" using assms(2) by (auto simp: live_def in_use_def)
  have ok: "slab_ok alloc meta h s (FR s) (U s)" by (rule slab_listsD(4) [OF assms(1) s(1)])
  then have q: "q \<in> set (slab_objects meta s)" "algn 12 s" using s(2) by (auto simp: slab_ok_def)
  note m = slab_listsD(1) [OF assms(1)]
  have c: "w \<in> cov 12 s" using object_in_page(1) [OF m q(2,1)] s(3) by blast
  show "w \<notin> heads alloc" "w \<notin> slabs L" using object_outside [OF assms(1) s(1) q(1) s(3)] by blast+
  assume t: "t \<in> slabs L"
  have ta: "algn 12 t" using slab_listsD(6) [OF assms(1) t] by blast
  show "w \<noteq> slab_free t"
    using slabs_apart [OF assms(1) s(1) t c] slab_free_place(1) [OF ta] place_apart(2) [OF m q(2,1) s(3)] by blast
  show "w \<notin> set (FR t)"
  proof
    assume f: "w \<in> set (FR t)"
    have okt: "slab_ok alloc meta h t (FR t) (U t)" by (rule slab_listsD(4) [OF assms(1) t])
    then have wt: "w \<in> set (slab_objects meta t)" "w \<notin> U t" using f by (auto simp: slab_ok_def)
    have "t = s" using slabs_apart [OF assms(1) t s(1) object_in_page(3) [OF m ta wt(1)] c] .
    with place_apart(3) [OF m q(2,1) s(3)] wt s(2) show False by blast
  qed
qed

lemma slab_take_ok:
  assumes sl: "slab_lists alloc meta h L FR U" and L: "L Partial = s # ps" and f: "FR s = x # fs"
  shows "\<exists>h' L'. slab_take alloc meta s h = Some (x, h') \<and>
    slab_lists alloc meta h' L' (FR(s := fs)) (U(s := insert x (U s))) \<and> slabs L' = slabs L \<and>
    L' = (if fs = [] then L(Partial := ps, Full := s # L Full) else L) \<and> clean_object meta h' x \<and>
    data_frame (heads alloc \<union> slabs L \<union> insert (slab_free s) (set (FR s))) h h' \<and> al_lock h' = al_lock h"
proof -
  note m = slab_listsD(1) [OF sl]
  have s: "s \<in> slabs L" using in_slabs [of s L Partial] L by simp
  have ok: "slab_ok alloc meta h s (x # fs) (U s)" using slab_listsD(4) [OF sl s] f by simp
  then have d: "dlist h (slab_free s) (x # fs)" and x: "x \<in> set (slab_objects meta s)"
    by (auto simp: slab_ok_def)
  obtain h1 h3 where o: "list_del x h = Some h1"
    "h3 = (unlinked x h1)\<lparr>sl_in_use := (sl_in_use (unlinked x h1))(s := sl_in_use (unlinked x h1) s + 1)\<rparr>"
    "slab_ok alloc meta h3 s fs (insert x (U s))" "clean_object meta h3 x"
    "data_frame (insert s (insert (slab_free s) (set (x # fs)))) h h3"
    "l_next h3 s = l_next h s" "l_prev h3 s = l_prev h s" "al_lock h3 = al_lock h"
    using take_object [OF m ok] by blast
  let ?FR = "FR(s := fs)" and ?U = "U(s := insert x (U s))"
  have sa: "algn 12 s" using slab_listsD(6) [OF sl s] by blast
  have page: "insert s (insert (slab_free s) (set (x # fs))) \<subseteq> cov 12 s"
    using slab_free_place(1) [OF sa] object_in_page(3) [OF m sa] ok by (auto simp: slab_ok_def)
  have sl3: "slab_lists alloc meta h3 L ?FR ?U"
    by (rule slab_inside [OF sl s data_frame_mono [OF o(5) page] o(6,7,3)])
  have fr3: "data_frame (heads alloc \<union> slabs L \<union> insert (slab_free s) (set (FR s))) h h3"
    by (rule data_frame_mono [OF o(5)]) (use s f in auto)
  have full: "sl_in_use h3 s = objects_per_slab meta \<longleftrightarrow> fs = []"
    using slab_card(4) [OF m o(3)] by (auto simp: word_unat_eq_iff)
  have run: "slab_take alloc meta s h = (if fs = [] then
      do { h \<leftarrow> list_del s h3; h \<leftarrow> list_add (al_full alloc) s h; Some (x, h) } else Some (x, h3))"
    using list_empty_dlist [OF d] dlist_head [OF d] o(1) full unfolding o(2)
    by (simp add: slab_take_def Let_def unlinked_def slab_link_def)
  show ?thesis
  proof (cases "fs = []")
    case False
    then show ?thesis unfolding run using sl3 o(4,8) fr3 by (intro exI [of _ h3] exI [of _ L]) simp
  next
    case True
    obtain g h' where g: "list_del s h3 = Some g" "list_add (al_full alloc) s g = Some h'"
      "slab_lists alloc meta h' (L(Partial := ps, Full := s # L Full)) ?FR ?U"
      "l_frame (heads alloc \<union> slabs L) h3 h'" "slabs (L(Partial := ps, Full := s # L Full)) = slabs L"
      using slab_move_front [OF sl3, of Partial "[]" s ps Full] L by auto
    have "clean_object meta h' x"
      unfolding clean_object_def
    proof
      fix w assume w: "w \<in> object_range meta x"
      have "same_at h3 h' w"
        by (rule data_frameD [OF l_frame_data [OF g(4)]]) (use object_outside [OF sl s x w] in simp)
      then show "no_data h' w" using o(4) w no_data_cong by (auto simp: clean_object_def)
    qed
    moreover have "data_frame (heads alloc \<union> slabs L \<union> insert (slab_free s) (set (FR s))) h h'"
      by (rule data_frame_trans [OF fr3 data_frame_mono [OF l_frame_data [OF g(4)]]]) auto
    moreover have "al_lock h' = al_lock h" using g(4) o(8) by (auto simp: l_frame_def)
    ultimately show ?thesis
      unfolding run using True g(1-3,5)
      by (intro exI [of _ h'] exI [of _ "L(Partial := ps, Full := s # L Full)"]) simp
  qed
qed

text \<open>The choice of the slab, when one of the slabs has a free object.\<close>

lemma slab_choose_partial:
  assumes sl: "slab_lists alloc meta h L FR U" and L: "L Partial = s # ps"
  shows "slab_choose dm uend alloc meta h = Some (s, h)"
proof -
  have "dlist h (al_partial alloc) (s # ps)" using slab_listsD(2) [OF sl, of Partial] L by simp
  from list_empty_dlist [OF this] dlist_head [OF this] show ?thesis
    by (simp add: slab_choose_def list_first_entry_def list_entry_def)
qed

lemma slab_choose_empty:
  assumes sl: "slab_lists alloc meta h L FR U" and L: "L Partial = []" "L Empty = s # es"
  shows "\<exists>h'. slab_choose dm uend alloc meta h = Some (s, h') \<and>
    slab_lists alloc meta h' (L(Empty := es, Partial := [s])) FR U \<and> slabs (L(Empty := es, Partial := [s])) = slabs L \<and>
    data_frame (heads alloc \<union> slabs L) h h' \<and> al_lock h' = al_lock h"
proof -
  have p: "dlist h (al_partial alloc) []" and e: "dlist h (al_empty alloc) (s # es)"
    using slab_listsD(2) [OF sl, of Partial] slab_listsD(2) [OF sl, of Empty] L by simp_all
  obtain g h' where g: "list_del s h = Some g" "list_add (al_partial alloc) s g = Some h'"
    "slab_lists alloc meta h' (L(Empty := es, Partial := [s])) FR U" "l_frame (heads alloc \<union> slabs L) h h'"
    "slabs (L(Empty := es, Partial := [s])) = slabs L"
    using slab_move_front [OF sl, of Empty "[]" s es Partial] L by auto
  have "slab_choose dm uend alloc meta h = Some (s, h')"
    using list_empty_dlist [OF p] list_empty_dlist [OF e] dlist_head [OF e] g(1,2)
    by (simp add: slab_choose_def Let_def list_first_entry_def list_entry_def slab_link_def)
  with g show ?thesis by (intro exI [of _ h']) (auto simp: l_frame_data, auto simp: l_frame_def)
qed

text \<open>The object that the next allocation hands out.\<close>

lemma status_take:
  assumes sl: "slab_lists alloc meta h L FR U" and st: "slab_status (L(Partial := ps)) FR U" and L: "L Partial = s # ps"
    and f: "FR s = x # fs"
  shows "slab_status (if fs = [] then L(Partial := ps, Full := s # L Full) else L) (FR(s := fs)) (U(s := insert x (U s)))"
proof -
  have "distinct (s # ps)" using slab_listsD(2) [OF sl, of Partial] L by (simp add: dlist_def)
  moreover have "s \<notin> set (L Full)" "s \<notin> set (L Empty)"
    using slab_listsD(3) [OF sl, of Partial Full] slab_listsD(3) [OF sl, of Partial Empty] L by auto
  ultimately show ?thesis using st L by (auto simp: slab_status_def)
qed

section \<open>Free\<close>

lemma mem_free_ok:
  assumes sl: "slab_lists alloc meta h L FR U" and st: "slab_status L FR U"
    and lk: "al_lock h alloc = 0" "alloc \<noteq> 0" and s: "s \<in> slabs L" "p \<in> U s"
  shows "\<exists>h' L'. mem_free alloc meta p h = Some h' \<and> al_lock h' = al_lock h \<and>
    slab_lists alloc meta h' L' (FR(s := FR s @ [p])) (U(s := U s - {p})) \<and> slabs L' = slabs L \<and>
    slab_status L' (FR(s := FR s @ [p])) (U(s := U s - {p})) \<and>
    data_frame (heads alloc \<union> slabs L \<union> insert (slab_free s) (set (FR s) \<union> object_range meta p)) h h'"
proof -
  note m = slab_listsD(1) [OF sl]
  have sa: "algn 12 s" using slab_listsD(6) [OF sl s(1)] by blast
  let ?h1 = "h\<lparr>al_lock := (al_lock h)(alloc := 1)\<rparr>" and ?FR = "FR(s := FR s @ [p])" and ?U = "U(s := U s - {p})"
  let ?S = "heads alloc \<union> slabs L \<union> insert (slab_free s) (set (FR s) \<union> object_range meta p)"
  have sl1: "slab_lists alloc meta ?h1 L FR U"
    by (rule slab_lists_cong [OF sl]) (simp add: same_at_def)
  have ok: "slab_ok alloc meta ?h1 s (FR s) (U s)" by (rule slab_listsD(4) [OF sl1 s(1)])
  then have po: "p \<in> set (slab_objects meta s)" and al: "sl_alloc ?h1 s = alloc" using s(2) by (auto simp: slab_ok_def)
  define h0 where "h0 = memset p 0 (ucast (object_size meta)) ?h1"
  obtain h1 h3 where o: "list_add_tail (slab_free s) p h0 = Some h1" "sl_in_use h1 s = sl_in_use ?h1 s"
    "sl_in_use ?h1 s \<noteq> 0" "h3 = h1\<lparr>sl_in_use := (sl_in_use h1)(s := sl_in_use h1 s - 1)\<rparr>"
    "slab_ok alloc meta h3 s (FR s @ [p]) (U s - {p})"
    "data_frame (insert s (insert (slab_free s) (set (FR s) \<union> object_range meta p))) ?h1 h3"
    "l_next h3 s = l_next ?h1 s" "l_prev h3 s = l_prev ?h1 s" "al_lock h3 = al_lock ?h1"
    using put_object [OF m ok s(2), folded h0_def] by blast
  have page: "insert s (insert (slab_free s) (set (FR s) \<union> object_range meta p)) \<subseteq> cov 12 s"
    using slab_free_place(1) [OF sa] object_in_page(1) [OF m sa po] object_in_page(3) [OF m sa] ok
    by (auto simp: slab_ok_def)
  have sl3: "slab_lists alloc meta h3 L ?FR ?U"
    by (rule slab_inside [OF sl1 s(1) data_frame_mono [OF o(6) page] o(7,8,5)])
  have fr3: "data_frame ?S h h3"
    by (rule data_frame_trans [OF al_lock_frame data_frame_mono [OF o(6)]]) (use s in auto)
  have fin: "finite (U s)" by (rule slab_card(2) [OF m ok])
  have none: "sl_in_use h3 s = 0 \<longleftrightarrow> U s = {p}"
  proof -
    have "sl_in_use h3 s = 0 \<longleftrightarrow> card (U s - {p}) = 0" using o(5) by (simp add: slab_ok_def word_unat_eq_iff)
    also have "\<dots> \<longleftrightarrow> U s - {p} = {}" by (rule card_0_eq) (use fin in simp)
    also have "\<dots> \<longleftrightarrow> U s = {p}" using s(2) by blast
    finally show ?thesis .
  qed
  have full: "sl_in_use ?h1 s = objects_per_slab meta \<longleftrightarrow> FR s = []"
    using slab_card(4) [OF m ok] by (auto simp: word_unat_eq_iff)
  have "p \<noteq> 0" "object_to_slab p = s" using object_slab [OF m sa po] by simp_all
  then have run: "mem_free alloc meta p h = do {
      h \<leftarrow> (if U s = {p} then do { h \<leftarrow> list_del s h3; list_add_tail (list_head alloc Empty) s h }
            else if FR s = [] then do { h \<leftarrow> list_del s h3; list_add_tail (list_head alloc Partial) s h }
            else Some h3);
      al_mutex_unlock alloc h }"
    using lk al o(1-3) none full unfolding o(4) h0_def
    by (simp add: mem_free_def al_mutex_lock_def mutex_lock_eq Let_def slab_link_def)
  have unlock: "al_mutex_unlock alloc h' = Some (h'\<lparr>al_lock := al_lock h\<rparr>)" if "al_lock h' = al_lock ?h1" for h'
    using that lk by (simp add: al_mutex_unlock_def mutex_unlock_eq fun_upd_idem)
  have finish: "\<exists>h'' L'. Some (h'\<lparr>al_lock := al_lock h\<rparr>) = Some h'' \<and> al_lock h'' = al_lock h \<and>
      slab_lists alloc meta h'' L' ?FR ?U \<and> slabs L' = slabs L \<and> slab_status L' ?FR ?U \<and> data_frame ?S h h''"
    if "slab_lists alloc meta h' L' ?FR ?U" "slabs L' = slabs L" "slab_status L' ?FR ?U" "data_frame ?S h3 h'" for h' L'
  proof -
    let ?h = "h'\<lparr>al_lock := al_lock h\<rparr>"
    have "slab_lists alloc meta ?h L' ?FR ?U"
      by (rule slab_lists_cong [OF that(1)]) (simp add: same_at_def)
    moreover have "data_frame ?S h ?h"
      by (rule data_frame_trans [OF data_frame_trans [OF fr3 that(4)] al_lock_frame])
    ultimately show ?thesis using that(2,3) by (intro exI [of _ ?h] exI [of _ L']) simp
  qed
  have sub: "heads alloc \<union> slabs L \<subseteq> ?S" by blast
  obtain k where k: "s \<in> set (L k)" using s(1) by (auto simp: slabs_def)
  then obtain xs ys where xy: "L k = xs @ s # ys" using in_set_conv_decomp [of s "L k"] by blast
  have kE: "k \<noteq> Empty" using k st s(2) by (auto simp: slab_status_def)
  have other: "s \<notin> set (L j)" if "j \<noteq> k" for j using slab_listsD(3) [OF sl that] k by blast
  have dk: "s \<notin> set xs" "s \<notin> set ys"
    using slab_listsD(2) [OF sl, of k] xy by (auto simp: dlist_def)
  show ?thesis
  proof (cases "U s = {p}")
    case True
    obtain g h' where g: "list_del s h3 = Some g" "list_add_tail (list_head alloc Empty) s g = Some h'"
      "slab_lists alloc meta h' (L(k := xs @ ys, Empty := L Empty @ [s])) ?FR ?U"
      "l_frame (heads alloc \<union> slabs L) h3 h'" "slabs (L(k := xs @ ys, Empty := L Empty @ [s])) = slabs L"
      using slab_move_back [OF sl3 xy kE] by blast
    have "slab_status (L(k := xs @ ys, Empty := L Empty @ [s])) ?FR ?U"
      using st True kE xy dk other [of Partial] other [of Full] other [of Empty]
      by (cases k) (auto simp: slab_status_def)
    note f = finish [OF g(3,5) this data_frame_mono [OF l_frame_data [OF g(4)] sub]]
    have "al_lock h' = al_lock ?h1" using g(4) o(9) by (auto simp: l_frame_def)
    then have r: "mem_free alloc meta p h = Some (h'\<lparr>al_lock := al_lock h\<rparr>)"
      unfolding run using True g(1,2) unlock by simp
    show ?thesis unfolding r by (rule f)
  next
    case ne: False
    have U0: "U s - {p} \<noteq> {}" using ne s(2) by blast
    show ?thesis
    proof (cases "FR s = []")
      case True
      have kF: "k = Full" using True k kE st by (cases k) (auto simp: slab_status_def)
      obtain g h' where g: "list_del s h3 = Some g" "list_add_tail (list_head alloc Partial) s g = Some h'"
        "slab_lists alloc meta h' (L(Full := xs @ ys, Partial := L Partial @ [s])) ?FR ?U"
        "l_frame (heads alloc \<union> slabs L) h3 h'" "slabs (L(Full := xs @ ys, Partial := L Partial @ [s])) = slabs L"
        using slab_move_back [OF sl3, of Full xs s ys Partial] xy kF by auto
      have "slab_status (L(Full := xs @ ys, Partial := L Partial @ [s])) ?FR ?U"
        using st kF xy dk other [of Partial] other [of Empty] U0 by (auto simp: slab_status_def)
      note f = finish [OF g(3,5) this data_frame_mono [OF l_frame_data [OF g(4)] sub]]
      have "al_lock h' = al_lock ?h1" using g(4) o(9) by (auto simp: l_frame_def)
      then have r: "mem_free alloc meta p h = Some (h'\<lparr>al_lock := al_lock h\<rparr>)"
        unfolding run using True ne g(1,2) unlock by simp
      show ?thesis unfolding r by (rule f)
    next
      case False
      have "k = Partial" using False k kE st by (cases k) (auto simp: slab_status_def)
      then have "slab_status L ?FR ?U"
        using st other [of Full] other [of Empty] U0 by (auto simp: slab_status_def)
      note f = finish [OF sl3 refl this data_frame_refl]
      have r: "mem_free alloc meta p h = Some (h3\<lparr>al_lock := al_lock h\<rparr>)"
        unfolding run using False ne unlock [OF o(9)] by simp
      show ?thesis unfolding r by (rule f)
    qed
  qed
qed

end
