(* ===== verification/Boot_Tables.thy ===== *)
theory Boot_Tables
  imports Boot_Mem
begin

text \<open>
  The page tables that \<open>boot/virt.c\<close> builds.  The specification is the processor's walk from the
  root: which entry it ends with for a page number.  The invariant names the table of every
  prefix of a page number that has one.
\<close>

section \<open>Page numbers and slots\<close>

definition page_no :: "ptr \<Rightarrow> nat" where
  "page_no v = unat (take_bit 48 v) div 4096"

lemma unat_virt_index:
  assumes "i \<le> 3"
  shows "unat (virt_index v i) = page_no v div 512 ^ i mod 512"
proof -
  have m: "PAGING_INDEX_MASK = mask 9"
    by (simp add: PAGING_INDEX_MASK_def PAGING_INDEX_BITS_def mask_eq_exp_minus_1)
  have "virt_index v i = take_bit 9 (drop_bit (9 * i + 12) v)"
    by (simp add: virt_index_def m take_bit_eq_mask PAGING_INDEX_BITS_def PAGE_SHIFT_def)
  moreover have "unat v < 2 ^ LENGTH(64)" by (rule unsigned_less)
  then have "take_bit 64 (unat v) = unat v" by (simp add: take_bit_nat_eq_self_iff)
  ultimately have "unat (virt_index v i) = take_bit 9 (drop_bit (9 * i + 12) (unat v))"
    by (simp add: unsigned_take_bit_eq unsigned_drop_bit_eq)
  also have "\<dots> = take_bit 9 (drop_bit (9 * i) (drop_bit 12 (take_bit 48 (unat v))))"
    using assms by (intro bit_eqI) (auto simp: bit_simps ac_simps)
  also have "\<dots> = page_no v div 512 ^ i mod 512"
    unfolding page_no_def unsigned_take_bit_eq
    unfolding drop_bit_eq_div take_bit_eq_mod power_mult by simp
  finally show ?thesis .
qed

lemma page_no_bound: "page_no v < 2 ^ 36"
proof -
  have "unat (take_bit 48 v) < 2 ^ 48" unfolding unsigned_take_bit_eq by (simp add: take_bit_eq_mod)
  then show ?thesis by (simp add: page_no_def less_mult_imp_div_less)
qed

lemma index_eq: "i \<le> 3 \<Longrightarrow> virt_index v i = of_nat (page_no v div 512 ^ i mod 512)"
  by (subst unat_virt_index [symmetric]) simp_all

text \<open>A frame that the early allocator may have handed out, and the entry \<open>k\<close> of a table in it.\<close>

definition frame_ok :: "u64 \<Rightarrow> u64 \<Rightarrow> bool" where
  "frame_ok dm f \<longleftrightarrow> 4096 dvd unat f \<and> unat f + 4096 \<le> 2 ^ 52 \<and> unat dm + unat f + 4096 \<le> 2 ^ 64"

definition slot :: "u64 \<Rightarrow> u64 \<Rightarrow> nat \<Rightarrow> ptr" where
  "slot dm f k = dm + f + 8 * of_nat k"

lemma unat_slot:
  assumes "frame_ok dm f" "k < 512"
  shows "unat (slot dm f k) = unat dm + unat f + 8 * k"
proof -
  have k: "unat (8 * of_nat k :: u64) = 8 * k"
    using assms(2) by (simp add: unat_word_ariths unat_of_nat)
  have f: "unat (dm + f) = unat dm + unat f"
    by (rule unat_add_lem [THEN iffD1]) (use assms(1) in \<open>simp add: frame_ok_def\<close>)
  have "unat (dm + f + 8 * of_nat k) = unat (dm + f) + unat (8 * of_nat k :: u64)"
    by (rule unat_add_lem [THEN iffD1]) (use assms f k in \<open>simp add: frame_ok_def\<close>)
  with f k show ?thesis by (simp add: slot_def)
qed

lemma slot_inj:
  assumes "frame_ok dm f" "k < 512" "frame_ok dm g" "l < 512" "slot dm f k = slot dm g l"
  shows "f = g \<and> k = l"
proof -
  have e: "unat f + 8 * k = unat g + 8 * l"
    using unat_slot [OF assms(1,2)] unat_slot [OF assms(3,4)] assms(5) by simp
  obtain x y where x: "unat f = 4096 * x" "unat g = 4096 * y"
    using assms(1,3) by (auto simp: frame_ok_def elim!: dvdE)
  have "\<not> x < y" "\<not> y < x" using e x assms(2,4) by linarith+
  then have "x = y" by simp
  moreover from this have "k = l" using e x by simp
  ultimately show ?thesis using x by (simp add: word_unat_eq_iff)
qed

lemma slot_in_page:
  assumes "frame_ok dm f" "frame_ok dm g" "k < 512"
  shows "slot dm f k - (dm + g) < PAGE_SIZE \<longleftrightarrow> f = g"
proof -
  have g: "unat (dm + g) = unat dm + unat g"
    by (rule unat_add_lem [THEN iffD1]) (use assms(2) in \<open>simp add: frame_ok_def\<close>)
  note s = unat_slot [OF assms(1,3)]
  obtain x y where x: "unat f = 4096 * x" "unat g = 4096 * y"
    using assms(1,2) by (auto simp: frame_ok_def elim!: dvdE)
  show ?thesis
  proof
    assume l: "slot dm f k - (dm + g) < PAGE_SIZE"
    then have l': "unat (slot dm f k - (dm + g)) < 4096" by (simp add: PAGE_SIZE_eq word_less_nat_alt)
    show "f = g"
    proof (cases "dm + g \<le> slot dm f k")
      case True
      then have "unat f + 8 * k - unat g < 4096" "unat g \<le> unat f + 8 * k"
        using l' s g unat_sub [OF True] by (auto simp: word_le_nat_alt)
      then have "\<not> x < y" "\<not> y < x" using x assms(3) by linarith+
      then have "x = y" by simp
      then show ?thesis using x by (simp add: word_unat_eq_iff)
    next
      case False
      then have "unat (slot dm f k - (dm + g)) = unat (slot dm f k) + 2 ^ 64 - unat (dm + g)"
        using unat_sub_if' [of "slot dm f k" "dm + g"] by (simp add: word_le_nat_alt)
      moreover have "unat (dm + g) \<le> 2 ^ 64 - 4096" using g assms(2) by (simp add: frame_ok_def)
      ultimately have False using l' by simp
      then show ?thesis ..
    qed
  next
    assume "f = g"
    then have "slot dm f k - (dm + g) = 8 * of_nat k" by (simp add: slot_def)
    moreover have "unat (8 * of_nat k :: u64) < 4096"
      using assms(3) by (simp add: unat_word_ariths unat_of_nat)
    ultimately show "slot dm f k - (dm + g) < PAGE_SIZE"
      by (simp add: PAGE_SIZE_eq word_less_nat_alt)
  qed
qed

text \<open>A table entry of the early code, and the frame the processor reads in it.\<close>

lemma table_entry:
  assumes "frame_ok dm f"
  shows "(f OR IA32_PG_P OR IA32_PG_RW) AND IA32_PG_P \<noteq> 0"
    "(f OR IA32_PG_P OR IA32_PG_RW) AND PAGING_4K_ADDRESS_MASK = f"
proof -
  have p: "IA32_PG_P = 2 ^ 0" "IA32_PG_RW = 2 ^ 1" by (simp_all add: pg_defs)
  have "bit ((f OR IA32_PG_P OR IA32_PG_RW) AND IA32_PG_P) 0"
    unfolding p by (simp add: bit_simps bit_exp_iff)
  then show "(f OR IA32_PG_P OR IA32_PG_RW) AND IA32_PG_P \<noteq> 0" by (metis bit_0_eq bot_apply bot_bool_def)
  have m: "bit PAGING_4K_ADDRESS_MASK n \<longleftrightarrow> 12 \<le> n \<and> n < 52" for n
  proof -
    have "PAGING_4K_ADDRESS_MASK = push_bit 12 (mask 40)"
      by (simp add: PAGING_4K_ADDRESS_MASK_def push_bit_eq_mult mask_eq_exp_minus_1)
    then show ?thesis unfolding \<open>PAGING_4K_ADDRESS_MASK = _\<close> by (auto simp: bit_simps)
  qed
  have a: "\<not> bit f n" if "n < 12" for n
    using assms that algn_bits [of 12 f] by (simp add: frame_ok_def algn_page)
  have "f < 2 ^ 52" using assms by (simp add: frame_ok_def word_less_nat_alt)
  then have t: "take_bit 52 f = f" by (rule small_bits) simp
  have b: "bit f n \<Longrightarrow> n < 52" for n using t by (metis bit_take_bit_iff)
  show "(f OR IA32_PG_P OR IA32_PG_RW) AND PAGING_4K_ADDRESS_MASK = f"
  proof (rule bit_word_eqI)
    fix n
    show "bit ((f OR IA32_PG_P OR IA32_PG_RW) AND PAGING_4K_ADDRESS_MASK) n \<longleftrightarrow> bit f n"
      using a [of n] b [of n] m [of n] bit_word_3_iff [of n]
      unfolding p by (auto simp: bit_simps bit_exp_iff)
  qed
qed

section \<open>The walk of the processor\<close>

text \<open>The last entry of the walk for a page number, or 0 where a table is missing on the way.\<close>

fun pt_walk :: "mm \<Rightarrow> u64 \<Rightarrow> nat \<Rightarrow> ptr \<Rightarrow> nat \<Rightarrow> u64" where
  "pt_walk m dm 0 table n = mem64 m (table + 8 * of_nat (n mod 512))"
| "pt_walk m dm (Suc i) table n =
     (let e = mem64 m (table + 8 * of_nat (n div 512 ^ Suc i mod 512))
      in if e AND IA32_PG_P = 0 then 0
         else pt_walk m dm i (dm + (e AND PAGING_4K_ADDRESS_MASK)) n)"

definition pt_entry :: "boot \<Rightarrow> nat \<Rightarrow> u64" where
  "pt_entry b n = pt_walk (bmm b) (bdm b) 3 (g_page_table (bmm b)) n"

section \<open>The invariant\<close>

text \<open>\<open>T i q\<close> is the frame of the table of level \<open>i\<close> whose page numbers start with \<open>q\<close>.  Tables lie in
  frames of \<open>P\<close>, no two in the same; what an entry of a higher table says is what \<open>T\<close> says.\<close>

type_synonym tables = "nat \<Rightarrow> nat \<Rightarrow> u64 option"

definition entry_ok :: "u64 option \<Rightarrow> u64 \<Rightarrow> bool" where
  "entry_ok t e \<longleftrightarrow> t = (if e AND IA32_PG_P = 0 then None else Some (e AND PAGING_4K_ADDRESS_MASK))"

definition tables_ok :: "mm \<Rightarrow> u64 \<Rightarrow> u64 set \<Rightarrow> tables \<Rightarrow> bool" where
  "tables_ok m dm P T \<longleftrightarrow>
     g_page_table_levels m = 4 \<and> (\<exists>r. T 3 0 = Some r \<and> g_page_table m = dm + r) \<and>
     (\<forall>i q f. T i q = Some f \<longrightarrow> i \<le> 3 \<and> f \<in> P \<and> frame_ok dm f) \<and>
     (\<forall>i q f j p. T i q = Some f \<and> T j p = Some f \<longrightarrow> i = j \<and> q = p) \<and>
     (\<forall>i q f k. T (Suc i) q = Some f \<and> k < 512 \<longrightarrow> entry_ok (T i (512 * q + k)) (mem64 m (slot dm f k))) \<and>
     (\<forall>i q f. T i q = Some f \<and> i < 3 \<longrightarrow> T (Suc i) (q div 512) \<noteq> None)"

lemma tables_root: "tables_ok m dm P T \<Longrightarrow> \<exists>r. T 3 0 = Some r \<and> g_page_table m = dm + r"
  by (simp add: tables_ok_def)

lemma tables_levels: "tables_ok m dm P T \<Longrightarrow> g_page_table_levels m = 4"
  by (simp add: tables_ok_def)

lemma tables_frame: "tables_ok m dm P T \<Longrightarrow> T i q = Some f \<Longrightarrow> i \<le> 3 \<and> f \<in> P \<and> frame_ok dm f"
  unfolding tables_ok_def by blast

lemma tables_inj: "tables_ok m dm P T \<Longrightarrow> T i q = Some f \<Longrightarrow> T j p = Some f \<Longrightarrow> i = j \<and> q = p"
  unfolding tables_ok_def by blast

lemma tables_entry:
  "tables_ok m dm P T \<Longrightarrow> T (Suc i) q = Some f \<Longrightarrow> k < 512 \<Longrightarrow>
   entry_ok (T i (512 * q + k)) (mem64 m (slot dm f k))"
  unfolding tables_ok_def by blast

lemma tables_up: "tables_ok m dm P T \<Longrightarrow> T i q = Some f \<Longrightarrow> i < 3 \<Longrightarrow> T (Suc i) (q div 512) \<noteq> None"
  unfolding tables_ok_def by blast

lemma tables_up_all:
  assumes "tables_ok m dm P T" "T i q \<noteq> None" "i + d \<le> 3"
  shows "T (i + d) (q div 512 ^ d) \<noteq> None"
  using assms(3)
proof (induction d)
  case (Suc d)
  then obtain f where "T (i + d) (q div 512 ^ d) = Some f" by auto
  from tables_up [OF assms(1) this] Suc.prems
  show ?case by (simp add: div_mult2_eq [symmetric] mult.commute)
qed (use assms(2) in simp)

definition pte :: "mm \<Rightarrow> u64 \<Rightarrow> tables \<Rightarrow> nat \<Rightarrow> u64" where
  "pte m dm T n = (case T 0 (n div 512) of None \<Rightarrow> 0 | Some f \<Rightarrow> mem64 m (slot dm f (n mod 512)))"

lemma prefix_split: "512 * (n div 512 ^ Suc i) + n div 512 ^ i mod 512 = n div 512 ^ i" for n :: nat
proof -
  have "n div 512 ^ Suc i = n div 512 ^ i div 512" by (simp add: div_mult2_eq [symmetric] mult.commute)
  then show ?thesis by simp
qed

lemma pt_walk_pte:
  assumes "tables_ok m dm P T" "T i (n div 512 ^ Suc i) = Some f"
  shows "pt_walk m dm i (dm + f) n = pte m dm T n"
  using assms(2)
proof (induction i arbitrary: f)
  case 0
  then show ?case by (simp add: pte_def slot_def)
next
  case (Suc i)
  let ?k = "n div 512 ^ Suc i mod 512"
  let ?e = "mem64 m (slot dm f ?k)"
  have e: "entry_ok (T i (n div 512 ^ Suc i)) ?e"
    using tables_entry [OF assms(1) Suc.prems, of ?k] prefix_split [of n "Suc i"] by simp
  show ?case
  proof (cases "?e AND IA32_PG_P = 0")
    case True
    then have "T i (n div 512 ^ Suc i) = None" using e by (simp add: entry_ok_def)
    moreover have "T i (n div 512 ^ Suc i) \<noteq> None" if "T 0 (n div 512) \<noteq> None"
      using tables_up_all [OF assms(1) that, of i] tables_frame [OF assms(1) Suc.prems]
      by (simp add: div_mult2_eq [symmetric])
    ultimately have "T 0 (n div 512) = None" by blast
    then have "pte m dm T n = 0" by (simp add: pte_def)
    then show ?thesis using True by (simp add: slot_def Let_def)
  next
    case False
    then have "T i (n div 512 ^ Suc i) = Some (?e AND PAGING_4K_ADDRESS_MASK)"
      using e by (simp add: entry_ok_def)
    from Suc.IH [OF this] False show ?thesis by (simp add: slot_def Let_def)
  qed
qed

lemma pt_entry_pte:
  assumes "tables_ok (bmm b) (bdm b) P T" "n < 2 ^ 36"
  shows "pt_entry b n = pte (bmm b) (bdm b) T n"
proof -
  obtain r where r: "T 3 0 = Some r" "g_page_table (bmm b) = bdm b + r"
    using tables_root [OF assms(1)] by auto
  have "n div 512 ^ Suc 3 = 0" using assms(2) by simp
  with r(1) pt_walk_pte [OF assms(1), of 3 n r] show ?thesis by (simp add: pt_entry_def r(2))
qed

section \<open>Changing an entry\<close>

lemma mem64_store64 [simp]: "mem64 (store64 p v m) a = (if a = p then v else mem64 m a)"
  by (simp add: store64_def)

lemma store64_root [simp]:
  "g_page_table (store64 p v m) = g_page_table m" "g_page_table_levels (store64 p v m) = g_page_table_levels m"
  by (simp_all add: store64_def)

text \<open>A store into a table of the lowest level.\<close>

lemma store_leaf:
  assumes ok: "tables_ok m dm P T" and f: "T 0 q = Some f" "k < 512"
  shows "tables_ok (store64 (slot dm f k) v m) dm P T"
    "pte (store64 (slot dm f k) v m) dm T n = (if n = 512 * q + k then v else pte m dm T n)"
proof -
  have fo: "frame_ok dm f" using tables_frame [OF ok f(1)] by simp
  have hi: "slot dm g l \<noteq> slot dm f k" if "T (Suc i) p = Some g" "l < 512" for i p g l
    using slot_inj [OF _ that(2) fo f(2)] tables_frame [OF ok that(1)] tables_inj [OF ok that(1), of 0 q] f(1) by auto
  show "tables_ok (store64 (slot dm f k) v m) dm P T"
    unfolding tables_ok_def
  proof (intro conjI)
    show "\<forall>i q' g l. T (Suc i) q' = Some g \<and> l < 512 \<longrightarrow>
        entry_ok (T i (512 * q' + l)) (mem64 (store64 (slot dm f k) v m) (slot dm g l))"
    proof (intro allI impI)
      fix i q' g and l :: nat
      assume "T (Suc i) q' = Some g \<and> l < 512"
      then show "entry_ok (T i (512 * q' + l)) (mem64 (store64 (slot dm f k) v m) (slot dm g l))"
        using hi [of i q' g l] tables_entry [OF ok, of i q' g l] by simp
    qed
  qed (use ok in \<open>simp_all add: tables_ok_def\<close>)
  have lo: "slot dm g l = slot dm f k \<longleftrightarrow> p = q \<and> l = k" if "T 0 p = Some g" "l < 512" for p g l
    using slot_inj [OF _ that(2) fo f(2)] tables_frame [OF ok that(1)] tables_inj [OF ok that(1), of 0 q]
      f(1) that(1) by auto
  have "n = 512 * q + k \<longleftrightarrow> n div 512 = q \<and> n mod 512 = k" using f(2) by auto
  then show "pte (store64 (slot dm f k) v m) dm T n = (if n = 512 * q + k then v else pte m dm T n)"
    using lo [of "n div 512" _ "n mod 512"] f(1) by (auto simp: pte_def split: option.splits)
qed

text \<open>A new, cleared table behind an entry that has none.  Nothing that is mapped changes.\<close>

lemma digit_unique: "512 * p + l = 512 * q + k \<Longrightarrow> l < 512 \<Longrightarrow> k < 512 \<Longrightarrow> p = q \<and> l = k"
  for p q k l :: nat
proof -
  assume e: "512 * p + l = 512 * q + k" and l: "l < 512" "k < 512"
  have "(512 * p + l) div 512 = p" "(512 * q + k) div 512 = q" using l by simp_all
  with e have "p = q" by (simp only:)
  with e show ?thesis by simp
qed

lemma mem64_memset_0: "mem64 (memset p 0 n m) a = (if a - p < n then 0 else mem64 m a)"
  by (simp add: memset_def fill_def)

lemma memset_root [simp]:
  "g_page_table (memset p v n m) = g_page_table m" "g_page_table_levels (memset p v n m) = g_page_table_levels m"
  by (simp_all add: memset_def)

lemma new_table:
  assumes ok: "tables_ok m dm P T" and f: "T (Suc i) q = Some f" "k < 512"
    and none: "mem64 m (slot dm f k) AND IA32_PG_P = 0" and g: "g \<notin> P" "frame_ok dm g"
  defines "m' \<equiv> store64 (slot dm f k) (g OR IA32_PG_P OR IA32_PG_RW) (memset (dm + g) 0 PAGE_SIZE m)"
    and "T' \<equiv> T(i := (T i)(512 * q + k := Some g))"
  shows "tables_ok m' dm (insert g P) T'" "pte m' dm T' n = pte m dm T n"
proof -
  let ?p = "512 * q + k"
  have fo: "frame_ok dm f" "f \<in> P" "i < 3" using tables_frame [OF ok f(1)] by auto
  have Tn: "T i ?p = None" using tables_entry [OF ok f] none by (simp add: entry_ok_def)
  have T': "T' j p = Some h \<longleftrightarrow> (if j = i \<and> p = ?p then h = g else T j p = Some h)" for j p h
    using Tn by (auto simp: T'_def)
  have old: "h \<in> P \<and> frame_ok dm h \<and> h \<noteq> g \<and> j \<le> 3" if "T j p = Some h" for j p h
    using tables_frame [OF ok that] g(1) by auto
  have mem: "mem64 m' (slot dm h l) = (if h = f \<and> l = k then g OR IA32_PG_P OR IA32_PG_RW
      else if h = g then 0 else mem64 m (slot dm h l))" if "frame_ok dm h" "l < 512" for h l
    using slot_inj [OF that fo(1) f(2)] slot_in_page [OF that(1) g(2) that(2)]
    by (auto simp: m'_def mem64_memset_0)
  have ent: "entry_ok (T' j (512 * p + l)) (mem64 m' (slot dm h l))"
    if h: "T' (Suc j) p = Some h" and l: "l < 512" for j p h and l :: nat
  proof (cases "Suc j = i \<and> p = ?p")
    case True
    then have hg: "h = g" using h T' by simp
    have "T j (512 * p + l) = None"
    proof (rule ccontr)
      assume "T j (512 * p + l) \<noteq> None"
      then obtain x where "T j (512 * p + l) = Some x" by auto
      note up = tables_up [OF ok this]
      have "(512 * p + l) div 512 = p" using l by simp
      then have "T (Suc j) p \<noteq> None" using up True fo(3) by (simp only:) simp
      with True Tn show False by simp
    qed
    then have "T' j (512 * p + l) = None" using True by (simp add: T'_def)
    moreover have "mem64 m' (slot dm h l) = 0" using mem [OF _ l, of h] hg g fo(2) by auto
    ultimately show ?thesis by (simp add: entry_ok_def)
  next
    case False
    then have h': "T (Suc j) p = Some h" using h T' by auto
    note o = old [OF h']
    show ?thesis
    proof (cases "h = f \<and> l = k")
      case True
      then have "j = i" "p = q" using tables_inj [OF ok h', of "Suc i" q] f(1) by auto
      then show ?thesis
        using mem [of h l] o l True table_entry [OF g(2)] by (simp add: T'_def entry_ok_def)
    next
      case other: False
      have "T' j (512 * p + l) = T j (512 * p + l)"
      proof (cases "j = i \<and> 512 * p + l = ?p")
        case True
        then have "p = q" "l = k" using digit_unique [of p l q k] l f(2) by simp_all
        then show ?thesis using True h' f(1) other by simp
      qed (auto simp: T'_def)
      moreover have "mem64 m' (slot dm h l) = mem64 m (slot dm h l)"
        using mem [of h l] o l other by simp
      ultimately show ?thesis using tables_entry [OF ok h' l] by simp
    qed
  qed
  show "tables_ok m' dm (insert g P) T'"
    unfolding tables_ok_def
  proof (intro conjI allI impI)
    show "g_page_table_levels m' = 4" using tables_levels [OF ok] by (simp add: m'_def)
    obtain r where "T 3 0 = Some r" "g_page_table m = dm + r" using tables_root [OF ok] by auto
    then show "\<exists>r. T' 3 0 = Some r \<and> g_page_table m' = dm + r" using fo(3) by (simp add: m'_def T'_def)
  next
    fix j p h assume "T' j p = Some h"
    then show "j \<le> 3" "h \<in> insert g P" "frame_ok dm h"
      using T' [of j p h] old [of j p h] g(2) fo(3) by (auto split: if_splits)
  next
    fix j p h j' p' assume a: "T' j p = Some h \<and> T' j' p' = Some h"
    have "j = j' \<and> p = p'"
    proof (cases "h = g")
      case True
      then have "T j p \<noteq> Some h" "T j' p' \<noteq> Some h" using old by blast+
      with a T' show ?thesis by metis
    next
      case False
      then have "T j p = Some h" "T j' p' = Some h" using a T' by metis+
      then show ?thesis by (rule tables_inj [OF ok])
    qed
    then show "j = j'" "p = p'" by simp_all
  next
    fix j p h and l :: nat assume "T' (Suc j) p = Some h \<and> l < 512"
    then show "entry_ok (T' j (512 * p + l)) (mem64 m' (slot dm h l))" using ent by blast
  next
    fix j p h assume a: "T' j p = Some h \<and> j < 3"
    show "T' (Suc j) (p div 512) \<noteq> None"
    proof (cases "j = i \<and> p = ?p")
      case True
      then show ?thesis using f by (simp add: T'_def)
    next
      case False
      then have "T j p = Some h" using a T' by auto
      from tables_up [OF ok this] a show ?thesis by (auto simp: T'_def)
    qed
  qed
  show "pte m' dm T' n = pte m dm T n"
  proof (cases "i = 0 \<and> n div 512 = ?p")
    case True
    then show ?thesis using mem [OF g(2), of "n mod 512"] g(1) fo(2) Tn by (auto simp: pte_def T'_def)
  next
    case False
    then have e: "T' 0 (n div 512) = T 0 (n div 512)" by (auto simp: T'_def)
    show ?thesis
    proof (cases "T 0 (n div 512)")
      case (Some h)
      have "h \<noteq> f" using tables_inj [OF ok Some, of "Suc i" q] f(1) by auto
      then show ?thesis using mem [of h "n mod 512"] old [OF Some] e Some by (simp add: pte_def)
    qed (use e in \<open>simp add: pte_def\<close>)
  qed
qed

section \<open>Building the tables\<close>

text \<open>What the early code leaves alone: all but the early allocator and the contents of pages.\<close>

definition same_phys :: "mm \<Rightarrow> mm \<Rightarrow> bool" where
  "same_phys m m' \<longleftrightarrow> hl_first m' = hl_first m \<and> bitmap m' = bitmap m \<and> buddy_lock m' = buddy_lock m \<and>
     al_lock m' = al_lock m \<and> g_page_table m' = g_page_table m \<and>
     g_page_table_levels m' = g_page_table_levels m \<and> m_available_pages m' = m_available_pages m \<and>
     m_total_pages m' = m_total_pages m \<and> m_committed_pages m' = m_committed_pages m \<and>
     m_reserved_pages m' = m_reserved_pages m"

definition early_frame :: "boot \<Rightarrow> boot \<Rightarrow> bool" where
  "early_frame b b' \<longleftrightarrow> memmap b' = memmap b \<and> ksections b' = ksections b \<and>
     executable_address b' = executable_address b \<and> same_phys (bmm b) (bmm b') \<and>
     (\<exists>m. bk b' = on_vs (phys_mem_update (\<lambda>_. m)) (bk b))"

lemma same_phys_store64 [simp]: "same_phys m (store64 p v m') = same_phys m m'"
  by (simp add: same_phys_def store64_def)

lemma same_phys_memset [simp]: "same_phys m (memset p v n m') = same_phys m m'"
  by (simp add: same_phys_def memset_def)

lemma same_phys_refl [simp]: "same_phys m m"
  by (simp add: same_phys_def)

lemma on_vs_phys_mem_const:
  "on_vs (phys_mem_update f) h = on_vs (phys_mem_update (\<lambda>_. f (phys_mem (vs h)))) h"
  by (cases h) (simp add: on_vs_def)

lemma early_frame_refl [simp]: "early_frame b b"
  by (auto simp: early_frame_def intro: exI [of _ "phys_mem (vs (bk b))"] on_vs_phys_mem_self [symmetric])

lemma early_frame_trans: "early_frame b b' \<Longrightarrow> early_frame b' b'' \<Longrightarrow> early_frame b b''"
  by (auto simp: early_frame_def same_phys_def on_vs_phys_mem)

lemma early_frame_bdm: "early_frame b b' \<Longrightarrow> bdm b' = bdm b"
  by (auto simp: early_frame_def bdm_def dm_base_def)

lemma early_frame_store:
  "early_frame b b' \<Longrightarrow> early_frame b (on_bmm (store64 p v) b')"
  by (auto simp: early_frame_def on_bmm_def bmm_def on_vs_phys_mem)

text \<open>No free blocks: the buddy allocator's invariant does not look at the contents of pages.\<close>

lemma buddy_empty_cong:
  assumes "same_phys m (m'\<lparr>g_page_table := r\<rparr>)" "buddy_inv dm m (\<lambda>_. []) {}"
  shows "buddy_inv dm m' (\<lambda>_. []) {}"
proof -
  have "buddy_is_block_free dm m' x = buddy_is_block_free dm m x" for x
    using assms(1) by (simp add: buddy_is_block_free_def same_phys_def)
  then show ?thesis
    using assms by (simp add: buddy_inv_def buddy_core_def buddy_zero_def same_phys_def acct_ok_def
        free_pages_def fset_def)
qed

text \<open>A state in which the early code builds tables: \<open>ps\<close> are the pages handed out, and the tables
  lie among them.\<close>

definition boot_ok :: "limine_memmap_entry list \<Rightarrow> boot \<Rightarrow> u64 list \<Rightarrow> tables \<Rightarrow> bool" where
  "boot_ok es b ps T \<longleftrightarrow> early_inv es b ps \<and> tables_ok (bmm b) (bdm b) (set ps) T"

definition ptes :: "boot \<Rightarrow> tables \<Rightarrow> nat \<Rightarrow> u64" where
  "ptes b T = pte (bmm b) (bdm b) T"

definition room_for :: "nat \<Rightarrow> limine_memmap_entry list \<Rightarrow> u64 list \<Rightarrow> bool" where
  "room_for n es ps \<longleftrightarrow> 4096 * (length ps + n) \<le> card (usable_memory es)"

lemma early_find_fields:
  "early_find_loop es b = Some b' \<Longrightarrow> ksections b' = ksections b \<and> memmap b' = memmap b \<and>
     executable_address b' = executable_address b"
  by (induction es b rule: early_find_loop.induct) (auto split: if_splits simp: bind_eq_Some_conv)

lemma early_alloc_room:
  assumes "early_inv es b ps" "room_for (Suc n) es ps"
  obtains f b' where "early_phys_alloc_page b = Some (bdm b + f, b')" "f \<notin> set ps"
    "early_inv es b' (ps @ [f])" "frame_ok (bdm b) f" "early_frame b b'"
    "bmm b' = memset (bdm b + f) 0 PAGE_SIZE (bmm b)"
proof (cases "early_phys_alloc_page b")
  case None
  then have "{a \<in> usable_memory es. m_early_alloc_top b \<le> a} = {}"
    using early_alloc_ok [OF assms(1)] by auto
  then have "card {a \<in> usable_memory es. m_early_alloc_top b \<le> a} = 0" by simp
  with early_given(3) [OF assms(1)] assms(2) show ?thesis by (simp add: room_for_def)
next
  case (Some r)
  obtain p b' where r: "r = (p, b')" by (cases r)
  obtain f where f: "p = bdm b + f" "f \<notin> set ps" "early_inv es b' (ps @ [f])"
      "unat f + 4096 \<le> 2 ^ 52" "unat (bdm b) + unat f + 4096 \<le> 2 ^ 64"
      "bk b' = on_vs (phys_mem_update (memset p 0 PAGE_SIZE)) (bk b)"
    using early_alloc_ok [OF assms(1)] Some r by auto
  have "algn 12 f" using f(3) by (simp add: early_inv_def)
  then have fo: "frame_ok (bdm b) f" using f by (simp add: frame_ok_def algn_page)
  have m: "bmm b' = memset (bdm b + f) 0 PAGE_SIZE (bmm b)" by (simp add: bmm_def f(1,6))
  have "memmap b' = memmap b" "ksections b' = ksections b" "executable_address b' = executable_address b"
    using Some r
    by (auto simp: early_phys_alloc_page_def early_alloc_find_next_entry_def bind_eq_Some_conv
        Let_def on_bmm_def split: if_splits dest!: early_find_fields)
  then have "early_frame b b'"
    using m f(6) on_vs_phys_mem_const [of "memset p 0 PAGE_SIZE" "bk b"] by (auto simp: early_frame_def)
  with that Some r f fo m show ?thesis by simp
qed

text \<open>The tables that the pages of \<open>S\<close> need, and that there is memory for those that are missing.\<close>

definition prefixes :: "nat set \<Rightarrow> (nat \<times> nat) set" where
  "prefixes S = (\<Union>i\<in>{..<3}. (\<lambda>n. (i, n div 512 ^ Suc i)) ` S)"

definition tdom :: "tables \<Rightarrow> (nat \<times> nat) set" where
  "tdom T = {(i, q). T i q \<noteq> None}"

definition room :: "nat set \<Rightarrow> limine_memmap_entry list \<Rightarrow> u64 list \<Rightarrow> tables \<Rightarrow> bool" where
  "room S es ps T \<longleftrightarrow> finite S \<and> room_for (card (prefixes S - tdom T)) es ps"

lemma finite_prefixes: "finite S \<Longrightarrow> finite (prefixes S)"
  by (simp add: prefixes_def)

lemma in_prefixes: "n \<in> S \<Longrightarrow> i < 3 \<Longrightarrow> (i, n div 512 ^ Suc i) \<in> prefixes S"
  by (auto simp: prefixes_def)

lemma room_new_table:
  assumes "room S es ps T" "n \<in> S" "i < 3" "T i (n div 512 ^ Suc i) = None"
  shows "room_for (Suc 0) es ps" "room S es (ps @ [g]) (T(i := (T i)(n div 512 ^ Suc i := Some f)))"
proof -
  let ?x = "(i, n div 512 ^ Suc i)"
  let ?D = "prefixes S - tdom T"
  let ?T = "T(i := (T i)(n div 512 ^ Suc i := Some f))"
  have fin: "finite ?D" using assms(1) by (simp add: room_def finite_prefixes)
  have x: "?x \<in> ?D" using in_prefixes [OF assms(2,3)] assms(4) by (simp add: tdom_def)
  have c: "card ?D = Suc (card (?D - {?x}))" by (rule card.remove [OF fin x])
  have r: "4096 * (length ps + card ?D) \<le> card (usable_memory es)" and S: "finite S"
    using assms(1) by (simp_all add: room_def room_for_def)
  have "1 \<le> card ?D" unfolding c by simp
  then have "4096 * (length ps + Suc 0) \<le> 4096 * (length ps + card ?D)" by simp
  with r show "room_for (Suc 0) es ps" unfolding room_for_def by (rule order_trans [rotated])
  have d: "prefixes S - tdom ?T = ?D - {?x}" by (auto simp: tdom_def split: if_splits)
  have "4096 * (length (ps @ [g]) + card (?D - {?x})) \<le> card (usable_memory es)"
    using r unfolding c by simp
  then show "room S es (ps @ [g]) ?T" unfolding room_def room_for_def d using S by simp
qed

lemma next_level_ok:
  fixes i x :: nat
  assumes ok: "boot_ok es b ps T" and room: "room S es ps T" and S: "x \<in> S"
  defines "q \<equiv> x div 512 ^ Suc (Suc i)" and "k \<equiv> x div 512 ^ Suc i mod 512"
  assumes f: "T (Suc i) q = Some f"
  obtains g b' ps' T' where
    "early_virt_get_next_level (slot (bdm b) f k) b = Some (bdm b + g, b')" "boot_ok es b' ps' T'"
    "T' i (x div 512 ^ Suc i) = Some g" "ptes b' T' = ptes b T" "early_frame b b'" "room S es ps' T'"
proof (cases "mem64 (bmm b) (slot (bdm b) f k) AND IA32_PG_P = 0")
  case False
  have t: "tables_ok (bmm b) (bdm b) (set ps) T" using ok by (simp add: boot_ok_def)
  have k: "k < 512" and qk: "512 * q + k = x div 512 ^ Suc i"
    using prefix_split [of x "Suc i"] by (simp_all add: q_def k_def)
  have "T i (512 * q + k) = Some (mem64 (bmm b) (slot (bdm b) f k) AND PAGING_4K_ADDRESS_MASK)"
    using tables_entry [OF t f k] False by (simp add: entry_ok_def)
  with False show ?thesis unfolding qk
    by (intro that [of _ b ps T])
      (use ok room in \<open>auto simp: early_virt_get_next_level_def phys_to_direct_def\<close>)
next
  case True
  let ?s = "slot (bdm b) f k"
  have t: "tables_ok (bmm b) (bdm b) (set ps) T" and inv: "early_inv es b ps" using ok by (auto simp: boot_ok_def)
  have k: "k < 512" and qk: "512 * q + k = x div 512 ^ Suc i"
    using prefix_split [of x "Suc i"] by (simp_all add: q_def k_def)
  have i: "i < 3" using tables_frame [OF t f] by simp
  have "T i (x div 512 ^ Suc i) = None" using tables_entry [OF t f k] True by (simp add: entry_ok_def qk)
  note rm = room_new_table [OF room S i this]
  obtain g b1 where g: "early_phys_alloc_page b = Some (bdm b + g, b1)" "g \<notin> set ps"
    "early_inv es b1 (ps @ [g])" "frame_ok (bdm b) g" "early_frame b b1"
    "bmm b1 = memset (bdm b + g) 0 PAGE_SIZE (bmm b)"
    by (rule early_alloc_room [OF inv rm(1)])
  have dm: "bdm b1 = bdm b" by (rule early_frame_bdm [OF g(5)])
  let ?e = "g OR IA32_PG_P OR IA32_PG_RW"
  let ?b = "on_bmm (store64 ?s ?e) b1"
  let ?T = "T(i := (T i)(512 * q + k := Some g))"
  have m: "bmm ?b = store64 ?s ?e (memset (bdm b + g) 0 PAGE_SIZE (bmm b))" by (simp add: g(6))
  note n = new_table [OF t f k True g(2,4)]
  have "early_virt_get_next_level ?s b = Some (bdm b + g, ?b)"
    using True table_entry(2) [OF g(4)]
    by (simp add: early_virt_get_next_level_def g(1) dm direct_to_phys_def phys_to_direct_def)
  moreover have "boot_ok es ?b (ps @ [g]) ?T"
    unfolding boot_ok_def on_bmm_simps(2) dm m using g(3) n(1) by simp
  moreover have "ptes ?b ?T = ptes b T"
    using n(2) by (intro ext) (simp add: ptes_def dm g(6))
  moreover have "early_frame b ?b" by (rule early_frame_store [OF g(5)])
  moreover have "room S es (ps @ [g]) ?T" unfolding qk by (rule rm(2))
  moreover have "?T i (x div 512 ^ Suc i) = Some g" by (simp add: qk)
  ultimately show ?thesis by (intro that [of g ?b "ps @ [g]" ?T])
qed

lemma walk_ok:
  assumes "boot_ok es b ps T" "room S es ps T" "T i (page_no v div 512 ^ Suc i) = Some f" "i \<le> 3"
    "page_no v \<in> S"
  shows "\<exists>g b' ps' T'. early_walk v i (bdm b + f) b = Some (slot (bdm b) g (page_no v mod 512), b') \<and>
    boot_ok es b' ps' T' \<and> T' 0 (page_no v div 512) = Some g \<and> ptes b' T' = ptes b T \<and>
    early_frame b b' \<and> room S es ps' T'"
  using assms
proof (induction i arbitrary: b ps T f)
  case 0
  have "bdm b + f + 8 * virt_index v 0 = slot (bdm b) f (page_no v mod 512)"
    by (simp add: slot_def index_eq)
  with 0 show ?case
    by (intro exI [of _ f] exI [of _ b] exI [of _ ps] exI [of _ T]) simp
next
  case (Suc i)
  let ?k = "page_no v div 512 ^ Suc i mod 512"
  obtain g b1 ps1 T1 where g:
    "early_virt_get_next_level (slot (bdm b) f ?k) b = Some (bdm b + g, b1)" "boot_ok es b1 ps1 T1"
    "T1 i (page_no v div 512 ^ Suc i) = Some g" "ptes b1 T1 = ptes b T"
    "early_frame b b1" "room S es ps1 T1"
    by (rule next_level_ok [OF Suc.prems(1,2,5,3)])
  have dm: "bdm b1 = bdm b" by (rule early_frame_bdm [OF g(5)])
  obtain g' b' ps' T' where r: "early_walk v i (bdm b1 + g) b1 = Some (slot (bdm b1) g' (page_no v mod 512), b')"
    "boot_ok es b' ps' T'" "T' 0 (page_no v div 512) = Some g'" "ptes b' T' = ptes b1 T1"
    "early_frame b1 b'" "room S es ps' T'"
    using Suc.IH [OF g(2,6,3)] Suc.prems(4,5) by auto
  have sl: "bdm b + f + 8 * virt_index v (Suc i) = slot (bdm b) f ?k"
    using Suc.prems(4) by (simp only: slot_def index_eq)
  have "early_walk v (Suc i) (bdm b + f) b = Some (slot (bdm b) g' (page_no v mod 512), b')"
    using g(1) r(1) unfolding early_walk.simps sl dm by simp
  moreover have "early_frame b b'" by (rule early_frame_trans [OF g(5) r(5)])
  ultimately show ?case
    using r g(4) by (intro exI [of _ g'] exI [of _ b'] exI [of _ ps'] exI [of _ T']) simp
qed

lemma get_pte_ok:
  assumes "boot_ok es b ps T" "room S es ps T" "page_no v \<in> S"
  obtains g b' ps' T' where
    "early_virt_get_pte v b = Some (slot (bdm b) g (page_no v mod 512), b')" "boot_ok es b' ps' T'"
    "T' 0 (page_no v div 512) = Some g" "ptes b' T' = ptes b T" "early_frame b b'" "room S es ps' T'"
proof -
  have t: "tables_ok (bmm b) (bdm b) (set ps) T" using assms(1) by (simp add: boot_ok_def)
  obtain r where r: "T 3 0 = Some r" "g_page_table (bmm b) = bdm b + r" using tables_root [OF t] by auto
  have "page_no v div 512 ^ Suc 3 = 0" using page_no_bound [of v] by simp
  with r(1) have "T 3 (page_no v div 512 ^ Suc 3) = Some r" by simp
  from walk_ok [OF assms(1,2) this order_refl assms(3)]
  obtain g b' ps' T' where w: "early_walk v 3 (bdm b + r) b = Some (slot (bdm b) g (page_no v mod 512), b')"
    "boot_ok es b' ps' T'" "T' 0 (page_no v div 512) = Some g" "ptes b' T' = ptes b T"
    "early_frame b b'" "room S es ps' T'"
    by blast
  have "g_page_table_levels (bmm b) = Suc 3" using tables_levels [OF t] by simp
  then have "early_virt_get_pte v b = early_walk v 3 (bdm b + r) b"
    by (simp only: early_virt_get_pte_def r(2) nat.case)
  with w show ?thesis by (intro that) simp_all
qed

text \<open>The value at the slot of a page is the entry of the page, and a store there changes it alone.\<close>

lemma slot_pte:
  assumes "T 0 (n div 512) = Some g"
  shows "mem64 (bmm b) (slot (bdm b) g (n mod 512)) = ptes b T n"
  using assms by (simp add: ptes_def pte_def)

lemma set_pte_ok:
  assumes "boot_ok es b ps T" "T 0 (n div 512) = Some g"
  shows "boot_ok es (on_bmm (store64 (slot (bdm b) g (n mod 512)) v) b) ps T"
    "ptes (on_bmm (store64 (slot (bdm b) g (n mod 512)) v) b) T = (ptes b T)(n := v)"
proof -
  have t: "tables_ok (bmm b) (bdm b) (set ps) T" using assms(1) by (simp add: boot_ok_def)
  have k: "n mod 512 < 512" by simp
  note s = store_leaf [OF t assms(2) k, of v]
  show "boot_ok es (on_bmm (store64 (slot (bdm b) g (n mod 512)) v) b) ps T"
    using s(1) assms(1) by (simp add: boot_ok_def)
  show "ptes (on_bmm (store64 (slot (bdm b) g (n mod 512)) v) b) T = (ptes b T)(n := v)"
    using s(2) by (intro ext) (auto simp: ptes_def)
qed

section \<open>Mapping ranges\<close>

lemma page_no_Suc:
  assumes "Suc (page_no v) < 2 ^ 36"
  shows "page_no (v + PAGE_SIZE) = Suc (page_no v)"
proof -
  let ?n = "unat v mod 2 ^ 48"
  have p: "page_no w = unat w mod 2 ^ 48 div 4096" for w
    unfolding page_no_def unsigned_take_bit_eq unfolding take_bit_eq_mod ..
  have lt: "?n + 4096 < 2 ^ 48"
  proof -
    have "?n div 4096 + 1 < 2 ^ 36" using assms p [of v] by simp
    then have "(?n + 4096) div 4096 < 2 ^ 36" by simp
    then have "?n + 4096 < 2 ^ 36 * 4096" by (subst (asm) div_less_iff_less_mult) simp_all
    then show ?thesis by simp
  qed
  have "unat (v + PAGE_SIZE) = (unat v + 4096) mod 2 ^ 64"
    by (simp add: PAGE_SIZE_eq unat_word_ariths)
  then have "unat (v + PAGE_SIZE) mod 2 ^ 48 = (unat v + 4096) mod 2 ^ 48"
    by (simp add: mod_mod_cancel)
  also have "\<dots> = (?n + 4096) mod 2 ^ 48" by (simp only: mod_add_left_eq)
  also have "\<dots> = ?n + 4096" using lt by (rule mod_less)
  finally show ?thesis unfolding p by simp
qed

definition leaf_entry :: "u64 \<Rightarrow> u64 \<Rightarrow> u64" where
  "leaf_entry phys flags = phys OR IA32_PG_P OR IA32_PG_A OR flags"

lemma map_page_ok:
  assumes "boot_ok es b ps T" "room S es ps T" "page_no v \<in> S" "ptes b T (page_no v) = 0"
  obtains b' ps' T' where "early_virt_map_page v phys flags b = Some b'" "boot_ok es b' ps' T'"
    "ptes b' T' = (ptes b T)(page_no v := leaf_entry phys flags)" "early_frame b b'" "room S es ps' T'"
proof -
  obtain g b1 ps' T' where g: "early_virt_get_pte v b = Some (slot (bdm b) g (page_no v mod 512), b1)"
    "boot_ok es b1 ps' T'" "T' 0 (page_no v div 512) = Some g" "ptes b1 T' = ptes b T"
    "early_frame b b1" "room S es ps' T'"
    by (rule get_pte_ok [OF assms(1-3)])
  have dm: "bdm b1 = bdm b" by (rule early_frame_bdm [OF g(5)])
  have "mem64 (bmm b1) (slot (bdm b) g (page_no v mod 512)) = 0"
    using slot_pte [of T' "page_no v" g b1, OF g(3)] g(4) assms(4) by (simp add: dm)
  then have "early_virt_map_page v phys flags b =
      Some (on_bmm (store64 (slot (bdm b) g (page_no v mod 512)) (leaf_entry phys flags)) b1)"
    by (simp add: early_virt_map_page_def g(1) leaf_entry_def)
  then show ?thesis
    using set_pte_ok [where n = "page_no v" and v = "leaf_entry phys flags", OF g(2,3)] g(4,6) early_frame_store [OF g(5)]
    by (intro that) (simp_all add: dm)
qed

definition range_ptes :: "nat \<Rightarrow> nat \<Rightarrow> u64 \<Rightarrow> u64 \<Rightarrow> (nat \<Rightarrow> u64) \<Rightarrow> nat \<Rightarrow> u64" where
  "range_ptes n num phys flags f = (\<lambda>i. if n \<le> i \<and> i < n + num
     then leaf_entry (phys + of_nat (i - n) * PAGE_SIZE) flags else f i)"

lemma range_ptes_0: "range_ptes n 0 phys flags f = f"
  by (rule ext) (auto simp: range_ptes_def)

lemma range_ptes_Suc:
  "range_ptes (Suc n) num (phys + PAGE_SIZE) flags (f(n := leaf_entry phys flags)) =
   range_ptes n (Suc num) phys flags f"
proof
  fix i
  show "range_ptes (Suc n) num (phys + PAGE_SIZE) flags (f(n := leaf_entry phys flags)) i =
      range_ptes n (Suc num) phys flags f i"
  proof (cases "i > n")
    case True
    then have "i - n = Suc (i - Suc n)" by simp
    then show ?thesis using True by (simp add: range_ptes_def algebra_simps)
  qed (auto simp: range_ptes_def)
qed

lemma map_loop_ok:
  assumes "boot_ok es b ps T" "room S es ps T" "page_no v + num \<le> 2 ^ 36"
    and "{page_no v..<page_no v + num} \<subseteq> S"
    and "\<And>i. page_no v \<le> i \<Longrightarrow> i < page_no v + num \<Longrightarrow> ptes b T i = 0"
  shows "\<exists>b' ps' T'. early_virt_map_loop num v phys flags b = Some b' \<and> boot_ok es b' ps' T' \<and>
    ptes b' T' = range_ptes (page_no v) num phys flags (ptes b T) \<and> early_frame b b' \<and> room S es ps' T'"
  using assms
proof (induction num arbitrary: v phys b ps T)
  case 0
  then show ?case
    by (intro exI [of _ b] exI [of _ ps] exI [of _ T]) (simp add: range_ptes_0)
next
  case (Suc num)
  have "page_no v \<in> S" using Suc.prems(4) by auto
  moreover have "ptes b T (page_no v) = 0" using Suc.prems(5) by simp
  ultimately obtain b1 ps1 T1 where m: "early_virt_map_page v phys flags b = Some b1" "boot_ok es b1 ps1 T1"
    "ptes b1 T1 = (ptes b T)(page_no v := leaf_entry phys flags)" "early_frame b b1" "room S es ps1 T1"
    by (rule map_page_ok [OF Suc.prems(1,2)])
  show ?case
  proof (cases num)
    case 0
    then show ?thesis
      using m range_ptes_Suc [of "page_no v" 0 phys flags "ptes b T"]
      by (intro exI [of _ b1] exI [of _ ps1] exI [of _ T1]) (simp add: range_ptes_0)
  next
    case (Suc k)
    have v: "page_no (v + PAGE_SIZE) = Suc (page_no v)"
      by (rule page_no_Suc) (use Suc.prems(3) Suc in simp)
    have r: "{page_no (v + PAGE_SIZE)..<page_no (v + PAGE_SIZE) + num} \<subseteq> S" using Suc.prems(4) v by auto
    have f: "ptes b1 T1 i = 0" if "page_no (v + PAGE_SIZE) \<le> i" "i < page_no (v + PAGE_SIZE) + num" for i
      using that Suc.prems(5) [of i] by (simp add: v m(3))
    have "page_no (v + PAGE_SIZE) + num \<le> 2 ^ 36" using Suc.prems(3) v by simp
    from Suc.IH [OF m(2,5) this r f, of "phys + PAGE_SIZE"]
    obtain b' ps' T' where c: "early_virt_map_loop num (v + PAGE_SIZE) (phys + PAGE_SIZE) flags b1 = Some b'"
      "boot_ok es b' ps' T'"
      "ptes b' T' = range_ptes (page_no (v + PAGE_SIZE)) num (phys + PAGE_SIZE) flags (ptes b1 T1)"
      "early_frame b1 b'" "room S es ps' T'"
      by blast
    have "ptes b' T' = range_ptes (page_no v) (Suc num) phys flags (ptes b T)"
      unfolding c(3) v m(3) by (rule range_ptes_Suc)
    moreover have "early_virt_map_loop (Suc num) v phys flags b = Some b'" using m(1) c(1) by simp
    moreover have "early_frame b b'" by (rule early_frame_trans [OF m(4) c(4)])
    ultimately show ?thesis
      using c(2,5) by (intro exI [of _ b'] exI [of _ ps'] exI [of _ T']) simp
  qed
qed

section \<open>The direct map\<close>

text \<open>The entries that are mapped, ascending and in whole pages; the direct map does not reach beyond
  the page numbers of 48 bits.\<close>

fun dmap_from :: "u64 \<Rightarrow> nat \<Rightarrow> limine_memmap_entry list \<Rightarrow> bool" where
  "dmap_from dm k [] \<longleftrightarrow> True"
| "dmap_from dm k (e # es) \<longleftrightarrow>
     (if direct_mapped e then k \<le> unat (me_base e) \<and> 4096 dvd unat (me_base e) \<and>
        4096 dvd unat (me_length e) \<and> unat (take_bit 48 dm) + entry_end e \<le> 2 ^ 48 \<and>
        dmap_from dm (entry_end e) es
      else dmap_from dm k es)"

definition entry_pages :: "limine_memmap_entry \<Rightarrow> nat" where
  "entry_pages e = unat (me_length e) div 4096"

text \<open>The page of a physical page number in the direct map, and whether it is mapped.\<close>

definition in_dmap :: "limine_memmap_entry list \<Rightarrow> nat \<Rightarrow> bool" where
  "in_dmap es k \<longleftrightarrow> (\<exists>e\<in>set es. direct_mapped e \<and>
     unat (me_base e) div 4096 \<le> k \<and> k < unat (me_base e) div 4096 + entry_pages e)"

definition DMAP_FLAGS :: u64 where "DMAP_FLAGS = IA32_PG_RW OR IA32_PG_D OR IA32_PG_NX"

definition dmap_ptes :: "nat \<Rightarrow> limine_memmap_entry list \<Rightarrow> (nat \<Rightarrow> u64) \<Rightarrow> nat \<Rightarrow> u64" where
  "dmap_ptes d es f = (\<lambda>n. if d \<le> n \<and> in_dmap es (n - d)
     then leaf_entry (of_nat (n - d) * PAGE_SIZE) DMAP_FLAGS else f n)"

lemma dmap_from_low:
  assumes "dmap_from dm k es" "in_dmap es j"
  shows "k div 4096 \<le> j"
  using assms
proof (induction dm k es rule: dmap_from.induct)
  case (2 dm k e es)
  show ?case
  proof (cases "direct_mapped e")
    case True
    note m = 2(3) [simplified, unfolded if_P [OF True]]
    have "k div 4096 \<le> unat (me_base e) div 4096" using m by (simp add: div_le_mono)
    moreover have "k \<le> entry_end e" using m by (simp add: entry_end_def)
    then have "k div 4096 \<le> entry_end e div 4096" by (rule div_le_mono)
    moreover have "in_dmap es j \<Longrightarrow> entry_end e div 4096 \<le> j" using 2(1) [OF True] m by simp
    moreover have "in_dmap es j \<or> unat (me_base e) div 4096 \<le> j" using 2(4) by (auto simp: in_dmap_def)
    ultimately show ?thesis by linarith
  next
    case False
    then show ?thesis using 2 by (auto simp: in_dmap_def)
  qed
qed (simp add: in_dmap_def)

lemma page_no_dm:
  assumes "4096 dvd unat dm" "unat (take_bit 48 dm) + unat a < 2 ^ 48"
  shows "page_no (dm + a) = page_no dm + unat a div 4096"
proof -
  have p: "page_no w = unat w mod 2 ^ 48 div 4096" for w
    unfolding page_no_def unsigned_take_bit_eq unfolding take_bit_eq_mod ..
  have t: "unat (take_bit 48 dm) = unat dm mod 2 ^ 48" unfolding unsigned_take_bit_eq unfolding take_bit_eq_mod ..
  have "unat (dm + a) mod 2 ^ 48 = (unat dm + unat a) mod 2 ^ 48"
    by (simp add: unat_word_ariths mod_mod_cancel)
  also have "\<dots> = (unat dm mod 2 ^ 48 + unat a) mod 2 ^ 48" by (simp only: mod_add_left_eq)
  also have "\<dots> = unat dm mod 2 ^ 48 + unat a" using assms(2) t by simp
  finally have e: "unat (dm + a) mod 2 ^ 48 = unat dm mod 2 ^ 48 + unat a" .
  have "4096 dvd unat dm mod 2 ^ 48" using assms(1) by (simp add: dvd_mod_iff)
  then have "(unat dm mod 2 ^ 48 + unat a) div 4096 = unat dm mod 2 ^ 48 div 4096 + unat a div 4096"
    by (rule div_plus_div_distrib_dvd_left)
  then show ?thesis unfolding p e .
qed

lemma map_direct_loop_ok:
  assumes "boot_ok es0 b ps T" "dmap_from (bdm b) k es" "room S es0 ps T"
    and "4096 dvd unat (bdm b)"
    and "\<And>j. in_dmap es j \<Longrightarrow> ptes b T (page_no (bdm b) + j) = 0 \<and> page_no (bdm b) + j \<in> S"
  shows "\<exists>b' ps' T'. early_map_direct_loop es b = Some b' \<and> boot_ok es0 b' ps' T' \<and>
    ptes b' T' = dmap_ptes (page_no (bdm b)) es (ptes b T) \<and> early_frame b b' \<and> room S es0 ps' T'"
  using assms
proof (induction es arbitrary: k b ps T)
  case Nil
  then show ?case
    by (intro exI [of _ b] exI [of _ ps] exI [of _ T]) (simp add: dmap_ptes_def in_dmap_def)
next
  case (Cons e es)
  show ?case
  proof (cases "direct_mapped e")
    case False
    then have i: "in_dmap (e # es) = in_dmap es"
      by (auto simp: in_dmap_def)
    then show ?thesis
      using Cons.IH [OF Cons.prems(1) _ _ Cons.prems(4), of k] Cons.prems(2,3,5) False
      by (simp add: dmap_ptes_def)
  next
    case True
    note m = Cons.prems(2) [simplified, unfolded if_P [OF True]]
    let ?d = "page_no (bdm b)"
    let ?n = "entry_pages e"
    let ?v = "bdm b + me_base e"
    let ?x = "unat (me_base e) div 4096"
    have in': "in_dmap (e # es) j \<longleftrightarrow> ?x \<le> j \<and> j < ?x + ?n \<or> in_dmap es j" for j
      using True by (auto simp: in_dmap_def)
    have num: "unat (me_length e div PAGE_SIZE) = ?n"
      by (simp add: entry_pages_def unat_div PAGE_SIZE_eq)
    have base: "of_nat ?x * PAGE_SIZE = me_base e"
    proof -
      have "of_nat ?x * PAGE_SIZE = (of_nat (?x * 4096) :: u64)" by (simp add: PAGE_SIZE_eq)
      also have "?x * 4096 = unat (me_base e)" using m by simp
      finally show ?thesis by simp
    qed
    have end': "(?x + ?n) * 4096 = entry_end e"
      using m by (simp add: entry_pages_def entry_end_def add_mult_distrib)
    have v: "page_no ?v = ?d + ?x" if "?n \<noteq> 0"
    proof (rule page_no_dm [OF Cons.prems(4)])
      have "unat (me_length e) > 0" using that by (auto simp: entry_pages_def intro: gr0I)
      then show "unat (take_bit 48 (bdm b)) + unat (me_base e) < 2 ^ 48" using m by (simp add: entry_end_def)
    qed
    have bound: "?d + (?x + ?n) \<le> 2 ^ 36"
    proof -
      have "4096 * ?d \<le> unat (take_bit 48 (bdm b))" by (simp add: page_no_def)
      then have "4096 * (?d + (?x + ?n)) \<le> 2 ^ 48" using m end' by simp
      then show ?thesis by simp
    qed
    obtain b1 ps1 T1 where r: "early_virt_map ?v (me_base e) (me_length e div PAGE_SIZE) DMAP_FLAGS b = Some b1"
      "boot_ok es0 b1 ps1 T1" "ptes b1 T1 = range_ptes (?d + ?x) ?n (me_base e) DMAP_FLAGS (ptes b T)"
      "early_frame b b1" "room S es0 ps1 T1"
    proof (cases "?n = 0")
      case True
      then show ?thesis
        using Cons.prems(1,3) by (intro that [of b ps T]) (simp_all add: early_virt_map_def num range_ptes_0)
    next
      case False
      have "page_no ?v + ?n \<le> 2 ^ 36" using v [OF False] bound by simp
      moreover have p: "ptes b T i = 0 \<and> i \<in> S" if "page_no ?v \<le> i" "i < page_no ?v + ?n" for i
      proof -
        have "?x \<le> i - ?d \<and> i - ?d < ?x + ?n" and i: "?d + (i - ?d) = i"
          using that v [OF False] by linarith+
        then have "in_dmap (e # es) (i - ?d)" using in' by blast
        from Cons.prems(5) [OF this] show ?thesis unfolding i .
      qed
      moreover have "{page_no ?v..<page_no ?v + ?n} \<subseteq> S" using p by auto
      ultimately show ?thesis
        using map_loop_ok [OF Cons.prems(1,3), where num = ?n and v = ?v and phys = "me_base e" and flags = DMAP_FLAGS] v [OF False] that
        unfolding early_virt_map_def num by auto
    qed
    have dm: "bdm b1 = bdm b" by (rule early_frame_bdm [OF r(4)])
    have m1: "dmap_from (bdm b1) (entry_end e) es" using m dm by simp
    have low: "?x + ?n \<le> j" if "in_dmap es j" for j
    proof -
      have "entry_end e div 4096 = ?x + ?n" using end' by (metis div_mult_self_is_m zero_less_numeral)
      then show ?thesis using dmap_from_low [OF m1 that] by simp
    qed
    have z1: "ptes b1 T1 (page_no (bdm b1) + j) = 0 \<and> page_no (bdm b1) + j \<in> S" if "in_dmap es j" for j
      using Cons.prems(5) [of j] in' [of j] low [OF that] that by (simp add: r(3) dm range_ptes_def)
    obtain b' ps' T' where c: "early_map_direct_loop es b1 = Some b'" "boot_ok es0 b' ps' T'"
      "ptes b' T' = dmap_ptes ?d es (ptes b1 T1)" "early_frame b1 b'" "room S es0 ps' T'"
      using Cons.IH [OF r(2) m1 r(5) _ z1] Cons.prems(4) by (auto simp: dm)
    have "ptes b' T' = dmap_ptes ?d (e # es) (ptes b T)"
    proof
      fix i
      have off: "me_base e + of_nat (i - (?d + ?x)) * PAGE_SIZE = of_nat (i - ?d) * PAGE_SIZE" if "?d + ?x \<le> i"
      proof -
        have "i - ?d = ?x + (i - (?d + ?x))" using that by simp
        then have "of_nat (i - ?d) * PAGE_SIZE = of_nat ?x * PAGE_SIZE + of_nat (i - (?d + ?x)) * PAGE_SIZE"
          by (simp only: of_nat_add distrib_right)
        then show ?thesis by (simp only: base)
      qed
      consider "?d \<le> i \<and> in_dmap es (i - ?d)"
        | "\<not> (?d \<le> i \<and> in_dmap es (i - ?d))" "?d + ?x \<le> i \<and> i < ?d + ?x + ?n"
        | "\<not> (?d \<le> i \<and> in_dmap (e # es) (i - ?d))" "\<not> (?d + ?x \<le> i \<and> i < ?d + ?x + ?n)"
        using in' [of "i - ?d"] by fastforce
      then show "ptes b' T' i = dmap_ptes ?d (e # es) (ptes b T) i"
      proof cases
        case 1
        then show ?thesis using in' [of "i - ?d"] by (simp add: c(3) dmap_ptes_def)
      next
        case 2
        then have "?d \<le> i \<and> in_dmap (e # es) (i - ?d)" using in' [of "i - ?d"] by auto
        with 2 show ?thesis
          using off [OF conjunct1 [OF 2(2)]]
          by (simp add: c(3) r(3) dmap_ptes_def range_ptes_def del: of_nat_diff)
      next
        case 3
        then have n: "\<not> (?d \<le> i \<and> in_dmap es (i - ?d))" using in' [of "i - ?d"] by blast
        have "ptes b' T' i = ptes b1 T1 i" unfolding c(3) dmap_ptes_def using n by (rule if_not_P)
        also have "\<dots> = ptes b T i" unfolding r(3) range_ptes_def using 3(2) by (rule if_not_P)
        also have "\<dots> = dmap_ptes ?d (e # es) (ptes b T) i"
          unfolding dmap_ptes_def using 3(1) by (rule if_not_P [symmetric])
        finally show ?thesis .
      qed
    qed
    moreover have "early_map_direct_loop (e # es) b = Some b'"
      using True r(1) c(1) by (simp add: phys_to_direct_def DMAP_FLAGS_def)
    moreover have "early_frame b b'" by (rule early_frame_trans [OF r(4) c(4)])
    ultimately show ?thesis
      using c(2,5) by (intro exI [of _ b'] exI [of _ ps'] exI [of _ T']) simp
  qed
qed

end
