(* ===== verification/Slab_Create.thy ===== *)
theory Slab_Create
  imports Slab_Lists Boot_Tables
begin

text \<open>
  A new slab: what the page allocator leaves alone, the marking of the page as global in the page
  tables, and the loop that links the objects of a clean page.
\<close>

section \<open>The page allocator touches headers only\<close>

definition store_of where
  "store_of h = (l_next h, l_prev h, sl_alloc h, sl_in_use h, mem64 h, mem8 h, al_lock h, g_page_table h,
     g_page_table_levels h)"

lemma store_simps [simp]:
  "store_of (hlist_add l n h) = store_of h" "store_of (buddy_clear_header n h) = store_of h"
  "store_of (buddy_set_block_free dm p h) = store_of h" "store_of (buddy_set_block_allocated dm p h) = store_of h"
  "store_of (h\<lparr>bf_level := g\<rparr>) = store_of h" "store_of (h\<lparr>buddy_lock := k\<rparr>) = store_of h"
  "store_of (h\<lparr>m_reserved_pages := v\<rparr>) = store_of h" "store_of (h\<lparr>m_committed_pages := v\<rparr>) = store_of h"
  "store_of (h\<lparr>m_available_pages := v\<rparr>) = store_of h"
  by (simp_all add: store_of_def hlist_add_def buddy_clear_header_def buddy_set_block_free_def
      buddy_set_block_allocated_def Let_def)

lemma hlist_del_store: "hlist_del n h = Some h' \<Longrightarrow> store_of h' = store_of h"
proof -
  have "hslot_store s v h = Some h' \<Longrightarrow> store_of h' = store_of h" for s v h h'
    by (cases s) (auto simp: store_of_def)
  then show "hlist_del n h = Some h' \<Longrightarrow> store_of h' = store_of h"
    by (fastforce simp: hlist_del_def hlist_unlink_def Let_def bind_eq_Some_conv store_of_def split: if_splits)
qed

lemma buddy_lock_store:
  "buddy_mutex_lock h = Some h' \<Longrightarrow> store_of h' = store_of h"
  "buddy_mutex_unlock h = Some h' \<Longrightarrow> store_of h' = store_of h"
  by (auto simp: buddy_mutex_lock_def buddy_mutex_unlock_def bind_eq_Some_conv)

lemma buddy_split_store: "store_of (buddy_split dm l k p h) = store_of h"
  by (induction dm l k p h rule: buddy_split.induct) (simp_all add: Let_def)

lemma commit_store: "phys_alloc_commit l k r h = Some (ok, h') \<Longrightarrow> store_of h' = store_of h"
  by (auto simp: phys_alloc_commit_def Let_def bind_eq_Some_conv mem_acct_sub_eq mem_acct_commit_eq
      mem_acct_take_available_eq split: if_splits)

lemma phys_alloc_store:
  assumes "phys_alloc_internal dm l r h = Some (p, h')"
  shows "store_of h' = store_of h"
  using assms unfolding phys_alloc_internal_def Let_def
  by (auto simp: bind_eq_Some_conv buddy_split_store split: if_splits
      dest!: buddy_lock_store hlist_del_store commit_store)

section \<open>Marking a page as global\<close>

lemma slot_nonzero: "frame_ok dm f \<Longrightarrow> k < 512 \<Longrightarrow> dm \<noteq> 0 \<Longrightarrow> slot dm f k \<noteq> 0"
  using unat_slot [of dm f k] by (auto simp: unat_eq_0)

lemma frame_nonzero: "frame_ok dm f \<Longrightarrow> dm \<noteq> 0 \<Longrightarrow> dm + f \<noteq> 0"
  using slot_nonzero [of dm f 0] by (simp add: slot_def)

lemma virt_walk_tables:
  assumes t: "tables_ok h dm P T" "dm \<noteq> 0" and g: "T 0 (page_no v div 512) = Some g"
    and f: "T i (page_no v div 512 ^ Suc i) = Some f"
  shows "virt_walk dm False user v i (dm + f) h = Some (slot dm g (page_no v mod 512), h)"
  using f
proof (induction i arbitrary: f)
  case 0
  then show ?case using g by (simp add: slot_def index_eq)
next
  case (Suc i)
  let ?k = "page_no v div 512 ^ Suc i mod 512"
  have f: "frame_ok dm f" "i \<le> 2" using tables_frame [OF t(1) Suc.prems] by auto
  have "T (0 + i) (page_no v div 512 div 512 ^ i) \<noteq> None"
    by (rule tables_up_all [OF t(1)]) (use g f(2) in auto)
  then have "T i (page_no v div 512 ^ Suc i) \<noteq> None" by (simp add: div_mult2_eq [symmetric])
  then obtain f' where f': "T i (page_no v div 512 ^ Suc i) = Some f'" by blast
  have e: "entry_ok (Some f') (mem64 h (slot dm f ?k))"
    using tables_entry [OF t(1) Suc.prems, of ?k] prefix_split [of "page_no v" "Suc i"] f' by simp
  then have "mem64 h (slot dm f ?k) AND IA32_PG_P \<noteq> 0" "mem64 h (slot dm f ?k) AND PAGING_4K_ADDRESS_MASK = f'"
    by (auto simp: entry_ok_def split: if_splits)
  moreover have "dm + f + 8 * virt_index v (Suc i) = slot dm f ?k"
    using f(2) by (simp add: slot_def index_eq del: power_Suc)
  moreover have "slot dm f ?k \<noteq> 0" by (rule slot_nonzero [OF f(1) _ t(2)]) simp
  moreover have "dm + f' \<noteq> 0" by (rule frame_nonzero [OF _ t(2)]) (use tables_frame [OF t(1) f'] in simp)
  ultimately show ?case
    using Suc.IH [OF f'] by (simp add: virt_get_next_level_def phys_to_direct_def del: power_Suc)
qed

lemma virt_get_pte_tables:
  assumes t: "tables_ok h dm P T" "dm \<noteq> 0" and g: "T 0 (page_no v div 512) = Some g"
  shows "virt_get_pte dm uend v False h = Some (slot dm g (page_no v mod 512), h)"
proof -
  obtain r where r: "T 3 0 = Some r" "g_page_table h = dm + r" using tables_root [OF t(1)] by auto
  have "page_no v div 512 ^ Suc 3 = 0" using page_no_bound [of v] by simp
  with r(1) have "T 3 (page_no v div 512 ^ Suc 3) = Some r" by simp
  from virt_walk_tables [OF t g this] have "\<And>user. virt_walk dm False user v 3 (dm + r) h =
    Some (slot dm g (page_no v mod 512), h)" .
  moreover have "g_page_table_levels h = Suc 3" using tables_levels [OF t(1)] by simp
  ultimately show ?thesis by (simp only: virt_get_pte_def r(2) nat.case Let_def)
qed

lemma slot_in_cov:
  assumes "frame_ok dm f" "k < 512" "algn 12 (dm + f)"
  shows "slot dm f k \<in> cov 12 (dm + f)"
  using slot_in_page [OF assms(1,1,2)] range_cov [OF _ assms(3), of "slot dm f k"] by (simp add: PAGE_SIZE_eq)

lemma make_global_ok:
  assumes t: "tables_ok h dm P T" "dm \<noteq> 0" "\<And>f. f \<in> P \<Longrightarrow> algn 12 (dm + f)"
    and g: "T 0 (page_no p div 512) \<noteq> None"
  shows "\<exists>h' f. virt_make_global dm uend p 1 h = Some h' \<and> tables_ok h' dm P T \<and> f \<in> P \<and>
    data_frame (cov 12 (dm + f)) h h' \<and> al_lock h' = al_lock h"
proof -
  obtain f where f: "T 0 (page_no p div 512) = Some f" using g by blast
  let ?s = "slot dm f (page_no p mod 512)"
  have fo: "frame_ok dm f" "f \<in> P" using tables_frame [OF t(1) f] by auto
  have s: "?s \<noteq> 0" by (rule slot_nonzero [OF fo(1) _ t(2)]) simp
  have c: "?s \<in> cov 12 (dm + f)" by (rule slot_in_cov [OF fo(1) _ t(3) [OF fo(2)]]) simp
  have run: "virt_make_global dm uend p 1 h = Some (if mem64 h ?s AND IA32_PG_P \<noteq> 0
      then store64 ?s (mem64 h ?s OR IA32_PG_G) h else h)"
    using virt_get_pte_tables [OF t(1,2) f] s
    by (simp add: virt_make_global_def virt_page_def virt_make_global_page_def Let_def)
  have st: "tables_ok (store64 ?s v h) dm P T" for v by (rule store_leaf(1) [OF t(1) f]) simp
  have fr: "data_frame (cov 12 (dm + f)) h (store64 ?s v h)" for v
    using c by (auto simp: data_frame_def same_at_def same_header_def store64_def)
  have lk: "al_lock (store64 ?s v h) = al_lock h" for v by (simp add: store64_def)
  show ?thesis unfolding run using st fr lk t(1) fo(2)
    by (cases "mem64 h ?s AND IA32_PG_P \<noteq> 0") (auto intro!: exI [of _ f])
qed

section \<open>Linking the objects\<close>

lemma rest_in_page:
  assumes m: "meta_ok meta" and s: "algn 12 s" and i: "i < unat (objects_per_slab meta)"
  defines "p \<equiv> slab_object meta s i"
    and "pad \<equiv> {w. w - (slab_object meta s i + ucast (object_size meta)) <
      ucast (object_stride meta) - ucast (object_size meta)}"
  shows "w \<in> pad \<Longrightarrow> unat p + unat (object_size meta) \<le> unat w \<and> unat w < unat p + unat (object_stride meta)"
proof -
  assume w: "w \<in> pad"
  note pl = object_place [OF m s i, folded p_def]
  have sz: "unat (object_size meta) \<le> unat (object_stride meta)" using m by (simp add: meta_ok_def)
  then have le: "(ucast (object_size meta) :: u64) \<le> ucast (object_stride meta)"
    by (simp add: word_le_nat_alt unat_ucast16)
  have d: "unat (ucast (object_stride meta) - ucast (object_size meta) :: u64) =
      unat (object_stride meta) - unat (object_size meta)"
    using unat_sub [OF le] by (simp add: unat_ucast16)
  have ne: "unat (object_size meta) < unat (object_stride meta)"
  proof (rule ccontr)
    assume "\<not> ?thesis"
    then have "unat (ucast (object_stride meta) - ucast (object_size meta) :: u64) = 0" using d by simp
    then have "ucast (object_stride meta) - ucast (object_size meta) = (0 :: u64)" by (simp only: unat_eq_0)
    with w show False unfolding pad_def by simp
  qed
  have a: "unat (p + ucast (object_size meta)) = unat p + unat (object_size meta)"
  proof -
    have "unat p + unat (ucast (object_size meta) :: u64) < 2 ^ LENGTH(64)"
      using pl(2) ne page_top [OF s] by (simp add: unat_ucast16)
    then show ?thesis by (simp add: unat_add_lem [THEN iffD1] unat_ucast16)
  qed
  have "unat (p + ucast (object_size meta)) + unat (ucast (object_stride meta) - ucast (object_size meta) :: u64)
      \<le> 2 ^ 64"
    using a d pl(2) page_top [OF s] sz by simp
  from in_range [OF this] w a d sz show ?thesis unfolding pad_def p_def by auto
qed

lemma link_objects_ok:
  assumes m: "meta_ok meta" and s: "algn 12 s" "s \<noteq> 0" and n: "i + k = unat (objects_per_slab meta)"
    and d: "dlist h (slab_free s) (rev (map (slab_object meta s) [0..<i]))"
    and c: "\<And>j. j < i \<Longrightarrow> clean_object meta (unlinked (slab_object meta s j) h) (slab_object meta s j)"
    and rest: "\<And>w. w \<in> cov 12 s \<Longrightarrow>
      unat s + object_offset meta + unat (object_stride meta) * i \<le> unat w \<Longrightarrow> no_data h w"
  shows "\<exists>h'. slab_link_objects meta s (s + ALIGN_UP sizeof_slab (ucast (object_align meta))) i k h = Some h' \<and>
    dlist h' (slab_free s) (rev (slab_objects meta s)) \<and>
    (\<forall>p\<in>set (slab_objects meta s). clean_object meta (unlinked p h') p) \<and>
    data_frame (cov 12 s - {s}) h h' \<and> al_lock h' = al_lock h"
  using n d c rest
proof (induction k arbitrary: i h)
  case 0
  then have i: "i = unat (objects_per_slab meta)" by simp
  show ?case using 0(2,3) unfolding i by (auto simp: slab_objects_def)
next
  case (Suc k)
  let ?o = "slab_object meta s" and ?st = "unat (object_stride meta)" and ?off = "object_offset meta"
  let ?p = "?o i"
  have i: "i < unat (objects_per_slab meta)" using Suc.prems(1) by simp
  note pl = object_place [OF m s(1)]
  have po: "?o j \<in> set (slab_objects meta s)" if "j \<le> i" for j
    unfolding in_objects by (rule exI [of _ j]) (use that i in simp)
  have sz: "unat (object_size meta) \<le> ?st" "0 < unat (object_size meta)" using m by (auto simp: meta_ok_def)
  have before: "unat (?o j) + ?st \<le> unat ?p" if "j < i" for j
  proof -
    have "?st * Suc j \<le> ?st * i" by (rule mult_Suc_le [OF that])
    then show ?thesis using pl(1) [of j] pl(1) [of i] i that by simp
  qed
  have new: "?p \<notin> set (slab_free s # rev (map ?o [0..<i]))" "?p \<noteq> 0"
  proof -
    have "?p \<noteq> ?o j" if "j < i" for j
    proof
      assume "?p = ?o j"
      then have "unat ?p = unat (?o j)" by (rule arg_cong)
      with before [OF that] sz show False by linarith
    qed
    then have "?p \<notin> ?o ` {0..<i}" by (metis imageE atLeastLessThan_iff)
    moreover have "?p \<noteq> slab_free s"
      using place_apart(2) [OF m s(1) po [OF order_refl] object_in_page(2) [OF m s(1) po [OF order_refl]]] .
    ultimately show "?p \<notin> set (slab_free s # rev (map ?o [0..<i]))"
      by (simp only: list.set set_rev set_map set_upt insert_iff simp_thms)
    show "?p \<noteq> 0" using object_slab(2) [OF m s(1) po [OF order_refl]] .
  qed
  obtain h1 where h1: "list_add (slab_free s) ?p h = Some h1" "dlist h1 (slab_free s) (?p # rev (map ?o [0..<i]))"
    "l_frame (insert ?p (set (slab_free s # rev (map ?o [0..<i])))) h h1"
    using list_add_ok [OF Suc.prems(2) new] by blast
  let ?a = "?p + ucast (object_size meta)" and ?n = "ucast (object_stride meta) - ucast (object_size meta) :: u64"
  let ?pad = "{w. w - ?a < ?n}"
  define h2 where "h2 = memset ?a 0xBB ?n h1"
  have fr2: "data_frame ?pad h1 h2" unfolding h2_def by (rule memset_frame)
  note pad = rest_in_page [OF m s(1) i]
  have keep: "same_at h1 h2 w" if "unat w < unat ?p + unat (object_size meta) \<or> unat ?p + ?st \<le> unat w" for w
    by (rule data_frameD [OF fr2]) (use pad [of w] that in auto)
  have nodes: "insert ?p (set (slab_free s # rev (map ?o [0..<i]))) \<subseteq> insert (slab_free s) (set (slab_objects meta s))"
    using po by auto
  have l1: "l_frame (insert (slab_free s) (set (slab_objects meta s))) h h1" by (rule l_frame_mono [OF h1(3) nodes])
  have up: "rev (map ?o [0..<Suc i]) = ?p # rev (map ?o [0..<i])" by simp
  have low: "unat w < unat ?p + unat (object_size meta)" if w: "w \<in> set (slab_free s # rev (map ?o [0..<Suc i]))" for w
  proof -
    have "w = slab_free s \<or> w \<in> ?o ` {0..<Suc i}"
      using w by (simp only: list.set set_rev set_map set_upt insert_iff)
    then consider "w = slab_free s" | j where "j \<le> i" "w = ?o j"
      by (metis imageE atLeastLessThan_iff less_Suc_eq_le)
    then show ?thesis
    proof cases
      case 1
      then show ?thesis
        using slab_free_place(3) [OF s(1)] object_in_page(4) [OF m s(1) po [OF order_refl] object_in_page(2) [OF m s(1) po [OF order_refl]]]
        by simp
    next
      case 2
      then show ?thesis using before [of j] sz by (cases "j = i") auto
    qed
  qed
  have d2: "dlist h2 (slab_free s) (rev (map ?o [0..<Suc i]))"
  proof -
    have "dlist h2 (slab_free s) (rev (map ?o [0..<Suc i])) = dlist h1 (slab_free s) (rev (map ?o [0..<Suc i]))"
      by (rule dlist_cong) (use keep low in \<open>auto simp: same_at_def\<close>)
    with h1(2) up show ?thesis by simp
  qed
  have c2: "clean_object meta (unlinked (?o j) h2) (?o j)" if j: "j < Suc i" for j
  proof -
    have "clean_object meta (unlinked (?o j) h) (?o j)"
    proof (cases "j = i")
      case True
      have "no_data h w" if w: "w \<in> object_range meta ?p" for w
      proof (rule Suc.prems(4))
        show "w \<in> cov 12 s" using object_in_page(1) [OF m s(1) po [OF order_refl]] w by blast
        show "unat s + ?off + ?st * i \<le> unat w" using in_object [OF m s(1) i, of w] w pl(1) [OF i] by simp
      qed
      then show ?thesis
        using True by (auto simp: clean_object_def no_data_def unlinked_def set_l_next_def set_l_prev_def)
    qed (use Suc.prems(3) [of j] j in simp)
    then have c1: "clean_object meta (unlinked (?o j) h1) (?o j)"
      using clean_links [OF m s(1) po l1, of j] j by simp
    have "no_data (unlinked (?o j) h2) w = no_data (unlinked (?o j) h1) w" if w: "w \<in> object_range meta (?o j)" for w
    proof (intro no_data_cong unlinked_same keep disjI1)
      have "unat w < unat (?o j) + unat (object_size meta)"
        using in_object [OF m s(1), of j w] w i j by simp
      then show "unat w < unat ?p + unat (object_size meta)"
        using before [of j] j sz by (cases "j = i") auto
    qed
    with c1 show ?thesis by (simp add: clean_object_def)
  qed
  have rest2: "no_data h2 w" if w: "w \<in> cov 12 s" "unat s + ?off + ?st * Suc i \<le> unat w" for w
  proof -
    have ge: "unat ?p + ?st \<le> unat w" using w(2) pl(1) [OF i] by simp
    have "same_at h h1 w"
      by (rule data_frameD [OF l_frame_data [OF h1(3)]]) (use low [of w] ge sz up in auto)
    then have "same_at h h2 w" using keep [of w] ge same_at_trans by blast
    then show ?thesis using Suc.prems(4) [OF w(1)] w(2) no_data_cong by simp
  qed
  have fr: "data_frame (cov 12 s - {s}) h h2"
  proof (rule data_frame_trans [OF data_frame_mono [OF l_frame_data [OF l1]] data_frame_mono [OF fr2]])
    show "insert (slab_free s) (set (slab_objects meta s)) \<subseteq> cov 12 s - {s}"
      using slab_free_place(1,2) [OF s(1)] object_in_page(3) [OF m s(1)]
        place_apart(1) [OF m s(1) _ object_in_page(2) [OF m s(1)]] by auto
    show "?pad \<subseteq> cov 12 s - {s}"
    proof
      fix w assume "w \<in> ?pad"
      from pad [OF this] show "w \<in> cov 12 s - {s}"
        using pl [OF i] sz in_page [OF s(1), of w] by auto
    qed
  qed
  have lk: "al_lock h2 = al_lock h" using h1(3) by (auto simp: h2_def memset_def l_frame_def)
  have node: "s + ALIGN_UP sizeof_slab (ucast (object_align meta)) + ucast (object_stride meta) * of_nat i = ?p"
    by (simp add: slab_object_def)
  have run: "slab_link_objects meta s (s + ALIGN_UP sizeof_slab (ucast (object_align meta))) i (Suc k) h =
      slab_link_objects meta s (s + ALIGN_UP sizeof_slab (ucast (object_align meta))) (Suc i) k h2"
    by (simp add: node h1(1) Let_def h2_def)
  have "Suc i + k = unat (objects_per_slab meta)" using Suc.prems(1) by simp
  from Suc.IH [OF this d2 c2 rest2] show ?case
    unfolding run using data_frame_trans [OF fr] lk by auto
qed

end
