(* ===== verification/Slab_Layout.thy ===== *)
theory Slab_Layout
  imports Slab_Inv
begin

text \<open>
  The layout of a slab that \<open>DEFINE_ALLOC\<close> (\<open>src/mem/alloc.h\<close>) computes at compile time: rounding up to a
  power of two as numbers, what the static assertions give, and that the objects fit.
\<close>

section \<open>The layout that \<open>DEFINE_ALLOC\<close> computes\<close>

lemma align_up:
  assumes k: "k < 64" and x: "unat x + 2 ^ k \<le> 2 ^ 64"
  shows "unat x \<le> unat (ALIGN_UP x (2 ^ k))" "unat (ALIGN_UP x (2 ^ k)) < unat x + 2 ^ k"
    "2 ^ k dvd unat (ALIGN_UP x (2 ^ k))"
proof -
  have p: "unat (2 ^ k :: u64) = 2 ^ k" by (rule unat_pow2 [OF k])
  have "(2 ^ k :: u64) \<noteq> 0" using k by simp
  then have p1: "unat (2 ^ k - 1 :: u64) = 2 ^ k - 1" by (simp add: unat_minus_one p)
  have a: "unat (x + (2 ^ k - 1)) = unat x + (2 ^ k - 1)"
    unfolding p1 [symmetric] by (rule unat_add_lem [THEN iffD1]) (use x in \<open>simp add: p1\<close>)
  have "ALIGN_UP x (2 ^ k) = push_bit k (drop_bit k (x + (2 ^ k - 1)))"
    unfolding ALIGN_UP_def
    by (rule bit_word_eqI) (auto simp: bit_simps simp flip: mask_eq_exp_minus_1)
  then have e: "ALIGN_UP x (2 ^ k) = (x + (2 ^ k - 1)) - take_bit k (x + (2 ^ k - 1))"
    using bits_ident [of k "x + (2 ^ k - 1)"] by (simp add: algebra_simps)
  define n where "n = unat x + (2 ^ k - 1)"
  have t: "unat (take_bit k (x + (2 ^ k - 1))) = n mod 2 ^ k"
    unfolding unsigned_take_bit_eq a n_def by (rule take_bit_eq_mod)
  then have le: "take_bit k (x + (2 ^ k - 1)) \<le> x + (2 ^ k - 1)" using a by (simp add: word_le_nat_alt n_def)
  have u: "unat (ALIGN_UP x (2 ^ k)) = n - n mod 2 ^ k"
    unfolding e unat_sub [OF le] t unfolding a n_def by (rule refl)
  have m: "n mod 2 ^ k < 2 ^ k" "n mod 2 ^ k \<le> n" by simp_all
  have n1: "n + 1 = unat x + 2 ^ k" by (simp add: n_def)
  show "unat x \<le> unat (ALIGN_UP x (2 ^ k))" "unat (ALIGN_UP x (2 ^ k)) < unat x + 2 ^ k"
    unfolding u using m n1 by linarith+
  show "2 ^ k dvd unat (ALIGN_UP x (2 ^ k))" unfolding u by (rule dvd_minus_mod)
qed

lemma unat_down16: "unat x \<le> 0xFFFF \<Longrightarrow> unat (ucast (x :: u64) :: u16) = unat x"
proof -
  assume "unat x \<le> 0xFFFF"
  then have "unat x < 2 ^ LENGTH(16)" by simp
  then show ?thesis by (simp add: unsigned_ucast_eq take_bit_nat_eq_self_iff)
qed

lemma alloc_meta_facts:
  assumes meta: "alloc_meta sz (2 ^ k) = Some meta" and k: "k < 16"
  shows "meta_ok meta" "unat (object_size meta) = unat sz" "2 ^ k dvd object_offset meta"
    "2 ^ k dvd unat (object_stride meta)"
    "4096 < object_offset meta + unat (object_stride meta) * Suc (unat (objects_per_slab meta))" "k < 12"
proof -
  define st where "st = ALIGN_UP sz (2 ^ k)"
  define off where "off = ALIGN_UP sizeof_slab (2 ^ k)"
  have k64: "k < 64" using k by simp
  have pk: "unat (2 ^ k :: u64) = 2 ^ k" by (rule unat_pow2 [OF k64])
  have k2: "(2 :: nat) ^ k \<le> 2 ^ 15" using k by (intro power_increasing) simp_all
  obtain sz1: "16 \<le> sz" and sz2: "sz \<le> 0xFFFF" and st1: "st \<le> 0xFFFF" "sz \<le> st"
    and ob: "1 \<le> (PAGE_SIZE - off) div st" "(PAGE_SIZE - off) div st \<le> 0xFFFF"
    and me: "meta = \<lparr>objects_per_slab = ucast ((PAGE_SIZE - off) div st), object_stride = ucast st,
      object_size = ucast sz, object_align = ucast (2 ^ k :: u64)\<rparr>"
  proof -
    have "(8 :: u64) \<le> sz" if "16 \<le> sz" using that by (simp add: word_le_nat_alt)
    then have "16 \<le> sz \<Longrightarrow> (if 8 > sz then 8 else sz) = sz" by auto
    then show thesis
      using meta that unfolding alloc_meta_def Let_def st_def off_def by (auto simp: bind_eq_Some_conv)
  qed
  have u: "16 \<le> unat sz" "unat sz \<le> 0xFFFF" "unat st \<le> 0xFFFF" "unat sz \<le> unat st"
    "1 \<le> unat ((PAGE_SIZE - off) div st)" "unat ((PAGE_SIZE - off) div st) \<le> 0xFFFF"
    using sz1 sz2 st1 ob by (simp_all add: word_le_nat_alt)
  have "unat (sizeof_slab) + 2 ^ k \<le> 2 ^ 64" using k2 by (simp add: sizeof_slab_def)
  note ou = align_up [OF k64 this, folded off_def]
  have "unat sz + 2 ^ k \<le> 2 ^ 64" using k2 u(2) by simp
  note su = align_up [OF k64 this, folded st_def]
  have o48: "48 \<le> unat off" using ou(1) by (simp add: sizeof_slab_def)
  have low: "unat off \<le> 4096"
  proof (rule ccontr)
    assume "\<not> ?thesis"
    then have h: "4096 < unat off" by simp
    have "unat off < 2 ^ 16" using ou(2) k2 by (simp add: sizeof_slab_def)
    then have "unat (PAGE_SIZE - off) = 2 ^ 64 + 4096 - unat off"
      using unat_sub_if' [of PAGE_SIZE off] h by (simp add: PAGE_SIZE_eq)
    then have "2 ^ 63 \<le> unat (PAGE_SIZE - off)" using \<open>unat off < 2 ^ 16\<close> by simp
    then have "2 ^ 63 div 2 ^ 16 \<le> unat (PAGE_SIZE - off) div 2 ^ 16" by (rule div_le_mono)
    also have "\<dots> \<le> unat (PAGE_SIZE - off) div unat st" by (rule div_le_mono2) (use u in simp_all)
    finally have "2 ^ 63 div 2 ^ 16 \<le> unat (PAGE_SIZE - off) div unat st" .
    then show False using u(6) by (simp add: unat_div)
  qed
  then have d: "unat (PAGE_SIZE - off) = 4096 - unat off"
    using unat_sub [of off PAGE_SIZE] by (simp add: PAGE_SIZE_eq word_le_nat_alt)
  define n where "n = (4096 - unat off) div unat st"
  have n: "unat ((PAGE_SIZE - off) div st) = n" by (simp add: unat_div d n_def)
  have al: "ucast (ucast (2 ^ k :: u64) :: u16) = (2 ^ k :: u64)"
  proof -
    have "unat (ucast (ucast (2 ^ k :: u64) :: u16) :: u64) = unat (2 ^ k :: u64)"
      using k2 pk by (simp add: unat_ucast16 unat_down16)
    then show ?thesis by (simp only: word_unat_eq_iff)
  qed
  have f: "object_offset meta = unat off" "unat (object_stride meta) = unat st" "unat (object_size meta) = unat sz"
    "unat (objects_per_slab meta) = n"
    using u n by (simp_all add: me object_offset_def al off_def unat_down16)
  have st0: "0 < unat st" using u by simp
  have nst: "unat st * n \<le> 4096 - unat off" "4096 - unat off < unat st * Suc n"
    unfolding n_def using st0 by (simp_all add: times_div_less_eq_dividend dividend_less_times_div mult.commute)
  show "meta_ok meta" unfolding meta_ok_def f using o48 u n nst(1) low by simp
  show "unat (object_size meta) = unat sz" by (rule f(3))
  show "2 ^ k dvd object_offset meta" "2 ^ k dvd unat (object_stride meta)" unfolding f by (rule ou(3) su(3))+
  show "4096 < object_offset meta + unat (object_stride meta) * Suc (unat (objects_per_slab meta))"
    unfolding f using nst(2) by linarith
  have "unat off < 4096" using u(5) low n st0 by (cases "unat off = 4096") (simp_all add: n_def)
  moreover have "2 ^ k \<le> unat off" using ou(3) o48 by (intro dvd_imp_le) simp_all
  ultimately have "(2 :: nat) ^ k < 2 ^ 12" by simp
  then show "k < 12" by (rule power_less_imp_less_exp [rotated]) simp
qed

text \<open>C25: For a type of size \<open>sz\<close> and alignment \<open>2 ^ k\<close>, the layout \<open>DEFINE_ALLOC\<close> computes, when its static
  assertions hold, puts the objects of a slab inside the page, behind the header, at multiples of the
  alignment, each with all its \<open>sz\<close> bytes and no two sharing one; and there is no room for one more.
\<close>

theorem slab_layout_correct:
  assumes "alloc_meta sz (2 ^ k) = Some meta" "k < 16" "algn 12 s"
  shows "distinct (slab_objects meta s) \<and> length (slab_objects meta s) = unat (objects_per_slab meta) \<and>
    slab_objects meta s \<noteq> [] \<and>
    (\<forall>p\<in>set (slab_objects meta s). 2 ^ k dvd unat p \<and> object_to_slab p = s \<and>
       (\<forall>w. w \<in> object_range meta p \<longleftrightarrow> unat p \<le> unat w \<and> unat w < unat p + unat sz) \<and>
       unat s + unat sizeof_slab \<le> unat p \<and> unat p + unat sz \<le> unat s + 4096) \<and>
    (\<forall>p\<in>set (slab_objects meta s). \<forall>q\<in>set (slab_objects meta s). p \<noteq> q \<longrightarrow>
       object_range meta p \<inter> object_range meta q = {}) \<and>
    4096 < object_offset meta + unat (object_stride meta) * Suc (length (slab_objects meta s))"
proof (intro conjI ballI allI impI)
  note f = alloc_meta_facts [OF assms(1,2)]
  have n: "length (slab_objects meta s) = unat (objects_per_slab meta)" by (simp add: slab_objects_def)
  show "distinct (slab_objects meta s)" by (rule distinct_objects [OF f(1) assms(3)])
  show "length (slab_objects meta s) = unat (objects_per_slab meta)" by (rule n)
  show "slab_objects meta s \<noteq> []" using f(1) n by (auto simp: meta_ok_def)
  show "4096 < object_offset meta + unat (object_stride meta) * Suc (length (slab_objects meta s))"
    unfolding n by (rule f(5))
  fix p assume p: "p \<in> set (slab_objects meta s)"
  then obtain i where i: "i < unat (objects_per_slab meta)" "p = slab_object meta s i" by (auto simp: in_objects)
  note pl = object_place [OF f(1) assms(3) i(1), folded i(2)]
  have sz: "unat sz \<le> unat (object_stride meta)" using f(1,2) by (simp add: meta_ok_def)
  have "(2 :: nat) ^ k dvd 2 ^ 12" using f(6) by (intro le_imp_power_dvd) simp
  then have "2 ^ k dvd unat s" using assms(3) by (simp add: algn_page dvd_trans)
  then show "2 ^ k dvd unat p" unfolding pl(1) using f(3,4) by (intro dvd_add dvd_mult2)
  show "object_to_slab p = s" by (rule object_slab(1) [OF f(1) assms(3) p])
  show "unat p + unat sz \<le> unat s + 4096" using pl(2) sz by linarith
  show "unat s + unat sizeof_slab \<le> unat p" using f(1) by (simp add: pl(1) meta_ok_def sizeof_slab_def)
  show "w \<in> object_range meta p \<longleftrightarrow> unat p \<le> unat w \<and> unat w < unat p + unat sz" for w
    using in_object [OF f(1) assms(3) i(1), folded i(2)] f(2) by simp
  fix q assume q: "q \<in> set (slab_objects meta s)" "p \<noteq> q"
  then show "object_range meta p \<inter> object_range meta q = {}" using objects_apart [OF f(1) assms(3) p q(1)] by blast
qed

lemma slab_layout_correct_witness:
  "distinct (slab_objects \<lparr>objects_per_slab = 4, object_stride = 1000, object_size = 1000, object_align = 8\<rparr> 0x200000) \<and>
   slab_objects \<lparr>objects_per_slab = 4, object_stride = 1000, object_size = 1000, object_align = 8\<rparr> 0x200000 =
     [0x200030, 0x200418, 0x200800, 0x200BE8]"
proof
  have "alloc_meta 1000 (2 ^ 3) =
      Some \<lparr>objects_per_slab = 4, object_stride = 1000, object_size = 1000, object_align = 8\<rparr>"
    by (simp add: alloc_meta_def ALIGN_UP_def PAGE_SIZE_eq sizeof_slab_def)
  from slab_layout_correct [OF this, of "0x200000"]
  show "distinct (slab_objects \<lparr>objects_per_slab = 4, object_stride = 1000, object_size = 1000, object_align = 8\<rparr> 0x200000)"
    by (simp add: algn_def)
qed (simp add: slab_objects_def slab_object_def ALIGN_UP_def sizeof_slab_def upt_rec)

end
