(* ===== verification/Slab_Props.thy ===== *)
theory Slab_Props
  imports Slab_Create Slab_Layout
begin

text \<open>The properties of the slab allocators, on top of the page allocator and the page tables.\<close>

section \<open>The memory below\<close>

text \<open>
  The page allocator with the blocks \<open>A\<close> handed out, the page tables \<open>T\<close> in frames of \<open>P\<close>: the tables and
  the slabs are pages that were handed out, different ones, and every page that is still free is mapped.
\<close>

definition slab_mem :: "u64 \<Rightarrow> ptr \<Rightarrow> mm \<Rightarrow> (nat \<Rightarrow> ptr list) \<Rightarrow> block set \<Rightarrow> u64 set \<Rightarrow> tables \<Rightarrow> ptr set \<Rightarrow> bool" where
  "slab_mem dm alloc h F A P T S \<longleftrightarrow> buddy_inv dm h F A \<and> tables_ok h dm P T \<and> dm \<noteq> 0 \<and> alloc \<noteq> 0 \<and>
     (\<forall>f\<in>P. (dm + f, 6) \<in> A) \<and> (\<forall>s\<in>S. (s, 6) \<in> A \<and> s \<notin> (\<lambda>f. dm + f) ` P) \<and>
     (\<forall>w\<in>cover F. T 0 (page_no w div 512) \<noteq> None) \<and>
     heads alloc \<inter> (cover F \<union> (\<Union>b\<in>A. blk b)) = {}"

definition slab_heap :: "u64 \<Rightarrow> ptr \<Rightarrow> mem_alloc_meta \<Rightarrow> mm \<Rightarrow> (nat \<Rightarrow> ptr list) \<Rightarrow> block set \<Rightarrow> u64 set \<Rightarrow> tables \<Rightarrow>
    (slab_list \<Rightarrow> ptr list) \<Rightarrow> (ptr \<Rightarrow> ptr list) \<Rightarrow> (ptr \<Rightarrow> ptr set) \<Rightarrow> bool" where
  "slab_heap dm alloc meta h F A P T L FR U \<longleftrightarrow> slab_mem dm alloc h F A P T (slabs L) \<and>
     slab_lists alloc meta h L FR U \<and> slab_status L FR U \<and> al_lock h alloc = 0"

lemma buddy_inv_frame:
  assumes inv: "buddy_inv dm h F A" and fr: "data_frame S h h'" "S \<inter> cover F = {}"
  shows "buddy_inv dm h' F A"
proof -
  have same: "same_at h h' w \<and> same_header h h' w" if "w \<in> cover F" for w
    using fr that by (auto simp: data_frame_def)
  have bm: "bitmap h' = bitmap h" using fr(1) by (simp add: data_frame_def)
  have "hseg h' (H_First l) (F l) = hseg h (H_First l) (F l)" if "l < 16" for l
  proof (rule hseg_cong)
    show "hslot_load h' (H_First l) = hslot_load h (H_First l)" using fr(1) by (simp add: data_frame_def)
    fix x assume "x \<in> set (F l)"
    then have "x \<in> cover F" using that fset_cover [of x l F] by (simp add: fset_def)
    from same [OF this] show "hn_next h' x = hn_next h x" "hn_pprev h' x = hn_pprev h x"
      by (simp_all add: same_header_def)
  qed
  moreover have "bf_level h' a = bf_level h a" if "(a, l) \<in> fset F" for a l
    using same [OF fset_cover [OF that]] by (simp add: same_header_def)
  moreover note free = is_free_cong [OF bm, of dm]
  ultimately have "buddy_core dm h' F A"
    using inv unfolding buddy_inv_def buddy_core_def by fastforce
  moreover have "no_data h' w = no_data h w" "no_header h' w = no_header h w" if "w \<in> cover F" for w
    using same [OF that] by (simp_all add: no_data_cong no_header_def same_header_def)
  then have "buddy_zero h' F = buddy_zero h F"
    unfolding buddy_zero_def cover_def by (intro ball_cong refl) (auto simp: cover_def)
  moreover have "acct_ok h' = acct_ok h" "free_pages h' = free_pages h" "buddy_lock h' = buddy_lock h"
    "m_committed_pages h' = m_committed_pages h"
    using fr(1) by (simp_all add: data_frame_def acct_ok_def free_pages_def)
  ultimately show ?thesis using inv free unfolding buddy_inv_def by simp
qed

lemma tables_ok_frame:
  assumes t: "tables_ok h dm P T" and r: "g_page_table h' = g_page_table h" "g_page_table_levels h' = g_page_table_levels h"
    and al: "\<And>f. f \<in> P \<Longrightarrow> algn 12 (dm + f)"
    and w: "\<And>w f. f \<in> P \<Longrightarrow> w \<in> cov 12 (dm + f) \<Longrightarrow> mem64 h' w = mem64 h w"
  shows "tables_ok h' dm P T"
proof -
  have "mem64 h' (slot dm f k) = mem64 h (slot dm f k)" if "T i q = Some f" "k < 512" for i q f k
  proof -
    have f: "f \<in> P" "frame_ok dm f" using tables_frame [OF t that(1)] by auto
    show ?thesis by (rule w [OF f(1) slot_in_cov [OF f(2) that(2) al [OF f(1)]]])
  qed
  then have e: "entry_ok (T i (512 * q + k)) (mem64 h' (slot dm f k))" if "T (Suc i) q = Some f" "k < 512" for i q f k
    using tables_entry [OF t that] that by simp
  show ?thesis
    unfolding tables_ok_def
  proof (intro conjI allI impI)
    show "\<exists>r. T 3 0 = Some r \<and> g_page_table h' = dm + r" using tables_root [OF t] r(1) by simp
    show "entry_ok (T i (512 * q + k)) (mem64 h' (slot dm f k))" if "T (Suc i) q = Some f \<and> k < 512" for i q f k
      using e that by blast
    show "i = j" "q = p" if "T i q = Some f \<and> T j p = Some f" for i q f j p
      using tables_inj [OF t] that by blast+
  qed (use tables_levels [OF t] r(2) tables_frame [OF t] tables_up [OF t] in simp_all)
qed

lemma slab_memD:
  assumes "slab_mem dm alloc h F A P T S"
  shows "wf_blocks (fset F \<union> A)" "fset F \<inter> A = {}" "b \<in> A \<Longrightarrow> blk b \<inter> cover F = {}"
    "(s, 6) \<in> A \<Longrightarrow> algn 12 s \<and> s \<noteq> 0 \<and> blk (s, 6) = cov 12 s"
    "f \<in> P \<Longrightarrow> algn 12 (dm + f)" "f \<in> P \<Longrightarrow> cov 12 (dm + f) \<inter> cover F = {}"
    "f \<in> P \<Longrightarrow> s \<in> S \<Longrightarrow> cov 12 (dm + f) \<inter> cov 12 s = {}"
    "f \<in> P \<Longrightarrow> heads alloc \<inter> cov 12 (dm + f) = {}" "heads alloc \<inter> cover F = {}"
proof -
  have core: "buddy_core dm h F A" using assms by (simp add: slab_mem_def buddy_inv_def)
  have fP: "(dm + f, 6) \<in> A" if "f \<in> P" for f using assms that by (simp add: slab_mem_def)
  have sS: "(s, 6) \<in> A" "s \<notin> (\<lambda>f. dm + f) ` P" if "s \<in> S" for s using assms that unfolding slab_mem_def by blast+
  have hd: "heads alloc \<inter> (cover F \<union> (\<Union>b\<in>A. blk b)) = {}" using assms by (simp add: slab_mem_def)
  show wf: "wf_blocks (fset F \<union> A)" by (rule core_facts(2) [OF core])
  show dis: "fset F \<inter> A = {}" by (rule core_facts(3) [OF core])
  show bc: "blk b \<inter> cover F = {}" if "b \<in> A" for b
  proof -
    have "blk c \<inter> blk b = {}" if "c \<in> fset F" for c
      using wf_disjoint [OF wf, of c b] \<open>b \<in> A\<close> that dis by blast
    then show ?thesis unfolding cover_def by blast
  qed
  show page: "algn 12 s \<and> s \<noteq> 0 \<and> blk (s, 6) = cov 12 s" if "(s, 6) \<in> A" for s
    using wf_block [OF wf, of s 6] that by (simp add: blk_def)
  show "algn 12 (dm + f)" "cov 12 (dm + f) \<inter> cover F = {}" "heads alloc \<inter> cov 12 (dm + f) = {}" if "f \<in> P"
    using page [OF fP [OF that]] bc [OF fP [OF that]] hd fP [OF that] by auto
  show "heads alloc \<inter> cover F = {}" using hd by blast
  show "cov 12 (dm + f) \<inter> cov 12 s = {}" if "f \<in> P" "s \<in> S"
  proof (rule ccontr)
    have s: "(s, 6) \<in> A" "s \<noteq> dm + f" using sS [OF that(2)] that(1) by auto
    assume "\<not> ?thesis"
    then have "(dm + f, 6) = (s, 6)"
      using wf_disjoint [OF wf, of "(dm + f, 6)" "(s, 6)"] fP [OF that(1)] s(1) page [OF fP [OF that(1)]] page [OF s(1)]
      by auto
    with s(2) show False by simp
  qed
qed

text \<open>A step on the slabs leaves the memory below alone.\<close>

lemma slab_mem_frame:
  assumes sm: "slab_mem dm alloc h F A P T S" and fr: "data_frame (heads alloc \<union> (\<Union>s\<in>S. cov 12 s)) h h'"
  shows "slab_mem dm alloc h' F A P T S"
proof -
  note a = sm [unfolded slab_mem_def]
  have "cov 12 s \<inter> cover F = {}" if "s \<in> S" for s
    using slab_memD(3) [OF sm, of "(s, 6)"] slab_memD(4) [OF sm, of s] a that by auto
  then have "(heads alloc \<union> (\<Union>s\<in>S. cov 12 s)) \<inter> cover F = {}" using slab_memD(9) [OF sm] by blast
  from buddy_inv_frame [OF _ fr this] a have "buddy_inv dm h' F A" by blast
  moreover have "tables_ok h' dm P T"
  proof (rule tables_ok_frame)
    show "mem64 h' w = mem64 h w" if "f \<in> P" "w \<in> cov 12 (dm + f)" for w f
    proof -
      have "w \<notin> heads alloc \<union> (\<Union>s\<in>S. cov 12 s)"
        using slab_memD(7,8) [OF sm that(1)] that(2) by blast
      from data_frameD [OF fr this] show ?thesis by (simp add: same_at_def)
    qed
  qed (use a fr slab_memD(5) [OF sm] in \<open>simp_all add: data_frame_def\<close>)
  ultimately show ?thesis using a unfolding slab_mem_def by blast
qed

section \<open>A new slab\<close>

lemma store_same: "store_of h' = store_of h \<Longrightarrow> same_at h h' w"
  by (simp add: store_of_def same_at_def)

lemma set_alloc_frame: "data_frame {s} h (h\<lparr>sl_alloc := (sl_alloc h)(s := v)\<rparr>)"
  by (simp add: data_frame_def same_at_def same_header_def)

text \<open>The slab in a clean page.\<close>

lemma fill_slab:
  fixes alloc :: ptr
  assumes m: "meta_ok meta" and p: "algn 12 p" "p \<noteq> 0" and z: "\<And>w. w \<in> cov 12 p \<Longrightarrow> no_data h w"
  defines "h1 \<equiv> init_list (slab_free p) (h\<lparr>sl_alloc := (sl_alloc h)(p := alloc)\<rparr>)"
  shows "\<exists>h'. slab_link_objects meta p (p + ALIGN_UP sizeof_slab (ucast (object_align meta))) 0
      (unat (objects_per_slab meta)) h1 = Some h' \<and>
    slab_ok alloc meta h' p (rev (slab_objects meta p)) {} \<and> data_frame (cov 12 p) h h' \<and> al_lock h' = al_lock h"
proof -
  let ?h0 = "h\<lparr>sl_alloc := (sl_alloc h)(p := alloc)\<rparr>"
  note sf = slab_free_place [OF p(1)]
  have "slab_free p \<noteq> 0" using sf(3) by auto
  from init_list_ok [OF this, of ?h0] have i: "dlist h1 (slab_free p) []" "l_frame {slab_free p} ?h0 h1"
    by (simp_all add: h1_def)
  have fr1: "data_frame {p, slab_free p} h h1"
    by (rule data_frame_trans [OF data_frame_mono [OF set_alloc_frame] data_frame_mono [OF l_frame_data [OF i(2)]]]) auto
  have at: "sl_alloc h1 p = alloc" "sl_in_use h1 p = 0" "al_lock h1 = al_lock h"
    using i(2) z [OF cov_self] by (auto simp: l_frame_def no_data_def)
  have rest: "no_data h1 w" if "w \<in> cov 12 p"
    "unat p + object_offset meta + unat (object_stride meta) * 0 \<le> unat w" for w
  proof -
    have "unat p + 48 \<le> unat w" using that(2) m by (simp add: meta_ok_def)
    then have "w \<notin> {p, slab_free p}" using sf(3) by auto
    from no_data_cong [OF data_frameD [OF fr1 this]] z [OF that(1)] show ?thesis by simp
  qed
  have "0 + unat (objects_per_slab meta) = unat (objects_per_slab meta)" by simp
  from link_objects_ok [OF m p this _ _ rest] i(1)
  obtain h' where h': "slab_link_objects meta p (p + ALIGN_UP sizeof_slab (ucast (object_align meta))) 0
      (unat (objects_per_slab meta)) h1 = Some h'" "dlist h' (slab_free p) (rev (slab_objects meta p))"
    "\<forall>q\<in>set (slab_objects meta p). clean_object meta (unlinked q h') q"
    "data_frame (cov 12 p - {p}) h1 h'" "al_lock h' = al_lock h1"
    by auto
  have "same_at h1 h' p" by (rule data_frameD [OF h'(4)]) simp
  then have "slab_ok alloc meta h' p (rev (slab_objects meta p)) {}"
    using p h'(2,3) at(1,2) by (simp add: slab_ok_def same_at_def)
  moreover have "data_frame (cov 12 p) h h'"
    by (rule data_frame_trans [OF data_frame_mono [OF fr1] data_frame_mono [OF h'(4)]]) (use sf(1) in auto)
  ultimately show ?thesis using h'(1,5) at(3) by auto
qed

lemma page_size_level: "phys_alloc dm PAGE_SIZE h = phys_alloc_internal dm 6 False h"
  using level_of_page by (simp add: phys_alloc_def PAGE_SIZE_eq)

lemma slab_create_ok:
  assumes sm: "slab_mem dm alloc h F A P T S" and m: "meta_ok meta"
  shows "slab_create dm uend alloc meta h = Some (0, h) \<and>
      ((\<forall>k. 6 \<le> k \<and> k < 16 \<longrightarrow> F k = []) \<or> m_available_pages h = 0) \<or>
    (\<exists>p h' F'. slab_create dm uend alloc meta h = Some (p, h') \<and> p \<notin> S \<and>
      slab_mem dm alloc h' F' (insert (p, 6) A) P T (insert p S) \<and>
      slab_ok alloc meta h' p (rev (slab_objects meta p)) {} \<and> heads alloc \<inter> cov 12 p = {} \<and>
      (\<forall>w. w \<notin> cover F \<union> (\<Union>f\<in>P. cov 12 (dm + f)) \<longrightarrow> same_at h h' w) \<and> al_lock h' = al_lock h)"
proof -
  have inv: "buddy_inv dm h F A" and t: "tables_ok h dm P T" and dm: "dm \<noteq> 0" and al: "alloc \<noteq> 0"
    and map: "\<And>w. w \<in> cover F \<Longrightarrow> T 0 (page_no w div 512) \<noteq> None"
    using sm by (simp_all add: slab_mem_def)
  have fP: "(dm + f, 6) \<in> A" if "f \<in> P" for f using sm that by (simp add: slab_mem_def)
  have sS: "(s, 6) \<in> A" "s \<notin> (\<lambda>f. dm + f) ` P" if "s \<in> S" for s using sm that unfolding slab_mem_def by blast+
  have hd: "heads alloc \<inter> (cover F \<union> (\<Union>b\<in>A. blk b)) = {}" using sm by (simp add: slab_mem_def)
  have cost: "cost 6 k = 1" for k by (simp add: cost_def)
  have "unat (m_available_pages h) < 1 \<longleftrightarrow> m_available_pages h = 0" by (simp add: unat_eq_0 less_Suc_eq)
  with phys_alloc_internal_ok [OF inv, of 6 False] consider
      (null) "phys_alloc dm PAGE_SIZE h = Some (0, h)"
        "(\<forall>k. 6 \<le> k \<and> k < 16 \<longrightarrow> F k = []) \<or> m_available_pages h = 0"
    | (page) p h1 F1 where "phys_alloc dm PAGE_SIZE h = Some (p, h1)" "p \<noteq> 0" "(p, 6) \<notin> A"
        "zero_blk h1 (p, 6)" "buddy_inv dm h1 F1 (insert (p, 6) A)" "cover F1 \<union> blk (p, 6) = cover F"
    unfolding page_size_level cost by auto
  then show ?thesis
  proof cases
    case null
    then have "slab_create dm uend alloc meta h = Some (0, h)" by (simp add: slab_create_def)
    with null(2) show ?thesis by blast
  next
    case page
    have st: "store_of h1 = store_of h" by (rule phys_alloc_store) (use page(1) in \<open>simp add: page_size_level\<close>)
    have root: "g_page_table h1 = g_page_table h" "g_page_table_levels h1 = g_page_table_levels h"
      "al_lock h1 = al_lock h" "mem64 h1 = mem64 h"
      using st by (simp_all add: store_of_def)
    have t1: "tables_ok h1 dm P T"
    proof (rule tables_ok_frame [OF t root(1,2) slab_memD(5) [OF sm]])
      show "mem64 h1 w = mem64 h w" for w by (rule fun_cong [OF root(4)])
    qed
    have pc: "p \<in> cover F" "cover F1 \<subseteq> cover F" "blk (p, 6) \<subseteq> cover F" using page(6) blk_self [of p 6] by blast+
    have sm1: "slab_mem dm alloc h1 F1 (insert (p, 6) A) P T (insert p S)"
      unfolding slab_mem_def
    proof (intro conjI ballI)
      show "s \<notin> (\<lambda>f. dm + f) ` P" if "s \<in> insert p S" for s
        using that sS fP page(3) by auto
      show "heads alloc \<inter> (cover F1 \<union> (\<Union>b\<in>insert (p, 6) A. blk b)) = {}" using hd pc by auto
    qed (use page(5) t1 dm al fP sS map pc(2) in auto)
    note pp = slab_memD(4) [OF sm1 insertI1]
    have pg: "algn 12 p" "blk (p, 6) = cov 12 p" using pp by blast+
    have "T 0 (page_no p div 512) \<noteq> None" by (rule map [OF pc(1)])
    from make_global_ok [OF t1 dm slab_memD(5) [OF sm] this] obtain h2 f where
      h2: "virt_make_global dm uend p 1 h1 = Some h2" "tables_ok h2 dm P T" "f \<in> P"
      "data_frame (cov 12 (dm + f)) h1 h2" "al_lock h2 = al_lock h1"
      by blast
    have off: "cov 12 (dm + f) \<inter> cov 12 p = {}" by (rule slab_memD(7) [OF sm1 h2(3) insertI1])
    have z: "no_data h2 w" if "w \<in> cov 12 p" for w
    proof -
      have "same_at h1 h2 w" by (rule data_frameD [OF h2(4)]) (use off that in blast)
      then show ?thesis using page(4) that no_data_cong by (auto simp: zero_blk_def pg(2))
    qed
    have sm2: "slab_mem dm alloc h2 F1 (insert (p, 6) A) P T (insert p S)"
      using sm1 h2(2) buddy_inv_frame [OF page(5) h2(4) slab_memD(6) [OF sm1 h2(3)]] by (simp add: slab_mem_def)
    obtain h' where h': "slab_link_objects meta p (p + ALIGN_UP sizeof_slab (ucast (object_align meta))) 0
        (unat (objects_per_slab meta)) (init_list (slab_free p) (h2\<lparr>sl_alloc := (sl_alloc h2)(p := alloc)\<rparr>)) = Some h'"
      "slab_ok alloc meta h' p (rev (slab_objects meta p)) {}" "data_frame (cov 12 p) h2 h'" "al_lock h' = al_lock h2"
      using fill_slab [OF m pg(1) page(2) z, of alloc] by auto
    have run: "slab_create dm uend alloc meta h = Some (p, h')"
      using page(1,2) h2(1) h'(1) by (simp add: slab_create_def Let_def)
    have "slab_mem dm alloc h' F1 (insert (p, 6) A) P T (insert p S)"
      by (rule slab_mem_frame [OF sm2 data_frame_mono [OF h'(3)]]) blast
    moreover have "same_at h h' w" if "w \<notin> cover F \<union> (\<Union>f\<in>P. cov 12 (dm + f))" for w
    proof -
      have "same_at h1 h2 w" by (rule data_frameD [OF h2(4)]) (use that h2(3) in blast)
      moreover have "same_at h2 h' w" by (rule data_frameD [OF h'(3)]) (use that pc(3) pg(2) in blast)
      ultimately show ?thesis using store_same [OF st, of w] same_at_trans by blast
    qed
    moreover have "p \<notin> S" using sS(1) page(3) by blast
    moreover have "heads alloc \<inter> cov 12 p = {}" using hd pc(3) pg(2) by blast
    moreover have "al_lock h' = al_lock h" using h'(4) h2(5) root(3) by simp
    ultimately show ?thesis using run h'(2) by blast
  qed
qed

section \<open>Allocation\<close>

lemma slabs_page:
  assumes "slab_mem dm alloc h F A P T S" "s \<in> S"
  shows "cov 12 s \<inter> cover F = {}" "f \<in> P \<Longrightarrow> cov 12 (dm + f) \<inter> cov 12 s = {}"
proof -
  have s: "(s, 6) \<in> A" using assms unfolding slab_mem_def by blast
  show "cov 12 s \<inter> cover F = {}" using slab_memD(3) [OF assms(1) s] slab_memD(4) [OF assms(1) s] by simp
  show "f \<in> P \<Longrightarrow> cov 12 (dm + f) \<inter> cov 12 s = {}" using slab_memD(7) [OF assms(1) _ assms(2)] by blast
qed

lemma live_in_pages:
  assumes "slab_lists alloc meta h L FR U" "w \<in> live meta L U"
  shows "\<exists>s\<in>slabs L. w \<in> cov 12 s"
proof -
  obtain s q where s: "s \<in> slabs L" "q \<in> U s" "w \<in> object_range meta q" using assms(2) by (auto simp: live_def in_use_def)
  have "slab_ok alloc meta h s (FR s) (U s)" by (rule slab_listsD(4) [OF assms(1) s(1)])
  then have q: "q \<in> set (slab_objects meta s)" "algn 12 s" using s(2) by (auto simp: slab_ok_def)
  show ?thesis using object_in_page(1) [OF slab_listsD(1) [OF assms(1)] q(2,1)] s(1,3) by blast
qed

text \<open>A free object does not overlap one in use.\<close>

lemma free_apart:
  assumes "slab_lists alloc meta h L FR U" "s \<in> slabs L" "x \<in> set (FR s)"
  shows "x \<notin> in_use L U" "object_range meta x \<inter> live meta L U = {}"
proof -
  note m = slab_listsD(1) [OF assms(1)]
  have ok: "slab_ok alloc meta h t (FR t) (U t)" if "t \<in> slabs L" for t by (rule slab_listsD(4) [OF assms(1) that])
  have x: "x \<in> set (slab_objects meta s)" "x \<notin> U s" "algn 12 s" using ok [OF assms(2)] assms(3) by (auto simp: slab_ok_def)
  have rng: "object_range meta x \<inter> object_range meta q = {}" if "t \<in> slabs L" "q \<in> U t" for t q
  proof (rule ccontr)
    assume ne: "\<not> ?thesis"
    have q: "q \<in> set (slab_objects meta t)" "algn 12 t" using ok [OF that(1)] that(2) by (auto simp: slab_ok_def)
    obtain w where w: "w \<in> object_range meta x" "w \<in> object_range meta q" using ne by blast
    have "w \<in> cov 12 s" "w \<in> cov 12 t"
      using object_in_page(1) [OF m x(3,1)] object_in_page(1) [OF m q(2,1)] w by blast+
    then have "s = t" by (rule slabs_apart [OF assms(1,2) that(1)])
    then have "x = q" using objects_apart [OF m x(3,1)] q(1) ne by blast
    with x(2) that(2) \<open>s = t\<close> show False by simp
  qed
  then show "object_range meta x \<inter> live meta L U = {}" by (auto simp: live_def in_use_def)
  show "x \<notin> in_use L U"
  proof
    assume "x \<in> in_use L U"
    then obtain t where "t \<in> slabs L" "x \<in> U t" by (auto simp: in_use_def)
    from rng [OF this] object_in_page(2) [OF m x(3,1)] show False by blast
  qed
qed

lemma slab_choose_ok:
  assumes sm: "slab_mem dm alloc h F A P T (slabs L)" and sl: "slab_lists alloc meta h L FR U" and st: "slab_status L FR U"
  shows "slab_choose dm uend alloc meta h = Some (0, h) \<and> L Partial = [] \<and> L Empty = [] \<and>
      ((\<forall>k. 6 \<le> k \<and> k < 16 \<longrightarrow> F k = []) \<or> m_available_pages h = 0) \<or>
    (\<exists>s h' F' A' L' FR' U' ps. slab_choose dm uend alloc meta h = Some (s, h') \<and> s \<noteq> 0 \<and>
      slab_mem dm alloc h' F' A' P T (slabs L') \<and> slab_lists alloc meta h' L' FR' U' \<and> L' Partial = s # ps \<and>
      slab_status (L'(Partial := ps)) FR' U' \<and> FR' s \<noteq> [] \<and> in_use L' U' = in_use L U \<and>
      (\<forall>w\<in>live meta L U. same_at h h' w) \<and> al_lock h' = al_lock h)"
proof -
  note m = slab_listsD(1) [OF sl]
  consider (partial) s ps where "L Partial = s # ps" | (empty) s es where "L Partial = []" "L Empty = s # es"
    | (none) "L Partial = []" "L Empty = []"
    by (cases "L Partial"; cases "L Empty") auto
  then show ?thesis
  proof cases
    case partial
    have s: "s \<in> slabs L" using in_slabs [of s L Partial] partial by simp
    have "slab_status (L(Partial := ps)) FR U" "FR s \<noteq> []" using st partial by (auto simp: slab_status_def)
    then show ?thesis
      using slab_choose_partial [OF sl partial] sm sl partial slab_listsD(6) [OF sl s] same_at_refl by blast
  next
    case empty
    have s: "s \<in> slabs L" using in_slabs [of s L Empty] empty by simp
    let ?L = "L(Empty := es, Partial := [s])"
    obtain h' where h': "slab_choose dm uend alloc meta h = Some (s, h')" "slab_lists alloc meta h' ?L FR U"
      "slabs ?L = slabs L" "data_frame (heads alloc \<union> slabs L) h h'" "al_lock h' = al_lock h"
      using slab_choose_empty [OF sl empty] by blast
    have "slabs L \<subseteq> (\<Union>s\<in>slabs L. cov 12 s)" using cov_self by blast
    then have "slab_mem dm alloc h' F A P T (slabs ?L)"
      unfolding h'(3) by (intro slab_mem_frame [OF sm data_frame_mono [OF h'(4)]]) blast
    moreover have "slab_status (?L(Partial := [])) FR U" "FR s \<noteq> []"
      using st empty by (auto simp: slab_status_def)
    moreover have "in_use ?L U = in_use L U" unfolding in_use_def h'(3) ..
    moreover have "same_at h h' w" if "w \<in> live meta L U" for w
      by (rule data_frameD [OF h'(4)]) (use live_apart(1,2) [OF sl that] in blast)
    moreover have "?L Partial = s # []" by simp
    ultimately show ?thesis using h'(1,2,5) slab_listsD(6) [OF sl s] by blast
  next
    case none
    have d: "dlist h (al_partial alloc) []" "dlist h (al_empty alloc) []"
      using slab_listsD(2) [OF sl, of Partial] slab_listsD(2) [OF sl, of Empty] none by simp_all
    have run: "slab_choose dm uend alloc meta h = do {
        (slab, h) \<leftarrow> slab_create dm uend alloc meta h;
        if slab = 0 then Some (0, h)
        else do { h \<leftarrow> list_add (list_head alloc Partial) slab h; Some (slab, h) } }"
      unfolding slab_choose_def slab_link_def list_head.simps
      using list_empty_dlist [OF d(1)] list_empty_dlist [OF d(2)] by simp
    from slab_create_ok [OF sm m, of uend] consider
        (null) "slab_create dm uend alloc meta h = Some (0, h)"
          "(\<forall>k. 6 \<le> k \<and> k < 16 \<longrightarrow> F k = []) \<or> m_available_pages h = 0"
      | (page) p h1 F1 where "slab_create dm uend alloc meta h = Some (p, h1)" "p \<notin> slabs L"
          "slab_mem dm alloc h1 F1 (insert (p, 6) A) P T (insert p (slabs L))"
          "slab_ok alloc meta h1 p (rev (slab_objects meta p)) {}" "heads alloc \<inter> cov 12 p = {}"
          "\<forall>w. w \<notin> cover F \<union> (\<Union>f\<in>P. cov 12 (dm + f)) \<longrightarrow> same_at h h1 w" "al_lock h1 = al_lock h"
      by blast
    then show ?thesis
    proof cases
      case null
      then have "slab_choose dm uend alloc meta h = Some (0, h)" unfolding run by simp
      with null(2) none show ?thesis by blast
    next
      case page
      have keep: "same_at h h1 w" if "w \<in> heads alloc \<union> (\<Union>s\<in>slabs L. cov 12 s)" for w
      proof (rule page(6) [rule_format])
        show "w \<notin> cover F \<union> (\<Union>f\<in>P. cov 12 (dm + f))"
          using that slab_memD(8,9) [OF sm] slabs_page [OF sm] by blast
      qed
      have sl1: "slab_lists alloc meta h1 L FR U" by (rule slab_lists_cong [OF sl keep])
      let ?L = "L(Partial := p # L Partial)" and ?FR = "FR(p := rev (slab_objects meta p))" and ?U = "U(p := {})"
      obtain h' where h': "list_add (list_head alloc Partial) p h1 = Some h'" "slab_lists alloc meta h' ?L ?FR ?U"
        "l_frame (insert p (heads alloc \<union> slabs L)) h1 h'"
        using slab_lists_add [OF sl1 page(4,2,5), of Partial] by blast
      have new: "slabs ?L = insert p (slabs L)" by (auto simp: slabs_def split: if_splits)
      have p0: "p \<noteq> 0" using page(4) by (simp add: slab_ok_def)
      have "insert p (slabs L) \<subseteq> (\<Union>s\<in>insert p (slabs L). cov 12 s)" using cov_self by blast
      then have "slab_mem dm alloc h' F1 (insert (p, 6) A) P T (slabs ?L)"
        unfolding new by (intro slab_mem_frame [OF page(3) data_frame_mono [OF l_frame_data [OF h'(3)]]]) blast
      moreover have "slab_status (?L(Partial := [])) ?FR ?U"
        using st none page(2) in_slabs [of p L Full] by (auto simp: slab_status_def)
      moreover have "?FR p \<noteq> []" using m by (simp add: slab_objects_def meta_ok_def)
      moreover have "in_use ?L ?U = in_use L U"
        unfolding in_use_def new using page(2) by auto
      moreover have "same_at h h' w" if w: "w \<in> live meta L U" for w
      proof -
        obtain s where s: "s \<in> slabs L" "w \<in> cov 12 s" using live_in_pages [OF sl w] by blast
        have "w \<noteq> p" using slabs_apart [OF h'(2), of s p w] s page(2) cov_self [of p 12] unfolding new by blast
        then have "same_at h1 h' w"
          by (intro data_frameD [OF l_frame_data [OF h'(3)]]) (use live_apart(1,2) [OF sl w] in blast)
        moreover have "same_at h h1 w" by (rule keep) (use s in blast)
        ultimately show ?thesis using same_at_trans by blast
      qed
      moreover have "al_lock h' = al_lock h" using h'(3) page(7) by (auto simp: l_frame_def)
      moreover have "slab_choose dm uend alloc meta h = Some (p, h')" unfolding run using page(1) p0 h'(1) by simp
      moreover have "?L Partial = p # []" using none by simp
      ultimately show ?thesis using h'(2) p0 by blast
    qed
  qed
qed

lemma slab_mem_lock: "slab_mem dm alloc h F A P T S \<Longrightarrow> slab_mem dm alloc (h\<lparr>al_lock := k\<rparr>) F A P T S"
  by (rule slab_mem_frame [OF _ al_lock_frame])

lemma slab_lists_lock: "slab_lists alloc meta h L FR U \<Longrightarrow> slab_lists alloc meta (h\<lparr>al_lock := k\<rparr>) L FR U"
  by (rule slab_lists_cong) (simp_all add: same_at_def)

lemma mem_alloc_ok:
  assumes hp: "slab_heap dm alloc meta h F A P T L FR U"
  shows "\<exists>p h' F' A' L' FR' U'. mem_alloc dm uend alloc meta h = Some (p, h') \<and>
    slab_heap dm alloc meta h' F' A' P T L' FR' U' \<and> (\<forall>w\<in>live meta L U. same_at h h' w) \<and>
    (if p = 0 then in_use L' U' = in_use L U \<and> L Partial = [] \<and> L Empty = [] \<and>
       ((\<forall>k. 6 \<le> k \<and> k < 16 \<longrightarrow> F k = []) \<or> m_available_pages h = 0)
     else in_use L' U' = insert p (in_use L U) \<and> p \<notin> in_use L U \<and> clean_object meta h' p \<and>
       object_range meta p \<inter> live meta L U = {})"
proof -
  have sm: "slab_mem dm alloc h F A P T (slabs L)" and sl: "slab_lists alloc meta h L FR U"
    and st: "slab_status L FR U" and lk: "al_lock h alloc = 0"
    using hp by (simp_all add: slab_heap_def)
  have al: "alloc \<noteq> 0" using sm by (simp add: slab_mem_def)
  let ?h1 = "h\<lparr>al_lock := (al_lock h)(alloc := 1)\<rparr>"
  have lock: "al_mutex_lock alloc h = Some ?h1" using lk al by (simp add: al_mutex_lock_def mutex_lock_eq)
  have unlock: "al_mutex_unlock alloc h' = Some (h'\<lparr>al_lock := al_lock h\<rparr>)" if "al_lock h' = al_lock ?h1" for h'
    using that lk by (simp add: al_mutex_unlock_def mutex_unlock_eq fun_upd_idem)
  have same1: "same_at h ?h1 w" and same2: "same_at h' (h'\<lparr>al_lock := k\<rparr>) w" for h' k w by (simp_all add: same_at_def)
  from slab_choose_ok [OF slab_mem_lock [OF sm] slab_lists_lock [OF sl] st, of uend "(al_lock h)(alloc := 1)"] consider
      (null) "slab_choose dm uend alloc meta ?h1 = Some (0, ?h1)" "L Partial = []" "L Empty = []"
        "(\<forall>k. 6 \<le> k \<and> k < 16 \<longrightarrow> F k = []) \<or> m_available_pages h = 0"
    | (slab) s h2 F' A' L' FR' U' ps where "slab_choose dm uend alloc meta ?h1 = Some (s, h2)" "s \<noteq> 0"
        "slab_mem dm alloc h2 F' A' P T (slabs L')" "slab_lists alloc meta h2 L' FR' U'" "L' Partial = s # ps"
        "slab_status (L'(Partial := ps)) FR' U'" "FR' s \<noteq> []" "in_use L' U' = in_use L U"
        "\<forall>w\<in>live meta L U. same_at ?h1 h2 w" "al_lock h2 = al_lock ?h1"
    by auto
  then show ?thesis
  proof cases
    case null
    have "?h1\<lparr>al_lock := al_lock h\<rparr> = h" by simp
    then have "mem_alloc dm uend alloc meta h = Some (0, h)"
      using null(1) unlock [of ?h1] by (simp add: mem_alloc_def lock)
    with null hp same_at_refl show ?thesis by fastforce
  next
    case slab
    then obtain x fs where f: "FR' s = x # fs" by (cases "FR' s") auto
    have s: "s \<in> slabs L'" using in_slabs [of s L' Partial] slab(5) by simp
    let ?FR = "FR'(s := fs)" and ?U = "U'(s := insert x (U' s))"
    obtain h3 L3 where h3: "slab_take alloc meta s h2 = Some (x, h3)" "slab_lists alloc meta h3 L3 ?FR ?U"
      "slabs L3 = slabs L'" "L3 = (if fs = [] then L'(Partial := ps, Full := s # L' Full) else L')"
      "clean_object meta h3 x" "data_frame (heads alloc \<union> slabs L' \<union> insert (slab_free s) (set (FR' s))) h2 h3"
      "al_lock h3 = al_lock h2"
      using slab_take_ok [OF slab(4,5) f] by blast
    let ?h4 = "h3\<lparr>al_lock := al_lock h\<rparr>"
    have live: "live meta L' U' = live meta L U" by (simp add: live_def slab(8))
    have run: "mem_alloc dm uend alloc meta h = Some (x, ?h4)"
      using slab(1,2) h3(1) unlock [of h3] h3(7) slab(10) by (simp add: mem_alloc_def lock)
    note ok = slab_listsD(4) [OF slab(4) s]
    have x: "x \<in> set (FR' s)" "x \<noteq> 0"
      using f ok object_slab(2) [OF slab_listsD(1) [OF slab(4)], of s x] by (auto simp: slab_ok_def)
    have page: "heads alloc \<union> slabs L' \<union> insert (slab_free s) (set (FR' s)) \<subseteq>
        heads alloc \<union> (\<Union>t\<in>slabs L'. cov 12 t)"
    proof -
      have sa: "algn 12 s" "set (FR' s) \<subseteq> set (slab_objects meta s)" using ok by (auto simp: slab_ok_def)
      have "set (FR' s) \<subseteq> cov 12 s" "slab_free s \<in> cov 12 s"
        using sa object_in_page(3) [OF slab_listsD(1) [OF slab(4)] sa(1)] slab_free_place(1) [OF sa(1)] by blast+
      moreover have "slabs L' \<subseteq> (\<Union>t\<in>slabs L'. cov 12 t)" using cov_self by blast
      ultimately show ?thesis using s by blast
    qed
    have "slab_mem dm alloc h3 F' A' P T (slabs L3)"
      unfolding h3(3) by (rule slab_mem_frame [OF slab(3) data_frame_mono [OF h3(6) page]])
    moreover have "slab_status L3 ?FR ?U" unfolding h3(4) by (rule status_take [OF slab(4,6,5) f])
    ultimately have "slab_heap dm alloc meta ?h4 F' A' P T L3 ?FR ?U"
      using slab_lists_lock [OF h3(2)] slab_mem_lock lk by (simp add: slab_heap_def)
    moreover have "same_at h ?h4 w" if w: "w \<in> live meta L U" for w
    proof -
      have "same_at h2 h3 w"
        by (rule data_frameD [OF h3(6)]) (use live_apart [OF slab(4), of w] w s live in blast)
      then show ?thesis using slab(9) w same1 [of w] same2 [of h3] same_at_trans by blast
    qed
    moreover have "in_use L3 ?U = insert x (in_use L' U')"
      unfolding in_use_def h3(3) using s by auto
    then have "in_use L3 ?U = insert x (in_use L U)" by (simp only: slab(8))
    moreover have "clean_object meta ?h4 x" using h3(5) by (simp add: clean_object_def no_data_def)
    moreover have "x \<notin> in_use L U" "object_range meta x \<inter> live meta L U = {}"
      using free_apart [OF slab(4) s x(1)] unfolding live slab(8) by blast+
    ultimately show ?thesis using run x(2) by fastforce
  qed
qed

lemma mem_free_heap:
  assumes hp: "slab_heap dm alloc meta h F A P T L FR U" and p: "p \<in> in_use L U"
  shows "\<exists>h' L' FR' U'. mem_free alloc meta p h = Some h' \<and> slab_heap dm alloc meta h' F A P T L' FR' U' \<and>
    in_use L' U' = in_use L U - {p} \<and> slabs L' = slabs L \<and> (\<forall>w\<in>live meta L' U'. same_at h h' w) \<and>
    clean_object meta (unlinked p h') p"
proof -
  have sm: "slab_mem dm alloc h F A P T (slabs L)" and sl: "slab_lists alloc meta h L FR U"
    and st: "slab_status L FR U" and lk: "al_lock h alloc = 0"
    using hp by (simp_all add: slab_heap_def)
  have al: "alloc \<noteq> 0" using sm by (simp add: slab_mem_def)
  obtain s where s: "s \<in> slabs L" "p \<in> U s" using p by (auto simp: in_use_def)
  let ?FR = "FR(s := FR s @ [p])" and ?U = "U(s := U s - {p})"
  let ?S = "heads alloc \<union> slabs L \<union> insert (slab_free s) (set (FR s) \<union> object_range meta p)"
  obtain h' L' where h': "mem_free alloc meta p h = Some h'" "al_lock h' = al_lock h" "slab_lists alloc meta h' L' ?FR ?U"
    "slabs L' = slabs L" "slab_status L' ?FR ?U" "data_frame ?S h h'"
    using mem_free_ok [OF sl st lk al s] by blast
  note m = slab_listsD(1) [OF sl] and ok = slab_listsD(4) [OF sl s(1)]
  have sa: "algn 12 s" "set (FR s) \<subseteq> set (slab_objects meta s)" "p \<in> set (slab_objects meta s)"
    using ok s(2) by (auto simp: slab_ok_def)
  have "?S \<subseteq> heads alloc \<union> (\<Union>t\<in>slabs L. cov 12 t)"
  proof -
    have "set (FR s) \<subseteq> cov 12 s" "slab_free s \<in> cov 12 s" "object_range meta p \<subseteq> cov 12 s"
      using sa object_in_page(1,3) [OF m sa(1)] slab_free_place(1) [OF sa(1)] by blast+
    moreover have "slabs L \<subseteq> (\<Union>t\<in>slabs L. cov 12 t)" using cov_self by blast
    ultimately show ?thesis using s(1) by blast
  qed
  then have "slab_mem dm alloc h' F A P T (slabs L')"
    unfolding h'(4) by (rule slab_mem_frame [OF sm data_frame_mono [OF h'(6)]])
  then have heap: "slab_heap dm alloc meta h' F A P T L' ?FR ?U"
    using h'(2,3,5) lk by (simp add: slab_heap_def)
  have only: "p \<notin> U t" if "t \<in> slabs L" "t \<noteq> s" for t
  proof
    assume "p \<in> U t"
    then have "p \<in> set (slab_objects meta t)" "algn 12 t" using slab_listsD(4) [OF sl that(1)] by (auto simp: slab_ok_def)
    then have "p \<in> cov 12 t" using object_in_page(3) [OF m] by blast
    with slabs_apart [OF sl that(1) s(1) _ object_in_page(3) [OF m sa(1,3)]] that(2) show False by blast
  qed
  then have use': "in_use L' ?U = in_use L U - {p}"
    unfolding in_use_def h'(4) using s(1) by (auto split: if_splits)
  have pf: "p \<in> set (?FR s)" by simp
  have s': "s \<in> slabs L'" using s(1) h'(4) by simp
  have "same_at h h' w" if w: "w \<in> live meta L' ?U" for w
  proof (rule data_frameD [OF h'(6)])
    have lv: "w \<in> live meta L U" using w use' by (auto simp: live_def)
    have "w \<notin> object_range meta p" using free_apart(2) [OF h'(3) s' pf] w by blast
    then show "w \<notin> ?S" using live_apart [OF sl lv] s(1) by blast
  qed
  moreover have "clean_object meta (unlinked p h') p"
    using slab_listsD(4) [OF h'(3) s'] by (simp add: slab_ok_def)
  ultimately show ?thesis using h'(1,4) heap use' by blast
qed

section \<open>The first state\<close>

text \<open>What \<open>DEFINE_ALLOC\<close> starts from.\<close>

lemma alloc_init_frame: "data_frame (heads alloc) (h\<lparr>al_lock := (al_lock h)(alloc := 0)\<rparr>) (alloc_init alloc h)"
  by (simp add: alloc_init_def Let_def init_list_eq data_frame_def same_at_def same_header_def heads_def)

lemma alloc_init_ok:
  assumes m: "meta_ok meta" and sm: "slab_mem dm alloc h F A P T {}" and u: "unat alloc + 48 \<le> 2 ^ 64"
  shows "slab_heap dm alloc meta (alloc_init alloc h) F A P T (\<lambda>_. []) FR U"
proof -
  let ?h0 = "h\<lparr>al_lock := (al_lock h)(alloc := 0)\<rparr>"
  let ?h1 = "init_list (al_partial alloc) ?h0"
  let ?h2 = "init_list (al_full alloc) ?h1"
  let ?h3 = "init_list (al_empty alloc) ?h2"
  have e: "alloc_init alloc h = ?h3" by (simp add: alloc_init_def Let_def)
  have off: "unat (alloc + d) = unat alloc + unat d" if "unat d \<le> 40" for d
    by (rule unat_add_lem [THEN iffD1]) (use that u in simp)
  have nz: "list_head alloc k \<noteq> 0" for k
    using off [of 8] off [of 24] off [of 40]
    by (cases k) (auto simp: al_partial_def al_full_def al_empty_def unat_eq_0 [symmetric] simp del: unat_eq_0)
  note z = nz [of Partial, simplified] nz [of Full, simplified] nz [of Empty, simplified]
  have ne: "al_partial alloc \<noteq> al_full alloc" "al_partial alloc \<noteq> al_empty alloc" "al_full alloc \<noteq> al_empty alloc"
    by (simp_all add: al_partial_def al_full_def al_empty_def)
  have "data_frame (heads alloc) ?h0 ?h3" using alloc_init_frame [of alloc h] by (simp add: e)
  from slab_mem_frame [OF slab_mem_lock [OF sm] data_frame_mono [OF this]]
  have "slab_mem dm alloc ?h3 F A P T {}" by simp
  moreover have "dlist ?h3 (list_head alloc k) []" for k
    using z ne by (cases k) (auto simp: dlist_def init_list_eq)
  moreover have "al_lock ?h3 alloc = 0" by (simp add: init_list_eq)
  ultimately show ?thesis
    using m by (simp add: e slab_heap_def slab_lists_def slab_status_def slabs_def)
qed

section \<open>A small machine\<close>

text \<open>
  An allocator of 1000-byte objects at \<open>0x50\<close>, the root table in the frame \<open>0x1000\<close>, and one slab in the
  page \<open>0x200000\<close>; no page is left.
\<close>

definition demo_meta :: mem_alloc_meta where
  "demo_meta = \<lparr>objects_per_slab = 4, object_stride = 1000, object_size = 1000, object_align = 8\<rparr>"

definition demo_mm :: mm where
  "demo_mm = empty_mm\<lparr>g_page_table := 0x101000, m_total_pages := 2, m_committed_pages := 2\<rparr>"

definition demo_tables :: tables where
  "demo_tables i q = (if i = 3 \<and> q = 0 then Some 0x1000 else None)"

definition demo_blocks :: "block set" where
  "demo_blocks = {(0x101000, 6), (0x200000, 6)}"

lemma demo_meta_eq: "alloc_meta 1000 (2 ^ 3) = Some demo_meta"
  by (simp add: demo_meta_def alloc_meta_def ALIGN_UP_def PAGE_SIZE_eq sizeof_slab_def)

lemma demo_tables_ok: "tables_ok demo_mm 0x100000 {0x1000} demo_tables"
  by (auto simp: tables_ok_def demo_mm_def empty_mm_def demo_tables_def frame_ok_def entry_ok_def split: if_splits)

lemma demo_apart: "blk (0x101000, 6) \<inter> blk (0x200000, 6) = {}" "algn 12 (0x101000 :: ptr)" "algn 12 (0x200000 :: ptr)"
  by (auto simp: blk_def cov_def algn_def)

lemma demo_buddy: "buddy_inv 0x100000 demo_mm (\<lambda>_. []) demo_blocks"
  using demo_apart
  by (auto simp: buddy_inv_def buddy_core_def buddy_zero_def demo_mm_def empty_mm_def fset_def wf_blocks_def demo_blocks_def
    is_free_bit acct_ok_def free_pages_def total_free_def handed_out_def algn_def pairwise_def)

lemma demo_mem: "S \<subseteq> {0x200000} \<Longrightarrow> slab_mem 0x100000 0x50 demo_mm (\<lambda>_. []) demo_blocks {0x1000} demo_tables S"
  using demo_buddy demo_tables_ok demo_apart(2,3)
  by (auto simp: slab_mem_def demo_blocks_def cover_def fset_def blk_def heads_def in_page
    al_partial_def al_full_def al_empty_def)

definition demo_slab_mm :: mm where
  "demo_slab_mm = the (do {
     let h = alloc_init 0x50 demo_mm;
     let h = init_list (slab_free 0x200000) (h\<lparr>sl_alloc := (sl_alloc h)(0x200000 := 0x50)\<rparr>);
     h \<leftarrow> slab_link_objects demo_meta 0x200000 (0x200000 + ALIGN_UP sizeof_slab 8) 0 4 h;
     list_add (al_empty 0x50) 0x200000 h })"

lemma demo_heap:
  "\<exists>FR. slab_heap 0x100000 0x50 demo_meta demo_slab_mm (\<lambda>_. []) demo_blocks {0x1000} demo_tables
     ((\<lambda>_. [])(Empty := [0x200000])) FR (\<lambda>_. {})"
proof -
  let ?h = "alloc_init 0x50 demo_mm" and ?p = "0x200000 :: ptr"
  have m: "meta_ok demo_meta" by (rule alloc_meta_facts(1) [OF demo_meta_eq]) simp
  have sl: "slab_lists 0x50 demo_meta ?h (\<lambda>_. []) (\<lambda>_. []) (\<lambda>_. {})" and lk: "al_lock ?h 0x50 = 0"
    using alloc_init_ok [OF m demo_mem] by (simp_all add: slab_heap_def)
  have hd: "heads 0x50 \<inter> cov 12 ?p = {}"
    using demo_apart(3) by (auto simp: heads_def in_page al_partial_def al_full_def al_empty_def)
  have z: "no_data ?h w" if "w \<in> cov 12 ?p" for w
    using that hd by (auto simp: no_data_def alloc_init_def Let_def init_list_eq heads_def demo_mm_def empty_mm_def)
  obtain h1 where h1: "slab_link_objects demo_meta ?p (?p + ALIGN_UP sizeof_slab (ucast (object_align demo_meta))) 0
      (unat (objects_per_slab demo_meta)) (init_list (slab_free ?p) (?h\<lparr>sl_alloc := (sl_alloc ?h)(?p := 0x50)\<rparr>)) = Some h1"
    "slab_ok 0x50 demo_meta h1 ?p (rev (slab_objects demo_meta ?p)) {}" "data_frame (cov 12 ?p) ?h h1" "al_lock h1 = al_lock ?h"
    using fill_slab [OF m demo_apart(3) _ z, of "0x50"] by auto
  have sl1: "slab_lists 0x50 demo_meta h1 (\<lambda>_. []) (\<lambda>_. []) (\<lambda>_. {})"
    by (rule slab_lists_cong [OF sl], rule data_frameD [OF h1(3)]) (use hd in \<open>auto simp: slabs_def\<close>)
  obtain h2 where h2: "list_add (list_head 0x50 Empty) ?p h1 = Some h2"
    "slab_lists 0x50 demo_meta h2 ((\<lambda>_. [])(Empty := [?p])) ((\<lambda>_. [])(?p := rev (slab_objects demo_meta ?p))) ((\<lambda>_. {})(?p := {}))"
    "l_frame (insert ?p (heads 0x50 \<union> slabs (\<lambda>_. []))) h1 h2"
    using slab_lists_add [OF sl1 h1(2) _ hd, of Empty] by (auto simp: slabs_def)
  have e: "demo_slab_mm = h2"
    using h1(1) h2(1) by (simp add: demo_slab_mm_def Let_def demo_meta_def)
  have "data_frame (insert ?p (cov 12 ?p \<union> heads 0x50)) ?h h2"
    by (rule data_frame_trans [OF data_frame_mono [OF h1(3)] data_frame_mono [OF l_frame_data [OF h2(3)]]])
      (auto simp: slabs_def)
  moreover have "slab_mem 0x100000 0x50 ?h (\<lambda>_. []) demo_blocks {0x1000} demo_tables {?p}"
    by (rule slab_mem_frame [OF slab_mem_lock [OF demo_mem]])
      (use alloc_init_frame in \<open>auto intro: data_frame_mono\<close>)
  ultimately have "slab_mem 0x100000 0x50 h2 (\<lambda>_. []) demo_blocks {0x1000} demo_tables {?p}"
    by - (rule slab_mem_frame, assumption, erule data_frame_mono, use cov_self [of ?p 12] in simp)
  moreover have "al_lock h2 = al_lock h1" using h2(3) by (auto simp: l_frame_def)
  moreover have "slab_objects demo_meta ?p \<noteq> []" by (simp add: slab_objects_def demo_meta_def)
  moreover have "slabs ((\<lambda>_. [])(Empty := [?p])) = {?p}" by (auto simp: slabs_def)
  moreover have "(\<lambda>_. {})(?p := {}) = (\<lambda>_. {} :: ptr set)" by auto
  ultimately have "slab_heap 0x100000 0x50 demo_meta h2 (\<lambda>_. []) demo_blocks {0x1000} demo_tables
     ((\<lambda>_. [])(Empty := [?p])) ((\<lambda>_. [])(?p := rev (slab_objects demo_meta ?p))) (\<lambda>_. {})"
    using h2(2) lk h1(4) by (simp add: slab_heap_def slab_status_def)
  then show ?thesis unfolding e by blast
qed

section \<open>The properties\<close>

text \<open>C24: An allocator as \<open>DEFINE_ALLOC\<close> defines it, on a memory in which nothing of it is handed out, has
  no slabs and no objects in use, and every list and its lock in order.
\<close>

theorem alloc_init_correct:
  assumes "alloc_meta sz (2 ^ k) = Some meta" "k < 16" "unat alloc + 48 \<le> 2 ^ 64"
    and "slab_mem dm alloc h F A P T {}"
  shows "slab_heap dm alloc meta (alloc_init alloc h) F A P T (\<lambda>_. []) FR U \<and> in_use (\<lambda>_. []) U = {}"
  using alloc_init_ok [OF alloc_meta_facts(1) [OF assms(1,2)] assms(4,3)] by (simp add: in_use_def slabs_def)

lemma alloc_init_correct_witness:
  "\<exists>meta. alloc_meta 1000 (2 ^ 3) = Some meta \<and> slab_heap 0x100000 0x50 meta (alloc_init 0x50 demo_mm) (\<lambda>_. [])
     demo_blocks {0x1000} demo_tables (\<lambda>_. []) (\<lambda>_. []) (\<lambda>_. {})"
  using alloc_init_correct [OF demo_meta_eq, of "0x50", OF _ _ demo_mem] demo_meta_eq by auto

text \<open>C3: Allocation never fails an assertion, and keeps the invariant of the slabs, the page tables and the
  page allocator.  It returns null when no slab has a free object and the page allocator has no
  page to give; otherwise an object not in use, which is in use from then on, overlaps no other,
  and is zero throughout; the memory of the objects that were in use stays as it was.
\<close>

theorem mem_alloc_correct:
  assumes "slab_heap dm alloc meta h F A P T L FR U"
  shows "\<exists>p h' F' A' L' FR' U'. mem_alloc dm uend alloc meta h = Some (p, h') \<and>
    slab_heap dm alloc meta h' F' A' P T L' FR' U' \<and> (\<forall>w\<in>live meta L U. same_at h h' w) \<and>
    (if p = 0 then in_use L' U' = in_use L U \<and> L Partial = [] \<and> L Empty = [] \<and>
       ((\<forall>k. 6 \<le> k \<and> k < 16 \<longrightarrow> F k = []) \<or> m_available_pages h = 0)
     else in_use L' U' = insert p (in_use L U) \<and> p \<notin> in_use L U \<and> clean_object meta h' p \<and>
       object_range meta p \<inter> live meta L U = {})"
  by (rule mem_alloc_ok [OF assms])

lemma mem_alloc_correct_witness:
  "\<exists>p h'. mem_alloc 0x100000 0x300000 0x50 demo_meta demo_slab_mm = Some (p, h') \<and> p \<noteq> 0 \<and> clean_object demo_meta h' p"
proof -
  obtain FR where "slab_heap 0x100000 0x50 demo_meta demo_slab_mm (\<lambda>_. []) demo_blocks {0x1000} demo_tables
    ((\<lambda>_. [])(Empty := [0x200000])) FR (\<lambda>_. {})"
    using demo_heap by blast
  from mem_alloc_correct [OF this, of "0x300000"] show ?thesis by (fastforce split: if_splits)
qed

text \<open>C4: Freeing an object in use never fails an assertion, keeps the invariant, makes exactly this object free,
  leaves the others as they were and scrubs it: but for the links of the free list it is zero.
  Freeing null does nothing, and an address in no slab of this allocator stops the kernel.
\<close>

theorem mem_free_correct:
  assumes "slab_heap dm alloc meta h F A P T L FR U"
  shows "mem_free alloc meta 0 h = Some h \<and>
    (\<forall>q. q \<noteq> 0 \<and> sl_alloc h (object_to_slab q) \<noteq> alloc \<longrightarrow> mem_free alloc meta q h = None) \<and>
    (\<forall>p\<in>in_use L U. \<exists>h' L' FR' U'. mem_free alloc meta p h = Some h' \<and>
       slab_heap dm alloc meta h' F A P T L' FR' U' \<and> in_use L' U' = in_use L U - {p} \<and> slabs L' = slabs L \<and>
       (\<forall>w\<in>live meta L' U'. same_at h h' w) \<and> clean_object meta (unlinked p h') p)"
proof (intro conjI allI ballI impI)
  show "mem_free alloc meta 0 h = Some h" by (simp add: mem_free_def)
  show "mem_free alloc meta q h = None" if "q \<noteq> 0 \<and> sl_alloc h (object_to_slab q) \<noteq> alloc" for q
    using that assms
    by (simp add: mem_free_def al_mutex_lock_def mutex_lock_eq slab_heap_def slab_mem_def Let_def)
qed (rule mem_free_heap [OF assms])

lemma mem_free_correct_witness:
  "\<exists>p h h'. mem_alloc 0x100000 0x300000 0x50 demo_meta demo_slab_mm = Some (p, h) \<and> p \<noteq> 0 \<and>
     mem_free 0x50 demo_meta p h = Some h'"
proof -
  obtain FR where "slab_heap 0x100000 0x50 demo_meta demo_slab_mm (\<lambda>_. []) demo_blocks {0x1000} demo_tables
    ((\<lambda>_. [])(Empty := [0x200000])) FR (\<lambda>_. {})"
    using demo_heap by blast
  from mem_alloc_ok [OF this, of "0x300000"] obtain p h F A L FR U where
    a: "mem_alloc 0x100000 0x300000 0x50 demo_meta demo_slab_mm = Some (p, h)" "p \<noteq> 0" "p \<in> in_use L U"
      "slab_heap 0x100000 0x50 demo_meta h F A {0x1000} demo_tables L FR U"
    by (fastforce split: if_splits)
  from mem_free_correct [OF a(4)] a(1-3) show ?thesis by blast
qed

end
