(* ===== verification/Virt_Props.thy ===== *)
theory Virt_Props
  imports Slab_Props
begin

text \<open>
  Populating pages, \<open>virt_populate\<close> of \<open>src/mem/virt.c\<close>, on top of the page allocator and the page tables:
  which pages the processor's walk finds afterwards, what backs them and with which access, and that
  the pages that were there, and all memory that was handed out, stay as they were.
\<close>

section \<open>The memory\<close>

text \<open>The page allocator with the blocks \<open>A\<close> handed out, the tables \<open>T\<close> in frames of \<open>P\<close>, pages that were
  handed out; what is free is memory an entry can address.\<close>

definition table_mem :: "u64 \<Rightarrow> mm \<Rightarrow> (nat \<Rightarrow> ptr list) \<Rightarrow> block set \<Rightarrow> u64 set \<Rightarrow> tables \<Rightarrow> bool" where
  "table_mem dm h F A P T \<longleftrightarrow> buddy_inv dm h F A \<and> tables_ok h dm P T \<and> dm \<noteq> 0 \<and>
     (\<forall>f\<in>P. (dm + f, 6) \<in> A) \<and> (\<forall>w\<in>cover F. unat (direct_to_phys dm w) < 2 ^ 52)"

definition table_pages :: "u64 \<Rightarrow> u64 set \<Rightarrow> ptr set" where
  "table_pages dm P = (\<Union>f\<in>P. cov 12 (dm + f))"

definition walk_entry :: "u64 \<Rightarrow> mm \<Rightarrow> nat \<Rightarrow> u64" where
  "walk_entry dm h n = pt_walk h dm 3 (g_page_table h) n"

definition absent :: "u64 \<Rightarrow> mm \<Rightarrow> nat set \<Rightarrow> nat set" where
  "absent dm h N = {n \<in> N. walk_entry dm h n AND IA32_PG_P = 0}"

text \<open>What the entry of a populated page has besides the address.\<close>

definition page_access :: "bool \<Rightarrow> bool \<Rightarrow> u64" where
  "page_access user global = IA32_PG_P OR IA32_PG_RW OR IA32_PG_A OR IA32_PG_D OR IA32_PG_NX OR
     (if global then IA32_PG_G else 0) OR (if user then IA32_PG_U else 0)"

definition maps_to :: "u64 \<Rightarrow> u64 \<Rightarrow> ptr \<Rightarrow> u64 \<Rightarrow> bool" where
  "maps_to dm e p access \<longleftrightarrow>
     phys_to_direct dm (e AND PAGING_4K_ADDRESS_MASK) = p \<and> e AND NOT PAGING_4K_ADDRESS_MASK = access"

lemma walk_entry_pte: "tables_ok h dm P T \<Longrightarrow> n < 2 ^ 36 \<Longrightarrow> walk_entry dm h n = pte h dm T n"
proof -
  assume t: "tables_ok h dm P T" and n: "n < 2 ^ 36"
  obtain r where r: "T 3 0 = Some r" "g_page_table h = dm + r" using tables_root [OF t] by auto
  have "n div 512 ^ Suc 3 = 0" using n by simp
  with r(1) pt_walk_pte [OF t, of 3 n r] show ?thesis by (simp add: walk_entry_def r(2))
qed

lemma table_memD:
  assumes "table_mem dm h F A P T"
  shows "b \<in> A \<Longrightarrow> blk b \<inter> cover F = {}" "(s, 6) \<in> A \<Longrightarrow> algn 12 s \<and> s \<noteq> 0 \<and> blk (s, 6) = cov 12 s"
    "f \<in> P \<Longrightarrow> algn 12 (dm + f)" "table_pages dm P \<inter> cover F = {}"
    "b \<in> A \<Longrightarrow> b \<notin> (\<lambda>f. (dm + f, 6)) ` P \<Longrightarrow> blk b \<inter> table_pages dm P = {}" "algn 12 dm"
proof -
  have core: "buddy_core dm h F A" and t: "tables_ok h dm P T"
    using assms by (simp_all add: table_mem_def buddy_inv_def)
  have fP: "(dm + f, 6) \<in> A" if "f \<in> P" for f using assms that by (simp add: table_mem_def)
  note wf = core_facts(2) [OF core] and dis = core_facts(3) [OF core]
  show bc: "blk b \<inter> cover F = {}" if "b \<in> A" for b
  proof -
    have "blk c \<inter> blk b = {}" if "c \<in> fset F" for c
      using wf_disjoint [OF wf, of c b] \<open>b \<in> A\<close> that dis by blast
    then show ?thesis unfolding cover_def by blast
  qed
  show page: "algn 12 s \<and> s \<noteq> 0 \<and> blk (s, 6) = cov 12 s" if "(s, 6) \<in> A" for s
    using wf_block [OF wf, of s 6] that by (simp add: blk_def)
  have pb: "blk (dm + f, 6) = cov 12 (dm + f)" if "f \<in> P" for f using page [OF fP [OF that]] by simp
  show al: "algn 12 (dm + f)" if "f \<in> P" for f using page [OF fP [OF that]] by simp
  show "table_pages dm P \<inter> cover F = {}" using bc [OF fP] pb by (auto simp: table_pages_def)
  show "blk b \<inter> table_pages dm P = {}" if "b \<in> A" "b \<notin> (\<lambda>f. (dm + f, 6)) ` P" for b
  proof -
    have "blk b \<inter> blk (dm + f, 6) = {}" if "f \<in> P" for f
      using wf_disjoint [OF wf, of b "(dm + f, 6)"] fP [OF that] \<open>b \<in> A\<close> \<open>b \<notin> _\<close> that by blast
    then show ?thesis using pb by (auto simp: table_pages_def)
  qed
  obtain r where r: "T 3 0 = Some r" using tables_root [OF t] by auto
  have f: "frame_ok dm r" "4096 dvd unat (dm + r)" using tables_frame [OF t r] al by (auto simp: algn_page)
  moreover have "unat (dm + r) = unat dm + unat r"
    by (rule unat_add_lem [THEN iffD1]) (use f in \<open>simp add: frame_ok_def\<close>)
  ultimately show "algn 12 dm" by (simp add: frame_ok_def algn_page dvd_add_left_iff)
qed

section \<open>The entry\<close>

lemma frame_bits:
  assumes "algn 12 f" "unat f < 2 ^ 52"
  shows "f AND PAGING_4K_ADDRESS_MASK = f" "f AND NOT PAGING_4K_ADDRESS_MASK = 0"
proof -
  have m: "PAGING_4K_ADDRESS_MASK = push_bit 12 (mask 40)"
    by (simp add: PAGING_4K_ADDRESS_MASK_def push_bit_eq_mult mask_eq_exp_minus_1)
  have b: "bit f n \<Longrightarrow> 12 \<le> n \<and> n < 52" for n
  proof -
    have "f < 2 ^ 52" using assms(2) by (simp add: word_less_nat_alt)
    then have "take_bit 52 f = f" by (rule small_bits) simp
    then show "bit f n \<Longrightarrow> 12 \<le> n \<and> n < 52"
      using assms(1) by (metis algn_bits bit_take_bit_iff not_le)
  qed
  show "f AND PAGING_4K_ADDRESS_MASK = f"
    unfolding m by (rule bit_word_eqI) (auto simp: bit_simps dest: b)
  then have "f AND NOT PAGING_4K_ADDRESS_MASK = (f AND PAGING_4K_ADDRESS_MASK) AND NOT PAGING_4K_ADDRESS_MASK"
    by (simp only:)
  also have "\<dots> = f AND (PAGING_4K_ADDRESS_MASK AND NOT PAGING_4K_ADDRESS_MASK)" by (rule and.assoc)
  finally show "f AND NOT PAGING_4K_ADDRESS_MASK = 0" by simp
qed

lemma mask_split: "x AND m = 0 \<Longrightarrow> x AND NOT m = x" for x m :: u64
  using bit.conj_disj_distrib [of x m "NOT m"] by simp

lemma page_access_bits:
  "page_access user global AND PAGING_4K_ADDRESS_MASK = 0" "page_access user global AND IA32_PG_P = IA32_PG_P"
  by (cases user; cases global; simp add: page_access_def pg_defs PAGING_4K_ADDRESS_MASK_def)+

lemma entry_maps:
  assumes "algn 12 (direct_to_phys dm p)" "unat (direct_to_phys dm p) < 2 ^ 52"
  shows "maps_to dm (direct_to_phys dm p OR page_access user global) p (page_access user global)"
    "(direct_to_phys dm p OR page_access user global) AND IA32_PG_P \<noteq> 0"
proof -
  note f = frame_bits [OF assms]
  show "maps_to dm (direct_to_phys dm p OR page_access user global) p (page_access user global)"
    using f page_access_bits(1) mask_split [OF page_access_bits(1)]
    by (simp add: maps_to_def bit.conj_disj_distrib2) (simp add: phys_to_direct_def direct_to_phys_def)
  have "(direct_to_phys dm p OR page_access user global) AND IA32_PG_P = (direct_to_phys dm p AND IA32_PG_P) OR IA32_PG_P"
    by (simp only: bit.conj_disj_distrib2 page_access_bits)
  then show "(direct_to_phys dm p OR page_access user global) AND IA32_PG_P \<noteq> 0"
    by (auto simp: IA32_PG_P_def or_eq_0_iff)
qed

section \<open>One page\<close>

lemma reserved_simps [simp]:
  "m_reserved_pages (hlist_add l n h) = m_reserved_pages h"
  "m_reserved_pages (buddy_clear_header n h) = m_reserved_pages h"
  "m_reserved_pages (buddy_set_block_free dm p h) = m_reserved_pages h"
  "m_reserved_pages (buddy_set_block_allocated dm p h) = m_reserved_pages h"
  by (simp_all add: hlist_add_def buddy_clear_header_def buddy_set_block_free_def buddy_set_block_allocated_def Let_def)

lemma reserved_left:
  assumes "phys_alloc_internal dm 6 True h = Some (p, h')" "p \<noteq> 0"
  shows "m_reserved_pages h' = m_reserved_pages h - 1"
proof -
  have lock: "m_reserved_pages g' = m_reserved_pages g"
    if "buddy_mutex_lock g = Some g' \<or> buddy_mutex_unlock g = Some g'" for g g'
    using that by (auto simp: buddy_mutex_lock_def buddy_mutex_unlock_def bind_eq_Some_conv)
  have "hslot_store s v g = Some g' \<Longrightarrow> m_reserved_pages g' = m_reserved_pages g" for s v g g'
    by (cases s) auto
  then have del: "m_reserved_pages g' = m_reserved_pages g" if "hlist_del n g = Some g'" for n g g'
    using that by (fastforce simp: hlist_del_def hlist_unlink_def Let_def bind_eq_Some_conv split: if_splits)
  have split: "m_reserved_pages (buddy_split dm l k x g) = m_reserved_pages g" for l k x g
    by (induction dm l k x g rule: buddy_split.induct) (simp_all add: Let_def)
  have one: "get_page_count_by_level 6 = 1"
    by (simp add: get_page_count_by_level_def buddy_consts)
  have commit: "m_reserved_pages g' = m_reserved_pages g - 1"
    if "phys_alloc_commit 6 k True g = Some (ok, g')" for k g ok g'
    using that one by (auto simp: phys_alloc_commit_def buddy_consts bind_eq_Some_conv mem_acct_sub_eq Let_def split: if_splits)
  show ?thesis
    using assms unfolding phys_alloc_internal_def Let_def
    by (auto simp: bind_eq_Some_conv split
        split: if_splits dest!: lock [OF disjI1] lock [OF disjI2] del commit)
qed

lemma table_mem_alloc:
  assumes tm: "table_mem dm h F A P T" and r: "0 < m_reserved_pages h"
  shows "\<exists>p h' F'. phys_alloc_reserved dm PAGE_SIZE h = Some (p, h') \<and> p \<noteq> 0 \<and> (p, 6) \<notin> A \<and>
    table_mem dm h' F' (insert (p, 6) A) P T \<and> (\<forall>w\<in>blk (p, 6). no_data h' w) \<and> p \<in> cover F \<and>
    m_reserved_pages h' = m_reserved_pages h - 1 \<and> store_of h' = store_of h"
proof -
  have inv: "buddy_inv dm h F A" and t: "tables_ok h dm P T" and dm: "dm \<noteq> 0"
    and fP: "\<And>f. f \<in> P \<Longrightarrow> (dm + f, 6) \<in> A" and hi: "\<And>w. w \<in> cover F \<Longrightarrow> unat (direct_to_phys dm w) < 2 ^ 52"
    using tm by (simp_all add: table_mem_def)
  have run: "phys_alloc_reserved dm PAGE_SIZE h = phys_alloc_internal dm 6 True h"
    by (simp add: phys_alloc_reserved_def page_level)
  have "1 \<le> unat (m_reserved_pages h)" using r by (simp add: word_less_nat_alt)
  with phys_alloc_internal_ok [OF inv, of 6 True] obtain p h' F' where
    a: "phys_alloc_internal dm 6 True h = Some (p, h')" "p \<noteq> 0" "(p, 6) \<notin> A"
      "buddy_inv dm h' F' (insert (p, 6) A)" "zero_blk h' (p, 6)" "cover F' \<union> blk (p, 6) = cover F"
    by auto
  have st: "store_of h' = store_of h" by (rule phys_alloc_store [OF a(1)])
  have t': "tables_ok h' dm P T"
    by (rule tables_ok_frame [OF t _ _ table_memD(3) [OF tm]]) (use st in \<open>simp_all add: store_of_def\<close>)
  have "table_mem dm h' F' (insert (p, 6) A) P T"
    using a(4,6) t' dm fP hi unfolding table_mem_def by blast
  moreover have "p \<in> cover F" using a(6) blk_self [of p 6] by blast
  ultimately show ?thesis
    using a(1-3,5) st reserved_left [OF a(1,2)] unfolding run zero_blk_def by blast
qed

lemma table_mem_store:
  assumes tm: "table_mem dm h F A P T" and f: "T 0 q = Some f" "k < 512"
  shows "table_mem dm (store64 (slot dm f k) v h) F A P T" "slot dm f k \<in> table_pages dm P"
proof -
  have inv: "buddy_inv dm h F A" and t: "tables_ok h dm P T" using tm by (simp_all add: table_mem_def)
  have fo: "frame_ok dm f" "f \<in> P" using tables_frame [OF t f(1)] by auto
  show s: "slot dm f k \<in> table_pages dm P"
    using slot_in_cov [OF fo(1) f(2) table_memD(3) [OF tm fo(2)]] fo(2) by (auto simp: table_pages_def)
  have fr: "data_frame {slot dm f k} h (store64 (slot dm f k) v h)"
    by (auto simp: data_frame_def same_at_def same_header_def store64_def)
  have "buddy_inv dm (store64 (slot dm f k) v h) F A"
    by (rule buddy_inv_frame [OF inv fr]) (use s table_memD(4) [OF tm] in blast)
  then show "table_mem dm (store64 (slot dm f k) v h) F A P T"
    using tm store_leaf(1) [OF t f] unfolding table_mem_def by blast
qed

lemma populate_page_ok:
  assumes tm: "table_mem dm h F A P T" and g: "T 0 (page_no a div 512) \<noteq> None"
  shows "walk_entry dm h (page_no a) AND IA32_PG_P \<noteq> 0 \<Longrightarrow> virt_populate_page dm uend user global a h = Some h"
    "walk_entry dm h (page_no a) AND IA32_PG_P = 0 \<Longrightarrow> 0 < m_reserved_pages h \<Longrightarrow>
     \<exists>h' F' p. virt_populate_page dm uend user global a h = Some h' \<and> table_mem dm h' F' (insert (p, 6) A) P T \<and>
       (p, 6) \<notin> A \<and> (\<forall>w\<in>blk (p, 6). no_data h' w) \<and> m_reserved_pages h' = m_reserved_pages h - 1 \<and>
       (\<forall>n<2 ^ 36. n \<noteq> page_no a \<longrightarrow> walk_entry dm h' n = walk_entry dm h n) \<and>
       maps_to dm (walk_entry dm h' (page_no a)) p (page_access user global) \<and>
       walk_entry dm h' (page_no a) AND IA32_PG_P \<noteq> 0 \<and>
       (\<forall>w. w \<notin> table_pages dm P \<longrightarrow> same_at h h' w)"
proof -
  let ?n = "page_no a"
  have t: "tables_ok h dm P T" and dm: "dm \<noteq> 0" and hi: "\<And>w. w \<in> cover F \<Longrightarrow> unat (direct_to_phys dm w) < 2 ^ 52"
    using tm by (simp_all add: table_mem_def)
  obtain f where f: "T 0 (?n div 512) = Some f" using g by blast
  let ?s = "slot dm f (?n mod 512)"
  have fo: "frame_ok dm f" "f \<in> P" using tables_frame [OF t f] by auto
  have s: "?s \<noteq> 0" by (rule slot_nonzero [OF fo(1) _ dm]) simp
  have e: "mem64 h ?s = walk_entry dm h ?n" using walk_entry_pte [OF t page_no_bound] f by (simp add: pte_def)
  note pt = virt_get_pte_tables [OF t dm f, of uend]
  show "walk_entry dm h ?n AND IA32_PG_P \<noteq> 0 \<Longrightarrow> virt_populate_page dm uend user global a h = Some h"
    using pt s e by (simp add: virt_populate_page_def Let_def)
  assume absent: "walk_entry dm h ?n AND IA32_PG_P = 0" and r: "0 < m_reserved_pages h"
  from table_mem_alloc [OF tm r] obtain p h1 F' where
    p: "phys_alloc_reserved dm PAGE_SIZE h = Some (p, h1)" "p \<noteq> 0" "(p, 6) \<notin> A"
      "table_mem dm h1 F' (insert (p, 6) A) P T" "\<forall>w\<in>blk (p, 6). no_data h1 w" "p \<in> cover F"
      "m_reserved_pages h1 = m_reserved_pages h - 1" "store_of h1 = store_of h"
    by blast
  let ?e = "direct_to_phys dm p OR page_access user global"
  let ?h = "store64 ?s ?e h1"
  have run: "virt_populate_page dm uend user global a h = Some ?h"
    using pt s e absent p(1,2)
    by (simp add: virt_populate_page_def Let_def page_access_def ac_simps)
  have t1: "tables_ok h1 dm P T" using p(4) by (simp add: table_mem_def)
  have tm': "table_mem dm ?h F' (insert (p, 6) A) P T" and sl: "?s \<in> table_pages dm P"
    using table_mem_store [OF p(4) f] by simp_all
  have t2: "tables_ok ?h dm P T" using tm' by (simp add: table_mem_def)
  have new: "(p, 6) \<notin> (\<lambda>f. (dm + f, 6)) ` P" using tm p(3) by (auto simp: table_mem_def)
  have off: "blk (p, 6) \<inter> table_pages dm P = {}" by (rule table_memD(5) [OF p(4) _ new]) simp
  have keep: "same_at h ?h w" if "w \<notin> table_pages dm P" for w
  proof -
    have "w \<noteq> ?s" using that sl by blast
    then have "same_at h1 ?h w" by (simp add: same_at_def store64_def)
    then show ?thesis using store_same [OF p(8), of w] same_at_trans by blast
  qed
  have clean: "no_data ?h w" if "w \<in> blk (p, 6)" for w
    using no_data_cong [OF keep, of w] no_data_cong [OF store_same [OF p(8)], of w] p(5) off that by blast
  have walk: "walk_entry dm ?h n = (if n = ?n then ?e else walk_entry dm h n)" if "n < 2 ^ 36" for n
  proof -
    have "pte h1 dm T n = pte h dm T n" using p(8) by (simp add: pte_def store_of_def split: option.split)
    moreover have "pte ?h dm T n = (if n = 512 * (?n div 512) + ?n mod 512 then ?e else pte h1 dm T n)"
      by (rule store_leaf(2) [OF t1 f]) simp
    ultimately show ?thesis
      unfolding walk_entry_pte [OF t2 that] walk_entry_pte [OF t that] by (simp del: store64_root)
  qed
  have al: "algn 12 (direct_to_phys dm p)"
  proof -
    have "4096 dvd unat p" "4096 dvd unat dm"
      using table_memD(2) [OF p(4), of p] table_memD(6) [OF tm] by (auto simp: algn_page)
    then have "4096 dvd unat (p - dm)" unfolding unat_sub_if' by (auto intro!: dvd_diff_nat dvd_add)
    then show ?thesis by (simp add: algn_page direct_to_phys_def)
  qed
  show "\<exists>h' F' p. virt_populate_page dm uend user global a h = Some h' \<and> table_mem dm h' F' (insert (p, 6) A) P T \<and>
       (p, 6) \<notin> A \<and> (\<forall>w\<in>blk (p, 6). no_data h' w) \<and> m_reserved_pages h' = m_reserved_pages h - 1 \<and>
       (\<forall>n<2 ^ 36. n \<noteq> ?n \<longrightarrow> walk_entry dm h' n = walk_entry dm h n) \<and>
       maps_to dm (walk_entry dm h' ?n) p (page_access user global) \<and>
       walk_entry dm h' ?n AND IA32_PG_P \<noteq> 0 \<and> (\<forall>w. w \<notin> table_pages dm P \<longrightarrow> same_at h h' w)"
  proof (rule exI [of _ ?h], rule exI [of _ F'], rule exI [of _ p], intro conjI allI ballI impI)
    show "m_reserved_pages ?h = m_reserved_pages h - 1" using p(7) by (simp add: store64_def)
  qed (use run tm' p(3) clean keep walk page_no_bound entry_maps [OF al hi [OF p(6)]] in simp_all)
qed

section \<open>A range\<close>

text \<open>The entries of the pages \<open>M\<close> map clean pages of their own, \<open>pg n\<close> that of \<open>n\<close>; the others are as before, and
  so is all memory but the tables.\<close>

definition populated :: "u64 \<Rightarrow> u64 set \<Rightarrow> u64 \<Rightarrow> nat set \<Rightarrow> (nat \<Rightarrow> ptr) \<Rightarrow> mm \<Rightarrow> mm \<Rightarrow> bool" where
  "populated dm P access M pg h h' \<longleftrightarrow> inj_on pg M \<and>
     (\<forall>n<2 ^ 36. if n \<in> M then maps_to dm (walk_entry dm h' n) (pg n) access \<and> (\<forall>w\<in>blk (pg n, 6). no_data h' w)
       else walk_entry dm h' n = walk_entry dm h n) \<and>
     (\<forall>w. w \<notin> table_pages dm P \<longrightarrow> same_at h h' w)"

lemma populated_none: "populated dm P access {} pg h h"
  by (simp add: populated_def)

lemma populated_first:
  assumes p: "populated dm P access M pg h1 h'" and n: "n \<notin> M" "n < 2 ^ 36" "\<forall>m\<in>M. pg m \<noteq> p"
    and e: "\<forall>m<2 ^ 36. m \<noteq> n \<longrightarrow> walk_entry dm h1 m = walk_entry dm h m" "maps_to dm (walk_entry dm h1 n) p access"
    and c: "\<forall>w\<in>blk (p, 6). no_data h1 w" "blk (p, 6) \<inter> table_pages dm P = {}"
    and s: "\<forall>w. w \<notin> table_pages dm P \<longrightarrow> same_at h h1 w"
  shows "populated dm P access (insert n M) (pg(n := p)) h h'"
  unfolding populated_def
proof (intro conjI allI impI)
  note q = p [unfolded populated_def]
  show "inj_on (pg(n := p)) (insert n M)" using q n(1,3) by (auto simp: inj_on_def)
  show "same_at h h' w" if "w \<notin> table_pages dm P" for w using q s that same_at_trans by blast
  show "if m \<in> insert n M then maps_to dm (walk_entry dm h' m) ((pg(n := p)) m) access \<and>
      (\<forall>w\<in>blk ((pg(n := p)) m, 6). no_data h' w) else walk_entry dm h' m = walk_entry dm h m" if m: "m < 2 ^ 36" for m
  proof (cases "m = n")
    case True
    have "no_data h' w" if "w \<in> blk (p, 6)" for w
      using q c that no_data_cong [of h1 h' w] by blast
    moreover have "walk_entry dm h' n = walk_entry dm h1 n" using q n(1,2) by presburger
    ultimately show ?thesis using True e(2) by simp
  next
    case False
    then show ?thesis using q [THEN conjunct2, THEN conjunct1, rule_format, OF m] e(1) m by simp
  qed
qed

lemma image_upd: "x \<notin> S \<Longrightarrow> (\<lambda>n. ((f(x := p)) n, k)) ` insert x S = insert (p, k) ((\<lambda>n. (f n, k)) ` S)"
  by (force simp: image_iff)

lemma virt_page_next: "virt_page base n (Suc k) + PAGE_SIZE = virt_page base n k"
  by (simp add: virt_page_def algebra_simps)

lemma absent_Suc:
  "absent dm h {n..<n + Suc k} =
     (if walk_entry dm h n AND IA32_PG_P = 0 then insert n (absent dm h {Suc n..<Suc n + k})
      else absent dm h {Suc n..<Suc n + k})"
proof -
  have "{n..<n + Suc k} = insert n {Suc n..<Suc n + k}" by auto
  then show ?thesis by (auto simp: absent_def)
qed

lemma populate_ok:
  assumes "table_mem dm h F A P T" "page_no (virt_page base cnt k) + k \<le> 2 ^ 36"
    and "\<forall>n\<in>{page_no (virt_page base cnt k)..<page_no (virt_page base cnt k) + k}. T 0 (n div 512) \<noteq> None"
    and "card (absent dm h {page_no (virt_page base cnt k)..<page_no (virt_page base cnt k) + k}) \<le> unat (m_reserved_pages h)"
  defines "M \<equiv> absent dm h {page_no (virt_page base cnt k)..<page_no (virt_page base cnt k) + k}"
  shows "\<exists>h' F' pg. virt_pages (virt_populate_page dm uend user global) base cnt k h = Some h' \<and>
    table_mem dm h' F' (A \<union> (\<lambda>n. (pg n, 6)) ` M) P T \<and> (\<lambda>n. (pg n, 6)) ` M \<inter> A = {} \<and>
    populated dm P (page_access user global) M pg h h' \<and>
    unat (m_reserved_pages h') + card M = unat (m_reserved_pages h)"
  using assms(1-4) unfolding M_def
proof (induction k arbitrary: h F A)
  case 0
  have "absent dm h {n..<n + 0} = {}" for n by (simp add: absent_def)
  then show ?case using 0(1) populated_none by fastforce
next
  case (Suc k)
  let ?a = "virt_page base cnt (Suc k)" and ?f = "virt_populate_page dm uend user global"
  let ?n = "page_no ?a" and ?acc = "page_access user global"
  let ?R = "{Suc ?n..<Suc ?n + k}"
  have next_page: "page_no (virt_page base cnt k) = Suc ?n" if "k \<noteq> 0"
    using page_no_Suc [of ?a] Suc.prems(2) that by (simp add: virt_page_next)
  have rng: "{page_no (virt_page base cnt k)..<page_no (virt_page base cnt k) + k} = ?R"
    using next_page by (cases "k = 0") auto
  have top: "page_no (virt_page base cnt k) + k \<le> 2 ^ 36"
    using next_page Suc.prems(2) page_no_bound [of "virt_page base cnt k"] by (cases "k = 0") auto
  have g: "T 0 (?n div 512) \<noteq> None" using Suc.prems(3) by simp
  have rest: "\<forall>n\<in>?R. T 0 (n div 512) \<noteq> None" using Suc.prems(3) by auto
  note one = populate_page_ok [OF Suc.prems(1) g, of uend user global]
  note IH = Suc.IH [OF _ top, unfolded rng, OF _ rest]
  show ?case
  proof (cases "walk_entry dm h ?n AND IA32_PG_P = 0")
    case False
    then have ab: "absent dm h {?n..<?n + Suc k} = absent dm h ?R" by (simp only: absent_Suc if_False)
    have "virt_pages ?f base cnt (Suc k) h = virt_pages ?f base cnt k h" using one(1) [OF False] by simp
    with IH [OF Suc.prems(1)] Suc.prems(4) show ?thesis unfolding ab by simp
  next
    case True
    have fin: "finite (absent dm h ?R)" by (simp add: absent_def)
    have n: "?n \<notin> absent dm h ?R" by (simp add: absent_def)
    have ab: "absent dm h {?n..<?n + Suc k} = insert ?n (absent dm h ?R)" by (simp only: absent_Suc True if_True simp_thms)
    have cd: "card (absent dm h {?n..<?n + Suc k}) = Suc (card (absent dm h ?R))" unfolding ab using fin n by simp
    then have r: "0 < m_reserved_pages h" using Suc.prems(4) by (simp add: word_less_nat_alt)
    from one(2) [OF True r] obtain h1 F1 p where p: "?f ?a h = Some h1" "table_mem dm h1 F1 (insert (p, 6) A) P T"
      "(p, 6) \<notin> A" "\<forall>w\<in>blk (p, 6). no_data h1 w" "m_reserved_pages h1 = m_reserved_pages h - 1"
      "\<forall>n<2 ^ 36. n \<noteq> ?n \<longrightarrow> walk_entry dm h1 n = walk_entry dm h n" "maps_to dm (walk_entry dm h1 ?n) p ?acc"
      "\<forall>w. w \<notin> table_pages dm P \<longrightarrow> same_at h h1 w"
      by blast
    have r1: "unat (m_reserved_pages h1) + 1 = unat (m_reserved_pages h)"
      using p(5) unat_minus_one [of "m_reserved_pages h"] r by (simp add: word_less_nat_alt unat_gt_0)
    have ab1: "absent dm h1 ?R = absent dm h ?R"
    proof -
      have "walk_entry dm h1 m = walk_entry dm h m" if "m \<in> ?R" for m
        using p(6) that Suc.prems(2) by auto
      then show ?thesis by (auto simp: absent_def)
    qed
    have "card (absent dm h1 ?R) \<le> unat (m_reserved_pages h1)"
      unfolding ab1 using cd r1 Suc.prems(4) by linarith
    from IH [OF p(2) this, unfolded ab1] obtain h' F' pg where i: "virt_pages ?f base cnt k h1 = Some h'"
      "table_mem dm h' F' (insert (p, 6) A \<union> (\<lambda>n. (pg n, 6)) ` absent dm h ?R) P T"
      "(\<lambda>n. (pg n, 6)) ` absent dm h ?R \<inter> insert (p, 6) A = {}"
      "populated dm P ?acc (absent dm h ?R) pg h1 h'"
      "unat (m_reserved_pages h') + card (absent dm h ?R) = unat (m_reserved_pages h1)"
      by blast
    let ?pg = "pg(?n := p)"
    have im: "(\<lambda>n. (?pg n, 6 :: nat)) ` absent dm h {?n..<?n + Suc k} = insert (p, 6) ((\<lambda>n. (pg n, 6)) ` absent dm h ?R)"
      unfolding ab by (rule image_upd [OF n])
    have new: "(p, 6) \<notin> (\<lambda>f. (dm + f, 6)) ` P" using Suc.prems(1) p(3) by (auto simp: table_mem_def)
    have "populated dm P ?acc (absent dm h {?n..<?n + Suc k}) ?pg h h'"
      unfolding ab
    proof (rule populated_first [OF i(4) n page_no_bound _ p(6,7,4) _ p(8)])
      show "\<forall>m\<in>absent dm h ?R. pg m \<noteq> p" using i(3) by blast
      show "blk (p, 6) \<inter> table_pages dm P = {}" by (rule table_memD(5) [OF p(2) _ new]) simp
    qed
    moreover have "virt_pages ?f base cnt (Suc k) h = Some h'" using p(1) i(1) by simp
    moreover have "unat (m_reserved_pages h') + card (absent dm h {?n..<?n + Suc k}) = unat (m_reserved_pages h)"
      using i(5) r1 cd by linarith
    moreover have "table_mem dm h' F' (A \<union> (\<lambda>n. (?pg n, 6)) ` absent dm h {?n..<?n + Suc k}) P T"
      unfolding im using i(2) by simp
    moreover have "(\<lambda>n. (?pg n, 6 :: nat)) ` absent dm h {?n..<?n + Suc k} \<inter> A = {}"
      unfolding im using i(3) p(3) by blast
    ultimately show ?thesis by blast
  qed
qed

section \<open>A small machine\<close>

text \<open>Four tables, for the page numbers below 512, and one free page at \<open>0x200000\<close>, which is reserved.\<close>

definition fault_mm :: mm where
  "fault_mm = buddy_set_block_free 0x100000 0x200000 (empty_mm\<lparr>m_total_pages := 5, m_committed_pages := 4,
     m_reserved_pages := 1, g_page_table := 0x101000, hl_first := (\<lambda>_. 0)(6 := 0x200000),
     hn_pprev := (\<lambda>_. H_Addr 0)(0x200000 := H_First 6), bf_level := (\<lambda>_. 0)(0x200000 := 6),
     mem64 := (\<lambda>_. 0)(0x101000 := 0x2003, 0x102000 := 0x3003, 0x103000 := 0x4003)\<rparr>)"

definition fault_free :: "nat \<Rightarrow> ptr list" where
  "fault_free = (\<lambda>_. [])(6 := [0x200000])"

definition fault_frames :: "u64 set" where
  "fault_frames = {0x1000, 0x2000, 0x3000, 0x4000}"

definition fault_blocks :: "block set" where
  "fault_blocks = (\<lambda>f. (0x100000 + f, 6)) ` fault_frames"

definition fault_tables :: tables where
  "fault_tables i q = (if q = 0 \<and> i \<le> 3 then Some (0x4000 - 0x1000 * of_nat i) else None)"

lemma fault_mm_fields:
  "m_available_pages fault_mm = 0" "m_total_pages fault_mm = 5" "m_committed_pages fault_mm = 4"
  "m_reserved_pages fault_mm = 1" "g_page_table fault_mm = 0x101000" "g_page_table_levels fault_mm = 4"
  "mem64 fault_mm = (\<lambda>_. 0)(0x101000 := 0x2003, 0x102000 := 0x3003, 0x103000 := 0x4003)"
  "buddy_lock fault_mm = 0" "hl_first fault_mm = (\<lambda>_. 0)(6 := 0x200000)" "hn_next fault_mm = (\<lambda>_. 0)"
  "hn_pprev fault_mm = (\<lambda>_. H_Addr 0)(0x200000 := H_First 6)" "bf_level fault_mm = (\<lambda>_. 0)(0x200000 := 6)"
  "l_next fault_mm = (\<lambda>_. 0)" "l_prev fault_mm = (\<lambda>_. 0)" "sl_alloc fault_mm = (\<lambda>_. 0)"
  "sl_in_use fault_mm = (\<lambda>_. 0)" "mem8 fault_mm = (\<lambda>_. 0)"
  by (simp_all add: fault_mm_def empty_mm_def buddy_set_block_free_def Let_def)

lemma fault_fset: "fset fault_free = {(0x200000, 6)}"
  by (auto simp: fset_def fault_free_def split: if_splits)

lemma fault_blocks_eq: "fault_blocks = {(0x101000, 6), (0x102000, 6), (0x103000, 6), (0x104000, 6)}"
  by (simp add: fault_blocks_def fault_frames_def)

lemma fault_wf: "wf_blocks (fset fault_free \<union> fault_blocks)"
  by (auto simp: wf_blocks_def pairwise_def fault_fset fault_blocks_eq blk_def cov_def algn_def)

lemma fault_is_free: "algn 6 q \<Longrightarrow> buddy_is_block_free 0x100000 fault_mm q \<longleftrightarrow> q = 0x200000"
  unfolding fault_mm_def
  by (subst is_free_set) (simp_all add: algn_def is_free_bit empty_mm_def)

lemma fault_buddy: "buddy_inv 0x100000 fault_mm fault_free fault_blocks"
proof -
  have a: "algn 6 a" if "(a, l) \<in> fset fault_free \<union> fault_blocks" for a l using wf_block [OF fault_wf that] by simp
  have "buddy_core 0x100000 fault_mm fault_free fault_blocks"
    unfolding buddy_core_def
  proof (intro conjI)
    show "\<forall>l<16. hseg fault_mm (H_First l) (fault_free l) \<and> distinct (fault_free l)"
      by (simp add: fault_free_def fault_mm_fields)
    show "\<forall>(a, l)\<in>fset fault_free. bf_level fault_mm a = of_nat l \<and> buddy_is_block_free 0x100000 fault_mm a"
      using fault_is_free [of "0x200000"] by (simp add: fault_fset fault_mm_fields algn_def)
    show "\<forall>a. algn 6 a \<and> buddy_is_block_free 0x100000 fault_mm a \<longrightarrow> (\<exists>b\<in>fset fault_free \<union> fault_blocks. a \<in> blk b)"
      using fault_is_free by (auto simp: fault_fset)
    show "fset fault_free \<inter> fault_blocks = {}" by (simp add: fault_fset fault_blocks_eq)
  qed (use fault_wf in \<open>simp_all add: algn_def\<close>)
  moreover have "buddy_zero fault_mm fault_free"
    by (auto simp: buddy_zero_def fault_fset fault_mm_fields no_data_def no_header_def blk_def cov_def)
  moreover have "\<forall>(a, l)\<in>fault_blocks. \<not> buddy_is_block_free 0x100000 fault_mm a"
    using fault_is_free by (auto simp: fault_blocks_eq algn_def)
  moreover have "total_free wt fault_free = wt 6" for wt
  proof -
    have "wt l * length (fault_free l) = (if l = 6 then wt 6 else 0)" for l by (simp add: fault_free_def)
    then show ?thesis by (simp add: total_free_def)
  qed
  then have "total_free pages fault_free = 1" "total_free pieces fault_free = 0" by (simp_all add: pages_def pieces_def)
  ultimately show ?thesis
    by (simp add: buddy_inv_def fault_mm_fields acct_ok_def free_pages_def handed_out_def fault_blocks_eq)
qed

lemma fault_tables_ok: "tables_ok fault_mm 0x100000 fault_frames fault_tables"
  unfolding tables_ok_def
proof (intro conjI allI impI)
  have lv: "i = 0 \<or> i = 1 \<or> i = 2 \<or> i = 3" if "fault_tables i q = Some f" for i q f
    using that by (auto simp: fault_tables_def split: if_splits)
  note T = fault_tables_def fault_frames_def frame_ok_def
  show "\<exists>r. fault_tables 3 0 = Some r \<and> g_page_table fault_mm = 0x100000 + r" by (simp add: T fault_mm_fields)
  show "i \<le> 3" "f \<in> fault_frames" "frame_ok 0x100000 f" if "fault_tables i q = Some f" for i q f
    using lv [OF that] that by (auto simp: T split: if_splits)
  show "i = j" "q = p" if "fault_tables i q = Some f \<and> fault_tables j p = Some f" for i q f j p
    using lv [of i q f] lv [of j p f] that by (auto simp: T split: if_splits)
  show "entry_ok (fault_tables i (512 * q + k)) (mem64 fault_mm (slot 0x100000 f k))"
    if "fault_tables (Suc i) q = Some f \<and> k < 512" for i q f k
  proof -
    have q: "q = 0" "f = 0x4000 - 0x1000 * of_nat (Suc i)" "i < 3" using that by (auto simp: T split: if_splits)
    have f: "frame_ok 0x100000 f" using lv [of "Suc i" q f] that by (auto simp: T split: if_splits)
    have s: "(slot 0x100000 f k = 0x100000 + g) = (f = g \<and> k = 0)" if "frame_ok 0x100000 g" for g
      using slot_inj [OF f _ that, of k 0] \<open>_ \<and> k < 512\<close> by (auto simp: slot_def)
    have s: "(slot 0x100000 f k = 0x101000) = (f = 0x1000 \<and> k = 0)"
      "(slot 0x100000 f k = 0x102000) = (f = 0x2000 \<and> k = 0)"
      "(slot 0x100000 f k = 0x103000) = (f = 0x3000 \<and> k = 0)"
      using s [of "0x1000"] s [of "0x2000"] s [of "0x3000"] by (simp_all add: frame_ok_def)
    have m: "mem64 fault_mm (slot 0x100000 f k) = (if k \<noteq> 0 then 0 else if f = 0x1000 then 0x2003
        else if f = 0x2000 then 0x3003 else if f = 0x3000 then 0x4003 else 0)"
      unfolding fault_mm_fields fun_upd_apply s by simp
    have "i = 0 \<or> i = 1 \<or> i = 2" using q(3) by auto
    then show ?thesis unfolding m unfolding q(1,2)
      by (elim disjE) (simp_all add: entry_ok_def fault_tables_def IA32_PG_P_def PAGING_4K_ADDRESS_MASK_def)
  qed
  show "fault_tables (Suc i) (q div 512) \<noteq> None" if "fault_tables i q = Some f \<and> i < 3" for i q f
    using that by (auto simp: T split: if_splits)
qed (simp add: fault_mm_fields)

lemma fault_mem: "table_mem 0x100000 fault_mm fault_free fault_blocks fault_frames fault_tables"
  unfolding table_mem_def
proof (intro conjI ballI)
  show "(0x100000 + f, 6) \<in> fault_blocks" if "f \<in> fault_frames" for f using that by (auto simp: fault_blocks_def)
  show "unat (direct_to_phys 0x100000 w) < 2 ^ 52" if "w \<in> cover fault_free" for w
  proof -
    have w: "w \<in> cov 12 0x200000" using that by (simp add: cover_def fault_fset blk_def)
    then have "unat w < 0x201000" using in_page [of "0x200000" w] by (simp add: algn_def)
    then show ?thesis unfolding direct_to_phys_def unat_sub_if'
      using w in_page [of "0x200000" w] by (simp add: algn_def)
  qed
qed (use fault_buddy fault_tables_ok in simp_all)

lemma fault_entry: "walk_entry 0x100000 fault_mm 1 = 0"
proof -
  have "pte fault_mm 0x100000 fault_tables 1 = 0"
    by (simp add: pte_def fault_tables_def fault_mm_fields slot_def)
  then show ?thesis using walk_entry_pte [OF fault_tables_ok, of 1] by simp
qed

lemma fault_absent: "absent 0x100000 fault_mm {Suc 0} = {Suc 0}"
  using fault_entry by (auto simp: absent_def)

section \<open>The property\<close>

text \<open>C9: Populating a range whose tables exist and whose missing pages are reserved never fails an assertion.
  Each missing page is mapped by the processor's walk to a page of memory of its own, newly handed out and
  cleared, writable, not executable, global and open to the user as asked; the pages that were there,
  and all other memory, stay as they were; and as many reserved pages are used.\<close>

theorem virt_populate_correct:
  assumes "table_mem dm h F A P T" "page_no base + unat page_count \<le> 2 ^ 36"
    and "N = {page_no base..<page_no base + unat page_count}" "\<forall>n\<in>N. T 0 (n div 512) \<noteq> None"
    and "card (absent dm h N) \<le> unat (m_reserved_pages h)"
  shows "\<exists>h' F' pg. virt_populate dm uend base page_count global h = Some h' \<and>
    table_mem dm h' F' (A \<union> (\<lambda>n. (pg n, 6)) ` absent dm h N) P T \<and> (\<lambda>n. (pg n, 6)) ` absent dm h N \<inter> A = {} \<and>
    populated dm P (page_access (virt_is_user_address uend base) global) (absent dm h N) pg h h' \<and>
    unat (m_reserved_pages h') + card (absent dm h N) = unat (m_reserved_pages h)"
proof -
  have "virt_page base page_count (unat page_count) = base" by (simp add: virt_page_def)
  with populate_ok [of dm h F A P T base page_count "unat page_count"] assms show ?thesis
    by (simp add: virt_populate_def Let_def)
qed

lemma virt_populate_witness:
  "\<exists>h' p. virt_populate 0x100000 0x10000 0x1000 1 False fault_mm = Some h' \<and>
     maps_to 0x100000 (walk_entry 0x100000 h' 1) p (page_access True False) \<and> m_reserved_pages h' = 0"
proof -
  have n: "page_no 0x1000 = 1" by (simp add: page_no_def)
  have u: "virt_is_user_address 0x10000 0x1000" by (simp add: virt_is_user_address_def)
  have one: "{Suc 0..<2} = {Suc 0}" by auto
  obtain h' pg where h': "virt_populate 0x100000 0x10000 0x1000 1 False fault_mm = Some h'"
    "populated 0x100000 fault_frames (page_access True False) {1} pg fault_mm h'" "m_reserved_pages h' = 0"
    using virt_populate_correct [OF fault_mem, of "0x1000" 1 "{1}" "0x10000" False] one
    by (auto simp: n u fault_absent fault_tables_def fault_mm_fields unat_eq_0)
  have "maps_to 0x100000 (walk_entry 0x100000 h' 1) (pg 1) (page_access True False)"
    using h'(2) unfolding populated_def by (auto dest!: spec [of _ 1])
  with h'(1,3) show ?thesis by blast
qed

end
