(* ===== verification/Page_Fault.thy ===== *)
theory Page_Fault
  imports Vmar_Find Stacks Vmar_Props Virt_Props
begin

text \<open>The page fault handler on a tree of vmars: which faults it serves, what the processor's walk finds at
  the address then, and that the others leave everything as it was.\<close>

section \<open>The mapping at an address\<close>

lemma set_vmar_lock_same: "m_vmar_lock (vs h) = l \<Longrightarrow> set_vmar_lock l h = h"
proof -
  assume "m_vmar_lock (vs h) = l"
  then have "(vs h)\<lparr>m_vmar_lock := l\<rparr> = vs h" by (intro vmars.equality) simp_all
  then show ?thesis by (intro rb_heap.equality) (simp_all add: set_vmar_lock_def on_vs_def)
qed

lemma set_vmar_lock_twice [simp]: "set_vmar_lock l (set_vmar_lock l' h) = set_vmar_lock l h"
  by (simp add: set_vmar_lock_def on_vs_def comp_def)

lemma vspace_lock [simp]: "vspace (set_vmar_lock l h) t = vspace h t"
  by (induction t) auto

lemma leaf_at_lock [simp]: "leaf_at (z\<lparr>m_vmar_lock := l\<rparr>) a t = leaf_at z a t"
  by (simp add: leaf_at_def contains_def [abs_def])

lemma vmar_lock_shared_free [simp]:
  "m_vmar_lock (vs h) = 0 \<Longrightarrow> vmar_lock_shared h = Some (set_vmar_lock RWLOCK_ONE_READER h)"
  by (simp add: vmar_lock_shared_def set_vmar_lock_def rwlock_defs RWLOCK_ONE_READER_def RWLOCK_READERS_MASK_def
    RWLOCK_WRITER_BIT_def)

lemma vmar_unlock_shared_held [simp]:
  "m_vmar_lock (vs h) = RWLOCK_ONE_READER \<Longrightarrow> vmar_unlock_shared h = Some (set_vmar_lock 0 h)"
  by (simp add: vmar_unlock_shared_def set_vmar_lock_def rwlock_defs RWLOCK_ONE_READER_def RWLOCK_READERS_MASK_def
    RWLOCK_WRITER_BIT_def RWLOCK_PARKED_BIT_def RWLOCK_WRITER_PARKED_BIT_def)

text \<open>A mapping that was found: a reference is held, and its lock.\<close>

definition hold :: "ptr \<Rightarrow> kstate \<Rightarrow> kstate" where
  "hold v h = on_vs (\<lambda>z. z\<lparr>ob_ref_count := (ob_ref_count (vs h))(v := ob_ref_count (vs h) v + 1),
     vm_table_lock := (vm_table_lock (vs h))(v := 1)\<rparr>) h"

lemma find_mapping_ok:
  assumes t: "vspace h (Region_Vmar r ts)" and lock: "m_vmar_lock (vs h) = 0"
    and v: "v = leaf_at (vs h) a (Region_Vmar r ts)" "v \<noteq> 0 \<longrightarrow> vm_table_lock (vs h) v = 0"
  shows "vmar_find_mapping r a h =
    (if v = 0 \<or> vm_kind (vs h) v \<noteq> VMAR_KIND_MAPPING then Some (0, h) else Some (v, hold v h))"
proof -
  let ?h = "set_vmar_lock RWLOCK_ONE_READER h"
  have leaf: "vmar_find_leaf ?h r a = Some v"
    using find_leaf_ok [of ?h "Region_Vmar r ts" r ts a] t v(1) by simp
  show ?thesis
  proof (cases "v = 0 \<or> vm_kind (vs h) v \<noteq> VMAR_KIND_MAPPING")
    case True
    then have "vmar_find_mapping r a h = Some (0, set_vmar_lock 0 h)"
      using lock leaf by (simp add: vmar_find_mapping_def)
    then show ?thesis using True set_vmar_lock_same [OF lock] by simp
  next
    case False
    have "set_vmar_lock 0 (on_vs (\<lambda>z. z\<lparr>vm_table_lock := (vm_table_lock z)(v := 1)\<rparr>) (object_get v ?h)) = hold v h"
      using lock by (intro rb_heap.equality)
        (auto simp: set_vmar_lock_def object_get_def hold_def on_vs_def intro!: vmars.equality)
    then have "vmar_find_mapping r a h = Some (v, hold v h)"
      using lock leaf False v(2)
      by (simp add: vmar_find_mapping_def table_lock_def mutex_lock_eq object_get_def)
    then show ?thesis using False by simp
  qed
qed

lemma table_unlock_hold:
  "table_unlock v (hold v h) = Some (on_vs (\<lambda>z. z\<lparr>ob_ref_count := (ob_ref_count (vs h))(v := ob_ref_count (vs h) v + 1),
     vm_table_lock := (vm_table_lock (vs h))(v := 0)\<rparr>) h)"
  by (simp add: table_unlock_def hold_def mutex_unlock_eq on_vs_def comp_def)

lemma release_hold:
  assumes "vm_table_lock (vs h) v = 0" "ob_ref_count (vs h) v \<noteq> 0" "ob_ref_count (vs h) v + 1 \<noteq> 0"
  shows "do { h \<leftarrow> table_unlock v (hold v h); h \<leftarrow> vmar_put v h; Some (e, h) } = Some (e, h)"
proof -
  let ?h1 = "on_vs (\<lambda>z. z\<lparr>ob_ref_count := (ob_ref_count (vs h))(v := ob_ref_count (vs h) v + 1),
     vm_table_lock := (vm_table_lock (vs h))(v := 0)\<rparr>) h"
  have "1 \<le> ob_ref_count (vs h) v + 1" using assms(3) by (simp add: word_le_nat_alt Suc_le_eq unat_gt_0)
  then have "vmar_put v ?h1 = Some (on_vs (\<lambda>z. z\<lparr>ob_ref_count := (ob_ref_count z)(v := ob_ref_count (vs h) v)\<rparr>) ?h1)"
    using assms(2) by (simp add: vmar_put_def object_put_def Let_def)
  moreover have "on_vs (\<lambda>z. z\<lparr>ob_ref_count := (ob_ref_count z)(v := ob_ref_count (vs h) v)\<rparr>) ?h1 = h"
    using assms(1) by (intro rb_heap.equality) (auto simp: on_vs_def intro!: vmars.equality)
  ultimately show ?thesis by (simp add: table_unlock_hold)
qed

text \<open>Memory may change while the mapping is held.\<close>

definition set_phys :: "mm \<Rightarrow> kstate \<Rightarrow> kstate" where
  "set_phys m h = on_vs (phys_mem_update (\<lambda>_. m)) h"

lemma set_phys_hold: "set_phys m (hold v h) = hold v (set_phys m h)"
  by (intro rb_heap.equality) (simp_all add: set_phys_def hold_def on_vs_def)

lemma set_phys_fields [simp]:
  "ob_ref_count (vs (set_phys m h)) = ob_ref_count (vs h)" "vm_table_lock (vs (set_phys m h)) = vm_table_lock (vs h)"
  by (simp_all add: set_phys_def)

lemma on_mem_hold:
  "on_mem f (hold v h) = map_option (\<lambda>m. hold v (set_phys m h)) (f (phys_mem (vs h)))"
proof -
  have "phys_mem (vs (hold v h)) = phys_mem (vs h)" by (simp add: hold_def)
  then show ?thesis
    unfolding on_mem_def by (cases "f (phys_mem (vs h))") (simp_all add: set_phys_hold [symmetric], simp add: set_phys_def)
qed

lemma hold_fields [simp]:
  "vm_locked (vs (hold v h)) = vm_locked (vs h)" "dm_base (hold v h) = dm_base h" "user_end (hold v h) = user_end h"
  by (simp_all add: hold_def dm_base_def user_end_def vmar_end_def)

section \<open>The handler\<close>

definition pf_valid :: "u64 \<Rightarrow> bool" where
  "pf_valid ec \<longleftrightarrow>
     ec AND (IA32_PF_EC_USER OR IA32_PF_EC_WRITE OR IA32_PF_EC_PROT OR IA32_PF_EC_INSTR) = ec"

definition pf_root :: "kstate \<Rightarrow> ptr \<Rightarrow> u64 \<Rightarrow> ptr" where
  "pf_root h addr ec =
     (if ec AND IA32_PF_EC_USER \<noteq> 0 \<or> addr < vm_base (vs h) (g_kernel_region (vs h))
      then g_user_region (vs h) else g_kernel_region (vs h))"

text \<open>The fault is that of an access to a page of a mapping which is not there yet.\<close>

definition pf_served :: "kstate \<Rightarrow> u64 \<Rightarrow> ptr \<Rightarrow> bool" where
  "pf_served h ec v \<longleftrightarrow> v \<noteq> 0 \<and> vm_kind (vs h) v = VMAR_KIND_MAPPING \<and>
     ec AND IA32_PF_EC_PROT = 0 \<and> ec AND IA32_PF_EC_INSTR = 0"

text \<open>Nobody else is working on the mapping, which somebody has a reference to.\<close>

definition idle_vmar :: "kstate \<Rightarrow> ptr \<Rightarrow> bool" where
  "idle_vmar h v \<longleftrightarrow> vm_table_lock (vs h) v = 0 \<and> ob_ref_count (vs h) v \<noteq> 0 \<and> ob_ref_count (vs h) v + 1 \<noteq> 0"

lemma handler_ok:
  assumes t: "vspace h (Region_Vmar (pf_root h addr ec) ts)" and lock: "m_vmar_lock (vs h) = 0"
    and v: "v = leaf_at (vs h) addr (Region_Vmar (pf_root h addr ec) ts)" "v \<noteq> 0 \<Longrightarrow> idle_vmar h v"
  shows "virt_page_fault_handler addr ec h =
    (if \<not> pf_valid ec then Some (INTERNAL_ERROR, h)
     else if pf_served h ec v then map_option (\<lambda>m. (SUCCESS, set_phys m h))
       (virt_populate (dm_base h) (user_end h) addr 1 (vm_locked (vs h) v) (phys_mem (vs h)))
     else if ec AND IA32_PF_EC_USER \<noteq> 0 then None
     else Some (INTERNAL_ERROR, h))"
proof (cases "pf_valid ec")
  case False
  then show ?thesis by (simp add: virt_page_fault_handler_def pf_valid_def)
next
  case True
  have "v \<noteq> 0 \<longrightarrow> vm_table_lock (vs h) v = 0" using v(2) by (simp add: idle_vmar_def)
  note find = find_mapping_ok [OF t lock v(1) this]
  have run: "virt_page_fault_handler addr ec h = do {
      (vmar, h) \<leftarrow> vmar_find_mapping (pf_root h addr ec) addr h;
      if vmar = 0 then do { err \<leftarrow> check_kill ec; Some (err, h) }
      else do {
        (err, h) \<leftarrow>
          (if ec AND IA32_PF_EC_PROT \<noteq> 0 \<or> ec AND IA32_PF_EC_INSTR \<noteq> 0 then do {
             err \<leftarrow> check_kill ec; Some (err, h) }
           else do {
             h \<leftarrow> on_mem (virt_populate (dm_base h) (user_end h) addr 1 (vm_locked (vs h) vmar)) h;
             Some (SUCCESS, h) });
        h \<leftarrow> table_unlock vmar h;
        h \<leftarrow> vmar_put vmar h;
        Some (err, h) } }"
    using True by (simp add: virt_page_fault_handler_def pf_valid_def pf_root_def Let_def)
  show ?thesis
  proof (cases "v = 0 \<or> vm_kind (vs h) v \<noteq> VMAR_KIND_MAPPING")
    case none: True
    then have "\<not> pf_served h ec v" by (auto simp: pf_served_def)
    then show ?thesis using True none unfolding run find by (simp add: check_kill_def)
  next
    case mapped: False
    then have idle: "vm_table_lock (vs h) v = 0" "ob_ref_count (vs h) v \<noteq> 0" "ob_ref_count (vs h) v + 1 \<noteq> 0"
      using v(2) by (simp_all add: idle_vmar_def)
    show ?thesis
    proof (cases "ec AND IA32_PF_EC_PROT \<noteq> 0 \<or> ec AND IA32_PF_EC_INSTR \<noteq> 0")
      case prot: True
      then have "\<not> pf_served h ec v" by (auto simp: pf_served_def)
      then show ?thesis using True mapped prot release_hold [OF idle, of INTERNAL_ERROR]
        unfolding run find by (simp add: check_kill_def)
    next
      case False
      note rel = release_hold [of "set_phys m h" v SUCCESS for m, unfolded set_phys_fields, OF idle]
      have "pf_served h ec v" using mapped False by (simp add: pf_served_def)
      then show ?thesis using True mapped False
        unfolding run find
        by (cases "virt_populate (dm_base h) (user_end h) addr 1 (vm_locked (vs h) v) (phys_mem (vs h))")
          (simp_all add: on_mem_hold rel)
    qed
  qed
qed

section \<open>The page\<close>

text \<open>What populating the page of an address needs: its tables, and a reserved page if it is missing.\<close>

definition page_ready :: "u64 \<Rightarrow> mm \<Rightarrow> ptr \<Rightarrow> (nat \<Rightarrow> ptr list) \<Rightarrow> block set \<Rightarrow> u64 set \<Rightarrow> tables \<Rightarrow> bool" where
  "page_ready dm m addr F A P T \<longleftrightarrow> table_mem dm m F A P T \<and> T 0 (page_no addr div 512) \<noteq> None \<and>
     (walk_entry dm m (page_no addr) AND IA32_PG_P = 0 \<longrightarrow> 0 < m_reserved_pages m)"

text \<open>What it gives: the walk finds a page, a new and cleared one if it was missing, and for no other page
  number anything has changed.\<close>

definition page_there :: "u64 \<Rightarrow> ptr \<Rightarrow> block set \<Rightarrow> u64 set \<Rightarrow> tables \<Rightarrow> u64 \<Rightarrow> mm \<Rightarrow> mm \<Rightarrow> bool" where
  "page_there dm addr A P T access m m' \<longleftrightarrow> (\<exists>F' fresh. let M = absent dm m {page_no addr} in
     table_mem dm m' F' (A \<union> (\<lambda>n. (fresh n, 6)) ` M) P T \<and> (\<lambda>n. (fresh n, 6)) ` M \<inter> A = {} \<and>
     populated dm P access M fresh m m' \<and> walk_entry dm m' (page_no addr) AND IA32_PG_P \<noteq> 0)"

lemma present_after:
  assumes "populated dm P (page_access user global) (absent dm m {n}) fresh m m'" "n < 2 ^ 36"
  shows "walk_entry dm m' n AND IA32_PG_P \<noteq> 0"
proof -
  note one = assms(1) [unfolded populated_def, THEN conjunct2, THEN conjunct1, rule_format, OF assms(2)]
  show ?thesis
  proof (cases "n \<in> absent dm m {n}")
    case False
    then have "walk_entry dm m' n = walk_entry dm m n" using one by simp
    then show ?thesis using False by (simp add: absent_def)
  next
    case True
    let ?e = "walk_entry dm m' n"
    have e: "?e AND NOT PAGING_4K_ADDRESS_MASK = page_access user global"
      using one True by (simp add: maps_to_def)
    have "NOT PAGING_4K_ADDRESS_MASK AND IA32_PG_P = IA32_PG_P" by (simp add: PAGING_4K_ADDRESS_MASK_def IA32_PG_P_def)
    then have "?e AND IA32_PG_P = (?e AND NOT PAGING_4K_ADDRESS_MASK) AND IA32_PG_P" by (simp add: and.assoc)
    also have "\<dots> = 1" unfolding e page_access_bits by (simp add: IA32_PG_P_def)
    finally show ?thesis by simp
  qed
qed

lemma populate_one:
  assumes "page_ready dm m addr F A P T"
  shows "\<exists>m'. virt_populate dm uend addr 1 global m = Some m' \<and>
    page_there dm addr A P T (page_access (virt_is_user_address uend addr) global) m m'"
proof -
  let ?M = "absent dm m {page_no addr}" and ?acc = "page_access (virt_is_user_address uend addr) global"
  have b: "virt_page addr 1 (Suc 0) = addr" by (simp add: virt_page_def)
  have n: "{page_no addr..<page_no addr + Suc 0} = {page_no addr}" by auto
  have "card ?M \<le> unat (m_reserved_pages m)"
  proof (cases "?M = {}")
    case False
    then have "?M = {page_no addr}" "0 < m_reserved_pages m" using assms by (auto simp: absent_def page_ready_def)
    then show ?thesis by (simp add: word_less_nat_alt)
  qed simp
  with populate_ok [of dm m F A P T addr 1 "Suc 0" uend "virt_is_user_address uend addr" global] assms
    page_no_bound [of addr]
  obtain m' F' fresh where m': "virt_populate dm uend addr 1 global m = Some m'"
    "table_mem dm m' F' (A \<union> (\<lambda>n. (fresh n, 6)) ` ?M) P T" "(\<lambda>n. (fresh n, 6)) ` ?M \<inter> A = {}"
    "populated dm P ?acc ?M fresh m m'"
    unfolding b n by (auto simp: page_ready_def virt_populate_def Let_def)
  with present_after [OF m'(4) page_no_bound] show ?thesis by (auto simp: page_there_def Let_def)
qed

section \<open>A user space\<close>

text \<open>A region of 16 pages with a mapping of the first two, as the user's, over the memory \<open>fault_mm\<close>.\<close>

definition user_space :: "kstate \<Rightarrow> kstate" where
  "user_space = on_vs (\<lambda>z. z\<lparr>g_user_region := 2, g_direct_map := 3, vm_base := (vm_base z)(3 := 0x100000),
     ob_ref_count := (\<lambda>_. 0)(2 := 1, 0x1000 := 1), vm_table_lock := (\<lambda>_. 0), m_vmar_lock := 0,
     phys_mem := fault_mm\<rparr>)"

lemma user_space:
  obtains h where "vspace h (Region_Vmar (pf_root h 0x1000 6) [Leaf_Vmar 0x1000])" "m_vmar_lock (vs h) = 0"
    "0x1000 = leaf_at (vs h) 0x1000 (Region_Vmar (pf_root h 0x1000 6) [Leaf_Vmar 0x1000])"
    "idle_vmar h 0x1000" "page_ready (dm_base h) (phys_mem (vs h)) 0x1000 fault_free fault_blocks fault_frames fault_tables"
    "pf_served h 6 0x1000" "dm_base h = 0x100000" "phys_mem (vs h) = fault_mm"
proof -
  obtain g where g: "vregion g 2 [0x1000]" "pg (vs g) 0x1000 = 0" "pg_end (vs g) 0x1000 = 2"
    "vm_kind (vs g) 0x1000 = VMAR_KIND_MAPPING" using region_with_mapping by blast
  let ?h = "user_space g"
  have r: "vregion ?h 2 [0x1000]"
    by (rule vregion_fields [OF g(1)]) (auto simp: same_shape_def user_space_def)
  have root: "pf_root ?h 0x1000 6 = 2" by (simp add: pf_root_def user_space_def IA32_PF_EC_USER_def)
  have "pg (vs ?h) 0x1000 = 0" "pg_end (vs ?h) 0x1000 = 2"
    using g(2,3) by (simp_all add: user_space_def pg_def pg_end_def pn_def vmar_first_page_def)
  then have leaf: "leaf_at (vs ?h) 0x1000 (Region_Vmar 2 [Leaf_Vmar 0x1000]) = 0x1000"
    by (simp add: leaf_at_def contains_def vpage_def PAGE_SHIFT_def)
  have "page_no 0x1000 = 1" by (simp add: page_no_def)
  then have "page_ready 0x100000 fault_mm 0x1000 fault_free fault_blocks fault_frames fault_tables"
    using fault_mem by (simp add: page_ready_def fault_tables_def fault_mm_fields)
  then show thesis
    using r leaf g(4) by - (rule that [of ?h], unfold root,
      simp_all add: user_space_def idle_vmar_def pf_served_def dm_base_def IA32_PF_EC_PROT_def IA32_PF_EC_INSTR_def)
qed

section \<open>Properties\<close>

text \<open>C8: The handler looks the address up in the tree of the side it is on.  A fault in a mapping that is not
  one of protection is served: the processor's walk then finds the page of the address, a new and cleared one
  if it was missing, with the access of its side, and nothing else is changed - the locks and the
  reference that were taken are given back.  Any other fault of the kernel (a bad error code, no
  mapping, a protection fault) is refused with \<open>INTERNAL_ERROR\<close> and changes nothing; one of the user
  with a valid error code stops, as killing a thread is not implemented.\<close>

theorem page_fault_handler_correct:
  assumes "vspace h (Region_Vmar (pf_root h addr ec) ts)" "m_vmar_lock (vs h) = 0"
    and "v = leaf_at (vs h) addr (Region_Vmar (pf_root h addr ec) ts)" "v \<noteq> 0 \<Longrightarrow> idle_vmar h v"
    and "pf_served h ec v \<Longrightarrow> page_ready (dm_base h) (phys_mem (vs h)) addr F A P T"
  shows "if \<not> pf_valid ec then virt_page_fault_handler addr ec h = Some (INTERNAL_ERROR, h)
    else if pf_served h ec v then \<exists>m. virt_page_fault_handler addr ec h = Some (SUCCESS, set_phys m h) \<and>
      page_there (dm_base h) addr A P T (page_access (virt_is_user_address (user_end h) addr) (vm_locked (vs h) v))
        (phys_mem (vs h)) m
    else virt_page_fault_handler addr ec h = (if ec AND IA32_PF_EC_USER \<noteq> 0 then None else Some (INTERNAL_ERROR, h))"
  using handler_ok [OF assms(1-4)] populate_one [OF assms(5), of "user_end h" "vm_locked (vs h) v"] by auto

lemma page_fault_handler_witness:
  "\<exists>h m. pf_served h 6 0x1000 \<and> phys_mem (vs h) = fault_mm \<and>
     virt_page_fault_handler 0x1000 6 h = Some (SUCCESS, set_phys m h) \<and>
     walk_entry 0x100000 fault_mm 1 = 0 \<and> walk_entry 0x100000 m 1 AND IA32_PG_P \<noteq> 0"
proof -
  obtain h where h: "vspace h (Region_Vmar (pf_root h 0x1000 6) [Leaf_Vmar 0x1000])" "m_vmar_lock (vs h) = 0"
    "0x1000 = leaf_at (vs h) 0x1000 (Region_Vmar (pf_root h 0x1000 6) [Leaf_Vmar 0x1000])" "idle_vmar h 0x1000"
    "page_ready (dm_base h) (phys_mem (vs h)) 0x1000 fault_free fault_blocks fault_frames fault_tables"
    "pf_served h 6 0x1000" "dm_base h = 0x100000" "phys_mem (vs h) = fault_mm"
    by (rule user_space)
  have "pf_valid 6" by (simp add: pf_valid_def pf_defs)
  with page_fault_handler_correct [OF h(1-3) h(4) h(5)] h(6-8) obtain m where
    "virt_page_fault_handler 0x1000 6 h = Some (SUCCESS, set_phys m h)"
    "walk_entry 0x100000 m (page_no 0x1000) AND IA32_PG_P \<noteq> 0"
    by (auto simp: page_there_def Let_def)
  moreover have "page_no 0x1000 = 1" by (simp add: page_no_def)
  ultimately show ?thesis using h(6,8) fault_entry by auto
qed

text \<open>C39: The lookup of an address ends, however deeply regions are nested, with the leaf that contains
  it, the one a search through all the leaves finds, and with null when there is none.\<close>

theorem vmar_find_leaf_correct:
  assumes "vspace h (Region_Vmar r ts)"
  shows "vmar_find_leaf h r a = Some (leaf_at (vs h) a (Region_Vmar r ts))"
  by (rule find_leaf_ok [OF assms refl])

lemma vmar_find_leaf_witness:
  "\<exists>h. vmar_find_leaf h 2 0x1FFF = Some 0x1000 \<and> vmar_find_leaf h 2 0x2000 = Some 0"
proof -
  obtain h where h: "vregion h 2 [0x1000]" "pg (vs h) 0x1000 = 0" "pg_end (vs h) 0x1000 = 2"
    "vm_kind (vs h) 0x1000 = VMAR_KIND_MAPPING" using region_with_mapping by blast
  then have "vspace h (Region_Vmar 2 [Leaf_Vmar 0x1000])" by simp
  note find = vmar_find_leaf_correct [OF this]
  have "contains (vs h) 0x1FFF 0x1000" "\<not> contains (vs h) 0x2000 0x1000"
    using h(2,3) by (simp_all add: contains_def vpage_def PAGE_SHIFT_def)
  then show ?thesis using find by (intro exI [of _ h]) (simp add: leaf_at_def)
qed

end
