(* ===== verification/Bitfields.thy ===== *)
theory Bitfields
  imports Prelude
begin

text \<open>
  The unions of a word and of a struct of bit-fields, with which \<open>src/arch/\<close> and \<open>src/irq/\<close>
  describe hardware registers.  A layout lists the bit-fields in their order, from the lowest bit
  up, with their widths; a bit-field without a name (padding) has the empty name.  The three ways
  the code uses such a union are reading a field, assigning a field, and the designated
  initializer, which starts from zero.
\<close>

section \<open>Layouts\<close>

type_synonym layout = "(string \<times> nat) list"

definition layout_width :: "layout \<Rightarrow> nat" where
  "layout_width L = sum_list (map snd L)"

text \<open>The lowest bit and the width of a field.\<close>

fun bf_find :: "layout \<Rightarrow> string \<Rightarrow> nat \<Rightarrow> (nat \<times> nat) option" where
  "bf_find [] f off = None"
| "bf_find ((g, w) # L) f off =
     (if f \<noteq> [] \<and> f = g then Some (off, w) else bf_find L f (off + w))"

definition bf_get :: "layout \<Rightarrow> string \<Rightarrow> 'a::len word \<Rightarrow> 'a word" where
  "bf_get L f r =
     (case bf_find L f 0 of None \<Rightarrow> 0 | Some (off, w) \<Rightarrow> take_bit w (drop_bit off r))"

definition bf_set :: "layout \<Rightarrow> string \<Rightarrow> 'a::len word \<Rightarrow> 'a word \<Rightarrow> 'a word" where
  "bf_set L f v r =
     (case bf_find L f 0 of
        None \<Rightarrow> r
      | Some (off, w) \<Rightarrow> (r AND NOT (push_bit off (mask w))) OR push_bit off (take_bit w v))"

definition bf_init :: "layout \<Rightarrow> (string \<times> 'a::len word) list \<Rightarrow> 'a word" where
  "bf_init L fs = fold (\<lambda>(f, v). bf_set L f v) fs 0"

text \<open>All fields of a word in their order, padding included, and the word they make up.\<close>

fun bf_unpack :: "layout \<Rightarrow> 'a::len word \<Rightarrow> 'a word list" where
  "bf_unpack [] r = []"
| "bf_unpack ((f, w) # L) r = take_bit w r # bf_unpack L (drop_bit w r)"

fun bf_pack :: "layout \<Rightarrow> 'a::len word list \<Rightarrow> 'a word" where
  "bf_pack ((f, w) # L) (v # vs) = take_bit w v OR push_bit w (bf_pack L vs)"
| "bf_pack L vs = 0"

section \<open>Where fields lie\<close>

lemma layout_width_simps [simp]:
  "layout_width [] = 0" "layout_width ((f, w) # L) = w + layout_width L"
  by (simp_all add: layout_width_def)

lemma bf_find_range:
  "bf_find L f k = Some (off, w) \<Longrightarrow> k \<le> off \<and> off + w \<le> k + layout_width L"
  by (induction L f k rule: bf_find.induct) (auto split: if_splits)

lemma bf_find_disjoint:
  assumes "bf_find L f k = Some (off, w)" "bf_find L g k = Some (off', w')" "f \<noteq> g"
  shows "off + w \<le> off' \<or> off' + w' \<le> off"
  using assms
proof (induction L f k rule: bf_find.induct)
  case (2 h v L f k)
  then show ?case
    using bf_find_range [of L f "k + v" off w] bf_find_range [of L g "k + v" off' w']
    by (auto split: if_splits)
qed simp

section \<open>Reading and writing\<close>

lemma bit_bf_set:
  assumes "bf_find L f 0 = Some (off, w)"
  shows "bit (bf_set L f v r) n \<longleftrightarrow>
    (if off \<le> n \<and> n < off + w then n < LENGTH('a) \<and> bit v (n - off) else bit (r :: 'a::len word) n)"
  using assms
  by (auto simp: bf_set_def bit_simps dest: bit_imp_le_length)

lemma bit_bf_get:
  assumes "bf_find L f 0 = Some (off, w)"
  shows "bit (bf_get L f r) n \<longleftrightarrow> n < w \<and> bit r (off + n)"
  using assms by (auto simp: bf_get_def bit_simps)

lemma bf_get_set:
  assumes "bf_find L f 0 = Some (off, w)" "layout_width L \<le> LENGTH('a::len)"
  shows "bf_get L f (bf_set L f v r) = take_bit w (v :: 'a word)"
proof (rule bit_word_eqI)
  fix n assume "n < LENGTH('a)"
  have "off + w \<le> LENGTH('a)" using bf_find_range [OF assms(1)] assms(2) by simp
  then show "bit (bf_get L f (bf_set L f v r)) n \<longleftrightarrow> bit (take_bit w v) n"
    by (auto simp: bit_bf_get [OF assms(1)] bit_bf_set [OF assms(1)] bit_simps)
qed

lemma bf_get_set_other:
  assumes "f \<noteq> g"
  shows "bf_get L g (bf_set L f v r) = bf_get L g (r :: 'a::len word)"
proof (cases "bf_find L f 0")
  case None
  then show ?thesis by (simp add: bf_set_def)
next
  case f: (Some p)
  obtain off w where p: "p = (off, w)" by (cases p)
  show ?thesis
  proof (cases "bf_find L g 0")
    case None
    then show ?thesis by (simp add: bf_get_def)
  next
    case g: (Some q)
    obtain off' w' where q: "q = (off', w')" by (cases q)
    note F = f [unfolded p] and G = g [unfolded q]
    show ?thesis
    proof (rule bit_word_eqI)
      fix n
      show "bit (bf_get L g (bf_set L f v r)) n \<longleftrightarrow> bit (bf_get L g r) n"
        using bf_find_disjoint [OF F G assms]
        by (auto simp: bit_bf_get [OF G] bit_bf_set [OF F])
    qed
  qed
qed

lemma bf_pack_unpack:
  "bf_pack L (bf_unpack L r) = take_bit (layout_width L) (r :: 'a::len word)"
proof (induction L r rule: bf_unpack.induct)
  case (2 f w L r)
  show ?case
    by (rule bit_word_eqI) (auto simp: 2 bit_simps)
qed simp

lemma bf_pack_unpack_full:
  "LENGTH('a) \<le> layout_width L \<Longrightarrow> bf_pack L (bf_unpack L r) = (r :: 'a::len word)"
  by (simp add: bf_pack_unpack take_bit_word_eq_self)

end
