(* ===== verification/Registers.thy ===== *)
theory Registers
  imports Bitfields
begin

text \<open>
  The register layouts of the kernel, as bit-field lists: the leaves of \<open>src/arch/cpuid.h\<close>, the
  model specific registers of \<open>src/arch/msr.h\<close>, the local APIC registers of \<open>src/irq/apic.c\<close>, and
  the descriptor and the selector error code of \<open>src/irq/intr.c\<close>.  The names are those of the
  sources; a bit-field without a name has the empty one.
\<close>

section \<open>CPUID leaves\<close>

definition CPUID_VERSION_INFO_ECX :: layout where
  "CPUID_VERSION_INFO_ECX =
    [(''SSE3'', 1), (''PCLMULQDQ'', 1), (''DTES64'', 1), (''MONITOR'', 1), (''DS_CPL'', 1),
     (''VMX'', 1), (''SMX'', 1), (''EIST'', 1), (''TM2'', 1), (''SSSE3'', 1),
     (''L1_CONTEXT_ID'', 1), (''DEBUG_INTERFACE'', 1), (''FMA'', 1), (''CMPXCHG16B'', 1),
     (''XTPR_UPDATE_CONTROL'', 1), (''PERF_CAPABILITIES'', 1), ('''', 1), (''PCID'', 1),
     (''DCA'', 1), (''SSE4_1'', 1), (''SSE4_2'', 1), (''x2APIC'', 1), (''MOVBE'', 1),
     (''POPCNT'', 1), (''TSC_DEADLINE'', 1), (''AESNI'', 1), (''XSAVE'', 1), (''OSXSAVE'', 1),
     (''AVX'', 1), (''F16C'', 1), (''RDRAND'', 1), (''ParaVirtualized'', 1)]"

definition CPUID_VERSION_INFO_EDX :: layout where
  "CPUID_VERSION_INFO_EDX =
    [(''FPU'', 1), (''VME'', 1), (''DE'', 1), (''PSE'', 1), (''TSC'', 1), (''MSR'', 1),
     (''PAE'', 1), (''MCE'', 1), (''CMPXCHG8B'', 1), (''APIC'', 1), ('''', 1), (''SEP'', 1),
     (''MTRR'', 1), (''PGE'', 1), (''MCA'', 1), (''CMOV'', 1), (''PAT'', 1), (''PSE_36'', 1),
     (''PSN'', 1), (''CLFLUSH'', 1), ('''', 1), (''DS'', 1), (''ACPI'', 1), (''MMX'', 1),
     (''FXSR'', 1), (''SSE'', 1), (''SSE2'', 1), (''SELF_SNOOP'', 1), (''HTT'', 1), (''TM'', 1),
     ('''', 1), (''PBE'', 1)]"

definition CPUID_MONITOR_MWAIT_EAX :: layout where
  "CPUID_MONITOR_MWAIT_EAX =
    [(''SMALLEST_MONITOR_LINE_SIZE'', 16), ('''', 16)]"

definition CPUID_MONITOR_MWAIT_EBX :: layout where
  "CPUID_MONITOR_MWAIT_EBX =
    [(''LARGEST_MONITOR_LINE_SIZE'', 16), ('''', 16)]"

definition CPUID_MONITOR_MWAIT_ECX :: layout where
  "CPUID_MONITOR_MWAIT_ECX =
    [(''MONITOR_MWAIT_EXTENSIONS'', 1), (''INTERRUPT_AS_BREAK_EVENT'', 1), ('''', 30)]"

definition CPUID_MONITOR_MWAIT_EDX :: layout where
  "CPUID_MONITOR_MWAIT_EDX =
    [(''C0_SUB_STATES'', 4), (''C1_SUB_STATES'', 4), (''C2_SUB_STATES'', 4),
     (''C3_SUB_STATES'', 4), (''C4_SUB_STATES'', 4), (''C5_SUB_STATES'', 4),
     (''C6_SUB_STATES'', 4), (''C7_SUB_STATES'', 4)]"

definition CPUID_STRUCTURED_EXTENDED_FEATURE_FLAGS_EBX :: layout where
  "CPUID_STRUCTURED_EXTENDED_FEATURE_FLAGS_EBX =
    [(''FSGSBASE'', 1), (''TSC_ADJUST'', 1), (''SGX'', 1), (''BMI1'', 1), (''HLE'', 1),
     (''AVX2'', 1), (''FDP_EXCPTN_ONLY'', 1), (''SMEP'', 1), (''BMI2'', 1),
     (''ENH_REP_MOVSB_STOSB'', 1), (''INVPCID'', 1), (''RTM'', 1), (''RDT_M'', 1),
     (''FCS_FDS_DEPRECATION'', 1), (''MPX'', 1), (''RDT_A'', 1), (''AVX512F'', 1),
     (''AVX512DQ'', 1), (''RDSEED'', 1), (''ADX'', 1), (''SMAP'', 1), (''AVX512_IFMA'', 1),
     ('''', 1), (''CLFLUSHOPT'', 1), (''CLWB'', 1), (''INTEL_PROC_TRACE'', 1), (''AVX512PF'', 1),
     (''AVX512ER'', 1), (''AVX512CD'', 1), (''SHA'', 1), (''AVX512BW'', 1), (''AVX512VL'', 1)]"

definition CPUID_STRUCTURED_EXTENDED_FEATURE_FLAGS_ECX :: layout where
  "CPUID_STRUCTURED_EXTENDED_FEATURE_FLAGS_ECX =
    [(''PREFETCHWT1'', 1), (''AVX512_VBMI'', 1), (''UMIP'', 1), (''PKU'', 1), (''OSPKE'', 1),
     (''WAITPKG'', 1), (''AVX512_VBMI2'', 1), (''CET_SS'', 1), (''GFNI'', 1), (''VAES'', 1),
     (''VPCLMULQDQ'', 1), (''AVX512_VNNI'', 1), (''AVX512_BITALG'', 1), (''TME_EN'', 1),
     (''AVX512_VPOPCNTDQ'', 1), ('''', 1), (''LA57'', 1), (''MPX_MAWAU'', 5), (''RDPID'', 1),
     (''KEY_LOCKER'', 1), (''BUS_LOCK_DETECT'', 1), (''CLDEMOTE'', 1), ('''', 1),
     (''MOVDIRI'', 1), (''MOVDIR64B'', 1), (''ENQCMD'', 1), (''SGX_LC'', 1), (''PKS'', 1)]"

definition CPUID_STRUCTURED_EXTENDED_FEATURE_FLAGS_EDX :: layout where
  "CPUID_STRUCTURED_EXTENDED_FEATURE_FLAGS_EDX =
    [('''', 1), (''SGX_KEYS'', 1), (''AVX512_4VNNIW'', 1), (''AVX512_4FMAPS'', 1),
     (''FAST_SHORT_REP_MOVSB'', 1), (''UINTR'', 1), ('''', 2), (''AVX512_VP2INTERSECT'', 1),
     (''MCU_OPT_CTRL'', 1), (''MD_CLEAR'', 1), (''RTM_ALWAYS_ABORT'', 1), ('''', 1),
     (''RTM_FORCE_ABORT'', 1), (''SERIALIZE'', 1), (''HYBRID'', 1), (''TSXLDTRK'', 1), ('''', 1),
     (''PCONFIG'', 1), (''ARCH_LBRS'', 1), (''CET_IBT'', 1), ('''', 1), (''AMX_BF16'', 1),
     (''AVX512_FP16'', 1), (''AMX_TILE'', 1), (''AMX_INT8'', 1), (''IBRS_IBPB'', 1),
     (''SPEC_CTRL_ST_PREDICTORS'', 1), (''L1D_FLUSH_INTERFACE'', 1), (''ARCH_CAPABILITIES'', 1),
     (''CORE_CAPABILITIES'', 1), (''SPEC_CTRL_SSBD'', 1)]"

definition CPUID_EXTENDED_STATE_MAIN_LEAF_EAX :: layout where
  "CPUID_EXTENDED_STATE_MAIN_LEAF_EAX =
    [(''x87'', 1), (''SSE'', 1), (''AVX'', 1), (''MPX_BNDREGS'', 1), (''MPX_BNDCSR'', 1),
     (''AVX512_OPMASK'', 1), (''AVX512_ZMM_HI256'', 1), (''AVX512_HI16_ZMM'', 1), ('''', 1),
     (''PKRU'', 1), ('''', 7), (''AMX_TILECFG'', 1), (''AMX_TILEDATA'', 1), ('''', 13)]"

definition CPUID_EXTENDED_STATE_SUB_LEAF_EAX :: layout where
  "CPUID_EXTENDED_STATE_SUB_LEAF_EAX =
    [(''XSAVEOPT'', 1), (''XSAVEC'', 1), (''XGETBV1'', 1), (''XSAVES'', 1), (''XFD'', 1),
     ('''', 27)]"

definition CPUID_EXTENDED_STATE_SUB_LEAF_ECX :: layout where
  "CPUID_EXTENDED_STATE_SUB_LEAF_ECX =
    [('''', 8), (''PT'', 1), ('''', 1), (''PASID'', 1), (''CET_U'', 1), (''CET_S'', 1),
     (''HDC'', 1), (''UINTR'', 1), (''LBR'', 1), (''HWP'', 1), ('''', 15)]"

definition CPUID_EXTENDED_CPU_SIG_ECX :: layout where
  "CPUID_EXTENDED_CPU_SIG_ECX =
    [(''LAHF_SAHF_64'', 1), ('''', 4), (''LZCNT'', 1), ('''', 2), (''PREFETCHW'', 1), ('''', 23)]"

definition CPUID_EXTENDED_CPU_SIG_EDX :: layout where
  "CPUID_EXTENDED_CPU_SIG_EDX =
    [('''', 11), (''SYSCALL_SYSRET_64'', 1), ('''', 8), (''EXECUTE_DIS'', 1), ('''', 5),
     (''PAGE_1GB'', 1), (''RDTSCP'', 1), ('''', 1), (''INTEL64'', 1), ('''', 2)]"

definition CPUID_EXTENDED_TIME_STAMP_COUNTER_EDX :: layout where
  "CPUID_EXTENDED_TIME_STAMP_COUNTER_EDX =
    [('''', 8), (''TSC_INVARIANT'', 1), ('''', 23)]"

definition CPUID_VIR_PHY_ADDRESS_SIZE_EAX :: layout where
  "CPUID_VIR_PHY_ADDRESS_SIZE_EAX =
    [(''PHYS_ADDR_SIZE'', 8), (''LIN_ADDR_SIZE'', 8), (''GUEST_PHYS_ADDR_SIZE'', 8), ('''', 8)]"

definition CPUID_KVM_FEATURES_EAX :: layout where
  "CPUID_KVM_FEATURES_EAX =
    [(''CLOCKSOURCE'', 1), (''NOP_IO_DELAY'', 1), (''MMU_OP'', 1), (''CLOCKSOURCE2'', 1),
     (''ASYNC_PF'', 1), (''STEAL_TIME'', 1), (''PV_EOI'', 1), (''PV_UNHALT'', 1),
     (''PV_TLB_FLUSH'', 1), (''ASYNC_PF_VMEXIT'', 1), (''PV_SEND_IPI'', 1),
     (''POLL_CONTROL'', 1), (''PV_SCHED_YIELD'', 1), (''ASYNC_PF_INT'', 1),
     (''MSI_EXT_DEST_ID'', 1), (''HC_MAP_GPA_RANGE'', 1), (''MIGRATION_CONTROL'', 1), ('''', 1),
     ('''', 1), ('''', 1), ('''', 1), ('''', 1), ('''', 1), ('''', 1),
     (''CLOCKSOURCE_STABLE_BIT'', 1), ('''', 1), ('''', 1), ('''', 1), ('''', 1), ('''', 1),
     ('''', 1), ('''', 1)]"

section \<open>Model specific registers\<close>

definition MSR_IA32_APIC_BASE_REGISTER :: layout where
  "MSR_IA32_APIC_BASE_REGISTER =
    [('''', 8), (''bsp'', 1), ('''', 1), (''extd'', 1), (''en'', 1), (''apic_base'', 52)]"

definition MSR_IA32_EFER_REGISTER :: layout where
  "MSR_IA32_EFER_REGISTER =
    [(''sce'', 1), ('''', 7), (''lme'', 1), ('''', 1), (''lma'', 1), (''nxe'', 1), ('''', 20),
     ('''', 32)]"

definition MSR_IA32_CET_REGISTER :: layout where
  "MSR_IA32_CET_REGISTER =
    [(''SH_STK_EN'', 1), (''WR_SHSTK_EN'', 1), (''ENDBR_EN'', 1), (''LEG_IW_EN'', 1),
     (''NO_TRACK_EN'', 1), (''SUPPRESS_DIS'', 1), ('''', 4), (''SUPPRESS'', 1), (''TRACKER'', 1),
     (''EB_LEG_BITMAP_BASE'', 52)]"

section \<open>Local APIC\<close>

definition LOCAL_APIC_SVR :: layout where
  "LOCAL_APIC_SVR =
    [(''spurious_vector'', 8), (''software_enable'', 1), (''focus_processor_checking'', 1),
     ('''', 2), (''eoi_broadcast_suppression'', 1), ('''', 19)]"

definition LOCAL_APIC_DCR :: layout where
  "LOCAL_APIC_DCR =
    [(''divide_value_1'', 2), ('''', 1), (''divide_value_2'', 1), ('''', 28)]"

definition LOCAL_APIC_LVT_LINT :: layout where
  "LOCAL_APIC_LVT_LINT =
    [(''vector'', 8), (''delivery_mode'', 3), ('''', 1), (''delivery_status'', 1),
     (''input_pin_polarity'', 1), (''remote_irr'', 1), (''trigger_mode'', 1), (''mask'', 1),
     ('''', 15)]"

definition LOCAL_APIC_LVT_TIMER :: layout where
  "LOCAL_APIC_LVT_TIMER =
    [(''vector'', 8), ('''', 4), (''delivery_status'', 1), ('''', 3), (''mask'', 1),
     (''timer_mode'', 2), ('''', 13)]"

definition LOCAL_APIC_ICR_LOW :: layout where
  "LOCAL_APIC_ICR_LOW =
    [(''vector'', 8), (''delivery_mode'', 3), (''destination_mode'', 1),
     (''delivery_status'', 1), ('''', 1), (''level'', 1), (''trigger_mode'', 1), ('''', 2),
     (''destination_shorthand'', 2), ('''', 12)]"

definition LOCAL_APIC_ICR_HIGH :: layout where
  "LOCAL_APIC_ICR_HIGH =
    [('''', 24), (''destination'', 8)]"

section \<open>Interrupt descriptors\<close>

definition idt_entry_t :: layout where
  "idt_entry_t =
    [(''handler_low'', 16), (''selector'', 16), (''ist'', 3), (''_zero1'', 5),
     (''gate_type'', 4), (''_zero2'', 1), (''ring'', 2), (''present'', 1),
     (''handler_high'', 48), (''_zero3'', 32)]"

definition selector_error_code_t :: layout where
  "selector_error_code_t =
    [(''e'', 1), (''tbl'', 2), (''index'', 13)]"

section \<open>The layouts fill their words\<close>

definition unions_u32 :: "layout list" where
  "unions_u32 =
     [CPUID_VERSION_INFO_ECX, CPUID_VERSION_INFO_EDX, CPUID_MONITOR_MWAIT_EAX,
      CPUID_MONITOR_MWAIT_EBX, CPUID_MONITOR_MWAIT_ECX, CPUID_MONITOR_MWAIT_EDX,
      CPUID_STRUCTURED_EXTENDED_FEATURE_FLAGS_EBX, CPUID_STRUCTURED_EXTENDED_FEATURE_FLAGS_ECX,
      CPUID_STRUCTURED_EXTENDED_FEATURE_FLAGS_EDX, CPUID_EXTENDED_STATE_MAIN_LEAF_EAX,
      CPUID_EXTENDED_STATE_SUB_LEAF_EAX, CPUID_EXTENDED_STATE_SUB_LEAF_ECX,
      CPUID_EXTENDED_CPU_SIG_ECX, CPUID_EXTENDED_CPU_SIG_EDX,
      CPUID_EXTENDED_TIME_STAMP_COUNTER_EDX, CPUID_VIR_PHY_ADDRESS_SIZE_EAX,
      CPUID_KVM_FEATURES_EAX, LOCAL_APIC_SVR, LOCAL_APIC_DCR, LOCAL_APIC_LVT_LINT,
      LOCAL_APIC_LVT_TIMER, LOCAL_APIC_ICR_LOW, LOCAL_APIC_ICR_HIGH]"

definition unions_u64 :: "layout list" where
  "unions_u64 = [MSR_IA32_APIC_BASE_REGISTER, MSR_IA32_CET_REGISTER]"

lemmas cpuid_layouts =
  CPUID_VERSION_INFO_ECX_def CPUID_VERSION_INFO_EDX_def CPUID_MONITOR_MWAIT_EAX_def
  CPUID_MONITOR_MWAIT_EBX_def CPUID_MONITOR_MWAIT_ECX_def CPUID_MONITOR_MWAIT_EDX_def
  CPUID_STRUCTURED_EXTENDED_FEATURE_FLAGS_EBX_def CPUID_STRUCTURED_EXTENDED_FEATURE_FLAGS_ECX_def
  CPUID_STRUCTURED_EXTENDED_FEATURE_FLAGS_EDX_def CPUID_EXTENDED_STATE_MAIN_LEAF_EAX_def
  CPUID_EXTENDED_STATE_SUB_LEAF_EAX_def CPUID_EXTENDED_STATE_SUB_LEAF_ECX_def
  CPUID_EXTENDED_CPU_SIG_ECX_def CPUID_EXTENDED_CPU_SIG_EDX_def
  CPUID_EXTENDED_TIME_STAMP_COUNTER_EDX_def CPUID_VIR_PHY_ADDRESS_SIZE_EAX_def
  CPUID_KVM_FEATURES_EAX_def

lemmas apic_layouts =
  LOCAL_APIC_SVR_def LOCAL_APIC_DCR_def LOCAL_APIC_LVT_LINT_def LOCAL_APIC_LVT_TIMER_def
  LOCAL_APIC_ICR_LOW_def LOCAL_APIC_ICR_HIGH_def

lemmas msr_layouts = MSR_IA32_APIC_BASE_REGISTER_def MSR_IA32_CET_REGISTER_def

lemma unions_u32_width: "list_all (\<lambda>L. layout_width L = 32) unions_u32"
  by (simp add: unions_u32_def cpuid_layouts apic_layouts)

lemma unions_u64_width: "list_all (\<lambda>L. layout_width L = 64) unions_u64"
  by (simp add: unions_u64_def msr_layouts)

lemma idt_entry_width: "layout_width idt_entry_t = 128"
  by (simp add: idt_entry_t_def)

lemma bit_fields_ok:
  assumes "layout_width L = LENGTH('a::len)" "bf_find L f 0 = Some (off, w)" "f \<noteq> g"
  shows "bf_get L f (bf_set L f v (r :: 'a word)) = take_bit w v
    \<and> bf_get L g (bf_set L f v r) = bf_get L g r \<and> bf_pack L (bf_unpack L r) = r"
  using assms by (simp add: bf_get_set bf_get_set_other bf_pack_unpack_full)

end
