(* ===== verification/Boot_Props.thy ===== *)
theory Boot_Props
  imports Boot_Tables Vmar_Props
begin

text \<open>The properties of the early memory: the allocator, the page tables, and the handing over.\<close>

section \<open>Before the first allocation\<close>

definition boot_fresh :: "limine_memmap_entry list \<Rightarrow> boot \<Rightarrow> bool" where
  "boot_fresh es b \<longleftrightarrow> memmap b = Some es \<and> memmap_from (bdm b) 0 es \<and> m_early_alloc_top b = 0 \<and>
     m_early_alloc_size b = 0 \<and> m_early_alloc_page_count b = 0"

lemma early_inv_fresh: "boot_fresh es b \<Longrightarrow> early_inv es b []"
  by (simp add: boot_fresh_def early_inv_def early_pos_def)

text \<open>The first page becomes the root: a table of the highest level, with nothing in it.\<close>

definition set_root_table :: "ptr \<Rightarrow> boot \<Rightarrow> boot" where
  "set_root_table p b = on_bmm (\<lambda>m. m\<lparr>g_page_table := p\<rparr>) b"

definition root_only :: "u64 \<Rightarrow> tables" where
  "root_only f = (\<lambda>i q. if i = 3 \<and> q = 0 then Some f else None)"

lemma root_table_ok:
  assumes inv: "early_inv es b []" and lev: "g_page_table_levels (bmm b) = 4"
    and room: "room_for (Suc 0) es []"
  obtains f b' where "early_phys_alloc_page b = Some (bdm b + f, b')"
    "boot_ok es (set_root_table (bdm b + f) b') [f] (root_only f)"
    "\<And>n. ptes (set_root_table (bdm b + f) b') (root_only f) n = 0"
    "early_frame b b'"
proof -
  obtain f b' where f: "early_phys_alloc_page b = Some (bdm b + f, b')" "early_inv es b' ([] @ [f])"
    "frame_ok (bdm b) f" "early_frame b b'" "bmm b' = memset (bdm b + f) 0 PAGE_SIZE (bmm b)"
    by (rule early_alloc_room [OF inv room])
  have dm: "bdm b' = bdm b" by (rule early_frame_bdm [OF f(4)])
  have z: "mem64 (bmm b') (slot (bdm b) f k) = 0" if "k < 512" for k
    using slot_in_page [OF f(3,3) that] by (simp add: f(5) mem64_memset_0)
  have "tables_ok (bmm (set_root_table (bdm b + f) b')) (bdm b) (set [f]) (root_only f)"
    unfolding tables_ok_def set_root_table_def using f(3) lev z
    by (auto simp: root_only_def f(5) entry_ok_def split: if_splits)
  then have "boot_ok es (set_root_table (bdm b + f) b') [f] (root_only f)"
    using f(2) by (simp add: boot_ok_def set_root_table_def dm)
  moreover have "ptes (set_root_table (bdm b + f) b') (root_only f) n = 0" for n
    by (simp add: ptes_def pte_def root_only_def)
  ultimately show ?thesis using f(1,4) by (intro that)
qed

lemma room_root:
  assumes "finite S" "room_for (Suc (card (prefixes S))) es []"
  shows "room S es [f] (root_only f)" "room_for (Suc 0) es []"
proof -
  have "prefixes S - tdom (root_only f) = prefixes S"
    by (auto simp: prefixes_def tdom_def root_only_def)
  with assms show "room S es [f] (root_only f)" by (simp add: room_def room_for_def)
  show "room_for (Suc 0) es []" using assms(2) by (simp add: room_for_def)
qed

text \<open>The page numbers of the direct map.\<close>

definition dmap_set :: "nat \<Rightarrow> limine_memmap_entry list \<Rightarrow> nat set" where
  "dmap_set d es = (\<lambda>j. d + j) ` {j. in_dmap es j}"

lemma finite_dmap_set: "finite (dmap_set d es)"
proof -
  have "{j. in_dmap es j} = (\<Union>e\<in>{e\<in>set es. direct_mapped e}.
      {unat (me_base e) div 4096..<unat (me_base e) div 4096 + entry_pages e})"
    by (auto simp: in_dmap_def)
  then show ?thesis by (simp add: dmap_set_def)
qed

lemma in_dmap_set: "n \<in> dmap_set d es \<longleftrightarrow> d \<le> n \<and> in_dmap es (n - d)"
  by (auto simp: dmap_set_def intro: image_eqI [of _ _ "n - d"])

section \<open>A machine with sixteen pages\<close>

definition small_map :: "limine_memmap_entry list" where
  "small_map = [\<lparr>me_base = 0x1000, me_length = 0x10000, me_type = 0\<rparr>]"

definition small_boot :: boot where
  "small_boot = \<lparr>memmap = Some small_map, hhdm_offset = Some 0xFFFF800000000000,
     executable_address = None, paging_mode = Some 0, m_early_alloc_top = 0, m_early_alloc_size = 0,
     m_early_alloc_page_count = 0, cr3 = 0,
     ksections = \<lparr>g_kernel_limine_requests_mapping = 0, g_kernel_init_text_mapping = 0,
       g_kernel_init_rodata_mapping = 0, g_kernel_init_data_mapping = 0, g_kernel_text_mapping = 0,
       g_kernel_rodata_mapping = 0, g_kernel_late_rodata_mapping = 0, g_kernel_data_mapping = 0\<rparr>,
     bk = on_vs (\<lambda>z. z\<lparr>vm_base := (\<lambda>_. 0xFFFF800000000000)\<rparr>) region_at_2\<rparr>"

lemma small_boot_fields [simp]:
  "memmap small_boot = Some small_map" "bdm small_boot = 0xFFFF800000000000" "bmm small_boot = empty_mm"
  by (simp_all add: small_boot_def bdm_def dm_base_def bmm_def region_at_2_fields zero_vmars_def)

lemma small_boot_fresh: "boot_fresh small_map small_boot"
proof -
  have "algn 12 (0x1000 :: u64)" "algn 12 (0x10000 :: u64)" by (simp_all add: algn_page)
  then have "memmap_from (bdm small_boot) 0 small_map"
    by (simp add: small_map_def usable_def LIMINE_MEMMAP_USABLE_def entry_end_def)
  then show ?thesis unfolding boot_fresh_def by (simp add: small_boot_def)
qed

lemma small_usable: "usable_memory small_map = {a. 0x1000 \<le> a \<and> a < 0x11000}"
  by (auto simp: usable_memory_def small_map_def usable_def LIMINE_MEMMAP_USABLE_def entry_range_def
      entry_end_def word_le_nat_alt word_less_nat_alt)

lemma small_card: "card (usable_memory small_map) = 0x10000"
  unfolding small_usable card_range by simp

lemma small_page_no: "page_no (bdm small_boot) = 2 ^ 35"
  by (simp add: page_no_def take_bit_eq_mod)

lemma small_prefixes:
  assumes "S \<subseteq> {2 ^ 35..<2 ^ 35 + 17}"
  shows "card (prefixes S) \<le> 3"
proof -
  have "prefixes S \<subseteq> {(0, 2 ^ 26), (1, 2 ^ 17), (2, 2 ^ 8)}"
  proof
    fix x assume "x \<in> prefixes S"
    then obtain i n where x: "x = (i, n div 512 ^ Suc i)" "i < 3" "n \<in> S" by (auto simp: prefixes_def)
    then have n: "2 ^ 35 \<le> n" "n < 2 ^ 35 + 17" using assms by auto
    have d: "n div 512 = 2 ^ 26" using n by (intro div_nat_eqI) simp_all
    have "n div 512 ^ Suc i = n div 512 div 512 ^ i" by (simp add: div_mult2_eq)
    moreover have "i = 0 \<or> i = 1 \<or> i = 2" using x(2) by auto
    ultimately show "x \<in> {(0, 2 ^ 26), (1, 2 ^ 17), (2, 2 ^ 8)}" using x(1) d by auto
  qed
  then have "card (prefixes S) \<le> card {(0 :: nat, 2 ^ 26 :: nat), (1, 2 ^ 17), (2, 2 ^ 8)}"
    by (intro card_mono) simp_all
  then show ?thesis by simp
qed

lemma small_room: "S \<subseteq> {2 ^ 35..<2 ^ 35 + 17} \<Longrightarrow> room_for (Suc (card (prefixes S))) small_map []"
  using small_prefixes [of S] by (simp add: room_for_def small_card)

section \<open>The early allocator\<close>

text \<open>C21: The early allocator hands out only usable memory of the boot loader's map, page by page,
  never the same byte twice and every page cleared; it stops only when all the usable memory has been
  handed out.\<close>

theorem early_alloc_correct:
  assumes "early_inv es b ps"
  shows "case early_phys_alloc_page b of
      None \<Rightarrow> usable_memory es = (\<Union>p\<in>set ps. cov 12 p)
    | Some (p, b') \<Rightarrow> \<exists>f. p = bdm b + f \<and> early_inv es b' (ps @ [f]) \<and> cov 12 f \<subseteq> usable_memory es \<and>
        (\<forall>g\<in>set ps. cov 12 f \<inter> cov 12 g = {}) \<and> (\<forall>a\<in>cov 12 f. mem64 (bmm b') (bdm b + a) = 0)"
proof -
  have un: "(\<Union>p\<in>set ps. cov 12 p) = {a \<in> usable_memory es. a < m_early_alloc_top b}"
    using assms by (simp add: early_inv_def)
  show ?thesis
  proof (cases "early_phys_alloc_page b")
    case None
    then have "\<forall>a\<in>usable_memory es. a < m_early_alloc_top b" using early_alloc_ok [OF assms] by simp
    with None un show ?thesis by auto
  next
    case (Some r)
    obtain p b' where r: "r = (p, b')" by (cases r)
    obtain f where f: "p = bdm b + f" "f \<notin> set ps" "early_inv es b' (ps @ [f])"
        "bk b' = on_vs (phys_mem_update (memset p 0 PAGE_SIZE)) (bk b)"
      using early_alloc_ok [OF assms] Some r by auto
    have al: "algn 12 g" if "g \<in> set (ps @ [f])" for g using f(3) that by (auto simp: early_inv_def)
    have "cov 12 f \<subseteq> usable_memory es" using f(3) by (auto simp: early_inv_def)
    moreover have "cov 12 f \<inter> cov 12 g = {}" if g: "g \<in> set ps" for g
    proof (rule ccontr)
      assume "cov 12 f \<inter> cov 12 g \<noteq> {}"
      then have "f \<in> cov 12 g" by (auto simp: cov_def)
      then have "f = g" by (rule algn_unique) (use al g in auto)
      with g f(2) show False by simp
    qed
    moreover have "mem64 (bmm b') (bdm b + a) = 0" if a: "a \<in> cov 12 f" for a
    proof -
      have "a - f < 2 ^ 12" using range_cov [of 12 f a] al [of f] a by simp
      then show ?thesis by (simp add: bmm_def f(1,4) mem64_memset_0 PAGE_SIZE_def PAGE_SHIFT_def)
    qed
    ultimately show ?thesis
      unfolding Some r option.case prod.case using f(1,3) by blast
  qed
qed

theorem early_alloc_correct_witness:
  "\<exists>p b' f. early_phys_alloc_page small_boot = Some (p, b') \<and> p = 0xFFFF800000000000 + f \<and>
     cov 12 f \<subseteq> {a. 0x1000 \<le> a \<and> a < 0x11000}"
proof -
  have "usable_memory small_map \<noteq> {}" using small_card by auto
  then show ?thesis
    using early_alloc_correct [OF early_inv_fresh [OF small_boot_fresh]]
    by (auto simp: small_usable split: option.splits)
qed

section \<open>The early page tables\<close>

lemma pt_entry_ptes: "boot_ok es b ps T \<Longrightarrow> n < 2 ^ 36 \<Longrightarrow> pt_entry b n = ptes b T n"
  unfolding boot_ok_def ptes_def by (rule pt_entry_pte) auto

text \<open>C20: \<open>early_virt_map\<close> makes the processor's walk end, for every page of the range, with the entry
  of the frame at the same distance, present, accessed and with the flags asked for; the walk of
  every other page number ends where it did, the tables stay a tree in pages of the early allocator,
  and nothing else of the kernel changes.\<close>

theorem early_virt_map_correct:
  assumes "boot_ok es b ps T" "room {page_no v..<page_no v + unat num} es ps T"
    and "page_no v + unat num \<le> 2 ^ 36"
    and "\<forall>n\<in>{page_no v..<page_no v + unat num}. pt_entry b n = 0"
  shows "\<exists>b' ps' T'. early_virt_map v phys num flags b = Some b' \<and> boot_ok es b' ps' T' \<and>
    (\<forall>n < 2 ^ 36. pt_entry b' n =
       (if page_no v \<le> n \<and> n < page_no v + unat num
        then (phys + of_nat (n - page_no v) * PAGE_SIZE) OR IA32_PG_P OR IA32_PG_A OR flags
        else pt_entry b n)) \<and> early_frame b b'"
proof -
  have z: "ptes b T i = 0" if "page_no v \<le> i" "i < page_no v + unat num" for i
    using assms(3,4) that pt_entry_ptes [OF assms(1), of i] by simp
  obtain b' ps' T' where r: "early_virt_map_loop (unat num) v phys flags b = Some b'" "boot_ok es b' ps' T'"
    "ptes b' T' = range_ptes (page_no v) (unat num) phys flags (ptes b T)" "early_frame b b'"
    using map_loop_ok [OF assms(1,2,3) order_refl z] by blast
  have "pt_entry b' n = (if page_no v \<le> n \<and> n < page_no v + unat num
      then (phys + of_nat (n - page_no v) * PAGE_SIZE) OR IA32_PG_P OR IA32_PG_A OR flags
      else pt_entry b n)" if "n < 2 ^ 36" for n
    unfolding pt_entry_ptes [OF r(2) that] pt_entry_ptes [OF assms(1) that] r(3) range_ptes_def leaf_entry_def ..
  with r show ?thesis unfolding early_virt_map_def by blast
qed

theorem early_virt_map_correct_witness:
  "\<exists>b b'. early_virt_map 0xFFFF800000001000 0x1000 2 IA32_PG_RW b = Some b' \<and>
     pt_entry b' (2 ^ 35 + 2) = 0x2000 OR IA32_PG_P OR IA32_PG_A OR IA32_PG_RW"
proof -
  let ?S = "{2 ^ 35 + 1..<2 ^ 35 + 3 :: nat}"
  have pn: "page_no 0xFFFF800000001000 = 2 ^ 35 + 1" by (simp add: page_no_def take_bit_eq_mod)
  have rm: "room_for (Suc (card (prefixes ?S))) small_map []" by (rule small_room) auto
  have inv: "early_inv small_map small_boot []" by (rule early_inv_fresh [OF small_boot_fresh])
  have lev: "g_page_table_levels (bmm small_boot) = 4" by (simp add: empty_mm_def)
  obtain f b0 where ok: "boot_ok small_map (set_root_table (bdm small_boot + f) b0) [f] (root_only f)"
    and z: "\<And>n. ptes (set_root_table (bdm small_boot + f) b0) (root_only f) n = 0"
    by (rule root_table_ok [OF inv lev room_root(2) [OF _ rm]]) auto
  let ?b = "set_root_table (bdm small_boot + f) b0"
  have "room {page_no 0xFFFF800000001000..<page_no 0xFFFF800000001000 + unat (2 :: u64)} small_map [f] (root_only f)"
    unfolding pn using room_root(1) [OF _ rm, of f] by simp
  moreover have "page_no 0xFFFF800000001000 + unat (2 :: u64) \<le> 2 ^ 36" unfolding pn by simp
  moreover have "\<forall>n\<in>{page_no 0xFFFF800000001000..<page_no 0xFFFF800000001000 + unat (2 :: u64)}. pt_entry ?b n = 0"
    unfolding pn using pt_entry_ptes [OF ok] z by simp
  ultimately obtain b' where b': "early_virt_map 0xFFFF800000001000 0x1000 2 IA32_PG_RW ?b = Some b'"
    and e: "\<forall>n < 2 ^ 36. pt_entry b' n =
       (if page_no 0xFFFF800000001000 \<le> n \<and> n < page_no 0xFFFF800000001000 + unat (2 :: u64)
        then (0x1000 + of_nat (n - page_no 0xFFFF800000001000) * PAGE_SIZE) OR IA32_PG_P OR IA32_PG_A OR IA32_PG_RW
        else pt_entry ?b n)"
    using early_virt_map_correct [OF ok] by blast
  have "pt_entry b' (2 ^ 35 + 2) = 0x2000 OR IA32_PG_P OR IA32_PG_A OR IA32_PG_RW"
    using e [rule_format, of "2 ^ 35 + 2"] by (simp add: pn PAGE_SIZE_eq)
  with b' show ?thesis by blast
qed

section \<open>Handing the memory over\<close>

text \<open>The buddy allocator writes no page table: adding memory clears the range that is added, and
  all else it changes are its lists, its bitmap and the counters.\<close>

definition same_tables :: "mm \<Rightarrow> mm \<Rightarrow> bool" where
  "same_tables h h' \<longleftrightarrow> mem64 h' = mem64 h \<and> g_page_table h' = g_page_table h \<and>
     g_page_table_levels h' = g_page_table_levels h"

lemma same_tables_trans: "same_tables h h' \<Longrightarrow> same_tables h' h'' \<Longrightarrow> same_tables h h''"
  by (simp add: same_tables_def)

lemma same_tables_simps [simp]:
  "same_tables h h" "same_tables h (hlist_add l n h') = same_tables h h'"
  "same_tables h (buddy_clear_header n h') = same_tables h h'"
  "same_tables h (buddy_set_block_free dm p h') = same_tables h h'"
  "same_tables h (bf_level_update g h') = same_tables h h'"
  "same_tables h (buddy_lock_update g' h') = same_tables h h'"
  "same_tables h (mem_acct_add_total c h') = same_tables h h'"
  "same_tables h (mem_acct_add_committed c h') = same_tables h h'"
  by (simp_all add: same_tables_def hlist_add_def buddy_clear_header_def buddy_set_block_free_def
      mem_acct_add_eq Let_def)

lemma hslot_store_tables: "hslot_store s v h = Some h' \<Longrightarrow> same_tables h h'"
  by (cases s) (auto simp: same_tables_def)

lemma hlist_del_tables: "hlist_del n h = Some h' \<Longrightarrow> same_tables h h'"
  by (auto simp: hlist_del_def hlist_unlink_def Let_def bind_eq_Some_conv same_tables_def
      split: if_splits dest: hslot_store_tables)

lemma buddy_lock_tables:
  "buddy_mutex_lock h = Some h' \<Longrightarrow> same_tables h h'"
  "buddy_mutex_unlock h = Some h' \<Longrightarrow> same_tables h h'"
  by (auto simp: buddy_mutex_lock_def buddy_mutex_unlock_def bind_eq_Some_conv same_tables_def)

lemma buddy_merge_tables: "buddy_merge dm p l h = Some (p', l', h') \<Longrightarrow> same_tables h h'"
proof (induction "PHYS_BUDDY_MAX_LEVEL - l" arbitrary: p l h rule: less_induct)
  case less
  let ?n = "p XOR 2 ^ (l + PHYS_BUDDY_MIN_ORDER)"
  show ?case
  proof (cases "l < PHYS_BUDDY_MAX_LEVEL - 1 \<and> buddy_is_block_free dm h ?n \<and> unat (bf_level h ?n) = l")
    case False
    then have "h' = h"
      using less.prems by (subst (asm) buddy_merge.simps) (auto simp: Let_def split: if_splits)
    then show ?thesis by simp
  next
    case True
    then obtain h1 q where h1: "hlist_del ?n h = Some h1"
      and rec: "buddy_merge dm q (Suc l) (buddy_clear_header ?n h1) = Some (p', l', h')"
      using less.prems by (subst (asm) buddy_merge.simps) (auto simp: Let_def split: option.splits)
    have "same_tables (buddy_clear_header ?n h1) h'"
      by (rule less.hyps [OF _ rec]) (use conjunct1 [OF True] in arith)
    moreover have "same_tables h (buddy_clear_header ?n h1)" using hlist_del_tables [OF h1] by simp
    ultimately show ?thesis using same_tables_trans by blast
  qed
qed

lemma phys_free_internal_tables:
  assumes "phys_free_internal dm p l c h = Some (l', h')"
  shows "same_tables h h'"
proof -
  obtain h1 h2 q h3 where l: "buddy_mutex_lock h = Some h1"
    and m: "(if c then do { ASSERT (\<not> buddy_is_block_free dm h1 p); Some (buddy_set_block_free dm p h1) }
       else Some h1) = Some h2"
    and g: "buddy_merge dm p l h2 = Some (q, l', h3)"
    and u: "buddy_mutex_unlock (buddy_set_block_free dm q
       (hlist_add l' q (h3\<lparr>bf_level := (bf_level h3)(q := of_nat l')\<rparr>))) = Some h'"
    using assms unfolding phys_free_internal_def Let_def by (auto simp: bind_eq_Some_conv)
  have "same_tables h1 h2" using m by (auto simp: bind_eq_Some_conv split: if_splits)
  moreover have "same_tables h3 h'" using buddy_lock_tables(2) [OF u] by (simp add: same_tables_def
    hlist_add_def buddy_set_block_free_def Let_def)
  ultimately show ?thesis
    using buddy_lock_tables(1) [OF l] buddy_merge_tables [OF g] same_tables_trans by blast
qed

lemma phys_add_blocks_tables: "phys_add_blocks dm s f h = Some h' \<Longrightarrow> same_tables h h'"
proof (induction rule: phys_add_blocks.raw_induct [rotated 1, consumes 1])
  case (1 rec dm s f h h')
  then show ?case
    by (auto simp: Let_def bind_eq_Some_conv split: if_splits
        intro: same_tables_trans dest!: phys_free_internal_tables)
qed

lemma phys_add_memory_tables:
  assumes "phys_add_memory dm s f h = Some h'"
  shows "g_page_table h' = g_page_table h" "g_page_table_levels h' = g_page_table_levels h"
    "\<not> a - s < f - s \<Longrightarrow> mem64 h' a = mem64 h a"
proof -
  obtain h1 where "phys_add_blocks dm s f (memset s 0 (f - s) h) = Some h1" and
    h': "h' = mem_acct_add_total ((f - s) div PAGE_SIZE) h1"
    using assms by (auto simp: phys_add_memory_def bind_eq_Some_conv Let_def)
  then have "same_tables (memset s 0 (f - s) h) h'" using phys_add_blocks_tables by simp
  then show "g_page_table h' = g_page_table h" "g_page_table_levels h' = g_page_table_levels h"
    "\<not> a - s < f - s \<Longrightarrow> mem64 h' a = mem64 h a"
    by (simp_all add: same_tables_def mem64_memset_0)
qed

lemma diff_less_range:
  assumes "s \<le> f"
  shows "x - s < f - s \<longleftrightarrow> s \<le> x \<and> x < (f :: u64)"
proof -
  have f: "unat (f - s) = unat f - unat s" using assms by (rule unat_sub)
  show ?thesis
  proof (cases "s \<le> x")
    case True
    then show ?thesis
      using f unat_sub [OF True] assms by (simp add: word_less_nat_alt word_le_nat_alt) linarith
  next
    case False
    have "unat f < 2 ^ LENGTH(64)" by (rule unsigned_less)
    moreover have "unat (x - s) = unat x + 2 ^ 64 - unat s"
      using unat_sub_if' [of x s] False by (simp add: word_le_nat_alt)
    ultimately have "\<not> unat (x - s) < unat (f - s)" using f by simp
    then show ?thesis using False by (simp add: word_less_nat_alt)
  qed
qed

lemma early_add_loop_tables:
  assumes "early_add_loop es b = Some b'" "memmap_from (bdm b) k es"
  shows "bdm b' = bdm b" "g_page_table (bmm b') = g_page_table (bmm b)"
    "g_page_table_levels (bmm b') = g_page_table_levels (bmm b)"
    "x \<notin> {a \<in> usable_memory es. m_early_alloc_top b \<le> a} \<Longrightarrow>
       mem64 (bmm b') (bdm b + x) = mem64 (bmm b) (bdm b + x)"
proof -
  have "bdm b' = bdm b \<and> g_page_table (bmm b') = g_page_table (bmm b) \<and>
    g_page_table_levels (bmm b') = g_page_table_levels (bmm b) \<and>
    (x \<notin> {a \<in> usable_memory es. m_early_alloc_top b \<le> a} \<longrightarrow>
       mem64 (bmm b') (bdm b + x) = mem64 (bmm b) (bdm b + x))"
    using assms
  proof (induction es arbitrary: b k)
    case (Cons e es)
    let ?t = "m_early_alloc_top b"
    let ?f = "me_base e + me_length e"
    let ?s = "add_from ?t e"
    have le: "{a \<in> usable_memory es. ?t \<le> a} \<subseteq> {a \<in> usable_memory (e # es). ?t \<le> a}"
      by (auto simp: usable_memory_Cons)
    show ?case
    proof (cases "usable e \<and> \<not> ?f < ?t")
      case False
      then have "early_add_loop es b = Some b'" using Cons.prems(1) by (auto simp: usable_def Let_def split: if_splits)
      moreover obtain k' where "memmap_from (bdm b) k' es" using Cons.prems(2) by (auto split: if_splits)
      ultimately show ?thesis using Cons.IH [of b k'] le by blast
    next
      case True
      have m': "memmap_from (bdm b) (entry_end e) es" using Cons.prems(2) True by simp
      have bound: "unat (me_base e) + unat (me_length e) \<le> 2 ^ 52"
        using memmap_from_facts(5) [OF Cons.prems(2), of e] True by (simp add: entry_end_def)
      have ar: "{a. ?s \<le> a \<and> a < ?f} = {a \<in> entry_range e. ?t \<le> a}" "?s \<le> ?f"
        by (rule add_range [OF conjunct1 [OF True] bound conjunct2 [OF True]])+
      obtain m where m: "phys_add_memory (bdm b) (bdm b + ?s) (bdm b + ?f) (bmm b) = Some m"
        and rest: "early_add_loop es (on_bmm (\<lambda>_. m) b) = Some b'"
        using Cons.prems(1) True
        by (auto simp: usable_def on_bk_mem phys_to_direct_def add_from_def Let_def split: if_splits option.splits)
      note t = phys_add_memory_tables [OF m]
      have "mem64 m (bdm b + x) = mem64 (bmm b) (bdm b + x)"
        if "x \<notin> {a \<in> usable_memory (e # es). ?t \<le> a}"
      proof (rule t(3))
        have "x \<notin> {a \<in> entry_range e. ?t \<le> a}" using that True by (auto simp: usable_memory_Cons)
        then have "\<not> (?s \<le> x \<and> x < ?f)" unfolding ar(1) [symmetric] by simp
        then have "\<not> x - ?s < ?f - ?s" unfolding diff_less_range [OF ar(2)] .
        then show "\<not> bdm b + x - (bdm b + ?s) < bdm b + ?f - (bdm b + ?s)" by simp
      qed
      moreover have "memmap_from (bdm (on_bmm (\<lambda>_. m) b)) (entry_end e) es" using m' by simp
      note Cons.IH [OF rest this]
      ultimately show ?thesis using t(1,2) le by auto
    qed
  qed simp
  then show "bdm b' = bdm b" "g_page_table (bmm b') = g_page_table (bmm b)"
    "g_page_table_levels (bmm b') = g_page_table_levels (bmm b)"
    "x \<notin> {a \<in> usable_memory es. m_early_alloc_top b \<le> a} \<Longrightarrow>
       mem64 (bmm b') (bdm b + x) = mem64 (bmm b) (bdm b + x)"
    by simp_all
qed

text \<open>So the walk of the processor is the same after the memory was handed over.\<close>

lemma pte_cong:
  assumes "tables_ok m dm P T" and "\<And>f k. f \<in> P \<Longrightarrow> frame_ok dm f \<Longrightarrow> k < 512 \<Longrightarrow> mem64 m' (slot dm f k) = mem64 m (slot dm f k)"
    and "g_page_table m' = g_page_table m" "g_page_table_levels m' = g_page_table_levels m"
  shows "tables_ok m' dm P T" "pte m' dm T n = pte m dm T n"
proof -
  have e: "mem64 m' (slot dm f k) = mem64 m (slot dm f k)" if "T i q = Some f" "k < 512" for i q f k
    using assms(2) [OF _ _ that(2)] tables_frame [OF assms(1) that(1)] by simp
  show "tables_ok m' dm P T"
    unfolding tables_ok_def assms(3,4)
  proof (intro conjI)
    show "\<forall>i q f k. T (Suc i) q = Some f \<and> k < 512 \<longrightarrow>
        entry_ok (T i (512 * q + k)) (mem64 m' (slot dm f k))"
    proof (intro allI impI)
      fix i q f and k :: nat
      assume "T (Suc i) q = Some f \<and> k < 512"
      then show "entry_ok (T i (512 * q + k)) (mem64 m' (slot dm f k))"
        using tables_entry [OF assms(1), of i q f k] e [of "Suc i" q f k] by simp
    qed
  qed (use assms(1) in \<open>simp_all add: tables_ok_def\<close>)
  show "pte m' dm T n = pte m dm T n"
    using e [of 0 "n div 512" _ "n mod 512"] by (auto simp: pte_def split: option.splits)
qed

text \<open>The slots of the tables lie in pages that were handed out, so below the top.\<close>

lemma handover_tables:
  assumes ok: "boot_ok es b ps T" and run: "early_phys_add_memory b = Some b'" and n: "n < 2 ^ 36"
  shows "pt_entry b' n = pt_entry b n"
proof -
  have inv: "early_inv es b ps" and t: "tables_ok (bmm b) (bdm b) (set ps) T" using ok by (auto simp: boot_ok_def)
  have es: "memmap b = Some es" and mm: "memmap_from (bdm b) 0 es"
    and un: "(\<Union>p\<in>set ps. cov 12 p) = {a \<in> usable_memory es. a < m_early_alloc_top b}"
    using inv by (auto simp: early_inv_def)
  obtain b1 where b1: "early_add_loop es b = Some b1"
    "b' = on_bmm (mem_acct_add_committed (m_early_alloc_page_count b1)) b1"
    using run by (auto simp: early_phys_add_memory_def es bind_eq_Some_conv)
  note l = early_add_loop_tables [OF b1(1) mm]
  have m: "mem64 (bmm b') = mem64 (bmm b1)" "g_page_table (bmm b') = g_page_table (bmm b1)"
    "g_page_table_levels (bmm b') = g_page_table_levels (bmm b1)" "bdm b' = bdm b"
    using l(1) by (simp_all add: b1(2) mem_acct_add_eq)
  have s: "mem64 (bmm b') (slot (bdm b) f k) = mem64 (bmm b) (slot (bdm b) f k)"
    if f: "f \<in> set ps" "frame_ok (bdm b) f" and k: "k < 512" for f k
  proof -
    have "unat (f + 8 * of_nat k) = unat f + 8 * k"
    proof -
      have "unat (8 * of_nat k :: u64) = 8 * k" using k by (simp add: unat_word_ariths unat_of_nat)
      then show ?thesis using unat_add_lem [of f "8 * of_nat k"] f(2) k by (simp add: frame_ok_def)
    qed
    then have "f + 8 * of_nat k \<in> cov 12 f"
      using cov_page [of f] f(2) k by (simp add: frame_ok_def)
    then have "f + 8 * of_nat k \<in> {a \<in> usable_memory es. a < m_early_alloc_top b}" using un f(1) by blast
    then have "f + 8 * of_nat k \<notin> {a \<in> usable_memory es. m_early_alloc_top b \<le> a}"
      using leD by blast
    from l(4) [OF this] show ?thesis by (simp add: m(1) slot_def add.assoc)
  qed
  have r: "g_page_table (bmm b') = g_page_table (bmm b)"
    "g_page_table_levels (bmm b') = g_page_table_levels (bmm b)"
    by (simp_all add: m l)
  note t' = pte_cong [OF t s r]
  show ?thesis
    using pt_entry_pte [of b' "set ps" T n] pt_entry_pte [OF t n] t' n by (simp add: m(4))
qed

text \<open>C5: The early memory as a whole: from the map of the boot loader, with a page for the root and
  enough memory for the tables, the direct map is built and the rest of the memory is handed over.
  Afterwards the processor's walk translates every usable or reclaimable page of the direct map to
  itself and no other page number to anything; the free memory of the buddy allocator is exactly the
  usable memory that was not handed out before, so no page table is ever given to anyone; and every
  usable page is counted once, as available or as committed.\<close>

theorem boot_memory_handover:
  assumes "boot_fresh es b" "g_page_table_levels (bmm b) = 4" "bdm b \<noteq> 0" "4096 dvd unat (bdm b)"
    and "dmap_from (bdm b) 0 es" "room_for (Suc (card (prefixes (dmap_set (page_no (bdm b)) es)))) es []"
    and "buddy_inv (bdm b) (bmm b) (\<lambda>_. []) {}"
    and "m_available_pages (bmm b) = 0" "m_reserved_pages (bmm b) = 0" "m_committed_pages (bmm b) = 0"
  shows "\<exists>p b1 b2 b3 ps F. early_phys_alloc_page b = Some (p, b1) \<and>
    early_map_direct_map (set_root_table p b1) = Some b2 \<and> early_phys_add_memory b2 = Some b3 \<and>
    (\<forall>n < 2 ^ 36. pt_entry b3 n = (if n \<in> dmap_set (page_no (bdm b)) es
       then leaf_entry (of_nat (n - page_no (bdm b)) * PAGE_SIZE) DMAP_FLAGS else 0)) \<and>
    buddy_inv (bdm b) (bmm b3) F {} \<and>
    cover F = (\<lambda>a. bdm b + a) ` (usable_memory es - (\<Union>q\<in>set ps. cov 12 q)) \<and>
    unat (m_committed_pages (bmm b3)) = length ps \<and>
    4096 * (unat (m_available_pages (bmm b3)) + unat (m_committed_pages (bmm b3))) = card (usable_memory es)"
proof -
  let ?S = "dmap_set (page_no (bdm b)) es"
  have inv: "early_inv es b []" by (rule early_inv_fresh [OF assms(1)])
  note rm = room_root [OF finite_dmap_set assms(6)]
  obtain f b1 where f: "early_phys_alloc_page b = Some (bdm b + f, b1)"
    "boot_ok es (set_root_table (bdm b + f) b1) [f] (root_only f)"
    "\<And>n. ptes (set_root_table (bdm b + f) b1) (root_only f) n = 0" "early_frame b b1"
    by (rule root_table_ok [OF inv assms(2) rm(2)]) blast
  let ?b = "set_root_table (bdm b + f) b1"
  have dm: "bdm ?b = bdm b" using early_frame_bdm [OF f(4)] by (simp add: set_root_table_def)
  have es: "memmap ?b = Some es" using f(2) by (simp add: boot_ok_def early_inv_def)
  obtain b2 ps T where b2: "early_map_direct_loop es ?b = Some b2" "boot_ok es b2 ps T"
    "ptes b2 T = dmap_ptes (page_no (bdm b)) es (ptes ?b (root_only f))" "early_frame ?b b2"
    using map_direct_loop_ok [OF f(2), of 0 es ?S] assms(4,5) rm(1) f(3) unfolding dm
    by (auto simp: in_dmap_set)
  have dm2: "bdm b2 = bdm b" using early_frame_bdm [OF b2(4)] dm by simp
  have same: "same_phys (bmm b) ((bmm b2)\<lparr>g_page_table := g_page_table (bmm b)\<rparr>)"
    using f(4) b2(4) by (simp add: early_frame_def same_phys_def set_root_table_def)
  have "buddy_inv (bdm b2) (bmm b2) (\<lambda>_. []) {}"
    unfolding dm2 by (rule buddy_empty_cong [OF same assms(7)])
  moreover have "m_available_pages (bmm b2) = 0" "m_reserved_pages (bmm b2) = 0" "m_committed_pages (bmm b2) = 0"
    using same assms(8-10) by (simp_all add: same_phys_def)
  moreover have "early_inv es b2 ps" using b2(2) by (simp add: boot_ok_def)
  ultimately obtain m F where m: "early_phys_add_memory b2 = Some (on_bmm (\<lambda>_. m) b2)" "buddy_inv (bdm b) m F {}"
    "cover F = (\<lambda>a. bdm b + a) ` (usable_memory es - (\<Union>q\<in>set ps. cov 12 q))"
    "unat (m_committed_pages m) = length ps"
    "4096 * (unat (m_available_pages m) + unat (m_committed_pages m)) = card (usable_memory es)"
    using early_phys_add_memory_ok [of es b2 ps] assms(3,4) unfolding dm2 algn_page by blast
  have "pt_entry (on_bmm (\<lambda>_. m) b2) n = (if n \<in> ?S
      then leaf_entry (of_nat (n - page_no (bdm b)) * PAGE_SIZE) DMAP_FLAGS else 0)" if "n < 2 ^ 36" for n
    unfolding handover_tables [OF b2(2) m(1) that] pt_entry_ptes [OF b2(2) that] b2(3) dmap_ptes_def in_dmap_set f(3) ..
  moreover have "early_map_direct_map ?b = Some b2" using b2(1) by (simp add: early_map_direct_map_def es)
  ultimately show ?thesis
    using f(1) m
    by (intro exI [of _ "bdm b + f"] exI [of _ b1] exI [of _ b2] exI [of _ "on_bmm (\<lambda>_. m) b2"]
        exI [of _ ps] exI [of _ F]) simp
qed

lemma small_dmap: "dmap_set (2 ^ 35) small_map \<subseteq> {2 ^ 35..<2 ^ 35 + 17}" "2 ^ 35 + 1 \<in> dmap_set (2 ^ 35) small_map"
  by (auto simp: in_dmap_set in_dmap_def small_map_def entry_pages_def direct_mapped_def
      LIMINE_MEMMAP_USABLE_def)

lemma small_buddy: "algn 6 dm \<Longrightarrow> buddy_inv dm empty_mm (\<lambda>_. []) {}"
  by (auto simp: buddy_inv_def buddy_core_def buddy_zero_def empty_mm_def fset_def wf_blocks_def
    is_free_bit acct_ok_def free_pages_def total_free_def handed_out_def)

theorem boot_memory_handover_witness:
  "\<exists>p b1 b2 b3. early_phys_alloc_page small_boot = Some (p, b1) \<and>
     early_map_direct_map (set_root_table p b1) = Some b2 \<and> early_phys_add_memory b2 = Some b3 \<and>
     pt_entry b3 (2 ^ 35 + 1) = leaf_entry 0x1000 DMAP_FLAGS \<and> pt_entry b3 0 = 0"
proof -
  have lev: "g_page_table_levels (bmm small_boot) = 4" by (simp add: empty_mm_def)
  have dm: "bdm small_boot \<noteq> 0" "4096 dvd unat (bdm small_boot)" by simp_all
  have df: "dmap_from (bdm small_boot) 0 small_map"
    by (simp add: small_map_def direct_mapped_def LIMINE_MEMMAP_USABLE_def entry_end_def take_bit_eq_mod)
  have rm: "room_for (Suc (card (prefixes (dmap_set (page_no (bdm small_boot)) small_map)))) small_map []"
    unfolding small_page_no by (rule small_room [OF small_dmap(1)])
  have bu: "buddy_inv (bdm small_boot) (bmm small_boot) (\<lambda>_. []) {}"
    by (simp add: small_buddy algn_dvd)
  have z: "m_available_pages (bmm small_boot) = 0" "m_reserved_pages (bmm small_boot) = 0"
    "m_committed_pages (bmm small_boot) = 0"
    by (simp_all add: empty_mm_def)
  obtain p b1 b2 b3 where r: "early_phys_alloc_page small_boot = Some (p, b1)"
    "early_map_direct_map (set_root_table p b1) = Some b2" "early_phys_add_memory b2 = Some b3"
    and e: "\<forall>n < 2 ^ 36. pt_entry b3 n = (if n \<in> dmap_set (page_no (bdm small_boot)) small_map
       then leaf_entry (of_nat (n - page_no (bdm small_boot)) * PAGE_SIZE) DMAP_FLAGS else 0)"
    using boot_memory_handover [OF small_boot_fresh lev dm df rm bu z] by blast
  have "0 \<notin> dmap_set (2 ^ 35) small_map" using small_dmap(1) by auto
  then have "pt_entry b3 (2 ^ 35 + 1) = leaf_entry 0x1000 DMAP_FLAGS \<and> pt_entry b3 0 = 0"
    using e [rule_format, of "2 ^ 35 + 1"] e [rule_format, of 0] small_dmap(2)
    unfolding small_page_no by (simp add: PAGE_SIZE_eq)
  with r show ?thesis by blast
qed

end
