(* ===== verification/Cpu.thy ===== *)
theory Cpu
  imports Registers Stacks
begin

text \<open>
  The processor as \<open>src/arch\<close>, \<open>src/irq\<close> and \<open>src/boot/arch.c\<close>, \<open>gdt.c\<close> use it: model specific and
  control registers, the descriptor tables, the task state segments, the local APIC in x2APIC mode.
  The instructions are their effects on the record; the results of CPUID and the addresses of the
  handlers are arguments.
\<close>

section \<open>Descriptor tables\<close>

record gdt64_entry =
  ge_limit :: u16
  ge_base_low :: u16
  ge_base_mid :: u8
  ge_access :: u8
  ge_granularity :: u8
  ge_base_high :: u8

record tss64_entry =
  te_length :: u16
  te_low :: u16
  te_mid :: u8
  te_flags1 :: u8
  te_flags2 :: u8
  te_high :: u8
  te_upper32 :: u32
  te_reserved :: u32

record gdt_entries =
  gdt_null :: gdt64_entry
  gdt_reserved0 :: gdt64_entry
  gdt_reserved1 :: gdt64_entry
  gdt_reserved2 :: gdt64_entry
  gdt_kernel_code :: gdt64_entry
  gdt_kernel_data :: gdt64_entry
  gdt_user_data :: gdt64_entry
  gdt_user_code :: gdt64_entry
  gdt_tss :: tss64_entry

text \<open>The offsets of the members of \<open>gdt_entries_t\<close>, each entry being 8 bytes and the last one 16.\<close>

definition GDT_KERNEL_CODE :: u64 where "GDT_KERNEL_CODE = 4 * 8"
definition GDT_KERNEL_DATA :: u64 where "GDT_KERNEL_DATA = 5 * 8"
definition GDT_USER_DATA :: u64 where "GDT_USER_DATA = 6 * 8"
definition GDT_USER_CODE :: u64 where "GDT_USER_CODE = 7 * 8"
definition GDT_TSS :: u64 where "GDT_TSS = 8 * 8"
definition sizeof_gdt_entries :: u64 where "sizeof_gdt_entries = 8 * 8 + 16"

definition gdt_zero :: gdt64_entry where
  "gdt_zero = \<lparr>ge_limit = 0, ge_base_low = 0, ge_base_mid = 0, ge_access = 0, ge_granularity = 0,
     ge_base_high = 0\<rparr>"

definition g_gdt_entries_init :: gdt_entries where
  "g_gdt_entries_init = \<lparr>
     gdt_null = gdt_zero, gdt_reserved0 = gdt_zero, gdt_reserved1 = gdt_zero, gdt_reserved2 = gdt_zero,
     gdt_kernel_code = gdt_zero\<lparr>ge_access := 0b10011011, ge_granularity := 0b00100000\<rparr>,
     gdt_kernel_data = gdt_zero\<lparr>ge_access := 0b10010011, ge_granularity := 0b00000000\<rparr>,
     gdt_user_data = gdt_zero\<lparr>ge_access := 0b11110011, ge_granularity := 0b00000000\<rparr>,
     gdt_user_code = gdt_zero\<lparr>ge_access := 0b11111011, ge_granularity := 0b00100000\<rparr>,
     gdt_tss = \<lparr>te_length = 0, te_low = 0, te_mid = 0, te_flags1 = 0b10001001, te_flags2 = 0,
       te_high = 0, te_upper32 = 0, te_reserved = 0\<rparr>\<rparr>"

text \<open>\<open>tss_ist_t\<close>, with the numbers of the enumerators.\<close>

datatype tss_ist =
    TSS_IST_NONE | TSS_IST_DF | TSS_IST_NMI | TSS_IST_DB | TSS_IST_MCE | TSS_IST_CP | TSS_IST_MAX

fun tss_ist_no :: "tss_ist \<Rightarrow> nat" where
  "tss_ist_no TSS_IST_NONE = 0"
| "tss_ist_no TSS_IST_DF = 1"
| "tss_ist_no TSS_IST_NMI = 2"
| "tss_ist_no TSS_IST_DB = 3"
| "tss_ist_no TSS_IST_MCE = 4"
| "tss_ist_no TSS_IST_CP = 5"
| "tss_ist_no TSS_IST_MAX = 6"

record tss64 =
  tss_rsp0 :: u64
  tss_rsp1 :: u64
  tss_rsp2 :: u64
  tss_ist :: "u64 list"
  tss_iopb_offset :: u16

definition sizeof_tss64 :: u64 where "sizeof_tss64 = 104"

section \<open>State\<close>

text \<open>
  Fields, in order: the model specific registers; the control registers; the interrupt flag; the
  registers the tables are loaded into (limits and bases) and the segment selectors; then the static
  data: the IDT, the GDT, the TSS of this core and its address, \<open>m_x2apic_mode\<close>, and
  \<open>g_cpu_locals_offsets\<close> as boot has filled it.
\<close>

record cpu =
  msr :: "u32 \<Rightarrow> u64"
  c_cr0 :: u64
  c_cr2 :: u64
  c_cr4 :: u64
  c_if :: bool
  idtr_limit :: u16
  gdtr_limit :: u16
  seg_cs :: u16
  seg_data :: u16
  tr :: u16
  m_idt_entries :: "u8 \<Rightarrow> 128 word"
  g_gdt_entries :: gdt_entries
  m_tss :: tss64
  m_tss_addr :: ptr
  m_x2apic_mode :: bool
  g_cpu_locals_offsets :: "nat \<Rightarrow> u64"

section \<open>Model specific registers\<close>

definition MSR_IA32_APIC_BASE :: u32 where "MSR_IA32_APIC_BASE = 0x1B"
definition MSR_IA32_EFER :: u32 where "MSR_IA32_EFER = 0xC0000080"
definition MSR_IA32_GS_BASE :: u32 where "MSR_IA32_GS_BASE = 0xC0000101"
definition MSR_IA32_KERNEL_GS_BASE :: u32 where "MSR_IA32_KERNEL_GS_BASE = 0xC0000102"

text \<open>WRMSR takes the value in two halves, and RDMSR gives it so.\<close>

definition wrmsr :: "u32 \<Rightarrow> u64 \<Rightarrow> cpu \<Rightarrow> cpu" where
  "wrmsr index value c =
     (let low_data = ucast value :: u32;
          high_data = ucast (drop_bit 32 value) :: u32
      in c\<lparr>msr := (msr c)(index := push_bit 32 (ucast high_data) OR ucast low_data)\<rparr>)"

definition rdmsr :: "u32 \<Rightarrow> cpu \<Rightarrow> u64" where
  "rdmsr index c =
     (let low_data = ucast (msr c index) :: u32;
          high_data = ucast (drop_bit 32 (msr c index)) :: u32
      in ucast low_data OR push_bit 32 (ucast high_data))"

lemma split_halves: "ucast (ucast v :: u32) OR push_bit 32 (ucast (ucast (drop_bit 32 v) :: u32)) = (v :: u64)"
  by (rule bit_word_eqI) (auto simp: bit_simps)

lemma rdmsr_eq: "rdmsr index c = msr c index"
  by (simp only: rdmsr_def Let_def split_halves)

lemma wrmsr_eq: "wrmsr index value c = c\<lparr>msr := (msr c)(index := value)\<rparr>"
  by (simp only: wrmsr_def Let_def or.commute [of "push_bit 32 _"] split_halves)

section \<open>CPUID\<close>

text \<open>What the instruction reports (through the compiler's \<open>__get_cpuid\<close>) is an argument: \<open>None\<close> for a
  leaf that is not there.  The results are EAX, EBX, ECX, EDX.\<close>

type_synonym cpuid_fun = "u32 \<Rightarrow> u32 \<Rightarrow> (u32 \<times> u32 \<times> u32 \<times> u32) option"

definition CPUID_VERSION_INFO :: u32 where "CPUID_VERSION_INFO = 0x01"
definition CPUID_STRUCTURED_EXTENDED_FEATURE_FLAGS :: u32 where
  "CPUID_STRUCTURED_EXTENDED_FEATURE_FLAGS = 0x07"
definition CPUID_EXTENDED_CPU_SIG :: u32 where "CPUID_EXTENDED_CPU_SIG = 0x80000001"

definition cpuid :: "cpuid_fun \<Rightarrow> u32 \<Rightarrow> (u32 \<times> u32 \<times> u32 \<times> u32) option" where
  "cpuid get_cpuid leaf = get_cpuid leaf 0"

definition cpuid_count :: "cpuid_fun \<Rightarrow> u32 \<Rightarrow> u32 \<Rightarrow> (u32 \<times> u32 \<times> u32 \<times> u32) option" where
  "cpuid_count get_cpuid leaf subleaf = get_cpuid leaf subleaf"

definition has :: "layout \<Rightarrow> u32 \<Rightarrow> string \<Rightarrow> bool" where
  "has L raw f \<longleftrightarrow> bf_get L f raw \<noteq> 0"

definition arch_validate_required_cpu_features :: "cpuid_fun \<Rightarrow> unit option" where
  "arch_validate_required_cpu_features get_cpuid = do {
     (_, _, ecx, _) \<leftarrow> cpuid get_cpuid CPUID_VERSION_INFO;
     ASSERT (has CPUID_VERSION_INFO_ECX ecx ''XSAVE'');
     ASSERT (has CPUID_VERSION_INFO_ECX ecx ''SSE3'');
     ASSERT (has CPUID_VERSION_INFO_ECX ecx ''SSSE3'');
     ASSERT (has CPUID_VERSION_INFO_ECX ecx ''FMA'');
     ASSERT (has CPUID_VERSION_INFO_ECX ecx ''CMPXCHG16B'');
     ASSERT (has CPUID_VERSION_INFO_ECX ecx ''SSE4_1'');
     ASSERT (has CPUID_VERSION_INFO_ECX ecx ''SSE4_2'');
     ASSERT (has CPUID_VERSION_INFO_ECX ecx ''MOVBE'');
     ASSERT (has CPUID_VERSION_INFO_ECX ecx ''POPCNT'');
     ASSERT (has CPUID_VERSION_INFO_ECX ecx ''AVX'');
     ASSERT (has CPUID_VERSION_INFO_ECX ecx ''F16C'');
     (_, ebx, ecx, _) \<leftarrow> cpuid_count get_cpuid CPUID_STRUCTURED_EXTENDED_FEATURE_FLAGS 0;
     ASSERT (has CPUID_STRUCTURED_EXTENDED_FEATURE_FLAGS_EBX ebx ''BMI1'');
     ASSERT (has CPUID_STRUCTURED_EXTENDED_FEATURE_FLAGS_EBX ebx ''AVX2'');
     ASSERT (has CPUID_STRUCTURED_EXTENDED_FEATURE_FLAGS_EBX ebx ''BMI2'');
     ASSERT (has CPUID_STRUCTURED_EXTENDED_FEATURE_FLAGS_EBX ebx ''SMAP'');
     ASSERT (has CPUID_STRUCTURED_EXTENDED_FEATURE_FLAGS_EBX ebx ''SMEP'');
     ASSERT (has CPUID_STRUCTURED_EXTENDED_FEATURE_FLAGS_EBX ebx ''INVPCID'');
     ASSERT (has CPUID_STRUCTURED_EXTENDED_FEATURE_FLAGS_ECX ecx ''UMIP'');
     (_, _, ecx, edx) \<leftarrow> cpuid get_cpuid CPUID_EXTENDED_CPU_SIG;
     ASSERT (has CPUID_EXTENDED_CPU_SIG_ECX ecx ''LAHF_SAHF_64'');
     ASSERT (has CPUID_EXTENDED_CPU_SIG_ECX ecx ''LZCNT'');
     ASSERT (has CPUID_EXTENDED_CPU_SIG_EDX edx ''SYSCALL_SYSRET_64'');
     ASSERT (has CPUID_EXTENDED_CPU_SIG_EDX edx ''EXECUTE_DIS'') }"

section \<open>Control registers\<close>

definition BIT :: "nat \<Rightarrow> u64" where "BIT n = 2 ^ n"

definition arch_early_init :: "cpuid_fun \<Rightarrow> cpu \<Rightarrow> cpu option" where
  "arch_early_init get_cpuid c = do {
     arch_validate_required_cpu_features get_cpuid;
     let CR0_PG = BIT 31;
     let CR0_PE = BIT 0;
     let CR0_MP = BIT 1;
     let CR0_WP = BIT 16;
     let CR0_NE = BIT 5;
     let c = c\<lparr>c_cr0 := CR0_PG OR CR0_PE OR CR0_MP OR CR0_WP OR CR0_NE\<rparr>;
     let cr4 = (0 :: u32);
     let CR4_PAE = ucast (BIT 5);
     let CR4_PGE = ucast (BIT 7);
     let CR4_OSFXSR = ucast (BIT 9);
     let CR4_OSXMMEXCPT = ucast (BIT 10);
     let CR4_UMIP = ucast (BIT 11);
     let CR4_OSXSAVE = ucast (BIT 18);
     let CR4_SMEP = ucast (BIT 20);
     let CR4_SMAP = ucast (BIT 21);
     let cr4 = cr4 OR CR4_PAE;
     let cr4 = cr4 OR CR4_PGE;
     let cr4 = cr4 OR (CR4_OSFXSR OR CR4_OSXMMEXCPT);
     let cr4 = cr4 OR CR4_OSXSAVE;
     let cr4 = cr4 OR (CR4_SMAP OR CR4_SMEP);
     let cr4 = cr4 OR CR4_UMIP;
     let c = c\<lparr>c_cr4 := ucast cr4\<rparr>;
     let efer = (ucast (rdmsr MSR_IA32_EFER c) :: u32);
     let efer = bf_set MSR_IA32_EFER_REGISTER ''nxe'' 1 efer;
     let efer = bf_set MSR_IA32_EFER_REGISTER ''sce'' 1 efer;
     Some (wrmsr MSR_IA32_EFER (ucast efer) c) }"

end
