(* ===== verification/Intr.thy ===== *)
theory Intr
  imports Cpu
begin

text \<open>
  Interrupts: \<open>src/irq/intr.c\<close> (the descriptor table, the exception handlers), \<open>src/irq/apic.c\<close> (the
  local APIC) and \<open>src/boot/gdt.c\<close> (the descriptors and the task state of a core).
\<close>

section \<open>The frame of an interrupt\<close>

record interrupt_frame =
  if_rip :: u64
  if_cs :: u64
  if_rflags :: u64
  if_rsp :: u64
  if_ss :: u64

definition RFLAGS_IF :: u64 where "RFLAGS_IF = BIT 9"

definition cpu_irq_enable :: "cpu \<Rightarrow> cpu" where "cpu_irq_enable c = c\<lparr>c_if := True\<rparr>"
definition cpu_irq_disable :: "cpu \<Rightarrow> cpu" where "cpu_irq_disable c = c\<lparr>c_if := False\<rparr>"

text \<open>\<open>swapgs\<close>: the instruction exchanges the two registers, unless the kernel was interrupted.\<close>

definition swapgs :: "interrupt_frame \<Rightarrow> cpu \<Rightarrow> cpu" where
  "swapgs frame c =
     (if if_cs frame \<noteq> GDT_KERNEL_CODE then
        c\<lparr>msr := (msr c)(MSR_IA32_GS_BASE := msr c MSR_IA32_KERNEL_GS_BASE,
                         MSR_IA32_KERNEL_GS_BASE := msr c MSR_IA32_GS_BASE)\<rparr>
      else c)"

section \<open>What is reported of an exception\<close>

definition EXCEPT_IA32_PAGE_FAULT :: u8 where "EXCEPT_IA32_PAGE_FAULT = 14"
definition EXCEPT_IA32_GP_FAULT :: u8 where "EXCEPT_IA32_GP_FAULT = 13"

definition m_exception_names :: "string list" where
  "m_exception_names =
    [''#DE - Division Error'', ''#DB - Debug'', ''Non-maskable Interrupt'', ''#BP - Breakpoint'',
     ''#OF - Overflow'', ''#BR - Bound Range Exceeded'', ''#UD - Invalid Opcode'',
     ''#NM - Device Not Available'', ''#DF - Double Fault'', ''Coprocessor Segment Overrun'',
     ''#TS - Invalid TSS'', ''#NP - Segment Not Present'', ''#SS - Stack-Segment Fault'',
     ''#GP - General Protection Fault'', ''#PF - Page Fault'', ''Reserved'',
     ''#MF - x87 Floating-Point Exception'', ''#AC - Alignment Check'', ''#MC - Machine Check'',
     ''#XM/#XF - SIMD Floating-Point Exception'', ''#VE - Virtualization Exception'',
     ''#CP - Control Protection Exception'', ''Reserved'', ''Reserved'', ''Reserved'', ''Reserved'',
     ''Reserved'', ''Reserved'', ''#HV - Hypervisor Injection Exception'',
     ''#VC - VMM Communication Exception'', ''#SX - Security Exception'', ''Reserved'']"

definition get_segment_name :: "u64 \<Rightarrow> string" where
  "get_segment_name segment =
     (let s = segment AND NOT 0b111 in
      if s = GDT_KERNEL_CODE then ''kernel-code''
      else if s = GDT_USER_CODE then ''user-code''
      else if s = GDT_KERNEL_DATA then ''kernel-data''
      else if s = GDT_USER_DATA then ''user-data''
      else ''<unknown>'')"

text \<open>The lines about the cause: a page fault's, or the descriptor of a general protection fault.  A
  number is printed behind its text.\<close>

definition page_fault_lines :: "u64 \<Rightarrow> string list" where
  "page_fault_lines error =
     [if error AND IA32_PF_EC_PROT \<noteq> 0 then ''protection fault'' else ''no page found'',
      if error AND IA32_PF_EC_WRITE \<noteq> 0 then ''write access'' else ''read access'',
      if error AND IA32_PF_EC_USER \<noteq> 0 then ''user-mode access'' else ''kernel-mode access''] @
     (if error AND BIT 3 \<noteq> 0 then [''page fault: use of reserved bit detected''] else []) @
     (if error AND IA32_PF_EC_INSTR \<noteq> 0 then [''page fault: fault was an instruction fetch''] else []) @
     (if error AND BIT 5 \<noteq> 0 then [''page fault: protections keys block access''] else []) @
     (if error AND BIT 6 \<noteq> 0 then [''page fault: shadow stack access fault''] else []) @
     (if error AND BIT 15 \<noteq> 0 then [''page fault: SGX MMU page-fault''] else [])"

definition selector_line :: "u64 \<Rightarrow> string \<times> u32" where
  "selector_line error =
     (let selector = (ucast error :: u32);
          table = [''GDT'', ''IDT'', ''LDT'', ''IDT'']
      in (table ! unat (bf_get selector_error_code_t ''tbl'' selector),
          bf_get selector_error_code_t ''index'' selector))"

definition panic_lines :: "u64 \<Rightarrow> u8 \<Rightarrow> (string \<times> u32) list" where
  "panic_lines error exn =
     (m_exception_names ! unat exn, ucast exn) #
     (if exn = EXCEPT_IA32_PAGE_FAULT then map (\<lambda>s. (s, 0)) (page_fault_lines error)
      else if exn = EXCEPT_IA32_GP_FAULT \<and> error \<noteq> 0 then [selector_line error]
      else [])"

text \<open>The exception handler does not return: after its report it fails an assertion.  The model keeps
  the report on the cause and the state the core stops in; the dump of the frame and of the registers,
  which follows the report, only prints what that state holds.\<close>

datatype 'a outcome = Returns 'a | Panic "(string \<times> u32) list" cpu

definition panic_exception_handler :: "u64 \<Rightarrow> u8 \<Rightarrow> cpu \<Rightarrow> 'a outcome" where
  "panic_exception_handler error exn c = (let c = cpu_irq_disable c in Panic (panic_lines error exn) c)"

definition common_exception_handler :: "interrupt_frame \<Rightarrow> u64 \<Rightarrow> u8 \<Rightarrow> cpu \<Rightarrow> 'a outcome" where
  "common_exception_handler frame error exn c = panic_exception_handler error exn (swapgs frame c)"

text \<open>The two stubs, \<open>exception_handler_0xNN\<close>, without and with an error code.\<close>

definition EXCEPTION_STUB :: "u8 \<Rightarrow> interrupt_frame \<Rightarrow> cpu \<Rightarrow> 'a outcome" where
  "EXCEPTION_STUB num frame c = common_exception_handler frame 0 num c"

definition EXCEPTION_ERROR_STUB :: "u8 \<Rightarrow> interrupt_frame \<Rightarrow> u64 \<Rightarrow> cpu \<Rightarrow> 'a outcome" where
  "EXCEPTION_ERROR_STUB num frame error c = common_exception_handler frame error num c"

text \<open>Which vectors have a stub, and of which kind; vector 14 has its own handler.\<close>

definition exception_handler :: "u8 \<Rightarrow> interrupt_frame \<Rightarrow> u64 \<Rightarrow> cpu \<Rightarrow> 'a outcome option" where
  "exception_handler num frame error c =
     (if num \<in> set [0x08, 0x0A, 0x0B, 0x0C, 0x0D, 0x11, 0x15, 0x1D, 0x1E]
      then Some (EXCEPTION_ERROR_STUB num frame error c)
      else if num < 0x20 \<and> num \<noteq> 0x0E then Some (EXCEPTION_STUB num frame c)
      else None)"

text \<open>The page fault handler; \<open>None\<close> is a failed assertion below \<open>virt_page_fault_handler\<close>.\<close>

definition page_fault_handler ::
    "interrupt_frame \<Rightarrow> u64 \<Rightarrow> cpu \<Rightarrow> kstate \<Rightarrow> (cpu \<times> kstate) outcome option" where
  "page_fault_handler frame error_code c h =
     (let c = swapgs frame c;
          fault_address = c_cr2 c;
          c = (if if_rflags frame AND RFLAGS_IF \<noteq> 0 then cpu_irq_enable c else c)
      in do {
        (err, h) \<leftarrow> virt_page_fault_handler fault_address error_code h;
        if IS_ERROR err then Some (panic_exception_handler error_code EXCEPT_IA32_PAGE_FAULT c)
        else
          let c = cpu_irq_disable c;
              c = swapgs frame c
          in Some (Returns (c, h)) })"

section \<open>The descriptor table\<close>

definition IDT_TYPE_INTERRUPT_32 :: u64 where "IDT_TYPE_INTERRUPT_32 = 0xE"

definition idt_set :: "string \<Rightarrow> u64 \<Rightarrow> u8 \<Rightarrow> cpu \<Rightarrow> cpu" where
  "idt_set f v vector c =
     c\<lparr>m_idt_entries := (m_idt_entries c)(vector := bf_set idt_entry_t f (ucast v) (m_idt_entries c vector))\<rparr>"

definition intr_set_handler_ist :: "u8 \<Rightarrow> ptr \<Rightarrow> tss_ist \<Rightarrow> cpu \<Rightarrow> cpu" where
  "intr_set_handler_ist vector func ist c =
     (let c = idt_set ''handler_low'' (func AND 0xFFFF) vector c;
          c = idt_set ''handler_high'' (drop_bit 16 func) vector c;
          c = idt_set ''gate_type'' IDT_TYPE_INTERRUPT_32 vector c;
          c = idt_set ''selector'' GDT_KERNEL_CODE vector c;
          c = idt_set ''present'' 1 vector c
      in idt_set ''ist'' (of_nat (tss_ist_no ist)) vector c)"

definition intr_set_handler :: "u8 \<Rightarrow> ptr \<Rightarrow> cpu \<Rightarrow> cpu" where
  "intr_set_handler vector func c = intr_set_handler_ist vector func TSS_IST_NONE c"

text \<open>\<open>stub n\<close> is the address of \<open>exception_handler_n\<close>, and \<open>pf\<close> that of \<open>page_fault_handler\<close>.\<close>

definition intr_init :: "(u8 \<Rightarrow> ptr) \<Rightarrow> ptr \<Rightarrow> cpu \<Rightarrow> cpu" where
  "intr_init stub pf c =
     (let c = intr_set_handler 0 (stub 0x00) c;
          c = intr_set_handler_ist 1 (stub 0x01) TSS_IST_DB c;
          c = intr_set_handler_ist 2 (stub 0x02) TSS_IST_NMI c;
          c = intr_set_handler 3 (stub 0x03) c;
          c = intr_set_handler 4 (stub 0x04) c;
          c = intr_set_handler 5 (stub 0x05) c;
          c = intr_set_handler 6 (stub 0x06) c;
          c = intr_set_handler 0x07 (stub 0x07) c;
          c = intr_set_handler_ist 8 (stub 0x08) TSS_IST_DF c;
          c = intr_set_handler 0x09 (stub 0x09) c;
          c = intr_set_handler 10 (stub 0x0A) c;
          c = intr_set_handler 11 (stub 0x0B) c;
          c = intr_set_handler 12 (stub 0x0C) c;
          c = intr_set_handler EXCEPT_IA32_GP_FAULT (stub 0x0D) c;
          c = intr_set_handler EXCEPT_IA32_PAGE_FAULT pf c;
          c = intr_set_handler 0x0F (stub 0x0F) c;
          c = intr_set_handler 16 (stub 0x10) c;
          c = intr_set_handler 17 (stub 0x11) c;
          c = intr_set_handler_ist 18 (stub 0x12) TSS_IST_MCE c;
          c = intr_set_handler 19 (stub 0x13) c;
          c = intr_set_handler 0x14 (stub 0x14) c;
          c = intr_set_handler_ist 21 (stub 0x15) TSS_IST_CP c;
          c = intr_set_handler 0x16 (stub 0x16) c;
          c = intr_set_handler 0x17 (stub 0x17) c;
          c = intr_set_handler 0x18 (stub 0x18) c;
          c = intr_set_handler 0x19 (stub 0x19) c;
          c = intr_set_handler 0x1A (stub 0x1A) c;
          c = intr_set_handler 0x1B (stub 0x1B) c;
          c = intr_set_handler 0x1C (stub 0x1C) c;
          c = intr_set_handler 0x1D (stub 0x1D) c;
          c = intr_set_handler 0x1E (stub 0x1E) c;
          c = intr_set_handler 0x1F (stub 0x1F) c
      in c\<lparr>idtr_limit := 256 * 16 - 1\<rparr>)"

section \<open>The local APIC\<close>

definition INTR_VECTOR_SPURIOUS :: u8 where "INTR_VECTOR_SPURIOUS = 0xFF"
definition X2APIC_MSR_BASE_ADDRESS :: u64 where "X2APIC_MSR_BASE_ADDRESS = 0x800"
definition XAPIC_SPURIOUS_VECTOR_OFFSET :: u64 where "XAPIC_SPURIOUS_VECTOR_OFFSET = 0x0f0"

definition lapic_write :: "u64 \<Rightarrow> u32 \<Rightarrow> cpu \<Rightarrow> cpu option" where
  "lapic_write offset value c =
     (if m_x2apic_mode c then Some (wrmsr (ucast (drop_bit 4 offset + X2APIC_MSR_BASE_ADDRESS)) (ucast value) c)
      else None)"

definition lapic_init_per_core :: "cpu \<Rightarrow> cpu option" where
  "lapic_init_per_core c = do {
     let apic_base = rdmsr MSR_IA32_APIC_BASE c;
     ASSERT (bf_get MSR_IA32_APIC_BASE_REGISTER ''en'' apic_base \<noteq> 0);
     if bf_get MSR_IA32_APIC_BASE_REGISTER ''extd'' apic_base \<noteq> 0 then do {
       ASSERT (m_x2apic_mode c);
       let svr = bf_init LOCAL_APIC_SVR [(''spurious_vector'', ucast INTR_VECTOR_SPURIOUS),
                                         (''software_enable'', 1)];
       lapic_write XAPIC_SPURIOUS_VECTOR_OFFSET svr c }
     else None }"

text \<open>\<open>spurious\<close> is the address of \<open>spurious_interrupt_handler\<close>, which only warns.\<close>

definition lapic_init :: "ptr \<Rightarrow> cpu \<Rightarrow> cpu option" where
  "lapic_init spurious c = do {
     let apic_base = rdmsr MSR_IA32_APIC_BASE c;
     ASSERT (bf_get MSR_IA32_APIC_BASE_REGISTER ''en'' apic_base \<noteq> 0);
     c \<leftarrow> (if bf_get MSR_IA32_APIC_BASE_REGISTER ''extd'' apic_base \<noteq> 0
           then Some (c\<lparr>m_x2apic_mode := True\<rparr>)
           else None);
     let c = intr_set_handler INTR_VECTOR_SPURIOUS spurious c;
     lapic_init_per_core c }"

section \<open>The descriptors of a core\<close>

definition m_ist_name :: "string list" where
  "m_ist_name = [''ist-df-%zu'', ''ist-nmi-%zu'', ''ist-db-%zu'', ''ist-mce-%zu'', ''ist-cp-%zu'']"

text \<open>The loop of \<open>tss_init\<close> over the interrupt stacks, from \<open>i\<close> on.\<close>

fun tss_stacks :: "u64 \<Rightarrow> nat \<Rightarrow> nat \<Rightarrow> u64 list \<Rightarrow> kstate \<Rightarrow> (u64 list \<times> kstate) option" where
  "tss_stacks cpu_id i 0 ists h = Some (ists, h)"
| "tss_stacks cpu_id i (Suc k) ists h = do {
     (err, allocation, h) \<leftarrow> stack_alloc PAGE_SIZE False h;
     ASSERT (\<not> IS_ERROR err);
     alloc \<leftarrow> allocation;
     h \<leftarrow> vmar_set_name (stack_region alloc) (lit (m_ist_name ! i)) [Va_Int cpu_id] h;
     h \<leftarrow> vmar_lock (stack_region alloc) h;
     h \<leftarrow> vmar_put (stack_region alloc) h;
     tss_stacks cpu_id (Suc i) k (ists[i := stack_bottom alloc]) h }"

definition tss_descriptor :: "ptr \<Rightarrow> u32 \<Rightarrow> tss64_entry" where
  "tss_descriptor base limit = \<lparr>
     te_length = ucast (limit AND 0xFFFF),
     te_low = ucast (base AND 0xFFFF),
     te_mid = ucast (drop_bit 16 base AND 0xFF),
     te_flags1 = 0b10001001,
     te_flags2 = ucast (drop_bit 16 limit AND 0xF),
     te_high = ucast (drop_bit 24 base AND 0xFF),
     te_upper32 = ucast (drop_bit 32 base),
     te_reserved = 0\<rparr>"

definition tss_init :: "u64 \<Rightarrow> cpu \<Rightarrow> kstate \<Rightarrow> (cpu \<times> kstate) option" where
  "tss_init cpu_id c h = do {
     let tss = (m_tss c)\<lparr>tss_iopb_offset := ucast sizeof_tss64\<rparr>;
     (ists, h) \<leftarrow> tss_stacks cpu_id 0 (tss_ist_no TSS_IST_MAX - 1) (tss_ist tss) h;
     let tss = tss\<lparr>tss_ist := ists\<rparr>;
     let g = (g_gdt_entries c)\<lparr>gdt_tss := tss_descriptor (m_tss_addr c) (ucast sizeof_tss64)\<rparr>;
     Some (c\<lparr>m_tss := tss, g_gdt_entries := g, tr := ucast GDT_TSS\<rparr>, h) }"

definition gdt_init :: "u64 \<Rightarrow> cpu \<Rightarrow> kstate \<Rightarrow> (cpu \<times> kstate) option" where
  "gdt_init cpu_id c h =
     (let c = c\<lparr>gdtr_limit := ucast sizeof_gdt_entries - 1, seg_cs := ucast GDT_KERNEL_CODE,
                seg_data := ucast GDT_KERNEL_DATA\<rparr>;
          off = (if cpu_id \<noteq> 0 then g_cpu_locals_offsets c (unat cpu_id) else 0);
          c = wrmsr MSR_IA32_GS_BASE off c
      in tss_init cpu_id c h)"

section \<open>Initialisation\<close>

definition arch_init :: "(u8 \<Rightarrow> ptr) \<Rightarrow> ptr \<Rightarrow> ptr \<Rightarrow> cpu \<Rightarrow> kstate \<Rightarrow> (cpu \<times> kstate) option" where
  "arch_init stub pf spurious c h = do {
     (c, h) \<leftarrow> gdt_init 0 c h;
     let c = intr_init stub pf c;
     c \<leftarrow> lapic_init spurious c;
     Some (c, h) }"

end
