(* ===== verification/Intr_Props.thy ===== *)
theory Intr_Props
  imports Intr Page_Fault
begin

text \<open>The properties of the interrupt code: the gates, the way into and out of a page fault.\<close>

section \<open>A gate\<close>

text \<open>What \<open>intr_set_handler_ist\<close> makes of an entry.\<close>

definition set_gate :: "ptr \<Rightarrow> tss_ist \<Rightarrow> 128 word \<Rightarrow> 128 word" where
  "set_gate func ist e =
     bf_set idt_entry_t ''ist'' (ucast (of_nat (tss_ist_no ist) :: u64))
      (bf_set idt_entry_t ''present'' (ucast (1 :: u64))
       (bf_set idt_entry_t ''selector'' (ucast GDT_KERNEL_CODE)
        (bf_set idt_entry_t ''gate_type'' (ucast IDT_TYPE_INTERRUPT_32)
         (bf_set idt_entry_t ''handler_high'' (ucast (drop_bit 16 func))
          (bf_set idt_entry_t ''handler_low'' (ucast (func AND 0xFFFF)) e)))))"

text \<open>What the processor reads in it: the handler's address from its two parts, a present interrupt
  gate into the kernel's code segment on the stack asked for; the rest is as it was.\<close>

definition gate_to :: "ptr \<Rightarrow> tss_ist \<Rightarrow> 128 word \<Rightarrow> 128 word \<Rightarrow> bool" where
  "gate_to func ist e e' \<longleftrightarrow>
     ucast (bf_get idt_entry_t ''handler_low'' e') OR
       push_bit 16 (ucast (bf_get idt_entry_t ''handler_high'' e')) = func \<and>
     bf_get idt_entry_t ''selector'' e' = ucast GDT_KERNEL_CODE \<and>
     bf_get idt_entry_t ''gate_type'' e' = 0xE \<and> bf_get idt_entry_t ''present'' e' = 1 \<and>
     bf_get idt_entry_t ''ist'' e' = of_nat (tss_ist_no ist) \<and>
     (\<forall>f\<in>{''_zero1'', ''_zero2'', ''ring'', ''_zero3''}. bf_get idt_entry_t f e' = bf_get idt_entry_t f e)"

lemma idt_find:
  "bf_find idt_entry_t ''handler_low'' 0 = Some (0, 16)" "bf_find idt_entry_t ''selector'' 0 = Some (16, 16)"
  "bf_find idt_entry_t ''ist'' 0 = Some (32, 3)" "bf_find idt_entry_t ''gate_type'' 0 = Some (40, 4)"
  "bf_find idt_entry_t ''present'' 0 = Some (47, 1)" "bf_find idt_entry_t ''handler_high'' 0 = Some (48, 48)"
  by (simp_all add: idt_entry_t_def)

lemma idt_get_set:
  "bf_get idt_entry_t f (bf_set idt_entry_t f v e) =
     (case bf_find idt_entry_t f 0 of None \<Rightarrow> 0 | Some (off, w) \<Rightarrow> take_bit w (v :: 128 word))"
proof (cases "bf_find idt_entry_t f 0")
  case None
  then show ?thesis by (simp add: bf_get_def)
next
  case (Some p)
  then obtain off w where "bf_find idt_entry_t f 0 = Some (off, w)" by (cases p) simp
  then show ?thesis using bf_get_set [of idt_entry_t f off w v e] idt_entry_width by simp
qed

lemma gate_halves:
  "ucast (take_bit 16 (ucast (func AND 0xFFFF) :: 128 word)) OR
     push_bit 16 (ucast (take_bit 48 (ucast (drop_bit 16 func) :: 128 word))) = (func :: u64)"
proof (rule bit_word_eqI)
  fix n assume "n < LENGTH(64)"
  have m: "(0xFFFF :: u64) = mask 16" by (simp add: mask_eq_exp_minus_1)
  show "bit (ucast (take_bit 16 (ucast (func AND 0xFFFF) :: 128 word)) OR
     push_bit 16 (ucast (take_bit 48 (ucast (drop_bit 16 func) :: 128 word))) :: u64) n = bit func n"
    unfolding m using \<open>n < LENGTH(64)\<close> by (auto simp: bit_simps)
qed

lemma set_gate: "gate_to func ist e (set_gate func ist e)"
proof -
  have i: "take_bit 3 (ucast (of_nat (tss_ist_no ist) :: u64) :: 128 word) = of_nat (tss_ist_no ist)"
    by (cases ist) (simp_all add: take_bit_eq_mod)
  show ?thesis
    unfolding gate_to_def set_gate_def
    by (simp add: bf_get_set_other idt_get_set idt_find gate_halves i GDT_KERNEL_CODE_def
        IDT_TYPE_INTERRUPT_32_def del: take_bit_and)
qed

lemma idt_set_handler:
  "m_idt_entries (intr_set_handler_ist vector func ist c) v =
     (if v = vector then set_gate func ist (m_idt_entries c v) else m_idt_entries c v)"
  by (simp add: intr_set_handler_ist_def idt_set_def set_gate_def Let_def)

text \<open>Which handler and which stack each of the 32 vectors of the processor gets.\<close>

definition vector_handler :: "(u8 \<Rightarrow> ptr) \<Rightarrow> ptr \<Rightarrow> u8 \<Rightarrow> ptr" where
  "vector_handler stub pf v = (if v = EXCEPT_IA32_PAGE_FAULT then pf else stub v)"

definition vector_ist :: "u8 \<Rightarrow> tss_ist" where
  "vector_ist v = (if v = 1 then TSS_IST_DB else if v = 2 then TSS_IST_NMI else if v = 8 then TSS_IST_DF
     else if v = 18 then TSS_IST_MCE else if v = 21 then TSS_IST_CP else TSS_IST_NONE)"

lemma u8_less_32:
  assumes "(v :: u8) < 32"
  shows "v \<in> {0, 1, 2, 3, 4, 5, 6, 7, 8, 9, 10, 11, 12, 13, 14, 15, 16, 17, 18, 19, 20, 21, 22, 23,
    24, 25, 26, 27, 28, 29, 30, 31}"
proof -
  have "unat v < 32" using assms by (simp add: word_less_nat_alt)
  then have "unat v \<in> set [0..<32]" by simp
  then have "v \<in> of_nat ` set [0..<32]" by (intro image_eqI [of _ _ "unat v"]) simp_all
  then show ?thesis by (simp add: upt_conv_Cons)
qed

lemma intr_init_entries:
  "m_idt_entries (intr_init stub pf c) v =
     (if v < 32 then set_gate (vector_handler stub pf v) (vector_ist v) (m_idt_entries c v)
      else m_idt_entries c v)"
proof (cases "v < 32")
  case False
  then have "v \<notin> {0, 1, 2, 3, 4, 5, 6, 7, 8, 9, 10, 11, 12, 13, 14, 15, 16, 17, 18, 19, 20, 21, 22, 23,
    24, 25, 26, 27, 28, 29, 30, 31}" by auto
  with False show ?thesis
    by (simp add: intr_init_def intr_set_handler_def idt_set_handler EXCEPT_IA32_GP_FAULT_def
        EXCEPT_IA32_PAGE_FAULT_def Let_def)
next
  case True
  from u8_less_32 [OF True] show ?thesis
    by (elim insertE emptyE)
      (simp_all add: intr_init_def intr_set_handler_def idt_set_handler EXCEPT_IA32_GP_FAULT_def
        EXCEPT_IA32_PAGE_FAULT_def Let_def vector_handler_def vector_ist_def)
qed

text \<open>C26: After \<open>intr_init\<close> each of the 32 exception vectors has a present interrupt gate into the
  kernel whose two address fields make up the address of its own handler (the page fault handler for
  vector 14, the stub of the same number for every other), on the interrupt stack that was set up
  for it (debug, non-maskable, double fault, machine check and control protection have one each); the
  other fields and all other vectors are untouched.\<close>

theorem intr_init_correct:
  "if v < 32 then gate_to (vector_handler stub pf v) (vector_ist v)
     (m_idt_entries c v) (m_idt_entries (intr_init stub pf c) v)
   else m_idt_entries (intr_init stub pf c) v = m_idt_entries c v"
  by (simp add: intr_init_entries set_gate)

section \<open>Into and out of a page fault\<close>

lemma swapgs_simps [simp]:
  "c_cr2 (swapgs frame c) = c_cr2 c" "swapgs frame (swapgs frame c) = c"
  "swapgs frame (cpu_irq_enable c) = cpu_irq_enable (swapgs frame c)"
  "swapgs frame (cpu_irq_disable c) = cpu_irq_disable (swapgs frame c)"
proof -
  have "MSR_IA32_GS_BASE \<noteq> MSR_IA32_KERNEL_GS_BASE"
    by (simp add: MSR_IA32_GS_BASE_def MSR_IA32_KERNEL_GS_BASE_def)
  then have "(msr c)(MSR_IA32_GS_BASE := msr c MSR_IA32_GS_BASE,
      MSR_IA32_KERNEL_GS_BASE := msr c MSR_IA32_KERNEL_GS_BASE) = msr c" by (intro ext) simp
  with \<open>MSR_IA32_GS_BASE \<noteq> _\<close> show "swapgs frame (swapgs frame c) = c"
    by (cases c) (auto simp: swapgs_def fun_upd_twist)
qed (simp_all add: swapgs_def cpu_irq_enable_def cpu_irq_disable_def)

lemma irq_disable_simps [simp]:
  "cpu_irq_disable (cpu_irq_enable c) = cpu_irq_disable c" "c_if (cpu_irq_disable c) = False"
  by (simp_all add: cpu_irq_enable_def cpu_irq_disable_def)

text \<open>C27: A page fault, from the interrupt gate to the return from it.  When the address lies in a
  mapping that the fault may populate, the handler returns with the page of the address there for the
  processor's walk, with every register as it was on entry (both GS bases too, whatever mode was
  interrupted) and interrupts off for the return.  A fault of the user that cannot be served stops
  without a report (killing a thread is not implemented); any other one, a bad error code included,
  is reported as a page fault and the core halts with interrupts off.\<close>

theorem page_fault_entry_correct:
  assumes "vspace h (Region_Vmar (pf_root h (c_cr2 c) ec) ts)" "m_vmar_lock (vs h) = 0"
    and "v = leaf_at (vs h) (c_cr2 c) (Region_Vmar (pf_root h (c_cr2 c) ec) ts)" "v \<noteq> 0 \<Longrightarrow> idle_vmar h v"
    and "pf_served h ec v \<Longrightarrow> page_ready (dm_base h) (phys_mem (vs h)) (c_cr2 c) F A P T"
  shows "if pf_valid ec \<and> pf_served h ec v then
      \<exists>m. page_fault_handler frame ec c h = Some (Returns (c\<lparr>c_if := False\<rparr>, set_phys m h)) \<and>
        page_there (dm_base h) (c_cr2 c) A P T
          (page_access (virt_is_user_address (user_end h) (c_cr2 c)) (vm_locked (vs h) v)) (phys_mem (vs h)) m
    else page_fault_handler frame ec c h =
      (if pf_valid ec \<and> ec AND IA32_PF_EC_USER \<noteq> 0 then None
       else Some (Panic (panic_lines ec EXCEPT_IA32_PAGE_FAULT) ((swapgs frame c)\<lparr>c_if := False\<rparr>)))"
proof -
  have d: "cpu_irq_disable x = x\<lparr>c_if := False\<rparr>" for x by (simp add: cpu_irq_disable_def)
  note run = handler_ok [OF assms(1-4)]
  show ?thesis
  proof (cases "pf_valid ec \<and> pf_served h ec v")
    case True
    with populate_one [OF assms(5), of "user_end h" "vm_locked (vs h) v"] run show ?thesis
      by (auto simp: page_fault_handler_def Let_def d [symmetric])
  next
    case False
    with run show ?thesis
      by (auto simp: page_fault_handler_def panic_exception_handler_def Let_def d [symmetric])
  qed
qed

lemma page_fault_entry_witness:
  "\<exists>h m c. c_cr2 c = 0x1000 \<and> phys_mem (vs h) = fault_mm \<and> walk_entry 0x100000 fault_mm 1 = 0 \<and>
     page_fault_handler \<lparr>if_rip = 0, if_cs = GDT_USER_CODE, if_rflags = 0, if_rsp = 0, if_ss = 0\<rparr> 6 c h =
       Some (Returns (c\<lparr>c_if := False\<rparr>, set_phys m h)) \<and> walk_entry 0x100000 m 1 AND IA32_PG_P \<noteq> 0"
proof -
  fix c0 :: cpu
  let ?c = "c0\<lparr>c_cr2 := 0x1000\<rparr>"
  let ?f = "\<lparr>if_rip = 0, if_cs = GDT_USER_CODE, if_rflags = 0, if_rsp = 0, if_ss = 0\<rparr>"
  obtain h where h: "vspace h (Region_Vmar (pf_root h 0x1000 6) [Leaf_Vmar 0x1000])" "m_vmar_lock (vs h) = 0"
    "0x1000 = leaf_at (vs h) 0x1000 (Region_Vmar (pf_root h 0x1000 6) [Leaf_Vmar 0x1000])" "idle_vmar h 0x1000"
    "page_ready (dm_base h) (phys_mem (vs h)) 0x1000 fault_free fault_blocks fault_frames fault_tables"
    "pf_served h 6 0x1000" "dm_base h = 0x100000" "phys_mem (vs h) = fault_mm"
    by (rule user_space)
  have cr2: "c_cr2 ?c = 0x1000" by simp
  have "pf_valid 6" by (simp add: pf_valid_def pf_defs)
  with page_fault_entry_correct [where frame = ?f and h = h and c = ?c and ec = 6, unfolded cr2, OF h(1-3) h(4) h(5)] h(6-8) obtain m where
    "page_fault_handler ?f 6 ?c h = Some (Returns (?c\<lparr>c_if := False\<rparr>, set_phys m h))"
    "walk_entry 0x100000 m (page_no 0x1000) AND IA32_PG_P \<noteq> 0"
    by (auto simp: page_there_def Let_def)
  moreover have "page_no 0x1000 = 1" by (simp add: page_no_def)
  ultimately show ?thesis using h(8) fault_entry cr2 by metis
qed

end
