(* ===== verification/Boot_Entry.thy ===== *)
theory Boot_Entry
  imports Boot Intr Threads "HOL-Library.Multiset"
begin

text \<open>
  The entry point, \<open>src/boot/entry.c\<close>, with \<open>src/boot/random.c\<close> and the initialisation of
  \<open>src/boot/arch.c\<close>: the order in which the parts of the kernel come up on the first core, and the
  start of the others.
\<close>

section \<open>Random values of the boot loader\<close>

text \<open>The response (its values) and which of them were given; the only index is 0.\<close>

record entropy =
  entropy_values :: "u64 list option"
  m_entropy_given :: "nat \<Rightarrow> bool"

definition RANDOM_INDEX_STACK_CHK_GUARD :: nat where "RANDOM_INDEX_STACK_CHK_GUARD = 0"

definition boot_random_get :: "nat \<Rightarrow> entropy \<Rightarrow> (u64 \<times> entropy) option" where
  "boot_random_get index s = do {
     values \<leftarrow> entropy_values s;
     ASSERT (index < length values);
     ASSERT (\<not> m_entropy_given s index);
     let s = s\<lparr>m_entropy_given := (m_entropy_given s)(index := True)\<rparr>;
     let value = values ! index;
     Some (value, s\<lparr>entropy_values := Some (values[index := 0])\<rparr>) }"

definition init_stack_guard :: "entropy \<Rightarrow> (u64 \<times> entropy) option" where
  "init_stack_guard s = do {
     (value, s) \<leftarrow> boot_random_get RANDOM_INDEX_STACK_CHK_GUARD s;
     let value = value AND NOT 0xFF;
     Some (value, s) }"

section \<open>The other cores\<close>

record limine_mp_info =
  mp_lapic_id :: u32
  mp_goto_address :: u64
  mp_extra_argument :: u64

record limine_mp_response =
  bsp_lapic_id :: u32
  mp_cpus :: "limine_mp_info list"

text \<open>The loop of \<open>start_cores\<close>; \<open>entry\<close> is the address of \<open>core_entry\<close>.\<close>

fun start_cores_loop :: "u64 \<Rightarrow> u32 \<Rightarrow> u64 \<Rightarrow> limine_mp_info list \<Rightarrow> limine_mp_info list" where
  "start_cores_loop entry bsp cid [] = []"
| "start_cores_loop entry bsp cid (info # infos) =
     (if mp_lapic_id info = bsp
      then info\<lparr>mp_extra_argument := 0\<rparr> # start_cores_loop entry bsp cid infos
      else info\<lparr>mp_extra_argument := cid, mp_goto_address := entry\<rparr> #
           start_cores_loop entry bsp (cid + 1) infos)"

text \<open>Up to the wait for the other cores.\<close>

definition start_cores :: "u64 \<Rightarrow> limine_mp_response option \<Rightarrow> limine_mp_response option" where
  "start_cores entry mp =
     (case mp of
        None \<Rightarrow> None
      | Some mp \<Rightarrow>
          Some (mp\<lparr>mp_cpus := start_cores_loop entry (bsp_lapic_id mp) 1 (mp_cpus mp)\<rparr>))"

definition arch_init_per_core ::
    "cpuid_fun \<Rightarrow> (u8 \<Rightarrow> ptr) \<Rightarrow> ptr \<Rightarrow> u64 \<Rightarrow> cpu \<Rightarrow> boot \<Rightarrow> (cpu \<times> boot) option" where
  "arch_init_per_core get_cpuid stub pf cid c b = do {
     c \<leftarrow> arch_early_init get_cpuid c;
     let b = early_virt_switch_table b;
     (c, h) \<leftarrow> gdt_init cid c (bk b);
     let c = intr_init stub pf c;
     c \<leftarrow> lapic_init_per_core c;
     Some (c, b\<lparr>bk := h\<rparr>) }"

text \<open>\<open>core_entry\<close>; the boot loader hands every core its own record.\<close>

definition core_entry ::
    "cpuid_fun \<Rightarrow> (u8 \<Rightarrow> ptr) \<Rightarrow> ptr \<Rightarrow> limine_mp_info \<Rightarrow> cpu \<Rightarrow> boot \<Rightarrow> sched \<Rightarrow> (cpu \<times> sched) option" where
  "core_entry get_cpuid stub pf info c b s = do {
     (c, b) \<leftarrow> arch_init_per_core get_cpuid stub pf (mp_extra_argument info) c (b\<lparr>bk := kst s\<rparr>);
     Some (c, sched_start_per_core (s\<lparr>kst := bk b\<rparr>)) }"

section \<open>The locals of the cores\<close>

text \<open>
  Fields, in order: \<open>g_cpu_count\<close>; the address of the array \<open>g_cpu_locals_offsets\<close>; the locals
  \<open>g_cpu_locals_offset\<close> and \<open>g_cpu_id\<close> of each core; the rest of the kernel.
\<close>

record cpu_locals =
  lo_cpu_count :: u64
  lo_offsets :: ptr
  lo_offset :: "nat \<Rightarrow> u64"
  lo_cpu_id :: "nat \<Rightarrow> u64"
  lo_k :: kstate

definition set_local_offset :: "nat \<Rightarrow> u64 \<Rightarrow> cpu_locals \<Rightarrow> cpu_locals" where
  "set_local_offset i offset s = s\<lparr>
     lo_k := on_vs (phys_mem_update (store64 (lo_offsets s + 8 * of_nat i) offset)) (lo_k s),
     lo_offset := (lo_offset s)(i := offset), lo_cpu_id := (lo_cpu_id s)(i := of_nat i)\<rparr>"

text \<open>The loop over the cores from \<open>i\<close> on; \<open>start\<close> is \<open>__start_cpu_locals\<close>.\<close>

fun alloc_locals_loop :: "ptr \<Rightarrow> u64 \<Rightarrow> nat \<Rightarrow> nat \<Rightarrow> cpu_locals \<Rightarrow> cpu_locals option" where
  "alloc_locals_loop start page_count i 0 s = Some s"
| "alloc_locals_loop start page_count i (Suc k) s = do {
     let h = lo_k s;
     (err, vmar, h) \<leftarrow> vmar_map (g_kernel_region (vs h)) VMAR_ANY_OFFSET page_count h;
     ASSERT (\<not> IS_ERROR err);
     (err, h) \<leftarrow> vmar_populate vmar h;
     ASSERT (\<not> IS_ERROR err);
     h \<leftarrow> vmar_lock vmar h;
     h \<leftarrow> vmar_set_name vmar (lit ''cpu-locals-%zu'') [Va_Int (of_nat i)] h;
     let offset = vm_base (vs h) vmar - start;
     let s = set_local_offset i offset (s\<lparr>lo_k := h\<rparr>);
     h \<leftarrow> vmar_put vmar (lo_k s);
     alloc_locals_loop start page_count (Suc i) k (s\<lparr>lo_k := h\<rparr>) }"

definition alloc_cpu_locals ::
    "limine_mp_response option \<Rightarrow> ptr \<Rightarrow> ptr \<Rightarrow> cpu_locals \<Rightarrow> cpu_locals option" where
  "alloc_cpu_locals mp start stop s = do {
     cpu_count \<leftarrow> (case mp of
         None \<Rightarrow> Some 1
       | Some mp \<Rightarrow> let n = of_nat (length (mp_cpus mp)) in do { ASSERT ((1 :: u64) \<le> n); Some n });
     let s = s\<lparr>lo_cpu_count := cpu_count\<rparr>;
     (p, h) \<leftarrow> on_mem_res (phys_alloc (dm_base (lo_k s)) (cpu_count * 8)) (lo_k s);
     ASSERT (p \<noteq> 0);
     let s = set_local_offset 0 0 (s\<lparr>lo_offsets := p, lo_k := h\<rparr>);
     let locals_page_count = DIV_ROUND_UP (stop - start) PAGE_SIZE;
     alloc_locals_loop start locals_page_count 1 (unat (cpu_count - 1)) s }"

section \<open>The entry point\<close>

text \<open>The boot loader clears the third word when it supports the revision asked for.\<close>

definition bootloader_sanity :: "u64 list \<Rightarrow> unit option" where
  "bootloader_sanity limine_base_revision = ASSERT (limine_base_revision ! 2 = 0)"

text \<open>The addresses that the linker fixes.\<close>

record kernel_addrs =
  ka_exception :: "u8 \<Rightarrow> ptr"
  ka_page_fault :: ptr
  ka_spurious :: ptr
  ka_thread_thunk :: u64
  ka_idle_thread :: u64
  ka_init_thread :: u64
  ka_start_locals :: ptr
  ka_stop_locals :: ptr

text \<open>\<open>_start\<close> up to the switch to the idle thread; the results are the stack guard, the processor and
  the scheduler of the first core.\<close>

definition kernel_start ::
    "cpuid_fun \<Rightarrow> kernel_addrs \<Rightarrow> u64 list \<Rightarrow> limine_mp_response option \<Rightarrow> entropy \<Rightarrow> cpu \<Rightarrow> boot \<Rightarrow>
     cpu_locals \<Rightarrow> sched \<Rightarrow> (u64 \<times> cpu \<times> sched) option" where
  "kernel_start get_cpuid ka revision mp e c b l s = do {
     bootloader_sanity revision;
     (guard, e) \<leftarrow> init_stack_guard e;
     c \<leftarrow> arch_early_init get_cpuid c;
     b \<leftarrow> early_virt_init b;
     l \<leftarrow> alloc_cpu_locals mp (ka_start_locals ka) (ka_stop_locals ka) (l\<lparr>lo_k := bk b\<rparr>);
     (c, h) \<leftarrow> arch_init (ka_exception ka) (ka_page_fault ka) (ka_spurious ka)
       (c\<lparr>g_cpu_locals_offsets := lo_offset l\<rparr>) (lo_k l);
     s \<leftarrow> sched_init (ka_thread_thunk ka) (ka_idle_thread ka) (s\<lparr>kst := h, g_cpu_count := lo_cpu_count l\<rparr>);
     (err, thread, s) \<leftarrow> thread_create (ka_thread_thunk ka) (ka_init_thread ka) 0 (lit ''init'') [] s;
     ASSERT (\<not> IS_ERROR err);
     s \<leftarrow> thread_start thread s;
     Some (guard, c, sched_start_per_core s) }"

section \<open>The numbers of the cores\<close>

definition other_cores :: "u32 \<Rightarrow> limine_mp_info list \<Rightarrow> nat" where
  "other_cores bsp infos = length (filter (\<lambda>i. mp_lapic_id i \<noteq> bsp) infos)"

lemma start_cores_loop_ids:
  "mset (map mp_extra_argument (start_cores_loop entry bsp (of_nat k) infos)) =
   replicate_mset (length infos - other_cores bsp infos) 0 +
   mset (map of_nat [k..<k + other_cores bsp infos])"
proof (induction infos arbitrary: k)
  case (Cons info infos)
  have le: "other_cores bsp infos \<le> length infos" by (simp add: other_cores_def)
  show ?case
  proof (cases "mp_lapic_id info = bsp")
    case True
    then show ?thesis using Cons [of k] le by (simp add: other_cores_def Suc_diff_le)
  next
    case False
    then have o: "other_cores bsp (info # infos) = Suc (other_cores bsp infos)" by (simp add: other_cores_def)
    have "[k..<k + Suc (other_cores bsp infos)] = k # [Suc k..<Suc k + other_cores bsp infos]"
      by (simp add: upt_conv_Cons)
    then show ?thesis using False Cons [of "Suc k"] unfolding o by (simp add: add.commute)
  qed
qed (simp add: other_cores_def)

lemma start_cores_loop_lapic:
  "map mp_lapic_id (start_cores_loop entry bsp k infos) = map mp_lapic_id infos"
  by (induction infos arbitrary: k) auto

lemma start_cores_loop_roles:
  "map (\<lambda>c. mp_lapic_id c = bsp \<and> mp_extra_argument c = 0 \<or> mp_lapic_id c \<noteq> bsp \<and> mp_goto_address c = entry)
     (start_cores_loop entry bsp k infos) = replicate (length infos) True"
  by (induction infos arbitrary: k) auto

lemma start_cores_loop_bsp:
  "filter (\<lambda>c. mp_lapic_id c = bsp) (map (mp_extra_argument_update (\<lambda>_. 0)) infos) =
   filter (\<lambda>c. mp_lapic_id c = bsp) (start_cores_loop entry bsp k infos)"
  by (induction infos arbitrary: k) auto

text \<open>C28: when exactly one of the cores that the boot loader reports is the one it started the
  kernel on, the loop of \<open>start_cores\<close> gives the cores the numbers 0 to n - 1, each to exactly one
  core, whatever their order; the boot core is number 0 and is not sent anywhere, and every other core
  is sent to \<open>core_entry\<close>; the identities of the cores are left alone.\<close>

theorem start_cores_ids:
  assumes "Suc (other_cores bsp infos) = length infos"
  shows "mset (map mp_extra_argument (start_cores_loop entry bsp 1 infos)) =
      mset (map of_nat [0..<length infos]) \<and>
    map mp_lapic_id (start_cores_loop entry bsp 1 infos) = map mp_lapic_id infos \<and>
    map (\<lambda>c. mp_lapic_id c = bsp \<and> mp_extra_argument c = 0 \<or> mp_lapic_id c \<noteq> bsp \<and> mp_goto_address c = entry)
      (start_cores_loop entry bsp 1 infos) = replicate (length infos) True \<and>
    filter (\<lambda>c. mp_lapic_id c = bsp) (map (mp_extra_argument_update (\<lambda>_. 0)) infos) =
      filter (\<lambda>c. mp_lapic_id c = bsp) (start_cores_loop entry bsp 1 infos)"
proof (intro conjI)
  define n where "n = other_cores bsp infos"
  have len: "length infos = Suc n" using assms by (simp add: n_def)
  have upt: "[0..<Suc n] = 0 # [1..<1 + n]" by (simp add: upt_conv_Cons del: upt_Suc)
  have "mset (map mp_extra_argument (start_cores_loop entry bsp (of_nat 1) infos)) =
      replicate_mset 1 0 + mset (map of_nat [1..<1 + n])"
    unfolding start_cores_loop_ids len n_def [symmetric] by simp
  then show "mset (map mp_extra_argument (start_cores_loop entry bsp 1 infos)) =
      mset (map of_nat [0..<length infos])"
    unfolding len upt by (simp del: upt_Suc)
qed (simp_all only: start_cores_loop_lapic start_cores_loop_roles start_cores_loop_bsp)

theorem start_cores_ids_witness:
  "let infos = map (\<lambda>i. \<lparr>mp_lapic_id = i, mp_goto_address = 0, mp_extra_argument = 0\<rparr>) [6, 2, 4] in
     Suc (other_cores 2 infos) = length infos \<and>
     map mp_extra_argument (start_cores_loop 0x1000 2 1 infos) = [1, 0, 2] \<and>
     mset (map mp_extra_argument (start_cores_loop 0x1000 2 1 infos)) = mset (map of_nat [0..<length infos])"
  using start_cores_ids [of 2 "map (\<lambda>i. \<lparr>mp_lapic_id = i, mp_goto_address = 0, mp_extra_argument = 0\<rparr>) [6, 2, 4]" "0x1000"]
  by (simp add: Let_def other_cores_def add_mset_commute upt_rec del: mset_upt)

end
