(* ===== verification/Cpu_Props.thy ===== *)
theory Cpu_Props
  imports Cpu
begin

text \<open>The early set up of a core: which processors it accepts, by the bits of the CPUID leaves, and the
  control registers it leaves, by their bits.\<close>

text \<open>The bits of the words CPUID reports, as the processor's manual numbers them.\<close>

definition word_has :: "nat set \<Rightarrow> u32 \<Rightarrow> bool" where
  "word_has ns w \<longleftrightarrow> (\<forall>n\<in>ns. bit w n)"

definition required_features :: "cpuid_fun \<Rightarrow> bool" where
  "required_features get_cpuid \<longleftrightarrow>
     (\<exists>eax ebx ecx edx. get_cpuid 0x01 0 = Some (eax, ebx, ecx, edx) \<and>
        word_has {0, 9, 12, 13, 19, 20, 22, 23, 26, 28, 29} ecx) \<and>
     (\<exists>eax ebx ecx edx. get_cpuid 0x07 0 = Some (eax, ebx, ecx, edx) \<and>
        word_has {3, 5, 7, 8, 10, 20} ebx \<and> word_has {2} ecx) \<and>
     (\<exists>eax ebx ecx edx. get_cpuid 0x80000001 0 = Some (eax, ebx, ecx, edx) \<and>
        word_has {0, 5} ecx \<and> word_has {11, 20} edx)"

lemma has_bit:
  assumes "bf_find L f 0 = Some (k, 1)"
  shows "has L w f \<longleftrightarrow> bit w k"
proof -
  have "take_bit 1 x \<noteq> 0 \<longleftrightarrow> odd x" for x :: u32 by (simp add: odd_iff_mod_2_eq_one)
  then show ?thesis using assms by (simp add: has_def bf_get_def bit_iff_odd_drop_bit)
qed

lemma features_bits:
  "has CPUID_VERSION_INFO_ECX w ''SSE3'' = bit w 0" "has CPUID_VERSION_INFO_ECX w ''SSSE3'' = bit w 9"
  "has CPUID_VERSION_INFO_ECX w ''FMA'' = bit w 12" "has CPUID_VERSION_INFO_ECX w ''CMPXCHG16B'' = bit w 13"
  "has CPUID_VERSION_INFO_ECX w ''SSE4_1'' = bit w 19" "has CPUID_VERSION_INFO_ECX w ''SSE4_2'' = bit w 20"
  "has CPUID_VERSION_INFO_ECX w ''MOVBE'' = bit w 22" "has CPUID_VERSION_INFO_ECX w ''POPCNT'' = bit w 23"
  "has CPUID_VERSION_INFO_ECX w ''XSAVE'' = bit w 26" "has CPUID_VERSION_INFO_ECX w ''AVX'' = bit w 28"
  "has CPUID_VERSION_INFO_ECX w ''F16C'' = bit w 29"
  by (intro has_bit; simp add: CPUID_VERSION_INFO_ECX_def)+

lemma structured_features_bits:
  "has CPUID_STRUCTURED_EXTENDED_FEATURE_FLAGS_EBX w ''BMI1'' = bit w 3"
  "has CPUID_STRUCTURED_EXTENDED_FEATURE_FLAGS_EBX w ''AVX2'' = bit w 5"
  "has CPUID_STRUCTURED_EXTENDED_FEATURE_FLAGS_EBX w ''SMEP'' = bit w 7"
  "has CPUID_STRUCTURED_EXTENDED_FEATURE_FLAGS_EBX w ''BMI2'' = bit w 8"
  "has CPUID_STRUCTURED_EXTENDED_FEATURE_FLAGS_EBX w ''INVPCID'' = bit w 10"
  "has CPUID_STRUCTURED_EXTENDED_FEATURE_FLAGS_EBX w ''SMAP'' = bit w 20"
  "has CPUID_STRUCTURED_EXTENDED_FEATURE_FLAGS_ECX w ''UMIP'' = bit w 2"
  by (intro has_bit; simp add: CPUID_STRUCTURED_EXTENDED_FEATURE_FLAGS_EBX_def
      CPUID_STRUCTURED_EXTENDED_FEATURE_FLAGS_ECX_def)+

lemma extended_features_bits:
  "has CPUID_EXTENDED_CPU_SIG_ECX w ''LAHF_SAHF_64'' = bit w 0" "has CPUID_EXTENDED_CPU_SIG_ECX w ''LZCNT'' = bit w 5"
  "has CPUID_EXTENDED_CPU_SIG_EDX w ''SYSCALL_SYSRET_64'' = bit w 11"
  "has CPUID_EXTENDED_CPU_SIG_EDX w ''EXECUTE_DIS'' = bit w 20"
  by (intro has_bit; simp add: CPUID_EXTENDED_CPU_SIG_ECX_def CPUID_EXTENDED_CPU_SIG_EDX_def)+

lemma validate_features:
  "arch_validate_required_cpu_features get_cpuid = (if required_features get_cpuid then Some () else None)"
  unfolding arch_validate_required_cpu_features_def cpuid_def cpuid_count_def required_features_def
    CPUID_VERSION_INFO_def CPUID_STRUCTURED_EXTENDED_FEATURE_FLAGS_def CPUID_EXTENDED_CPU_SIG_def
    features_bits structured_features_bits extended_features_bits
  by (cases "get_cpuid 0x01 0"; cases "get_cpuid 0x07 0"; cases "get_cpuid 0x80000001 0")
    (auto simp: word_has_def)

section \<open>The registers\<close>

text \<open>The bits of a control register.\<close>

definition reg_bits :: "nat list \<Rightarrow> u64" where
  "reg_bits ns = foldr (\<lambda>n w. 2 ^ n OR w) ns 0"

lemma efer_bits:
  "bf_set MSR_IA32_EFER_REGISTER ''sce'' 1 (bf_set MSR_IA32_EFER_REGISTER ''nxe'' 1 (w :: u32)) = w OR 0x801"
proof -
  have f: "bf_find MSR_IA32_EFER_REGISTER ''sce'' 0 = Some (0, 1)" "bf_find MSR_IA32_EFER_REGISTER ''nxe'' 0 = Some (11, 1)"
    by (simp_all add: MSR_IA32_EFER_REGISTER_def)
  have s: "x AND NOT m OR m = x OR m" for x m :: u32 by (rule bit_word_eqI) (auto simp: bit_simps)
  have c: "push_bit 11 (mask 1) = (0x800 :: u32)" "push_bit 11 (take_bit 1 1) = (0x800 :: u32)"
    "push_bit 0 (mask 1) = (1 :: u32)" "push_bit 0 (take_bit 1 1) = (1 :: u32)" "0x800 OR 1 = (0x801 :: u32)"
    by simp_all
  show ?thesis unfolding bf_set_def f option.case prod.case c s or.assoc ..
qed

lemma early_init_eq:
  "arch_early_init get_cpuid c = (if required_features get_cpuid then
     Some (c\<lparr>c_cr0 := reg_bits [0, 1, 5, 16, 31], c_cr4 := reg_bits [5, 7, 9, 10, 11, 18, 20, 21],
       msr := (msr c)(MSR_IA32_EFER := ucast (ucast (msr c MSR_IA32_EFER) OR 0x801 :: u32))\<rparr>)
   else None)"
  by (simp add: arch_early_init_def validate_features rdmsr_eq wrmsr_eq efer_bits Let_def BIT_def reg_bits_def)

lemma efer_low: "ucast (ucast x OR 0x801 :: u32) = (x AND 0xFFFFFFFF) OR reg_bits [0, 11]" for x :: u64
proof -
  have "ucast (ucast x OR 0x801 :: u32) = take_bit 32 x OR 0x801"
    by (simp add: unsigned_or_eq unsigned_ucast_eq)
  moreover have "take_bit 32 x = x AND 0xFFFFFFFF" by (simp add: take_bit_eq_mask mask_eq_exp_minus_1)
  ultimately show ?thesis by (simp add: reg_bits_def)
qed

text \<open>C29: The early set up stops a core unless CPUID reports every feature the kernel is built for, each at
  its bit of its leaf.  Otherwise it leaves exactly the bits of CR0 for paging, protection, monitoring
  of the coprocessor, write protection and numeric errors, and of CR4 for PAE, global pages, the SSE
  and XSAVE state, UMIP, SMEP and SMAP; EFER keeps its lower half, with system calls and no-execute
  turned on, but loses its upper half; nothing else of the core changes.\<close>

theorem arch_early_init_correct:
  "arch_early_init get_cpuid c = (if required_features get_cpuid then
     Some (c\<lparr>c_cr0 := reg_bits [0, 1, 5, 16, 31], c_cr4 := reg_bits [5, 7, 9, 10, 11, 18, 20, 21],
       msr := (msr c)(0xC0000080 := (msr c 0xC0000080 AND 0xFFFFFFFF) OR reg_bits [0, 11])\<rparr>)
   else None)"
  using early_init_eq [of get_cpuid c] by (simp only: efer_low MSR_IA32_EFER_def)

end
