(* ===== verification/Spec2Isabelle.thy ===== *)
theory Spec2Isabelle
  imports Phys_Props Bytes Sched_Props Snprintf_Fmt Page_Fault Registers Boot_Props Intr_Props Boot_Entry Slab_Props
    Virt_Props Cpu_Props
begin

text \<open>
  A verification development for the Tomato kernel, a small x86-64 kernel in C.  Paths are below
  \<open>src/src\<close> of the repository unless they start with \<open>src\<close>.

  \<^bold>\<open>The program.\<close>  The boot loader hands over a memory map.  \<open>boot/virt.c\<close> takes pages from it, builds
  the page tables and gives the rest to the buddy allocator of \<open>mem/phys.c\<close>, which counts pages with
  \<open>mem/accounting.c\<close>.  Slab allocators (\<open>mem/alloc.c\<close>) cut its pages into objects.  Virtual memory is a
  tree of regions (\<open>mem/vmar.c\<close>) whose children are in a red-black tree (\<open>lib/rbtree\<close>) that also keeps
  the largest gap; pages of a mapping appear when they are touched, through the page fault entry of
  \<open>irq/intr.c\<close> and \<open>mem/virt.c\<close>.  Threads (\<open>thread/\<close>) have a stack in that memory (\<open>mem/stack.c\<close>) and
  run under a cooperative scheduler with a queue per core.  \<open>boot/entry.c\<close> brings this up.

  \<^bold>\<open>Conventions\<close> (\<open>Prelude\<close>).  A pointer is its 64-bit address and integers are words of their width.
  A function that may fail an assertion, dereference a null pointer or not come back returns an option;
  \<open>None\<close> is that it does not return.  An \<open>err_t\<close> is the datatype \<open>err\<close>.  A struct in memory is one field
  of the state record per member, by address; each layer extends the record of the one below, or holds
  it as a field.

  \<^bold>\<open>The theories and what they hold.\<close>

  \<^item> \<open>Bitfields\<close>, \<open>Registers\<close>, \<open>Arch\<close>: the bit-fields of C as lists of widths; the register unions of
    \<open>arch/cpuid.h\<close>, \<open>arch/msr.h\<close>, \<open>irq/apic.c\<close> and \<open>irq/intr.c\<close>; the constants of \<open>arch/virt.h\<close> and the
    alignment macros.  The fields of every union fill its word, but for the selector of an error code
    (16 of 32 bits) and EFER, whose fields add up to 64 bits over a word of 32.
  \<^item> \<open>Rb_Heap\<close>, \<open>Rb_Insert\<close>, \<open>Rb_Erase\<close>, \<open>Rb_Walk\<close>, \<open>Rb_Search\<close>, \<open>Rb_Linked\<close>, \<open>Rb_Augment\<close>: the code of
    \<open>lib/rbtree\<close>, statement by statement over a heap of nodes with the colour in the low bits of the parent
    word.  \<open>Rb_Spec\<close> is the abstract algorithm (a tree and the path above it), \<open>Rb_Rep\<close> how the heap
    represents it and the contract of the augment callbacks as a locale; \<open>Rb_Erase_Loop\<close>,
    \<open>Rb_Erase_Node\<close>, \<open>Rb_Erase_All\<close> and \<open>Rb_Tree\<close> are the refinement.  The results: order, colours and black
    height are kept, the sequence of nodes changes by exactly the node inserted or erased, the walks and
    searches find what they should, and augmented data is right everywhere.
  \<^item> \<open>Sync\<close>: mutex, readers-writer lock, spinlock on their state words.  A lock is a locale (what an invariant
    over the holders must keep, so that a holder can always release), which the mutex and the
    readers-writer lock interpret: mutual exclusion of the two for any interleaving of any number of threads.  Of
    the spinlock only the operations are modelled.  \<open>Accounting\<close>: the functions of the page counters as
    programs of atomic accesses (a subtraction takes effect before the assertion behind it), run by one
    thread to the end or interleaved, and the conservation of pages.
  \<^item> \<open>Mem_Heap\<close>, \<open>Phys\<close>: the record of the memory layer and the buddy allocator; \<open>Blocks\<close> (aligned blocks of
    addresses), \<open>Phys_Buddy\<close> (the invariant: bitmap and free lists agree, no two blocks overlap, free blocks
    are clean), \<open>Phys_Ops\<close>, \<open>Phys_Inv\<close>, \<open>Phys_Props\<close>: what an allocation hands out is clean, large
    enough, disjoint from the rest and accounted for, and what remains free is exactly the rest.
  \<^item> \<open>Lists\<close>, \<open>Slab\<close>: \<open>lib/list.h\<close> and the slab allocators on the words of memory; \<open>Virt\<close>: the page
    tables of \<open>mem/virt.c\<close>.  \<open>Virt_Props\<close> (populating a range: what the processor's walk finds afterwards).  \<open>Slab_Inv\<close> (a slab: its objects, its free list, its count of objects in use),
    \<open>Slab_Lists\<close> (the three lists of slabs), \<open>Slab_Create\<close> (a page becomes a slab), \<open>Slab_Layout\<close> (the
    arithmetic of \<open>DEFINE_ALLOC\<close>), \<open>Slab_Props\<close> (\<open>mem_alloc\<close> and \<open>mem_free\<close> over the page allocator and the
    page tables, with a small machine on which they run).
  \<^item> \<open>Bytes\<close>, \<open>Snprintf\<close>, \<open>Snprintf_Num\<close>, \<open>Snprintf_Fmt\<close>: \<open>lib/string.c\<close> and \<open>lib/snprintf.c\<close>, against the usual
    notation of numbers and a recursive description of formats.
  \<^item> \<open>Kernel\<close>, \<open>Vmar\<close>, \<open>Stacks\<close>: objects, regions, stacks, the page fault handler.  \<open>Vmar_Inv\<close>, \<open>Vmar_Link\<close>,
    \<open>Vmar_Unlink\<close>, \<open>Vmar_Place\<close>, \<open>Vmar_Alloc\<close>, \<open>Vmar_Find\<close>, \<open>Vmar_Props\<close>, \<open>Page_Fault\<close>: the invariant of a region
    (children in order, disjoint, with the right gaps), allocation against the set of free pages, the
    lookup through nested regions, which faults are served and that the page is there afterwards.
  \<^item> \<open>Threads\<close>, \<open>Sched_Inv\<close>, \<open>Sched_Props\<close>: threads, run queue and scheduler as one core sees them; the
    refinement of an abstract machine (the running thread and the queue), operation by operation from any
    state with the invariant, and the edges of the state diagram.  The machine has one core; a thread that
    exits is not freed by it (its reference count is above one, which holds for none that
    \<open>thread_create\<close> alone has made); that \<open>sched_init\<close> leads to the invariant is not proved; and an idle
    core waits for an interrupt that is assumed to come.
  \<^item> \<open>Boot\<close>, \<open>Boot_Mem\<close>, \<open>Boot_Tables\<close>, \<open>Boot_Props\<close>: \<open>boot/virt.c\<close>; the early allocator, the walk of the
    processor through the tables being built, and the handing over to the buddy allocator.
  \<^item> \<open>Cpu\<close>, \<open>Cpu_Props\<close>, \<open>Intr\<close>, \<open>Intr_Props\<close>: control and model specific registers, descriptor tables, the local APIC, the
    interrupt gates, exceptions, the features a core is checked for and the registers it is set up with, the
    entry and exit of a page fault.
  \<^item> \<open>Boot_Entry\<close>: \<open>_start\<close> in its order, the locals of the cores, the start of the other cores.

  \<^bold>\<open>Loops and bounds.\<close>  Loops over data that might be cyclic (trees, lists, the free levels) are
  \<open>partial_function\<close>s, and the theorems give the value they return, so termination is part of each; loops
  with a counter are structural recursions on what is left of it, so no fuel is used.  Places of the
  source where a count could wrap are hypotheses of the theorem (sizes below \<open>2 ^ 64\<close>, physical addresses
  below \<open>2 ^ 52\<close>, as the hardware has it), and each theorem with a hypothesis is applied to a concrete state.

  \<^bold>\<open>Not modelled.\<close>  Concurrency inside the memory and region code (its locks are taken on the model's
  state, by one core at a time); the counters and the locks alone are modelled under interleaving.  TLB
  flushes, the assembler of the context switch (\<open>thread/thread.S\<close>), the linker script, single
  instructions of \<open>arch/intrin.h\<close> except for their effect, the console (\<open>lib/trace.c\<close>), the stack protector
  (\<open>lib/sp.c\<close>), macro machinery (\<open>lib/cpp_magic.h\<close>, \<open>lib/container_of.h\<close>, \<open>util/atomic.h\<close>), and the part
  of the vendored \<open>boot/limine.h\<close> that the kernel does not read.  The boot loader's responses, CPUID and the
  addresses the linker chooses are arguments.  The bitmap of the buddy allocator is a map of its own, beside
  the memory, so that an access to a page of it that was never mapped cannot fault in the model.

  \<^bold>\<open>What it showed.\<close>  The run queue of a core is a stack: a thread that yields is selected again at once,
  whoever else is ready (\<open>thread_yield_keeps_core\<close> in \<open>Sched_Props\<close>).  The upper half of EFER is lost when
  a core is set up (\<open>arch_early_init_correct\<close> in \<open>Cpu_Props\<close>).
\<close>

end
